(* ===== verification/Prelude.thy ===== *)
theory Prelude
  imports Main "HOL-Library.Word"
begin

text \<open>
  Shared vocabulary of the development.  The kernel is compiled with \<open>-m32\<close>, so
  \<open>unsigned int\<close>, \<open>unsigned long\<close> (\<open>_size_t\<close>), \<open>_u32_t\<close> and every pointer are
  32-bit words; \<open>_ssize_t\<close> and \<open>int\<close> are the same words read by \<^const>\<open>sint\<close>.
  The theory also holds the lemmas on words, bits and counted loops that all
  components use.
\<close>

unbundle bit_operations_syntax

section \<open>Machine types and the constants of \<open>kernel/def.h\<close>\<close>

type_synonym u8 = "8 word"
type_synonym u16 = "16 word"
type_synonym u32 = "32 word"
type_synonym u64 = "64 word"

abbreviation NULL :: u32 where "NULL \<equiv> 0"

abbreviation HIGH_ATTR :: u32 where "HIGH_ATTR \<equiv> 0x100000"
abbreviation PAGE_SIZE :: u32 where "PAGE_SIZE \<equiv> 0x1000"
abbreviation PAGE_PDE_INDEX :: u32 where "PAGE_PDE_INDEX \<equiv> 0x400"
abbreviation PAGE_PTE_INDEX :: u32 where "PAGE_PTE_INDEX \<equiv> 0x400"
abbreviation KERNEL_STACK_SIZE :: u32 where "KERNEL_STACK_SIZE \<equiv> 0x2000"
abbreviation PAGE_OFFSET :: u32 where "PAGE_OFFSET \<equiv> 0xc0000000"
abbreviation GLOBL_PAGE_NUM :: u32 where "GLOBL_PAGE_NUM \<equiv> 0x30000"
abbreviation DMMAP_PAGE_MAX :: u32 where "DMMAP_PAGE_MAX \<equiv> 0x20000"

named_theorems word_nat \<open>word arithmetic that does not wrap, read on natural numbers\<close>
named_theorems frame \<open>fields an operation does not touch\<close>

section \<open>Word arithmetic without wrap-around\<close>

lemma unat_u32_less [simp]: "unat (x :: u32) < 4294967296"
  using unsigned_less [of x] by simp

lemma unat_add_nowrap [word_nat]:
  fixes a b :: "'a::len word"
  assumes "unat a + unat b < 2 ^ LENGTH('a)"
  shows "unat (a + b) = unat a + unat b"
  using assms by (simp add: unat_word_ariths)

lemma unat_add32 [word_nat]:
  fixes a b :: u32
  assumes "unat a + unat b < 4294967296"
  shows "unat (a + b) = unat a + unat b"
  using assms by (simp add: unat_word_ariths)

lemma unat_mult32 [word_nat]:
  fixes a b :: u32
  assumes "unat a * unat b < 4294967296"
  shows "unat (a * b) = unat a * unat b"
  using assms by (simp add: unat_word_ariths)

lemma unat_sub32 [word_nat]:
  fixes a b :: u32
  assumes "b \<le> a"
  shows "unat (a - b) = unat a - unat b"
  using assms by (rule unat_sub)

lemma unat_Suc_less:
  fixes p q :: u32
  assumes "p < q"
  shows "unat (p + 1) = Suc (unat p)"
proof -
  have "unat p < unat q" using assms by (simp add: word_less_nat_alt)
  with unat_u32_less [of q] have "unat p + 1 < 4294967296" by linarith
  then show ?thesis by (simp add: unat_add32)
qed

lemma unat_pred:
  fixes p :: u32
  assumes "0 < p"
  shows "unat (p - 1) = unat p - 1"
proof -
  have "1 \<le> p" using assms by (simp add: word_le_nat_alt word_less_nat_alt)
  then show ?thesis by (simp add: unat_sub)
qed

lemma unat_pred_less:
  fixes n :: u32
  assumes "n \<noteq> 0"
  shows "unat (n - 1) < unat n"
proof -
  have "0 < n" using assms by (simp add: word_neq_0_conv)
  then show ?thesis by (simp add: unat_pred word_less_nat_alt)
qed

lemma unat_pred_Suc:
  fixes n :: u32
  assumes "n \<noteq> 0"
  shows "unat n = Suc (unat (n - 1))"
proof -
  have "0 < n" using assms by (simp add: word_neq_0_conv)
  then show ?thesis by (simp add: unat_pred word_less_nat_alt)
qed

lemma unat_div_u32 [simp]: "unat ((a :: u32) div b) = unat a div unat b"
  by (simp add: unat_div)

lemma unat_mod_u32 [simp]: "unat ((a :: u32) mod b) = unat a mod unat b"
  by (simp add: unat_mod)

lemma of_nat_unat_u32 [simp]: "of_nat (unat x) = (x :: u32)"
  by simp

lemma unat_of_nat_u32: "n < 4294967296 \<Longrightarrow> unat (of_nat n :: u32) = n"
  by (simp add: unat_of_nat)

lemma unat_less_Suc_word:
  fixes x i :: "'a::len word"
  shows "unat x < Suc (unat i) \<longleftrightarrow> unat x < unat i \<or> x = i"
  by (auto simp: less_Suc_eq word_unat_eq_iff)

lemma unat_ucast_up:
  fixes x :: "'a::len word"
  assumes "LENGTH('a) \<le> LENGTH('b::len)"
  shows "unat (ucast x :: 'b word) = unat x"
proof -
  have "unat x < 2 ^ LENGTH('b)"
    using unsigned_less [of x] assms by (meson order_less_le_trans power_increasing one_le_numeral)
  then show ?thesis by (simp add: unsigned_ucast_eq take_bit_nat_eq_self)
qed

section \<open>Single bits\<close>

lemma drop_bit_and_1_eq_0:
  fixes x :: "'a::len word"
  shows "drop_bit n x AND 1 = 0 \<longleftrightarrow> \<not> bit x n"
  by (simp only: and_one_eq bit_iff_odd_drop_bit even_iff_mod_2_eq_zero not_not)

lemma bit_push_1:
  fixes n :: nat
  shows "bit (push_bit n 1 :: 'a::len word) m \<longleftrightarrow> m = n \<and> n < LENGTH('a)"
  by (auto simp: bit_exp_iff)

lemma bit_clear_push:
  fixes x :: "'a::len word"
  assumes "m < LENGTH('a)"
  shows "bit (x AND NOT (push_bit n 1)) m \<longleftrightarrow> bit x m \<and> m \<noteq> n"
  using assms by (auto simp: bit_and_iff bit_not_iff bit_exp_iff)

lemma bit_set_push:
  fixes x :: "'a::len word"
  assumes "m < LENGTH('a)"
  shows "bit (x OR push_bit n 1) m \<longleftrightarrow> bit x m \<or> m = n"
  using assms by (auto simp: bit_or_iff bit_exp_iff)

text \<open>Rounding down to a power of two.\<close>

lemma unat_and_not_mask:
  fixes x :: u32
  assumes "n < 32"
  shows "unat (x AND NOT (mask n)) = unat x div 2 ^ n * 2 ^ n"
proof -
  have p: "x AND NOT (mask n) = drop_bit n x * 2 ^ n"
    unfolding push_bit_eq_mult [symmetric] by (rule bit_word_eqI) (auto simp: bit_simps)
  have u: "unat (2 ^ n :: u32) = 2 ^ n"
  proof -
    have "(2 :: nat) ^ n < 2 ^ 32" using assms by (intro power_strict_increasing) simp_all
    then have "unat (of_nat (2 ^ n) :: u32) = 2 ^ n" by (intro unat_of_nat_u32) simp
    then show ?thesis by simp
  qed
  have d: "unat (drop_bit n x) = unat x div 2 ^ n" using u by (simp add: unat_drop_bit_eq drop_bit_eq_div)
  have "unat x div 2 ^ n * 2 ^ n \<le> unat x" by simp
  then have "unat (drop_bit n x) * unat (2 ^ n :: u32) < 4294967296"
    using unat_u32_less [of x] unfolding u d by linarith
  from unat_mult32 [OF this] show ?thesis unfolding p u d .
qed

section \<open>Intervals that grow by one\<close>

lemma Diff_interval_Suc:
  fixes a n :: nat
  shows "F - {a..<a + n} - {a + n} = F - {a..<a + Suc n}"
  by auto

lemma Un_interval_Suc:
  fixes a n :: nat
  shows "F \<union> {a..<a + n} \<union> {a + n} = F \<union> {a..<a + Suc n}"
  by auto

section \<open>Counted loops\<close>

text \<open>
  \<open>for (i = lo; i < hi; i++) body\<close> with no \<open>break\<close>: the body is run on the state for
  each index in order.
\<close>

definition for_loop :: "u32 \<Rightarrow> u32 \<Rightarrow> (u32 \<Rightarrow> 's \<Rightarrow> 's) \<Rightarrow> 's \<Rightarrow> 's" where
  "for_loop lo hi body s = fold (\<lambda>i. body (of_nat i)) [unat lo..<unat hi] s"

lemma for_loop_empty [simp]: "hi \<le> lo \<Longrightarrow> for_loop lo hi body s = s"
  by (simp add: for_loop_def word_le_nat_alt)

lemma fold_upt_invariant:
  assumes "P lo s"
    and "\<And>i s. lo \<le> i \<Longrightarrow> i < hi \<Longrightarrow> P i s \<Longrightarrow> P (Suc i) (f i s)"
    and "lo \<le> hi"
  shows "P hi (fold f [lo..<hi] s)"
  using assms
proof (induction hi)
  case 0
  then show ?case by simp
next
  case (Suc hi)
  show ?case
  proof (cases "lo = Suc hi")
    case True
    with Suc.prems(1) show ?thesis by simp
  next
    case False
    with Suc.prems have "P hi (fold f [lo..<hi] s)" by (intro Suc.IH) auto
    then have "P (Suc hi) (f hi (fold f [lo..<hi] s))"
      using Suc.prems False by (intro Suc.prems(2)) auto
    with False Suc.prems(3) show ?thesis by simp
  qed
qed

text \<open>The loop rule: an invariant indexed by the number of the next iteration.\<close>

lemma for_loop_invariant:
  assumes "P (unat lo) s"
    and "\<And>i s. unat lo \<le> unat i \<Longrightarrow> i < hi \<Longrightarrow> P (unat i) s \<Longrightarrow> P (Suc (unat i)) (body i s)"
    and "lo \<le> hi"
  shows "P (unat hi) (for_loop lo hi body s)"
  unfolding for_loop_def
proof (rule fold_upt_invariant [where P = P])
  show "P (unat lo) s" by (rule assms(1))
next
  show "unat lo \<le> unat hi" using assms(3) by (simp add: word_le_nat_alt)
next
  fix i s
  assume i: "unat lo \<le> i" "i < unat hi" and P: "P i s"
  from i unat_u32_less [of hi] have "i < 4294967296" by linarith
  then have u: "unat (of_nat i :: u32) = i" by (rule unat_of_nat_u32)
  have "(of_nat i :: u32) < hi" using i u by (simp add: word_less_nat_alt)
  then show "P (Suc i) (body (of_nat i) s)"
    using assms(2) [of "of_nat i" s] i P u by simp
qed

lemma for_loop_preserves:
  assumes "\<And>i s. f (body i s) = f s"
  shows "f (for_loop lo hi body s) = f s"
proof -
  have "f (fold (\<lambda>i. body (of_nat i)) is s) = f s" for "is" :: "nat list"
    by (induction "is" arbitrary: s) (simp_all add: assms)
  then show ?thesis by (simp add: for_loop_def)
qed

end
