(* ===== verification/Pmm.thy ===== *)
theory Pmm
  imports Prelude
begin

text \<open>
  The physical page allocator, \<open>src/kernel/mm/pmm.c\<close>: a bitmap with one bit per page
  frame (set = in use), a search window from \<open>pmm_head_pos\<close> to \<open>pmm_tail_pos\<close>, and a
  count of the free frames.  The record holds the file's static variables and the globals
  \<open>_mem_base_addr\<close>, \<open>_mem_length\<close> and \<open>mem_page_count\<close> it reads; the bytes
  \<open>pmm_bitmap\<close> points to are a list.  Debug output is not part of the model.
\<close>

section \<open>State\<close>

record pmm_state =
  mem_base_addr :: u32
  mem_length :: u32
  mem_page_count :: u32
  pmm_bitmap :: "u8 list"
  pmm_bitmap_length :: u32
  pmm_free_page_count :: u32
  pmm_head_pos :: u32
  pmm_tail_pos :: u32

section \<open>Operations\<close>

definition set_bit_mask :: "u32 \<Rightarrow> u8 \<Rightarrow> 'a pmm_state_scheme \<Rightarrow> u8 \<times> 'a pmm_state_scheme" where
  "set_bit_mask index m s =
     (if index < pmm_bitmap_length s * 8 then
        (let k = unat (index div 8); b = push_bit (unat (index mod 8)) 1 in
         if m = 0
         then (0, s\<lparr>pmm_bitmap := (pmm_bitmap s)[k := (pmm_bitmap s ! k) AND NOT b]\<rparr>)
         else (0, s\<lparr>pmm_bitmap := (pmm_bitmap s)[k := (pmm_bitmap s ! k) OR b]\<rparr>))
      else (-1, s))"

definition get_bit_mask :: "u32 \<Rightarrow> 'a pmm_state_scheme \<Rightarrow> u8" where
  "get_bit_mask index s =
     (if index < pmm_bitmap_length s * 8
      then drop_bit (unat (index mod 8)) (pmm_bitmap s ! unat (index div 8)) AND 1
      else -1)"

definition get_pmm_free_count :: "'a pmm_state_scheme \<Rightarrow> u32" where
  "get_pmm_free_count s = pmm_free_page_count s"

text \<open>\<open>for (; head < tail; tail--)\<close>: the result is the page address (\<open>NULL\<close> when none).\<close>

function pmm_alloc_page :: "'a pmm_state_scheme \<Rightarrow> u32 \<times> 'a pmm_state_scheme" where
  "pmm_alloc_page s =
     (if pmm_head_pos s < pmm_tail_pos s then
        if get_bit_mask (pmm_tail_pos s) s = 0 then
          (let s1 = snd (set_bit_mask (pmm_tail_pos s) 1 s);
               s2 = s1\<lparr>pmm_tail_pos := pmm_tail_pos s1 - 1,
                       pmm_free_page_count := pmm_free_page_count s1 - 1\<rparr>
           in ((pmm_tail_pos s2 + 1) * PAGE_SIZE, s2))
        else pmm_alloc_page (s\<lparr>pmm_tail_pos := pmm_tail_pos s - 1\<rparr>)
      else (NULL, s))"
  by pat_completeness auto
termination
proof (relation "measure (\<lambda>s. unat (pmm_tail_pos s))")
  show "wf (measure (\<lambda>s :: 'a pmm_state_scheme. unat (pmm_tail_pos s)))" by simp
next
  fix s :: "'a pmm_state_scheme"
  assume "pmm_head_pos s < pmm_tail_pos s"
  then have "0 < pmm_tail_pos s" by (simp add: word_less_nat_alt)
  then show "(s\<lparr>pmm_tail_pos := pmm_tail_pos s - 1\<rparr>, s) \<in> measure (\<lambda>s. unat (pmm_tail_pos s))"
    by (simp add: unat_pred word_less_nat_alt)
qed

declare pmm_alloc_page.simps [simp del]

text \<open>The inner loop of \<open>pmm_up_alloc_page\<close>: the index where it stops.\<close>

function pmm_scan :: "u32 \<Rightarrow> u32 \<Rightarrow> u32 \<Rightarrow> 'a pmm_state_scheme \<Rightarrow> u32" where
  "pmm_scan count p i s =
     (if i < count then
        if get_bit_mask (p + i) s \<noteq> 0 then i else pmm_scan count p (i + 1) s
      else i)"
  by pat_completeness auto
termination
  by (relation "measure (\<lambda>(count, p, i, s). unat count - unat i)")
    (auto simp: unat_Suc_less word_less_nat_alt)

declare pmm_scan.simps [simp del]

lemma pmm_bits_bound: "unat (n * 8 :: u32) \<le> 4294967288"
proof -
  have "unat (n * 8 :: u32) = (8 * unat n) mod (8 * 536870912)"
    by (simp add: unat_word_ariths mult.commute)
  also have "\<dots> = 8 * (unat n mod 536870912)" by (rule mult_mod_right [symmetric])
  finally have "unat (n * 8) = 8 * (unat n mod 536870912)" .
  moreover have "unat n mod 536870912 < 536870912" by simp
  ultimately show ?thesis by linarith
qed

lemma get_bit_mask_outside: "\<not> i < pmm_bitmap_length s * 8 \<Longrightarrow> get_bit_mask i s \<noteq> 0"
  by (simp add: get_bit_mask_def)

text \<open>
  The scan only moves over indices below the bitmap's end, so it never wraps; this is
  why the outer loop of \<open>pmm_up_alloc_page\<close> ends for every state.
\<close>

lemma pmm_scan_nowrap:
  assumes "unat p + unat i < 4294967296"
  shows "unat i \<le> unat (pmm_scan count p i s) \<and>
    (pmm_scan count p i s = i \<or>
     unat p + unat (pmm_scan count p i s) \<le> unat (pmm_bitmap_length s * 8))"
  using assms
proof (induction count p i s rule: pmm_scan.induct)
  case (1 count p i s)
  show ?case
  proof (cases "i < count \<and> get_bit_mask (p + i) s = 0")
    case True
    then have "p + i < pmm_bitmap_length s * 8"
      using get_bit_mask_outside by blast
    then have lt: "unat p + unat i < unat (pmm_bitmap_length s * 8)"
      using "1.prems" by (simp add: word_less_nat_alt unat_add32)
    have Si: "unat (i + 1) = Suc (unat i)" using True by (blast intro: unat_Suc_less)
    have "unat p + unat (i + 1) < 4294967296"
      using lt pmm_bits_bound [of "pmm_bitmap_length s"] Si by linarith
    with "1.IH" True have IH: "unat (i + 1) \<le> unat (pmm_scan count p (i + 1) s) \<and>
      (pmm_scan count p (i + 1) s = i + 1 \<or>
       unat p + unat (pmm_scan count p (i + 1) s) \<le> unat (pmm_bitmap_length s * 8))"
      by simp
    have "pmm_scan count p i s = pmm_scan count p (i + 1) s"
      using True by (simp add: pmm_scan.simps [of count p i s])
    with IH lt Si show ?thesis by auto
  next
    case False
    then show ?thesis by (auto simp: pmm_scan.simps [of count p i s])
  qed
qed

lemma pmm_up_step:
  assumes "p < tail" and "pmm_scan count p 0 s = i"
  shows "unat (p + i + 1) = unat p + unat i + 1"
proof -
  have s: "i = 0 \<or> unat p + unat i \<le> unat (pmm_bitmap_length s * 8)"
    using pmm_scan_nowrap [of p 0 count s] assms(2) by auto
  have "unat p + unat i + 1 < 4294967296"
  proof (cases "i = 0")
    case True
    have "unat p < unat tail" using assms(1) by (simp add: word_less_nat_alt)
    with unat_u32_less [of tail] have "unat p + 1 < 4294967296" by linarith
    with True show ?thesis by simp
  next
    case False
    with s pmm_bits_bound [of "pmm_bitmap_length s"] show ?thesis by linarith
  qed
  then show ?thesis by (simp add: unat_add32)
qed

text \<open>The second inner loop of \<open>pmm_up_alloc_page\<close> and the loop of \<open>pmm_free_page\<close>.\<close>

definition pmm_mark_run :: "u32 \<Rightarrow> u32 \<Rightarrow> u8 \<Rightarrow> 'a pmm_state_scheme \<Rightarrow> 'a pmm_state_scheme" where
  "pmm_mark_run p count m s = for_loop 0 count (\<lambda>i s. snd (set_bit_mask (p + i) m s)) s"

function pmm_up_loop :: "u32 \<Rightarrow> u32 \<Rightarrow> 'a pmm_state_scheme \<Rightarrow> u32 \<times> 'a pmm_state_scheme" where
  "pmm_up_loop count p s =
     (if p < pmm_tail_pos s then
        (let i = pmm_scan count p 0 s in
         if i = count then
           (let s1 = pmm_mark_run p count 1 s;
                s2 = (if p = pmm_head_pos s1
                      then s1\<lparr>pmm_head_pos := pmm_head_pos s1 + i\<rparr> else s1);
                s3 = s2\<lparr>pmm_free_page_count := pmm_free_page_count s2 - count\<rparr>
            in (p * PAGE_SIZE, s3))
         else pmm_up_loop count (p + i + 1) s)
      else (NULL, s))"
  by pat_completeness auto
termination
  by (relation "measure (\<lambda>(count, p, s). unat (pmm_tail_pos s) - unat p)")
    (auto simp: pmm_up_step word_less_nat_alt)

declare pmm_up_loop.simps [simp del]

definition pmm_up_alloc_page :: "u32 \<Rightarrow> 'a pmm_state_scheme \<Rightarrow> u32 \<times> 'a pmm_state_scheme" where
  "pmm_up_alloc_page count s = pmm_up_loop count (pmm_head_pos s) s"

definition pmm_free_page :: "u32 \<Rightarrow> u32 \<Rightarrow> 'a pmm_state_scheme \<Rightarrow> 'a pmm_state_scheme" where
  "pmm_free_page attr count s =
     (let index = attr div PAGE_SIZE;
          s1 = pmm_mark_run index count 0 s;
          s2 = (if index < pmm_head_pos s1 then s1\<lparr>pmm_head_pos := index\<rparr> else s1);
          s3 = (if index + count - 1 > pmm_tail_pos s2
                then s2\<lparr>pmm_tail_pos := index + count - 1\<rparr> else s2)
      in s3\<lparr>pmm_free_page_count := pmm_free_page_count s3 + count\<rparr>)"

text \<open>
  \<open>pmm_init\<close>: \<open>raw\<close> stands for the bytes that lie at \<open>_mem_base_addr\<close> before the call
  (the bitmap is placed over them).
\<close>

definition pmm_init_step :: "u32 \<Rightarrow> u32 \<Rightarrow> 'a pmm_state_scheme \<Rightarrow> 'a pmm_state_scheme" where
  "pmm_init_step mem_base_page i s =
     (if i < mem_base_page \<or> i \<ge> mem_page_count s then snd (set_bit_mask i 1 s)
      else (let s1 = snd (set_bit_mask i 0 s)
            in s1\<lparr>pmm_free_page_count := pmm_free_page_count s1 + 1\<rparr>))"

definition pmm_init :: "(nat \<Rightarrow> u8) \<Rightarrow> 'a pmm_state_scheme \<Rightarrow> 'a pmm_state_scheme" where
  "pmm_init raw s =
     (let len = (mem_page_count s + 7) div 8;
          s1 = s\<lparr>pmm_bitmap_length := len,
                 pmm_bitmap := map raw [0..<unat len],
                 mem_base_addr := mem_base_addr s + len,
                 pmm_free_page_count := 0\<rparr>;
          mem_base_page = (mem_base_addr s1 + PAGE_SIZE - 1) div PAGE_SIZE;
          s2 = for_loop 0 (pmm_bitmap_length s1 * 8) (pmm_init_step mem_base_page) s1
      in s2\<lparr>pmm_head_pos := mem_base_page, pmm_tail_pos := mem_page_count s2 - 1\<rparr>)"

section \<open>Abstraction: the set of free frames\<close>

definition pmm_free :: "'a pmm_state_scheme \<Rightarrow> nat set" where
  "pmm_free s = {i. i < 8 * length (pmm_bitmap s) \<and> \<not> bit (pmm_bitmap s ! (i div 8)) (i mod 8)}"

definition pmm_wf :: "'a pmm_state_scheme \<Rightarrow> bool" where
  "pmm_wf s \<longleftrightarrow> length (pmm_bitmap s) = unat (pmm_bitmap_length s) \<and>
     unat (pmm_bitmap_length s) \<le> 131072"

definition pmm_total :: "'a pmm_state_scheme \<Rightarrow> nat" where
  "pmm_total s = 8 * length (pmm_bitmap s)"

text \<open>
  The invariant of the allocator: the count is the number of free frames and every free
  frame lies inside the search window.
\<close>

definition pmm_inv :: "'a pmm_state_scheme \<Rightarrow> bool" where
  "pmm_inv s \<longleftrightarrow> pmm_wf s \<and>
     unat (pmm_free_page_count s) = card (pmm_free s) \<and>
     pmm_free s \<subseteq> {unat (pmm_head_pos s)..unat (pmm_tail_pos s)}"

lemma pmm_free_less_total: "i \<in> pmm_free s \<Longrightarrow> i < pmm_total s"
  by (simp add: pmm_free_def pmm_total_def)

lemma finite_pmm_free [simp]: "finite (pmm_free s)"
  by (rule finite_subset [of _ "{..<pmm_total s}"]) (auto dest: pmm_free_less_total)

lemma pmm_wf_total:
  assumes "pmm_wf s"
  shows "unat (pmm_bitmap_length s * 8) = pmm_total s" and "pmm_total s \<le> 1048576"
  using assms by (auto simp: pmm_wf_def pmm_total_def unat_mult32)

lemma pmm_free_cong:
  "pmm_bitmap s = pmm_bitmap t \<Longrightarrow> pmm_free s = pmm_free t"
  by (simp add: pmm_free_def)

lemma pmm_free_update [simp]:
  "pmm_free (s\<lparr>pmm_tail_pos := t\<rparr>) = pmm_free s"
  "pmm_free (s\<lparr>pmm_head_pos := h\<rparr>) = pmm_free s"
  "pmm_free (s\<lparr>pmm_free_page_count := c\<rparr>) = pmm_free s"
  by (simp_all add: pmm_free_def)

lemma pmm_wf_update [simp]:
  "pmm_wf (s\<lparr>pmm_tail_pos := t\<rparr>) = pmm_wf s"
  "pmm_wf (s\<lparr>pmm_head_pos := h\<rparr>) = pmm_wf s"
  "pmm_wf (s\<lparr>pmm_free_page_count := c\<rparr>) = pmm_wf s"
  by (simp_all add: pmm_wf_def)

section \<open>The bit operations\<close>

lemma get_bit_mask_free:
  assumes "pmm_wf s"
  shows "get_bit_mask i s = 0 \<longleftrightarrow> unat i \<in> pmm_free s"
  using pmm_wf_total [OF assms]
  by (simp add: get_bit_mask_def drop_bit_and_1_eq_0 pmm_free_def word_less_nat_alt
      pmm_total_def [symmetric])

lemma set_bit_mask_frame [simp, frame]:
  "pmm_head_pos (snd (set_bit_mask i m s)) = pmm_head_pos s"
  "pmm_tail_pos (snd (set_bit_mask i m s)) = pmm_tail_pos s"
  "pmm_free_page_count (snd (set_bit_mask i m s)) = pmm_free_page_count s"
  "pmm_bitmap_length (snd (set_bit_mask i m s)) = pmm_bitmap_length s"
  "mem_page_count (snd (set_bit_mask i m s)) = mem_page_count s"
  "mem_base_addr (snd (set_bit_mask i m s)) = mem_base_addr s"
  "mem_length (snd (set_bit_mask i m s)) = mem_length s"
  "length (pmm_bitmap (snd (set_bit_mask i m s))) = length (pmm_bitmap s)"
  "pmm_wf (snd (set_bit_mask i m s)) = pmm_wf s"
  "pmm_total (snd (set_bit_mask i m s)) = pmm_total s"
  by (simp_all add: set_bit_mask_def Let_def pmm_wf_def pmm_total_def)

lemma pmm_free_list_update:
  fixes B :: "u8 list"
  assumes "k < length B" and "j < 8"
  shows "{i. i < 8 * length B \<and> \<not> bit (B[k := B ! k AND NOT (push_bit j 1)] ! (i div 8)) (i mod 8)}
      = {i. i < 8 * length B \<and> \<not> bit (B ! (i div 8)) (i mod 8)} \<union> {8 * k + j}"
    and "{i. i < 8 * length B \<and> \<not> bit (B[k := B ! k OR push_bit j 1] ! (i div 8)) (i mod 8)}
      = {i. i < 8 * length B \<and> \<not> bit (B ! (i div 8)) (i mod 8)} - {8 * k + j}"
  using assms
  by (auto simp: nth_list_update bit_clear_push bit_set_push simp del: push_bit_of_1)

lemma pmm_free_set_bit_mask:
  assumes "pmm_wf s"
  shows "pmm_free (snd (set_bit_mask i 0 s)) =
      pmm_free s \<union> (if unat i < pmm_total s then {unat i} else {})"
    and "m \<noteq> 0 \<Longrightarrow> pmm_free (snd (set_bit_mask i m s)) = pmm_free s - {unat i}"
proof -
  have k: "unat i div 8 < length (pmm_bitmap s)" if "unat i < pmm_total s"
    using that by (simp add: pmm_total_def)
  have L: "i < pmm_bitmap_length s * 8 \<longleftrightarrow> unat i < pmm_total s"
    using pmm_wf_total [OF assms] by (simp add: word_less_nat_alt)
  have out: "unat i \<notin> pmm_free s" if "\<not> unat i < pmm_total s"
    using that pmm_free_less_total by blast
  show "pmm_free (snd (set_bit_mask i 0 s)) =
      pmm_free s \<union> (if unat i < pmm_total s then {unat i} else {})"
    using pmm_free_list_update(1) [OF k, of "unat i mod 8"]
    by (simp add: set_bit_mask_def L pmm_free_def Let_def del: push_bit_of_1)
  show "pmm_free (snd (set_bit_mask i m s)) = pmm_free s - {unat i}" if "m \<noteq> 0"
    using pmm_free_list_update(2) [OF k, of "unat i mod 8"] out that
    by (simp add: set_bit_mask_def L pmm_free_def Let_def del: push_bit_of_1)
qed

section \<open>Runs of frames\<close>

lemma pmm_mark_run_frame [simp, frame]:
  "pmm_head_pos (pmm_mark_run p n m s) = pmm_head_pos s"
  "pmm_tail_pos (pmm_mark_run p n m s) = pmm_tail_pos s"
  "pmm_free_page_count (pmm_mark_run p n m s) = pmm_free_page_count s"
  "pmm_bitmap_length (pmm_mark_run p n m s) = pmm_bitmap_length s"
  "mem_page_count (pmm_mark_run p n m s) = mem_page_count s"
  "mem_base_addr (pmm_mark_run p n m s) = mem_base_addr s"
  "pmm_wf (pmm_mark_run p n m s) = pmm_wf s"
  "pmm_total (pmm_mark_run p n m s) = pmm_total s"
  unfolding pmm_mark_run_def by (rule for_loop_preserves; simp)+

lemma pmm_free_mark_run:
  assumes wf: "pmm_wf s" and fit: "unat p + unat n \<le> pmm_total s"
  shows "m \<noteq> 0 \<Longrightarrow> pmm_free (pmm_mark_run p n m s) = pmm_free s - {unat p..<unat p + unat n}"
    and "pmm_free (pmm_mark_run p n 0 s) = pmm_free s \<union> {unat p..<unat p + unat n}"
proof -
  have add: "unat (p + i) = unat p + unat i" if "i < n" for i
    using that fit pmm_wf_total [OF wf] by (intro unat_add32) (simp add: word_less_nat_alt)
  define Q where "Q j t \<longleftrightarrow> pmm_wf t \<and> pmm_total t = pmm_total s \<and>
    pmm_free t = pmm_free s - {unat p..<unat p + j}" for j :: nat and t :: "'a pmm_state_scheme"
  have "Q (unat n) (pmm_mark_run p n m s)" if "m \<noteq> 0"
    unfolding pmm_mark_run_def
  proof (rule for_loop_invariant)
    show "Q (unat (0 :: u32)) s" using wf by (simp add: Q_def)
    show "Q (Suc (unat i)) (snd (set_bit_mask (p + i) m t))" if "i < n" "Q (unat i) t" for i t
      using that pmm_free_set_bit_mask(2) [of t m "p + i"] \<open>m \<noteq> 0\<close> add [of i]
      unfolding Q_def Diff_interval_Suc [symmetric] by simp
  qed simp
  then show "m \<noteq> 0 \<Longrightarrow> pmm_free (pmm_mark_run p n m s) = pmm_free s - {unat p..<unat p + unat n}"
    by (simp add: Q_def)
  define R where "R j t \<longleftrightarrow> pmm_wf t \<and> pmm_total t = pmm_total s \<and>
    pmm_free t = pmm_free s \<union> {unat p..<unat p + j}" for j :: nat and t :: "'a pmm_state_scheme"
  have "R (unat n) (pmm_mark_run p n 0 s)"
    unfolding pmm_mark_run_def
  proof (rule for_loop_invariant)
    show "R (unat (0 :: u32)) s" using wf by (simp add: R_def)
    show "R (Suc (unat i)) (snd (set_bit_mask (p + i) 0 t))" if "i < n" "R (unat i) t" for i t
      using that pmm_free_set_bit_mask(1) [of t "p + i"] add [of i] fit
      unfolding R_def Un_interval_Suc [symmetric] by (simp add: word_less_nat_alt)
  qed simp
  then show "pmm_free (pmm_mark_run p n 0 s) = pmm_free s \<union> {unat p..<unat p + unat n}"
    by (simp add: R_def)
qed

section \<open>One page from the top\<close>

lemma pmm_alloc_page_found:
  assumes "pmm_wf s" and "unat m \<in> pmm_free s" and "\<forall>i\<in>pmm_free s. i \<le> unat m"
    and "pmm_head_pos s < m" and "m \<le> pmm_tail_pos s"
  shows "pmm_alloc_page s = (m * PAGE_SIZE,
    (snd (set_bit_mask m 1 s))\<lparr>pmm_tail_pos := m - 1,
       pmm_free_page_count := pmm_free_page_count s - 1\<rparr>)"
  using assms
proof (induction s rule: pmm_alloc_page.induct)
  case (1 s)
  let ?t = "pmm_tail_pos s"
  have lt: "pmm_head_pos s < ?t" using "1.prems"(4,5) by simp
  show ?case
  proof (cases "?t = m")
    case True
    then have "get_bit_mask ?t s = 0" using "1.prems"(1,2) by (simp add: get_bit_mask_free)
    with lt True show ?thesis
      by (simp add: pmm_alloc_page.simps [of s] Let_def)
  next
    case False
    with "1.prems"(5) have mt: "m < ?t" by simp
    then have "unat ?t \<notin> pmm_free s" using "1.prems"(3) by (auto simp: word_less_nat_alt)
    then have ne: "get_bit_mask ?t s \<noteq> 0" using "1.prems"(1) by (simp add: get_bit_mask_free)
    from mt have "m \<le> ?t - 1"
      by (simp add: word_le_nat_alt word_less_nat_alt unat_pred)
    moreover have "snd (set_bit_mask m 1 (s\<lparr>pmm_tail_pos := ?t - 1\<rparr>))\<lparr>pmm_tail_pos := m - 1\<rparr>
        = snd (set_bit_mask m 1 s)\<lparr>pmm_tail_pos := m - 1\<rparr>"
      by (simp add: set_bit_mask_def Let_def)
    ultimately show ?thesis
      using "1.IH" [OF lt ne] "1.prems" lt ne by (simp add: pmm_alloc_page.simps [of s])
  qed
qed

lemma pmm_alloc_page_none:
  assumes "pmm_wf s" and "\<forall>i\<in>pmm_free s. i \<le> unat (pmm_head_pos s)"
  shows "pmm_alloc_page s = (NULL,
    s\<lparr>pmm_tail_pos := (if pmm_head_pos s < pmm_tail_pos s then pmm_head_pos s
                       else pmm_tail_pos s)\<rparr>)"
  using assms
proof (induction s rule: pmm_alloc_page.induct)
  case (1 s)
  let ?t = "pmm_tail_pos s"
  show ?case
  proof (cases "pmm_head_pos s < ?t")
    case True
    then have "unat ?t \<notin> pmm_free s" using "1.prems"(2) by (auto simp: word_less_nat_alt)
    then have ne: "get_bit_mask ?t s \<noteq> 0" using "1.prems"(1) by (simp add: get_bit_mask_free)
    have "\<not> pmm_head_pos s < ?t - 1 \<Longrightarrow> ?t - 1 = pmm_head_pos s"
      using True by (simp add: word_less_nat_alt unat_pred word_unat_eq_iff)
    with "1.IH" [OF True ne] "1.prems" True ne show ?thesis
      by (simp add: pmm_alloc_page.simps [of s])
  next
    case False
    then show ?thesis by (simp add: pmm_alloc_page.simps [of s])
  qed
qed

section \<open>Runs of pages from the bottom\<close>

lemma pmm_scan_spec:
  assumes wf: "pmm_wf s" and "unat p + unat i < 4294967296" and "i \<le> count"
  shows "unat (pmm_scan count p i s) \<le> unat count \<and>
    {unat p + unat i..<unat p + unat (pmm_scan count p i s)} \<subseteq> pmm_free s \<and>
    (pmm_scan count p i s \<noteq> count \<longrightarrow>
       unat p + unat (pmm_scan count p i s) \<notin> pmm_free s)"
  using assms
proof (induction count p i s rule: pmm_scan.induct)
  case (1 count p i s)
  let ?r = "pmm_scan count p i s"
  have pi: "unat (p + i) = unat p + unat i" using "1.prems"(2) by (rule unat_add32)
  show ?case
  proof (cases "i < count \<and> get_bit_mask (p + i) s = 0")
    case True
    then have inF: "unat p + unat i \<in> pmm_free s"
      using "1.prems"(1) pi by (simp add: get_bit_mask_free)
    then have "unat p + unat i < 1048576"
      using pmm_free_less_total pmm_wf_total(2) "1.prems"(1) by fastforce
    moreover have Si: "unat (i + 1) = Suc (unat i)" using True by (blast intro: unat_Suc_less)
    ultimately have "unat p + unat (i + 1) < 4294967296" by linarith
    moreover have "i + 1 \<le> count" using True Si by (simp add: word_le_nat_alt word_less_nat_alt)
    moreover have eq: "?r = pmm_scan count p (i + 1) s"
      using True by (simp add: pmm_scan.simps [of count p i s])
    ultimately have IH: "unat ?r \<le> unat count \<and>
        {unat p + Suc (unat i)..<unat p + unat ?r} \<subseteq> pmm_free s \<and>
        (?r \<noteq> count \<longrightarrow> unat p + unat ?r \<notin> pmm_free s)"
      using "1.IH" True "1.prems"(1) by (simp add: Si)
    have "{unat p + unat i..<unat p + unat ?r} \<subseteq>
        insert (unat p + unat i) {unat p + Suc (unat i)..<unat p + unat ?r}"
      by auto
    with IH inF show ?thesis by blast
  next
    case False
    then have "?r = i" by (auto simp: pmm_scan.simps [of count p i s])
    moreover have "i \<noteq> count \<longrightarrow> unat p + unat i \<notin> pmm_free s"
      using False "1.prems"(3) pi get_bit_mask_free [OF "1.prems"(1), of "p + i"] by auto
    ultimately show ?thesis using "1.prems"(3) by (simp add: word_le_nat_alt)
  qed
qed

definition pmm_run :: "'a pmm_state_scheme \<Rightarrow> nat \<Rightarrow> nat \<Rightarrow> bool" where
  "pmm_run s n q \<longleftrightarrow> {q..<q + n} \<subseteq> pmm_free s"

definition pmm_take_run :: "u32 \<Rightarrow> u32 \<Rightarrow> 'a pmm_state_scheme \<Rightarrow> 'a pmm_state_scheme" where
  "pmm_take_run p count s = (pmm_mark_run p count 1 s)\<lparr>
     pmm_head_pos := (if p = pmm_head_pos s then pmm_head_pos s + count else pmm_head_pos s),
     pmm_free_page_count := pmm_free_page_count s - count\<rparr>"

lemma pmm_up_loop_spec:
  assumes wf: "pmm_wf s"
  shows "(\<exists>q. p \<le> q \<and> q < pmm_tail_pos s \<and> pmm_run s (unat count) (unat q) \<and>
      (\<forall>x. unat p \<le> x \<and> x < unat q \<longrightarrow> \<not> pmm_run s (unat count) x) \<and>
      pmm_up_loop count p s = (q * PAGE_SIZE, pmm_take_run q count s)) \<or>
    (\<forall>x. unat p \<le> x \<and> x < unat (pmm_tail_pos s) \<longrightarrow> \<not> pmm_run s (unat count) x) \<and>
      pmm_up_loop count p s = (NULL, s)" (is "?found p \<or> ?none p")
  using wf
proof (induction count p s rule: pmm_up_loop.induct)
  case (1 count p s)
  define i where "i = pmm_scan count p 0 s"
  have sc: "unat i \<le> unat count" "{unat p..<unat p + unat i} \<subseteq> pmm_free s"
    "i \<noteq> count \<longrightarrow> unat p + unat i \<notin> pmm_free s"
    using pmm_scan_spec [OF "1.prems", of p 0 count] by (simp_all add: i_def)
  consider (stop) "\<not> p < pmm_tail_pos s" | (hit) "p < pmm_tail_pos s" "i = count"
    | (miss) "p < pmm_tail_pos s" "i \<noteq> count" by blast
  then show ?case
  proof cases
    case stop
    then show ?thesis
      by (auto simp: pmm_up_loop.simps [of count p s] word_less_nat_alt)
  next
    case hit
    then have "pmm_up_loop count p s = (p * PAGE_SIZE, pmm_take_run p count s)"
      by (simp add: pmm_up_loop.simps [of count p s] i_def [symmetric] Let_def pmm_take_run_def)
    with hit sc(2) show ?thesis by (auto simp: pmm_run_def)
  next
    case miss
    have nx: "unat (p + i + 1) = unat p + unat i + 1"
      using pmm_up_step [OF miss(1) i_def [symmetric]] .
    have eq: "pmm_up_loop count p s = pmm_up_loop count (p + i + 1) s"
      using miss by (simp add: pmm_up_loop.simps [of count p s] i_def [symmetric])
    have skip: "\<not> pmm_run s (unat count) x" if "unat p \<le> x" "x < unat (p + i + 1)" for x
    proof -
      have "unat i < unat count" using sc(1) miss(2) by (metis le_neq_implies_less word_unat_eq_iff)
      with that nx have "unat p + unat i \<in> {x..<x + unat count}" by auto
      with sc(3) miss(2) show ?thesis by (auto simp: pmm_run_def)
    qed
    have ext: "\<forall>x. unat p \<le> x \<and> x < b \<longrightarrow> \<not> pmm_run s (unat count) x"
      if "\<forall>x. unat (p + i + 1) \<le> x \<and> x < b \<longrightarrow> \<not> pmm_run s (unat count) x" for b
      using that skip by (meson not_le_imp_less)
    have le: "p \<le> q" if "p + i + 1 \<le> q" for q
      using that nx by (simp add: word_le_nat_alt)
    from "1.IH" [OF miss(1) i_def miss(2) "1.prems"] show ?thesis
      unfolding eq by (blast dest: ext le)
  qed
qed

section \<open>What the operations do under the invariant\<close>

lemma pmm_inv_wf: "pmm_inv s \<Longrightarrow> pmm_wf s"
  by (simp add: pmm_inv_def)

lemma pmm_inv_bound: "pmm_inv s \<Longrightarrow> i \<in> pmm_free s \<Longrightarrow> i < 1048576"
  using pmm_free_less_total pmm_wf_total(2) pmm_inv_wf by fastforce

lemma page_address:
  assumes "n < 1048576"
  shows "unat (of_nat n * PAGE_SIZE) = n * 4096"
  using assms by (simp add: unat_mult32 unat_of_nat_u32)

lemma page_address_div:
  assumes "n < 1048576"
  shows "of_nat n * PAGE_SIZE div PAGE_SIZE = (of_nat n :: u32)"
  using page_address [OF assms] assms by (simp add: word_unat_eq_iff unat_of_nat_u32)

lemma pmm_alloc_page_cases:
  assumes "pmm_inv s"
  obtains (none) "\<forall>f\<in>pmm_free s. f \<le> unat (pmm_head_pos s)"
      "pmm_alloc_page s = (NULL, s\<lparr>pmm_tail_pos :=
         (if pmm_head_pos s < pmm_tail_pos s then pmm_head_pos s else pmm_tail_pos s)\<rparr>)"
  | (some) m where "unat m = Max (pmm_free s)" "unat m \<in> pmm_free s"
      "\<forall>f\<in>pmm_free s. f \<le> unat m" "pmm_head_pos s < m"
      "pmm_alloc_page s = (m * PAGE_SIZE, (snd (set_bit_mask m 1 s))\<lparr>pmm_tail_pos := m - 1,
         pmm_free_page_count := pmm_free_page_count s - 1\<rparr>)"
proof (cases "\<forall>f\<in>pmm_free s. f \<le> unat (pmm_head_pos s)")
  case True
  with pmm_alloc_page_none [OF pmm_inv_wf [OF assms]] none show thesis by blast
next
  case False
  then obtain f where f: "f \<in> pmm_free s" "unat (pmm_head_pos s) < f" by (auto simp: not_le)
  define m :: u32 where "m = of_nat (Max (pmm_free s))"
  have M: "Max (pmm_free s) \<in> pmm_free s" using f(1) by (intro Max_in) auto
  then have m: "unat m = Max (pmm_free s)"
    using pmm_inv_bound [OF assms M] by (simp add: m_def unat_of_nat_u32)
  have le: "\<forall>g\<in>pmm_free s. g \<le> unat m" by (simp add: m)
  have hm: "pmm_head_pos s < m" using f le by (fastforce simp: word_less_nat_alt)
  have mt: "m \<le> pmm_tail_pos s" using assms M m by (auto simp: pmm_inv_def word_le_nat_alt)
  show thesis
    using some [OF m _ le hm] pmm_alloc_page_found [OF pmm_inv_wf [OF assms] _ le hm mt] M m
    by simp
qed

text \<open>\<open>pmm_alloc_page\<close> on every state of the allocator's invariant: when some frame above
  the head is free it takes the highest free frame, returns its (non-null) address and
  removes exactly that frame from the free set; otherwise it returns \<open>NULL\<close> and changes no
  frame.  The invariant (free count exact, free frames inside the search window) is kept.\<close>

lemma pmm_alloc_page_correct:
  assumes "pmm_inv s" and "pmm_alloc_page s = (a, s')"
  shows "pmm_inv s' \<and>
    (if \<exists>f\<in>pmm_free s. unat (pmm_head_pos s) < f
     then unat a = Max (pmm_free s) * 4096 \<and> a \<noteq> NULL \<and>
       pmm_free s' = pmm_free s - {Max (pmm_free s)}
     else a = NULL \<and> pmm_free s' = pmm_free s)"
  using assms(1)
proof (cases rule: pmm_alloc_page_cases)
  case none
  then show ?thesis using assms
    by (auto simp: pmm_inv_def word_less_nat_alt not_le subset_iff)
next
  case (some m)
  let ?F = "pmm_free s"
  have s': "a = m * PAGE_SIZE" "pmm_free s' = ?F - {unat m}" "pmm_wf s'"
    "pmm_head_pos s' = pmm_head_pos s" "pmm_tail_pos s' = m - 1"
    "pmm_free_page_count s' = pmm_free_page_count s - 1"
    using some(5) assms(2) pmm_inv_wf [OF assms(1)] by (auto simp: pmm_free_set_bit_mask)
  have mb: "unat m < 1048576" using pmm_inv_bound [OF assms(1) some(2)] .
  have a: "unat a = unat m * 4096" using s'(1) mb page_address [of "unat m"] by simp
  have m0: "0 < m" using some(4) by (metis word_gt_0 word_not_simps(1))
  have card: "unat (pmm_free_page_count s) = card ?F" "0 < card ?F"
    using assms(1) some(2) by (auto simp: pmm_inv_def card_gt_0_iff)
  then have "unat (pmm_free_page_count s - 1) = card (?F - {unat m})"
    using some(2) by (simp add: unat_pred word_less_nat_alt)
  moreover have "?F - {unat m} \<subseteq> {unat (pmm_head_pos s)..unat (m - 1)}"
  proof
    fix f assume f: "f \<in> ?F - {unat m}"
    with some(3) have "f < unat m" by (simp add: le_neq_implies_less)
    with f assms(1) m0 show "f \<in> {unat (pmm_head_pos s)..unat (m - 1)}"
      by (auto simp: pmm_inv_def unat_pred)
  qed
  ultimately have "pmm_inv s'"
    using s' by (simp add: pmm_inv_def)
  moreover have "\<exists>f\<in>?F. unat (pmm_head_pos s) < f"
    using some(2,4) by (auto simp: word_less_nat_alt)
  moreover have "a \<noteq> NULL" using a m0 by (auto simp: word_less_nat_alt)
  ultimately show ?thesis using a some(1) s'(2) by simp
qed

lemma pmm_take_run_inv:
  assumes inv: "pmm_inv s" and run: "pmm_run s (unat count) (unat q)"
    and q: "pmm_head_pos s \<le> q" "q < pmm_tail_pos s"
    and low: "\<forall>x. unat (pmm_head_pos s) \<le> x \<and> x < unat q \<longrightarrow> \<not> pmm_run s (unat count) x"
  shows "pmm_inv (pmm_take_run q count s) \<and>
    pmm_free (pmm_take_run q count s) = pmm_free s - {unat q..<unat q + unat count}"
proof -
  let ?F = "pmm_free s" and ?R = "{unat q..<unat q + unat count}"
  have wf: "pmm_wf s" using inv by (rule pmm_inv_wf)
  have sub: "?R \<subseteq> ?F" using run by (simp add: pmm_run_def)
  have F': "pmm_free (pmm_take_run q count s) = ?F - ?R"
  proof (cases "count = 0")
    case True
    then show ?thesis by (simp add: pmm_take_run_def pmm_mark_run_def)
  next
    case False
    then have "0 < unat count" by (simp add: unat_gt_0)
    then have "unat q + unat count - 1 \<in> ?R" by simp
    with sub have "unat q + unat count \<le> pmm_total s"
      using pmm_free_less_total by fastforce
    with wf show ?thesis by (simp add: pmm_take_run_def pmm_free_mark_run)
  qed
  have "card (?F - ?R) = card ?F - unat count" using sub by (simp add: card_Diff_subset)
  moreover have "unat count \<le> card ?F"
    using card_mono [OF finite_pmm_free sub] by simp
  ultimately have cnt: "unat (pmm_free_page_count s - count) = card (?F - ?R)"
    using inv by (simp add: pmm_inv_def word_le_nat_alt unat_sub)
  have head: "unat (pmm_head_pos (pmm_take_run q count s)) \<le> f" if f: "f \<in> ?F - ?R" for f
  proof (cases "q = pmm_head_pos s \<and> unat q \<le> f")
    case True
    have fb: "f < 1048576" "unat q + unat count \<le> f"
      using f True pmm_inv_bound [OF inv] by auto
    then have "unat (pmm_head_pos s + count) = unat q + unat count"
      using True by (intro trans [OF unat_add32]) auto
    with fb True show ?thesis by (simp add: pmm_take_run_def)
  next
    case False
    have "unat (pmm_head_pos s) \<le> f" using f inv by (auto simp: pmm_inv_def)
    with False show ?thesis by (auto simp: pmm_take_run_def)
  qed
  have "?F - ?R \<subseteq> {unat (pmm_head_pos (pmm_take_run q count s))..unat (pmm_tail_pos s)}"
    using head inv by (auto simp: pmm_inv_def)
  with F' cnt wf show ?thesis by (simp add: pmm_inv_def pmm_take_run_def)
qed

text \<open>\<open>pmm_up_alloc_page\<close> is first fit from below: it returns the lowest run of \<open>count\<close> free
  frames that starts in the window (every lower start has a used frame among its
  \<open>count\<close>), and takes exactly that run; with no such run it returns \<open>NULL\<close> and leaves the
  state as it was.  The invariant is kept.\<close>

lemma pmm_up_alloc_page_correct:
  assumes "pmm_inv s" and "pmm_up_alloc_page count s = (a, s')"
  shows "pmm_inv s' \<and>
    ((\<exists>q. pmm_head_pos s \<le> q \<and> q < pmm_tail_pos s \<and> a = q * PAGE_SIZE \<and>
        {unat q..<unat q + unat count} \<subseteq> pmm_free s \<and>
        (\<forall>x. unat (pmm_head_pos s) \<le> x \<and> x < unat q \<longrightarrow>
           \<not> {x..<x + unat count} \<subseteq> pmm_free s) \<and>
        pmm_free s' = pmm_free s - {unat q..<unat q + unat count}) \<or>
     ((\<forall>x. unat (pmm_head_pos s) \<le> x \<and> x < unat (pmm_tail_pos s) \<longrightarrow>
        \<not> {x..<x + unat count} \<subseteq> pmm_free s) \<and> a = NULL \<and> s' = s))"
  using pmm_up_loop_spec [OF pmm_inv_wf [OF assms(1)], of "pmm_head_pos s" count]
proof (elim disjE exE conjE)
  fix q
  assume q: "pmm_head_pos s \<le> q" "q < pmm_tail_pos s" "pmm_run s (unat count) (unat q)"
    "\<forall>x. unat (pmm_head_pos s) \<le> x \<and> x < unat q \<longrightarrow> \<not> pmm_run s (unat count) x"
    "pmm_up_loop count (pmm_head_pos s) s = (q * PAGE_SIZE, pmm_take_run q count s)"
  then have "a = q * PAGE_SIZE" "s' = pmm_take_run q count s"
    using assms(2) by (simp_all add: pmm_up_alloc_page_def)
  then show ?thesis
    using q pmm_take_run_inv [OF assms(1) q(3,1,2,4)] by (auto simp: pmm_run_def)
next
  assume none: "\<forall>x. unat (pmm_head_pos s) \<le> x \<and> x < unat (pmm_tail_pos s) \<longrightarrow>
      \<not> pmm_run s (unat count) x"
    "pmm_up_loop count (pmm_head_pos s) s = (NULL, s)"
  then show ?thesis
    using assms by (auto simp: pmm_up_alloc_page_def pmm_run_def)
qed

text \<open>Freeing \<open>count > 0\<close> frames that are in use puts exactly them back and keeps the
  invariant: the window is widened to contain them and the count stays exact.\<close>

lemma pmm_free_page_correct:
  assumes "pmm_inv s" and "0 < unat count" and "k + unat count \<le> pmm_total s"
    and "{k..<k + unat count} \<inter> pmm_free s = {}"
  shows "pmm_inv (pmm_free_page (of_nat k * PAGE_SIZE) count s) \<and>
    pmm_free (pmm_free_page (of_nat k * PAGE_SIZE) count s) = pmm_free s \<union> {k..<k + unat count}"
proof -
  let ?F = "pmm_free s" and ?R = "{k..<k + unat count}" and ?i = "of_nat k :: u32"
  let ?s' = "pmm_free_page (of_nat k * PAGE_SIZE) count s"
  have wf: "pmm_wf s" using assms(1) by (rule pmm_inv_wf)
  then have kb: "k + unat count \<le> 1048576" using assms(3) pmm_wf_total(2) by (meson le_trans)
  have k: "k < 1048576" using kb assms(2) by simp
  have i: "unat ?i = k" using k by (simp add: unat_of_nat_u32)
  have sum: "unat (?i + count) = k + unat count" using kb i by (simp add: unat_add32)
  have last: "unat (?i + count - 1) = k + unat count - 1"
    using sum assms(2) unat_pred [of "?i + count"] by (simp add: word_less_nat_alt)
  have idx: "of_nat k * PAGE_SIZE div PAGE_SIZE = ?i" by (rule page_address_div [OF k])
  have F': "pmm_free ?s' = ?F \<union> ?R" and wf': "pmm_wf ?s'"
    using pmm_free_mark_run(2) [OF wf, of ?i count] assms(3) wf
    by (simp_all add: pmm_free_page_def Let_def idx i)
  have hd: "unat (pmm_head_pos ?s') = min k (unat (pmm_head_pos s))"
    by (simp add: pmm_free_page_def Let_def idx i word_less_nat_alt)
  have tl: "unat (pmm_tail_pos ?s') = max (k + unat count - 1) (unat (pmm_tail_pos s))"
    by (simp add: pmm_free_page_def Let_def idx last word_less_nat_alt)
  have "card (?F \<union> ?R) = card ?F + unat count" using assms(4) by (subst card_Un_disjoint) auto
  moreover have "card (?F \<union> ?R) \<le> 1048576"
  proof -
    have "?F \<union> ?R \<subseteq> {..<1048576}" using pmm_inv_bound [OF assms(1)] kb by auto
    then show ?thesis using card_mono [of "{..<1048576::nat}"] by fastforce
  qed
  moreover have "pmm_free_page_count ?s' = pmm_free_page_count s + count"
    by (simp add: pmm_free_page_def Let_def idx)
  ultimately have cnt: "unat (pmm_free_page_count ?s') = card (pmm_free ?s')"
    using assms(1) F' by (simp add: pmm_inv_def unat_add32)
  have "?F \<union> ?R \<subseteq> {unat (pmm_head_pos ?s')..unat (pmm_tail_pos ?s')}"
    using assms(1) unfolding hd tl pmm_inv_def by fastforce
  with F' cnt wf' show ?thesis by (simp add: pmm_inv_def)
qed

section \<open>Initialisation\<close>

definition pmm_init_post :: "nat \<Rightarrow> nat \<Rightarrow> u32 \<Rightarrow> nat \<Rightarrow> 'a pmm_state_scheme \<Rightarrow> bool" where
  "pmm_init_post base n len j t \<longleftrightarrow>
     pmm_wf t \<and> pmm_bitmap_length t = len \<and> unat (mem_page_count t) = n \<and>
     pmm_free t \<inter> {..<j} = {base..<n} \<inter> {..<j} \<and>
     unat (pmm_free_page_count t) = card ({base..<n} \<inter> {..<j})"

lemma pmm_init_step_post:
  assumes "pmm_init_post (unat b) n len (unat i) t" and "i < len * 8"
  shows "pmm_init_post (unat b) n len (Suc (unat i)) (pmm_init_step b i t)"
proof -
  have t: "pmm_wf t" "pmm_bitmap_length t = len" "unat (mem_page_count t) = n"
    "pmm_free t \<inter> {..<unat i} = {unat b..<n} \<inter> {..<unat i}"
    "unat (pmm_free_page_count t) = card ({unat b..<n} \<inter> {..<unat i})"
    using assms(1) by (simp_all add: pmm_init_post_def)
  have it: "unat i < pmm_total t"
    using assms(2) pmm_wf_total(1) [OF t(1)] t(2) by (simp add: word_less_nat_alt)
  have S: "X \<inter> {..<Suc (unat i)} = (if unat i \<in> X then insert (unat i) (X \<inter> {..<unat i})
      else X \<inter> {..<unat i})" for X
    by (auto simp: less_Suc_eq)
  show ?thesis
  proof (cases "i < b \<or> i \<ge> mem_page_count t")
    case True
    then have "unat i \<notin> {unat b..<n}"
      using t(3) by (auto simp: word_less_nat_alt word_le_nat_alt)
    moreover have "(pmm_free t - {unat i}) \<inter> {..<unat i} = pmm_free t \<inter> {..<unat i}" by auto
    ultimately show ?thesis using True t
      by (simp add: pmm_init_post_def pmm_init_step_def pmm_free_set_bit_mask S)
  next
    case False
    then have "unat i \<in> {unat b..<n}"
      using t(3) by (auto simp: word_less_nat_alt word_le_nat_alt)
    moreover have "insert (unat i) (pmm_free t) \<inter> {..<unat i} = pmm_free t \<inter> {..<unat i}" by auto
    moreover have "card ({unat b..<n} \<inter> {..<unat i}) \<le> unat i"
      using card_mono [of "{..<unat i}" "{unat b..<n} \<inter> {..<unat i}"] by simp
    moreover have "unat i < 1048576" using it pmm_wf_total(2) [OF t(1)] by simp
    ultimately show ?thesis using False t it
      by (simp add: pmm_init_post_def pmm_init_step_def pmm_free_set_bit_mask S unat_add32 Let_def)
  qed
qed

text \<open>\<open>pmm_init\<close> establishes the invariant, whatever bytes the bitmap was placed over:
  the free frames are exactly those from the first page after the bitmap up to the end of
  memory.  (The hypotheses say that the page count comes from a 32-bit byte length and that
  the end of the bitmap, rounded up to a page, is below 4 GB.)\<close>

lemma pmm_init_correct:
  assumes "unat (mem_page_count s) \<le> 1048575"
    and "unat (mem_base_addr s) + (unat (mem_page_count s) + 7) div 8 + 4095 < 4294967296"
  shows "pmm_inv (pmm_init raw s) \<and> pmm_free (pmm_init raw s) =
    {(unat (mem_base_addr s) + (unat (mem_page_count s) + 7) div 8 + 4095) div 4096
      ..<unat (mem_page_count s)}"
proof -
  define len where "len = (mem_page_count s + 7) div 8"
  define s1 where "s1 = s\<lparr>pmm_bitmap_length := len, pmm_bitmap := map raw [0..<unat len],
    mem_base_addr := mem_base_addr s + len, pmm_free_page_count := 0\<rparr>"
  define b where "b = (mem_base_addr s1 + PAGE_SIZE - 1) div PAGE_SIZE"
  define n where "n = unat (mem_page_count s)"
  define s2 where "s2 = for_loop 0 (len * 8) (pmm_init_step b) s1"
  have len: "unat len = (n + 7) div 8" using assms(1) by (simp add: len_def n_def unat_add32)
  have "unat (mem_base_addr s + len) = unat (mem_base_addr s) + unat len"
    using assms(2) len by (intro unat_add32) (simp add: n_def)
  then have b: "unat b = (unat (mem_base_addr s) + (n + 7) div 8 + 4095) div 4096"
    using assms(2) len
    by (simp add: b_def s1_def n_def unat_add32 add_diff_eq [symmetric])
  have wf1: "pmm_wf s1" using len assms(1) by (simp add: s1_def pmm_wf_def n_def)
  have post: "pmm_init_post (unat b) n len (unat (len * 8)) s2"
    unfolding s2_def
  proof (rule for_loop_invariant)
    show "pmm_init_post (unat b) n len (unat (0 :: u32)) s1"
      using wf1 by (simp add: pmm_init_post_def s1_def n_def)
  qed (auto intro: pmm_init_step_post)
  then have wf2: "pmm_wf s2" "pmm_bitmap_length s2 = len" by (simp_all add: pmm_init_post_def)
  from pmm_wf_total(1) [OF wf2(1)] have tot: "unat (len * 8) = pmm_total s2" by (simp add: wf2(2))
  from wf2 have "pmm_total s2 = 8 * ((n + 7) div 8)" by (simp add: pmm_total_def pmm_wf_def len)
  then have "n \<le> pmm_total s2" by linarith
  then have I: "{unat b..<n} \<inter> {..<pmm_total s2} = {unat b..<n}" by auto
  have "pmm_free s2 \<inter> {..<pmm_total s2} = pmm_free s2"
    using pmm_free_less_total [of _ s2] by blast
  moreover have "pmm_free s2 \<inter> {..<pmm_total s2} = {unat b..<n} \<inter> {..<pmm_total s2}"
    using post unfolding pmm_init_post_def tot by blast
  ultimately have F1: "pmm_free s2 = {unat b..<n}" using I by metis
  have F2: "unat (pmm_free_page_count s2) = card (pmm_free s2)"
    using post unfolding pmm_init_post_def tot I F1 by blast
  have init: "pmm_init raw s = s2\<lparr>pmm_head_pos := b, pmm_tail_pos := mem_page_count s2 - 1\<rparr>"
    by (simp add: pmm_init_def Let_def len_def b_def s2_def s1_def)
  have "f \<le> unat (mem_page_count s2 - 1)" if "f < n" for f
    using that post unat_pred [of "mem_page_count s2"]
    by (auto simp: pmm_init_post_def word_less_nat_alt)
  then have "{unat b..<n} \<subseteq> {unat b..unat (mem_page_count s2 - 1)}" by auto
  moreover have "pmm_wf s2" using post by (simp add: pmm_init_post_def)
  ultimately have "pmm_inv (pmm_init raw s)" "pmm_free (pmm_init raw s) = {unat b..<n}"
    unfolding init by (simp_all add: pmm_inv_def F1 F2)
  then show ?thesis by (simp only: b n_def)
qed

section \<open>The interface other components rely on\<close>

text \<open>
  What the virtual memory manager and the page tables use of the allocator: an
  invariant, the set of free frames, single pages, runs of pages, and giving a page back.
  The laws never mention the bitmap or the window.
\<close>

locale frame_source =
  fixes invar :: "'s \<Rightarrow> bool"
    and free :: "'s \<Rightarrow> nat set"
    and capacity :: "'s \<Rightarrow> nat"
    and alloc :: "'s \<Rightarrow> u32 \<times> 's"
    and alloc_run :: "u32 \<Rightarrow> 's \<Rightarrow> u32 \<times> 's"
    and release :: "u32 \<Rightarrow> u32 \<Rightarrow> 's \<Rightarrow> 's"
  assumes alloc_law: "invar s \<Longrightarrow> alloc s = (a, s') \<Longrightarrow>
      invar s' \<and> capacity s' = capacity s \<and>
      (if a = NULL then free s' = free s
       else \<exists>k\<in>free s. unat a = k * 4096 \<and> free s' = free s - {k})"
    and run_law: "invar s \<Longrightarrow> alloc_run n s = (a, s') \<Longrightarrow>
      invar s' \<and> capacity s' = capacity s \<and>
      (if a = NULL then free s' = free s
       else \<exists>k. unat a = k * 4096 \<and> {k..<k + unat n} \<subseteq> free s \<and>
              free s' = free s - {k..<k + unat n})"
    and release_law: "invar s \<Longrightarrow> 0 < k \<Longrightarrow> k < capacity s \<Longrightarrow> k \<notin> free s \<Longrightarrow>
      invar (release (of_nat k * PAGE_SIZE) 1 s) \<and>
      capacity (release (of_nat k * PAGE_SIZE) 1 s) = capacity s \<and>
      free (release (of_nat k * PAGE_SIZE) 1 s) = insert k (free s)"
    and free_range: "invar s \<Longrightarrow> free s \<subseteq> {0<..<capacity s}"

text \<open>
  A client of such a source: it keeps the list of frames it was given, and gives back only
  frames it holds.
\<close>

datatype frame_event = GetPage | GetRun u32 | PutPage nat

fun frame_trace :: "('s \<Rightarrow> u32 \<times> 's) \<Rightarrow> (u32 \<Rightarrow> 's \<Rightarrow> u32 \<times> 's) \<Rightarrow> (u32 \<Rightarrow> u32 \<Rightarrow> 's \<Rightarrow> 's) \<Rightarrow>
    frame_event list \<Rightarrow> nat list \<times> 's \<Rightarrow> nat list \<times> 's" where
  "frame_trace al ru re [] os = os"
| "frame_trace al ru re (GetPage # es) (own, s) =
     (case al s of (a, s') \<Rightarrow>
        frame_trace al ru re es (if a = NULL then own else unat a div 4096 # own, s'))"
| "frame_trace al ru re (GetRun n # es) (own, s) =
     (case ru n s of (a, s') \<Rightarrow>
        frame_trace al ru re es
          (if a = NULL then own
           else [unat a div 4096..<unat a div 4096 + unat n] @ own, s'))"
| "frame_trace al ru re (PutPage k # es) (own, s) =
     (if k \<in> set own
      then frame_trace al ru re es (remove1 k own, re (of_nat k * PAGE_SIZE) 1 s)
      else frame_trace al ru re es (own, s))"

context frame_source begin

text \<open>Held and free frames partition a fixed set at every moment: nothing is handed out
  twice and nothing is lost.\<close>

definition conserved :: "nat set \<Rightarrow> nat list \<times> 's \<Rightarrow> bool" where
  "conserved A os \<longleftrightarrow> invar (snd os) \<and> distinct (fst os) \<and>
     set (fst os) \<inter> free (snd os) = {} \<and> set (fst os) \<union> free (snd os) = A \<and>
     A \<subseteq> {0<..<capacity (snd os)}"

lemma conserved_alloc:
  assumes "conserved A (own, s)" and "alloc s = (a, s')"
  shows "conserved A (if a = NULL then own else unat a div 4096 # own, s')"
  using assms alloc_law [of s a s'] by (auto simp: conserved_def split: if_splits)

lemma conserved_run:
  assumes "conserved A (own, s)" and "alloc_run n s = (a, s')"
  shows "conserved A (if a = NULL then own
    else [unat a div 4096..<unat a div 4096 + unat n] @ own, s')"
  using assms run_law [of s n a s'] by (fastforce simp: conserved_def split: if_splits)

lemma conserved_release:
  assumes "conserved A (own, s)" and "k \<in> set own"
  shows "conserved A (remove1 k own, release (of_nat k * PAGE_SIZE) 1 s)"
proof -
  have "0 < k" "k < capacity s" "k \<notin> free s" "invar s"
    using assms by (auto simp: conserved_def)
  then show ?thesis using assms release_law [of s k] by (auto simp: conserved_def)
qed

lemma conserved_trace:
  "conserved A os \<Longrightarrow> conserved A (frame_trace alloc alloc_run release es os)"
proof (induction es arbitrary: os)
  case Nil
  then show ?case by simp
next
  case (Cons e es)
  obtain own s where os: "os = (own, s)" by (cases os)
  show ?case
  proof (cases e)
    case GetPage
    obtain a s' where "alloc s = (a, s')" by (cases "alloc s")
    with GetPage os Cons conserved_alloc show ?thesis by simp
  next
    case (GetRun n)
    obtain a s' where "alloc_run n s = (a, s')" by (cases "alloc_run n s")
    with GetRun os Cons conserved_run show ?thesis by simp
  next
    case (PutPage k)
    with os Cons conserved_release show ?thesis by simp
  qed
qed

end

text \<open>
  A source that also says when a single page is to be had: \<open>avail\<close> are the frames the
  single-page allocator can reach.
\<close>

locale frame_supply = frame_source invar free capacity alloc alloc_run release
  for invar :: "'s \<Rightarrow> bool" and free and capacity and alloc and alloc_run and release +
  fixes avail :: "'s \<Rightarrow> nat set"
  assumes avail_free: "invar s \<Longrightarrow> avail s \<subseteq> free s"
    and alloc_avail: "invar s \<Longrightarrow> alloc s = (a, s') \<Longrightarrow>
      (a = NULL \<longleftrightarrow> avail s = {}) \<and>
      (a \<noteq> NULL \<longrightarrow> unat a div 4096 \<in> avail s \<and> avail s' = avail s - {unat a div 4096})"
begin

lemma avail_range: "invar s \<Longrightarrow> avail s \<subseteq> {0<..<capacity s}"
  using avail_free free_range by blast

lemma finite_avail: "invar s \<Longrightarrow> finite (avail s)"
  using avail_range finite_subset by blast

lemma alloc_success:
  assumes "invar s" and "avail s \<noteq> {}"
  obtains k a s' where "alloc s = (a, s')" "k \<in> avail s" "k \<in> free s" "unat a = k * 4096" "a \<noteq> NULL"
    "invar s'" "capacity s' = capacity s" "free s' = free s - {k}" "avail s' = avail s - {k}"
    "card (avail s') = card (avail s) - 1"
proof -
  obtain a s' where al: "alloc s = (a, s')" by (cases "alloc s")
  with assms alloc_avail have a: "a \<noteq> NULL" "unat a div 4096 \<in> avail s"
    "avail s' = avail s - {unat a div 4096}" by blast+
  from alloc_law [OF assms(1) al] a(1) obtain k where "k \<in> free s" "unat a = k * 4096"
    "free s' = free s - {k}" "invar s'" "capacity s' = capacity s" by auto
  with that al a finite_avail [OF assms(1)] show thesis by simp
qed

lemma alloc_failure:
  assumes "invar s" and "avail s = {}" and "alloc s = (a, s')"
  shows "a = NULL \<and> invar s' \<and> free s' = free s \<and> capacity s' = capacity s"
proof -
  have "a = NULL" using alloc_avail [OF assms(1,3)] assms(2) by blast
  with alloc_law [OF assms(1,3)] show ?thesis by simp
qed

end

text \<open>The bitmap allocator is such a source as long as frame 0 is not free (it never is:
  the kernel image and the BIOS area lie below the first free frame).\<close>

definition pmm_ok :: "'a pmm_state_scheme \<Rightarrow> bool" where
  "pmm_ok s \<longleftrightarrow> pmm_inv s \<and> 0 \<notin> pmm_free s"

lemma pmm_total_alloc_page:
  assumes "pmm_inv s" and "pmm_alloc_page s = (a, s')"
  shows "pmm_total s' = pmm_total s"
  using assms(1)
proof (cases rule: pmm_alloc_page_cases)
  case none
  with assms(2) show ?thesis by (auto simp: pmm_total_def)
next
  case (some m)
  with assms(2) set_bit_mask_frame(8) [of m 1 s] show ?thesis by (auto simp: pmm_total_def)
qed

lemma pmm_total_up_alloc_page:
  assumes "pmm_wf s" and "pmm_up_alloc_page n s = (a, s')"
  shows "pmm_total s' = pmm_total s"
  using pmm_up_loop_spec [OF assms(1), of "pmm_head_pos s" n] assms(2)
    pmm_mark_run_frame(8) [of _ n 1 s]
  by (auto simp: pmm_up_alloc_page_def pmm_take_run_def pmm_total_def)

lemma pmm_total_free_page [simp]: "pmm_total (pmm_free_page a n s) = pmm_total s"
  using pmm_mark_run_frame(8) [of "a div PAGE_SIZE" n 0 s]
  by (simp add: pmm_free_page_def Let_def pmm_total_def)

lemma pmm_alloc_page_law:
  assumes "pmm_ok s" and "pmm_alloc_page s = (a, s')"
  shows "pmm_ok s' \<and> pmm_total s' = pmm_total s \<and>
    (if a = NULL then pmm_free s' = pmm_free s
     else \<exists>k\<in>pmm_free s. unat a = k * 4096 \<and> pmm_free s' = pmm_free s - {k})"
proof -
  have inv: "pmm_inv s" using assms(1) by (simp add: pmm_ok_def)
  have M: "Max (pmm_free s) \<in> pmm_free s" if "\<exists>f\<in>pmm_free s. unat (pmm_head_pos s) < f"
    using that by (intro Max_in) auto
  show ?thesis
    using pmm_alloc_page_correct [OF inv assms(2)] pmm_total_alloc_page [OF inv assms(2)] M assms(1)
    by (auto simp: pmm_ok_def split: if_splits)
qed

lemma pmm_up_alloc_page_law:
  assumes "pmm_ok s" and "pmm_up_alloc_page n s = (a, s')"
  shows "pmm_ok s' \<and> pmm_total s' = pmm_total s \<and>
    (if a = NULL then pmm_free s' = pmm_free s
     else \<exists>k. unat a = k * 4096 \<and> {k..<k + unat n} \<subseteq> pmm_free s \<and>
            pmm_free s' = pmm_free s - {k..<k + unat n})"
proof -
  have inv: "pmm_inv s" "0 \<notin> pmm_free s" using assms(1) by (simp_all add: pmm_ok_def)
  have tot: "pmm_total s' = pmm_total s"
    using pmm_total_up_alloc_page [OF pmm_inv_wf [OF inv(1)] assms(2)] .
  show ?thesis
    using pmm_up_alloc_page_correct [OF inv(1) assms(2)]
  proof (elim conjE disjE exE)
    fix q
    assume q: "a = q * PAGE_SIZE" "{unat q..<unat q + unat n} \<subseteq> pmm_free s"
      "pmm_free s' = pmm_free s - {unat q..<unat q + unat n}" and s': "pmm_inv s'"
    have "unat a = (4096 * unat q) mod (4096 * 1048576)"
      using q(1) by (simp add: unat_word_ariths mult.commute)
    also have "\<dots> = 4096 * (unat q mod 1048576)" by (rule mult_mod_right [symmetric])
    finally have a: "unat a = unat q mod 1048576 * 4096" by simp
    show ?thesis
    proof (cases "n = 0")
      case True
      with q s' tot inv a show ?thesis by (auto simp: pmm_ok_def)
    next
      case False
      then have mem: "unat q \<in> pmm_free s" using q(2) by (auto simp: unat_gt_0)
      then have "unat q < 1048576" "unat q \<noteq> 0"
        using pmm_inv_bound [OF inv(1)] inv(2) by (blast, metis)
      with a have "unat a = unat q * 4096" "a \<noteq> NULL" by (auto simp: unat_eq_zero [symmetric])
      with q s' tot inv show ?thesis by (auto simp: pmm_ok_def)
    qed
  next
    assume "a = NULL" "s' = s"
    then show ?thesis using assms(1) by simp
  qed
qed

lemma pmm_free_page_law:
  assumes "pmm_ok s" and "0 < k" and "k < pmm_total s" and "k \<notin> pmm_free s"
  shows "pmm_ok (pmm_free_page (of_nat k * PAGE_SIZE) 1 s) \<and>
    pmm_free (pmm_free_page (of_nat k * PAGE_SIZE) 1 s) = insert k (pmm_free s)"
  using pmm_free_page_correct [of s 1 k] assms by (auto simp: pmm_ok_def)

interpretation pmm: frame_source pmm_ok pmm_free pmm_total
    pmm_alloc_page pmm_up_alloc_page pmm_free_page
proof (unfold_locales, goal_cases)
  case (1 s a s')
  then show ?case by (rule pmm_alloc_page_law)
next
  case (2 s n a s')
  then show ?case by (rule pmm_up_alloc_page_law)
next
  case (3 s k)
  then show ?case using pmm_free_page_law [of s k] by simp
next
  case (4 s)
  show ?case
  proof
    fix k assume "k \<in> pmm_free s"
    with 4 pmm_free_less_total show "k \<in> {0<..<pmm_total s}"
      by (fastforce simp: pmm_ok_def intro: gr0I)
  qed
qed

text \<open>The single-page allocator reaches the free frames above the head.\<close>

definition pmm_avail :: "'a pmm_state_scheme \<Rightarrow> nat set" where
  "pmm_avail s = {f \<in> pmm_free s. unat (pmm_head_pos s) < f}"

lemma pmm_alloc_page_head:
  assumes "pmm_inv s" and "pmm_alloc_page s = (a, s')"
  shows "pmm_head_pos s' = pmm_head_pos s"
  using assms(1)
proof (cases rule: pmm_alloc_page_cases)
  case none
  with assms(2) show ?thesis by auto
next
  case (some m)
  with assms(2) show ?thesis by auto
qed

interpretation pmm: frame_supply pmm_ok pmm_free pmm_total
    pmm_alloc_page pmm_up_alloc_page pmm_free_page pmm_avail
proof (unfold_locales, goal_cases)
  case (1 s)
  show ?case by (auto simp: pmm_avail_def)
next
  case (2 s a s')
  then have inv: "pmm_inv s" by (simp add: pmm_ok_def)
  have M: "Max (pmm_free s) \<in> pmm_avail s" if "f \<in> pmm_avail s" for f
  proof -
    have "f \<in> pmm_free s" "unat (pmm_head_pos s) < f" using that by (simp_all add: pmm_avail_def)
    moreover from this have "Max (pmm_free s) \<in> pmm_free s" "f \<le> Max (pmm_free s)"
      by (auto intro: Max_in)
    ultimately show ?thesis unfolding pmm_avail_def by (blast intro: less_le_trans)
  qed
  have iff: "(\<exists>f\<in>pmm_free s. unat (pmm_head_pos s) < f) \<longleftrightarrow> pmm_avail s \<noteq> {}"
    by (auto simp: pmm_avail_def)
  from pmm_alloc_page_correct [OF inv 2(2)] M pmm_alloc_page_head [OF inv 2(2)]
  show ?case unfolding iff by (auto simp: pmm_avail_def split: if_splits)
qed

section \<open>Operations leave the rest of the machine alone\<close>

text \<open>The record is extended by the states built on top of the allocator; whatever the
  extension holds is untouched.\<close>

lemma set_bit_mask_more [simp, frame]:
  "pmm_state.more (snd (set_bit_mask i m s)) = pmm_state.more s"
  by (simp add: set_bit_mask_def Let_def)

lemma pmm_mark_run_more [simp, frame]:
  "pmm_state.more (pmm_mark_run p n m s) = pmm_state.more s"
  unfolding pmm_mark_run_def by (rule for_loop_preserves) simp

lemma pmm_alloc_page_more [simp, frame]:
  "pmm_state.more (snd (pmm_alloc_page s)) = pmm_state.more s"
proof (induction s rule: pmm_alloc_page.induct)
  case (1 s)
  then show ?case by (simp add: pmm_alloc_page.simps [of s] Let_def)
qed

lemma pmm_up_loop_more: "pmm_state.more (snd (pmm_up_loop count p s)) = pmm_state.more s"
proof (induction count p s rule: pmm_up_loop.induct)
  case (1 count p s)
  then show ?case by (simp add: pmm_up_loop.simps [of count p s] Let_def)
qed

lemma pmm_up_alloc_page_more [simp, frame]:
  "pmm_state.more (snd (pmm_up_alloc_page count s)) = pmm_state.more s"
  by (simp add: pmm_up_alloc_page_def pmm_up_loop_more)

lemma pmm_free_page_more [simp, frame]:
  "pmm_state.more (pmm_free_page a n s) = pmm_state.more s"
  by (simp add: pmm_free_page_def Let_def)

lemma for_loop_more:
  assumes "\<And>i s. pmm_state.more (body i s) = pmm_state.more s"
  shows "pmm_state.more (for_loop lo hi body s) = pmm_state.more s"
  using assms by (rule for_loop_preserves)

lemma pmm_init_more [simp, frame]: "pmm_state.more (pmm_init raw s) = pmm_state.more s"
proof -
  have "pmm_state.more (pmm_init_step b i s) = pmm_state.more s" for b i and s :: "'a pmm_state_scheme"
    by (simp add: pmm_init_step_def Let_def)
  then show ?thesis by (simp add: pmm_init_def Let_def for_loop_more)
qed

section \<open>A sample state\<close>

text \<open>Sixteen frames, the first three in use; the witnesses evaluate the operations on it.\<close>

definition pmm_sample :: pmm_state where
  "pmm_sample = \<lparr>mem_base_addr = 0x2002, mem_length = 0x10000, mem_page_count = 16,
     pmm_bitmap = [7, 0], pmm_bitmap_length = 2, pmm_free_page_count = 13,
     pmm_head_pos = 3, pmm_tail_pos = 15\<rparr>"

lemma pmm_sample_bits:
  "list_all (\<lambda>i. (\<not> bit ([7, 0 :: u8] ! (i div 8)) (i mod 8)) = (3 \<le> i)) [0..<16]"
  by code_simp

lemma pmm_sample_free: "pmm_free pmm_sample = {3..<16}"
  using pmm_sample_bits by (auto simp: pmm_free_def pmm_sample_def list_all_iff)

lemma pmm_sample_total [simp]: "pmm_total pmm_sample = 16"
  by (simp add: pmm_total_def pmm_sample_def)

lemma pmm_sample_inv: "pmm_inv pmm_sample" "0 \<notin> pmm_free pmm_sample"
proof -
  have "pmm_wf pmm_sample" "unat (pmm_free_page_count pmm_sample) = 13"
    "unat (pmm_head_pos pmm_sample) = 3" "unat (pmm_tail_pos pmm_sample) = 15"
    by (simp_all add: pmm_wf_def pmm_sample_def)
  then show "pmm_inv pmm_sample" by (auto simp: pmm_inv_def pmm_sample_free)
qed (simp add: pmm_sample_free)

section \<open>Properties\<close>

text \<open>C28. \<open>pmm_init\<close> establishes the invariant, whatever bytes the bitmap was placed over:
  the free frames are exactly those from the first page after the bitmap up to the end of
  memory.  (The hypotheses say that the page count comes from a 32-bit byte length and that
  the end of the bitmap, rounded up to a page, is below 4 GB.)\<close>

theorem pmm_init_spec:
  assumes "unat (mem_page_count s) \<le> 1048575"
    and "unat (mem_base_addr s) + (unat (mem_page_count s) + 7) div 8 + 4095 < 4294967296"
  shows "pmm_inv (pmm_init raw s) \<and> pmm_free (pmm_init raw s) =
    {(unat (mem_base_addr s) + (unat (mem_page_count s) + 7) div 8 + 4095) div 4096
      ..<unat (mem_page_count s)}"
  using assms by (rule pmm_init_correct)

theorem pmm_init_spec_witness:
  "pmm_inv (pmm_init (\<lambda>_. 0x5a) pmm_sample) \<and>
    pmm_free (pmm_init (\<lambda>_. 0x5a) pmm_sample) = {3..<16}"
  using pmm_init_spec [of pmm_sample "\<lambda>_. 0x5a"] by (simp add: pmm_sample_def)

text \<open>C1. However the two allocators and the release of held frames are interleaved, a client
  that frees only what it holds never holds a frame twice, never holds a free frame, and no
  frame is lost: the held frames and the free frames always partition the frames that were
  free at the start, and the allocator's invariant holds throughout.\<close>

theorem pmm_trace_conserves:
  assumes "pmm_inv s" and "0 \<notin> pmm_free s"
    and "frame_trace pmm_alloc_page pmm_up_alloc_page pmm_free_page es ([], s) = (own, s')"
  shows "pmm_inv s' \<and> distinct own \<and> set own \<inter> pmm_free s' = {} \<and>
    set own \<union> pmm_free s' = pmm_free s"
proof -
  have "pmm.conserved (pmm_free s) ([], s)"
    using assms(1,2) pmm.free_range [of s] by (simp add: pmm.conserved_def pmm_ok_def)
  from pmm.conserved_trace [OF this, of es] assms(3) show ?thesis
    by (simp add: pmm.conserved_def pmm_ok_def)
qed

theorem pmm_trace_conserves_witness:
  "(case frame_trace pmm_alloc_page pmm_up_alloc_page pmm_free_page
      [GetPage, GetRun 3, PutPage 15, GetPage] ([], pmm_sample) of (own, s') \<Rightarrow>
    pmm_inv s' \<and> distinct own \<and> set own \<inter> pmm_free s' = {} \<and> set own \<union> pmm_free s' = {3..<16})"
  using pmm_trace_conserves [OF pmm_sample_inv, of "[GetPage, GetRun 3, PutPage 15, GetPage]"]
  by (simp only: pmm_sample_free split: prod.split) blast

end
