(* ===== verification/Vmm.thy ===== *)
theory Vmm
  imports Pmm
begin

text \<open>
  The kernel's own address space: \<open>src/kernel/mm/kmm.c\<close> (the global page tables),
  \<open>src/kernel/mm/vmm.c\<close> (dynamic kernel pages and the direct map, without
  \<open>vmm_mmap_pde_page\<close>, which is in theory \<open>Umm\<close> with the user page tables it reads),
  \<open>src/kernel/mm/mmap.c\<close> and the macros of \<open>src/include/arch/x86/page.h\<close>.

  \<open>globl_mmap_pte[0][i]\<close> is \<open>globl_mmap_pte s i\<close>, one entry per page of the kernel's
  768 MB; the static page directory \<open>kernel_mmap_pde\<close> is a function of the index.  Both
  arrays have a link-time address of their own.  Page tables of user processes live in
  direct-mapped frames: \<open>page_mem s a\<close> is the 32-bit cell at kernel address \<open>a\<close>.
  The flag \<open>intr_flag\<close> is what \<open>cli\<close> and \<open>sti\<close> change.
\<close>

section \<open>Page table entries (\<open>page.h\<close>)\<close>

abbreviation PAGE_MASK :: u32 where "PAGE_MASK \<equiv> 0xfffff000"
abbreviation PAGE_PRESENT :: u32 where "PAGE_PRESENT \<equiv> 0x0001"
abbreviation PAGE_WRITE :: u32 where "PAGE_WRITE \<equiv> 0x0002"
abbreviation PAGE_USER :: u32 where "PAGE_USER \<equiv> 0x0004"

definition set_page :: "u32 \<Rightarrow> u32 \<Rightarrow> u32" where
  "set_page base_attr attribute = (base_attr AND PAGE_MASK) OR (attribute AND NOT PAGE_MASK)"

definition get_page_attr :: "u32 \<Rightarrow> u32" where
  "get_page_attr pte = pte AND PAGE_MASK"

definition pde_index :: "u32 \<Rightarrow> u32" where
  "pde_index attr = drop_bit 22 attr"

definition pte_index :: "u32 \<Rightarrow> u32" where
  "pte_index attr = drop_bit 12 (attr AND 0x003ff000)"

section \<open>State\<close>

record mm_state = pmm_state +
  globl_mmap_pte :: "u32 \<Rightarrow> u32"
  globl_mmap_pte_addr :: u32
  kernel_mmap_pde :: "u32 \<Rightarrow> u32"
  kernel_mmap_pde_addr :: u32
  dmmap_page_count :: u32
  vmmap_page_count :: u32
  vmm_free_page_count :: u32
  vmm_pos :: u32
  page_mem :: "u32 \<Rightarrow> u32"
  intr_flag :: bool
  cr3 :: u32
  paging :: bool

definition enable_intr :: "'a mm_state_scheme \<Rightarrow> 'a mm_state_scheme" where
  "enable_intr s = s\<lparr>intr_flag := True\<rparr>"

definition disable_intr :: "'a mm_state_scheme \<Rightarrow> 'a mm_state_scheme" where
  "disable_intr s = s\<lparr>intr_flag := False\<rparr>"

section \<open>The global page tables (\<open>kmm.c\<close>)\<close>

abbreviation GLOBL_PTE_NUM :: u32 where "GLOBL_PTE_NUM \<equiv> GLOBL_PAGE_NUM div PAGE_PTE_INDEX"

definition globl_mmap_init :: "'a mm_state_scheme \<Rightarrow> 'a mm_state_scheme" where
  "globl_mmap_init s =
     (let s1 = for_loop 0 PAGE_PDE_INDEX
            (\<lambda>m s. s\<lparr>kernel_mmap_pde := (kernel_mmap_pde s)(m := 0)\<rparr>) s
      in for_loop 0 GLOBL_PTE_NUM
           (\<lambda>m s. for_loop 0 PAGE_PTE_INDEX
               (\<lambda>n s. s\<lparr>globl_mmap_pte := (globl_mmap_pte s)(m * PAGE_PTE_INDEX + n := 0)\<rparr>)
               (s\<lparr>kernel_mmap_pde := (kernel_mmap_pde s)(pde_index PAGE_OFFSET + m :=
                   set_page (globl_mmap_pte_addr s + m * PAGE_SIZE) (PAGE_PRESENT OR PAGE_WRITE))\<rparr>))
           s1)"

definition globl_page_mmap :: "u32 \<Rightarrow> u32 \<Rightarrow> 'a mm_state_scheme \<Rightarrow> 'a mm_state_scheme" where
  "globl_page_mmap phy_page_index globl_page_index s =
     (if globl_page_index < GLOBL_PTE_NUM * PAGE_PTE_INDEX
      then s\<lparr>globl_mmap_pte := (globl_mmap_pte s)(globl_page_index :=
             set_page (push_bit 12 phy_page_index) (PAGE_PRESENT OR PAGE_WRITE))\<rparr>
      else s)"

definition globl_page_remove :: "u32 \<Rightarrow> 'a mm_state_scheme \<Rightarrow> 'a mm_state_scheme" where
  "globl_page_remove index s =
     (if index < GLOBL_PTE_NUM * PAGE_PTE_INDEX
      then s\<lparr>globl_mmap_pte := (globl_mmap_pte s)(index := 0)\<rparr>
      else s)"

definition get_globl_page_attr :: "u32 \<Rightarrow> 'a mm_state_scheme \<Rightarrow> u32" where
  "get_globl_page_attr page_index s = get_page_attr (globl_mmap_pte s page_index)"

definition get_globl_phy_attr :: "u32 \<Rightarrow> 'a mm_state_scheme \<Rightarrow> u32" where
  "get_globl_phy_attr attr s = get_globl_page_attr (attr div PAGE_SIZE) s + attr mod PAGE_SIZE"

definition get_globl_pte :: "u32 \<Rightarrow> 'a mm_state_scheme \<Rightarrow> u32" where
  "get_globl_pte i s = globl_mmap_pte_addr s + i * PAGE_SIZE"

section \<open>Dynamic kernel pages (\<open>vmm.c\<close>)\<close>

definition get_globl_page_index :: "u32 \<Rightarrow> 'a mm_state_scheme \<Rightarrow> u32" where
  "get_globl_page_index index s = dmmap_page_count s + index"

definition get_vmm_page :: "u32 \<Rightarrow> 'a mm_state_scheme \<Rightarrow> u32" where
  "get_vmm_page index s =
     (if index < vmmap_page_count s
      then get_globl_page_attr (get_globl_page_index index s) s else NULL)"

definition get_vmm_free_count :: "'a mm_state_scheme \<Rightarrow> u32" where
  "get_vmm_free_count s = vmm_free_page_count s"

text \<open>
  The inner search loop shared by \<open>vmm_alloc_page\<close> and \<open>vmm_mmap_pde_page\<close>; \<open>p - i < 0\<close>
  is the source's test on unsigned values.
\<close>

function vmm_scan :: "u32 \<Rightarrow> u32 \<Rightarrow> u32 \<Rightarrow> 'a mm_state_scheme \<Rightarrow> u32" where
  "vmm_scan count p i s =
     (if i < count then
        if p - i < 0 \<or> get_vmm_page (p - i) s \<noteq> 0 then i else vmm_scan count p (i + 1) s
      else i)"
  by pat_completeness auto
termination
  by (relation "measure (\<lambda>(count, p, i, s). unat count - unat i)")
    (auto simp: unat_Suc_less word_less_nat_alt)

declare vmm_scan.simps [simp del]

text \<open>
  The outer search loop: \<open>Some (Some p)\<close> when a run ending at \<open>p\<close> was found,
  \<open>Some None\<close> when \<open>p\<close> reached 0, \<open>None\<close> when the loop never ends.
\<close>

partial_function (option) vmm_search ::
    "u32 \<Rightarrow> u32 \<Rightarrow> 'a mm_state_scheme \<Rightarrow> u32 option option" where
  "vmm_search count p s =
     (if p > 0 then
        (let i = vmm_scan count p 0 s in
         if i = count then Some (Some p) else vmm_search count (p - i - 1) s)
      else Some None)"

declare vmm_search.simps [code]

text \<open>The loop that undoes a partial mapping: \<open>for (; i > 0; i--)\<close>.\<close>

function vmm_unmap_loop :: "u32 \<Rightarrow> u32 \<Rightarrow> 'a mm_state_scheme \<Rightarrow> 'a mm_state_scheme" where
  "vmm_unmap_loop head i s =
     (if i > 0 then
        (let s1 = globl_page_remove (get_globl_page_index (head + i) s) s;
             s2 = pmm_free_page (get_vmm_page (head + i) s1) 1 s1
         in vmm_unmap_loop head (i - 1) s2)
      else s)"
  by pat_completeness auto
termination
  by (relation "measure (\<lambda>(head, i, s). unat i)") (auto simp: unat_pred word_less_nat_alt)

declare vmm_unmap_loop.simps [simp del]

text \<open>The mapping loop of \<open>vmm_alloc_page\<close>; the flag says whether it ran to the end.\<close>

function vmm_map_loop :: "u32 \<Rightarrow> u32 \<Rightarrow> u32 \<Rightarrow> 'a mm_state_scheme \<Rightarrow> bool \<times> 'a mm_state_scheme" where
  "vmm_map_loop head count i s =
     (if i < count then
        (case pmm_alloc_page s of (attr, s1) \<Rightarrow>
           if attr \<noteq> NULL
           then vmm_map_loop head count (i + 1)
                  (globl_page_mmap (attr div PAGE_SIZE) (get_globl_page_index (head + i) s1) s1)
           else (False, vmm_unmap_loop head i s1))
      else (True, s))"
  by pat_completeness auto
termination
  by (relation "measure (\<lambda>(head, count, i, s). unat count - unat i)")
    (auto simp: unat_Suc_less word_less_nat_alt)

declare vmm_map_loop.simps [simp del]

definition vmm_alloc_page :: "u32 \<Rightarrow> 'a mm_state_scheme \<Rightarrow> (u32 \<times> 'a mm_state_scheme) option" where
  "vmm_alloc_page count s =
     (let s0 = disable_intr s in
      case vmm_search count (vmm_pos s0) s0 of
        None \<Rightarrow> None
      | Some None \<Rightarrow> Some (NULL, enable_intr s0)
      | Some (Some p) \<Rightarrow>
          (let head = p - count + 1 in
           case vmm_map_loop head count 0 s0 of
             (False, s1) \<Rightarrow> Some (NULL, enable_intr s1)
           | (True, s1) \<Rightarrow>
               (let s2 = (if p = vmm_pos s1 then s1\<lparr>vmm_pos := vmm_pos s1 - count\<rparr> else s1);
                    s3 = s2\<lparr>vmm_free_page_count := vmm_free_page_count s2 - count\<rparr>
                in Some (get_globl_page_index head s3 * PAGE_SIZE, enable_intr s3))))"

definition vmm_free_page :: "u32 \<Rightarrow> u32 \<Rightarrow> 'a mm_state_scheme \<Rightarrow> 'a mm_state_scheme" where
  "vmm_free_page attr count s =
     (let index = attr div PAGE_SIZE in
      if index < dmmap_page_count s then pmm_free_page attr count s
      else
        (let index = index - dmmap_page_count s;
             s1 = (if index + count \<le> vmmap_page_count s then
                     (let s' = for_loop 0 count
                            (\<lambda>i s. let s1 = pmm_free_page (get_vmm_page (index + i) s) 1 s
                                   in globl_page_remove (get_globl_page_index (index + i) s1) s1) s
                      in if index + count - 1 > vmm_pos s'
                         then s'\<lparr>vmm_pos := index + count - 1\<rparr> else s')
                   else s)
         in s1\<lparr>vmm_free_page_count := vmm_free_page_count s1 + count\<rparr>))"

text \<open>The search loop of \<open>vmm_mmap_page\<close>: \<open>for (p = vmm_pos; p > 0; p--)\<close>.\<close>

function vmm_find_page :: "u32 \<Rightarrow> 'a mm_state_scheme \<Rightarrow> u32" where
  "vmm_find_page p s =
     (if p > 0 then if get_vmm_page p s = 0 then p else vmm_find_page (p - 1) s else 0)"
  by pat_completeness auto
termination
  by (relation "measure (\<lambda>(p, s). unat p)") (auto simp: unat_pred word_less_nat_alt)

declare vmm_find_page.simps [simp del]

definition vmm_mmap_page :: "u32 \<Rightarrow> 'a mm_state_scheme \<Rightarrow> u32 \<times> 'a mm_state_scheme" where
  "vmm_mmap_page phy_attr s =
     (if phy_attr div PAGE_SIZE < dmmap_page_count s then (phy_attr, s)
      else
        (let s0 = disable_intr s; p = vmm_find_page (vmm_pos s0) s0 in
         if p > 0 then
           (let s1 = globl_page_mmap (phy_attr div PAGE_SIZE) (get_globl_page_index p s0) s0;
                s2 = s1\<lparr>vmm_free_page_count := vmm_free_page_count s1 - 1, vmm_pos := p\<rparr>
            in (get_globl_page_index p s2 * PAGE_SIZE, enable_intr s2))
         else (NULL, enable_intr s0)))"

definition vmm_ummap_page :: "u32 \<Rightarrow> u32 \<Rightarrow> 'a mm_state_scheme \<Rightarrow> 'a mm_state_scheme" where
  "vmm_ummap_page attr count s =
     (let index = attr div PAGE_SIZE in
      if index \<ge> dmmap_page_count s then
        (let index = index - dmmap_page_count s;
             s1 = (if index + count \<le> vmmap_page_count s then
                     (let s' = for_loop 0 count
                            (\<lambda>i s. globl_page_remove (get_globl_page_index (index + i) s) s) s
                      in if index + count - 1 > vmm_pos s'
                         then s'\<lparr>vmm_pos := index + count - 1\<rparr> else s')
                   else s)
         in s1\<lparr>vmm_free_page_count := vmm_free_page_count s1 + count\<rparr>)
      else s)"

definition dmm_alloc_page :: "u32 \<Rightarrow> 'a mm_state_scheme \<Rightarrow> u32 \<times> 'a mm_state_scheme" where
  "dmm_alloc_page count s =
     (case pmm_up_alloc_page count (disable_intr s) of (attr, s1) \<Rightarrow>
        (let s2 = enable_intr s1 in
         if attr div PAGE_SIZE + count > dmmap_page_count s2
         then (NULL, pmm_free_page attr count s2)
         else (attr, s2)))"

definition dmm_free_page :: "u32 \<Rightarrow> u32 \<Rightarrow> 'a mm_state_scheme \<Rightarrow> 'a mm_state_scheme" where
  "dmm_free_page attr count s = pmm_free_page attr count s"

definition vmm_init :: "'a mm_state_scheme \<Rightarrow> 'a mm_state_scheme" where
  "vmm_init s =
     (let s1 = (if mem_page_count s < DMMAP_PAGE_MAX
                then s\<lparr>dmmap_page_count := mem_page_count s\<rparr> else s);
          s2 = s1\<lparr>vmmap_page_count := GLOBL_PAGE_NUM - dmmap_page_count s1\<rparr>;
          s3 = for_loop 0 (dmmap_page_count s2) (\<lambda>i s. globl_page_mmap i i s) s2
      in s3\<lparr>vmm_pos := vmmap_page_count s3 - 1, vmm_free_page_count := vmmap_page_count s3\<rparr>)"

section \<open>Bringing paging up (\<open>mmap.c\<close>)\<close>

definition load_pde :: "u32 \<Rightarrow> 'a mm_state_scheme \<Rightarrow> 'a mm_state_scheme" where
  "load_pde pde s = s\<lparr>cr3 := pde\<rparr>"

text \<open>\<open>mm_flush\<close> is assembly (\<open>flush.S\<close>): it sets the paging bit of \<open>cr0\<close> and jumps into the
  kernel's segments.  \<open>mmap_init_map\<close> is the state at that moment.\<close>

definition mmap_init_map :: "(nat \<Rightarrow> u8) \<Rightarrow> u32 \<Rightarrow> 'a mm_state_scheme \<Rightarrow> 'a mm_state_scheme" where
  "mmap_init_map raw kernel_page_num s =
     (let s1 = s\<lparr>mem_page_count := mem_length s div PAGE_SIZE\<rparr>;
          s2 = vmm_init (globl_mmap_init (pmm_init raw s1));
          s3 = load_pde (kernel_mmap_pde_addr s2) s2
      in for_loop 0 (kernel_page_num div PAGE_PTE_INDEX + 1)
           (\<lambda>i s. s\<lparr>kernel_mmap_pde := (kernel_mmap_pde s)(i :=
              set_page (get_globl_pte i s) (PAGE_PRESENT OR PAGE_WRITE))\<rparr>) s3)"

definition mmap_init :: "(nat \<Rightarrow> u8) \<Rightarrow> u32 \<Rightarrow> 'a mm_state_scheme \<Rightarrow> 'a mm_state_scheme" where
  "mmap_init raw kernel_end s =
     (let kernel_page_num = (kernel_end + PAGE_SIZE - 1) div PAGE_SIZE;
          s1 = (mmap_init_map raw kernel_page_num s)\<lparr>paging := True\<rparr>
      in for_loop 0 (kernel_page_num div PAGE_PTE_INDEX + 1)
           (\<lambda>i s. s\<lparr>kernel_mmap_pde := (kernel_mmap_pde s)(i := 0)\<rparr>) s1)"

section \<open>Page table entries: flags and addresses\<close>

lemma page_mask_split: "(x :: u32) AND PAGE_MASK = push_bit 12 (drop_bit 12 x)"
proof (rule bit_word_eqI)
  fix n assume "n < LENGTH(32)"
  then have "n < 32" by simp
  moreover have "bit PAGE_MASK n \<longleftrightarrow> 12 \<le> n" if "n < 32"
  proof -
    have "list_all (\<lambda>n. bit PAGE_MASK n = (12 \<le> n)) [0..<32]" by code_simp
    with that show ?thesis by (simp add: list_all_iff)
  qed
  ultimately show "bit (x AND PAGE_MASK) n = bit (push_bit 12 (drop_bit 12 x)) n"
    by (auto simp: bit_and_iff bit_push_bit_iff bit_drop_bit_eq)
qed

lemma unat_page_mask: "unat (x AND PAGE_MASK) = unat x div 4096 * 4096"
proof -
  have "unat (drop_bit 12 x) = unat x div 4096" by (simp add: unat_drop_bit_eq drop_bit_eq_div)
  moreover have "unat x div 4096 * 4096 < 4294967296"
    using unat_u32_less [of x] by linarith
  ultimately show ?thesis
    by (simp add: page_mask_split push_bit_eq_mult unat_mult32)
qed

lemma get_page_attr_set_page:
  assumes "f AND PAGE_MASK = 0"
  shows "get_page_attr (set_page a f) = a AND PAGE_MASK"
proof -
  have "(f AND NOT PAGE_MASK) AND PAGE_MASK = 0" by (simp add: and.assoc)
  then show ?thesis
    by (simp add: get_page_attr_def set_page_def bit.conj_disj_distrib2 and.assoc)
qed

lemma unat_push_12:
  assumes "unat n < 1048576"
  shows "unat (push_bit 12 n :: u32) = unat n * 4096"
  using assms by (simp add: push_bit_eq_mult unat_mult32)

lemma unat_page_address:
  assumes "unat g < 1048576"
  shows "unat (g * PAGE_SIZE) = unat g * 4096"
  using assms by (simp add: unat_mult32)

lemma page_entry:
  assumes "unat n < 1048576"
  shows "unat (get_page_attr (set_page (push_bit 12 n) (PAGE_PRESENT OR PAGE_WRITE))) = unat n * 4096"
  using assms by (simp add: get_page_attr_set_page unat_page_mask unat_push_12)

section \<open>What each operation leaves alone\<close>

text \<open>An operation of the frame allocator changes no field of the extension.\<close>

lemma mm_more_cong:
  assumes "pmm_state.more s = pmm_state.more t"
  shows "globl_mmap_pte s = globl_mmap_pte t" "globl_mmap_pte_addr s = globl_mmap_pte_addr t"
    "kernel_mmap_pde s = kernel_mmap_pde t" "kernel_mmap_pde_addr s = kernel_mmap_pde_addr t"
    "dmmap_page_count s = dmmap_page_count t" "vmmap_page_count s = vmmap_page_count t"
    "vmm_free_page_count s = vmm_free_page_count t" "vmm_pos s = vmm_pos t"
    "page_mem s = page_mem t" "intr_flag s = intr_flag t" "cr3 s = cr3 t"
    "paging s = paging t"
  using assms by (cases s, cases t, simp)+

lemmas pmm_alloc_page_mm [simp, frame] = mm_more_cong [OF pmm_alloc_page_more]
lemmas pmm_up_alloc_page_mm [simp, frame] = mm_more_cong [OF pmm_up_alloc_page_more]
lemmas pmm_free_page_mm [simp, frame] = mm_more_cong [OF pmm_free_page_more]
lemmas pmm_init_mm [simp, frame] = mm_more_cong [OF pmm_init_more]

text \<open>And the fields of the extension do not matter to the frame allocator's predicates.\<close>

lemma pmm_ok_cong:
  assumes "pmm_state.truncate s = pmm_state.truncate t"
  shows "pmm_ok s = pmm_ok t" "pmm_free s = pmm_free t" "pmm_total s = pmm_total t"
    "pmm_avail s = pmm_avail t" "pmm_inv s = pmm_inv t" "pmm_wf s = pmm_wf t"
  using assms
  by (simp_all add: pmm_ok_def pmm_inv_def pmm_wf_def pmm_free_def pmm_total_def pmm_avail_def
      pmm_state.truncate_def)

lemma mm_update_truncate [simp]:
  "pmm_state.truncate (globl_mmap_pte_update f s) = pmm_state.truncate s"
  "pmm_state.truncate (kernel_mmap_pde_update g s) = pmm_state.truncate s"
  "pmm_state.truncate (dmmap_page_count_update h s) = pmm_state.truncate s"
  "pmm_state.truncate (vmmap_page_count_update h s) = pmm_state.truncate s"
  "pmm_state.truncate (vmm_free_page_count_update h s) = pmm_state.truncate s"
  "pmm_state.truncate (vmm_pos_update h s) = pmm_state.truncate s"
  "pmm_state.truncate (page_mem_update f s) = pmm_state.truncate s"
  "pmm_state.truncate (intr_flag_update b s) = pmm_state.truncate s"
  "pmm_state.truncate (cr3_update h s) = pmm_state.truncate s"
  "pmm_state.truncate (paging_update b s) = pmm_state.truncate s"
  by (simp_all add: pmm_state.truncate_def)

lemma mm_op_truncate [simp]:
  "pmm_state.truncate (globl_page_mmap f g s) = pmm_state.truncate s"
  "pmm_state.truncate (globl_page_remove g s) = pmm_state.truncate s"
  "pmm_state.truncate (enable_intr s) = pmm_state.truncate s"
  "pmm_state.truncate (disable_intr s) = pmm_state.truncate s"
  by (simp_all add: globl_page_mmap_def globl_page_remove_def enable_intr_def disable_intr_def)

lemmas mm_op_pmm [simp] =
  mm_op_truncate(1) [THEN pmm_ok_cong(1)] mm_op_truncate(1) [THEN pmm_ok_cong(2)]
  mm_op_truncate(1) [THEN pmm_ok_cong(3)] mm_op_truncate(1) [THEN pmm_ok_cong(4)]
  mm_op_truncate(2) [THEN pmm_ok_cong(1)] mm_op_truncate(2) [THEN pmm_ok_cong(2)]
  mm_op_truncate(2) [THEN pmm_ok_cong(3)] mm_op_truncate(2) [THEN pmm_ok_cong(4)]
  mm_op_truncate(3) [THEN pmm_ok_cong(1)] mm_op_truncate(3) [THEN pmm_ok_cong(2)]
  mm_op_truncate(3) [THEN pmm_ok_cong(3)] mm_op_truncate(3) [THEN pmm_ok_cong(4)]
  mm_op_truncate(4) [THEN pmm_ok_cong(1)] mm_op_truncate(4) [THEN pmm_ok_cong(2)]
  mm_op_truncate(4) [THEN pmm_ok_cong(3)] mm_op_truncate(4) [THEN pmm_ok_cong(4)]

lemmas mm_update_pmm [simp] =
  mm_update_truncate [THEN pmm_ok_cong(1)] mm_update_truncate [THEN pmm_ok_cong(2)]
  mm_update_truncate [THEN pmm_ok_cong(3)] mm_update_truncate [THEN pmm_ok_cong(4)]

lemma mm_op_frame [simp, frame]:
  "dmmap_page_count (globl_page_mmap f g s) = dmmap_page_count s"
  "vmmap_page_count (globl_page_mmap f g s) = vmmap_page_count s"
  "vmm_free_page_count (globl_page_mmap f g s) = vmm_free_page_count s"
  "vmm_pos (globl_page_mmap f g s) = vmm_pos s"
  "page_mem (globl_page_mmap f g s) = page_mem s"
  "kernel_mmap_pde (globl_page_mmap f g s) = kernel_mmap_pde s"
  "intr_flag (globl_page_mmap f g s) = intr_flag s"
  "dmmap_page_count (globl_page_remove g s) = dmmap_page_count s"
  "vmmap_page_count (globl_page_remove g s) = vmmap_page_count s"
  "vmm_free_page_count (globl_page_remove g s) = vmm_free_page_count s"
  "vmm_pos (globl_page_remove g s) = vmm_pos s"
  "page_mem (globl_page_remove g s) = page_mem s"
  "kernel_mmap_pde (globl_page_remove g s) = kernel_mmap_pde s"
  "intr_flag (globl_page_remove g s) = intr_flag s"
  by (simp_all add: globl_page_mmap_def globl_page_remove_def)

lemma intr_frame [simp, frame]:
  "globl_mmap_pte (enable_intr s) = globl_mmap_pte s"
  "dmmap_page_count (enable_intr s) = dmmap_page_count s"
  "vmmap_page_count (enable_intr s) = vmmap_page_count s"
  "vmm_free_page_count (enable_intr s) = vmm_free_page_count s"
  "vmm_pos (enable_intr s) = vmm_pos s"
  "page_mem (enable_intr s) = page_mem s"
  "globl_mmap_pte (disable_intr s) = globl_mmap_pte s"
  "dmmap_page_count (disable_intr s) = dmmap_page_count s"
  "vmmap_page_count (disable_intr s) = vmmap_page_count s"
  "vmm_free_page_count (disable_intr s) = vmm_free_page_count s"
  "vmm_pos (disable_intr s) = vmm_pos s"
  "page_mem (disable_intr s) = page_mem s"
  "kernel_mmap_pde (enable_intr s) = kernel_mmap_pde s"
  "kernel_mmap_pde (disable_intr s) = kernel_mmap_pde s"
  "intr_flag (enable_intr s)" "\<not> intr_flag (disable_intr s)"
  by (simp_all add: enable_intr_def disable_intr_def)

section \<open>Abstraction: the dynamic pages as a map\<close>

text \<open>\<open>vmm_map s\<close>: dynamic page number to the frame it is mapped to.\<close>

definition vmm_frame :: "'a mm_state_scheme \<Rightarrow> u32 \<Rightarrow> nat" where
  "vmm_frame s g = unat (globl_mmap_pte s g) div 4096"

definition vmm_map :: "'a mm_state_scheme \<Rightarrow> nat \<rightharpoonup> nat" where
  "vmm_map s i =
     (let f = vmm_frame s (dmmap_page_count s + of_nat i) in
      if i < unat (vmmap_page_count s) \<and> f \<noteq> 0 then Some f else None)"

definition vmm_wf :: "'a mm_state_scheme \<Rightarrow> bool" where
  "vmm_wf s \<longleftrightarrow> unat (dmmap_page_count s) + unat (vmmap_page_count s) \<le> 196608 \<and>
     unat (vmm_pos s) < unat (vmmap_page_count s)"

lemma unat_get_page_attr: "unat (get_page_attr e) = unat e div 4096 * 4096"
  by (simp add: get_page_attr_def unat_page_mask)

lemma get_vmm_page_map:
  "unat (get_vmm_page p s) = (case vmm_map s (unat p) of None \<Rightarrow> 0 | Some f \<Rightarrow> f * 4096)"
  by (simp add: get_vmm_page_def vmm_map_def vmm_frame_def Let_def word_less_nat_alt
      get_globl_page_attr_def get_globl_page_index_def unat_get_page_attr)

lemma get_vmm_page_zero: "get_vmm_page p s = 0 \<longleftrightarrow> vmm_map s (unat p) = None"
proof -
  have "get_vmm_page p s = 0 \<longleftrightarrow> unat (get_vmm_page p s) = 0" by (simp add: unat_eq_zero)
  also have "\<dots> \<longleftrightarrow> vmm_map s (unat p) = None"
    unfolding get_vmm_page_map by (auto simp: vmm_map_def Let_def split: option.splits if_splits)
  finally show ?thesis .
qed

lemma vmm_map_outside: "unat (vmmap_page_count s) \<le> i \<Longrightarrow> vmm_map s i = None"
  by (simp add: vmm_map_def Let_def)

lemma vmm_map_cong:
  assumes "globl_mmap_pte s = globl_mmap_pte t" "dmmap_page_count s = dmmap_page_count t"
    "vmmap_page_count s = vmmap_page_count t"
  shows "vmm_map s = vmm_map t"
  using assms by (simp add: fun_eq_iff vmm_map_def vmm_frame_def)

lemma vmm_map_frame [simp, frame]:
  "vmm_map (snd (pmm_alloc_page s)) = vmm_map s"
  "vmm_map (pmm_free_page a n s) = vmm_map s"
  "vmm_map (snd (pmm_up_alloc_page n s)) = vmm_map s"
  "vmm_map (enable_intr s) = vmm_map s"
  "vmm_map (disable_intr s) = vmm_map s"
  "vmm_map (s\<lparr>vmm_pos := p\<rparr>) = vmm_map s"
  "vmm_map (s\<lparr>vmm_free_page_count := p\<rparr>) = vmm_map s"
  "vmm_map (s\<lparr>page_mem := m\<rparr>) = vmm_map s"
  by (rule vmm_map_cong; simp)+

text \<open>Entries of the global table, for an index that is in range.\<close>

lemma globl_page_mmap_pte:
  assumes "unat f < 1048576" and "unat g < 196608"
  shows "globl_mmap_pte (globl_page_mmap f g s) =
    (globl_mmap_pte s)(g := set_page (push_bit 12 f) (PAGE_PRESENT OR PAGE_WRITE))"
  using assms by (simp add: globl_page_mmap_def word_less_nat_alt)

lemma globl_page_remove_pte:
  assumes "unat g < 196608"
  shows "globl_mmap_pte (globl_page_remove g s) = (globl_mmap_pte s)(g := 0)"
  using assms by (simp add: globl_page_remove_def word_less_nat_alt)

lemma set_page_div:
  assumes "unat f < 1048576"
  shows "unat (set_page (push_bit 12 f) (PAGE_PRESENT OR PAGE_WRITE)) div 4096 = unat f"
proof -
  let ?e = "set_page (push_bit 12 f) (PAGE_PRESENT OR PAGE_WRITE)"
  have "unat ?e div 4096 * 4096 = unat f * 4096"
    using page_entry [OF assms] by (simp only: unat_get_page_attr)
  then show ?thesis by simp
qed

lemma vmm_index:
  assumes "vmm_wf s" and "unat p < unat (vmmap_page_count s)"
  shows "unat (dmmap_page_count s + p) = unat (dmmap_page_count s) + unat p"
    and "unat (dmmap_page_count s + p) < 196608"
  using assms by (auto simp: vmm_wf_def unat_add32)

lemma of_nat_eq_word:
  assumes "i < unat (n :: u32)"
  shows "of_nat i = (p :: u32) \<longleftrightarrow> i = unat p"
proof -
  have "i < 4294967296" using assms unat_u32_less [of n] by linarith
  then show ?thesis by (auto simp: unat_of_nat_u32)
qed

lemma vmm_map_mmap:
  assumes "vmm_wf s" and "unat p < unat (vmmap_page_count s)" and "0 < unat f" "unat f < 1048576"
  shows "vmm_map (globl_page_mmap f (get_globl_page_index p s) s) = (vmm_map s)(unat p \<mapsto> unat f)"
proof
  fix i
  show "vmm_map (globl_page_mmap f (get_globl_page_index p s) s) i = ((vmm_map s)(unat p \<mapsto> unat f)) i"
    using of_nat_eq_word [of i "vmmap_page_count s" p] assms set_page_div [OF assms(4)]
      globl_page_mmap_pte [OF assms(4) vmm_index(2) [OF assms(1,2)], of s]
    by (auto simp: vmm_map_def vmm_frame_def Let_def get_globl_page_index_def)
qed

lemma vmm_map_remove:
  assumes "vmm_wf s" and "unat p < unat (vmmap_page_count s)"
  shows "vmm_map (globl_page_remove (get_globl_page_index p s) s) = (vmm_map s)(unat p := None)"
proof
  fix i
  show "vmm_map (globl_page_remove (get_globl_page_index p s) s) i = ((vmm_map s)(unat p := None)) i"
    using of_nat_eq_word [of i "vmmap_page_count s" p] assms
      globl_page_remove_pte [OF vmm_index(2) [OF assms(1,2)], of s]
    by (auto simp: vmm_map_def vmm_frame_def Let_def get_globl_page_index_def)
qed

section \<open>The search for a run of unmapped pages\<close>

lemma vmm_scan_spec:
  assumes "i \<le> count"
  shows "i \<le> vmm_scan count p i s \<and> vmm_scan count p i s \<le> count \<and>
    (\<forall>j. unat i \<le> j \<and> j < unat (vmm_scan count p i s) \<longrightarrow> get_vmm_page (p - of_nat j) s = 0) \<and>
    (vmm_scan count p i s \<noteq> count \<longrightarrow> get_vmm_page (p - vmm_scan count p i s) s \<noteq> 0)"
  using assms
proof (induction count p i s rule: vmm_scan.induct)
  case (1 count p i s)
  show ?case
  proof (cases "i < count \<and> get_vmm_page (p - i) s = 0")
    case True
    then have Si: "unat (i + 1) = Suc (unat i)" by (blast intro: unat_Suc_less)
    with True have le: "i + 1 \<le> count" "i \<le> i + 1"
      by (simp_all add: word_le_nat_alt word_less_nat_alt)
    let ?r = "vmm_scan count p (i + 1) s"
    have r: "vmm_scan count p i s = ?r" using True by (simp add: vmm_scan.simps [of count p i s])
    have IH: "i + 1 \<le> ?r \<and> ?r \<le> count \<and>
      (\<forall>j. unat (i + 1) \<le> j \<and> j < unat ?r \<longrightarrow> get_vmm_page (p - of_nat j) s = 0) \<and>
      (?r \<noteq> count \<longrightarrow> get_vmm_page (p - ?r) s \<noteq> 0)"
      using "1.IH" True le(1) by simp
    have "get_vmm_page (p - of_nat j) s = 0" if "unat i \<le> j" "j < unat ?r" for j
    proof (cases "j = unat i")
      case True
      with \<open>i < count \<and> get_vmm_page (p - i) s = 0\<close> show ?thesis by simp
    next
      case False
      with that IH Si show ?thesis by simp
    qed
    with IH le(2) show ?thesis unfolding r by (meson order_trans)
  next
    case False
    with "1.prems" show ?thesis by (auto simp: vmm_scan.simps [of count p i s])
  qed
qed

text \<open>\<open>vmm_run s n e\<close>: the \<open>n\<close> pages that end with page \<open>e\<close>, all above page 0, are unmapped.\<close>

definition vmm_run :: "'a mm_state_scheme \<Rightarrow> nat \<Rightarrow> nat \<Rightarrow> bool" where
  "vmm_run s n e \<longleftrightarrow> n \<le> e \<and> (\<forall>j<n. vmm_map s (e - j) = None)"

lemma vmm_scan_run:
  assumes "unat count \<le> unat p"
  shows "vmm_scan count p 0 s = count \<longleftrightarrow> vmm_run s (unat count) (unat p)"
    and "vmm_scan count p 0 s \<noteq> count \<Longrightarrow>
      unat (vmm_scan count p 0 s) < unat count \<and>
      vmm_map s (unat p - unat (vmm_scan count p 0 s)) \<noteq> None"
proof -
  let ?r = "vmm_scan count p 0 s"
  have sub: "unat (p - of_nat j) = unat p - j" if "j \<le> unat p" for j
  proof -
    have "j < 4294967296" using that unat_u32_less [of p] by linarith
    then have "unat (of_nat j :: u32) = j" by (rule unat_of_nat_u32)
    then show ?thesis using that by (simp add: unat_sub32 word_le_nat_alt)
  qed
  have S: "?r \<le> count" "\<And>j. j < unat ?r \<Longrightarrow> get_vmm_page (p - of_nat j) s = 0"
    "?r \<noteq> count \<Longrightarrow> get_vmm_page (p - ?r) s \<noteq> 0"
    using vmm_scan_spec [of 0 count p s] by auto
  have z: "get_vmm_page (p - of_nat j) s = 0 \<longleftrightarrow> vmm_map s (unat p - j) = None" if "j \<le> unat p" for j
    using sub [OF that] by (simp add: get_vmm_page_zero)
  show "unat ?r < unat count \<and> vmm_map s (unat p - unat ?r) \<noteq> None" if ne: "?r \<noteq> count"
  proof
    show lt: "unat ?r < unat count"
      using S(1) ne by (simp add: word_le_nat_alt word_unat_eq_iff)
    with assms z [of "unat ?r"] S(3) [OF ne] show "vmm_map s (unat p - unat ?r) \<noteq> None" by simp
  qed
  then have "\<not> vmm_run s (unat count) (unat p)" if "?r \<noteq> count"
    using that by (auto simp: vmm_run_def)
  moreover have "vmm_run s (unat count) (unat p)" if r: "?r = count"
  proof -
    have "vmm_map s (unat p - j) = None" if "j < unat count" for j
      using S(2) [of j] r that z [of j] assms by simp
    with assms show ?thesis by (simp add: vmm_run_def)
  qed
  ultimately show "?r = count \<longleftrightarrow> vmm_run s (unat count) (unat p)" by blast
qed

text \<open>When some run of \<open>count\<close> pages is free below \<open>p\<close>, the search ends and finds the highest.\<close>

lemma vmm_search_found:
  assumes "vmm_run s (unat count) e0" and "0 < e0" and "e0 \<le> unat p"
  shows "\<exists>q. vmm_search count p s = Some (Some q) \<and> e0 \<le> unat q \<and> unat q \<le> unat p \<and>
    vmm_run s (unat count) (unat q) \<and>
    (\<forall>e. unat q < e \<and> e \<le> unat p \<longrightarrow> \<not> vmm_run s (unat count) e)"
  using assms(3)
proof (induction "unat p" arbitrary: p rule: less_induct)
  case less
  let ?r = "vmm_scan count p 0 s"
  have n: "unat count \<le> unat p" using assms(1) less.prems by (simp add: vmm_run_def)
  have p0: "0 < p" using less.prems assms(2) by (simp add: word_less_nat_alt)
  note unf = vmm_search.simps [of count p s]
  show ?case
  proof (cases "?r = count")
    case True
    with vmm_scan_run(1) [OF n, of s] p0 less.prems show ?thesis by (auto simp: unf)
  next
    case False
    note r = vmm_scan_run(2) [OF n False]
    have gap: "e0 < unat p - unat ?r"
    proof (rule ccontr)
      assume "\<not> e0 < unat p - unat ?r"
      then have "e0 - (unat p - unat ?r) < unat count"
        and "e0 - (e0 - (unat p - unat ?r)) = unat p - unat ?r"
        using r n less.prems by auto
      with assms(1) r show False unfolding vmm_run_def by metis
    qed
    have "unat (p - ?r) = unat p - unat ?r" "0 < p - ?r"
      using gap by (simp_all add: unat_sub32 word_le_nat_alt word_less_nat_alt)
    then have q: "unat (p - ?r - 1) = unat p - unat ?r - 1" by (simp add: unat_pred)
    have sm: "unat (p - ?r - 1) < unat p" "e0 \<le> unat (p - ?r - 1)" using gap q by auto
    from less.hyps [OF sm] obtain e where e: "vmm_search count (p - ?r - 1) s = Some (Some e)"
      "e0 \<le> unat e" "unat e \<le> unat (p - ?r - 1)" "vmm_run s (unat count) (unat e)"
      "\<forall>e'. unat e < e' \<and> e' \<le> unat (p - ?r - 1) \<longrightarrow> \<not> vmm_run s (unat count) e'" by blast
    have no: "\<not> vmm_run s (unat count) e'" if "unat e < e'" "e' \<le> unat p" for e'
    proof (cases "e' \<le> unat (p - ?r - 1)")
      case True
      with e(5) that show ?thesis by blast
    next
      case False
      then have "e' - (unat p - unat ?r) < unat count"
        and "e' - (e' - (unat p - unat ?r)) = unat p - unat ?r"
        using r that q n by auto
      with r show ?thesis unfolding vmm_run_def by metis
    qed
    have "vmm_search count p s = Some (Some e)" using False p0 e(1) by (simp add: unf Let_def)
    with e no sm show ?thesis by (intro exI [of _ e]) auto
  qed
qed

text \<open>When every page from 1 to \<open>p\<close> is mapped, the search ends with nothing.\<close>

lemma vmm_search_full:
  assumes "\<And>i. 1 \<le> i \<Longrightarrow> i \<le> unat p \<Longrightarrow> vmm_map s i \<noteq> None" and "0 < count"
  shows "vmm_search count p s = Some None"
  using assms(1)
proof (induction "unat p" arbitrary: p rule: less_induct)
  case less
  show ?case
  proof (cases "0 < p")
    case False
    then show ?thesis by (simp add: vmm_search.simps [of count p s])
  next
    case True
    then have u: "unat (p - 1) = unat p - 1" "0 < unat p" by (simp_all add: unat_pred word_less_nat_alt)
    have "get_vmm_page p s \<noteq> 0" using less.prems [of "unat p"] u by (simp add: get_vmm_page_zero)
    then have "vmm_scan count p 0 s = 0" by (simp add: vmm_scan.simps [of count p 0 s])
    moreover have "vmm_search count (p - 1) s = Some None" using u by (intro less) auto
    ultimately show ?thesis using True assms(2) by (simp add: vmm_search.simps [of count p s])
  qed
qed

section \<open>Allocation\<close>

definition vmm_unmapped :: "'a mm_state_scheme \<Rightarrow> nat set" where
  "vmm_unmapped s = {i. i < unat (vmmap_page_count s) \<and> vmm_map s i = None}"

text \<open>The invariant: the frame allocator's, the layout, and the count of unmapped pages.\<close>

definition mm_inv :: "'a mm_state_scheme \<Rightarrow> bool" where
  "mm_inv s \<longleftrightarrow> pmm_ok s \<and> vmm_wf s \<and> unat (vmm_free_page_count s) = card (vmm_unmapped s)"

text \<open>Everything but the dynamic mappings, the frames and the interrupt flag is as before.\<close>

definition vmm_same :: "nat set \<Rightarrow> 'a mm_state_scheme \<Rightarrow> 'a mm_state_scheme \<Rightarrow> bool" where
  "vmm_same G s t \<longleftrightarrow> dmmap_page_count t = dmmap_page_count s \<and>
     vmmap_page_count t = vmmap_page_count s \<and> page_mem t = page_mem s \<and>
     kernel_mmap_pde t = kernel_mmap_pde s \<and> pmm_total t = pmm_total s \<and>
     (\<forall>g. unat g \<notin> G \<longrightarrow> globl_mmap_pte t g = globl_mmap_pte s g)"

lemma vmm_same_refl [simp]: "vmm_same G s s"
  by (simp add: vmm_same_def)

lemma vmm_same_trans: "vmm_same G s t \<Longrightarrow> vmm_same G t u \<Longrightarrow> vmm_same G s u"
  by (simp add: vmm_same_def)

lemma globl_page_mmap_same:
  assumes "vmm_wf s" and "unat p < unat (vmmap_page_count s)"
    and "unat (dmmap_page_count s) + unat p \<in> G"
  shows "vmm_same G s (globl_page_mmap f (get_globl_page_index p s) s)"
    and "vmm_same G s (globl_page_remove (get_globl_page_index p s) s)"
  using vmm_index(1) [OF assms(1,2)] assms(3)
  by (auto simp: vmm_same_def globl_page_mmap_def globl_page_remove_def get_globl_page_index_def)

lemma mm_wf_frame [simp, frame]:
  "vmm_wf (snd (pmm_alloc_page s)) = vmm_wf s"
  "vmm_wf (pmm_free_page a n s) = vmm_wf s"
  "vmm_wf (snd (pmm_up_alloc_page n s)) = vmm_wf s"
  "vmm_wf (globl_page_mmap f g s) = vmm_wf s"
  "vmm_wf (globl_page_remove g s) = vmm_wf s"
  "vmm_wf (enable_intr s) = vmm_wf s"
  "vmm_wf (disable_intr s) = vmm_wf s"
  "vmm_wf (s\<lparr>vmm_free_page_count := c\<rparr>) = vmm_wf s"
  by (simp_all add: vmm_wf_def)

lemma word_add_index:
  fixes head i count :: u32
  assumes "unat head + unat count \<le> n" and "i < count" and "n < 4294967296"
  shows "unat (head + i) = unat head + unat i" and "unat (head + i) < n"
  using assms by (auto simp: unat_add32 word_less_nat_alt)

text \<open>
  The mapping loop, when the frame allocator has a frame for every page: the new mapping is
  injective, its frames were free and now are not, no entry outside the run is touched.
\<close>

lemma vmm_map_loop_spec:
  assumes "pmm_ok s" and "vmm_wf s" and "i \<le> count"
    and "unat head + unat count \<le> unat (vmmap_page_count s)"
    and "unat count - unat i \<le> card (pmm_avail s)"
  shows "\<exists>m t. vmm_map_loop head count i s = (True, t) \<and> pmm_ok t \<and> vmm_wf t \<and>
    dom m = {unat head + unat i..<unat head + unat count} \<and> inj_on m (dom m) \<and>
    ran m \<subseteq> pmm_avail s \<and> pmm_free t = pmm_free s - ran m \<and> vmm_map t = vmm_map s ++ m \<and>
    vmm_same {unat (dmmap_page_count s) + unat head..<
      unat (dmmap_page_count s) + unat head + unat count} s t \<and>
    vmm_pos t = vmm_pos s \<and> vmm_free_page_count t = vmm_free_page_count s"
  using assms
proof (induction head count i s rule: vmm_map_loop.induct)
  case (1 head count i s)
  note unf = vmm_map_loop.simps [of head count i s]
  show ?case
  proof (cases "i < count")
    case False
    with "1.prems"(3) have "i = count" by simp
    then show ?thesis using "1.prems" by (intro exI [of _ Map.empty] exI [of _ s])
        (simp add: vmm_map_loop.simps [of head count count s])
  next
    case True
    let ?G = "{unat (dmmap_page_count s) + unat head..<
      unat (dmmap_page_count s) + unat head + unat count}"
    have "unat i < unat count" using True by (simp add: word_less_nat_alt)
    with "1.prems"(5) have "0 < card (pmm_avail s)" by linarith
    then have ne: "pmm_avail s \<noteq> {}" by auto
    from pmm.alloc_success [OF "1.prems"(1) ne] obtain k a s1 where
      al: "pmm_alloc_page s = (a, s1)" and k: "k \<in> pmm_avail s" "k \<in> pmm_free s"
        "unat a = k * 4096" "a \<noteq> NULL"
      and s1: "pmm_ok s1" "pmm_total s1 = pmm_total s" "pmm_free s1 = pmm_free s - {k}"
        "pmm_avail s1 = pmm_avail s - {k}" "card (pmm_avail s1) = card (pmm_avail s) - 1" .
    have fr: "vmm_wf s1" "vmm_map s1 = vmm_map s" "dmmap_page_count s1 = dmmap_page_count s"
      "vmmap_page_count s1 = vmmap_page_count s" "vmm_pos s1 = vmm_pos s"
      "vmm_free_page_count s1 = vmm_free_page_count s" "vmm_same ?G s s1"
      using arg_cong [OF al, of snd] "1.prems"(2) s1(2)
        pmm_alloc_page_mm [of s] vmm_map_frame(1) [of s] mm_wf_frame(1) [of s]
      by (auto simp: vmm_same_def)
    have Si: "unat (i + 1) = Suc (unat i)" using True by (rule unat_Suc_less)
    note hi = word_add_index [OF "1.prems"(4) True unat_u32_less]
    have hv: "unat head + unat i < unat (vmmap_page_count s)" using hi by simp
    have kb: "0 < k" "k < 1048576"
      using k(2) pmm_inv_bound [of s k] "1.prems"(1) by (auto simp: pmm_ok_def intro: gr0I)
    then have fk: "unat (a div PAGE_SIZE) = k" using k(3) by simp
    let ?s2 = "globl_page_mmap (a div PAGE_SIZE) (get_globl_page_index (head + i) s1) s1"
    have s2: "pmm_ok ?s2" "vmm_wf ?s2" "pmm_free ?s2 = pmm_free s1" "pmm_avail ?s2 = pmm_avail s1"
      "vmm_map ?s2 = (vmm_map s)(unat head + unat i \<mapsto> k)"
      using s1 fr vmm_map_mmap [of s1 "head + i" "a div PAGE_SIZE"] kb hv
      by (simp_all add: fk hi del: unat_div_u32)
    have same2: "vmm_same ?G s ?s2"
    proof (rule vmm_same_trans [OF fr(7)])
      show "vmm_same ?G s1 ?s2"
        using fr hi True by (intro globl_page_mmap_same(1)) (simp_all add: word_less_nat_alt)
    qed
    have step: "vmm_map_loop head count i s = vmm_map_loop head count (i + 1) ?s2"
      using True al k(4) by (simp add: unf)
    have le: "i + 1 \<le> count" using True Si by (simp add: word_le_nat_alt word_less_nat_alt)
    have "\<exists>m t. vmm_map_loop head count (i + 1) ?s2 = (True, t) \<and> pmm_ok t \<and> vmm_wf t \<and>
      dom m = {unat head + unat (i + 1)..<unat head + unat count} \<and> inj_on m (dom m) \<and>
      ran m \<subseteq> pmm_avail ?s2 \<and> pmm_free t = pmm_free ?s2 - ran m \<and> vmm_map t = vmm_map ?s2 ++ m \<and>
      vmm_same {unat (dmmap_page_count ?s2) + unat head..<
        unat (dmmap_page_count ?s2) + unat head + unat count} ?s2 t \<and>
      vmm_pos t = vmm_pos ?s2 \<and> vmm_free_page_count t = vmm_free_page_count ?s2"
      using "1.prems" s1 s2 fr Si le
      by (intro "1.IH" [OF True al [symmetric] k(4)]) simp_all
    then obtain m t where t: "vmm_map_loop head count (i + 1) ?s2 = (True, t)" "pmm_ok t" "vmm_wf t"
      "dom m = {unat head + unat (i + 1)..<unat head + unat count}" "inj_on m (dom m)"
      "ran m \<subseteq> pmm_avail s - {k}" "pmm_free t = pmm_free s - {k} - ran m"
      "vmm_map t = (vmm_map s)(unat head + unat i \<mapsto> k) ++ m" "vmm_same ?G ?s2 t"
      "vmm_pos t = vmm_pos s" "vmm_free_page_count t = vmm_free_page_count s"
      using s1 s2 fr by auto
    let ?m = "m(unat head + unat i \<mapsto> k)"
    have new: "unat head + unat i \<notin> dom m" using t(4) Si by simp
    then have "m (unat head + unat i) = None" by (simp add: domIff)
    then have ran: "ran ?m = insert k (ran m)" by simp
    have "inj_on ?m (dom ?m)"
      using t(5,6) new by (auto simp: inj_on_def ran_def dom_def)
    moreover have "ran ?m \<subseteq> pmm_avail s" "pmm_free t = pmm_free s - ran ?m"
      using t(6,7) k(1) unfolding ran by auto
    moreover have "dom ?m = {unat head + unat i..<unat head + unat count}"
      using t(4) Si True by (auto simp: word_less_nat_alt)
    moreover have "vmm_map t = vmm_map s ++ ?m"
      using t(8) new by (auto simp: fun_eq_iff map_add_def domIff split: option.splits)
    ultimately show ?thesis
      unfolding step using t(1,2,3,10,11) vmm_same_trans [OF same2 t(9)] by blast
  qed
qed

lemma finite_vmm_unmapped [simp]: "finite (vmm_unmapped s)"
  by (simp add: vmm_unmapped_def)

lemma vmm_unmapped_mm [simp]:
  "vmm_unmapped (enable_intr s) = vmm_unmapped s"
  "vmm_unmapped (disable_intr s) = vmm_unmapped s"
  "vmm_unmapped (s\<lparr>vmm_pos := p\<rparr>) = vmm_unmapped s"
  "vmm_unmapped (s\<lparr>vmm_free_page_count := c\<rparr>) = vmm_unmapped s"
  by (simp_all add: vmm_unmapped_def)

text \<open>
  Allocation, when \<open>count\<close> unmapped pages lie next to each other between page 1 and
  \<open>vmm_pos\<close> and the frame allocator can deliver \<open>count\<close> frames.
\<close>

lemma vmm_alloc_page_correct:
  assumes inv: "mm_inv s" and n: "0 < count"
    and run: "vmm_run s (unat count) e0" "e0 \<le> unat (vmm_pos s)"
    and frames: "unat count \<le> card (pmm_avail s)"
  shows "\<exists>q m a t. vmm_alloc_page count s = Some (a, t) \<and>
    unat count \<le> q \<and> q \<le> unat (vmm_pos s) \<and> vmm_run s (unat count) q \<and>
    (\<forall>e. q < e \<and> e \<le> unat (vmm_pos s) \<longrightarrow> \<not> vmm_run s (unat count) e) \<and>
    unat a = (unat (dmmap_page_count s) + q + 1 - unat count) * 4096 \<and>
    dom m = {q + 1 - unat count..q} \<and> inj_on m (dom m) \<and> ran m \<subseteq> pmm_free s \<and>
    vmm_map t = vmm_map s ++ m \<and> pmm_free t = pmm_free s - ran m \<and> mm_inv t \<and>
    vmm_same {unat (dmmap_page_count s) + (q + 1 - unat count)..unat (dmmap_page_count s) + q} s t \<and>
    intr_flag t"
proof -
  let ?s0 = "disable_intr s"
  have wf: "vmm_wf s" "pmm_ok s" using inv by (simp_all add: mm_inv_def)
  have n0: "0 < unat count" using n by (simp add: word_less_nat_alt)
  have r0: "vmm_run ?s0 k e \<longleftrightarrow> vmm_run s k e" for k e by (simp add: vmm_run_def)
  have e0: "0 < e0" "unat count \<le> e0" using run(1) n0 by (auto simp: vmm_run_def)
  from vmm_search_found [of ?s0 count e0 "vmm_pos s"] run e0 obtain q where
    q: "vmm_search count (vmm_pos s) ?s0 = Some (Some q)" "e0 \<le> unat q" "q \<le> vmm_pos s"
      "vmm_run s (unat count) (unat q)"
      "\<forall>e. unat q < e \<and> e \<le> unat (vmm_pos s) \<longrightarrow> \<not> vmm_run s (unat count) e"
    by (auto simp: r0 word_le_nat_alt)
  have cq: "unat count \<le> unat q" using q(2) e0 by simp
  let ?h = "q - count + 1"
  have qv: "unat q < unat (vmmap_page_count s)"
    using q(3) wf(1) by (simp add: vmm_wf_def word_le_nat_alt)
  have h: "unat ?h = unat q + 1 - unat count"
  proof -
    have "unat (q - count) = unat q - unat count" using cq by (simp add: unat_sub32 word_le_nat_alt)
    moreover have "unat q + 1 \<le> 4294967295" using qv unat_u32_less [of "vmmap_page_count s"] by linarith
    ultimately show ?thesis using cq n0 by (simp add: unat_add32)
  qed
  have hc: "unat ?h + unat count = unat q + 1" using h cq by simp
  have "\<exists>m t. vmm_map_loop ?h count 0 ?s0 = (True, t) \<and> pmm_ok t \<and> vmm_wf t \<and>
    dom m = {unat ?h + unat (0 :: u32)..<unat ?h + unat count} \<and> inj_on m (dom m) \<and>
    ran m \<subseteq> pmm_avail ?s0 \<and> pmm_free t = pmm_free ?s0 - ran m \<and> vmm_map t = vmm_map ?s0 ++ m \<and>
    vmm_same {unat (dmmap_page_count ?s0) + unat ?h..<
      unat (dmmap_page_count ?s0) + unat ?h + unat count} ?s0 t \<and>
    vmm_pos t = vmm_pos ?s0 \<and> vmm_free_page_count t = vmm_free_page_count ?s0"
    using wf frames hc qv n by (intro vmm_map_loop_spec) simp_all
  then obtain m t where t: "vmm_map_loop ?h count 0 ?s0 = (True, t)" "pmm_ok t" "vmm_wf t"
    "dom m = {unat ?h..<unat ?h + unat count}" "inj_on m (dom m)" "ran m \<subseteq> pmm_avail s"
    "pmm_free t = pmm_free s - ran m" "vmm_map t = vmm_map s ++ m"
    "vmm_same {unat (dmmap_page_count s) + unat ?h..<
      unat (dmmap_page_count s) + unat ?h + unat count} ?s0 t"
    "vmm_pos t = vmm_pos s" "vmm_free_page_count t = vmm_free_page_count s"
    by auto
  let ?s2 = "if q = vmm_pos t then t\<lparr>vmm_pos := vmm_pos t - count\<rparr> else t"
  let ?t = "enable_intr (?s2\<lparr>vmm_free_page_count := vmm_free_page_count ?s2 - count\<rparr>)"
  let ?a = "get_globl_page_index ?h ?t * PAGE_SIZE"
  have counts: "dmmap_page_count t = dmmap_page_count s" "vmmap_page_count t = vmmap_page_count s"
    using t(9) by (simp_all add: vmm_same_def)
  have alloc: "vmm_alloc_page count s = Some (?a, ?t)"
    using q(1) t(1) by (simp add: vmm_alloc_page_def Let_def get_globl_page_index_def counts)
  have hv: "unat ?h < unat (vmmap_page_count s)" using hc n0 qv by linarith
  have "unat (dmmap_page_count s + ?h) = unat (dmmap_page_count s) + unat ?h"
    and "unat (dmmap_page_count s + ?h) < 196608"
    by (rule vmm_index [OF wf(1) hv])+
  moreover have "get_globl_page_index ?h ?t = dmmap_page_count s + ?h"
    by (simp add: get_globl_page_index_def counts)
  ultimately have a: "unat ?a = (unat (dmmap_page_count s) + unat ?h) * 4096"
    using unat_page_address [of "dmmap_page_count s + ?h"] by (simp only: less_trans)
  have dom: "dom m = {unat q + 1 - unat count..unat q}" using t(4) hc h by auto
  have F: "vmm_map ?t = vmm_map s ++ m" "pmm_free ?t = pmm_free s - ran m" "pmm_ok ?t"
    using t by (simp_all add: mm_inv_def)
  have wf': "vmm_wf ?t"
    using t(3,10) cq n0 qv
    by (auto simp: vmm_wf_def counts unat_sub32 word_le_nat_alt)
  have sub: "dom m \<subseteq> vmm_unmapped s"
  proof
    fix x assume "x \<in> dom m"
    then have x: "unat q + 1 - unat count \<le> x" "x \<le> unat q" by (simp_all add: dom)
    then have "unat q - x < unat count" "unat q - (unat q - x) = x" using cq by auto
    with q(4) have "vmm_map s x = None" unfolding vmm_run_def by metis
    with x(2) qv show "x \<in> vmm_unmapped s" by (simp add: vmm_unmapped_def)
  qed
  have um: "vmm_unmapped ?t = vmm_unmapped s - dom m"
    using F(1) counts by (auto simp: vmm_unmapped_def domIff map_add_def split: option.splits)
  have cm: "card (dom m) = unat count" using cq by (simp add: dom)
  have "unat count \<le> card (vmm_unmapped s)"
    using card_mono [OF finite_vmm_unmapped sub] cm by simp
  then have "unat (vmm_free_page_count s - count) = card (vmm_unmapped s - dom m)"
    using inv sub cm by (simp add: mm_inv_def unat_sub32 word_le_nat_alt card_Diff_subset dom)
  then have inv': "mm_inv ?t"
    using F(3) wf' um t(11) by (simp add: mm_inv_def)
  have same: "vmm_same {unat (dmmap_page_count s) + (unat q + 1 - unat count)..
      unat (dmmap_page_count s) + unat q} s ?t"
  proof -
    have "{unat (dmmap_page_count s) + unat ?h..<unat (dmmap_page_count s) + unat ?h + unat count} =
      {unat (dmmap_page_count s) + (unat q + 1 - unat count)..unat (dmmap_page_count s) + unat q}"
      using hc h by auto
    then show ?thesis using t(9) by (auto simp: vmm_same_def)
  qed
  show ?thesis
    using q cq a h alloc dom F inv' same t(5,6) pmm.avail_free [OF wf(2)]
    by (intro exI [of _ "unat q"] exI [of _ m] exI [of _ ?a] exI [of _ ?t])
      (auto simp: word_le_nat_alt)
qed

section \<open>Giving pages back\<close>

text \<open>A run of mapped pages whose frames are distinct, in use, and in the bitmap.\<close>

definition vmm_owned :: "'a mm_state_scheme \<Rightarrow> nat set \<Rightarrow> bool" where
  "vmm_owned s R \<longleftrightarrow> R \<subseteq> dom (vmm_map s) \<and> inj_on (vmm_map s) R \<and>
     (\<forall>i\<in>R. \<forall>f. vmm_map s i = Some f \<longrightarrow> f \<notin> pmm_free s \<and> f < pmm_total s)"

lemma vmm_map_some:
  assumes "vmm_map s i = Some f"
  shows "0 < f" and "i < unat (vmmap_page_count s)"
  using assms by (auto simp: vmm_map_def Let_def split: if_splits)

lemma get_vmm_page_mapped:
  assumes "vmm_map s (unat p) = Some f" and "f < 1048576"
  shows "get_vmm_page p s = of_nat f * PAGE_SIZE"
proof -
  have "unat (get_vmm_page p s) = f * 4096" using assms(1) by (simp add: get_vmm_page_map)
  then show ?thesis using page_address [OF assms(2)] by (simp add: word_unat_eq_iff)
qed

lemma vmm_free_step:
  assumes "pmm_ok s" and "vmm_wf s" and "vmm_map s (unat p) = Some f"
    and "f \<notin> pmm_free s" and "f < pmm_total s" and "unat (dmmap_page_count s) + unat p \<in> G"
  defines "t \<equiv> globl_page_remove (get_globl_page_index p s) (pmm_free_page (get_vmm_page p s) 1 s)"
  shows "pmm_ok t \<and> vmm_wf t \<and> vmm_map t = (vmm_map s)(unat p := None) \<and>
    pmm_free t = insert f (pmm_free s) \<and> vmm_same G s t \<and> vmm_pos t = vmm_pos s \<and>
    vmm_free_page_count t = vmm_free_page_count s"
proof -
  let ?s1 = "pmm_free_page (get_vmm_page p s) 1 s"
  have "pmm_total s \<le> 1048576"
    using assms(1) pmm_wf_total(2) pmm_inv_wf by (auto simp: pmm_ok_def)
  then have fb: "f < 1048576" using assms(5) by simp
  note g = get_vmm_page_mapped [OF assms(3) fb]
  have fr: "pmm_ok ?s1" "pmm_free ?s1 = insert f (pmm_free s)" "vmm_wf ?s1"
    "vmm_map ?s1 = vmm_map s" "pmm_total ?s1 = pmm_total s"
    using pmm_free_page_law [OF assms(1) vmm_map_some(1) [OF assms(3)] assms(5,4)] assms(2)
    by (simp_all add: g)
  have pv: "unat p < unat (vmmap_page_count ?s1)" using vmm_map_some(2) [OF assms(3)] by simp
  have idx: "get_globl_page_index p s = get_globl_page_index p ?s1"
    by (simp add: get_globl_page_index_def)
  have "vmm_same G s ?s1" using fr by (simp add: vmm_same_def mm_more_cong(3) [OF pmm_free_page_more])
  moreover have "vmm_same G ?s1 t"
    unfolding t_def idx using assms(6) by (intro globl_page_mmap_same(2) fr pv) simp
  ultimately have "vmm_same G s t" by (rule vmm_same_trans)
  then show ?thesis
    using fr vmm_map_remove [OF fr(3) pv] unfolding t_def idx by simp
qed

lemma vmm_free_loop:
  assumes "pmm_ok s" and "vmm_wf s" and own: "vmm_owned s {unat k..<unat k + unat n}"
    and "unat k + unat n \<le> unat (vmmap_page_count s)"
  defines "R \<equiv> {unat k..<unat k + unat n}"
  defines "t \<equiv> for_loop 0 n (\<lambda>i s. let s1 = pmm_free_page (get_vmm_page (k + i) s) 1 s
                 in globl_page_remove (get_globl_page_index (k + i) s1) s1) s"
  shows "pmm_ok t \<and> vmm_wf t \<and> vmm_map t = vmm_map s |` (- R) \<and>
    pmm_free t = pmm_free s \<union> {f. Some f \<in> vmm_map s ` R} \<and>
    vmm_same ((+) (unat (dmmap_page_count s)) ` R) s t \<and> vmm_pos t = vmm_pos s \<and>
    vmm_free_page_count t = vmm_free_page_count s"
proof -
  let ?I = "\<lambda>j. {unat k..<unat k + j}" and ?G = "(+) (unat (dmmap_page_count s)) ` R"
  let ?P = "\<lambda>j t. pmm_ok t \<and> vmm_wf t \<and> vmm_map t = vmm_map s |` (- ?I j) \<and>
    pmm_free t = pmm_free s \<union> {f. Some f \<in> vmm_map s ` ?I j} \<and>
    vmm_same ?G s t \<and> vmm_pos t = vmm_pos s \<and> vmm_free_page_count t = vmm_free_page_count s"
  have "?P (unat n) t"
    unfolding t_def
  proof (rule for_loop_invariant [where P = ?P])
    show "?P (unat (0 :: u32)) s" using assms(1,2) by (simp add: restrict_map_def fun_eq_iff)
  next
    fix i :: u32 and u :: "'a mm_state_scheme"
    assume i: "i < n" and P: "?P (unat i) u"
    have ki: "unat (k + i) = unat k + unat i"
      using word_add_index(1) [OF assms(4) i unat_u32_less] .
    have mem: "unat k + unat i \<in> R" using i by (simp add: R_def word_less_nat_alt)
    with own have "unat k + unat i \<in> dom (vmm_map s)" unfolding vmm_owned_def R_def by blast
    then obtain f where f1: "vmm_map s (unat k + unat i) = Some f" by blast
    with own mem have f: "vmm_map s (unat k + unat i) = Some f" "f \<notin> pmm_free s" "f < pmm_total s"
      unfolding vmm_owned_def R_def by blast+
    have new: "f \<notin> {f. Some f \<in> vmm_map s ` ?I (unat i)}"
    proof
      assume "f \<in> {f. Some f \<in> vmm_map s ` ?I (unat i)}"
      then obtain x where x: "x \<in> ?I (unat i)" "vmm_map s x = Some f" by force
      then have "x \<in> R" using i by (auto simp: R_def word_less_nat_alt)
      with own mem have "x = unat k + unat i"
        unfolding vmm_owned_def R_def using x(2) f1 by (metis inj_onD)
      with x(1) show False by simp
    qed
    have m: "vmm_map u (unat (k + i)) = Some f" using P f(1) by (simp add: ki)
    have tot: "f < pmm_total u" "dmmap_page_count u = dmmap_page_count s"
      using P f(3) by (simp_all add: vmm_same_def)
    have nf: "f \<notin> pmm_free u" using P new f(2) by auto
    have "unat (dmmap_page_count u) + unat (k + i) \<in> ?G" using mem tot(2) ki by simp
    from vmm_free_step [OF _ _ m nf tot(1) this] P
    have st: "let t = globl_page_remove (get_globl_page_index (k + i) u)
        (pmm_free_page (get_vmm_page (k + i) u) 1 u) in
      pmm_ok t \<and> vmm_wf t \<and> vmm_map t = (vmm_map u)(unat k + unat i := None) \<and>
      pmm_free t = insert f (pmm_free u) \<and> vmm_same ?G u t \<and> vmm_pos t = vmm_pos u \<and>
      vmm_free_page_count t = vmm_free_page_count u"
      by (simp add: Let_def ki)
    have I: "?I (Suc (unat i)) = insert (unat k + unat i) (?I (unat i))" by auto
    have "(vmm_map s |` (- ?I (unat i)))(unat k + unat i := None) = vmm_map s |` (- ?I (Suc (unat i)))"
      by (auto simp: fun_eq_iff restrict_map_def)
    moreover have "insert f (pmm_free s \<union> {f. Some f \<in> vmm_map s ` ?I (unat i)}) =
        pmm_free s \<union> {f. Some f \<in> vmm_map s ` ?I (Suc (unat i))}"
      unfolding I using f(1) by auto
    ultimately show "?P (Suc (unat i)) (let s1 = pmm_free_page (get_vmm_page (k + i) u) 1 u
        in globl_page_remove (get_globl_page_index (k + i) s1) s1)"
      using st P vmm_same_trans [of ?G s u] by (simp add: Let_def get_globl_page_index_def)
  qed simp
  then show ?thesis by (simp add: R_def)
qed

lemma vmm_free_page_correct:
  assumes inv: "mm_inv s" and n: "0 < count" and own: "vmm_owned s {k..<k + unat count}"
  defines "t \<equiv> vmm_free_page ((dmmap_page_count s + of_nat k) * PAGE_SIZE) count s"
  shows "mm_inv t \<and> vmm_map t = vmm_map s |` (- {k..<k + unat count}) \<and>
    pmm_free t = pmm_free s \<union> {f. Some f \<in> vmm_map s ` {k..<k + unat count}} \<and>
    vmm_same ((+) (unat (dmmap_page_count s)) ` {k..<k + unat count}) s t"
proof -
  let ?R = "{k..<k + unat count}" and ?d = "dmmap_page_count s" and ?k = "of_nat k :: u32"
  have wf: "vmm_wf s" "pmm_ok s" using inv by (simp_all add: mm_inv_def)
  have n0: "0 < unat count" using n by (simp add: word_less_nat_alt)
  then have "k + unat count - 1 \<in> ?R" by simp
  with own have "k + unat count - 1 \<in> dom (vmm_map s)" unfolding vmm_owned_def by blast
  then have "k + unat count - 1 < unat (vmmap_page_count s)" using vmm_map_some(2) by blast
  then have fit: "k + unat count \<le> unat (vmmap_page_count s)" using n0 by simp
  have V: "unat ?d + unat (vmmap_page_count s) \<le> 196608" using wf(1) by (simp add: vmm_wf_def)
  have uk: "unat ?k = k" using fit V by (simp add: unat_of_nat_u32)
  have d: "unat (?d + ?k) = unat ?d + k" using fit V by (simp add: unat_add32 uk)
  have idx: "(?d + ?k) * PAGE_SIZE div PAGE_SIZE = ?d + ?k"
  proof -
    have "unat ((?d + ?k) * PAGE_SIZE) = unat (?d + ?k) * 4096"
      using fit V by (intro unat_page_address) (simp add: d)
    then show ?thesis unfolding word_unat_eq_iff by (simp only: unat_div_u32) simp
  qed
  have nlt: "\<not> ?d + ?k < ?d" by (simp add: word_less_nat_alt d)
  have sum: "unat (?k + count) = k + unat count" using fit V by (simp add: unat_add32 uk)
  have le: "?k + count \<le> vmmap_page_count s" using fit sum by (simp add: word_le_nat_alt)
  have last: "unat (?k + count - 1) = k + unat count - 1"
    using sum n0 by (subst unat_pred) (simp_all add: word_less_nat_alt)
  define u where "u = for_loop 0 count (\<lambda>i s. let s1 = pmm_free_page (get_vmm_page (?k + i) s) 1 s
      in globl_page_remove (get_globl_page_index (?k + i) s1) s1) s"
  have u: "pmm_ok u \<and> vmm_wf u \<and> vmm_map u = vmm_map s |` (- ?R) \<and>
    pmm_free u = pmm_free s \<union> {f. Some f \<in> vmm_map s ` ?R} \<and>
    vmm_same ((+) (unat ?d) ` ?R) s u \<and> vmm_pos u = vmm_pos s \<and>
    vmm_free_page_count u = vmm_free_page_count s"
    unfolding u_def using vmm_free_loop [OF wf(2,1), of ?k count] own fit by (simp add: uk)
  then have u_vm: "vmmap_page_count u = vmmap_page_count s" by (simp add: vmm_same_def)
  define l where "l = ?k + count - 1"
  let ?w = "if l > vmm_pos u then u\<lparr>vmm_pos := l\<rparr> else u"
  have t: "t = ?w\<lparr>vmm_free_page_count := vmm_free_page_count ?w + count\<rparr>"
    unfolding t_def vmm_free_page_def Let_def idx using nlt le by (simp add: u_def l_def Let_def)
  have F: "pmm_ok t" "vmm_map t = vmm_map s |` (- ?R)"
    "pmm_free t = pmm_free s \<union> {f. Some f \<in> vmm_map s ` ?R}"
    "vmm_same ((+) (unat ?d) ` ?R) s t" "vmmap_page_count t = vmmap_page_count s"
    "vmm_free_page_count t = vmm_free_page_count s + count"
    using u unfolding t by (simp_all add: vmm_same_def)
  have wf': "vmm_wf t"
  proof -
    have "k + unat count - 1 < unat (vmmap_page_count s)" using fit n0 by simp
    then have "unat l < unat (vmmap_page_count s)" by (simp only: last l_def)
    with u show ?thesis unfolding t by (auto simp: vmm_wf_def u_vm)
  qed
  have dis: "vmm_unmapped s \<inter> ?R = {}" using own by (auto simp: vmm_owned_def vmm_unmapped_def)
  have um: "vmm_unmapped t = vmm_unmapped s \<union> ?R"
    using F(2,5) fit by (auto simp: vmm_unmapped_def restrict_map_def)
  have "card (vmm_unmapped s \<union> ?R) = card (vmm_unmapped s) + unat count"
    using dis by (subst card_Un_disjoint) auto
  moreover have "card (vmm_unmapped s \<union> ?R) \<le> 196608"
  proof -
    have "vmm_unmapped s \<union> ?R \<subseteq> {..<196608}" using V fit by (auto simp: vmm_unmapped_def)
    then show ?thesis using card_mono [of "{..<196608::nat}"] by fastforce
  qed
  ultimately have "unat (vmm_free_page_count t) = card (vmm_unmapped t)"
    using inv F(6) um by (simp add: mm_inv_def unat_add32)
  with F wf' show ?thesis by (simp add: mm_inv_def)
qed

section \<open>Pages of the direct map\<close>

lemma vmm_same_more:
  assumes "pmm_state.more t = pmm_state.more s" and "pmm_total t = pmm_total s"
  shows "vmm_same G s t"
  using assms mm_more_cong [OF assms(1)] by (simp add: vmm_same_def)

lemma mm_inv_more:
  assumes "mm_inv s" and "pmm_state.more t = pmm_state.more s" and "pmm_ok t"
  shows "mm_inv t" and "vmm_map t = vmm_map s"
proof -
  note c = mm_more_cong [OF assms(2)]
  show "vmm_map t = vmm_map s" using c by (intro vmm_map_cong)
  with assms c show "mm_inv t" by (simp add: mm_inv_def vmm_wf_def vmm_unmapped_def)
qed

lemma mm_inv_intr [simp]:
  "mm_inv (enable_intr s) = mm_inv s" "mm_inv (disable_intr s) = mm_inv s"
  by (simp_all add: mm_inv_def)

lemma vmm_same_intr [simp]:
  "vmm_same G s (enable_intr t) = vmm_same G s t" "vmm_same G s (disable_intr t) = vmm_same G s t"
  "vmm_same G (disable_intr s) t = vmm_same G s t"
  by (simp_all add: vmm_same_def)

text \<open>The invariant without the count of unmapped pages, which does not hold while a run of pages is
  being mapped.\<close>

definition mm_base :: "'a mm_state_scheme \<Rightarrow> bool" where
  "mm_base s \<longleftrightarrow> pmm_ok s \<and> vmm_wf s"

lemma mm_inv_base: "mm_inv s \<longleftrightarrow> mm_base s \<and> unat (vmm_free_page_count s) = card (vmm_unmapped s)"
  by (auto simp: mm_inv_def mm_base_def)

lemma mm_base_intr [simp]:
  "mm_base (enable_intr s) = mm_base s" "mm_base (disable_intr s) = mm_base s"
  by (simp_all add: mm_base_def)

lemma mm_base_more:
  assumes "mm_base s" and "pmm_state.more t = pmm_state.more s" and "pmm_ok t"
  shows "mm_base t" and "vmm_map t = vmm_map s"
proof -
  note c = mm_more_cong [OF assms(2)]
  show "vmm_map t = vmm_map s" using c by (intro vmm_map_cong)
  with assms c show "mm_base t" by (simp add: mm_base_def vmm_wf_def)
qed

lemma mm_inv_from_base:
  assumes "mm_inv s" and "mm_base t" and "vmm_map t = vmm_map s" and "vmmap_page_count t = vmmap_page_count s"
    and "vmm_free_page_count t = vmm_free_page_count s"
  shows "mm_inv t"
  using assms by (simp add: mm_inv_base vmm_unmapped_def)

lemma dmm_alloc_page_base:
  assumes inv: "mm_base s" and n: "0 < count" "count \<le> dmmap_page_count s"
    and r: "dmm_alloc_page count s = (a, t)"
  shows "mm_base t \<and> vmm_map t = vmm_map s \<and> vmm_same {} s t \<and> intr_flag t = True \<and>
    (if a = NULL then pmm_free t = pmm_free s
     else \<exists>k. unat a = k * 4096 \<and> k + unat count \<le> unat (dmmap_page_count s) \<and>
            {k..<k + unat count} \<subseteq> pmm_free s \<and> pmm_free t = pmm_free s - {k..<k + unat count})"
proof -
  let ?s0 = "disable_intr s"
  obtain b s1 where up: "pmm_up_alloc_page count ?s0 = (b, s1)"
    by (cases "pmm_up_alloc_page count ?s0")
  have ok: "pmm_ok ?s0" using inv by (simp add: mm_base_def)
  have V: "unat (dmmap_page_count s) \<le> 196608" using inv by (simp add: mm_base_def vmm_wf_def)
  have cnt: "unat count \<le> unat (dmmap_page_count s)" "0 < unat count"
    using n by (simp_all add: word_le_nat_alt word_less_nat_alt)
  from pmm_up_alloc_page_law [OF ok up]
  have law: "pmm_ok s1" "pmm_total s1 = pmm_total s"
    "if b = NULL then pmm_free s1 = pmm_free s
     else \<exists>k. unat b = k * 4096 \<and> {k..<k + unat count} \<subseteq> pmm_free s \<and>
       pmm_free s1 = pmm_free s - {k..<k + unat count}" by (simp_all split: if_splits)
  have more: "pmm_state.more s1 = pmm_state.more ?s0" using pmm_up_alloc_page_more [of count ?s0] up by simp
  note c = mm_more_cong [OF more]
  have i1: "mm_base s1" and m1: "vmm_map s1 = vmm_map s"
    using mm_base_more [OF _ more law(1)] inv by simp_all
  have same1: "vmm_same {} s s1" using vmm_same_more [OF more] law(2) by simp
  show ?thesis
  proof (cases "b = NULL")
    case True
    then have "\<not> b div PAGE_SIZE + count > dmmap_page_count (enable_intr s1)"
      using n c by (simp add: not_less)
    then have "a = NULL" "t = enable_intr s1"
      using r up True by (simp_all add: dmm_alloc_page_def Let_def)
    then show ?thesis using i1 m1 same1 law True by simp
  next
    case False
    then obtain k where k: "unat b = k * 4096" "{k..<k + unat count} \<subseteq> pmm_free s"
      "pmm_free s1 = pmm_free s - {k..<k + unat count}" using law(3) by auto
    have inv0: "pmm_inv s" using inv by (simp add: mm_base_def pmm_ok_def)
    have last: "k + unat count - 1 \<in> pmm_free s" using k(2) cnt by (simp add: subset_iff)
    then have kb: "k + unat count \<le> 1048576" "k + unat count \<le> pmm_total s" "k < 1048576"
      using pmm_inv_bound [OF inv0] pmm_free_less_total cnt(2) by fastforce+
    have bk: "b = of_nat k * PAGE_SIZE"
      using k(1) page_address [OF kb(3)] by (simp add: word_unat_eq_iff)
    have "unat (b div PAGE_SIZE) = k" using k(1) by simp
    then have q: "unat (b div PAGE_SIZE + count) = k + unat count"
      using kb(1) by (simp add: unat_add32 del: unat_div_u32)
    show ?thesis
    proof (cases "b div PAGE_SIZE + count > dmmap_page_count (enable_intr s1)")
      case True
      then have at: "a = NULL" "t = pmm_free_page b count (enable_intr s1)"
        using r up by (simp_all add: dmm_alloc_page_def Let_def)
      have "pmm_inv (enable_intr s1)" "{k..<k + unat count} \<inter> pmm_free (enable_intr s1) = {}"
        "k + unat count \<le> pmm_total (enable_intr s1)"
        using law k kb(2) pmm_ok_cong(5) [OF mm_op_truncate(3)] by (auto simp: pmm_ok_def)
      from pmm_free_page_correct [OF this(1) cnt(2) this(3,2)]
      have f: "pmm_inv t" "pmm_free t = pmm_free s"
        using k(2,3) at(2) bk by (simp_all add: Un_Diff_cancel2 sup.absorb1)
      then have okt: "pmm_ok t" using inv by (simp add: mm_base_def pmm_ok_def)
      have mt: "pmm_state.more t = pmm_state.more (enable_intr s1)" using at(2) by simp
      have "mm_base t" "vmm_map t = vmm_map s"
        using mm_base_more [OF _ mt okt] i1 m1 by simp_all
      moreover have "vmm_same {} s t"
        using same1 law(2) by (intro vmm_same_trans [OF _ vmm_same_more [OF mt]]) (simp_all add: at(2))
      moreover have "intr_flag t" by (simp add: at(2))
      ultimately show ?thesis using at(1) f(2) by simp
    next
      case F: False
      then have at: "a = b" "t = enable_intr s1"
        using r up by (simp_all add: dmm_alloc_page_def Let_def)
      have "k + unat count \<le> unat (dmmap_page_count s)"
        using F q c by (simp add: not_less word_le_nat_alt)
      then show ?thesis using at i1 m1 same1 k False by auto
    qed
  qed
qed

lemma dmm_alloc_page_count [simp]:
  "vmm_free_page_count (snd (dmm_alloc_page n s)) = vmm_free_page_count s"
  "vmm_pos (snd (dmm_alloc_page n s)) = vmm_pos s"
proof -
  obtain a u where up: "pmm_up_alloc_page n (disable_intr s) = (a, u)" by (cases "pmm_up_alloc_page n (disable_intr s)")
  have "vmm_free_page_count u = vmm_free_page_count s" "vmm_pos u = vmm_pos s"
    using pmm_up_alloc_page_mm(7,8) [of n "disable_intr s"] by (simp_all add: up)
  moreover have "vmm_pos (enable_intr w) = vmm_pos w" for w :: "'a mm_state_scheme" by (simp add: enable_intr_def)
  ultimately show "vmm_free_page_count (snd (dmm_alloc_page n s)) = vmm_free_page_count s"
    "vmm_pos (snd (dmm_alloc_page n s)) = vmm_pos s"
    by (simp_all add: dmm_alloc_page_def Let_def up)
qed

lemma dmm_alloc_page_correct:
  assumes inv: "mm_inv s" and n: "0 < count" "count \<le> dmmap_page_count s"
    and r: "dmm_alloc_page count s = (a, t)"
  shows "mm_inv t \<and> vmm_map t = vmm_map s \<and> vmm_same {} s t \<and> intr_flag t = True \<and>
    (if a = NULL then pmm_free t = pmm_free s
     else \<exists>k. unat a = k * 4096 \<and> k + unat count \<le> unat (dmmap_page_count s) \<and>
            {k..<k + unat count} \<subseteq> pmm_free s \<and> pmm_free t = pmm_free s - {k..<k + unat count})"
proof -
  have b: "mm_base s" using inv by (simp add: mm_inv_base)
  note B = dmm_alloc_page_base [OF b n r]
  have "mm_inv t"
    using B dmm_alloc_page_count [of count s] r by (intro mm_inv_from_base [OF inv]) (simp_all add: vmm_same_def)
  with B show ?thesis by simp
qed

section \<open>Bringing up: what the tables hold\<close>

lemma table_upd_cong:
  "A = B \<Longrightarrow> s\<lparr>kernel_mmap_pde := A\<rparr> = s\<lparr>kernel_mmap_pde := B\<rparr>"
  "C = D \<Longrightarrow> s\<lparr>globl_mmap_pte := C\<rparr> = s\<lparr>globl_mmap_pte := D\<rparr>"
  "A = B \<Longrightarrow> C = D \<Longrightarrow>
     s\<lparr>kernel_mmap_pde := A, globl_mmap_pte := C\<rparr> = s\<lparr>kernel_mmap_pde := B, globl_mmap_pte := D\<rparr>"
  by simp_all

lemma kernel_pde_loop:
  assumes "\<And>i f s. v i (s\<lparr>kernel_mmap_pde := f\<rparr>) = v i s"
  shows "for_loop 0 n (\<lambda>i s. s\<lparr>kernel_mmap_pde := (kernel_mmap_pde s)(i := v i s)\<rparr>) s =
    s\<lparr>kernel_mmap_pde := \<lambda>i. if i < n then v i s else kernel_mmap_pde s i\<rparr>"
proof -
  let ?P = "\<lambda>j t. t = s\<lparr>kernel_mmap_pde := \<lambda>i. if unat i < j then v i s else kernel_mmap_pde s i\<rparr>"
  have "?P (unat n) (for_loop 0 n (\<lambda>i s. s\<lparr>kernel_mmap_pde := (kernel_mmap_pde s)(i := v i s)\<rparr>) s)"
    by (rule for_loop_invariant [where P = ?P])
      (auto simp: assms fun_eq_iff unat_less_Suc_word intro!: table_upd_cong)
  then show ?thesis by (simp add: word_less_nat_alt)
qed

lemma globl_table_loop:
  assumes "unat m < 192"
  shows "for_loop 0 PAGE_PTE_INDEX
      (\<lambda>n s. s\<lparr>globl_mmap_pte := (globl_mmap_pte s)(m * PAGE_PTE_INDEX + n := 0)\<rparr>) s =
    s\<lparr>globl_mmap_pte := \<lambda>g. if unat g div 1024 = unat m then 0 else globl_mmap_pte s g\<rparr>"
proof -
  define F where "F j g = (if unat m * 1024 \<le> unat g \<and> unat g < unat m * 1024 + j
    then 0 else globl_mmap_pte s g)" for j and g :: u32
  let ?P = "\<lambda>j t. t = s\<lparr>globl_mmap_pte := F j\<rparr>"
  have "?P (unat PAGE_PTE_INDEX) (for_loop 0 PAGE_PTE_INDEX
      (\<lambda>n s. s\<lparr>globl_mmap_pte := (globl_mmap_pte s)(m * PAGE_PTE_INDEX + n := 0)\<rparr>) s)"
  proof (rule for_loop_invariant [where P = ?P])
    fix i :: u32 and t :: "'a mm_state_scheme"
    assume i: "i < PAGE_PTE_INDEX" and P: "?P (unat i) t"
    have "unat (m * PAGE_PTE_INDEX) = unat m * 1024" using assms by (simp add: unat_mult32)
    then have g: "unat (m * PAGE_PTE_INDEX + i) = unat m * 1024 + unat i"
      using assms i by (simp add: unat_add32 word_less_nat_alt)
    have "x = m * PAGE_PTE_INDEX + i \<longleftrightarrow> unat x = unat m * 1024 + unat i" for x
      using g by (simp add: word_unat_eq_iff)
    then have "(F (unat i))(m * PAGE_PTE_INDEX + i := 0) = F (Suc (unat i))"
      by (auto simp: F_def fun_eq_iff)
    with P show "?P (Suc (unat i)) (t\<lparr>globl_mmap_pte := (globl_mmap_pte t)(m * PAGE_PTE_INDEX + i := 0)\<rparr>)"
      by simp
  next
    have "F 0 = globl_mmap_pte s" by (auto simp: F_def fun_eq_iff)
    then show "?P (unat (0 :: u32)) s" by simp
  qed simp
  moreover have "F 1024 = (\<lambda>g. if unat g div 1024 = unat m then 0 else globl_mmap_pte s g)"
    by (auto simp: F_def fun_eq_iff)
  ultimately show ?thesis by simp
qed

lemma globl_mmap_init_result:
  "globl_mmap_init s = s\<lparr>
     kernel_mmap_pde := \<lambda>i. if 768 \<le> unat i \<and> unat i < 960
       then set_page (globl_mmap_pte_addr s + (i - 768) * PAGE_SIZE) (PAGE_PRESENT OR PAGE_WRITE)
       else if unat i < 1024 then 0 else kernel_mmap_pde s i,
     globl_mmap_pte := \<lambda>g. if unat g < 196608 then 0 else globl_mmap_pte s g\<rparr>"
proof -
  let ?K = "\<lambda>j i. if 768 \<le> unat i \<and> unat i < 768 + j
       then set_page (globl_mmap_pte_addr s + (i - 768) * PAGE_SIZE) (PAGE_PRESENT OR PAGE_WRITE)
       else if unat i < 1024 then 0 else kernel_mmap_pde s i"
  let ?T = "\<lambda>j g. if unat g div 1024 < j then 0 else globl_mmap_pte s g"
  let ?P = "\<lambda>j t. t = s\<lparr>kernel_mmap_pde := ?K j, globl_mmap_pte := ?T j\<rparr>"
  let ?b = "\<lambda>m s. for_loop 0 PAGE_PTE_INDEX
       (\<lambda>n s. s\<lparr>globl_mmap_pte := (globl_mmap_pte s)(m * PAGE_PTE_INDEX + n := 0)\<rparr>)
       (s\<lparr>kernel_mmap_pde := (kernel_mmap_pde s)(pde_index PAGE_OFFSET + m :=
          set_page (globl_mmap_pte_addr s + m * PAGE_SIZE) (PAGE_PRESENT OR PAGE_WRITE))\<rparr>)"
  let ?s1 = "s\<lparr>kernel_mmap_pde := \<lambda>i. if i < PAGE_PDE_INDEX then 0 else kernel_mmap_pde s i\<rparr>"
  have p: "pde_index PAGE_OFFSET = 768" by code_simp
  have "?P (unat (192 :: u32)) (for_loop 0 192 ?b ?s1)"
  proof (rule for_loop_invariant [where P = ?P])
    show "?P (unat (0 :: u32)) ?s1" by (auto simp: fun_eq_iff word_less_nat_alt intro!: table_upd_cong)
  next
    fix m :: u32 and t :: "'a mm_state_scheme"
    assume m: "m < 192" and P: "?P (unat m) t"
    then have um: "unat m < 192" by (simp add: word_less_nat_alt)
    then have g: "unat (768 + m) = 768 + unat m" by (simp add: unat_add32)
    have eq: "unat x < Suc (768 + unat m) \<longleftrightarrow> unat x < 768 + unat m \<or> x = 768 + m" for x
      using unat_less_Suc_word [of x "768 + m"] unfolding g .
    show "?P (Suc (unat m)) (?b m t)"
      using P um g by (auto simp: globl_table_loop p fun_eq_iff eq [simplified] less_Suc_eq
          intro!: table_upd_cong)
  qed simp
  moreover have "unat g div 1024 < 192 \<longleftrightarrow> unat g < 196608" for g :: u32 by auto
  ultimately show ?thesis
    by (simp add: globl_mmap_init_def kernel_pde_loop [where v = "\<lambda>i s. 0"] Let_def)
qed

lemma direct_map_loop:
  assumes "unat n \<le> 196608"
  shows "for_loop 0 n (\<lambda>i s. globl_page_mmap i i s) s =
    s\<lparr>globl_mmap_pte := \<lambda>g. if g < n then set_page (push_bit 12 g) (PAGE_PRESENT OR PAGE_WRITE)
                             else globl_mmap_pte s g\<rparr>"
proof -
  let ?P = "\<lambda>j t. t = s\<lparr>globl_mmap_pte := \<lambda>g. if unat g < j
    then set_page (push_bit 12 g) (PAGE_PRESENT OR PAGE_WRITE) else globl_mmap_pte s g\<rparr>"
  have "?P (unat n) (for_loop 0 n (\<lambda>i s. globl_page_mmap i i s) s)"
    by (rule for_loop_invariant [where P = ?P])
      (use assms in \<open>auto simp: globl_page_mmap_def fun_eq_iff unat_less_Suc_word word_less_nat_alt
        intro!: table_upd_cong\<close>)
  then show ?thesis by (simp add: word_less_nat_alt)
qed

section \<open>The address the processor sees\<close>

text \<open>
  The two-level walk of the x86 paging unit: \<open>table_entry\<close> is entry \<open>i\<close> of the table at
  physical address \<open>a\<close>, read where the model keeps it.
\<close>

definition table_entry :: "'a mm_state_scheme \<Rightarrow> u32 \<Rightarrow> u32 \<Rightarrow> u32" where
  "table_entry s a i =
     (if a = kernel_mmap_pde_addr s then kernel_mmap_pde s i
      else if unat (a - globl_mmap_pte_addr s) < 192 * 4096
      then globl_mmap_pte s ((a - globl_mmap_pte_addr s) div 4 + i)
      else page_mem s (a + 4 * i))"

definition mmu_translate :: "'a mm_state_scheme \<Rightarrow> u32 \<Rightarrow> u32 option" where
  "mmu_translate s va =
     (let pde = table_entry s (get_page_attr (cr3 s)) (pde_index va) in
      if pde AND PAGE_PRESENT = 0 then None
      else (let pte = table_entry s (get_page_attr pde) (pte_index va) in
            if pte AND PAGE_PRESENT = 0 then None
            else Some (get_page_attr pte + va mod PAGE_SIZE)))"

text \<open>The link-time layout: both tables are page aligned, apart, and below 4 GB.\<close>

definition table_layout :: "'a mm_state_scheme \<Rightarrow> bool" where
  "table_layout s \<longleftrightarrow> get_page_attr (globl_mmap_pte_addr s) = globl_mmap_pte_addr s \<and>
     get_page_attr (kernel_mmap_pde_addr s) = kernel_mmap_pde_addr s \<and>
     unat (globl_mmap_pte_addr s) + 192 * 4096 \<le> 4294967296 \<and>
     \<not> unat (kernel_mmap_pde_addr s - globl_mmap_pte_addr s) < 192 * 4096"

text \<open>The kernel's half of the directory points at the global tables.\<close>

definition kernel_half :: "'a mm_state_scheme \<Rightarrow> bool" where
  "kernel_half s \<longleftrightarrow> table_layout s \<and> cr3 s = kernel_mmap_pde_addr s \<and>
     (\<forall>i. 768 \<le> unat i \<and> unat i < 960 \<longrightarrow> kernel_mmap_pde s i =
        set_page (globl_mmap_pte_addr s + (i - 768) * PAGE_SIZE) (PAGE_PRESENT OR PAGE_WRITE))"

lemma set_page_present: "set_page a (PAGE_PRESENT OR PAGE_WRITE) AND PAGE_PRESENT \<noteq> 0"
proof -
  have "bit (set_page a (PAGE_PRESENT OR PAGE_WRITE) AND PAGE_PRESENT) 0"
    by (simp add: set_page_def bit_simps)
  then show ?thesis by (metis bit_0_eq bot_apply bot_bool_def)
qed

lemma unat_pde_index: "unat (pde_index a) = unat a div 4194304"
  by (simp add: pde_index_def unat_drop_bit_eq drop_bit_eq_div)

lemma pte_index_eq: "pte_index a = drop_bit 12 a AND 0x3ff"
proof -
  have "drop_bit 12 (0x003ff000 :: u32) = 0x3ff" by code_simp
  then show ?thesis by (simp add: pte_index_def drop_bit_and)
qed

lemma unat_pte_index: "unat (pte_index a) = unat a div 4096 mod 1024"
proof -
  have "(0x3ff :: u32) = mask 10" by (simp add: mask_eq_exp_minus_1)
  then have "pte_index a = take_bit 10 (drop_bit 12 a)"
    by (simp only: pte_index_eq take_bit_eq_mask)
  then show ?thesis
    by (simp add: unsigned_take_bit_eq unat_drop_bit_eq take_bit_eq_mod drop_bit_eq_div)
qed

lemma aligned_add_page:
  assumes "get_page_attr a = a" and "unat a + unat m * 4096 < 4294967296"
  shows "get_page_attr (set_page (a + m * PAGE_SIZE) (PAGE_PRESENT OR PAGE_WRITE)) = a + m * PAGE_SIZE"
proof -
  have m: "unat (m * PAGE_SIZE) = unat m * 4096" using assms(2) by (simp add: unat_mult32)
  then have s: "unat (a + m * PAGE_SIZE) = unat a + unat m * 4096"
    using assms(2) by (simp add: unat_add32)
  have "unat a div 4096 * 4096 = unat a" using assms(1) by (metis unat_get_page_attr)
  then have "4096 dvd unat a" by (metis dvd_triv_right)
  then have "4096 dvd unat (a + m * PAGE_SIZE)" by (simp add: s)
  then have "(a + m * PAGE_SIZE) AND PAGE_MASK = a + m * PAGE_SIZE"
    by (simp add: word_unat_eq_iff unat_page_mask)
  then show ?thesis by (simp add: get_page_attr_set_page)
qed

text \<open>A linear address in the kernel's window goes through one entry of the global table.\<close>

lemma mmu_kernel_window:
  assumes "kernel_half s" and "unat a < 192 * 4194304"
  shows "mmu_translate s (PAGE_OFFSET + a) =
    (let e = globl_mmap_pte s (a div PAGE_SIZE) in
     if e AND PAGE_PRESENT = 0 then None else Some (get_page_attr e + a mod PAGE_SIZE))"
proof -
  let ?va = "PAGE_OFFSET + a" and ?g = "globl_mmap_pte_addr s"
  have va: "unat ?va = 3221225472 + unat a" using assms(2) by (simp add: unat_add32)
  define i where "i = pde_index ?va"
  have i: "unat i = 768 + unat a div 4194304" by (simp add: i_def unat_pde_index va)
  have i_range: "768 \<le> unat i" "unat i < 960" using i assms(2) by auto
  have m: "unat (i - 768) = unat a div 4194304" using i by (simp add: unat_sub32 word_le_nat_alt)
  have lay: "get_page_attr ?g = ?g" "unat ?g + 192 * 4096 \<le> 4294967296"
    "get_page_attr (kernel_mmap_pde_addr s) = kernel_mmap_pde_addr s"
    "\<not> unat (kernel_mmap_pde_addr s - ?g) < 192 * 4096" "cr3 s = kernel_mmap_pde_addr s"
    using assms(1) by (simp_all add: kernel_half_def table_layout_def)
  define pde where "pde = set_page (?g + (i - 768) * PAGE_SIZE) (PAGE_PRESENT OR PAGE_WRITE)"
  have pde: "table_entry s (get_page_attr (cr3 s)) i = pde"
    using assms(1) i_range by (simp add: table_entry_def lay kernel_half_def pde_def)
  have mb: "unat (i - 768) < 192" using i_range m i by simp
  have "unat ?g + unat (i - 768) * 4096 < 4294967296" using mb lay(2) by linarith
  then have tab: "get_page_attr pde = ?g + (i - 768) * PAGE_SIZE"
    unfolding pde_def by (rule aligned_add_page [OF lay(1)])
  have off: "unat ((i - 768) * PAGE_SIZE) = unat a div 4194304 * 4096"
    using unat_page_address [of "i - 768"] mb unfolding m [symmetric] by linarith
  have g: "(i - 768) * PAGE_SIZE div 4 + pte_index ?va = a div PAGE_SIZE"
  proof -
    have "unat ((i - 768) * PAGE_SIZE div 4) = unat a div 4194304 * 1024"
      unfolding unat_div_u32 off by simp
    moreover have "unat (pte_index ?va) = unat a div 4096 mod 1024"
    proof -
      have "3221225472 + unat a = unat a + 786432 * 4096" by simp
      then have "(3221225472 + unat a) div 4096 = unat a div 4096 + 786432"
        by (simp only: div_mult_self1)
      then have "(3221225472 + unat a) div 4096 mod 1024 = (unat a div 4096 + 786432) mod 1024" by simp
      also have "\<dots> = (unat a div 4096 + 768 * 1024) mod 1024" by simp
      also have "\<dots> = unat a div 4096 mod 1024" by (rule mod_mult_self1)
      finally show ?thesis by (simp add: unat_pte_index va)
    qed
    moreover have "unat a div 4194304 * 1024 + unat a div 4096 mod 1024 = unat a div 4096"
    proof -
      have "unat a div 4194304 = unat a div 4096 div 1024" by (simp add: div_mult2_eq [symmetric])
      then show ?thesis by (simp only: div_mult_mod_eq)
    qed
    moreover have "unat a div 4096 < 4294967296" using unat_u32_less [of a] by linarith
    ultimately show ?thesis by (simp add: word_unat_eq_iff unat_add32 del: unat_u32_less)
  qed
  have "table_entry s (get_page_attr pde) (pte_index ?va) = globl_mmap_pte s (a div PAGE_SIZE)"
  proof -
    have "?g + (i - 768) * PAGE_SIZE \<noteq> kernel_mmap_pde_addr s"
    proof
      assume "?g + (i - 768) * PAGE_SIZE = kernel_mmap_pde_addr s"
      then have "kernel_mmap_pde_addr s - ?g = (i - 768) * PAGE_SIZE" by (metis add_diff_cancel_left')
      with lay(4) off mb m show False by simp
    qed
    moreover have "unat (?g + (i - 768) * PAGE_SIZE - ?g) < 192 * 4096"
      using off mb m by simp
    ultimately show ?thesis unfolding table_entry_def tab by (simp add: g del: left_diff_distrib_numeral)
  qed
  moreover have "?va mod PAGE_SIZE = a mod PAGE_SIZE"
  proof -
    have "(3221225472 + unat a) mod 4096 = (unat a + 786432 * 4096) mod 4096" by (simp add: add.commute)
    then have "(3221225472 + unat a) mod 4096 = unat a mod 4096" by (simp only: mod_mult_self1)
    then show ?thesis by (simp add: word_unat_eq_iff va)
  qed
  ultimately show ?thesis
    using set_page_present [of "?g + (i - 768) * PAGE_SIZE"] pde
    by (simp add: mmu_translate_def Let_def i_def [symmetric] pde_def)
qed

section \<open>Bringing up: the result\<close>

lemma pmm_init_mem_page_count [simp]: "mem_page_count (pmm_init raw s) = mem_page_count s"
proof -
  have "mem_page_count (pmm_init_step b i s) = mem_page_count s" for b i and s :: "'a pmm_state_scheme"
    by (simp add: pmm_init_step_def Let_def)
  then have "mem_page_count (for_loop lo hi (pmm_init_step b) s) = mem_page_count s"
    for lo hi b and s :: "'a pmm_state_scheme"
    by (rule for_loop_preserves)
  then show ?thesis by (simp add: pmm_init_def Let_def)
qed

lemma vmm_init_result:
  fixes s :: "'a mm_state_scheme"
  assumes "dmmap_page_count s = DMMAP_PAGE_MAX"
  defines "d \<equiv> if mem_page_count s < DMMAP_PAGE_MAX then mem_page_count s else DMMAP_PAGE_MAX"
  shows "vmm_init s = s\<lparr>dmmap_page_count := d, vmmap_page_count := GLOBL_PAGE_NUM - d,
      globl_mmap_pte := \<lambda>g. if g < d then set_page (push_bit 12 g) (PAGE_PRESENT OR PAGE_WRITE)
                             else globl_mmap_pte s g,
      vmm_pos := GLOBL_PAGE_NUM - d - 1, vmm_free_page_count := GLOBL_PAGE_NUM - d\<rparr>"
proof -
  have "unat d \<le> 196608" by (auto simp: d_def word_less_nat_alt)
  note loop = direct_map_loop [OF this]
  have "s\<lparr>dmmap_page_count := dmmap_page_count s\<rparr> = s" by simp
  with assms(1) have "(if mem_page_count s < DMMAP_PAGE_MAX
      then s\<lparr>dmmap_page_count := mem_page_count s\<rparr> else s) = s\<lparr>dmmap_page_count := d\<rparr>"
    by (simp add: d_def)
  then show ?thesis by (simp add: vmm_init_def Let_def loop cong: if_cong)
qed

text \<open>The state when paging is switched on, field by field.\<close>

lemma mmap_init_map_result:
  fixes s :: "'a mm_state_scheme" and raw :: "nat \<Rightarrow> u8" and kn :: u32
  assumes "dmmap_page_count s = DMMAP_PAGE_MAX"
  defines "n \<equiv> mem_length s div PAGE_SIZE"
  defines "d \<equiv> if n < DMMAP_PAGE_MAX then n else DMMAP_PAGE_MAX"
  defines "t \<equiv> mmap_init_map raw kn s"
  shows "dmmap_page_count t = d" "vmmap_page_count t = GLOBL_PAGE_NUM - d"
    "vmm_pos t = GLOBL_PAGE_NUM - d - 1" "vmm_free_page_count t = GLOBL_PAGE_NUM - d"
    "globl_mmap_pte_addr t = globl_mmap_pte_addr s" "kernel_mmap_pde_addr t = kernel_mmap_pde_addr s"
    "page_mem t = page_mem s" "cr3 t = kernel_mmap_pde_addr s"
    "globl_mmap_pte t g = (if g < d then set_page (push_bit 12 g) (PAGE_PRESENT OR PAGE_WRITE)
       else if unat g < 196608 then 0 else globl_mmap_pte s g)"
    "kernel_mmap_pde t i = (if i < kn div PAGE_PTE_INDEX + 1
       then set_page (globl_mmap_pte_addr s + i * PAGE_SIZE) (PAGE_PRESENT OR PAGE_WRITE)
       else if 768 \<le> unat i \<and> unat i < 960
       then set_page (globl_mmap_pte_addr s + (i - 768) * PAGE_SIZE) (PAGE_PRESENT OR PAGE_WRITE)
       else if unat i < 1024 then 0 else kernel_mmap_pde s i)"
    "pmm_state.truncate t = pmm_state.truncate (pmm_init raw (s\<lparr>mem_page_count := n\<rparr>))"
proof -
  note kloop = kernel_pde_loop [where v = "\<lambda>i s. set_page (get_globl_pte i s) (PAGE_PRESENT OR PAGE_WRITE)"]
  have v: "get_globl_pte i (u\<lparr>kernel_mmap_pde := f\<rparr>) = get_globl_pte i u"
    for i f and u :: "'a mm_state_scheme" by (simp add: get_globl_pte_def)
  have d: "d = (if mem_page_count (globl_mmap_init (pmm_init raw (s\<lparr>mem_page_count := n\<rparr>))) < DMMAP_PAGE_MAX
      then mem_page_count (globl_mmap_init (pmm_init raw (s\<lparr>mem_page_count := n\<rparr>))) else DMMAP_PAGE_MAX)"
    by (simp add: d_def globl_mmap_init_result)
  have dm: "dmmap_page_count (globl_mmap_init (pmm_init raw (s\<lparr>mem_page_count := n\<rparr>))) = DMMAP_PAGE_MAX"
    using assms(1) by (simp add: globl_mmap_init_result)
  let ?u = "load_pde (kernel_mmap_pde_addr (vmm_init (globl_mmap_init (pmm_init raw (s\<lparr>mem_page_count := n\<rparr>)))))
    (vmm_init (globl_mmap_init (pmm_init raw (s\<lparr>mem_page_count := n\<rparr>))))"
  have t: "t = ?u\<lparr>kernel_mmap_pde := \<lambda>i. if i < kn div PAGE_PTE_INDEX + 1
      then set_page (get_globl_pte i ?u) (PAGE_PRESENT OR PAGE_WRITE) else kernel_mmap_pde ?u i\<rparr>"
    unfolding t_def mmap_init_map_def Let_def n_def by (rule kloop) (simp only: v)
  note res = t [unfolded vmm_init_result [OF dm, folded d]] load_pde_def get_globl_pte_def
    globl_mmap_init_result
  show "dmmap_page_count t = d" "vmmap_page_count t = GLOBL_PAGE_NUM - d"
    "vmm_pos t = GLOBL_PAGE_NUM - d - 1" "vmm_free_page_count t = GLOBL_PAGE_NUM - d"
    "globl_mmap_pte_addr t = globl_mmap_pte_addr s" "kernel_mmap_pde_addr t = kernel_mmap_pde_addr s"
    "page_mem t = page_mem s" "cr3 t = kernel_mmap_pde_addr s"
    "globl_mmap_pte t g = (if g < d then set_page (push_bit 12 g) (PAGE_PRESENT OR PAGE_WRITE)
       else if unat g < 196608 then 0 else globl_mmap_pte s g)"
    by (simp_all add: res)
  show "kernel_mmap_pde t i = (if i < kn div PAGE_PTE_INDEX + 1
       then set_page (globl_mmap_pte_addr s + i * PAGE_SIZE) (PAGE_PRESENT OR PAGE_WRITE)
       else if 768 \<le> unat i \<and> unat i < 960
       then set_page (globl_mmap_pte_addr s + (i - 768) * PAGE_SIZE) (PAGE_PRESENT OR PAGE_WRITE)
       else if unat i < 1024 then 0 else kernel_mmap_pde s i)"
    by (simp add: res)
  show "pmm_state.truncate t = pmm_state.truncate (pmm_init raw (s\<lparr>mem_page_count := n\<rparr>))"
    by (simp add: res)
qed

section \<open>Mapping a given frame\<close>

lemma vmm_find_page_spec:
  "(if \<exists>i. 1 \<le> i \<and> i \<le> unat p \<and> vmm_map s i = None
    then 0 < vmm_find_page p s \<and> unat (vmm_find_page p s) \<le> unat p \<and>
      vmm_map s (unat (vmm_find_page p s)) = None \<and>
      (\<forall>i. unat (vmm_find_page p s) < i \<and> i \<le> unat p \<longrightarrow> vmm_map s i \<noteq> None)
    else vmm_find_page p s = 0)"
proof (induction p s rule: vmm_find_page.induct)
  case (1 p s)
  note unf = vmm_find_page.simps [of p s]
  show ?case
  proof (cases "0 < p \<and> get_vmm_page p s \<noteq> 0")
    case True
    then have IH: "if \<exists>i. 1 \<le> i \<and> i \<le> unat (p - 1) \<and> vmm_map s i = None
      then 0 < vmm_find_page (p - 1) s \<and> unat (vmm_find_page (p - 1) s) \<le> unat (p - 1) \<and>
        vmm_map s (unat (vmm_find_page (p - 1) s)) = None \<and>
        (\<forall>i. unat (vmm_find_page (p - 1) s) < i \<and> i \<le> unat (p - 1) \<longrightarrow> vmm_map s i \<noteq> None)
      else vmm_find_page (p - 1) s = 0" using 1 by simp
    have u: "unat (p - 1) = unat p - 1" "0 < unat p" using True by (simp_all add: unat_pred word_less_nat_alt)
    have m: "vmm_map s (unat p) \<noteq> None" using True by (simp add: get_vmm_page_zero)
    have r: "vmm_find_page p s = vmm_find_page (p - 1) s" using True by (simp add: unf)
    have split: "i \<le> unat p \<longleftrightarrow> i \<le> unat (p - 1) \<or> i = unat p" for i using u by auto
    from IH m show ?thesis unfolding r split by (auto split: if_splits)
  next
    case False
    then show ?thesis
      by (auto simp: unf get_vmm_page_zero word_less_nat_alt unat_gt_0 Suc_le_eq)
  qed
qed

lemma vmm_mmap_page_correct:
  assumes inv: "mm_inv s" and f: "unat (dmmap_page_count s) \<le> unat phy div 4096"
    "0 < unat phy div 4096" and r: "vmm_mmap_page phy s = (a, t)"
  shows "mm_inv t \<and> pmm_free t = pmm_free s \<and>
    (if \<exists>i. 1 \<le> i \<and> i \<le> unat (vmm_pos s) \<and> vmm_map s i = None
     then \<exists>i. 1 \<le> i \<and> i \<le> unat (vmm_pos s) \<and> vmm_map s i = None \<and>
       unat a = (unat (dmmap_page_count s) + i) * 4096 \<and>
       vmm_map t = (vmm_map s)(i \<mapsto> unat phy div 4096) \<and>
       vmm_same {unat (dmmap_page_count s) + i} s t
     else a = NULL \<and> vmm_map t = vmm_map s \<and> vmm_same {} s t)"
proof -
  let ?s0 = "disable_intr s"
  define p where "p = vmm_find_page (vmm_pos s) ?s0"
  have wf: "vmm_wf s" "pmm_ok s" using inv by (simp_all add: mm_inv_def)
  have nlt: "\<not> phy div PAGE_SIZE < dmmap_page_count s"
    using f(1) by (simp add: word_less_nat_alt)
  note find = vmm_find_page_spec [of "vmm_pos s" ?s0, folded p_def, simplified vmm_map_frame]
  show ?thesis
  proof (cases "\<exists>i. 1 \<le> i \<and> i \<le> unat (vmm_pos s) \<and> vmm_map s i = None")
    case False
    with find have "p = 0" by simp
    then have "a = NULL" "t = enable_intr ?s0"
      using r nlt by (simp_all add: vmm_mmap_page_def Let_def p_def)
    then show ?thesis using False inv by simp
  next
    case True
    with find have p: "0 < p" "unat p \<le> unat (vmm_pos s)" "vmm_map s (unat p) = None" by auto
    have pv: "unat p < unat (vmmap_page_count s)" using p(2) wf(1) by (simp add: vmm_wf_def)
    let ?s1 = "globl_page_mmap (phy div PAGE_SIZE) (get_globl_page_index p ?s0) ?s0"
    have t: "t = enable_intr (?s1\<lparr>vmm_free_page_count := vmm_free_page_count ?s1 - 1, vmm_pos := p\<rparr>)"
      and a: "a = get_globl_page_index p t * PAGE_SIZE"
      using r nlt p(1) by (auto simp: vmm_mmap_page_def Let_def p_def get_globl_page_index_def)
    have fb: "unat (phy div PAGE_SIZE) = unat phy div 4096" "unat phy div 4096 < 1048576"
      using unat_u32_less [of phy] by (simp, linarith)
    have map1: "vmm_map ?s1 = (vmm_map s)(unat p \<mapsto> unat phy div 4096)"
      using vmm_map_mmap [of ?s0 p "phy div PAGE_SIZE"] wf(1) pv f(2) fb by simp
    have same1: "vmm_same {unat (dmmap_page_count s) + unat p} ?s0 ?s1"
      using wf(1) pv by (intro globl_page_mmap_same(1)) simp_all
    have F: "pmm_ok t" "pmm_free t = pmm_free s" "vmm_map t = (vmm_map s)(unat p \<mapsto> unat phy div 4096)"
      "dmmap_page_count t = dmmap_page_count s" "vmmap_page_count t = vmmap_page_count s"
      "vmm_free_page_count t = vmm_free_page_count s - 1" "vmm_pos t = p"
      using map1 wf by (simp_all add: t)
    have wf': "vmm_wf t" using wf(1) pv by (simp add: vmm_wf_def F)
    have same: "vmm_same {unat (dmmap_page_count s) + unat p} s t"
      using same1 by (simp add: vmm_same_def t)
    have um: "vmm_unmapped t = vmm_unmapped s - {unat p}" "unat p \<in> vmm_unmapped s"
      using p pv by (auto simp: vmm_unmapped_def F)
    have c0: "0 < card (vmm_unmapped s)" using um(2) by (auto simp: card_gt_0_iff)
    then have "unat (vmm_free_page_count s - 1) = unat (vmm_free_page_count s) - 1"
      using inv by (intro unat_pred) (simp add: mm_inv_def word_less_nat_alt)
    then have "mm_inv t" using inv F wf' um by (simp add: mm_inv_def)
    moreover have "unat a = (unat (dmmap_page_count s) + unat p) * 4096"
    proof -
      note idx = vmm_index [OF wf(1) pv]
      from idx(2) have "unat (dmmap_page_count s + p) < 1048576" by linarith
      from unat_page_address [OF this] show ?thesis
        by (simp only: a get_globl_page_index_def F idx(1))
    qed
    moreover have "1 \<le> unat p" using p(1) by (simp add: word_less_nat_alt)
    ultimately show ?thesis using True p F same by auto
  qed
qed

section \<open>Taking mappings away\<close>

lemma vmm_ummap_loop:
  assumes "vmm_wf s" and "unat k + unat n \<le> unat (vmmap_page_count s)"
  defines "R \<equiv> {unat k..<unat k + unat n}"
  defines "t \<equiv> for_loop 0 n (\<lambda>i s. globl_page_remove (get_globl_page_index (k + i) s) s) s"
  shows "pmm_state.truncate t = pmm_state.truncate s \<and> vmm_wf t \<and> vmm_map t = vmm_map s |` (- R) \<and>
    vmm_same ((+) (unat (dmmap_page_count s)) ` R) s t \<and> vmm_pos t = vmm_pos s \<and>
    vmm_free_page_count t = vmm_free_page_count s"
proof -
  let ?I = "\<lambda>j. {unat k..<unat k + j}" and ?G = "(+) (unat (dmmap_page_count s)) ` R"
  let ?P = "\<lambda>j t. pmm_state.truncate t = pmm_state.truncate s \<and> vmm_wf t \<and>
    vmm_map t = vmm_map s |` (- ?I j) \<and>
    vmm_same ?G s t \<and> vmm_pos t = vmm_pos s \<and> vmm_free_page_count t = vmm_free_page_count s"
  have "?P (unat n) t"
    unfolding t_def
  proof (rule for_loop_invariant [where P = ?P])
    show "?P (unat (0 :: u32)) s" using assms(1) by (simp add: restrict_map_def fun_eq_iff)
  next
    fix i :: u32 and u :: "'a mm_state_scheme"
    assume i: "i < n" and P: "?P (unat i) u"
    let ?t = "globl_page_remove (get_globl_page_index (k + i) u) u"
    have ki: "unat (k + i) = unat k + unat i" "unat (k + i) < unat (vmmap_page_count s)"
      using word_add_index [OF assms(2) i unat_u32_less] .
    have c: "vmm_wf u" "dmmap_page_count u = dmmap_page_count s" "vmmap_page_count u = vmmap_page_count s"
      using P by (simp_all add: vmm_same_def)
    have "unat k + unat i \<in> R" using i by (simp add: R_def word_less_nat_alt)
    then have "unat (dmmap_page_count u) + unat (k + i) \<in> ?G" using ki c by simp
    then have "vmm_same ?G u ?t" using ki c by (intro globl_page_mmap_same(2)) simp_all
    moreover have "vmm_map ?t = (vmm_map u)(unat k + unat i := None)"
      using vmm_map_remove [OF c(1), of "k + i"] ki c by simp
    moreover have "(vmm_map s |` (- ?I (unat i)))(unat k + unat i := None) = vmm_map s |` (- ?I (Suc (unat i)))"
      by (auto simp: fun_eq_iff restrict_map_def)
    ultimately show "?P (Suc (unat i)) ?t"
      using P vmm_same_trans [of ?G s u] by simp
  qed simp
  then show ?thesis by (simp add: R_def)
qed

lemma vmm_ummap_page_correct:
  assumes inv: "mm_inv s" and n: "0 < count" and own: "{k..<k + unat count} \<subseteq> dom (vmm_map s)"
  defines "t \<equiv> vmm_ummap_page ((dmmap_page_count s + of_nat k) * PAGE_SIZE) count s"
  shows "mm_inv t \<and> vmm_map t = vmm_map s |` (- {k..<k + unat count}) \<and>
    pmm_free t = pmm_free s \<and>
    vmm_same ((+) (unat (dmmap_page_count s)) ` {k..<k + unat count}) s t"
proof -
  let ?R = "{k..<k + unat count}" and ?d = "dmmap_page_count s" and ?k = "of_nat k :: u32"
  have wf: "vmm_wf s" "pmm_ok s" using inv by (simp_all add: mm_inv_def)
  have n0: "0 < unat count" using n by (simp add: word_less_nat_alt)
  then have "k + unat count - 1 \<in> ?R" by simp
  with own have "k + unat count - 1 \<in> dom (vmm_map s)" by blast
  then have "k + unat count - 1 < unat (vmmap_page_count s)" using vmm_map_some(2) by blast
  then have fit: "k + unat count \<le> unat (vmmap_page_count s)" using n0 by simp
  have V: "unat ?d + unat (vmmap_page_count s) \<le> 196608" using wf(1) by (simp add: vmm_wf_def)
  have uk: "unat ?k = k" using fit V by (simp add: unat_of_nat_u32)
  have d: "unat (?d + ?k) = unat ?d + k" using fit V by (simp add: unat_add32 uk)
  have idx: "(?d + ?k) * PAGE_SIZE div PAGE_SIZE = ?d + ?k"
  proof -
    have "unat ((?d + ?k) * PAGE_SIZE) = unat (?d + ?k) * 4096"
      using fit V by (intro unat_page_address) (simp add: d)
    then show ?thesis unfolding word_unat_eq_iff by (simp only: unat_div_u32) simp
  qed
  have nlt: "?d \<le> ?d + ?k" by (simp add: word_le_nat_alt d)
  have sum: "unat (?k + count) = k + unat count" using fit V by (simp add: unat_add32 uk)
  have le: "?k + count \<le> vmmap_page_count s" using fit sum by (simp add: word_le_nat_alt)
  have last: "unat (?k + count - 1) = k + unat count - 1"
    using sum n0 by (subst unat_pred) (simp_all add: word_less_nat_alt)
  define u where "u = for_loop 0 count
      (\<lambda>i s. globl_page_remove (get_globl_page_index (?k + i) s) s) s"
  have u: "pmm_state.truncate u = pmm_state.truncate s \<and> vmm_wf u \<and> vmm_map u = vmm_map s |` (- ?R) \<and>
    vmm_same ((+) (unat ?d) ` ?R) s u \<and> vmm_pos u = vmm_pos s \<and>
    vmm_free_page_count u = vmm_free_page_count s"
    unfolding u_def using vmm_ummap_loop [OF wf(1), of ?k count] fit by (simp add: uk)
  then have u_vm: "vmmap_page_count u = vmmap_page_count s" by (simp add: vmm_same_def)
  define l where "l = ?k + count - 1"
  let ?w = "if l > vmm_pos u then u\<lparr>vmm_pos := l\<rparr> else u"
  have t: "t = ?w\<lparr>vmm_free_page_count := vmm_free_page_count ?w + count\<rparr>"
    unfolding t_def vmm_ummap_page_def Let_def idx using nlt le by (simp add: u_def l_def)
  have pm: "pmm_state.truncate u = pmm_state.truncate s" using u by blast
  have F: "pmm_ok t" "vmm_map t = vmm_map s |` (- ?R)" "pmm_free t = pmm_free s"
    "vmm_same ((+) (unat ?d) ` ?R) s t" "vmmap_page_count t = vmmap_page_count s"
    "vmm_free_page_count t = vmm_free_page_count s + count"
    using u pmm_ok_cong [OF pm] wf unfolding t by (simp_all add: vmm_same_def)
  have wf': "vmm_wf t"
  proof -
    have "k + unat count - 1 < unat (vmmap_page_count s)" using fit n0 by simp
    then have "unat l < unat (vmmap_page_count s)" by (simp only: last l_def)
    with u show ?thesis unfolding t by (auto simp: vmm_wf_def u_vm)
  qed
  have dis: "vmm_unmapped s \<inter> ?R = {}" using own by (auto simp: vmm_unmapped_def)
  have um: "vmm_unmapped t = vmm_unmapped s \<union> ?R"
    using F(2,5) fit by (auto simp: vmm_unmapped_def restrict_map_def)
  have "card (vmm_unmapped s \<union> ?R) = card (vmm_unmapped s) + unat count"
    using dis by (subst card_Un_disjoint) auto
  moreover have "card (vmm_unmapped s \<union> ?R) \<le> 196608"
  proof -
    have "vmm_unmapped s \<union> ?R \<subseteq> {..<196608}" using V fit by (auto simp: vmm_unmapped_def)
    then show ?thesis using card_mono [of "{..<196608::nat}"] by fastforce
  qed
  ultimately have "unat (vmm_free_page_count t) = card (vmm_unmapped t)"
    using inv F(6) um by (simp add: mm_inv_def unat_add32)
  with F wf' show ?thesis by (simp add: mm_inv_def)
qed

text \<open>What an allocation mapped, a free of the same pages undoes.\<close>

lemma vmm_alloc_free_correct:
  assumes inv: "mm_inv s" and n: "0 < count"
    and run: "vmm_run s (unat count) e0" "e0 \<le> unat (vmm_pos s)"
    and frames: "unat count \<le> card (pmm_avail s)"
  shows "\<exists>a t. vmm_alloc_page count s = Some (a, t) \<and> a \<noteq> NULL \<and>
    mm_inv (vmm_free_page a count t) \<and>
    vmm_map (vmm_free_page a count t) = vmm_map s \<and> pmm_free (vmm_free_page a count t) = pmm_free s"
proof -
  from vmm_alloc_page_correct [OF assms] obtain q m a t where
    al: "vmm_alloc_page count s = Some (a, t)" and q: "unat count \<le> q" "q \<le> unat (vmm_pos s)"
      "vmm_run s (unat count) q" and a: "unat a = (unat (dmmap_page_count s) + q + 1 - unat count) * 4096"
    and m: "dom m = {q + 1 - unat count..q}" "inj_on m (dom m)" "ran m \<subseteq> pmm_free s"
      "vmm_map t = vmm_map s ++ m" and t: "pmm_free t = pmm_free s - ran m" "mm_inv t"
    and same: "vmm_same {unat (dmmap_page_count s) + (q + 1 - unat count)..unat (dmmap_page_count s) + q} s t"
    by metis
  have n0: "0 < unat count" using n by (simp add: word_less_nat_alt)
  let ?k = "q + 1 - unat count"
  have R: "{?k..<?k + unat count} = dom m" using m(1) q(1) by auto
  have d: "dmmap_page_count t = dmmap_page_count s" "pmm_total t = pmm_total s"
    using same by (simp_all add: vmm_same_def)
  have wf: "vmm_wf s" "pmm_ok s" using inv by (simp_all add: mm_inv_def)
  have qv: "q < unat (vmmap_page_count s)" using q(2) wf(1) by (simp add: vmm_wf_def)
  have kv: "?k < unat (vmmap_page_count s)" using qv n0 q(1) by linarith
  have "?k < 4294967296" using kv unat_u32_less [of "vmmap_page_count s"] by linarith
  then have uk: "unat (of_nat ?k :: u32) = ?k" by (rule unat_of_nat_u32)
  have kv': "unat (of_nat ?k :: u32) < unat (vmmap_page_count s)" using kv unfolding uk .
  define w where "w = dmmap_page_count s + of_nat ?k"
  have w: "unat w = unat (dmmap_page_count s) + ?k" "unat w < 196608"
    using vmm_index [OF wf(1) kv'] unfolding uk w_def by blast+
  have "unat (w * PAGE_SIZE) = unat w * 4096" using w(2) by (intro unat_page_address) linarith
  moreover have "unat (dmmap_page_count s) + ?k = unat (dmmap_page_count s) + q + 1 - unat count"
    using q(1) by linarith
  ultimately have "unat (w * PAGE_SIZE) = unat a" using a w(1) by (simp only:)
  then have aw: "a = (dmmap_page_count t + of_nat ?k) * PAGE_SIZE"
    unfolding w_def d(1) word_unat_eq_iff by (rule sym)
  have own: "vmm_owned t {?k..<?k + unat count}"
  proof -
    have "vmm_map t i = m i" if "i \<in> dom m" for i using that by (auto simp: m(4) map_add_def)
    then have "inj_on (vmm_map t) (dom m)" using m(2) by (auto simp: inj_on_def)
    moreover have "f \<notin> pmm_free t \<and> f < pmm_total t" if "i \<in> dom m" "vmm_map t i = Some f" for i f
    proof -
      have "f \<in> ran m" using that by (auto simp: m(4) map_add_def ran_def)
      then show ?thesis using m(3) t(1) d(2) pmm_free_less_total by fastforce
    qed
    ultimately show ?thesis unfolding vmm_owned_def R using m(4) by (auto simp: map_add_def)
  qed
  from vmm_free_page_correct [OF t(2) n own, folded aw]
  have fr: "mm_inv (vmm_free_page a count t)"
    "vmm_map (vmm_free_page a count t) = vmm_map t |` (- dom m)"
    "pmm_free (vmm_free_page a count t) = pmm_free t \<union> {f. Some f \<in> vmm_map t ` dom m}"
    unfolding R by blast+
  have none: "vmm_map s i = None" if "i \<in> dom m" for i
  proof -
    have "q - i < unat count" "q - (q - i) = i" using that q(1) by (auto simp: m(1))
    with q(3) show ?thesis unfolding vmm_run_def by metis
  qed
  have "vmm_map t |` (- dom m) = vmm_map s"
    using none by (auto simp: fun_eq_iff m(4) restrict_map_def map_add_def domIff split: option.splits)
  moreover have "{f. Some f \<in> vmm_map t ` dom m} = ran m"
    by (force simp: m(4) map_add_def ran_def image_iff dom_def split: option.splits)
  moreover have "a \<noteq> NULL"
    using a q(1) n0 by (auto simp: unat_eq_zero [symmetric])
  ultimately show ?thesis using al fr m(3) t(1) by auto
qed

section \<open>Where the code goes wrong\<close>





text \<open>
  The test \<open>p - i < 0\<close> is on unsigned values and never true: when every page up to
  \<open>vmm_pos\<close> is unmapped, a request for more pages than that runs on below page 0, where
  the index wraps out of range and counts as unmapped.  The address it returns lies in the
  direct map.
\<close>

lemma vmm_scan_wraps:
  assumes "vmm_wf s" and "\<And>i. i \<le> unat p \<Longrightarrow> vmm_map s i = None"
    and "unat p < unat (vmmap_page_count s)" and "unat count \<le> unat p + 196608"
  shows "vmm_scan count p 0 s = count"
proof (rule ccontr)
  let ?r = "vmm_scan count p 0 s"
  assume ne: "?r \<noteq> count"
  have S: "?r \<le> count" "get_vmm_page (p - ?r) s \<noteq> 0"
    using vmm_scan_spec [of 0 count p s] ne by auto
  then have "vmm_map s (unat (p - ?r)) \<noteq> None" by (simp add: get_vmm_page_zero)
  then have m: "unat (p - ?r) < unat (vmmap_page_count s)" "\<not> unat (p - ?r) \<le> unat p"
    using vmm_map_some(2) assms(2) by (blast, metis)
  have "\<not> ?r \<le> p"
  proof
    assume "?r \<le> p"
    then have "unat (p - ?r) \<le> unat p" by (simp add: unat_sub32 word_le_nat_alt)
    with m show False by simp
  qed
  then have lt: "unat p < unat ?r" by (simp add: word_le_nat_alt)
  have v: "unat (vmmap_page_count s) \<le> 196608" using assms(1) by (simp add: vmm_wf_def)
  have "unat (p - ?r) = unat p + 4294967296 - unat ?r"
    using lt by (simp add: unat_sub_if_size word_size)
  moreover have "unat ?r \<le> unat p + 196608" using S(1) assms(4) by (simp add: word_le_nat_alt)
  ultimately show False using m(1) v by linarith
qed

lemma vmm_alloc_page_wraps_correct:
  assumes "mm_inv s" and "\<And>i. i \<le> unat (vmm_pos s) \<Longrightarrow> vmm_map s i = None" and "0 < vmm_pos s"
    and "unat (vmm_pos s) + 1 < unat count"
    and "unat count \<le> unat (vmm_pos s) + 1 + unat (dmmap_page_count s)"
  shows "\<exists>a t. vmm_alloc_page count s = Some (a, t) \<and>
    (a \<noteq> NULL \<longrightarrow> unat a = (unat (dmmap_page_count s) + unat (vmm_pos s) + 1 - unat count) * 4096 \<and>
       unat a < unat (dmmap_page_count s) * 4096)"
proof -
  let ?s0 = "disable_intr s" and ?p = "vmm_pos s"
  let ?h = "?p - count + 1"
  have wf: "vmm_wf s" using assms(1) by (simp add: mm_inv_def)
  have V: "unat (dmmap_page_count s) + unat (vmmap_page_count s) \<le> 196608"
    "unat ?p < unat (vmmap_page_count s)" using wf by (simp_all add: vmm_wf_def)
  have "vmm_scan count ?p 0 ?s0 = count"
    using wf V assms(2,5) by (intro vmm_scan_wraps) simp_all
  then have s: "vmm_search count ?p ?s0 = Some (Some ?p)"
    using assms(3) by (subst vmm_search.simps) (simp add: Let_def)
  obtain b s1 where l: "vmm_map_loop ?h count 0 ?s0 = (b, s1)" by (cases "vmm_map_loop ?h count 0 ?s0")
  have loop_frame: "dmmap_page_count (snd (vmm_map_loop h n i u)) = dmmap_page_count u"
    for h n i and u :: "'a mm_state_scheme"
  proof (induction h n i u rule: vmm_map_loop.induct)
    case (1 h n i u)
    have unmap: "dmmap_page_count (vmm_unmap_loop h j v) = dmmap_page_count v"
      for j and v :: "'a mm_state_scheme"
    proof (induction h j v rule: vmm_unmap_loop.induct)
      case (1 h j v)
      then show ?case by (subst vmm_unmap_loop.simps) (simp add: Let_def)
    qed
    obtain a u1 where al: "pmm_alloc_page u = (a, u1)" by (cases "pmm_alloc_page u")
    have "dmmap_page_count u1 = dmmap_page_count u" using al pmm_alloc_page_mm(5) [of u] by simp
    with 1 al show ?case by (subst vmm_map_loop.simps) (auto simp: unmap)
  qed
  then have d: "dmmap_page_count s1 = dmmap_page_count s" using l loop_frame [of ?h count 0 ?s0] by simp
  define w where "w = dmmap_page_count s + ?h"
  have "unat (dmmap_page_count s + ?p + 1) = unat (dmmap_page_count s) + unat ?p + 1"
    using V by (simp add: unat_add32)
  moreover have "w = dmmap_page_count s + ?p + 1 - count" by (simp add: w_def algebra_simps)
  ultimately have uw: "unat w = unat (dmmap_page_count s) + unat ?p + 1 - unat count"
    using assms(5) by (simp add: unat_sub32 word_le_nat_alt)
  have "unat w < 1048576" using uw V by linarith
  then have a: "unat (w * PAGE_SIZE) = (unat (dmmap_page_count s) + unat ?p + 1 - unat count) * 4096"
    using unat_page_address [of w] uw by simp
  have "unat (dmmap_page_count s) + unat ?p + 1 - unat count < unat (dmmap_page_count s)"
    using assms(4,5) by linarith
  then have "unat (w * PAGE_SIZE) < unat (dmmap_page_count s) * 4096" using a by simp
  moreover have "vmm_alloc_page count s = (if b then
      Some (w * PAGE_SIZE, enable_intr (let s2 = (if ?p = vmm_pos s1 then s1\<lparr>vmm_pos := vmm_pos s1 - count\<rparr> else s1)
        in s2\<lparr>vmm_free_page_count := vmm_free_page_count s2 - count\<rparr>))
      else Some (NULL, enable_intr s1))"
    using s l d by (cases b) (simp_all add: vmm_alloc_page_def Let_def get_globl_page_index_def w_def)
  ultimately show ?thesis using a by (cases b) auto
qed

section \<open>Bringing up: correctness\<close>

lemma direct_entry_translate:
  assumes "unat a div 4096 < 1048576"
  shows "set_page (push_bit 12 (a div PAGE_SIZE)) (PAGE_PRESENT OR PAGE_WRITE) AND PAGE_PRESENT \<noteq> 0"
    and "get_page_attr (set_page (push_bit 12 (a div PAGE_SIZE)) (PAGE_PRESENT OR PAGE_WRITE))
      + a mod PAGE_SIZE = a"
proof -
  show "set_page (push_bit 12 (a div PAGE_SIZE)) (PAGE_PRESENT OR PAGE_WRITE) AND PAGE_PRESENT \<noteq> 0"
    by (rule set_page_present)
  let ?e = "get_page_attr (set_page (push_bit 12 (a div PAGE_SIZE)) (PAGE_PRESENT OR PAGE_WRITE))"
  have e: "unat ?e = unat a div 4096 * 4096" using page_entry [of "a div PAGE_SIZE"] assms by simp
  have "unat (a mod PAGE_SIZE) = unat a mod 4096" by simp
  moreover have "unat a div 4096 * 4096 + unat a mod 4096 = unat a" by simp
  ultimately have "unat (?e + a mod PAGE_SIZE) = unat a"
    by (subst unat_add32) (simp_all only: e unat_u32_less)
  then show "?e + a mod PAGE_SIZE = a" by (simp only: word_unat_eq_iff)
qed

text \<open>The number of direct-mapped pages.\<close>

abbreviation direct_pages :: "'a mm_state_scheme \<Rightarrow> nat" where
  "direct_pages s \<equiv> min (unat (mem_length s) div 4096) 131072"

lemma mmap_init_map_correct:
  fixes s :: "'a mm_state_scheme" and raw :: "nat \<Rightarrow> u8" and kn :: u32
  assumes lay: "table_layout s" and dm: "dmmap_page_count s = DMMAP_PAGE_MAX"
    and kn: "unat kn < 768 * 1024"
  defines "t \<equiv> mmap_init_map raw kn s"
  shows "kernel_half t" and "unat (dmmap_page_count t) = direct_pages s"
    and "unat a < direct_pages s * 4096 \<Longrightarrow> mmu_translate t (PAGE_OFFSET + a) = Some a"
    and "unat a < direct_pages s * 4096 \<Longrightarrow> unat a div 4194304 \<le> unat kn div 1024 \<Longrightarrow>
      mmu_translate t a = Some a"
proof -
  let ?n = "mem_length s div PAGE_SIZE" and ?g = "globl_mmap_pte_addr s"
  let ?d = "if ?n < DMMAP_PAGE_MAX then ?n else DMMAP_PAGE_MAX"
  note R = mmap_init_map_result [OF dm, of raw kn, folded t_def]
  have d: "unat ?d = direct_pages s" by (auto simp: word_less_nat_alt min_def)
  show dt: "unat (dmmap_page_count t) = direct_pages s" using d by (simp add: R(1))
  have "unat (kn div PAGE_PTE_INDEX) < 768" using kn by simp
  then have last: "unat (kn div PAGE_PTE_INDEX + 1) = unat kn div 1024 + 1"
    by (simp add: unat_add32)
  have klow: "i < kn div PAGE_PTE_INDEX + 1 \<longleftrightarrow> unat i \<le> unat kn div 1024" for i
    unfolding word_less_nat_alt last by auto
  have kl: "unat kn div 1024 < 768" using kn by linarith
  have half: "kernel_mmap_pde t i = set_page (?g + (i - 768) * PAGE_SIZE) (PAGE_PRESENT OR PAGE_WRITE)"
    if "768 \<le> unat i" "unat i < 960" for i
    unfolding R(10) using that kl by (simp add: klow)
  have addrs: "globl_mmap_pte_addr t = ?g" "kernel_mmap_pde_addr t = kernel_mmap_pde_addr s"
    "cr3 t = kernel_mmap_pde_addr s" by (simp_all add: R)
  show kh: "kernel_half t"
    using lay half by (simp add: kernel_half_def table_layout_def addrs)
  have ent: "globl_mmap_pte t (a div PAGE_SIZE) =
      set_page (push_bit 12 (a div PAGE_SIZE)) (PAGE_PRESENT OR PAGE_WRITE)"
    if "unat a < direct_pages s * 4096" for a
  proof -
    have "unat (a div PAGE_SIZE) < unat ?d" unfolding d using that by (simp only: unat_div_u32) auto
    then show ?thesis by (simp add: R(9) word_less_nat_alt)
  qed
  have pg: "unat a div 4096 < 1048576" for a :: u32 using unat_u32_less [of a] by linarith
  show "mmu_translate t (PAGE_OFFSET + a) = Some a" if a: "unat a < direct_pages s * 4096"
  proof -
    have "unat a < 192 * 4194304" using a by (simp add: min_def split: if_splits)
    from mmu_kernel_window [OF kh this] show ?thesis
      using direct_entry_translate [OF pg] by (simp add: ent [OF a] Let_def)
  qed
  show "mmu_translate t a = Some a"
    if a: "unat a < direct_pages s * 4096" and k: "unat a div 4194304 \<le> unat kn div 1024"
  proof -
    let ?i = "pde_index a"
    have i: "unat ?i = unat a div 4194304" by (rule unat_pde_index)
    define pde where "pde = set_page (?g + ?i * PAGE_SIZE) (PAGE_PRESENT OR PAGE_WRITE)"
    have e1: "kernel_mmap_pde t ?i = pde" unfolding R(10) pde_def using k by (simp add: klow i)
    have lay': "get_page_attr ?g = ?g" "unat ?g + 192 * 4096 \<le> 4294967296"
      "get_page_attr (kernel_mmap_pde_addr s) = kernel_mmap_pde_addr s"
      "\<not> unat (kernel_mmap_pde_addr s - ?g) < 192 * 4096"
      using lay by (simp_all add: table_layout_def)
    have ib: "unat ?i < 192" using a unfolding i by (auto simp: min_def split: if_splits)
    have "unat ?g + unat ?i * 4096 < 4294967296" using ib lay'(2) by linarith
    then have tab: "get_page_attr pde = ?g + ?i * PAGE_SIZE"
      unfolding pde_def by (rule aligned_add_page [OF lay'(1)])
    have off: "unat (?i * PAGE_SIZE) = unat a div 4194304 * 4096"
      using ib by (subst unat_page_address) (simp_all only: i)
    have g: "?i * PAGE_SIZE div 4 + pte_index a = a div PAGE_SIZE"
    proof -
      have "unat (?i * PAGE_SIZE div 4) = unat a div 4194304 * 1024" unfolding unat_div_u32 off by simp
      moreover have "unat a div 4194304 * 1024 + unat a div 4096 mod 1024 = unat a div 4096"
      proof -
        have "unat a div 4194304 = unat a div 4096 div 1024" by (simp add: div_mult2_eq [symmetric])
        then show ?thesis by (simp only: div_mult_mod_eq)
      qed
      ultimately show ?thesis using pg [of a]
        by (simp add: word_unat_eq_iff unat_add32 unat_pte_index del: unat_u32_less)
    qed
    have "?g + ?i * PAGE_SIZE \<noteq> kernel_mmap_pde_addr s"
    proof
      assume "?g + ?i * PAGE_SIZE = kernel_mmap_pde_addr s"
      then have "kernel_mmap_pde_addr s - ?g = ?i * PAGE_SIZE" by (metis add_diff_cancel_left')
      with lay'(4) off ib i show False by simp
    qed
    moreover have "unat (?g + ?i * PAGE_SIZE - ?g) < 192 * 4096" using off ib i by simp
    ultimately have e2: "table_entry t (?g + ?i * PAGE_SIZE) (pte_index a) = globl_mmap_pte t (a div PAGE_SIZE)"
      by (simp add: table_entry_def addrs g)
    have "table_entry t (get_page_attr (cr3 t)) ?i = pde"
      by (simp add: table_entry_def addrs lay' e1)
    then show ?thesis
      using set_page_present [of "?g + ?i * PAGE_SIZE"] direct_entry_translate [OF pg] e2 tab
      by (simp add: mmu_translate_def Let_def pde_def ent [OF a])
  qed
qed

lemma mmap_init_correct:
  fixes s :: "'a mm_state_scheme" and raw :: "nat \<Rightarrow> u8" and kernel_end :: u32
  assumes lay: "table_layout s" and dm: "dmmap_page_count s = DMMAP_PAGE_MAX"
    and base: "0 < unat (mem_base_addr s)"
      "unat (mem_base_addr s) + (unat (mem_length s) div 4096 + 7) div 8 + 4095 < 4294967296"
    and ke: "unat kernel_end < 0xbfc00000"
  defines "t \<equiv> mmap_init raw kernel_end s"
  shows "mm_inv t" and "vmm_map t = Map.empty" and "kernel_half t" and "paging t"
    and "pmm_free t = {(unat (mem_base_addr s) + (unat (mem_length s) div 4096 + 7) div 8 + 4095) div 4096
      ..<unat (mem_length s) div 4096}"
    and "unat a < direct_pages s * 4096 \<Longrightarrow> mmu_translate t (PAGE_OFFSET + a) = Some a"
    and "unat a < 3221225472 \<Longrightarrow> unat a div 4194304 \<le> (unat kernel_end + 4095) div 4194304 \<Longrightarrow>
      mmu_translate t a = None"
proof -
  let ?n = "mem_length s div PAGE_SIZE" and ?g = "globl_mmap_pte_addr s"
  let ?kn = "(kernel_end + PAGE_SIZE - 1) div PAGE_SIZE"
  let ?s' = "s\<lparr>mem_page_count := ?n\<rparr>"
  let ?d = "if ?n < DMMAP_PAGE_MAX then ?n else DMMAP_PAGE_MAX"
  define u where "u = mmap_init_map raw ?kn s"
  define L where "L = ?kn div PAGE_PTE_INDEX + 1"
  have uke: "unat (kernel_end + PAGE_SIZE - 1) = unat kernel_end + 4095"
  proof -
    have "unat (kernel_end + 4095) = unat kernel_end + 4095" using ke by (simp add: unat_add32)
    then show ?thesis by (simp add: add.commute)
  qed
  then have ukn: "unat ?kn = (unat kernel_end + 4095) div 4096" by (simp only: unat_div_u32) simp
  have kn: "unat ?kn < 768 * 1024" unfolding ukn using ke by simp
  have t: "t = u\<lparr>paging := True, kernel_mmap_pde := \<lambda>i. if i < L then 0 else kernel_mmap_pde u i\<rparr>"
    unfolding t_def mmap_init_def Let_def u_def L_def
    by (subst kernel_pde_loop [where v = "\<lambda>i s. 0"]) (simp_all cong: if_cong)
  show "paging t" by (simp add: t)
  note R = mmap_init_map_result [OF dm, of raw ?kn, folded u_def]
  note C = mmap_init_map_correct [OF lay dm kn, where raw = raw, folded u_def]
  have L: "unat L = unat ?kn div 1024 + 1"
  proof -
    have "unat (?kn div PAGE_PTE_INDEX) < 768" unfolding unat_div_u32 [of ?kn] using kn by simp
    then have "unat (?kn div PAGE_PTE_INDEX + 1) = unat (?kn div PAGE_PTE_INDEX) + 1"
      by (intro trans [OF unat_add32]) simp_all
    then show ?thesis unfolding L_def by (simp only: unat_div_u32 [of ?kn]) simp
  qed
  have L768: "unat L \<le> 768" unfolding L using kn by simp
  show kh: "kernel_half t"
    using C(1) L768 by (auto simp: kernel_half_def table_layout_def t word_less_nat_alt)
  have same_pte: "globl_mmap_pte t = globl_mmap_pte u" by (simp add: t)
  show "mmu_translate t (PAGE_OFFSET + a) = Some a" if a: "unat a < direct_pages s * 4096"
  proof -
    have "unat a < 192 * 4194304" using a by (simp add: min_def split: if_splits)
    from mmu_kernel_window [OF kh this] mmu_kernel_window [OF C(1) this] C(3) [OF a]
    show ?thesis by (simp add: same_pte)
  qed
  show "mmu_translate t a = None"
    if "unat a < 3221225472" "unat a div 4194304 \<le> (unat kernel_end + 4095) div 4194304"
  proof -
    have "(unat kernel_end + 4095) div 4194304 = unat ?kn div 1024"
      unfolding ukn by (simp add: div_mult2_eq [symmetric])
    with that have "pde_index a < L" by (simp add: word_less_nat_alt L unat_pde_index)
    then show ?thesis using kh
      by (simp add: mmu_translate_def table_entry_def kernel_half_def table_layout_def t)
  qed
  have tr: "pmm_state.truncate t = pmm_state.truncate (pmm_init raw ?s')" using R(11) by (simp add: t)
  note pm = pmm_ok_cong [OF tr]
  have init: "pmm_inv (pmm_init raw ?s')" "pmm_free (pmm_init raw ?s') =
    {(unat (mem_base_addr s) + (unat (mem_length s) div 4096 + 7) div 8 + 4095) div 4096
      ..<unat (mem_length s) div 4096}"
    using pmm_init_correct [of ?s' raw] base unat_u32_less [of "mem_length s"]
    by (simp_all del: unat_u32_less)
  then show "pmm_free t = {(unat (mem_base_addr s) + (unat (mem_length s) div 4096 + 7) div 8 + 4095) div 4096
      ..<unat (mem_length s) div 4096}" by (simp add: pm)
  have "4096 \<le> unat (mem_base_addr s) + (unat (mem_length s) div 4096 + 7) div 8 + 4095"
    using base(1) by linarith
  then have "0 < (unat (mem_base_addr s) + (unat (mem_length s) div 4096 + 7) div 8 + 4095) div 4096"
    by (subst div_greater_zero_iff) simp
  then have ok: "pmm_ok t" using init unfolding pm pmm_ok_def by simp
  have d: "unat ?d = direct_pages s" by (auto simp: word_less_nat_alt min_def)
  have v: "unat (GLOBL_PAGE_NUM - ?d) = 196608 - direct_pages s"
    using d by (subst unat_sub32) (simp_all add: word_le_nat_alt)
  have "0 < unat (GLOBL_PAGE_NUM - ?d)" unfolding v by simp
  then have v0: "0 < GLOBL_PAGE_NUM - ?d" by (intro word_less_nat_alt [THEN iffD2]) (simp only: unat_0)
  have counts: "dmmap_page_count t = ?d" "vmmap_page_count t = GLOBL_PAGE_NUM - ?d"
    "vmm_pos t = GLOBL_PAGE_NUM - ?d - 1" "vmm_free_page_count t = GLOBL_PAGE_NUM - ?d"
    by (simp_all add: t R)
  have wf: "vmm_wf t"
    unfolding vmm_wf_def counts unat_pred [OF v0] v d by simp
  show empty: "vmm_map t = Map.empty"
  proof
    fix i
    show "vmm_map t i = None"
    proof (cases "i < unat (vmmap_page_count t)")
      case True
      have ui: "unat (of_nat i :: u32) = i"
      proof (rule unat_of_nat_u32)
        show "i < 4294967296" using True unat_u32_less [of "vmmap_page_count t"] by linarith
      qed
      have g: "unat (dmmap_page_count t + of_nat i) = unat (dmmap_page_count t) + i"
        "unat (dmmap_page_count t + of_nat i) < 196608"
        using vmm_index [OF wf, of "of_nat i"] True ui by simp_all
      then have "\<not> dmmap_page_count t + of_nat i < ?d"
        unfolding counts(1) [symmetric] by (simp add: word_less_nat_alt)
      then have "globl_mmap_pte t (dmmap_page_count t + of_nat i) = 0"
        using g(2) by (simp add: same_pte R(9) del: counts)
      then show ?thesis by (simp add: vmm_map_def vmm_frame_def)
    next
      case False
      then show ?thesis by (simp add: vmm_map_outside)
    qed
  qed
  have "vmm_unmapped t = {..<unat (vmmap_page_count t)}" by (auto simp: vmm_unmapped_def empty)
  then show "mm_inv t" using ok wf by (simp add: mm_inv_def counts)
qed

section \<open>A sample state\<close>

text \<open>Sixteen direct-mapped and sixteen dynamic pages over the sample frame allocator.\<close>

definition mm_sample :: mm_state where
  "mm_sample = \<lparr>mem_base_addr = 0x2002, mem_length = 0x10000, mem_page_count = 16,
     pmm_bitmap = [7, 0], pmm_bitmap_length = 2, pmm_free_page_count = 13,
     pmm_head_pos = 3, pmm_tail_pos = 15,
     globl_mmap_pte = (\<lambda>g. if g < 16 then set_page (push_bit 12 g) (PAGE_PRESENT OR PAGE_WRITE) else 0),
     globl_mmap_pte_addr = 0x4000, kernel_mmap_pde = (\<lambda>_. 0), kernel_mmap_pde_addr = 0x3000,
     dmmap_page_count = 16, vmmap_page_count = 16, vmm_free_page_count = 16, vmm_pos = 15,
     page_mem = (\<lambda>_. 0), intr_flag = True, cr3 = 0, paging = False\<rparr>"


lemma mm_sample_pmm:
  "pmm_ok mm_sample" "pmm_free mm_sample = {3..<16}" "pmm_total mm_sample = 16"
  "pmm_avail mm_sample = {4..<16}" "card (pmm_avail mm_sample) = 12"
proof -
  have tr: "pmm_state.truncate mm_sample = pmm_state.truncate pmm_sample"
    by (simp add: mm_sample_def pmm_sample_def pmm_state.truncate_def)
  note pm = pmm_ok_cong [OF tr]
  show "pmm_ok mm_sample" using pmm_sample_inv by (simp add: pm pmm_ok_def)
  show "pmm_free mm_sample = {3..<16}" by (simp add: pm pmm_sample_free)
  then show "pmm_avail mm_sample = {4..<16}"
    by (auto simp: pmm_avail_def) (simp_all add: mm_sample_def)
  then show "card (pmm_avail mm_sample) = 12" by simp
  show "pmm_total mm_sample = 16" by (simp add: pm)
qed

lemma mm_sample_map: "vmm_map mm_sample = Map.empty"
proof
  fix i
  show "vmm_map mm_sample i = None"
  proof (cases "i < 16")
    case True
    then have "unat (16 + of_nat i :: u32) = 16 + i"
      by (subst unat_add32) (simp_all add: unat_of_nat_u32)
    then have "\<not> (16 + of_nat i :: u32) < 16" by (simp add: word_less_nat_alt)
    then show ?thesis by (simp add: vmm_map_def vmm_frame_def mm_sample_def)
  next
    case False
    then show ?thesis by (simp add: vmm_map_outside mm_sample_def)
  qed
qed

lemma mm_sample_inv: "mm_inv mm_sample"
proof -
  have "vmmap_page_count mm_sample = 16" by (simp add: mm_sample_def)
  then have "vmm_unmapped mm_sample = {..<16}" by (auto simp: vmm_unmapped_def mm_sample_map)
  moreover have "vmm_wf mm_sample" by (simp add: vmm_wf_def mm_sample_def)
  moreover have "vmm_free_page_count mm_sample = 16" by (simp add: mm_sample_def)
  ultimately show ?thesis using mm_sample_pmm(1) by (simp add: mm_inv_def)
qed

lemma mm_sample_run: "n \<le> e \<Longrightarrow> vmm_run mm_sample n e"
  by (simp add: vmm_run_def mm_sample_map)



section \<open>Properties\<close>

text \<open>C2. Total correctness of \<open>vmm_alloc_page\<close>.  When \<open>count\<close> unmapped pages lie next to each
  other between page 1 and \<open>vmm_pos\<close> and the frame allocator can reach \<open>count\<close> frames, the
  search ends, the highest such run \<open>q + 1 - count .. q\<close> is mapped one to one to frames that
  were free and are no longer, the address of its first page is returned, no other page
  table entry changes, the invariant is kept, and interrupts are on.\<close>

theorem vmm_alloc_page_spec:
  assumes "mm_inv s" and "0 < count"
    and "vmm_run s (unat count) e0" and "e0 \<le> unat (vmm_pos s)"
    and "unat count \<le> card (pmm_avail s)"
  shows "\<exists>q m a t. vmm_alloc_page count s = Some (a, t) \<and>
    unat count \<le> q \<and> q \<le> unat (vmm_pos s) \<and> vmm_run s (unat count) q \<and>
    (\<forall>e. q < e \<and> e \<le> unat (vmm_pos s) \<longrightarrow> \<not> vmm_run s (unat count) e) \<and>
    unat a = (unat (dmmap_page_count s) + q + 1 - unat count) * 4096 \<and>
    dom m = {q + 1 - unat count..q} \<and> inj_on m (dom m) \<and> ran m \<subseteq> pmm_free s \<and>
    vmm_map t = vmm_map s ++ m \<and> pmm_free t = pmm_free s - ran m \<and> mm_inv t \<and>
    vmm_same {unat (dmmap_page_count s) + (q + 1 - unat count)..unat (dmmap_page_count s) + q} s t \<and>
    intr_flag t"
  using assms by (rule vmm_alloc_page_correct)

theorem vmm_alloc_page_spec_witness:
  "\<exists>a t. vmm_alloc_page 3 mm_sample = Some (a, t) \<and> unat a = (16 + 13) * 4096 \<and> mm_inv t"
proof -
  have p: "unat (vmm_pos mm_sample) = 15" "unat (dmmap_page_count mm_sample) = 16"
    by (simp_all add: mm_sample_def)
  obtain q m a t where r: "vmm_alloc_page 3 mm_sample = Some (a, t)" "q \<le> 15"
    "\<forall>e. q < e \<and> e \<le> 15 \<longrightarrow> \<not> vmm_run mm_sample 3 e" "unat a = (16 + q + 1 - 3) * 4096" "mm_inv t"
    using vmm_alloc_page_spec [OF mm_sample_inv, of 3 15] mm_sample_run [of 3 15] mm_sample_pmm(5) p
    by auto
  have "vmm_run mm_sample 3 15" by (simp add: mm_sample_run)
  with r(3) have "\<not> q < 15" by blast
  with r(2) have "q = 15" by simp
  with r show ?thesis by auto
qed

text \<open>C29. Allocating \<open>count\<close> dynamic pages and giving them back with \<open>vmm_free_page\<close> restores the
  page map and the set of free frames, and keeps the invariant.\<close>

theorem vmm_alloc_free_roundtrip:
  assumes "mm_inv s" and "0 < count"
    and "vmm_run s (unat count) e0" and "e0 \<le> unat (vmm_pos s)"
    and "unat count \<le> card (pmm_avail s)"
  shows "\<exists>a t. vmm_alloc_page count s = Some (a, t) \<and> a \<noteq> NULL \<and>
    mm_inv (vmm_free_page a count t) \<and>
    vmm_map (vmm_free_page a count t) = vmm_map s \<and> pmm_free (vmm_free_page a count t) = pmm_free s"
  using assms by (rule vmm_alloc_free_correct)

theorem vmm_alloc_free_roundtrip_witness:
  "\<exists>a t. vmm_alloc_page 12 mm_sample = Some (a, t) \<and> a \<noteq> NULL \<and>
    vmm_map (vmm_free_page a 12 t) = Map.empty \<and> pmm_free (vmm_free_page a 12 t) = {3..<16}"
proof -
  have "unat (vmm_pos mm_sample) = 15" by (simp add: mm_sample_def)
  then show ?thesis
    using vmm_alloc_free_roundtrip [OF mm_sample_inv, of 12 15] mm_sample_run [of 12 15] mm_sample_pmm
    by (auto simp: mm_sample_map)
qed

text \<open>C30. After \<open>mmap_init\<close> the memory manager's invariant holds with no dynamic page mapped,
  paging is on, and for the processor's page walk every kernel address \<open>PAGE_OFFSET + a\<close> with
  \<open>a\<close> in the direct map is the physical address \<open>a\<close>, while the low identity map that was
  needed to switch paging on is gone.  (Hypotheses: the loader's values are the static
  initial ones, the tables are page aligned and apart, the image ends below 3 GB.)\<close>

theorem mmap_init_spec:
  assumes "table_layout s" and "dmmap_page_count s = DMMAP_PAGE_MAX"
    and "0 < unat (mem_base_addr s)"
    and "unat (mem_base_addr s) + (unat (mem_length s) div 4096 + 7) div 8 + 4095 < 4294967296"
    and "unat kernel_end < 0xbfc00000"
  shows "mm_inv (mmap_init raw kernel_end s) \<and> vmm_map (mmap_init raw kernel_end s) = Map.empty \<and>
    paging (mmap_init raw kernel_end s) \<and>
    pmm_free (mmap_init raw kernel_end s) =
      {(unat (mem_base_addr s) + (unat (mem_length s) div 4096 + 7) div 8 + 4095) div 4096
        ..<unat (mem_length s) div 4096} \<and>
    (\<forall>a. unat a < direct_pages s * 4096 \<longrightarrow>
       mmu_translate (mmap_init raw kernel_end s) (PAGE_OFFSET + a) = Some a) \<and>
    (\<forall>a. unat a < 3221225472 \<and> unat a div 4194304 \<le> (unat kernel_end + 4095) div 4194304 \<longrightarrow>
       mmu_translate (mmap_init raw kernel_end s) a = None)"
  using mmap_init_correct [OF assms, where raw = raw] by blast

theorem mmap_init_spec_witness:
  "mmu_translate (mmap_init (\<lambda>_. 0xa5) 0x108000 (mm_sample\<lparr>dmmap_page_count := DMMAP_PAGE_MAX\<rparr>))
    (PAGE_OFFSET + 0x1234) = Some 0x1234"
proof -
  have "get_page_attr 0x4000 = 0x4000" "get_page_attr 0x3000 = 0x3000" by code_simp+
  moreover have "unat (0xfffff000 :: u32) = 4294963200" by simp
  ultimately have "table_layout (mm_sample\<lparr>dmmap_page_count := DMMAP_PAGE_MAX\<rparr>)"
    by (simp add: table_layout_def mm_sample_def)
  note mspec = mmap_init_spec [OF this, where kernel_end = "0x108000" and raw = "\<lambda>_. 0xa5"]
  have L: "mem_length mm_sample = 0x10000" "mem_base_addr mm_sample = 0x2002"
    by (simp_all add: mm_sample_def)
  have "\<forall>a. unat a < 16 * 4096 \<longrightarrow> mmu_translate
      (mmap_init (\<lambda>_. 0xa5) 0x108000 (mm_sample\<lparr>dmmap_page_count := DMMAP_PAGE_MAX\<rparr>)) (PAGE_OFFSET + a) = Some a"
    using mspec by (simp add: L)
  from this [THEN spec, of "0x1234"] show ?thesis by (simp only: unat_numeral) simp
qed



end
