(* ===== verification/Umm.thy ===== *)
theory Umm
  imports Vmm
begin

text \<open>
  The page tables of user processes: \<open>src/kernel/mm/umm.c\<close>, and \<open>vmm_mmap_pde_page\<close> of
  \<open>src/kernel/mm/vmm.c\<close>, which maps user pages into the kernel.  A page directory and its page
  tables are direct-mapped frames, read and written as 32-bit cells of \<open>page_mem\<close>.  The
  fault address that \<open>umm_handler\<close> reads from \<open>cr2\<close> is an argument.
\<close>

section \<open>Operations\<close>

abbreviation PAGE_PWU :: u32 where "PAGE_PWU \<equiv> PAGE_PRESENT OR PAGE_WRITE OR PAGE_USER"

definition read_entry :: "u32 \<Rightarrow> u32 \<Rightarrow> 'a mm_state_scheme \<Rightarrow> u32" where
  "read_entry table i s = page_mem s (table + 4 * i)"

definition write_entry :: "u32 \<Rightarrow> u32 \<Rightarrow> u32 \<Rightarrow> 'a mm_state_scheme \<Rightarrow> 'a mm_state_scheme" where
  "write_entry table i v s = s\<lparr>page_mem := (page_mem s)(table + 4 * i := v)\<rparr>"

definition get_umm_value :: "u32 \<Rightarrow> u32 \<Rightarrow> 'a mm_state_scheme \<Rightarrow> u32" where
  "get_umm_value attr pde s =
     (if read_entry pde (pde_index attr) s = 0 then 0
      else read_entry (get_page_attr (read_entry pde (pde_index attr) s)) (pte_index attr) s)"

definition set_umm_value :: "u32 \<Rightarrow> u32 \<Rightarrow> u32 \<Rightarrow> 'a mm_state_scheme \<Rightarrow> u32 \<times> 'a mm_state_scheme" where
  "set_umm_value attr value pde s =
     (if attr \<ge> PAGE_OFFSET then (0, s)
      else if get_page_attr (read_entry pde (pde_index attr) s) = 0 then
        (case dmm_alloc_page 1 s of (pte, s1) \<Rightarrow>
           if pte = NULL then (0, s1)
           else
             (let s2 = for_loop 0 PAGE_PTE_INDEX (\<lambda>i s. write_entry pte i 0 s) s1;
                  s3 = write_entry pde (pde_index attr) (set_page pte PAGE_PWU) s2
              in (1, write_entry pte (pte_index attr) value s3)))
      else
        (let pte = get_page_attr (read_entry pde (pde_index attr) s)
         in (1, write_entry pte (pte_index attr) value s)))"

text \<open>\<open>memcpy(pde, &kernel_mmap_pde[0], PAGE_SIZE)\<close> copies the 1024 entries of the directory.\<close>

definition umm_alloc_pde :: "'a mm_state_scheme \<Rightarrow> u32 \<times> 'a mm_state_scheme" where
  "umm_alloc_pde s =
     (case dmm_alloc_page 1 s of (pde, s1) \<Rightarrow>
        if pde = NULL then (NULL, s1)
        else (pde, for_loop 0 PAGE_PDE_INDEX (\<lambda>i s. write_entry pde i (kernel_mmap_pde s i) s) s1))"

definition umm_mmap_page :: "u32 \<Rightarrow> u32 \<Rightarrow> u32 \<Rightarrow> 'a mm_state_scheme \<Rightarrow> u32 \<times> 'a mm_state_scheme" where
  "umm_mmap_page attr mmap_attr pde s =
     (if get_umm_value mmap_attr pde s = 0
      then set_umm_value mmap_attr (set_page (get_globl_phy_attr attr s) PAGE_PWU) pde s
      else (0, s))"

text \<open>The clean-up and mapping loops of \<open>vmm_mmap_pde_page\<close>.\<close>

function vmm_pde_unmap_loop :: "u32 \<Rightarrow> u32 \<Rightarrow> 'a mm_state_scheme \<Rightarrow> 'a mm_state_scheme" where
  "vmm_pde_unmap_loop head i s =
     (if i > 0 then vmm_pde_unmap_loop head (i - 1) (globl_page_remove (get_globl_page_index (head + i) s) s)
      else s)"
  by pat_completeness auto
termination
  by (relation "measure (\<lambda>(head, i, s). unat i)") (auto simp: unat_pred word_less_nat_alt)

declare vmm_pde_unmap_loop.simps [simp del]

text \<open>One iteration: the frame of user page \<open>attr\<close>, allocated and entered when there is none.\<close>

definition vmm_pde_frame :: "u32 \<Rightarrow> u32 \<Rightarrow> 'a mm_state_scheme \<Rightarrow> u32 \<times> 'a mm_state_scheme" where
  "vmm_pde_frame attr pde s =
     (let phy_attr = get_page_attr (get_umm_value attr pde s) in
      if phy_attr = NULL then
        (case pmm_alloc_page s of (phy_attr, s1) \<Rightarrow>
           (phy_attr,
            if phy_attr \<noteq> NULL
            then snd (set_umm_value attr (set_page (get_globl_phy_attr phy_attr s1) PAGE_PWU) pde s1)
            else s1))
      else (phy_attr, s))"

function vmm_pde_map_loop ::
    "u32 \<Rightarrow> u32 \<Rightarrow> u32 \<Rightarrow> u32 \<Rightarrow> u32 \<Rightarrow> 'a mm_state_scheme \<Rightarrow> bool \<times> 'a mm_state_scheme" where
  "vmm_pde_map_loop attr pde head count i s =
     (if i < count then
        (case vmm_pde_frame (attr + i * PAGE_SIZE) pde s of (phy_attr, s1) \<Rightarrow>
           if phy_attr \<noteq> NULL
           then vmm_pde_map_loop attr pde head count (i + 1)
                  (globl_page_mmap (phy_attr div PAGE_SIZE) (get_globl_page_index (head + i) s1) s1)
           else (False, vmm_pde_unmap_loop head i s1))
      else (True, s))"
  by pat_completeness auto
termination
  by (relation "measure (\<lambda>(attr, pde, head, count, i, s). unat count - unat i)")
    (auto simp: unat_Suc_less word_less_nat_alt)

declare vmm_pde_map_loop.simps [simp del]

definition vmm_mmap_pde_page :: "u32 \<Rightarrow> u32 \<Rightarrow> u32 \<Rightarrow> 'a mm_state_scheme \<Rightarrow> (u32 \<times> 'a mm_state_scheme) option" where
  "vmm_mmap_pde_page attr count pde s =
     (let s0 = disable_intr s in
      case vmm_search count (vmm_pos s0) s0 of
        None \<Rightarrow> None
      | Some None \<Rightarrow> Some (NULL, enable_intr s0)
      | Some (Some p) \<Rightarrow>
          (let head = p - count + 1 in
           case vmm_pde_map_loop attr pde head count 0 s0 of
             (False, s1) \<Rightarrow> Some (NULL, enable_intr s1)
           | (True, s1) \<Rightarrow>
               (let s2 = (if p = vmm_pos s1 then s1\<lparr>vmm_pos := vmm_pos s1 - count\<rparr> else s1);
                    s3 = s2\<lparr>vmm_free_page_count := vmm_free_page_count s2 - count\<rparr>
                in Some (get_globl_page_index head s3 * PAGE_SIZE, enable_intr s3))))"

text \<open>The page that \<open>umm_mmap_kmm\<close> maps when only one is needed.\<close>

definition umm_mmap_kmm :: "u32 \<Rightarrow> u32 \<Rightarrow> u32 \<Rightarrow> 'a mm_state_scheme \<Rightarrow> (u32 \<times> 'a mm_state_scheme) option" where
  "umm_mmap_kmm attr len pde s =
     (if attr + len > PAGE_OFFSET then Some (NULL, s)
      else
        (let mmap_attr = attr AND NOT (PAGE_SIZE - 1);
             page_conut = (attr + len - mmap_attr + PAGE_SIZE - 1) div PAGE_SIZE
         in case (if page_conut = 1 then
                    (let phy_attr = get_page_attr (get_umm_value mmap_attr pde s) in
                     if phy_attr = NULL then
                       (case vmm_alloc_page 1 s of
                          None \<Rightarrow> None
                        | Some (p, s1) \<Rightarrow>
                            Some (p, if p \<noteq> NULL
                              then snd (set_umm_value mmap_attr (set_page (get_globl_phy_attr p s1) PAGE_PWU) pde s1)
                              else s1))
                     else Some (vmm_mmap_page phy_attr s))
                  else vmm_mmap_pde_page mmap_attr page_conut pde s) of
              None \<Rightarrow> None
            | Some (p, s1) \<Rightarrow>
                Some (if p = NULL then NULL else p + attr - mmap_attr, s1)))"

definition umm_ummap_kmm :: "u32 \<Rightarrow> u32 \<Rightarrow> 'a mm_state_scheme \<Rightarrow> 'a mm_state_scheme" where
  "umm_ummap_kmm attr len s =
     (let mmap_attr = attr AND NOT (PAGE_SIZE - 1);
          page_conut = (attr + len - mmap_attr + PAGE_SIZE - 1) div PAGE_SIZE
      in vmm_ummap_page mmap_attr page_conut s)"

definition umm_handler :: "u32 \<Rightarrow> u32 \<Rightarrow> 'a mm_state_scheme \<Rightarrow> u32 \<times> 'a mm_state_scheme" where
  "umm_handler attr pde s =
     (case pmm_alloc_page s of (phy, s1) \<Rightarrow>
        if phy = NULL then (0, s1)
        else
          (case set_umm_value attr (set_page phy PAGE_PWU) pde s1 of (r, s2) \<Rightarrow>
             if r = 0 then (0, pmm_free_page phy 1 s2) else (1, s2)))"

definition umm_free_table :: "u32 \<Rightarrow> 'a mm_state_scheme \<Rightarrow> 'a mm_state_scheme" where
  "umm_free_table pte s =
     for_loop 0 PAGE_PTE_INDEX
       (\<lambda>n s. if get_page_attr (read_entry pte n s) \<noteq> 0
              then pmm_free_page (get_page_attr (read_entry pte n s)) 1 s else s) s"

definition umm_free :: "u32 \<Rightarrow> 'a mm_state_scheme \<Rightarrow> 'a mm_state_scheme" where
  "umm_free pde s =
     dmm_free_page pde 1
       (for_loop 0 (pde_index PAGE_OFFSET)
          (\<lambda>m s. if get_page_attr (read_entry pde m s) \<noteq> 0
                 then (let pte = get_page_attr (read_entry pde m s)
                       in dmm_free_page pte 1 (umm_free_table pte s))
                 else s) s)"

section \<open>Tables in direct-mapped frames\<close>

abbreviation page :: "nat \<Rightarrow> u32" where "page d \<equiv> of_nat d * PAGE_SIZE"

definition entry :: "'a mm_state_scheme \<Rightarrow> nat \<Rightarrow> u32 \<Rightarrow> u32" where
  "entry s d i = read_entry (page d) i s"

definition pte_frame :: "u32 \<Rightarrow> nat" where
  "pte_frame e = unat e div 4096"

lemma pte_frame_bound: "pte_frame e < 1048576"
  unfolding pte_frame_def using unat_u32_less [of e] by linarith

lemma pte_frame_0 [simp]: "pte_frame 0 = 0"
  by (simp add: pte_frame_def)

lemma get_page_attr_page: "get_page_attr e = page (pte_frame e)"
  using page_address [OF pte_frame_bound [of e]]
  by (simp add: word_unat_eq_iff unat_get_page_attr pte_frame_def)

lemma page_eq_0:
  assumes "d < 1048576"
  shows "page d = 0 \<longleftrightarrow> d = 0"
proof
  assume "page d = 0"
  then have "d * 4096 = 0" unfolding page_address [OF assms, symmetric] by (simp only: unat_0)
  then show "d = 0" by simp
qed simp

lemma get_page_attr_eq_0: "get_page_attr e = 0 \<longleftrightarrow> pte_frame e = 0"
  unfolding get_page_attr_page by (rule page_eq_0 [OF pte_frame_bound])


lemma cell_address:
  assumes "d < 1048576" and "unat i < 1024"
  shows "unat (page d + 4 * i) = d * 4096 + 4 * unat i"
proof -
  have "unat (4 * i) = 4 * unat i" using assms(2) by (simp add: unat_mult32)
  with page_address [OF assms(1)] assms show ?thesis by (simp add: unat_add32)
qed

lemma cell_inj:
  assumes "d < 1048576" "unat i < 1024" "k < 1048576" "unat j < 1024"
  shows "page d + 4 * i = page k + 4 * j \<longleftrightarrow> d = k \<and> i = j"
proof
  assume "page d + 4 * i = page k + 4 * j"
  then have "unat (page d + 4 * i) = unat (page k + 4 * j)" by (rule arg_cong)
  then have e: "d * 4096 + 4 * unat i = k * 4096 + 4 * unat j"
    unfolding cell_address [OF assms(1,2)] cell_address [OF assms(3,4)] .
  have "(d * 4096 + 4 * unat i) div 4096 = d" "(k * 4096 + 4 * unat j) div 4096 = k"
    using assms(2,4) by (simp_all add: div_mult_self3)
  with e have "d = k" by metis
  with e show "d = k \<and> i = j" by (simp add: word_unat_eq_iff)
qed simp

lemma entry_write:
  assumes "d < 1048576" "unat i < 1024" "k < 1048576" "unat j < 1024"
  shows "entry (write_entry (page k) j v s) d i = (if d = k \<and> i = j then v else entry s d i)"
  using cell_inj [OF assms] by (simp add: entry_def read_entry_def write_entry_def)

lemma write_entry_frame [simp, frame]:
  "pmm_state.truncate (write_entry a i v s) = pmm_state.truncate s"
  "vmm_map (write_entry a i v s) = vmm_map s"
  "mm_inv (write_entry a i v s) = mm_inv s"
  "mm_base (write_entry a i v s) = mm_base s"
  "vmm_free_page_count (write_entry a i v s) = vmm_free_page_count s"
  "vmm_pos (write_entry a i v s) = vmm_pos s"
  "pmm_free (write_entry a i v s) = pmm_free s"
  "pmm_ok (write_entry a i v s) = pmm_ok s"
  "pmm_total (write_entry a i v s) = pmm_total s"
  "dmmap_page_count (write_entry a i v s) = dmmap_page_count s"
  "vmmap_page_count (write_entry a i v s) = vmmap_page_count s"
  "globl_mmap_pte (write_entry a i v s) = globl_mmap_pte s"
  "kernel_mmap_pde (write_entry a i v s) = kernel_mmap_pde s"
  "vmm_wf (write_entry a i v s) = vmm_wf s"
  by (simp_all add: write_entry_def mm_inv_def mm_base_def vmm_wf_def vmm_unmapped_def)

lemma entry_cong: "page_mem s = page_mem t \<Longrightarrow> entry s = entry t"
  by (simp add: fun_eq_iff entry_def read_entry_def)

text \<open>Filling a table: \<open>n\<close> entries of one frame are written, nothing else is.\<close>

lemma fill_loop:
  fixes s :: "'a mm_state_scheme" and v :: "u32 \<Rightarrow> 'a mm_state_scheme \<Rightarrow> u32" and n :: u32 and k :: nat
  assumes "\<And>i m s. v i (s\<lparr>page_mem := m\<rparr>) = v i s" and "unat n \<le> 1024" and "k < 1048576"
  defines "t \<equiv> for_loop 0 n (\<lambda>i s. write_entry (page k) i (v i s) s) s"
  shows "\<exists>m. t = s\<lparr>page_mem := m\<rparr>"
    and "d < 1048576 \<Longrightarrow> unat i < 1024 \<Longrightarrow>
      entry t d i = (if d = k \<and> i < n then v i s else entry s d i)"
proof -
  let ?P = "\<lambda>j t. (\<exists>m. t = s\<lparr>page_mem := m\<rparr>) \<and> (\<forall>d i. d < 1048576 \<and> unat i < 1024 \<longrightarrow>
      entry t d i = (if d = k \<and> unat i < j then v i s else entry s d i))"
  have "?P (unat n) t"
    unfolding t_def
  proof (rule for_loop_invariant [where P = ?P])
    show "?P (unat (0 :: u32)) s" by (auto intro: exI [of _ "page_mem s"])
  next
    fix j :: u32 and u :: "'a mm_state_scheme"
    assume j: "j < n" and P: "?P (unat j) u"
    then obtain m where m: "u = s\<lparr>page_mem := m\<rparr>" by blast
    then have v: "v j u = v j s" using assms(1) by simp
    have jb: "unat j < 1024" using j assms(2) by (simp add: word_less_nat_alt)
    have "write_entry (page k) j (v j u) u =
        s\<lparr>page_mem := (page_mem u)(page k + 4 * j := v j u)\<rparr>"
      by (simp add: write_entry_def m)
    then have "\<exists>m. write_entry (page k) j (v j u) u = s\<lparr>page_mem := m\<rparr>" by blast
    with P show "?P (Suc (unat j)) (write_entry (page k) j (v j u) u)"
      by (auto simp: entry_write [OF _ _ assms(3) jb] v unat_less_Suc_word)
  qed simp
  then show "\<exists>m. t = s\<lparr>page_mem := m\<rparr>"
    and "d < 1048576 \<Longrightarrow> unat i < 1024 \<Longrightarrow>
      entry t d i = (if d = k \<and> i < n then v i s else entry s d i)"
    by (simp_all add: word_less_nat_alt)
qed

section \<open>Well-formed address spaces\<close>

text \<open>
  The directory lies in frame \<open>d\<close>.  Its page tables are distinct frames, none of them free
  and none the directory itself.
\<close>

definition umm_table :: "'a mm_state_scheme \<Rightarrow> nat \<Rightarrow> u32 \<Rightarrow> nat" where
  "umm_table s d i = pte_frame (entry s d i)"

definition umm_wf :: "nat \<Rightarrow> 'a mm_state_scheme \<Rightarrow> bool" where
  "umm_wf d s \<longleftrightarrow> 0 < d \<and> d < unat (dmmap_page_count s) \<and> d \<notin> pmm_free s \<and> d < pmm_total s \<and>
     (\<forall>i. unat i < 768 \<longrightarrow> (umm_table s d i = 0 \<longrightarrow> entry s d i = 0) \<and>
        (umm_table s d i \<noteq> 0 \<longrightarrow> umm_table s d i \<noteq> d \<and> umm_table s d i \<notin> pmm_free s \<and>
           umm_table s d i < pmm_total s)) \<and>
     (\<forall>i j. unat i < 768 \<and> unat j < 768 \<and> umm_table s d i \<noteq> 0 \<and> umm_table s d i = umm_table s d j \<longrightarrow> i = j)"

lemma user_index: "a < PAGE_OFFSET \<longleftrightarrow> unat (pde_index a) < 768"
  by (auto simp: word_less_nat_alt unat_pde_index)

lemma pte_index_bound: "unat (pte_index a) < 1024"
  by (simp add: unat_pte_index)

lemma pde_index_bound: "unat (pde_index a) < 1024"
  using unat_u32_less [of a] by (simp add: unat_pde_index del: unat_u32_less)

lemma same_user_page:
  "pde_index a = pde_index b \<and> pte_index a = pte_index b \<longleftrightarrow> a div PAGE_SIZE = b div PAGE_SIZE"
proof -
  have "unat a div 4194304 = unat a div 4096 div 1024" "unat b div 4194304 = unat b div 4096 div 1024"
    by (simp_all add: div_mult2_eq [symmetric])
  then have "unat a div 4194304 = unat b div 4194304 \<and> unat a div 4096 mod 1024 = unat b div 4096 mod 1024 \<longleftrightarrow>
      unat a div 4096 = unat b div 4096"
    by (metis div_mult_mod_eq)
  then show ?thesis by (simp add: word_unat_eq_iff unat_pde_index unat_pte_index)
qed

lemma umm_base_bound:
  assumes "mm_base s" and "umm_wf d s"
  shows "d < 1048576" and "0 < dmmap_page_count s" and "1 \<le> dmmap_page_count s"
proof -
  show "d < 1048576" using assms by (auto simp: umm_wf_def mm_base_def vmm_wf_def)
  show "0 < dmmap_page_count s" using assms(2) by (auto simp: umm_wf_def word_less_nat_alt)
  then show "1 \<le> dmmap_page_count s" by (simp add: word_le_nat_alt word_less_nat_alt)
qed

lemma umm_wf_bound:
  assumes "mm_inv s" and "umm_wf d s"
  shows "d < 1048576" and "0 < dmmap_page_count s" and "1 \<le> dmmap_page_count s"
  using umm_base_bound [of s d] assms by (simp_all add: mm_inv_base)

lemma get_umm_value_entry:
  assumes "umm_wf d s" and "a < PAGE_OFFSET"
  shows "get_umm_value a (page d) s =
    (let t = umm_table s d (pde_index a) in if t = 0 then 0 else entry s t (pte_index a))"
  using assms by (auto simp: get_umm_value_def umm_wf_def umm_table_def user_index entry_def [symmetric]
      get_page_attr_page Let_def)

section \<open>Entering a value\<close>

lemma pte_frame_set_page:
  assumes "f AND PAGE_MASK = 0"
  shows "pte_frame (set_page a f) = unat a div 4096"
proof -
  have "pte_frame (set_page a f) * 4096 = unat (get_page_attr (set_page a f))"
    by (simp only: unat_get_page_attr pte_frame_def)
  also have "\<dots> = unat a div 4096 * 4096"
    by (simp only: get_page_attr_set_page [OF assms] unat_page_mask)
  finally show ?thesis by simp
qed

lemma pte_frame_user: "k < 1048576 \<Longrightarrow> pte_frame (set_page (page k) PAGE_PWU) = k"
  using page_address [of k] by (subst pte_frame_set_page) simp_all

text \<open>What the operations on an address space leave alone.\<close>

definition umm_same :: "nat \<Rightarrow> 'a mm_state_scheme \<Rightarrow> 'a mm_state_scheme \<Rightarrow> bool" where
  "umm_same d s t \<longleftrightarrow> vmm_map t = vmm_map s \<and> globl_mmap_pte t = globl_mmap_pte s \<and>
     kernel_mmap_pde t = kernel_mmap_pde s \<and> dmmap_page_count t = dmmap_page_count s \<and>
     vmmap_page_count t = vmmap_page_count s \<and>
     pmm_total t = pmm_total s \<and> (\<forall>i. 768 \<le> unat i \<and> unat i < 1024 \<longrightarrow> entry t d i = entry s d i)"

lemma umm_same_refl [simp]: "umm_same d s s"
  by (simp add: umm_same_def)

lemma umm_same_trans: "umm_same d s t \<Longrightarrow> umm_same d t u \<Longrightarrow> umm_same d s u"
  by (simp add: umm_same_def)

lemma umm_wf_cong:
  assumes "umm_wf d s" and "\<And>i. unat i < 768 \<Longrightarrow> entry t d i = entry s d i"
    and "pmm_free t \<subseteq> pmm_free s" "pmm_total t = pmm_total s" "dmmap_page_count t = dmmap_page_count s"
  shows "umm_wf d t"
  using assms unfolding umm_wf_def umm_table_def by (auto simp: subset_iff)

lemma set_umm_value_base:
  assumes inv: "mm_base s" and wf: "umm_wf d s" and a: "attr < PAGE_OFFSET"
    and r: "set_umm_value attr v (page d) s = (r, t)"
  shows "mm_base t \<and> umm_wf d t \<and> umm_same d s t \<and>
    (\<forall>x. unat x < 768 \<and> umm_table s d x \<noteq> 0 \<longrightarrow> umm_table t d x = umm_table s d x) \<and>
    (r = 0 \<longrightarrow> umm_table s d (pde_index attr) = 0) \<and>
    (if r = 0 then page_mem t = page_mem s \<and> pmm_free t = pmm_free s
     else r = 1 \<and> (\<forall>b<PAGE_OFFSET. get_umm_value b (page d) t =
         (if b div PAGE_SIZE = attr div PAGE_SIZE then v else get_umm_value b (page d) s)) \<and>
       (pmm_free t = pmm_free s \<or> (\<exists>k\<in>pmm_free s. pmm_free t = pmm_free s - {k})))"
proof -
  let ?i = "pde_index attr" and ?j = "pte_index attr"
  let ?T = "umm_table s d"
  note b = umm_base_bound [OF inv wf]
  have nle: "\<not> attr \<ge> PAGE_OFFSET" using a by simp
  have i: "unat ?i < 768" "unat ?i < 1024" using a user_index [of attr] pde_index_bound by simp_all
  note j = pte_index_bound [of attr]
  have rd: "read_entry (page d) ?i s = entry s d ?i" by (simp add: entry_def)
  have tb: "?T x < 1048576" for x by (simp add: umm_table_def pte_frame_bound)
  have g: "get_page_attr (read_entry (page d) ?i s) = page (?T ?i)"
    by (simp only: rd umm_table_def get_page_attr_page)
  have g0: "page (?T ?i) = 0 \<longleftrightarrow> ?T ?i = 0" by (rule page_eq_0 [OF tb])
  show ?thesis
  proof (cases "?T ?i = 0")
    case False
    then have tab: "?T ?i \<noteq> d" using wf i by (auto simp: umm_wf_def)
    have rt: "r = 1" "t = write_entry (page (?T ?i)) ?j v s"
      using r nle False by (auto simp: set_umm_value_def g g0 Let_def)
    have ent: "entry t k x = (if k = ?T ?i \<and> x = ?j then v else entry s k x)"
      if "k < 1048576" "unat x < 1024" for k x
      unfolding rt(2) by (rule entry_write [OF that tb j])
    have d': "entry t d x = entry s d x" if "unat x < 1024" for x
      using ent [OF b(1) that] tab by auto
    then have T': "umm_table t d x = ?T x" if "unat x < 1024" for x using that by (simp add: umm_table_def)
    have wf': "umm_wf d t" using d' by (intro umm_wf_cong [OF wf]) (simp_all add: rt)
    have get: "get_umm_value c (page d) t =
        (if c div PAGE_SIZE = attr div PAGE_SIZE then v else get_umm_value c (page d) s)"
      if c: "c < PAGE_OFFSET" for c
    proof -
      have ci: "unat (pde_index c) < 768" "unat (pde_index c) < 1024"
        using c user_index [of c] pde_index_bound by simp_all
      have inj: "?T (pde_index c) = ?T ?i \<longleftrightarrow> pde_index c = ?i"
        using wf ci i False by (auto simp: umm_wf_def)
      have "get_umm_value c (page d) t =
          (if ?T (pde_index c) = 0 then 0 else entry t (?T (pde_index c)) (pte_index c))"
        by (simp add: get_umm_value_entry [OF wf' c] T' ci Let_def)
      also have "\<dots> = (if pde_index c = ?i \<and> pte_index c = ?j then v else get_umm_value c (page d) s)"
        using False inj
        by (simp add: get_umm_value_entry [OF wf c] ent tb pte_index_bound Let_def)
      finally show ?thesis by (simp add: same_user_page)
    qed
    have "umm_same d s t" unfolding umm_same_def using d' by (simp add: rt)
    with wf' get inv T' show ?thesis by (simp add: rt)
  next
    case True
    obtain pte s1 where al: "dmm_alloc_page 1 s = (pte, s1)" by (cases "dmm_alloc_page 1 s")
    from dmm_alloc_page_base [OF inv _ b(3) al]
    have s1: "mm_base s1" "vmm_map s1 = vmm_map s" "vmm_same {} s s1"
      "if pte = NULL then pmm_free s1 = pmm_free s
       else \<exists>k. unat pte = k * 4096 \<and> k + 1 \<le> unat (dmmap_page_count s) \<and>
         {k..<k + 1} \<subseteq> pmm_free s \<and> pmm_free s1 = pmm_free s - {k..<k + 1}"
      by (simp_all split: if_splits)
    have ent1: "entry s1 = entry s" using s1(3) by (intro entry_cong) (simp add: vmm_same_def)
    have pte1: "globl_mmap_pte s1 = globl_mmap_pte s" using s1(3) by (simp add: vmm_same_def fun_eq_iff)
    have same1: "umm_same d s s1" using s1 pte1 by (simp add: umm_same_def ent1 vmm_same_def)
    have def0: "set_umm_value attr v (page d) s = (if pte = NULL then (0, s1) else
      (1, write_entry pte ?j v (write_entry (page d) ?i (set_page pte PAGE_PWU)
        (for_loop 0 PAGE_PTE_INDEX (\<lambda>i s. write_entry pte i 0 s) s1))))"
      using nle True al by (simp add: set_umm_value_def g Let_def)
    show ?thesis
    proof (cases "pte = NULL")
      case True
      then have rt: "r = 0" "t = s1" using r def0 by simp_all
      have "umm_wf d t"
        using s1 True by (intro umm_wf_cong [OF wf]) (simp_all add: rt ent1 vmm_same_def)
      moreover have "page_mem t = page_mem s" using s1(3) by (simp add: rt vmm_same_def)
      moreover have "umm_table t = umm_table s" by (simp add: fun_eq_iff umm_table_def rt ent1)
      ultimately show ?thesis using s1 True same1 \<open>?T ?i = 0\<close> by (simp add: rt)
    next
      case False
      then obtain k where k: "unat pte = k * 4096" "k + 1 \<le> unat (dmmap_page_count s)"
        "k \<in> pmm_free s" "pmm_free s1 = pmm_free s - {k}" using s1(4) by auto
      have kb: "k < 1048576"
        using k(3) inv pmm_inv_bound by (auto simp: mm_base_def pmm_ok_def)
      have pk: "pte = page k" using k(1) page_address [OF kb] by (simp add: word_unat_eq_iff)
      have k0: "0 < k" "k < pmm_total s" using k(3) pmm.free_range [of s] inv by (auto simp: mm_base_def)
      have kd: "k \<noteq> d" using wf k(3) by (auto simp: umm_wf_def)
      have kT: "?T x \<noteq> k" if "unat x < 768" for x using wf k(3) that k0(1) by (auto simp: umm_wf_def)
      define s2 where "s2 = for_loop 0 PAGE_PTE_INDEX (\<lambda>i s. write_entry pte i 0 s) s1"
      have ent2: "entry s2 e x = (if e = k then 0 else entry s e x)"
        if "e < 1048576" "unat x < 1024" for e x
        using fill_loop(2) [where v = "\<lambda>i s. 0" and n = PAGE_PTE_INDEX and k = k and s = s1, OF _ _ kb that] that(2)
        by (simp add: s2_def pk ent1 word_less_nat_alt)
      obtain m where m: "s2 = s1\<lparr>page_mem := m\<rparr>"
        using fill_loop(1) [where v = "\<lambda>i s. 0" and n = PAGE_PTE_INDEX and k = k and s = s1, OF _ _ kb]
        by (auto simp: s2_def pk)
      have F2: "mm_base s2" "vmm_map s2 = vmm_map s" "pmm_free s2 = pmm_free s - {k}"
        "pmm_total s2 = pmm_total s" "dmmap_page_count s2 = dmmap_page_count s"
        "vmmap_page_count s2 = vmmap_page_count s"
        "globl_mmap_pte s2 = globl_mmap_pte s" "kernel_mmap_pde s2 = kernel_mmap_pde s"
        using s1 k(4) pte1
        by (simp_all add: m mm_base_def vmm_wf_def vmm_unmapped_def vmm_same_def)
      have rt: "r = 1" "t = write_entry (page k) ?j v (write_entry (page d) ?i (set_page (page k) PAGE_PWU) s2)"
        using r def0 False by (simp_all add: s2_def pk)
      have ent: "entry t e x = (if e = k then (if x = ?j then v else 0)
          else if e = d \<and> x = ?i then set_page (page k) PAGE_PWU else entry s e x)"
        if "e < 1048576" "unat x < 1024" for e x
        unfolding rt(2) using that kd kb
        by (simp add: entry_write [OF _ _ kb j] entry_write [OF _ _ b(1) i(2)] ent2)
      have T': "umm_table t d x = (if x = ?i then k else ?T x)" if "unat x < 1024" for x
        using ent [OF b(1) that] kd pte_frame_user [OF kb] by (simp add: umm_table_def)
      have d': "entry t d x = entry s d x" if "unat x < 1024" "x \<noteq> ?i" for x
        using ent [OF b(1) that(1)] kd that(2) by simp
      have fr: "pmm_free t = pmm_free s - {k}" by (simp add: rt F2)
      have wf': "umm_wf d t"
        unfolding umm_wf_def
      proof (intro conjI allI impI)
        show "0 < d" "d < unat (dmmap_page_count t)" "d \<notin> pmm_free t" "d < pmm_total t"
          using wf by (simp_all add: umm_wf_def fr) (simp_all add: rt F2)
      next
        fix x :: u32 assume x: "unat x < 768" "umm_table t d x = 0"
        with k0 have "x \<noteq> ?i" "?T x = 0" by (auto simp: T' split: if_splits)
        with x wf d' show "entry t d x = 0" by (simp add: umm_wf_def)
      next
        fix x :: u32 assume x: "unat x < 768" "umm_table t d x \<noteq> 0"
        then have "umm_table t d x = (if x = ?i then k else ?T x)" by (simp add: T')
        with x wf kd k0 show "umm_table t d x \<noteq> d" "umm_table t d x \<notin> pmm_free t" "umm_table t d x < pmm_total t"
          by (auto simp: umm_wf_def fr rt F2 split: if_splits)
      next
        fix x y :: u32
        assume x: "unat x < 768 \<and> unat y < 768 \<and> umm_table t d x \<noteq> 0 \<and> umm_table t d x = umm_table t d y"
        with kT [of x] kT [of y] wf show "x = y"
          by (auto simp: T' umm_wf_def split: if_splits)
      qed
      have get: "get_umm_value c (page d) t =
          (if c div PAGE_SIZE = attr div PAGE_SIZE then v else get_umm_value c (page d) s)"
        if c: "c < PAGE_OFFSET" for c
      proof -
        have ci: "unat (pde_index c) < 768" "unat (pde_index c) < 1024"
          using c user_index [of c] pde_index_bound by simp_all
        have "get_umm_value c (page d) t =
            (if pde_index c = ?i then entry t k (pte_index c)
             else if ?T (pde_index c) = 0 then 0 else entry t (?T (pde_index c)) (pte_index c))"
          using k0 by (simp add: get_umm_value_entry [OF wf' c] T' ci Let_def)
        also have "\<dots> = (if pde_index c = ?i \<and> pte_index c = ?j then v else get_umm_value c (page d) s)"
        proof (cases "pde_index c = ?i")
          case True
          then show ?thesis using \<open>?T ?i = 0\<close>
            by (simp add: get_umm_value_entry [OF wf c] ent [OF kb pte_index_bound])
        next
          case False
          have "?T (pde_index c) \<noteq> 0 \<Longrightarrow> ?T (pde_index c) \<noteq> d" using wf ci by (auto simp: umm_wf_def)
          with False kT [OF ci(1)] show ?thesis
            by (simp add: get_umm_value_entry [OF wf c] ent [OF tb pte_index_bound] Let_def)
        qed
        finally show ?thesis by (simp add: same_user_page)
      qed
      have "umm_same d s t"
      proof -
        have "entry t d x = entry s d x" if "768 \<le> unat x" "unat x < 1024" for x
          using d' [of x] that i(1) by fastforce
        moreover have "vmm_map t = vmm_map s" "globl_mmap_pte t = globl_mmap_pte s"
          "kernel_mmap_pde t = kernel_mmap_pde s" "dmmap_page_count t = dmmap_page_count s"
          "vmmap_page_count t = vmmap_page_count s" "pmm_total t = pmm_total s"
          by (simp_all add: rt(2) F2)
        ultimately show ?thesis by (simp add: umm_same_def)
      qed
      moreover have "mm_base t" by (simp add: rt F2)
      moreover have "umm_table t d x = ?T x" if "unat x < 768" "?T x \<noteq> 0" for x
        using that \<open>?T ?i = 0\<close> by (auto simp: T')
      ultimately show ?thesis using wf' get fr k(3) rt(1) by auto
    qed
  qed
qed

lemma set_umm_value_count [simp]:
  "vmm_free_page_count (snd (set_umm_value a v pde s)) = vmm_free_page_count s"
  "vmm_pos (snd (set_umm_value a v pde s)) = vmm_pos s"
proof -
  have loop: "vmm_free_page_count (for_loop 0 n (\<lambda>i s. write_entry p i 0 s) u) = vmm_free_page_count u"
    "vmm_pos (for_loop 0 n (\<lambda>i s. write_entry p i 0 s) u) = vmm_pos u" for n p and u :: "'a mm_state_scheme"
    by (rule for_loop_preserves, simp)+
  obtain p u where al: "dmm_alloc_page 1 s = (p, u)" by (cases "dmm_alloc_page 1 s")
  have "vmm_free_page_count u = vmm_free_page_count s" "vmm_pos u = vmm_pos s"
    using dmm_alloc_page_count [of 1 s] by (simp_all add: al)
  with al show "vmm_free_page_count (snd (set_umm_value a v pde s)) = vmm_free_page_count s"
    "vmm_pos (snd (set_umm_value a v pde s)) = vmm_pos s" by (auto simp: set_umm_value_def Let_def loop)
qed

lemma set_umm_value_correct:
  assumes inv: "mm_inv s" and wf: "umm_wf d s" and a: "attr < PAGE_OFFSET"
    and r: "set_umm_value attr v (page d) s = (r, t)"
  shows "mm_inv t \<and> umm_wf d t \<and> umm_same d s t \<and>
    (if r = 0 then page_mem t = page_mem s \<and> pmm_free t = pmm_free s
     else r = 1 \<and> (\<forall>b<PAGE_OFFSET. get_umm_value b (page d) t =
         (if b div PAGE_SIZE = attr div PAGE_SIZE then v else get_umm_value b (page d) s)) \<and>
       (pmm_free t = pmm_free s \<or> (\<exists>k\<in>pmm_free s. pmm_free t = pmm_free s - {k})))"
proof -
  have b: "mm_base s" using inv by (simp add: mm_inv_base)
  note B = set_umm_value_base [OF b wf a r]
  have "mm_inv t"
    using B set_umm_value_count [of attr v "page d" s] r
    by (intro mm_inv_from_base [OF inv]) (simp_all add: umm_same_def)
  with B show ?thesis by simp
qed

section \<open>Faults and new address spaces\<close>

lemma mm_pmm_step:
  assumes "mm_inv s" and "pmm_state.more t = pmm_state.more s" and "pmm_ok t" and "pmm_total t = pmm_total s"
  shows "mm_inv t" and "umm_same d s t" and "entry t = entry s"
    and "get_umm_value b pde t = get_umm_value b pde s"
proof -
  note c = mm_more_cong [OF assms(2)]
  show "mm_inv t" by (rule mm_inv_more(1) [OF assms(1-3)])
  show e: "entry t = entry s" using c by (intro entry_cong) simp
  show "umm_same d s t"
    using c assms(4) mm_inv_more(2) [OF assms(1-3)] by (simp add: umm_same_def e)
  show "get_umm_value b pde t = get_umm_value b pde s"
    using c by (simp add: get_umm_value_def read_entry_def)
qed

lemma get_umm_value_cong: "page_mem t = page_mem s \<Longrightarrow> get_umm_value b pde t = get_umm_value b pde s"
  by (simp add: get_umm_value_def read_entry_def)

lemma set_umm_value_kernel: "\<not> attr < PAGE_OFFSET \<Longrightarrow> set_umm_value attr v pde s = (0, s)"
  by (simp add: set_umm_value_def not_less)

lemma umm_handler_correct:
  assumes inv: "mm_inv s" and wf: "umm_wf d s" and r: "umm_handler attr (page d) s = (r, t)"
  shows "mm_inv t \<and> umm_wf d t \<and> umm_same d s t \<and>
    (if r = 0 then (\<forall>b<PAGE_OFFSET. get_umm_value b (page d) t = get_umm_value b (page d) s) \<and>
       pmm_free t = pmm_free s
     else r = 1 \<and> attr < PAGE_OFFSET \<and> (\<exists>f\<in>pmm_free s. f \<notin> pmm_free t \<and> pmm_free t \<subseteq> pmm_free s \<and>
       (\<forall>b<PAGE_OFFSET. get_umm_value b (page d) t =
         (if b div PAGE_SIZE = attr div PAGE_SIZE then set_page (page f) PAGE_PWU
          else get_umm_value b (page d) s))))"
proof -
  obtain phy s1 where al: "pmm_alloc_page s = (phy, s1)" by (cases "pmm_alloc_page s")
  have ok: "pmm_ok s" using inv by (simp add: mm_inv_def)
  note law = pmm_alloc_page_law [OF ok al]
  have more1: "pmm_state.more s1 = pmm_state.more s" using pmm_alloc_page_more [of s] al by simp
  have ok1: "pmm_ok s1" "pmm_total s1 = pmm_total s" using law by auto
  note st1 = mm_pmm_step [OF inv more1 ok1]
  have sub1: "pmm_free s1 \<subseteq> pmm_free s" using law by (auto split: if_splits)
  have wf1: "umm_wf d s1"
    using sub1 ok1 mm_more_cong(5) [OF more1] by (intro umm_wf_cong [OF wf]) (simp_all add: st1)
  show ?thesis
  proof (cases "phy = NULL")
    case True
    then have "r = 0" "t = s1" using r al by (simp_all add: umm_handler_def)
    with True law st1 wf1 show ?thesis by simp
  next
    case False
    then obtain f where f: "f \<in> pmm_free s" "unat phy = f * 4096" "pmm_free s1 = pmm_free s - {f}"
      using law by auto
    have fb: "f < 1048576" using f(1) ok pmm_inv_bound by (auto simp: pmm_ok_def)
    have ph: "phy = page f" using f(2) page_address [OF fb] by (simp add: word_unat_eq_iff)
    have f0: "0 < f" "f < pmm_total s" using f(1) pmm.free_range [OF ok] by auto
    obtain x s2 where set: "set_umm_value attr (set_page phy PAGE_PWU) (page d) s1 = (x, s2)"
      by (cases "set_umm_value attr (set_page phy PAGE_PWU) (page d) s1")
    have rt: "r = (if x = 0 then 0 else 1)" "t = (if x = 0 then pmm_free_page phy 1 s2 else s2)"
      using r al False set by (auto simp: umm_handler_def)
    have S: "mm_inv s2 \<and> umm_wf d s2 \<and> umm_same d s1 s2 \<and>
      (if x = 0 then page_mem s2 = page_mem s1 \<and> pmm_free s2 = pmm_free s1
       else attr < PAGE_OFFSET \<and> (\<forall>b<PAGE_OFFSET. get_umm_value b (page d) s2 =
           (if b div PAGE_SIZE = attr div PAGE_SIZE then set_page phy PAGE_PWU
            else get_umm_value b (page d) s1)) \<and> pmm_free s2 \<subseteq> pmm_free s1)"
    proof (cases "attr < PAGE_OFFSET")
      case True
      from set_umm_value_correct [OF st1(1) wf1 True set] True show ?thesis by (auto split: if_splits)
    next
      case False
      then have "x = 0" "s2 = s1" using set by (simp_all add: set_umm_value_kernel)
      with st1 wf1 show ?thesis by simp
    qed
    show ?thesis
    proof (cases "x = 0")
      case True
      then have t: "t = pmm_free_page (page f) 1 s2" "r = 0" using rt ph by simp_all
      have ok2: "pmm_ok s2" "pmm_total s2 = pmm_total s" "pmm_free s2 = pmm_free s - {f}"
        using S True ok1 f(3) by (auto simp: mm_inv_def umm_same_def)
      have law2: "pmm_ok t" "pmm_free t = pmm_free s"
        using pmm_free_page_law [OF ok2(1) f0(1)] f0(2) f(1) ok2 unfolding t(1) by auto
      have more2: "pmm_state.more t = pmm_state.more s2" by (simp add: t)
      have tot2: "pmm_total t = pmm_total s2" by (simp add: t)
      have inv2: "mm_inv s2" using S by blast
      note st2 = mm_pmm_step [OF inv2 more2 law2(1) tot2]
      have same: "umm_same d s t"
        using S st1(2) st2(2) by (meson umm_same_trans)
      moreover have "umm_wf d t"
      proof (rule umm_wf_cong [OF wf])
        fix i :: u32 assume "unat i < 768"
        have "entry s2 = entry s1" using S True by (intro entry_cong) simp
        then show "entry t d i = entry s d i" by (simp add: st1 st2)
      qed (use law2 same in \<open>simp_all add: umm_same_def\<close>)
      moreover have "get_umm_value b (page d) t = get_umm_value b (page d) s" for b
        using get_umm_value_cong [of s2 s1] S True by (simp add: st1 st2)
      ultimately show ?thesis using st2 law2 t(2) by simp
    next
      case F: False
      then have "t = s2" "r = 1" using rt by simp_all
      with S F st1 f sub1 umm_same_trans [OF st1(2)] ph show ?thesis by auto
    qed
  qed
qed

lemma umm_alloc_pde_correct:
  assumes inv: "mm_inv s" and dm: "1 \<le> dmmap_page_count s"
    and empty: "\<And>i. unat i < 768 \<Longrightarrow> kernel_mmap_pde s i = 0"
    and r: "umm_alloc_pde s = (pde, t)"
  shows "mm_inv t \<and> vmm_map t = vmm_map s \<and>
    (if pde = NULL then pmm_free t = pmm_free s
     else \<exists>k\<in>pmm_free s. pde = page k \<and> pmm_free t = pmm_free s - {k} \<and> umm_wf k t \<and>
       (\<forall>b<PAGE_OFFSET. get_umm_value b pde t = 0) \<and>
       (\<forall>i. 768 \<le> unat i \<and> unat i < 1024 \<longrightarrow> entry t k i = kernel_mmap_pde s i) \<and>
       (\<forall>d. d \<noteq> k \<and> umm_wf d s \<longrightarrow> umm_wf d t))"
proof -
  obtain a s1 where al: "dmm_alloc_page 1 s = (a, s1)" by (cases "dmm_alloc_page 1 s")
  from dmm_alloc_page_correct [OF inv _ dm al]
  have s1: "mm_inv s1" "vmm_map s1 = vmm_map s" "vmm_same {} s s1"
    "if a = NULL then pmm_free s1 = pmm_free s
     else \<exists>k. unat a = k * 4096 \<and> k + 1 \<le> unat (dmmap_page_count s) \<and>
       {k..<k + 1} \<subseteq> pmm_free s \<and> pmm_free s1 = pmm_free s - {k..<k + 1}"
    by (simp_all split: if_splits)
  have ent1: "entry s1 = entry s" using s1(3) by (intro entry_cong) (simp add: vmm_same_def)
  show ?thesis
  proof (cases "a = NULL")
    case True
    then have "pde = NULL" "t = s1" using r al by (simp_all add: umm_alloc_pde_def)
    with s1 True show ?thesis by simp
  next
    case False
    then obtain k where k: "unat a = k * 4096" "k + 1 \<le> unat (dmmap_page_count s)"
      "k \<in> pmm_free s" "pmm_free s1 = pmm_free s - {k}" using s1(4) by auto
    have kb: "k < 1048576" using k(3) inv pmm_inv_bound by (auto simp: mm_inv_def pmm_ok_def)
    have pk: "a = page k" using k(1) page_address [OF kb] by (simp add: word_unat_eq_iff)
    have k0: "0 < k" "k < pmm_total s" using k(3) pmm.free_range [of s] inv by (auto simp: mm_inv_def)
    have rt: "pde = page k" "t = for_loop 0 PAGE_PDE_INDEX (\<lambda>i s. write_entry (page k) i (kernel_mmap_pde s i) s) s1"
      using r al False by (auto simp: umm_alloc_pde_def pk)
    note fill = fill_loop [where v = "\<lambda>i s. kernel_mmap_pde s i" and n = PAGE_PDE_INDEX and s = s1, OF _ _ kb, folded rt(2)]
    have ent: "entry t e x = (if e = k then kernel_mmap_pde s x else entry s e x)"
      if "e < 1048576" "unat x < 1024" for e x
      using fill(2) [OF _ _ that] that(2) s1(3) by (simp add: word_less_nat_alt ent1 vmm_same_def)
    obtain m where m: "t = s1\<lparr>page_mem := m\<rparr>" using fill(1) by auto
    have F: "mm_inv t" "vmm_map t = vmm_map s" "pmm_free t = pmm_free s - {k}"
      "pmm_total t = pmm_total s" "dmmap_page_count t = dmmap_page_count s"
      using s1 k(4) by (simp_all add: m mm_inv_def vmm_wf_def vmm_unmapped_def vmm_same_def)
    have T: "umm_table t k x = 0" "entry t k x = 0" if "unat x < 768" for x
      using that empty ent [OF kb, of x] by (simp_all add: umm_table_def)
    have wfk: "umm_wf k t" using k k0 T unfolding umm_wf_def F by auto
    have "get_umm_value b (page k) t = 0" if "b < PAGE_OFFSET" for b
      using get_umm_value_entry [OF wfk that] T user_index [of b] that by simp
    moreover have "umm_wf d t" if "d \<noteq> k" "umm_wf d s" for d
      using that ent umm_wf_bound(1) [OF inv that(2)] F by (intro umm_wf_cong [OF that(2)]) auto
    moreover have "a \<noteq> NULL" by (rule False)
    ultimately show ?thesis using F wfk k(3) ent [OF kb] rt(1) pk by auto
  qed
qed

section \<open>Tearing an address space down\<close>

text \<open>The frames behind one table's entries.\<close>

definition table_frames :: "'a mm_state_scheme \<Rightarrow> nat \<Rightarrow> nat set" where
  "table_frames s k = {f. f \<noteq> 0 \<and> (\<exists>j. unat j < 1024 \<and> f = pte_frame (entry s k j))}"

text \<open>The process owns its pages: every mapped frame is in use, mapped once, and is neither
  the directory nor a page table.\<close>

definition umm_owned :: "nat \<Rightarrow> 'a mm_state_scheme \<Rightarrow> bool" where
  "umm_owned d s \<longleftrightarrow>
     (\<forall>i. unat i < 768 \<and> umm_table s d i \<noteq> 0 \<longrightarrow>
        (\<forall>f\<in>table_frames s (umm_table s d i). f \<notin> pmm_free s \<and> f < pmm_total s \<and> f \<noteq> d \<and>
           (\<forall>j. unat j < 768 \<longrightarrow> f \<noteq> umm_table s d j)) \<and>
        (\<forall>j k. unat j < 1024 \<and> unat k < 1024 \<and> pte_frame (entry s (umm_table s d i) j) \<noteq> 0 \<and>
           pte_frame (entry s (umm_table s d i) j) = pte_frame (entry s (umm_table s d i) k) \<longrightarrow> j = k) \<and>
        (\<forall>j. unat j < 768 \<and> umm_table s d j \<noteq> 0 \<and> i \<noteq> j \<longrightarrow>
           table_frames s (umm_table s d i) \<inter> table_frames s (umm_table s d j) = {}))"

definition umm_frames :: "nat \<Rightarrow> 'a mm_state_scheme \<Rightarrow> nat set" where
  "umm_frames d s = {d} \<union> (\<Union>i\<in>{i. unat i < 768 \<and> umm_table s d i \<noteq> 0}.
     insert (umm_table s d i) (table_frames s (umm_table s d i)))"

lemma pmm_release_step:
  assumes "pmm_ok u" and "0 < f" and "f < pmm_total u" and "f \<notin> pmm_free u"
  shows "pmm_ok (pmm_free_page (page f) 1 u)" "pmm_total (pmm_free_page (page f) 1 u) = pmm_total u"
    "pmm_free (pmm_free_page (page f) 1 u) = insert f (pmm_free u)"
    "pmm_state.more (pmm_free_page (page f) 1 u) = pmm_state.more u"
    "page_mem (pmm_free_page (page f) 1 u) = page_mem u"
proof -
  note law = pmm_free_page_law [OF assms]
  show "pmm_ok (pmm_free_page (page f) 1 u)" by (rule conjunct1 [OF law])
  show "pmm_free (pmm_free_page (page f) 1 u) = insert f (pmm_free u)" by (rule conjunct2 [OF law])
qed (rule pmm_total_free_page pmm_free_page_more pmm_free_page_mm(9))+

text \<open>The state of a loop that only gives frames back: \<open>F\<close> have been released so far.\<close>

definition released :: "nat set \<Rightarrow> 'a mm_state_scheme \<Rightarrow> 'a mm_state_scheme \<Rightarrow> bool" where
  "released F s t \<longleftrightarrow> pmm_ok t \<and> pmm_total t = pmm_total s \<and> pmm_state.more t = pmm_state.more s \<and>
     pmm_free t = pmm_free s \<union> F"

lemma released_entry:
  assumes "released F s t"
  shows "entry t = entry s"
proof (intro entry_cong mm_more_cong(9))
  show "pmm_state.more t = pmm_state.more s" using assms by (simp add: released_def)
qed

lemma released_trans:
  assumes "released F s t" and "released G t u"
  shows "released (F \<union> G) s u"
  using assms unfolding released_def by (metis Un_assoc)

lemma released_step:
  assumes "released F s t" and "0 < f" and "f < pmm_total s" and "f \<notin> pmm_free s \<union> F"
  shows "released (insert f F) s (pmm_free_page (page f) 1 t)"
proof -
  have "pmm_ok t" "f < pmm_total t" "f \<notin> pmm_free t" using assms by (simp_all add: released_def)
  from pmm_release_step [OF this(1) assms(2) this(2,3)] assms(1) show ?thesis
    by (simp add: released_def)
qed

lemma umm_free_table_released:
  assumes ok: "pmm_ok s" and k: "k < 1048576"
    and own: "\<forall>f\<in>table_frames s k. f \<notin> pmm_free s \<and> f < pmm_total s"
    and inj: "\<forall>i j. unat i < 1024 \<and> unat j < 1024 \<and> pte_frame (entry s k i) \<noteq> 0 \<and>
      pte_frame (entry s k i) = pte_frame (entry s k j) \<longrightarrow> i = j"
  shows "released (table_frames s k) s (umm_free_table (page k) s)"
proof -
  let ?F = "\<lambda>n. {f. f \<noteq> 0 \<and> (\<exists>j. unat j < n \<and> f = pte_frame (entry s k j))}"
  let ?P = "\<lambda>n t. released (?F n) s t"
  have "?P (unat PAGE_PTE_INDEX) (umm_free_table (page k) s)"
    unfolding umm_free_table_def
  proof (rule for_loop_invariant [where P = ?P])
    show "?P (unat (0 :: u32)) s" using ok by (simp add: released_def)
  next
    fix n :: u32 and t :: "'a mm_state_scheme"
    assume n: "n < PAGE_PTE_INDEX" and P: "?P (unat n) t"
    then have nb: "unat n < 1024" by (simp add: word_less_nat_alt)
    let ?f = "pte_frame (entry s k n)"
    have rd: "read_entry (page k) n t = entry s k n"
      using released_entry [OF P] by (simp add: entry_def fun_eq_iff)
    have F: "?F (Suc (unat n)) = (if ?f = 0 then ?F (unat n) else insert ?f (?F (unat n)))"
      by (auto simp: unat_less_Suc_word)
    show "?P (Suc (unat n)) (if get_page_attr (read_entry (page k) n t) \<noteq> 0
        then pmm_free_page (get_page_attr (read_entry (page k) n t)) 1 t else t)"
    proof (cases "?f = 0")
      case True
      with P show ?thesis unfolding F rd get_page_attr_eq_0 by simp
    next
      case False
      then have mem: "?f \<in> table_frames s k" using nb by (auto simp: table_frames_def)
      have "?f \<notin> ?F (unat n)"
      proof
        assume "?f \<in> ?F (unat n)"
        then obtain j where "unat j < unat n" "?f = pte_frame (entry s k j)" by blast
        with inj nb False have "n = j" by (meson less_trans)
        with \<open>unat j < unat n\<close> show False by simp
      qed
      with released_step [OF P] mem own False
      have "released (insert ?f (?F (unat n))) s (pmm_free_page (page ?f) 1 t)" by blast
      moreover have c: "get_page_attr (entry s k n) \<noteq> 0" using False unfolding get_page_attr_eq_0 .
      ultimately show ?thesis
        unfolding F rd if_not_P [OF False]
        by (subst if_P [OF c]) (simp only: get_page_attr_page [of "entry s k n"])
    qed
  qed simp
  then show ?thesis by (simp add: table_frames_def)
qed

lemma umm_free_correct:
  assumes inv: "mm_inv s" and wf: "umm_wf d s" and own: "umm_owned d s"
  shows "mm_inv (umm_free (page d) s) \<and> vmm_map (umm_free (page d) s) = vmm_map s \<and>
    pmm_free (umm_free (page d) s) = pmm_free s \<union> umm_frames d s \<and>
    umm_frames d s \<inter> pmm_free s = {}"
proof -
  let ?T = "umm_table s d"
  let ?U = "\<lambda>n. \<Union>i\<in>{i. unat i < n \<and> ?T i \<noteq> 0}. insert (?T i) (table_frames s (?T i))"
  let ?P = "\<lambda>n t. released (?U n) s t"
  let ?b = "\<lambda>m s. if get_page_attr (read_entry (page d) m s) \<noteq> 0
    then (let pte = get_page_attr (read_entry (page d) m s) in dmm_free_page pte 1 (umm_free_table pte s)) else s"
  have ok: "pmm_ok s" using inv by (simp add: mm_inv_def)
  note b = umm_wf_bound [OF inv wf]
  have p768: "pde_index PAGE_OFFSET = 768" by code_simp
  have T: "?T i \<noteq> d" "?T i \<notin> pmm_free s" "?T i < pmm_total s"
    if "unat i < 768" "?T i \<noteq> 0" for i using wf that by (auto simp: umm_wf_def)
  have Tinj: "?T i = ?T j \<longleftrightarrow> i = j" if "unat i < 768" "unat j < 768" "?T i \<noteq> 0" for i j
    using wf that by (auto simp: umm_wf_def)
  have O: "f \<notin> pmm_free s" "f < pmm_total s" "f \<noteq> d" "unat j < 768 \<Longrightarrow> f \<noteq> ?T j"
    if "unat i < 768" "?T i \<noteq> 0" "f \<in> table_frames s (?T i)" for i f j
    using own that unfolding umm_owned_def by blast+
  have tf0: "0 \<notin> table_frames s k" for k by (simp add: table_frames_def)
  have loop: "?P (unat (768 :: u32)) (for_loop 0 768 ?b s)"
  proof (rule for_loop_invariant [where P = ?P])
    show "?P (unat (0 :: u32)) s" using ok by (simp add: released_def)
  next
    fix m :: u32 and t :: "'a mm_state_scheme"
    assume m: "m < 768" and P: "?P (unat m) t"
    then have mb: "unat m < 768" by (simp add: word_less_nat_alt)
    have ent: "entry t = entry s" by (rule released_entry [OF P])
    then have rd: "get_page_attr (read_entry (page d) m t) = page (?T m)"
      by (simp add: umm_table_def entry_def get_page_attr_page fun_eq_iff)
    have Tb: "?T m < 1048576" by (simp add: umm_table_def pte_frame_bound)
    have U: "?U (Suc (unat m)) = (if ?T m = 0 then ?U (unat m)
        else ?U (unat m) \<union> table_frames s (?T m) \<union> {?T m})"
      by (auto simp: unat_less_Suc_word)
    show "?P (Suc (unat m)) (?b m t)"
    proof (cases "?T m = 0")
      case True
      with P show ?thesis unfolding U rd page_eq_0 [OF Tb] by simp
    next
      case False
      have tfe: "table_frames t k = table_frames s k" for k by (simp add: table_frames_def ent)
      have new: "f \<notin> pmm_free t" if "f \<in> insert (?T m) (table_frames s (?T m))" for f
      proof
        assume "f \<in> pmm_free t"
        with P consider "f \<in> pmm_free s"
          | i where "unat i < unat m" "?T i \<noteq> 0" "f \<in> insert (?T i) (table_frames s (?T i))"
          by (auto simp: released_def)
        then show False
        proof cases
          case 1
          with that T(2) [OF mb False] O(1) [OF mb False] show False by blast
        next
          case 2
          then have i: "unat i < 768" "i \<noteq> m" using mb by auto
          have "table_frames s (?T i) \<inter> table_frames s (?T m) = {}"
            using own i mb 2(2) False unfolding umm_owned_def by blast
          moreover have "?T i \<noteq> ?T m" using Tinj [OF i(1) mb 2(2)] i(2) by blast
          moreover have "?T m \<notin> table_frames s (?T i)" using O(4) [OF i(1) 2(2) _ mb] by blast
          moreover have "?T i \<notin> table_frames s (?T m)" using O(4) [OF mb False _ i(1)] by blast
          ultimately show False using that 2(3) by fastforce
        qed
      qed
      have okt: "pmm_ok t" "pmm_total t = pmm_total s" using P by (simp_all add: released_def)
      have R1: "released (table_frames s (?T m)) t (umm_free_table (page (?T m)) t)"
      proof -
        have "\<forall>f\<in>table_frames t (?T m). f \<notin> pmm_free t \<and> f < pmm_total t"
          using new O(2) [OF mb False] okt(2) by (auto simp: tfe)
        moreover have "\<forall>i j. unat i < 1024 \<and> unat j < 1024 \<and> pte_frame (entry t (?T m) i) \<noteq> 0 \<and>
            pte_frame (entry t (?T m) i) = pte_frame (entry t (?T m) j) \<longrightarrow> i = j"
          using own mb False unfolding umm_owned_def ent by blast
        ultimately show ?thesis using umm_free_table_released [OF okt(1) Tb] by (simp add: tfe)
      qed
      have "released (insert (?T m) (table_frames s (?T m))) t
          (pmm_free_page (page (?T m)) 1 (umm_free_table (page (?T m)) t))"
      proof (rule released_step [OF R1])
        show "?T m \<notin> pmm_free t \<union> table_frames s (?T m)"
          using new O(4) [OF mb False _ mb] by blast
      qed (use False T(3) [OF mb False] okt in simp_all)
      from released_trans [OF P this] have "released (?U (Suc (unat m))) s
          (pmm_free_page (page (?T m)) 1 (umm_free_table (page (?T m)) t))"
        unfolding U using False by (simp add: Un_commute insert_commute)
      with False show ?thesis unfolding rd page_eq_0 [OF Tb] by (simp add: dmm_free_page_def Let_def rd)
    qed
  qed simp
  let ?t = "for_loop 0 768 ?b s"
  have res: "umm_free (page d) s = pmm_free_page (page d) 1 ?t"
    by (simp add: umm_free_def dmm_free_page_def p768)
  have nd: "d \<notin> pmm_free s \<union> ?U 768" using wf T(1) O(3) by (fastforce simp: umm_wf_def)
  have "released (insert d (?U 768)) s (pmm_free_page (page d) 1 ?t)"
    using loop nd wf by (intro released_step) (simp_all add: umm_wf_def)
  moreover have "insert d (?U 768) = umm_frames d s" by (simp add: umm_frames_def)
  ultimately have R: "released (umm_frames d s) s (umm_free (page d) s)" by (simp add: res)
  then have "mm_inv (umm_free (page d) s)" "vmm_map (umm_free (page d) s) = vmm_map s"
    using mm_inv_more [OF inv] by (simp_all add: released_def)
  moreover have "umm_frames d s \<inter> pmm_free s = {}"
    using wf T(2) O(1) by (auto simp: umm_frames_def umm_wf_def)
  ultimately show ?thesis using R by (simp add: released_def)
qed

section \<open>Memory above the direct map\<close>

text \<open>
  \<open>vmm_mmap_pde_page\<close> passes the physical address it got from \<open>pmm_alloc_page\<close> through
  \<open>get_globl_phy_attr\<close>, which expects a kernel address.  For a frame above the direct map
  that reads the entry of an unrelated dynamic page.
\<close>

lemma vmm_pde_frame_high_correct:
  assumes inv: "mm_inv s" and wf: "umm_wf d s" and a: "attr < PAGE_OFFSET"
    and none: "pte_frame (get_umm_value attr (page d) s) = 0"
    and al: "pmm_alloc_page s = (page f, s1)" and f: "0 < f" "f < 1048576"
      "unat (dmmap_page_count s) \<le> f" "f < unat (dmmap_page_count s) + unat (vmmap_page_count s)"
    and free: "vmm_map s (f - unat (dmmap_page_count s)) = None"
    and r: "vmm_pde_frame attr (page d) s = (phy, t)"
  shows "phy = page f \<and> pte_frame (get_umm_value attr (page d) t) = 0"
proof -
  have ok: "pmm_ok s" using inv by (simp add: mm_inv_def)
  note law = pmm_alloc_page_law [OF ok al]
  have more1: "pmm_state.more s1 = pmm_state.more s" using pmm_alloc_page_more [of s] al by simp
  have ok1: "pmm_ok s1" "pmm_total s1 = pmm_total s" using law by auto
  note st1 = mm_pmm_step [OF inv more1 ok1]
  note c = mm_more_cong [OF more1]
  have sub1: "pmm_free s1 \<subseteq> pmm_free s" using law by (auto split: if_splits)
  have wf1: "umm_wf d s1"
    using sub1 ok1 c(5) by (intro umm_wf_cong [OF wf]) (simp_all add: st1)
  have f0: "page f \<noteq> NULL" using f(1) unfolding page_eq_0 [OF f(2)] by simp
  define p where "p = (of_nat (f - unat (dmmap_page_count s)) :: u32)"
  have up: "unat p = f - unat (dmmap_page_count s)" using f(2) by (simp add: p_def unat_of_nat_u32)
  have wfs: "vmm_wf s" using inv by (simp add: mm_inv_def)
  have pv: "unat p < unat (vmmap_page_count s)" using f(3,4) up by linarith
  have "unat (dmmap_page_count s + p) = f" using vmm_index(1) [OF wfs pv] up f(3) by simp
  then have idx: "dmmap_page_count s + p = of_nat f" using f(2)
    by (simp add: word_unat_eq_iff unat_of_nat_u32)
  have zero: "pte_frame (globl_mmap_pte s (of_nat f)) = 0"
    using free pv unfolding idx [symmetric]
    by (simp add: vmm_map_def Let_def vmm_frame_def pte_frame_def up [symmetric] split: if_splits)
  have dv: "page f div PAGE_SIZE = of_nat f" by (rule page_address_div [OF f(2)])
  have md: "page f mod PAGE_SIZE = 0" using page_address [OF f(2)] by (simp add: word_unat_eq_iff)
  have g: "get_globl_phy_attr (page f) s1 = 0"
    unfolding get_globl_phy_attr_def dv md get_globl_page_attr_def c(1) get_page_attr_page zero by simp
  have "get_page_attr (get_umm_value attr (page d) s) = NULL"
    unfolding get_page_attr_page none by simp
  then have rt: "phy = page f" "t = snd (set_umm_value attr (set_page 0 PAGE_PWU) (page d) s1)"
    using r al f0 g by (auto simp: vmm_pde_frame_def Let_def)
  obtain x u where set: "set_umm_value attr (set_page 0 PAGE_PWU) (page d) s1 = (x, u)"
    by (cases "set_umm_value attr (set_page 0 PAGE_PWU) (page d) s1")
  have p0: "pte_frame (set_page 0 PAGE_PWU) = 0" by (subst pte_frame_set_page) simp_all
  have "pte_frame (get_umm_value attr (page d) u) = 0"
    using set_umm_value_correct [OF st1(1) wf1 a set] a none p0 get_umm_value_cong [of u s1]
    by (auto simp: st1 split: if_splits)
  with rt set show ?thesis by simp
qed

section \<open>Sample address spaces\<close>

text \<open>An empty directory in frame 1; the same with one empty page table in frame 2; and one
  on a machine whose last frames lie above the direct map.\<close>

definition umm_sample_table :: mm_state where
  "umm_sample_table = mm_sample\<lparr>page_mem := (\<lambda>_. 0)(0x1000 := 0x2007)\<rparr>"

definition umm_sample_high :: mm_state where
  "umm_sample_high = mm_sample\<lparr>dmmap_page_count := 8, globl_mmap_pte := (\<lambda>g. if g < 8
     then set_page (push_bit 12 g) (PAGE_PRESENT OR PAGE_WRITE) else 0)\<rparr>"

lemma umm_sample_wf: "umm_wf 1 mm_sample" "1 \<le> dmmap_page_count mm_sample"
proof -
  have e: "entry mm_sample k i = 0" for k i by (simp add: entry_def read_entry_def mm_sample_def)
  have "dmmap_page_count mm_sample = 16" by (simp add: mm_sample_def)
  then show "umm_wf 1 mm_sample" "1 \<le> dmmap_page_count mm_sample"
    by (simp_all add: umm_wf_def umm_table_def e mm_sample_pmm)
qed

lemma umm_sample_table_frames:
  "mm_inv umm_sample_table" "umm_wf 1 umm_sample_table" "umm_owned 1 umm_sample_table"
  "umm_frames 1 umm_sample_table = {1, 2}" "pmm_free umm_sample_table = {3..<16}"
proof -
  let ?s = umm_sample_table
  have F: "pmm_free ?s = {3..<16}" "pmm_total ?s = 16" "dmmap_page_count ?s = 16"
    using mm_sample_pmm by (simp_all add: umm_sample_table_def) (simp add: mm_sample_def)
  then show "pmm_free ?s = {3..<16}" by simp
  show "mm_inv ?s" using mm_sample_inv
    by (simp add: umm_sample_table_def mm_inv_def vmm_wf_def vmm_unmapped_def)
  have "page 1 + 4 * 0 = (0x1000 :: u32)" by simp
  then have e: "entry ?s k i = (if k = 1 \<and> i = 0 then 0x2007 else 0)"
    if "k < 1048576" "unat i < 1024" for k i
    using cell_inj [OF that, of 1 0]
    by (simp add: entry_def read_entry_def umm_sample_table_def mm_sample_def)
  have T: "umm_table ?s 1 i = (if i = 0 then 2 else 0)" if "unat i < 768" for i
    using e [of 1 i] that by (simp add: umm_table_def pte_frame_def)
  have tf: "table_frames ?s 2 = {}" using e [of 2] by (auto simp: table_frames_def)
  show "umm_wf 1 ?s" using T e [of 1] F by (auto simp: umm_wf_def split: if_splits)
  have e2: "pte_frame (entry ?s 2 j) = 0" if "unat j < 1024" for j using e [of 2 j] that by simp
  show "umm_owned 1 ?s"
    unfolding umm_owned_def using T e2 by (auto simp: tf split: if_splits)
  have "{i :: u32. unat i < 768 \<and> umm_table ?s 1 i \<noteq> 0} = {0}" using T by (auto split: if_splits)
  then show "umm_frames 1 ?s = {1, 2}" using T [of 0] by (simp add: umm_frames_def tf insert_commute)
qed

lemma umm_sample_high_wf:
  "mm_inv umm_sample_high" "umm_wf 1 umm_sample_high" "vmm_map umm_sample_high = Map.empty"
  "fst (pmm_alloc_page umm_sample_high) = page 15"
proof -
  let ?s = umm_sample_high
  have F: "pmm_free ?s = {3..<16}" "pmm_total ?s = 16" "pmm_ok ?s" "dmmap_page_count ?s = 8"
    "vmmap_page_count ?s = 16" "vmm_free_page_count ?s = 16" "vmm_pos ?s = 15"
    using mm_sample_pmm by (simp_all add: umm_sample_high_def) (simp_all add: mm_sample_def)
  show m: "vmm_map ?s = Map.empty"
  proof
    fix i
    show "vmm_map ?s i = None"
    proof (cases "i < 16")
      case True
      then have "unat (8 + of_nat i :: u32) = 8 + i"
        by (subst unat_add32) (simp_all add: unat_of_nat_u32)
      then have "\<not> (8 + of_nat i :: u32) < 8" by (simp add: word_less_nat_alt)
      then show ?thesis by (simp add: vmm_map_def vmm_frame_def umm_sample_high_def)
    next
      case False
      then show ?thesis using F by (simp add: vmm_map_outside)
    qed
  qed
  have "vmm_unmapped ?s = {..<16}" using F by (auto simp: vmm_unmapped_def m)
  then show "mm_inv ?s" using F by (simp add: mm_inv_def vmm_wf_def)
  have e: "entry ?s k i = 0" for k i
    by (simp add: entry_def read_entry_def umm_sample_high_def mm_sample_def)
  show "umm_wf 1 ?s" using F by (simp add: umm_wf_def umm_table_def e)
  have "pmm_inv ?s" using F(3) by (simp add: pmm_ok_def)
  moreover have "Max {3..<16::nat} = 15" by (intro Max_eqI) auto
  moreover have "\<exists>f\<in>{3..<16}. unat (pmm_head_pos ?s) < f"
    by (rule bexI [of _ 15]) (simp_all add: umm_sample_high_def mm_sample_def)
  ultimately have "unat (fst (pmm_alloc_page ?s)) = 15 * 4096"
    using pmm_alloc_page_correct [of ?s "fst (pmm_alloc_page ?s)" "snd (pmm_alloc_page ?s)"] F(1) by auto
  then show "fst (pmm_alloc_page ?s) = page 15" using page_address [of 15] by (simp add: word_unat_eq_iff)
qed

section \<open>What a fault does to the tables\<close>

text \<open>The value \<open>v\<close> is entered for the page of \<open>attr\<close>: in the table that is there, or in a new one, empty but for it,
  in one of the frames \<open>F\<close>.  No entry of any other frame changes.\<close>

definition umm_entered ::
    "nat set \<Rightarrow> nat \<Rightarrow> u32 \<Rightarrow> u32 \<Rightarrow> 'a mm_state_scheme \<Rightarrow> 'a mm_state_scheme \<Rightarrow> bool" where
  "umm_entered F d attr v s t \<longleftrightarrow>
     (let i = pde_index attr; j = pte_index attr; k = umm_table s d i in
      if k \<noteq> 0
      then pmm_free t = F \<and>
        (\<forall>e x. e < 1048576 \<and> unat x < 1024 \<longrightarrow> entry t e x = (if e = k \<and> x = j then v else entry s e x))
      else \<exists>k\<in>F. pmm_free t = F - {k} \<and>
        (\<forall>e x. e < 1048576 \<and> unat x < 1024 \<longrightarrow> entry t e x =
          (if e = k then (if x = j then v else 0)
           else if e = d \<and> x = i then set_page (page k) PAGE_PWU else entry s e x)))"

lemma set_umm_value_entered:
  assumes inv: "mm_base s" and wf: "umm_wf d s" and r: "set_umm_value attr v (page d) s = (r, t)" "r \<noteq> 0"
  shows "umm_entered (pmm_free s) d attr v s t"
proof -
  let ?i = "pde_index attr" and ?j = "pte_index attr"
  let ?k = "umm_table s d ?i"
  note b = umm_base_bound [OF inv wf]
  have a: "attr < PAGE_OFFSET" using r set_umm_value_kernel [of attr v "page d" s] by auto
  then have nle: "\<not> attr \<ge> PAGE_OFFSET" by simp
  have i: "unat ?i < 768" "unat ?i < 1024" using a user_index [of attr] pde_index_bound by simp_all
  note j = pte_index_bound [of attr]
  have tb: "?k < 1048576" by (simp add: umm_table_def pte_frame_bound)
  have g: "get_page_attr (read_entry (page d) ?i s) = page ?k"
    unfolding umm_table_def entry_def by (rule get_page_attr_page)
  have g0: "page ?k = 0 \<longleftrightarrow> ?k = 0" by (rule page_eq_0 [OF tb])
  show ?thesis
  proof (cases "?k = 0")
    case False
    then have t: "t = write_entry (page ?k) ?j v s"
      using r nle False by (auto simp: set_umm_value_def g g0 Let_def)
    then show ?thesis using False entry_write [OF _ _ tb j, of _ _ v s] by (simp add: umm_entered_def Let_def)
  next
    case True
    obtain pte s1 where al: "dmm_alloc_page 1 s = (pte, s1)" by (cases "dmm_alloc_page 1 s")
    have nn: "pte \<noteq> NULL" and t: "t = write_entry pte ?j v (write_entry (page d) ?i (set_page pte PAGE_PWU)
        (for_loop 0 PAGE_PTE_INDEX (\<lambda>i s. write_entry pte i 0 s) s1))"
      using r nle True al by (auto simp: set_umm_value_def g Let_def split: if_splits)
    from dmm_alloc_page_base [OF inv _ b(3) al] nn obtain k where k: "unat pte = k * 4096" "k \<in> pmm_free s"
      "pmm_free s1 = pmm_free s - {k}" and same: "vmm_same {} s s1" by auto
    have ent1: "entry s1 = entry s" using same by (intro entry_cong) (simp add: vmm_same_def)
    have kb: "k < 1048576" using k(2) inv pmm_inv_bound by (auto simp: mm_base_def pmm_ok_def)
    have pk: "pte = page k" using k(1) page_address [OF kb] by (simp add: word_unat_eq_iff)
    have kd: "k \<noteq> d" using wf k(2) by (auto simp: umm_wf_def)
    note fill = fill_loop [where v = "\<lambda>i s. 0" and n = PAGE_PTE_INDEX and s = s1, OF _ _ kb]
    define s2 where "s2 = for_loop 0 PAGE_PTE_INDEX (\<lambda>i s. write_entry (page k) i 0 s) s1"
    have ent2: "entry s2 e x = (if e = k then 0 else entry s e x)" if "e < 1048576" "unat x < 1024" for e x
      using fill(2) [OF _ _ that] that(2) by (simp add: s2_def ent1 word_less_nat_alt)
    obtain m where "s2 = s1\<lparr>page_mem := m\<rparr>"
      using fill_loop(1) [where v = "\<lambda>i s. 0" and n = PAGE_PTE_INDEX and k = k and s = s1, OF _ _ kb]
      by (auto simp: s2_def)
    then have free: "pmm_free s2 = pmm_free s - {k}" by (simp add: k(3))
    have "entry t e x = (if e = k then (if x = ?j then v else 0)
        else if e = d \<and> x = ?i then set_page (page k) PAGE_PWU else entry s e x)"
      if "e < 1048576" "unat x < 1024" for e x
      unfolding t pk s2_def [symmetric] using that kd kb
      by (simp add: entry_write [OF _ _ kb j] entry_write [OF _ _ b(1) i(2)] ent2)
    moreover have "pmm_free t = pmm_free s - {k}" unfolding t pk s2_def [symmetric] by (simp add: free)
    ultimately show ?thesis using True k(2) unfolding umm_entered_def Let_def by auto
  qed
qed

text \<open>The handler's effect, with the frame \<open>f\<close> for the page.\<close>

lemma umm_handler_entered:
  assumes inv: "mm_inv s" and wf: "umm_wf d s" and r: "umm_handler attr (page d) s = (r, t)" "r \<noteq> 0"
  shows "\<exists>f\<in>pmm_free s. umm_entered (pmm_free s - {f}) d attr (set_page (page f) PAGE_PWU) s t \<and>
    (\<forall>b<PAGE_OFFSET. get_umm_value b (page d) t =
       (if b div PAGE_SIZE = attr div PAGE_SIZE then set_page (page f) PAGE_PWU else get_umm_value b (page d) s))"
proof -
  obtain phy s1 where al: "pmm_alloc_page s = (phy, s1)" by (cases "pmm_alloc_page s")
  have ok: "pmm_ok s" using inv by (simp add: mm_inv_def)
  note law = pmm_alloc_page_law [OF ok al]
  have nn: "phy \<noteq> NULL" and set: "set_umm_value attr (set_page phy PAGE_PWU) (page d) s1 = (1, t)"
    using r al umm_handler_correct [OF inv wf r(1)]
    by (auto simp: umm_handler_def set_umm_value_def Let_def split: if_splits prod.splits)
  have more1: "pmm_state.more s1 = pmm_state.more s" using pmm_alloc_page_more [of s] al by simp
  obtain f where f: "f \<in> pmm_free s" "unat phy = f * 4096" "pmm_free s1 = pmm_free s - {f}" "pmm_ok s1"
    "pmm_total s1 = pmm_total s" using law nn by auto
  have fb: "f < 1048576" using f(1) ok pmm_inv_bound by (auto simp: pmm_ok_def)
  have ph: "phy = page f" using f(2) page_address [OF fb] by (simp add: word_unat_eq_iff)
  note st = mm_pmm_step [OF inv more1 f(4,5)]
  have wf1: "umm_wf d s1"
    using f mm_more_cong(5) [OF more1] by (intro umm_wf_cong [OF wf]) (auto simp: st)
  have a: "attr < PAGE_OFFSET"
  proof (rule ccontr)
    assume "\<not> attr < PAGE_OFFSET"
    from set_umm_value_kernel [OF this] have "set_umm_value attr (set_page phy PAGE_PWU) (page d) s1 = (0, s1)" .
    with set show False by simp
  qed
  have "umm_entered (pmm_free s1) d attr (set_page phy PAGE_PWU) s1 t"
    using set_umm_value_entered [OF _ wf1 set] st(1) by (simp add: mm_inv_base)
  moreover have "umm_table s1 = umm_table s" by (simp add: fun_eq_iff umm_table_def st(3))
  ultimately have "umm_entered (pmm_free s - {f}) d attr (set_page (page f) PAGE_PWU) s t"
    unfolding umm_entered_def by (simp only: st(3) f(3) ph)
  with f(1) set_umm_value_correct [OF st(1) wf1 a set] show ?thesis by (auto simp: st ph)
qed

text \<open>The address space goes on owning its frames, the new ones among them.\<close>

lemma umm_entered_tables:
  assumes wf: "umm_wf d s" and b: "mm_base s" and f: "f \<in> pmm_free s" and a: "attr < PAGE_OFFSET"
    and e: "umm_entered (pmm_free s - {f}) d attr (set_page (page f) PAGE_PWU) s t"
  defines "i \<equiv> pde_index attr" and "j \<equiv> pte_index attr"
  shows "\<exists>k. (\<forall>x. unat x < 768 \<longrightarrow> umm_table t d x = (if x = i then k else umm_table s d x)) \<and>
    (\<forall>e x. e < 1048576 \<and> e \<noteq> d \<and> unat x < 1024 \<longrightarrow> pte_frame (entry t e x) =
      (if e = k then (if x = j then f else if umm_table s d i = 0 then 0 else pte_frame (entry s e x))
       else pte_frame (entry s e x))) \<and>
    pmm_free t \<subseteq> pmm_free s - {f} \<and> k \<noteq> d \<and> k \<noteq> f \<and> 0 < k \<and> k < 1048576 \<and>
    (umm_table s d i \<noteq> 0 \<and> k = umm_table s d i \<or> umm_table s d i = 0 \<and> k \<in> pmm_free s)"
proof -
  have i: "unat i < 768" "unat i < 1024" using a user_index [of attr] pde_index_bound by (simp_all add: i_def)
  have j: "unat j < 1024" by (simp add: j_def pte_index_bound)
  have lim: "k < 1048576" "0 < k" if "k \<in> pmm_free s" for k
    using b that pmm_inv_bound pmm.free_range [of s] by (auto simp: mm_base_def pmm_ok_def)
  have d: "d < 1048576" "d \<notin> pmm_free s" using umm_base_bound [OF b wf] wf by (simp_all add: umm_wf_def)
  have pf: "pte_frame (set_page (page k) PAGE_PWU) = k" if "k < 1048576" for k by (rule pte_frame_user [OF that])
  define v where "v = set_page (page f) PAGE_PWU"
  have v: "pte_frame v = f" unfolding v_def by (rule pf [OF lim(1) [OF f]])
  note e = e [folded v_def]
  show ?thesis
  proof (cases "umm_table s d i = 0")
    case False
    let ?k = "umm_table s d i"
    have k: "?k \<noteq> d" "?k \<notin> pmm_free s" using wf i False by (auto simp: umm_wf_def)
    have kb: "?k < 1048576" by (simp add: umm_table_def pte_frame_bound)
    have E: "pmm_free t = pmm_free s - {f}"
      "\<And>e x. e < 1048576 \<Longrightarrow> unat x < 1024 \<Longrightarrow> entry t e x =
        (if e = ?k \<and> x = j then v else entry s e x)"
      using e False unfolding umm_entered_def Let_def i_def j_def by simp_all
    have "umm_table t d x = (if x = i then ?k else umm_table s d x)" if "unat x < 768" for x
      using E(2) [OF d(1), of x] k that by (simp add: umm_table_def)
    then show ?thesis
      using False k kb f E(1) by (intro exI [of _ ?k]) (auto simp: E(2) v)
  next
    case True
    from e True obtain k where k: "k \<in> pmm_free s" "k \<noteq> f" "pmm_free t = pmm_free s - {f} - {k}"
      and E: "\<And>e x. e < 1048576 \<Longrightarrow> unat x < 1024 \<Longrightarrow> entry t e x =
        (if e = k then (if x = j then v else 0)
         else if e = d \<and> x = i then set_page (page k) PAGE_PWU else entry s e x)"
      unfolding umm_entered_def Let_def i_def j_def by auto
    have kd: "k \<noteq> d" using k d by auto
    have "umm_table t d x = (if x = i then k else umm_table s d x)" if "unat x < 768" for x
      using E [OF d(1), of x] kd that pf [OF lim(1) [OF k(1)]] by (auto simp: umm_table_def)
    then show ?thesis
      using True k kd lim [OF k(1)] by (intro exI [of _ k]) (auto simp: E v)
  qed
qed

lemma umm_entered_owned:
  assumes wf: "umm_wf d s" and b: "mm_base s" and f: "f \<in> pmm_free s" and a: "attr < PAGE_OFFSET"
    and e: "umm_entered (pmm_free s - {f}) d attr (set_page (page f) PAGE_PWU) s t"
    and own: "umm_owned d s" and tot: "pmm_total t = pmm_total s"
  shows "umm_owned d t"
proof -
  let ?i = "pde_index attr" and ?T = "umm_table s d" and ?U = "umm_table t d"
  define G where "G x = (if ?T x = 0 then {} else table_frames s (?T x))" for x
  from umm_entered_tables [OF wf b f a e] obtain k where
    U: "\<And>x. unat x < 768 \<Longrightarrow> ?U x = (if x = ?i then k else ?T x)"
    and E: "\<And>e x. e < 1048576 \<Longrightarrow> e \<noteq> d \<Longrightarrow> unat x < 1024 \<Longrightarrow> pte_frame (entry t e x) =
      (if e = k then (if x = pte_index attr then f else if ?T ?i = 0 then 0 else pte_frame (entry s e x))
       else pte_frame (entry s e x))"
    and k: "pmm_free t \<subseteq> pmm_free s - {f}" "k \<noteq> d" "k \<noteq> f" "0 < k" "k < 1048576"
      "?T ?i \<noteq> 0 \<and> k = ?T ?i \<or> ?T ?i = 0 \<and> k \<in> pmm_free s" by blast
  have i: "unat ?i < 768" using a user_index by blast
  have f0: "0 < f" "f < pmm_total s" "f \<noteq> d" using f b wf pmm.free_range [of s] by (auto simp: mm_base_def umm_wf_def)
  have T: "?T x \<noteq> d" "?T x \<notin> pmm_free s" if "unat x < 768" "?T x \<noteq> 0" for x using wf that by (auto simp: umm_wf_def)
  have Tb: "?T x < 1048576" for x by (simp add: umm_table_def pte_frame_bound)
  have uk: "?U x = k \<longleftrightarrow> x = ?i" if "unat x < 768" for x
    using U [OF that] k(4,6) T(2) [OF that] wf that i by (auto simp: umm_wf_def)
  have O: "g \<notin> pmm_free s" "g < pmm_total s" "g \<noteq> d" "unat y < 768 \<Longrightarrow> g \<noteq> ?T y" if "g \<in> G x" "unat x < 768" for g x y
    using own that unfolding umm_owned_def G_def by (auto split: if_splits)
  have disj: "G x \<inter> G y = {}" if "unat x < 768" "unat y < 768" "x \<noteq> y" for x y
    using own that unfolding umm_owned_def G_def by (auto split: if_splits)
  have fr: "pte_frame (entry t (?U x) y) = (if x = ?i then (if y = pte_index attr then f else if ?T ?i = 0 then 0 else pte_frame (entry s (?T x) y))
      else pte_frame (entry s (?T x) y))" if "unat x < 768" "?U x \<noteq> 0" "unat y < 1024" for x y
    using U [OF that(1)] E [of "?U x" y] uk [OF that(1)] k T(1) [OF that(1)] Tb [of x] that by (auto split: if_splits)
  have sub: "table_frames t (?U x) \<subseteq> (if x = ?i then insert f (G x) else G x)" if "unat x < 768" "?U x \<noteq> 0" for x
    using fr [OF that] U [OF that(1)] that(2) by (auto simp: table_frames_def G_def split: if_splits)
  have new: "g \<notin> pmm_free t" "g < pmm_total t" "g \<noteq> d" "unat y < 768 \<Longrightarrow> g \<noteq> ?U y"
    if "g \<in> table_frames t (?U x)" "unat x < 768" "?U x \<noteq> 0" for g x y
  proof -
    have "g = f \<or> g \<in> G x" using sub [OF that(2,3)] that(1) by (auto split: if_splits)
    then show "g \<notin> pmm_free t" "g < pmm_total t" "g \<noteq> d" using O(1-3) [OF _ that(2)] k(1) f0 tot by auto
    show "g \<noteq> ?U y" if y: "unat y < 768"
      using \<open>g = f \<or> g \<in> G x\<close> O(1) [OF _ \<open>unat x < 768\<close>] O(4) [OF _ \<open>unat x < 768\<close> y] T(2) [OF y] U [OF y] k(3,6) f f0(1) i
        O(4) [OF _ \<open>unat x < 768\<close> i]
      by (auto split: if_splits)
  qed
  have inj: "y = z" if "unat x < 768" "?U x \<noteq> 0" "unat y < 1024" "unat z < 1024" "pte_frame (entry t (?U x) y) \<noteq> 0"
    "pte_frame (entry t (?U x) y) = pte_frame (entry t (?U x) z)" for x y z
  proof -
    have old: "y = z" if "?T x \<noteq> 0" "pte_frame (entry s (?T x) y) \<noteq> 0"
      "pte_frame (entry s (?T x) y) = pte_frame (entry s (?T x) z)"
      using own that \<open>unat x < 768\<close> \<open>unat y < 1024\<close> \<open>unat z < 1024\<close> unfolding umm_owned_def by blast
    have nf: "pte_frame (entry s (?T x) w) \<noteq> f" if "?T x \<noteq> 0" "unat w < 1024" for w
      using O(1) [OF _ \<open>unat x < 768\<close>, of "pte_frame (entry s (?T x) w)"] f f0(1) that by (auto simp: G_def table_frames_def)
    show ?thesis
      using that(5,6) fr [OF that(1-3)] fr [OF that(1,2,4)] old nf [OF _ that(3)] nf [OF _ that(4)] U [OF that(1)] that(2)
      by (auto split: if_splits)
  qed
  have dis: "table_frames t (?U x) \<inter> table_frames t (?U y) = {}"
    if "unat x < 768" "?U x \<noteq> 0" "unat y < 768" "?U y \<noteq> 0" "x \<noteq> y" for x y
  proof -
    have "f \<notin> G z" if "unat z < 768" for z using O(1) [OF _ that] f by blast
    then show ?thesis using sub [OF that(1,2)] sub [OF that(3,4)] disj [OF that(1,3,5)] that(1,3,5) by (auto split: if_splits)
  qed
  show ?thesis unfolding umm_owned_def using new inj dis by blast
qed

(*END*)

section \<open>Properties\<close>

text \<open>C27. \<open>umm_free\<close> of an address space that owns its pages returns everything and nothing
  else: the page frames, the page tables and the directory all become free, and no other
  frame does.\<close>

theorem umm_free_spec:
  assumes "mm_inv s" and "umm_wf d s" and "umm_owned d s"
  shows "mm_inv (umm_free (page d) s) \<and> vmm_map (umm_free (page d) s) = vmm_map s \<and>
    pmm_free (umm_free (page d) s) = pmm_free s \<union> umm_frames d s \<and>
    umm_frames d s \<inter> pmm_free s = {}"
  using assms by (rule umm_free_correct)

theorem umm_free_spec_witness:
  "mm_inv (umm_free 0x1000 umm_sample_table) \<and>
   pmm_free (umm_free 0x1000 umm_sample_table) = {3..<16} \<union> {1, 2}"
  using umm_free_spec [OF umm_sample_table_frames(1-3)] umm_sample_table_frames(4,5) by simp

end
