(* ===== verification/Share.thy ===== *)
theory Share
  imports Umm
begin

text \<open>
  Kernel windows into user memory: the correctness of \<open>umm_mmap_kmm\<close> (\<open>src/kernel/mm/umm.c\<close>) and of
  \<open>vmm_mmap_pde_page\<close> (\<open>src/kernel/mm/vmm.c\<close>) under it.  The kernel addresses that they return and the user
  addresses that they are given lead to the same physical bytes.
\<close>

section \<open>Frames of addresses\<close>

text \<open>The frame of a page of the user, 0 when there is none, and the physical address of a user address.\<close>

definition user_frame :: "'a mm_state_scheme \<Rightarrow> nat \<Rightarrow> u32 \<Rightarrow> nat" where
  "user_frame s d a = pte_frame (get_umm_value a (page d) s)"

definition user_phy_attr :: "u32 \<Rightarrow> nat \<Rightarrow> 'a mm_state_scheme \<Rightarrow> u32" where
  "user_phy_attr a d s = get_page_attr (get_umm_value a (page d) s) + a mod PAGE_SIZE"

text \<open>All frames are direct mapped, as they are on a machine of at most 512 MB.\<close>

definition direct_low :: "'a mm_state_scheme \<Rightarrow> bool" where
  "direct_low s \<longleftrightarrow> pmm_total s \<le> unat (dmmap_page_count s) \<and>
     (\<forall>g. unat g < unat (dmmap_page_count s) \<longrightarrow> vmm_frame s g = unat g)"

lemma kernel_phy_attr: "get_globl_phy_attr a s = page (vmm_frame s (a div PAGE_SIZE)) + a mod PAGE_SIZE"
  by (simp add: get_globl_phy_attr_def get_globl_page_attr_def get_page_attr_page pte_frame_def vmm_frame_def)

lemma user_phy_attr_page: "user_phy_attr a d s = page (user_frame s d a) + a mod PAGE_SIZE"
  by (simp add: user_phy_attr_def get_page_attr_page user_frame_def)

lemma user_frame_0 [simp]: "get_umm_value a pde s = 0 \<Longrightarrow> pde = page d \<Longrightarrow> user_frame s d a = 0"
  by (simp add: user_frame_def)

lemma direct_phy_attr:
  assumes "direct_low s" and "f < unat (dmmap_page_count s)" and "f < 1048576"
  shows "get_globl_phy_attr (page f) s = page f"
proof -
  have "unat (page f div PAGE_SIZE) = f" by (simp add: page_address [OF assms(3)])
  moreover have "page f mod PAGE_SIZE = 0"
    by (simp add: word_unat_eq_iff page_address [OF assms(3)])
  ultimately show ?thesis using assms(1,2) by (simp add: kernel_phy_attr direct_low_def)
qed

section \<open>What opening a window changes\<close>

text \<open>The user's pages are different frames, and none of them is free.\<close>

definition user_wf :: "nat \<Rightarrow> 'a mm_state_scheme \<Rightarrow> bool" where
  "user_wf d s \<longleftrightarrow>
     (\<forall>a b. a < PAGE_OFFSET \<and> b < PAGE_OFFSET \<and> user_frame s d a \<noteq> 0 \<and> user_frame s d a = user_frame s d b \<longrightarrow>
        unat a div 4096 = unat b div 4096) \<and>
     (\<forall>a<PAGE_OFFSET. user_frame s d a \<notin> pmm_free s)"

lemma user_wf_cong:
  assumes "user_frame t d = user_frame s d" and "pmm_free t \<subseteq> pmm_free s"
  shows "user_wf d s \<longrightarrow> user_wf d t"
  using assms unfolding user_wf_def by auto

lemma user_wf_new:
  assumes "f \<in> pmm_free s" and "pmm_free t \<subseteq> pmm_free s - {f}"
    and "\<And>b. b < PAGE_OFFSET \<Longrightarrow> user_frame t d b = (if c \<and> unat b div 4096 = n then f else user_frame s d b)"
  shows "user_wf d s \<longrightarrow> user_wf d t"
proof
  assume w: "user_wf d s"
  have no: "user_frame s d b \<noteq> f" if "b < PAGE_OFFSET" for b using w that assms(1) by (auto simp: user_wf_def)
  have inj: "unat a div 4096 = unat b div 4096"
    if "a < PAGE_OFFSET" "b < PAGE_OFFSET" "user_frame t d a \<noteq> 0" "user_frame t d a = user_frame t d b" for a b
  proof (cases "c \<and> unat a div 4096 = n \<or> c \<and> unat b div 4096 = n")
    case True
    then show ?thesis using that no [OF that(1)] no [OF that(2)] by (auto simp: assms(3) split: if_splits)
  next
    case False
    then have "user_frame t d a = user_frame s d a" "user_frame t d b = user_frame s d b"
      using assms(3) [OF that(1)] assms(3) [OF that(2)] by auto
    with w that show ?thesis unfolding user_wf_def by metis
  qed
  have "user_frame t d a \<notin> pmm_free t" if "a < PAGE_OFFSET" for a
    using w assms(2) assms(3) [OF that] that by (auto simp: user_wf_def)
  with inj show "user_wf d t" unfolding user_wf_def by blast
qed

text \<open>Only the kernel's entries in \<open>G\<close>, and the user's pages numbered in \<open>P\<close> that were not there.\<close>

definition window_same :: "nat set \<Rightarrow> nat set \<Rightarrow> nat \<Rightarrow> 'a mm_state_scheme \<Rightarrow> 'a mm_state_scheme \<Rightarrow> bool" where
  "window_same G P d s t \<longleftrightarrow> dmmap_page_count t = dmmap_page_count s \<and>
     vmmap_page_count t = vmmap_page_count s \<and> pmm_total t = pmm_total s \<and>
     (\<forall>g. unat g \<notin> G \<longrightarrow> globl_mmap_pte t g = globl_mmap_pte s g) \<and>
     (\<forall>x. unat x < 768 \<and> umm_table s d x \<noteq> 0 \<longrightarrow> umm_table t d x = umm_table s d x) \<and>
     (\<forall>b<PAGE_OFFSET. unat b div 4096 \<notin> P \<or> user_frame s d b \<noteq> 0 \<longrightarrow>
        get_umm_value b (page d) t = get_umm_value b (page d) s) \<and>
     (user_wf d s \<longrightarrow> user_wf d t)"

lemma window_same_refl [simp]: "window_same G P d s s"
  by (simp add: window_same_def)

lemma window_same_trans:
  assumes "window_same G P d s t" and "window_same G P d t u"
  shows "window_same G P d s u"
  using assms unfolding window_same_def user_frame_def by simp

lemma window_same_mono: "window_same G P d s t \<Longrightarrow> G \<subseteq> H \<Longrightarrow> P \<subseteq> Q \<Longrightarrow> window_same H Q d s t"
  unfolding window_same_def by blast

lemma window_same_frames:
  assumes "window_same G P d s t" and "b < PAGE_OFFSET" and "user_frame s d b \<noteq> 0"
  shows "user_frame t d b = user_frame s d b"
  using assms by (simp add: window_same_def user_frame_def)

lemma direct_low_window:
  assumes "direct_low s" and "window_same G P d s t" and "\<And>g. g \<in> G \<Longrightarrow> unat (dmmap_page_count s) \<le> g"
  shows "direct_low t"
proof -
  have "globl_mmap_pte t g = globl_mmap_pte s g" if "unat g < unat (dmmap_page_count s)" for g
    using assms(2,3) that unfolding window_same_def by fastforce
  with assms(1,2) show ?thesis by (simp add: direct_low_def window_same_def vmm_frame_def)
qed

section \<open>Enough frames\<close>

text \<open>Two free frames are enough for one frame from either end.\<close>

lemma pmm_alloc_page_succeeds:
  assumes "pmm_ok s" and "2 \<le> card (pmm_free s)" and "pmm_alloc_page s = (a, t)"
  shows "a \<noteq> NULL"
proof -
  have inv: "pmm_inv s" using assms(1) by (simp add: pmm_ok_def)
  have "\<exists>f\<in>pmm_free s. unat (pmm_head_pos s) < f"
  proof (rule ccontr)
    assume "\<not> ?thesis"
    then have "pmm_free s \<subseteq> {unat (pmm_head_pos s)}" using inv by (force simp: pmm_inv_def not_less)
    from card_mono [OF _ this] assms(2) show False by simp
  qed
  with pmm_alloc_page_correct [OF inv assms(3)] show ?thesis by simp
qed

lemma dmm_alloc_page_succeeds:
  assumes base: "mm_base s" and low: "pmm_total s \<le> unat (dmmap_page_count s)" and "2 \<le> card (pmm_free s)"
    and r: "dmm_alloc_page 1 s = (a, t)"
  shows "a \<noteq> NULL"
proof -
  let ?s0 = "disable_intr s"
  obtain b u where up: "pmm_up_alloc_page 1 ?s0 = (b, u)" by (cases "pmm_up_alloc_page 1 ?s0")
  have ok: "pmm_ok ?s0" using base by (simp add: mm_base_def)
  then have inv: "pmm_inv ?s0" by (simp add: pmm_ok_def)
  have fr: "pmm_free ?s0 = pmm_free s" by simp
  have sub: "pmm_free s \<subseteq> {unat (pmm_head_pos ?s0)..unat (pmm_tail_pos ?s0)}"
    using inv unfolding pmm_inv_def fr by blast
  have "\<exists>x\<in>pmm_free s. x < unat (pmm_tail_pos ?s0)"
  proof (rule ccontr)
    assume "\<not> ?thesis"
    then have "pmm_free s \<subseteq> {unat (pmm_tail_pos ?s0)}" using sub by (force simp: not_less)
    from card_mono [OF _ this] assms(3) show False by simp
  qed
  then obtain x where x: "x \<in> pmm_free s" "unat (pmm_head_pos ?s0) \<le> x" "x < unat (pmm_tail_pos ?s0)"
    using sub by auto
  then have "{x..<x + unat (1 :: u32)} \<subseteq> pmm_free ?s0" by simp
  with pmm_up_alloc_page_correct [OF inv up] x obtain q where q: "b = q * PAGE_SIZE" "unat q \<in> pmm_free s" by auto
  have qb: "unat q < 1048576" "unat q < pmm_total s" "0 < unat q"
    using q(2) ok pmm_inv_bound [OF inv] pmm.free_range [OF ok] pmm_free_less_total [of "unat q" s] by auto
  have "unat b = unat q * 4096" unfolding q(1) by (rule unat_page_address [OF qb(1)])
  then have b0: "b \<noteq> NULL" and bd: "b div PAGE_SIZE = q" using qb(3) by (auto simp: word_unat_eq_iff)
  have "unat (q + 1) = unat q + 1" using qb(1) by (simp add: unat_add32)
  then have "\<not> q + 1 > dmmap_page_count s" using qb(2) low by (simp add: word_less_nat_alt)
  moreover have "dmmap_page_count u = dmmap_page_count s" using pmm_up_alloc_page_mm(5) [of 1 ?s0] up by simp
  then have "dmmap_page_count (enable_intr u) = dmmap_page_count s" by simp
  ultimately show ?thesis using r up b0 bd by (auto simp: dmm_alloc_page_def Let_def)
qed

lemma set_umm_value_succeeds:
  assumes "mm_base s" and "pmm_total s \<le> unat (dmmap_page_count s)" and "2 \<le> card (pmm_free s)"
    and "a < PAGE_OFFSET" and "set_umm_value a v pde s = (x, t)"
  shows "x \<noteq> 0"
proof -
  obtain p u where al: "dmm_alloc_page 1 s = (p, u)" by (cases "dmm_alloc_page 1 s")
  from dmm_alloc_page_succeeds [OF assms(1-3) al] al assms(4,5) show ?thesis
    by (auto simp: set_umm_value_def Let_def split: if_splits)
qed

section \<open>One page of a window\<close>

lemma vmm_pde_frame_correct:
  assumes base: "mm_base s" and wf: "umm_wf d s" and low: "direct_low s" and a: "a < PAGE_OFFSET"
    and r: "vmm_pde_frame a (page d) s = (phy, t)"
  shows "mm_base t \<and> umm_wf d t \<and> window_same {} {unat a div 4096} d s t \<and> vmm_map t = vmm_map s \<and>
    globl_mmap_pte t = globl_mmap_pte s \<and>
    vmm_pos t = vmm_pos s \<and> vmm_free_page_count t = vmm_free_page_count s \<and>
    (if phy = NULL then user_frame s d a = 0
     else 0 < unat phy div 4096 \<and> (user_frame t d a = unat phy div 4096 \<or>
       get_umm_value a (page d) t = 0 \<and> umm_table s d (pde_index a) = 0)) \<and>
    card (pmm_free s) \<le> card (pmm_free t) + 2 \<and>
    (4 \<le> card (pmm_free s) \<longrightarrow> phy \<noteq> NULL \<and> user_frame t d a \<noteq> 0)"
proof (cases "user_frame s d a = 0")
  case False
  then have "phy = page (user_frame s d a)" "t = s"
    using r page_eq_0 [OF pte_frame_bound] by (auto simp: vmm_pde_frame_def get_page_attr_page user_frame_def Let_def split: if_splits)
  with False base wf show ?thesis
    using page_address [OF pte_frame_bound] pte_frame_bound page_eq_0 [OF pte_frame_bound]
    by (simp add: user_frame_def)
next
  case True
  then have z: "get_page_attr (get_umm_value a (page d) s) = 0" by (simp add: get_page_attr_page user_frame_def)
  obtain p s1 where al: "pmm_alloc_page s = (p, s1)" by (cases "pmm_alloc_page s")
  have ok: "pmm_ok s" using base by (simp add: mm_base_def)
  note law = pmm_alloc_page_law [OF ok al]
  have more: "pmm_state.more s1 = pmm_state.more s" using pmm_alloc_page_more [of s] al by simp
  note c = mm_more_cong [OF more]
  have base1: "mm_base s1" and map1: "vmm_map s1 = vmm_map s"
    using mm_base_more [OF base more] law by auto
  have sub: "pmm_free s1 \<subseteq> pmm_free s" and tot: "pmm_total s1 = pmm_total s"
    using law by (auto split: if_splits)
  have ent: "entry s1 = entry s" using c by (intro entry_cong) simp
  have wf1: "umm_wf d s1" using sub tot c by (intro umm_wf_cong [OF wf]) (simp_all add: ent)
  have tab1: "umm_table s1 = umm_table s" by (simp add: fun_eq_iff umm_table_def ent)
  have get1: "get_umm_value b (page d) s1 = get_umm_value b (page d) s" for b
    using c by (intro get_umm_value_cong) simp
  have same1: "window_same {} {unat a div 4096} d s s1"
    using c user_wf_cong [of s1 d s] sub by (simp add: window_same_def tot tab1 get1 fun_eq_iff user_frame_def)
  show ?thesis
  proof (cases "p = NULL")
    case True
    then have "phy = NULL" "t = s1" using r al z by (simp_all add: vmm_pde_frame_def)
    moreover have "card (pmm_free s) < 4" using pmm_alloc_page_succeeds [OF ok _ al] True by linarith
    moreover have "pmm_free s1 = pmm_free s" using law True by simp
    ultimately show ?thesis using base1 wf1 same1 map1 c \<open>user_frame s d a = 0\<close> by simp
  next
    case False
    then obtain f where f: "f \<in> pmm_free s" "unat p = f * 4096" using law by auto
    have fb: "f < 1048576" using f(1) ok pmm_inv_bound by (auto simp: pmm_ok_def)
    have f0: "0 < f" "f < pmm_total s" using f(1) pmm.free_range [OF ok] by auto
    have pf: "p = page f" using f(2) page_address [OF fb] by (simp add: word_unat_eq_iff)
    have low1: "direct_low s1" using low same1 by (rule direct_low_window) simp
    have g: "get_globl_phy_attr p s1 = page f"
      unfolding pf using low low1 f0(2) c fb by (intro direct_phy_attr) (auto simp: direct_low_def)
    obtain x u where set: "set_umm_value a (set_page (page f) PAGE_PWU) (page d) s1 = (x, u)"
      by (cases "set_umm_value a (set_page (page f) PAGE_PWU) (page d) s1")
    have pt: "phy = p" "t = u" using r al z False set by (simp_all add: vmm_pde_frame_def g)
    note S = set_umm_value_base [OF base1 wf1 a set]
    have cnt: "vmm_free_page_count u = vmm_free_page_count s" "vmm_pos u = vmm_pos s"
      using set_umm_value_count [of a "set_page (page f) PAGE_PWU" "page d" s1, unfolded set snd_conv] c(7,8)
      by simp_all
    have get: "get_umm_value b (page d) u = (if x \<noteq> 0 \<and> b div PAGE_SIZE = a div PAGE_SIZE
        then set_page (page f) PAGE_PWU else get_umm_value b (page d) s)" if "b < PAGE_OFFSET" for b
      using S that get_umm_value_cong [of u s1] by (auto simp: get1 split: if_splits)
    have page_eq: "b div PAGE_SIZE = a div PAGE_SIZE \<longleftrightarrow> unat b div 4096 = unat a div 4096" for b
      by (simp add: word_unat_eq_iff)
    have here: "user_frame s d b = 0" if "unat b div 4096 = unat a div 4096" for b
    proof -
      have "pde_index b = pde_index a \<and> pte_index b = pte_index a" using that by (simp add: same_user_page page_eq)
      then have "get_umm_value b (page d) s = get_umm_value a (page d) s" by (simp add: get_umm_value_def)
      with \<open>user_frame s d a = 0\<close> show ?thesis by (simp add: user_frame_def)
    qed
    have fr: "pmm_free s1 = pmm_free s - {f}"
      using law False f(2) fb by auto
    have "user_frame u d b = (if x \<noteq> 0 \<and> unat b div 4096 = unat a div 4096 then f else user_frame s d b)"
      if "b < PAGE_OFFSET" for b
      using get [OF that] pte_frame_user [OF fb] by (simp add: user_frame_def page_eq)
    moreover have "pmm_free u \<subseteq> pmm_free s - {f}" using S fr by (auto split: if_splits)
    ultimately have uw: "user_wf d s \<longrightarrow> user_wf d u" by (intro user_wf_new [OF f(1)])
    have "window_same {} {unat a div 4096} d s u"
      using S c tot tab1 here uw by (auto simp: window_same_def umm_same_def get page_eq)
    moreover have "user_frame u d a = f \<or> get_umm_value a (page d) u = 0 \<and> umm_table s d (pde_index a) = 0"
    proof (cases "x = 0")
      case True
      then have tz: "umm_table s d (pde_index a) = 0" using S by (simp add: tab1)
      then have "get_umm_value a (page d) s = 0" by (simp add: get_umm_value_entry [OF wf a])
      with tz True show ?thesis by (simp add: get [OF a])
    next
      case False
      with pte_frame_user [OF fb] show ?thesis by (simp add: user_frame_def get [OF a])
    qed
    moreover have "user_frame u d a \<noteq> 0" if "4 \<le> card (pmm_free s)"
    proof -
      have "2 \<le> card (pmm_free s1)" using that fr f(1) by simp
      with low1 have "x \<noteq> 0" by (intro set_umm_value_succeeds [OF base1 _ _ a set]) (simp_all add: direct_low_def)
      then show ?thesis using get [OF a] pte_frame_user [OF fb] f0 by (simp add: user_frame_def)
    qed
    moreover have "card (pmm_free s) \<le> card (pmm_free u) + 2"
    proof -
      have "card (pmm_free s1) \<le> card (pmm_free u) + 1" using S by (auto split: if_splits)
      then show ?thesis using fr f(1) by simp
    qed
    ultimately show ?thesis
      using S map1 c cnt f0 f(2) by (simp add: pt umm_same_def False)
  qed
qed

section \<open>The mapping loop\<close>

lemma page_number:
  assumes "unat attr mod 4096 = 0" and "unat attr + unat i * 4096 < 4294967296"
  shows "unat (attr + i * PAGE_SIZE) = unat attr + unat i * 4096"
    and "unat (attr + i * PAGE_SIZE) div 4096 = unat attr div 4096 + unat i"
proof -
  have "unat (i * PAGE_SIZE) = unat i * 4096" using assms(2) by (simp add: unat_mult32)
  then show "unat (attr + i * PAGE_SIZE) = unat attr + unat i * 4096" using assms(2) by (simp add: unat_add32)
  then show "unat (attr + i * PAGE_SIZE) div 4096 = unat attr div 4096 + unat i" by (simp add: div_add1_eq)
qed

lemma vmm_pde_map_loop_correct:
  assumes "mm_base s" and "umm_wf d s" and "direct_low s" and "i \<le> count"
    and "unat head + unat count \<le> unat (vmmap_page_count s)"
    and "unat attr mod 4096 = 0" and "unat attr + unat count * 4096 \<le> 3221225472"
    and "vmm_pde_map_loop attr (page d) head count i s = (ok, t)"
  shows "(ok \<longrightarrow> mm_base t \<and> umm_wf d t \<and>
      window_same ((+) (unat (dmmap_page_count s)) ` {unat head + unat i..<unat head + unat count})
        {unat attr div 4096 + unat i..<unat attr div 4096 + unat count} d s t \<and>
      vmm_pos t = vmm_pos s \<and> vmm_free_page_count t = vmm_free_page_count s \<and>
      (\<forall>k. unat head + unat i \<le> k \<and> k < unat head + unat count \<longrightarrow> vmm_map t k \<noteq> None) \<and>
      (\<forall>k. k < unat head + unat i \<or> unat head + unat count \<le> k \<longrightarrow> vmm_map t k = vmm_map s k) \<and>
      (\<forall>j. i \<le> j \<and> j < count \<longrightarrow>
        vmm_map t (unat (head + j)) = Some (user_frame t d (attr + j * PAGE_SIZE)) \<or>
        get_umm_value (attr + j * PAGE_SIZE) (page d) t = 0 \<and>
          umm_table s d (pde_index (attr + j * PAGE_SIZE)) = 0)) \<and>
    (\<not> ok \<longrightarrow> (\<exists>j. i \<le> j \<and> j < count \<and> user_frame s d (attr + j * PAGE_SIZE) = 0)) \<and>
    (2 * (unat count - unat i) + 2 \<le> card (pmm_free s) \<longrightarrow> ok \<and>
      (\<forall>j. i \<le> j \<and> j < count \<longrightarrow> user_frame t d (attr + j * PAGE_SIZE) \<noteq> 0))"
  using assms
proof (induction attr "page d" head count i s arbitrary: ok t rule: vmm_pde_map_loop.induct)
  case (1 attr head count i s)
  note unf = vmm_pde_map_loop.simps [of attr "page d" head count i s]
  show ?case
  proof (cases "i < count")
    case False
    then have "ok \<and> t = s" using "1.prems"(8) by (simp add: unf)
    moreover have "i = count" using False "1.prems"(4) by simp
    ultimately show ?thesis using "1.prems" by auto
  next
    case True
    let ?a = "attr + i * PAGE_SIZE" and ?A = "unat attr div 4096"
    obtain phy s1 where fr: "vmm_pde_frame ?a (page d) s = (phy, s1)"
      by (cases "vmm_pde_frame ?a (page d) s")
    have i: "unat i < unat count" using True by (simp add: word_less_nat_alt)
    have pn: "unat (attr + j * PAGE_SIZE) = unat attr + unat j * 4096"
      "unat (attr + j * PAGE_SIZE) div 4096 = ?A + unat j" "attr + j * PAGE_SIZE < PAGE_OFFSET"
      if "j < count" for j
    proof -
      have "unat j < unat count" using that by (simp add: word_less_nat_alt)
      then have "unat attr + unat j * 4096 < 3221225472" using "1.prems"(7) by linarith
      with page_number [OF "1.prems"(6), of j]
      show "unat (attr + j * PAGE_SIZE) = unat attr + unat j * 4096"
        "unat (attr + j * PAGE_SIZE) div 4096 = ?A + unat j" "attr + j * PAGE_SIZE < PAGE_OFFSET"
        by (simp_all add: word_less_nat_alt)
    qed
    note P = vmm_pde_frame_correct [OF "1.prems"(1-3) pn(3) [OF True] fr]
    show ?thesis
    proof (cases "phy = NULL")
      case nul: True
      then have "\<not> ok" using True "1.prems"(8) fr by (simp add: unf)
      moreover have "user_frame s d ?a = 0" using P nul by simp
      moreover have "card (pmm_free s) < 4" using P nul by (meson not_le)
      then have "\<not> 2 * (unat count - unat i) + 2 \<le> card (pmm_free s)" using i by linarith
      ultimately show ?thesis using True by blast
    next
      case False
      let ?s2 = "globl_page_mmap (phy div PAGE_SIZE) (get_globl_page_index (head + i) s1) s1"
      let ?d = "unat (dmmap_page_count s)"
      have c1: "dmmap_page_count s1 = dmmap_page_count s" "vmmap_page_count s1 = vmmap_page_count s"
        using P by (simp_all add: window_same_def)
      have wfs: "vmm_wf s1" using P by (simp add: mm_base_def)
      have hi: "unat (head + i) = unat head + unat i" "unat (head + i) < unat (vmmap_page_count s)"
        using word_add_index [OF "1.prems"(5) True unat_u32_less] .
      have pb: "unat phy div 4096 < 1048576" using unat_u32_less [of phy] by linarith
      have ph: "unat (phy div PAGE_SIZE) = unat phy div 4096" "unat phy div 4096 < 1048576" "0 < unat phy div 4096"
        using P False pb by auto
      have map2: "vmm_map ?s2 = (vmm_map s)(unat head + unat i \<mapsto> unat phy div 4096)"
        using vmm_map_mmap [OF wfs, of "head + i" "phy div PAGE_SIZE"] hi c1 ph P by simp
      have same2: "vmm_same {?d + unat (head + i)} s1 ?s2"
        using globl_page_mmap_same(1) [OF wfs, of "head + i"] hi c1 by simp
      have pm: "page_mem ?s2 = page_mem s1" by simp
      have ent2: "entry ?s2 = entry s1" by (rule entry_cong [OF pm])
      have get2: "get_umm_value b (page d) ?s2 = get_umm_value b (page d) s1" for b by (rule get_umm_value_cong [OF pm])
      have "pmm_free ?s2 = pmm_free s1" "pmm_total ?s2 = pmm_total s1" "dmmap_page_count ?s2 = dmmap_page_count s1" by simp_all
      then have wf2: "umm_wf d ?s2"
        using umm_wf_cong [of d s1 ?s2] P[THEN conjunct2, THEN conjunct1] by (simp only: ent2 order_refl simp_thms)
      have base2: "mm_base ?s2" using P by (simp add: mm_base_def)
      have w1: "window_same {?d + (unat head + unat i)} {?A + unat i} d s s1"
      proof (rule window_same_mono)
        show "window_same {} {?A + unat i} d s s1" using P unfolding pn(2) [OF True] by blast
      qed simp_all
      have w2: "window_same {?d + (unat head + unat i)} {?A + unat i} d s1 ?s2"
        using same2 hi(1) user_wf_cong [of ?s2 d s1]
        by (simp add: window_same_def vmm_same_def get2 umm_table_def ent2 fun_eq_iff user_frame_def)
      note w = window_same_trans [OF w1 w2]
      have low2: "direct_low ?s2" using "1.prems"(3) w by (rule direct_low_window) simp
      have i1: "unat (i + 1) = unat i + 1" "i + 1 \<le> count" using i unat_Suc_less [OF True]
        by (simp_all add: word_le_nat_alt)
      have rec: "vmm_pde_map_loop attr (page d) head count (i + 1) ?s2 = (ok, t)"
        using True "1.prems"(8) fr False by (simp add: unf)
      have fit: "unat head + unat count \<le> unat (vmmap_page_count ?s2)" using "1.prems"(5) c1 by simp
      note IH = "1.hyps" [OF True fr [symmetric] False base2 wf2 low2 i1(2) fit "1.prems"(6,7) rec]
      show ?thesis
      proof (intro conjI impI)
        assume ok: ok
        note I = IH [THEN conjunct1, THEN mp, OF ok]
        let ?G = "(+) ?d ` {unat head + unat i..<unat head + unat count}"
        have wt: "window_same ((+) ?d ` {unat head + (unat i + 1)..<unat head + unat count})
            {?A + (unat i + 1)..<?A + unat count} d ?s2 t"
          using I c1 i1(1) by simp
        have "window_same ?G {?A + unat i..<?A + unat count} d ?s2 t"
          by (rule window_same_mono [OF wt]) auto
        moreover have "window_same ?G {?A + unat i..<?A + unat count} d s ?s2"
          using i by (intro window_same_mono [OF w]) auto
        ultimately show "window_same ?G {?A + unat i..<?A + unat count} d s t"
          by (blast intro: window_same_trans)
        show "mm_base t" "umm_wf d t" using I by blast+
        show "vmm_pos t = vmm_pos s" "vmm_free_page_count t = vmm_free_page_count s"
          using I P by simp_all
        have I3: "\<forall>k. unat head + (unat i + 1) \<le> k \<and> k < unat head + unat count \<longrightarrow> vmm_map t k \<noteq> None"
          and I4: "\<forall>k. k < unat head + (unat i + 1) \<or> unat head + unat count \<le> k \<longrightarrow> vmm_map t k = vmm_map ?s2 k"
          using I unfolding i1(1) by blast+
        have low_k: "vmm_map t k = vmm_map ?s2 k" if "k < unat head + (unat i + 1) \<or> unat head + unat count \<le> k" for k
          using I4 that by blast
        show "\<forall>k. unat head + unat i \<le> k \<and> k < unat head + unat count \<longrightarrow> vmm_map t k \<noteq> None"
        proof (intro allI impI)
          fix k assume k: "unat head + unat i \<le> k \<and> k < unat head + unat count"
          show "vmm_map t k \<noteq> None"
          proof (cases "k = unat head + unat i")
            case True
            then show ?thesis using low_k [of k] by (simp add: map2)
          next
            case False
            then show ?thesis using I3 k by simp
          qed
        qed
        show "\<forall>k. k < unat head + unat i \<or> unat head + unat count \<le> k \<longrightarrow> vmm_map t k = vmm_map s k"
          using low_k i by (auto simp: map2)
        show "\<forall>j. i \<le> j \<and> j < count \<longrightarrow>
            vmm_map t (unat (head + j)) = Some (user_frame t d (attr + j * PAGE_SIZE)) \<or>
            get_umm_value (attr + j * PAGE_SIZE) (page d) t = 0 \<and>
              umm_table s d (pde_index (attr + j * PAGE_SIZE)) = 0"
        proof (intro allI impI)
          fix j assume j: "i \<le> j \<and> j < count"
          show "vmm_map t (unat (head + j)) = Some (user_frame t d (attr + j * PAGE_SIZE)) \<or>
            get_umm_value (attr + j * PAGE_SIZE) (page d) t = 0 \<and>
              umm_table s d (pde_index (attr + j * PAGE_SIZE)) = 0"
          proof (cases "j = i")
            case True
            have "get_umm_value ?a (page d) t = get_umm_value ?a (page d) s1"
              using wt pn [OF \<open>i < count\<close>] by (simp add: window_same_def get2)
            moreover from this have "user_frame t d ?a = user_frame s1 d ?a" by (simp add: user_frame_def)
            moreover have "vmm_map t (unat (head + i)) = Some (unat phy div 4096)"
              using low_k [of "unat head + unat i"] by (simp add: map2 hi)
            ultimately show ?thesis using P False True by auto
          next
            case ne: False
            then have "i + 1 \<le> j" using j i1 by (simp add: word_le_nat_alt word_unat_eq_iff)
            then have "vmm_map t (unat (head + j)) = Some (user_frame t d (attr + j * PAGE_SIZE)) \<or>
              get_umm_value (attr + j * PAGE_SIZE) (page d) t = 0 \<and>
                umm_table ?s2 d (pde_index (attr + j * PAGE_SIZE)) = 0" using I j by blast
            moreover have "umm_table s d (pde_index (attr + j * PAGE_SIZE)) = 0"
              if "umm_table ?s2 d (pde_index (attr + j * PAGE_SIZE)) = 0"
              using w that pn(3) [of j] j user_index by (fastforce simp: window_same_def)
            ultimately show ?thesis by blast
          qed
        qed
      next
        assume "\<not> ok"
        then obtain j where j: "i + 1 \<le> j" "j < count" "user_frame ?s2 d (attr + j * PAGE_SIZE) = 0"
          using IH by blast
        then have "user_frame s d (attr + j * PAGE_SIZE) = 0"
          using window_same_frames [OF w pn(3) [OF j(2)]] by fastforce
        moreover have "i \<le> j" using j(1) i1(1) by (simp add: word_le_nat_alt)
        ultimately show "\<exists>j. i \<le> j \<and> j < count \<and> user_frame s d (attr + j * PAGE_SIZE) = 0"
          using j(2) by blast
      next
        assume en: "2 * (unat count - unat i) + 2 \<le> card (pmm_free s)"
        have "card (pmm_free s) \<le> card (pmm_free s1) + 2" using P by blast
        moreover have "card (pmm_free ?s2) = card (pmm_free s1)" by simp
        ultimately have "2 * (unat count - unat (i + 1)) + 2 \<le> card (pmm_free ?s2)" using en i i1(1) by linarith
        then have R: ok "\<forall>j. i + 1 \<le> j \<and> j < count \<longrightarrow> user_frame t d (attr + j * PAGE_SIZE) \<noteq> 0" using IH by blast+
        show ok by (rule R(1))
        have "window_same ((+) (unat (dmmap_page_count ?s2)) ` {unat head + unat (i + 1)..<unat head + unat count})
            {?A + unat (i + 1)..<?A + unat count} d ?s2 t" using IH R(1) by blast
        moreover have "user_frame ?s2 d ?a \<noteq> 0"
        proof -
          have "4 \<le> card (pmm_free s)" using en i by linarith
          then have "user_frame s1 d ?a \<noteq> 0" using P by blast
          then show ?thesis by (simp add: user_frame_def get2)
        qed
        ultimately have here: "user_frame t d ?a \<noteq> 0" using window_same_frames pn(3) [OF True] by metis
        show "\<forall>j. i \<le> j \<and> j < count \<longrightarrow> user_frame t d (attr + j * PAGE_SIZE) \<noteq> 0"
        proof (intro allI impI)
          fix j assume j: "i \<le> j \<and> j < count"
          show "user_frame t d (attr + j * PAGE_SIZE) \<noteq> 0"
          proof (cases "j = i")
            case False
            then have "i + 1 \<le> j" using j i1 by (simp add: word_le_nat_alt word_unat_eq_iff)
            with R(2) j show ?thesis by blast
          qed (use here in simp)
        qed
      qed
    qed
  qed
qed

section \<open>Windows of several pages\<close>

text \<open>The kernel pages of a window: dynamic pages that were not mapped.\<close>

definition fresh_pages :: "nat \<Rightarrow> nat \<Rightarrow> 'a mm_state_scheme \<Rightarrow> 'a mm_state_scheme \<Rightarrow> bool" where
  "fresh_pages h n s t \<longleftrightarrow> h + n \<le> unat (vmmap_page_count s) \<and>
     (\<forall>k. h \<le> k \<and> k < h + n \<longrightarrow> vmm_map s k = None \<and> vmm_map t k \<noteq> None) \<and>
     (\<forall>k. k < h \<or> h + n \<le> k \<longrightarrow> vmm_map t k = vmm_map s k)"

lemma fresh_unmapped:
  assumes "fresh_pages h n s t" and "vmmap_page_count t = vmmap_page_count s"
  shows "vmm_unmapped t = vmm_unmapped s - {h..<h + n}" and "{h..<h + n} \<subseteq> vmm_unmapped s"
proof -
  show "vmm_unmapped t = vmm_unmapped s - {h..<h + n}"
  proof (intro set_eqI)
    fix k
    show "k \<in> vmm_unmapped t \<longleftrightarrow> k \<in> vmm_unmapped s - {h..<h + n}"
      using assms by (cases "h \<le> k \<and> k < h + n") (auto simp: fresh_pages_def vmm_unmapped_def)
  qed
  show "{h..<h + n} \<subseteq> vmm_unmapped s"
    using assms(1) by (auto simp: fresh_pages_def vmm_unmapped_def)
qed

lemma found_run:
  assumes inv: "mm_inv s" and n: "0 < count"
    and run: "vmm_run s (unat count) e0" "e0 \<le> unat (vmm_pos s)"
  obtains q where "vmm_search count (vmm_pos s) s = Some (Some q)" "unat count \<le> unat q" "q \<le> vmm_pos s"
    "vmm_run s (unat count) (unat q)" "unat (q - count + 1) = unat q + 1 - unat count"
    "unat q < unat (vmmap_page_count s)"
proof -
  have n0: "0 < unat count" using n by (simp add: word_less_nat_alt)
  have e0: "0 < e0" "unat count \<le> e0" using run(1) n0 by (auto simp: vmm_run_def)
  from vmm_search_found [OF run(1) e0(1) run(2)] obtain q where
    q: "vmm_search count (vmm_pos s) s = Some (Some q)" "e0 \<le> unat q" "unat q \<le> unat (vmm_pos s)"
      "vmm_run s (unat count) (unat q)" by blast
  have cq: "unat count \<le> unat q" using q(2) e0 by simp
  have qv: "unat q < unat (vmmap_page_count s)" using q(3) inv by (simp add: mm_inv_def vmm_wf_def)
  have "unat (q - count) = unat q - unat count" using cq by (simp add: unat_sub32 word_le_nat_alt)
  moreover have "unat q + 1 \<le> 4294967295" using qv unat_u32_less [of "vmmap_page_count s"] by linarith
  ultimately have "unat (q - count + 1) = unat q + 1 - unat count" using cq n0 by (simp add: unat_add32)
  then show ?thesis using that q cq qv by (simp add: word_le_nat_alt)
qed

lemma vmm_mmap_pde_page_correct:
  assumes inv: "mm_inv s" and wf: "umm_wf d s" and low: "direct_low s" and n: "0 < count"
    and run: "vmm_run s (unat count) e0" "e0 \<le> unat (vmm_pos s)"
    and attr: "unat attr mod 4096 = 0" "unat attr + unat count * 4096 \<le> 3221225472"
  shows "\<exists>a t. vmm_mmap_pde_page attr count (page d) s = Some (a, t) \<and>
    (a = NULL \<longrightarrow> (\<exists>j<count. user_frame s d (attr + j * PAGE_SIZE) = 0)) \<and>
    (a \<noteq> NULL \<longrightarrow> mm_inv t \<and> umm_wf d t \<and>
      (\<exists>h. unat a = (unat (dmmap_page_count s) + h) * 4096 \<and> fresh_pages h (unat count) s t \<and>
        window_same ((+) (unat (dmmap_page_count s)) ` {h..<h + unat count})
          {unat attr div 4096..<unat attr div 4096 + unat count} d s t \<and>
        (\<forall>j<count. vmm_map t (h + unat j) = Some (user_frame t d (attr + j * PAGE_SIZE)) \<or>
          get_umm_value (attr + j * PAGE_SIZE) (page d) t = 0 \<and>
            umm_table s d (pde_index (attr + j * PAGE_SIZE)) = 0))) \<and>
    (2 * unat count + 2 \<le> card (pmm_free s) \<longrightarrow> a \<noteq> NULL \<and>
      (\<forall>j<count. user_frame t d (attr + j * PAGE_SIZE) \<noteq> 0))"
proof -
  let ?s0 = "disable_intr s"
  have n0: "0 < unat count" using n by (simp add: word_less_nat_alt)
  have inv0: "mm_inv ?s0" and base0: "mm_base ?s0" using inv by (simp_all add: mm_inv_base)
  have run0: "vmm_run ?s0 k e \<longleftrightarrow> vmm_run s k e" for k e by (simp add: vmm_run_def)
  obtain q where q: "vmm_search count (vmm_pos s) ?s0 = Some (Some q)" "unat count \<le> unat q"
    "vmm_run s (unat count) (unat q)" "unat (q - count + 1) = unat q + 1 - unat count"
    "unat q < unat (vmmap_page_count s)" "q \<le> vmm_pos s"
    using found_run [OF inv0 n, of e0] run unfolding run0 by auto
  let ?h = "q - count + 1"
  have hc: "unat ?h + unat count = unat q + 1" "1 \<le> unat ?h" using q(2,4) by simp_all
  have pm0: "page_mem ?s0 = page_mem s" by simp
  have ent0: "entry ?s0 = entry s" by (rule entry_cong [OF pm0])
  have get0: "get_umm_value b p ?s0 = get_umm_value b p s" for b p by (rule get_umm_value_cong [OF pm0])
  have uf0: "user_frame ?s0 = user_frame s" "umm_table ?s0 = umm_table s"
    by (simp_all add: fun_eq_iff user_frame_def get0 umm_table_def ent0)
  have wf0: "umm_wf d ?s0" by (rule umm_wf_cong [OF wf]) (simp_all add: ent0)
  have same0: "window_same G P d ?s0 t \<longleftrightarrow> window_same G P d s t" for G P t
    by (simp add: window_same_def get0 uf0 user_wf_def)
  have low0: "direct_low ?s0" using low by (simp add: direct_low_def vmm_frame_def)
  obtain ok u where lp: "vmm_pde_map_loop attr (page d) ?h count 0 ?s0 = (ok, u)"
    by (cases "vmm_pde_map_loop attr (page d) ?h count 0 ?s0")
  have fit: "unat ?h + unat count \<le> unat (vmmap_page_count ?s0)" using hc(1) q(5) by simp
  note L = vmm_pde_map_loop_correct [OF base0 wf0 low0 word_coorder.extremum fit attr lp, unfolded same0 uf0]
  show ?thesis
  proof (cases ok)
    case False
    then have "vmm_mmap_pde_page attr count (page d) s = Some (NULL, enable_intr u)"
      using q(1) lp by (simp add: vmm_mmap_pde_page_def Let_def)
    moreover have "\<exists>j<count. user_frame s d (attr + j * PAGE_SIZE) = 0" using L False by blast
    moreover have "\<not> 2 * unat count + 2 \<le> card (pmm_free s)" using L False by simp
    ultimately show ?thesis by blast
  next
    case True
    let ?s2 = "if q = vmm_pos u then u\<lparr>vmm_pos := vmm_pos u - count\<rparr> else u"
    let ?t = "enable_intr (?s2\<lparr>vmm_free_page_count := vmm_free_page_count ?s2 - count\<rparr>)"
    let ?a = "get_globl_page_index ?h ?t * PAGE_SIZE"
    note U = L [THEN conjunct1, THEN mp, OF True]
    have w: "window_same ((+) (unat (dmmap_page_count s)) ` {unat ?h..<unat ?h + unat count})
        {unat attr div 4096..<unat attr div 4096 + unat count} d s u" using U by simp
    have cnt: "dmmap_page_count u = dmmap_page_count s" "vmmap_page_count u = vmmap_page_count s"
      "vmm_free_page_count u = vmm_free_page_count s" "vmm_pos u = vmm_pos s" using w U by (simp_all add: window_same_def)
    have res: "vmm_mmap_pde_page attr count (page d) s = Some (?a, ?t)"
      using q(1) lp True by (simp add: vmm_mmap_pde_page_def Let_def get_globl_page_index_def cnt)
    have hv: "unat ?h < unat (vmmap_page_count s)" using hc n0 q(5) by linarith
    have wfs: "vmm_wf s" "vmm_wf u" using inv U by (simp_all add: mm_inv_def mm_base_def)
    have g: "get_globl_page_index ?h ?t = dmmap_page_count s + ?h" by (simp add: get_globl_page_index_def cnt)
    have gi: "unat (dmmap_page_count s + ?h) = unat (dmmap_page_count s) + unat ?h"
      "unat (dmmap_page_count s + ?h) < 1048576" using vmm_index [OF wfs(1) hv] by linarith+
    have a: "unat ?a = (unat (dmmap_page_count s) + unat ?h) * 4096"
      using unat_page_address [OF gi(2)] by (simp only: g gi(1))
    have pmt: "page_mem ?t = page_mem u" by simp
    have entt: "entry ?t = entry u" by (rule entry_cong [OF pmt])
    have gett: "get_umm_value b p ?t = get_umm_value b p u" for b p by (rule get_umm_value_cong [OF pmt])
    have uft: "user_frame ?t = user_frame u" "umm_table ?t = umm_table u"
      by (simp_all add: fun_eq_iff user_frame_def gett umm_table_def entt)
    have mt: "vmm_map ?t = vmm_map u" by simp
    have un: "vmm_map s k = None" if "unat ?h \<le> k" "k < unat ?h + unat count" for k
    proof -
      have "unat q - k < unat count" "unat q - (unat q - k) = k" using that hc(1) by linarith+
      with q(3) show ?thesis unfolding vmm_run_def by metis
    qed
    have out: "vmm_map u k = vmm_map s k" if "k < unat ?h \<or> unat ?h + unat count \<le> k" for k
    proof -
      have "k < unat ?h + unat (0 :: u32) \<or> unat ?h + unat count \<le> k" using that by simp
      with U have "vmm_map u k = vmm_map ?s0 k" by blast
      then show ?thesis by simp
    qed
    have inn: "vmm_map u k \<noteq> None" if "unat ?h \<le> k" "k < unat ?h + unat count" for k
      using U that by simp
    have fresh: "fresh_pages (unat ?h) (unat count) s ?t"
      using fit un out inn unfolding fresh_pages_def mt by simp
    have same: "window_same G P d s ?t \<longleftrightarrow> window_same G P d s u" for G P
      by (simp add: window_same_def gett uft user_wf_def)
    have cnt_t: "vmmap_page_count ?t = vmmap_page_count s" by (simp add: cnt)
    note um = fresh_unmapped [OF fresh cnt_t]
    have "unat count \<le> card (vmm_unmapped s)" using card_mono [OF finite_vmm_unmapped um(2)] by simp
    then have fc: "unat (vmm_free_page_count s - count) = card (vmm_unmapped ?t)"
      unfolding um(1) using inv um(2) by (simp add: mm_inv_def unat_sub32 word_le_nat_alt card_Diff_subset)
    have "vmm_wf ?t"
      using wfs(2) n0 hc q(2,5,6) by (auto simp: vmm_wf_def cnt unat_sub32 word_le_nat_alt)
    moreover have "pmm_ok ?t" using U by (simp add: mm_base_def)
    moreover have "vmm_free_page_count ?t = vmm_free_page_count s - count" by (simp add: cnt)
    ultimately have inv': "mm_inv ?t" using fc by (simp only: mm_inv_def)
    have wfu: "umm_wf d u" using U by blast
    have wf': "umm_wf d ?t" by (rule umm_wf_cong [OF wfu]) (simp_all add: entt)
    have pages: "vmm_map ?t (unat ?h + unat j) = Some (user_frame ?t d (attr + j * PAGE_SIZE)) \<or>
        get_umm_value (attr + j * PAGE_SIZE) (page d) ?t = 0 \<and>
          umm_table s d (pde_index (attr + j * PAGE_SIZE)) = 0" if j: "j < count" for j
    proof -
      have "unat (?h + j) = unat ?h + unat j"
        using word_add_index(1) [OF fit j unat_u32_less] .
      then show ?thesis using U j unfolding mt uft gett by (metis word_coorder.extremum)
    qed
    have "a \<noteq> NULL" if "unat a = (unat (dmmap_page_count s) + unat ?h) * 4096" for a :: u32
      using that hc(2) by auto
    with a have nn: "?a \<noteq> NULL" by blast
    then have no: "?a = NULL \<longrightarrow> (\<exists>j<count. user_frame s d (attr + j * PAGE_SIZE) = 0)" by blast
    have enough: "2 * unat count + 2 \<le> card (pmm_free s) \<Longrightarrow> j < count \<Longrightarrow>
        user_frame ?t d (attr + j * PAGE_SIZE) \<noteq> 0" for j
      using L unfolding uft by simp
    show ?thesis
      by (rule exI [of _ "?a"], rule exI [of _ "?t"], intro conjI impI exI [of _ "unat ?h"] allI)
        (rule res no [THEN mp] inv' wf' a fresh w [folded same] pages nn enough; assumption?)+
  qed
qed

section \<open>Windows of one page\<close>

lemma vmm_frame_mapped: "vmm_map t i = Some f \<Longrightarrow> vmm_frame t (dmmap_page_count t + of_nat i) = f \<and> 0 < f"
  using vmm_map_some(1) [of t i f] by (simp add: vmm_map_def Let_def split: if_splits)

lemma user_page_cong:
  assumes "unat a div 4096 = unat b div 4096"
  shows "get_umm_value a p s = get_umm_value b p s" and "pde_index a = pde_index b"
proof -
  have "a div PAGE_SIZE = b div PAGE_SIZE" using assms by (simp add: word_unat_eq_iff)
  then have "pde_index a = pde_index b \<and> pte_index a = pte_index b" by (simp add: same_user_page)
  then show "get_umm_value a p s = get_umm_value b p s" "pde_index a = pde_index b"
    by (simp_all add: get_umm_value_def)
qed

lemma vmm_same_window:
  assumes "vmm_same G s t" and "pmm_free t \<subseteq> pmm_free s"
  shows "window_same G P d s t" and "get_umm_value b p t = get_umm_value b p s"
    and "user_frame t d b = user_frame s d b" and "umm_table t d x = umm_table s d x" and "entry t = entry s"
proof -
  have pm: "page_mem t = page_mem s" using assms(1) by (simp add: vmm_same_def)
  show g: "get_umm_value b p t = get_umm_value b p s" for b p by (rule get_umm_value_cong [OF pm])
  show e: "entry t = entry s" by (rule entry_cong [OF pm])
  show "user_frame t d b = user_frame s d b" "umm_table t d x = umm_table s d x"
    by (simp_all add: user_frame_def g umm_table_def e)
  show "window_same G P d s t"
    using assms user_wf_cong [of t d s]
    by (simp add: window_same_def vmm_same_def user_frame_def g umm_table_def e fun_eq_iff)
qed

definition opened :: "nat \<Rightarrow> nat \<Rightarrow> 'a mm_state_scheme \<Rightarrow> 'a mm_state_scheme \<Rightarrow> bool" where
  "opened B n s t \<longleftrightarrow> n = 1 \<and> B < unat (dmmap_page_count s) \<and> t = s \<or>
     (\<exists>h. B = unat (dmmap_page_count s) + h \<and> fresh_pages h n s t)"

definition page_shared :: "nat \<Rightarrow> u32 \<Rightarrow> nat \<Rightarrow> 'a mm_state_scheme \<Rightarrow> 'a mm_state_scheme \<Rightarrow> bool" where
  "page_shared B a d s t \<longleftrightarrow>
     vmm_frame t (of_nat B) = user_frame t d a \<and> user_frame t d a \<noteq> 0 \<or>
     get_umm_value a (page d) t = 0 \<and> umm_table s d (pde_index a) = 0"

abbreviation dynamic :: "'a mm_state_scheme \<Rightarrow> nat set" where
  "dynamic s \<equiv> {g. unat (dmmap_page_count s) \<le> g}"

lemma vmm_alloc_one_none:
  assumes inv: "mm_inv s" and run: "vmm_run s 1 e0" "e0 \<le> unat (vmm_pos s)" and none: "pmm_avail s = {}"
  shows "\<exists>t. vmm_alloc_page 1 s = Some (NULL, t)"
proof -
  let ?s0 = "disable_intr s"
  have r: "vmm_run ?s0 k e \<longleftrightarrow> vmm_run s k e" for k e by (simp add: vmm_run_def)
  have inv0: "mm_inv ?s0" using inv by simp
  obtain q where q: "vmm_search 1 (vmm_pos s) ?s0 = Some (Some q)"
    using found_run [OF inv0, of 1 e0] run by (auto simp: r)
  obtain p u where al: "pmm_alloc_page ?s0 = (p, u)" by (cases "pmm_alloc_page ?s0")
  have "pmm_inv ?s0" "pmm_avail ?s0 = {}" using inv0 none by (simp_all add: mm_inv_def pmm_ok_def)
  with pmm_alloc_page_correct [OF this(1) al] have "p = NULL" by (auto simp: pmm_avail_def split: if_splits)
  then have "vmm_map_loop (q - 1 + 1) 1 0 ?s0 = (False, u)"
    by (simp add: vmm_map_loop.simps [of _ _ 0] al vmm_unmap_loop.simps [of _ 0])
  with q show ?thesis by (simp add: vmm_alloc_page_def Let_def)
qed

lemma fresh_one:
  assumes "vmm_map s h = None" "h < unat (vmmap_page_count s)" "vmm_map t = (vmm_map s)(h \<mapsto> f)"
  shows "fresh_pages h 1 s t"
  using assms by (auto simp: fresh_pages_def le_less_Suc_eq)

lemma one_page_absent:
  assumes inv: "mm_inv s" and wf: "umm_wf d s" and low: "direct_low s" and a: "unat a mod 4096 = 0" "a < PAGE_OFFSET"
    and run: "vmm_run s 1 e0" "e0 \<le> unat (vmm_pos s)" and none: "user_frame s d a = 0"
  shows "\<exists>p t. vmm_alloc_page 1 s = Some (p, t) \<and> (4 \<le> card (pmm_free s) \<longrightarrow> p \<noteq> NULL) \<and> (p \<noteq> NULL \<longrightarrow>
    (\<exists>h u x. set_umm_value a (set_page (get_globl_phy_attr p t) PAGE_PWU) (page d) t = (x, u) \<and>
      mm_inv u \<and> umm_wf d u \<and> window_same (dynamic s) {unat a div 4096} d s u \<and>
      unat p = (unat (dmmap_page_count s) + h) * 4096 \<and> fresh_pages h 1 s u \<and>
      page_shared (unat (dmmap_page_count s) + h) a d s u \<and>
      (4 \<le> card (pmm_free s) \<longrightarrow> user_frame u d a \<noteq> 0)))"
proof (cases "pmm_avail s = {}")
  case True
  obtain b u where al: "pmm_alloc_page s = (b, u)" by (cases "pmm_alloc_page s")
  have "pmm_ok s" "pmm_inv s" using inv by (simp_all add: mm_inv_def pmm_ok_def)
  moreover from pmm_alloc_page_correct [OF this(2) al] True have "b = NULL" by (auto simp: pmm_avail_def split: if_splits)
  ultimately have "\<not> 4 \<le> card (pmm_free s)" using pmm_alloc_page_succeeds [OF _ _ al] by force
  with vmm_alloc_one_none [OF inv run True] show ?thesis by blast
next
  case False
  have "finite (pmm_avail s)" by (rule finite_subset [OF _ finite_pmm_free [of s]]) (auto simp: pmm_avail_def)
  with False have card: "unat (1 :: u32) \<le> card (pmm_avail s)" by (simp add: Suc_le_eq card_gt_0_iff)
  have run': "vmm_run s (unat (1 :: u32)) e0" using run(1) by simp
  from vmm_alloc_page_correct [OF inv _ run' run(2) card] obtain q m p t where
    t: "vmm_alloc_page 1 s = Some (p, t)" "1 \<le> q" "q \<le> unat (vmm_pos s)" "vmm_run s 1 q"
      "unat p = (unat (dmmap_page_count s) + q) * 4096" "dom m = {q}" "ran m \<subseteq> pmm_free s"
      "vmm_map t = vmm_map s ++ m" "pmm_free t = pmm_free s - ran m" "mm_inv t"
      "vmm_same {unat (dmmap_page_count s) + q} s t" by auto
  obtain f where mq: "m q = Some f" using t(6) by (auto simp: dom_def)
  have f: "f \<in> pmm_free s" using t(7) mq by (auto simp: ran_def)
  have fb: "f < 1048576" using f inv pmm_inv_bound by (auto simp: mm_inv_def pmm_ok_def)
  have f0: "0 < f" using f inv pmm.free_range [of s] by (auto simp: mm_inv_def)
  have mt: "vmm_map t = (vmm_map s)(q \<mapsto> f)"
  proof
    fix k show "vmm_map t k = ((vmm_map s)(q \<mapsto> f)) k"
      using mq t(6) by (cases "k = q") (auto simp: t(8) map_add_def split: option.splits)
  qed
  have dm: "dmmap_page_count t = dmmap_page_count s" "vmmap_page_count t = vmmap_page_count s"
    using t(11) by (simp_all add: vmm_same_def)
  have qv: "q < unat (vmmap_page_count s)" using t(3) inv by (simp add: mm_inv_def vmm_wf_def)
  have wfs: "unat (dmmap_page_count s) + q < 196608" using qv inv by (simp add: mm_inv_def vmm_wf_def)
  have sub: "pmm_free t \<subseteq> pmm_free s" using t(9) by blast
  note W = vmm_same_window [OF t(11) sub]
  have wf_t: "umm_wf d t" using t(9,11) by (intro umm_wf_cong [OF wf]) (auto simp: W(5) vmm_same_def)
  have fq: "vmm_frame t (of_nat (unat (dmmap_page_count s) + q)) = f"
    using vmm_frame_mapped [of t q f] by (simp add: mt dm)
  have "p div PAGE_SIZE = of_nat (unat (dmmap_page_count s) + q)"
    unfolding word_unat_eq_iff unat_div_u32 t(5) using wfs by (simp add: unat_of_nat_u32 del: of_nat_add)
  moreover have "p mod PAGE_SIZE = 0" by (simp add: word_unat_eq_iff t(5))
  ultimately have g: "get_globl_phy_attr p t = page f" by (simp add: kernel_phy_attr fq del: of_nat_add)
  obtain x u where set: "set_umm_value a (set_page (page f) PAGE_PWU) (page d) t = (x, u)"
    by (cases "set_umm_value a (set_page (page f) PAGE_PWU) (page d) t")
  have base: "mm_base t" using t(10) by (simp add: mm_inv_base)
  note S = set_umm_value_base [OF base wf_t a(2) set]
  note S' = set_umm_value_correct [OF t(10) wf_t a(2) set]
  have get: "get_umm_value b (page d) u = (if x \<noteq> 0 \<and> b div PAGE_SIZE = a div PAGE_SIZE
      then set_page (page f) PAGE_PWU else get_umm_value b (page d) s)" if "b < PAGE_OFFSET" for b
    using S that get_umm_value_cong [of u t] by (auto simp: W(2) split: if_splits)
  have here: "user_frame s d b = 0" if "unat b div 4096 = unat a div 4096" for b
    using user_page_cong(1) [OF that, of "page d" s] none by (simp add: user_frame_def)
  have page_eq: "b div PAGE_SIZE = a div PAGE_SIZE \<longleftrightarrow> unat b div 4096 = unat a div 4096" for b
    by (simp add: word_unat_eq_iff)
  have us: "umm_same d t u" using S by blast
  have tabs: "umm_table u d y = umm_table s d y" if "unat y < 768" "umm_table s d y \<noteq> 0" for y
    using S that W(4) by simp
  have "a = q" if "m a = Some x" for a x using t(6) that by blast
  then have "ran m = {f}" using mq by (auto simp: ran_def)
  then have "pmm_free u \<subseteq> pmm_free s - {f}" using S t(9) by (auto split: if_splits)
  moreover have "user_frame u d b = (if x \<noteq> 0 \<and> unat b div 4096 = unat a div 4096 then f else user_frame s d b)"
    if "b < PAGE_OFFSET" for b
    using get [OF that] pte_frame_user [OF fb] by (simp add: user_frame_def page_eq)
  ultimately have uw: "user_wf d s \<longrightarrow> user_wf d u" by (intro user_wf_new [OF f])
  have w: "window_same (dynamic s) {unat a div 4096} d s u"
    using us t(11) tabs here uw by (auto simp: window_same_def umm_same_def vmm_same_def get page_eq)
  have fr: "fresh_pages q 1 s u"
    using qv t(4) us mt by (intro fresh_one [where f = f]) (auto simp: umm_same_def vmm_run_def)
  have "vmm_frame u g = vmm_frame t g" for g using us by (simp add: vmm_frame_def umm_same_def)
  then have kf: "vmm_frame u (of_nat (unat (dmmap_page_count s) + q)) = f" using fq by simp
  have sh: "page_shared (unat (dmmap_page_count s) + q) a d s u"
  proof (cases "x = 0")
    case True
    then have tz: "umm_table s d (pde_index a) = 0" using S W(4) by simp
    then have "get_umm_value a (page d) s = 0" by (simp add: get_umm_value_entry [OF wf a(2)])
    with tz True get [OF a(2)] show ?thesis by (simp add: page_shared_def)
  next
    case False
    then have "user_frame u d a = f" using pte_frame_user [OF fb] get [OF a(2)] by (simp add: user_frame_def)
    with f0 kf show ?thesis by (simp add: page_shared_def del: of_nat_add)
  qed
  have "user_frame u d a \<noteq> 0" if "4 \<le> card (pmm_free s)"
  proof -
    have "2 \<le> card (pmm_free t)" using that f by (simp add: t(9) \<open>ran m = {f}\<close>)
    moreover have "pmm_total t \<le> unat (dmmap_page_count t)" using low t(11) by (simp add: direct_low_def vmm_same_def)
    ultimately have "x \<noteq> 0" by (intro set_umm_value_succeeds [OF base _ _ a(2) set])
    then show ?thesis using get [OF a(2)] pte_frame_user [OF fb] f0 by (simp add: user_frame_def)
  qed
  moreover have "p \<noteq> NULL" using t(2,5) by (auto simp: word_unat_eq_iff)
  ultimately show ?thesis
    using t(1) set S' w t(5) fr sh unfolding g [symmetric] by blast
qed

lemma one_page_present:
  assumes inv: "mm_inv s" and wf: "umm_wf d s" and low: "direct_low s" and a: "unat a mod 4096 = 0" "a < PAGE_OFFSET"
    and run: "vmm_run s 1 e0" "e0 \<le> unat (vmm_pos s)" and pres: "user_frame s d a \<noteq> 0"
    and r: "vmm_mmap_page (page (user_frame s d a)) s = (p, t)"
  shows "p \<noteq> NULL \<and> mm_inv t \<and> umm_wf d t \<and> window_same (dynamic s) {unat a div 4096} d s t \<and>
    (\<exists>B. unat p = B * 4096 \<and> B < 1048576 \<and> opened B 1 s t \<and> page_shared B a d s t)"
proof -
  let ?f = "user_frame s d a"
  have fb: "?f < 1048576" by (simp add: user_frame_def pte_frame_bound)
  have pf: "unat (page ?f) = ?f * 4096" by (rule page_address [OF fb])
  have p0: "page ?f \<noteq> 0" using page_eq_0 [OF fb] pres by simp
  have wfs: "unat (dmmap_page_count s) + unat (vmmap_page_count s) \<le> 196608" using inv by (simp add: mm_inv_def vmm_wf_def)
  show ?thesis
  proof (cases "?f < unat (dmmap_page_count s)")
    case True
    then have "page ?f div PAGE_SIZE < dmmap_page_count s" by (simp add: word_less_nat_alt pf)
    then have "p = page ?f" "t = s" using r by (auto simp: vmm_mmap_page_def)
    moreover have "vmm_frame s (of_nat ?f) = ?f" using low True fb by (simp add: direct_low_def unat_of_nat_u32)
    ultimately show ?thesis
      using inv wf pf p0 fb True pres by (intro conjI exI [of _ ?f]) (simp_all add: opened_def page_shared_def)
  next
    case False
    have fr: "unat (dmmap_page_count s) \<le> unat (page ?f) div 4096" "0 < unat (page ?f) div 4096"
      unfolding pf using False pres by simp_all
    have "1 \<le> e0" "vmm_map s e0 = None" using run(1) by (auto simp: vmm_run_def)
    then have ex: "\<exists>i. 1 \<le> i \<and> i \<le> unat (vmm_pos s) \<and> vmm_map s i = None" using run(2) by blast
    from vmm_mmap_page_correct [OF inv fr r] ex obtain i where i: "mm_inv t" "pmm_free t = pmm_free s" "1 \<le> i"
      "i \<le> unat (vmm_pos s)" "vmm_map s i = None" "unat p = (unat (dmmap_page_count s) + i) * 4096"
      "vmm_map t = (vmm_map s)(i \<mapsto> ?f)" "vmm_same {unat (dmmap_page_count s) + i} s t"
      by (auto simp: pf)
    note W = vmm_same_window [OF i(8) eq_refl [OF i(2)]]
    have iv: "i < unat (vmmap_page_count s)" using i(4) inv by (simp add: mm_inv_def vmm_wf_def)
    have dm: "dmmap_page_count t = dmmap_page_count s" using i(8) by (simp add: vmm_same_def)
    have "umm_wf d t" using i(2,8) by (intro umm_wf_cong [OF wf]) (simp_all add: W(5) vmm_same_def)
    moreover have "vmm_frame t (of_nat (unat (dmmap_page_count s) + i)) = ?f"
      using vmm_frame_mapped [of t i ?f] by (simp add: i(7) dm)
    then have "page_shared (unat (dmmap_page_count s) + i) a d s t"
      using pres by (simp add: page_shared_def W(3) del: of_nat_add)
    moreover have "window_same (dynamic s) {unat a div 4096} d s t"
      by (rule window_same_mono [OF W(1)]) auto
    moreover have "opened (unat (dmmap_page_count s) + i) 1 s t"
      using fresh_one [OF i(5) iv i(7)] by (auto simp: opened_def)
    moreover have "p \<noteq> NULL" "unat (dmmap_page_count s) + i < 1048576" using i(3,6) iv wfs by auto
    ultimately show ?thesis using i(1,6) by blast
  qed
qed

section \<open>Bytes of a window\<close>

definition window_pages :: "u32 \<Rightarrow> u32 \<Rightarrow> nat" where
  "window_pages attr len = (unat attr mod 4096 + unat len + 4095) div 4096"

text \<open>Byte by byte: the two addresses lead to the same place, unless the page table for the user's page could
  not be allocated, which the source does not notice.\<close>

definition shares :: "u32 \<Rightarrow> u32 \<Rightarrow> u32 \<Rightarrow> nat \<Rightarrow> 'a mm_state_scheme \<Rightarrow> 'a mm_state_scheme \<Rightarrow> bool" where
  "shares p attr len d s t \<longleftrightarrow> (\<forall>k<len.
     get_globl_phy_attr (p + k) t = user_phy_attr (attr + k) d t \<and> user_frame t d (attr + k) \<noteq> 0 \<or>
     get_umm_value (attr + k) (page d) t = 0 \<and> umm_table s d (pde_index (attr + k)) = 0)"

lemma window_byte:
  assumes "k < len" and "unat attr + unat len \<le> 3221225472"
  defines "j \<equiv> (unat attr mod 4096 + unat k) div 4096"
  shows "j < window_pages attr len" and "unat (attr + k) = unat attr + unat k"
    and "unat (attr + k) div 4096 = unat attr div 4096 + j" and "attr + k < PAGE_OFFSET"
    and "unat (of_nat ((unat attr div 4096 + j) * 4096) :: u32) div 4096 = unat (attr + k) div 4096"
proof -
  have k: "unat k < unat len" using assms(1) by (simp add: word_less_nat_alt)
  let ?o = "unat attr mod 4096 + unat k"
  have "?o div 4096 * 4096 \<le> ?o" by simp
  then have "j * 4096 + 4096 \<le> unat attr mod 4096 + unat len + 4095" using k unfolding j_def by linarith
  then show "j < window_pages attr len" unfolding window_pages_def by linarith
  show u: "unat (attr + k) = unat attr + unat k" using k assms(2) by (simp add: unat_add32)
  then show "attr + k < PAGE_OFFSET" using k assms(2) by (simp add: word_less_nat_alt)
  have "unat attr + unat k = unat attr div 4096 * 4096 + ?o" by simp
  then have "(unat attr + unat k) div 4096 = unat attr div 4096 + j"
    unfolding j_def by (simp only: div_mult_self3 add.commute [of _ ?o])
  then show d: "unat (attr + k) div 4096 = unat attr div 4096 + j" by (simp only: u)
  then have "unat attr div 4096 + j < 1048576" using unat_u32_less [of "attr + k"] by linarith
  then show "unat (of_nat ((unat attr div 4096 + j) * 4096) :: u32) div 4096 = unat (attr + k) div 4096"
    using d by (subst unat_of_nat_u32) simp_all
qed

lemma shares_pages:
  assumes p: "unat p = B * 4096 + unat attr mod 4096" "B + window_pages attr len \<le> 1048576"
    and len: "unat attr + unat len \<le> 3221225472"
    and pages: "\<And>j. j < window_pages attr len \<Longrightarrow> page_shared (B + j) (of_nat ((unat attr div 4096 + j) * 4096)) d s t"
  shows "shares p attr len d s t"
  unfolding shares_def
proof (intro allI impI)
  fix k assume "k < len"
  then have k: "unat k < unat len" by (simp add: word_less_nat_alt)
  let ?A = "unat attr div 4096" and ?o = "unat attr mod 4096 + unat k"
  define j where "j = ?o div 4096"
  have split: "unat attr = ?A * 4096 + unat attr mod 4096" by simp
  note wb = window_byte [OF \<open>k < len\<close> len, folded j_def]
  note jm = wb(1)
  have o: "?o < (j + 1) * 4096"
    unfolding j_def using dividend_less_div_times [of 4096 ?o] by (simp add: algebra_simps)
  have "(B + (j + 1)) * 4096 \<le> 1048576 * 4096" using jm p(2) by (intro mult_le_mono1) simp
  then have "B * 4096 + x < 4294967296" if "x < (j + 1) * 4096" for x using that by (simp add: distrib_right)
  from this [OF o] have fit: "B * 4096 + ?o < 4294967296" .
  have u: "unat (p + k) = B * 4096 + ?o" "unat (attr + k) = ?A * 4096 + ?o"
    using fit p(1) k len split by (simp_all add: unat_add32)
  have d1: "unat (p + k) div 4096 = B + j" "unat (attr + k) div 4096 = ?A + j"
    unfolding u j_def by (simp_all only: div_mult_self3 add.commute [of _ ?o])
  have "unat (p + k) mod 4096 = ?o mod 4096" "unat (attr + k) mod 4096 = ?o mod 4096"
    unfolding u by (simp_all only: mod_mult_self3)
  then have m1: "(p + k) mod PAGE_SIZE = (attr + k) mod PAGE_SIZE" by (simp add: word_unat_eq_iff)
  have "B + j < 4294967296" using jm p(2) by linarith
  then have pd: "(p + k) div PAGE_SIZE = of_nat (B + j)"
    by (simp add: word_unat_eq_iff d1 unat_of_nat_u32 del: of_nat_add)
  note same = user_page_cong [OF wb(5)]
  have "user_frame t d (of_nat ((?A + j) * 4096)) = user_frame t d (attr + k)" by (simp only: user_frame_def same(1))
  with pages [OF jm] show "get_globl_phy_attr (p + k) t = user_phy_attr (attr + k) d t \<and> user_frame t d (attr + k) \<noteq> 0 \<or>
     get_umm_value (attr + k) (page d) t = 0 \<and> umm_table s d (pde_index (attr + k)) = 0"
    unfolding page_shared_def same kernel_phy_attr user_phy_attr_page pd m1 by auto
qed

section \<open>The window of \<open>umm_mmap_kmm\<close>\<close>

lemma window_page_count:
  assumes "0 < len" and "unat attr + unat len \<le> 3221225472"
  defines "a \<equiv> attr AND NOT (PAGE_SIZE - 1)"
  shows "unat a = unat attr div 4096 * 4096" and "unat (attr + len) = unat attr + unat len"
    and "unat ((attr + len - a + PAGE_SIZE - 1) div PAGE_SIZE) = window_pages attr len"
    and "1 \<le> window_pages attr len"
    and "unat attr div 4096 * 4096 + window_pages attr len * 4096 \<le> 3221225472"
proof -
  have l0: "0 < unat len" using assms(1) by (simp add: word_less_nat_alt)
  have "NOT (PAGE_SIZE - 1) = PAGE_MASK" by code_simp
  then show a: "unat a = unat attr div 4096 * 4096" unfolding a_def by (simp only: unat_page_mask)
  show s: "unat (attr + len) = unat attr + unat len" using assms(2) by (simp add: unat_add32)
  have split: "unat attr = unat attr div 4096 * 4096 + unat attr mod 4096" by simp
  have "a \<le> attr + len" by (simp add: word_le_nat_alt a s)
  then have "unat (attr + len - a) = unat attr + unat len - unat attr div 4096 * 4096"
    by (simp only: unat_sub32 a s)
  then have d: "unat (attr + len - a) = unat attr mod 4096 + unat len" using split by linarith
  have "unat (attr + len - a + PAGE_SIZE) = unat attr mod 4096 + unat len + 4096"
    using assms(2) d by (simp add: unat_add32)
  then have "unat (attr + len - a + PAGE_SIZE - 1) = unat attr mod 4096 + unat len + 4095"
    by (subst unat_pred) (simp_all add: word_less_nat_alt)
  then show "unat ((attr + len - a + PAGE_SIZE - 1) div PAGE_SIZE) = window_pages attr len"
    by (simp add: window_pages_def)
  show "1 \<le> window_pages attr len" using l0 by (simp add: window_pages_def)
  have "window_pages attr len * 4096 \<le> unat attr mod 4096 + unat len + 4095"
    unfolding window_pages_def by simp
  then have "unat attr div 4096 * 4096 + window_pages attr len * 4096 < 3221225472 + 4096"
    using split assms(2) by linarith
  moreover have "3221225472 + 4096 = 786433 * (4096 :: nat)" by simp
  ultimately have "(unat attr div 4096 + window_pages attr len) * 4096 < 786433 * 4096" by simp
  then have "unat attr div 4096 + window_pages attr len < 786433" by (simp only: mult_less_cancel2)
  then show "unat attr div 4096 * 4096 + window_pages attr len * 4096 \<le> 3221225472" by simp
qed

lemma opened_bound:
  assumes "mm_inv s" and "opened B n s t" and "0 < n"
  shows "B + n \<le> 1048576"
proof -
  have "unat (dmmap_page_count s) + unat (vmmap_page_count s) \<le> 196608"
    using assms(1) by (simp add: mm_inv_def vmm_wf_def)
  with assms(2) show ?thesis by (auto simp: opened_def fresh_pages_def)
qed

lemma umm_mmap_kmm_correct:
  assumes inv: "mm_inv s" and wf: "umm_wf d s" and low: "direct_low s"
    and len: "0 < len" "unat attr + unat len \<le> 3221225472"
    and run: "vmm_run s (window_pages attr len) e0" "e0 \<le> unat (vmm_pos s)"
  shows "\<exists>p t. umm_mmap_kmm attr len (page d) s = Some (p, t) \<and>
    (p = NULL \<longrightarrow> (\<exists>b<PAGE_OFFSET. unat attr div 4096 \<le> unat b div 4096 \<and>
      unat b div 4096 < unat attr div 4096 + window_pages attr len \<and> user_frame s d b = 0)) \<and>
    (p \<noteq> NULL \<longrightarrow> mm_inv t \<and> umm_wf d t \<and> shares p attr len d s t \<and>
      window_same (dynamic s) {unat attr div 4096..<unat attr div 4096 + window_pages attr len} d s t \<and>
      (\<exists>B. unat p = B * 4096 + unat attr mod 4096 \<and> opened B (window_pages attr len) s t)) \<and>
    (2 * window_pages attr len + 2 \<le> card (pmm_free s) \<longrightarrow> p \<noteq> NULL \<and> (\<forall>k<len. user_frame t d (attr + k) \<noteq> 0))"
proof -
  define a where "a = attr AND NOT (PAGE_SIZE - 1)"
  let ?A = "unat attr div 4096" and ?m = "window_pages attr len"
  let ?c = "(attr + len - a + PAGE_SIZE - 1) div PAGE_SIZE"
  note C = window_page_count [OF len, folded a_def]
  note unf = umm_mmap_kmm_def [of attr len "page d" s, folded a_def, unfolded Let_def]
  have off: "(attr + len > PAGE_OFFSET) = False" using len(2) by (simp add: not_less word_le_nat_alt C(2))
  have al: "unat a mod 4096 = 0" "unat a div 4096 = ?A" "a < PAGE_OFFSET"
    unfolding word_less_nat_alt C(1) using C(4,5) by simp_all
  have c1: "?c = 1 \<longleftrightarrow> ?m = 1" using C(3) by (metis unat_1 word_unat_eq_iff)
  have ua: "of_nat ((?A + j) * 4096) = a + of_nat j * PAGE_SIZE" for j
    using C(1) [symmetric] by (simp add: distrib_right)
  text \<open>What remains once the base page \<open>B\<close> of the window is known.\<close>
  have finish: ?thesis
    if q: "umm_mmap_kmm attr len (page d) s = Some (q + attr - a, t)" "unat q = B * 4096" "q \<noteq> NULL"
      and t: "mm_inv t" "umm_wf d t" "window_same (dynamic s) {?A..<?A + ?m} d s t" "opened B ?m s t"
      and pages: "\<And>j. j < ?m \<Longrightarrow> page_shared (B + j) (a + of_nat j * PAGE_SIZE) d s t"
      and enough: "\<And>j. 2 * ?m + 2 \<le> card (pmm_free s) \<Longrightarrow> j < ?m \<Longrightarrow> user_frame t d (a + of_nat j * PAGE_SIZE) \<noteq> 0"
    for q t B
  proof -
    have bm: "B + ?m \<le> 1048576" using opened_bound [OF inv t(4)] C(4) by simp
    have "unat (attr - a) = unat attr mod 4096"
      by (subst unat_sub32) (simp_all add: word_le_nat_alt C(1) minus_div_mult_eq_mod)
    moreover have "B * 4096 + unat attr mod 4096 < 4294967296"
    proof -
      have "unat attr mod 4096 < 4096" by simp
      then show ?thesis using bm C(4) by linarith
    qed
    ultimately have p: "unat (q + attr - a) = B * 4096 + unat attr mod 4096"
      using q(2) unat_add32 [of q "attr - a"] by (simp add: add_diff_eq)
    have "B \<noteq> 0" using q(2,3) by (auto simp: word_unat_eq_iff)
    with p have "q + attr - a \<noteq> NULL" by (auto simp: word_unat_eq_iff)
    moreover have "shares (q + attr - a) attr len d s t" by (rule shares_pages [OF p bm len(2)]) (simp only: ua pages)
    moreover have "user_frame t d (attr + k) \<noteq> 0" if "2 * ?m + 2 \<le> card (pmm_free s)" "k < len" for k
    proof -
      note wb = window_byte [OF that(2) len(2)]
      have "user_frame t d (of_nat ((?A + (unat attr mod 4096 + unat k) div 4096) * 4096)) \<noteq> 0"
        unfolding ua by (rule enough [OF that(1) wb(1)])
      then show ?thesis using user_page_cong(1) [OF wb(5), of "page d" t] by (simp only: user_frame_def not_False_eq_True)
    qed
    ultimately show ?thesis using q(1) p t by blast
  qed
  show ?thesis
  proof (cases "?m = 1")
    case False
    have mg: "unat a + unat ?c * 4096 \<le> 3221225472" unfolding C(1,3) by (rule C(5))
    have run': "vmm_run s (unat ?c) e0" unfolding C(3) by (rule run(1))
    have c0: "0 < ?c" unfolding word_less_nat_alt C(3) using C(4) by simp
    note M = vmm_mmap_pde_page_correct [OF inv wf low c0 run' run(2) al(1) mg, unfolded al(2) C(3)]
    then obtain q t where q: "vmm_mmap_pde_page a ?c (page d) s = Some (q, t)"
      "q = NULL \<longrightarrow> (\<exists>j<?c. user_frame s d (a + j * PAGE_SIZE) = 0)"
      "q \<noteq> NULL \<longrightarrow> mm_inv t \<and> umm_wf d t \<and>
      (\<exists>h. unat q = (unat (dmmap_page_count s) + h) * 4096 \<and> fresh_pages h ?m s t \<and>
        window_same ((+) (unat (dmmap_page_count s)) ` {h..<h + ?m}) {?A..<?A + ?m} d s t \<and>
        (\<forall>j<?c. vmm_map t (h + unat j) = Some (user_frame t d (a + j * PAGE_SIZE)) \<or>
          get_umm_value (a + j * PAGE_SIZE) (page d) t = 0 \<and>
            umm_table s d (pde_index (a + j * PAGE_SIZE)) = 0))"
      "2 * ?m + 2 \<le> card (pmm_free s) \<longrightarrow> q \<noteq> NULL \<and> (\<forall>j<?c. user_frame t d (a + j * PAGE_SIZE) \<noteq> 0)" by blast
    have res: "umm_mmap_kmm attr len (page d) s = Some (if q = NULL then NULL else q + attr - a, t)"
      unfolding unf off c1 q(1) using False by simp
    show ?thesis
    proof (cases "q = NULL")
      case True
      with q(2) obtain j where j: "j < ?c" "user_frame s d (a + j * PAGE_SIZE) = 0" by blast
      have "unat j < ?m" using j(1) unfolding word_less_nat_alt C(3) .
      then have jb: "unat a + unat j * 4096 < 3221225472" using C(5) unfolding C(1) by linarith
      then have "unat a + unat j * 4096 < 4294967296" by linarith
      note n = page_number [OF al(1) this, unfolded al(2)]
      have "a + j * PAGE_SIZE < PAGE_OFFSET" unfolding word_less_nat_alt n(1) using jb by simp
      with res True j(2) n(2) \<open>unat j < ?m\<close> q(4) show ?thesis by auto
    next
      case nn: False
      with q(3) obtain h where h: "mm_inv t" "umm_wf d t" "unat q = (unat (dmmap_page_count s) + h) * 4096"
        "fresh_pages h ?m s t" "window_same ((+) (unat (dmmap_page_count s)) ` {h..<h + ?m}) {?A..<?A + ?m} d s t"
        "\<forall>j<?c. vmm_map t (h + unat j) = Some (user_frame t d (a + j * PAGE_SIZE)) \<or>
          get_umm_value (a + j * PAGE_SIZE) (page d) t = 0 \<and>
            umm_table s d (pde_index (a + j * PAGE_SIZE)) = 0" by blast
      have dm: "dmmap_page_count t = dmmap_page_count s" using h(5) by (simp add: window_same_def)
      have w: "window_same (dynamic s) {?A..<?A + ?m} d s t" by (rule window_same_mono [OF h(5)]) auto
      have pages: "page_shared (unat (dmmap_page_count s) + h + j) (a + of_nat j * PAGE_SIZE) d s t" if j: "j < ?m" for j
      proof -
        have "j < 4294967296" using j C(5) by linarith
        then have uj: "unat (of_nat j :: u32) = j" by (rule unat_of_nat_u32)
        then have "(of_nat j :: u32) < ?c" unfolding word_less_nat_alt C(3) using j by simp
        with h(6) have "vmm_map t (h + j) = Some (user_frame t d (a + of_nat j * PAGE_SIZE)) \<or>
          get_umm_value (a + of_nat j * PAGE_SIZE) (page d) t = 0 \<and>
            umm_table s d (pde_index (a + of_nat j * PAGE_SIZE)) = 0" by (metis uj)
        then show ?thesis
          using vmm_frame_mapped [of t "h + j" "user_frame t d (a + of_nat j * PAGE_SIZE)"]
          by (auto simp: page_shared_def dm add.assoc)
      qed
      have en: "user_frame t d (a + of_nat j * PAGE_SIZE) \<noteq> 0"
        if "2 * ?m + 2 \<le> card (pmm_free s)" "j < ?m" for j
      proof -
        have "j < 4294967296" using that(2) C(5) by linarith
        then have "(of_nat j :: u32) < ?c" unfolding word_less_nat_alt C(3) using that(2) by (simp add: unat_of_nat_u32)
        with q(4) that(1) show ?thesis by blast
      qed
      show ?thesis
        by (rule finish [OF _ h(3) nn h(1,2) w _ pages en]) (use res nn h(4) in \<open>auto simp: opened_def\<close>)
    qed
  next
    case True
    have run1: "vmm_run s 1 e0" using run(1) True by simp
    have one: "page_shared (B + j) (a + of_nat j * PAGE_SIZE) d s t"
      if "page_shared B a d s t" "j < ?m" for B j t using that True by simp
    have set1: "{?A..<?A + ?m} = {unat a div 4096}" using True al(2) by auto
    have z: "get_page_attr (get_umm_value a (page d) s) = page (user_frame s d a)"
      by (simp add: get_page_attr_page user_frame_def)
    have z0: "page (user_frame s d a) = 0 \<longleftrightarrow> user_frame s d a = 0"
      by (simp add: user_frame_def page_eq_0 [OF pte_frame_bound])
    show ?thesis
    proof (cases "user_frame s d a = 0")
      case none: True
      from one_page_absent [OF inv wf low al(1,3) run1 run(2) none] obtain q t where q: "vmm_alloc_page 1 s = Some (q, t)"
        "4 \<le> card (pmm_free s) \<longrightarrow> q \<noteq> NULL" "q \<noteq> NULL \<longrightarrow> (\<exists>h u x. set_umm_value a (set_page (get_globl_phy_attr q t) PAGE_PWU) (page d) t = (x, u) \<and>
          mm_inv u \<and> umm_wf d u \<and> window_same (dynamic s) {unat a div 4096} d s u \<and>
          unat q = (unat (dmmap_page_count s) + h) * 4096 \<and> fresh_pages h 1 s u \<and>
          page_shared (unat (dmmap_page_count s) + h) a d s u \<and> (4 \<le> card (pmm_free s) \<longrightarrow> user_frame u d a \<noteq> 0))" by blast
      show ?thesis
      proof (cases "q = NULL")
        case qn: True
        then have "umm_mmap_kmm attr len (page d) s = Some (NULL, t)"
          unfolding unf off c1 z q(1) using True none by simp
        moreover have "\<not> 2 * ?m + 2 \<le> card (pmm_free s)" using q(2) qn True by simp
        ultimately show ?thesis using none al(2,3) C(4) by (auto intro!: exI [of _ a])
      next
        case nn: False
        with q(3) obtain h u x where u: "set_umm_value a (set_page (get_globl_phy_attr q t) PAGE_PWU) (page d) t = (x, u)"
          "mm_inv u" "umm_wf d u" "window_same (dynamic s) {unat a div 4096} d s u"
          "unat q = (unat (dmmap_page_count s) + h) * 4096" "fresh_pages h 1 s u"
          "page_shared (unat (dmmap_page_count s) + h) a d s u"
          "4 \<le> card (pmm_free s) \<longrightarrow> user_frame u d a \<noteq> 0" by blast
        have res: "umm_mmap_kmm attr len (page d) s = Some (q + attr - a, u)"
          unfolding unf off c1 z q(1) using True none nn u(1) by simp
        have op: "opened (unat (dmmap_page_count s) + h) ?m s u" using u(6) True by (auto simp: opened_def)
        have "user_frame u d (a + of_nat j * PAGE_SIZE) \<noteq> 0" if "2 * ?m + 2 \<le> card (pmm_free s)" "j < ?m" for j
          using that True u(8) by simp
        from finish [OF res u(5) nn u(2,3) u(4) [folded set1] op one [OF u(7)] this] show ?thesis .
      qed
    next
      case pres: False
      obtain q t where q: "vmm_mmap_page (page (user_frame s d a)) s = (q, t)"
        by (cases "vmm_mmap_page (page (user_frame s d a)) s")
      from one_page_present [OF inv wf low al(1,3) run1 run(2) pres q] obtain B where B: "q \<noteq> NULL" "mm_inv t"
        "umm_wf d t" "window_same (dynamic s) {unat a div 4096} d s t" "unat q = B * 4096" "opened B 1 s t"
        "page_shared B a d s t" by blast
      have res: "umm_mmap_kmm attr len (page d) s = Some (q + attr - a, t)"
        unfolding unf off c1 z q using True pres z0 B(1) by simp
      have "user_frame t d (a + of_nat j * PAGE_SIZE) \<noteq> 0" if "2 * ?m + 2 \<le> card (pmm_free s)" "j < ?m" for j
        using that True window_same_frames [OF B(4) al(3) pres] pres by simp
      from finish [OF res B(5,1,2,3) B(4) [folded set1] B(6) [folded True] one [OF B(7)] this] show ?thesis .
    qed
  qed
qed

section \<open>Closing a window\<close>

lemma opened_vmm_map:
  assumes "opened B n s t"
  shows "(if B < unat (dmmap_page_count s) then t = s else
    {B - unat (dmmap_page_count s)..<B - unat (dmmap_page_count s) + n} \<subseteq> dom (vmm_map t) \<and>
    vmm_map t |` (- {B - unat (dmmap_page_count s)..<B - unat (dmmap_page_count s) + n}) = vmm_map s)"
proof (cases "B < unat (dmmap_page_count s)")
  case True
  then show ?thesis using assms by (auto simp: opened_def)
next
  case False
  then obtain h where h: "B = unat (dmmap_page_count s) + h" "fresh_pages h n s t"
    using assms by (auto simp: opened_def)
  have "vmm_map t |` (- {h..<h + n}) = vmm_map s"
  proof
    fix k show "(vmm_map t |` (- {h..<h + n})) k = vmm_map s k"
      using h(2) by (cases "h \<le> k \<and> k < h + n") (auto simp: fresh_pages_def restrict_map_def)
  qed
  moreover have "{h..<h + n} \<subseteq> dom (vmm_map t)" using h(2) by (auto simp: fresh_pages_def)
  ultimately show ?thesis using h(1) by simp
qed

lemma umm_ummap_kmm_correct:
  assumes inv: "mm_inv s" "mm_inv t" and len: "0 < len" "unat attr + unat len \<le> 3221225472"
    and op: "opened B (window_pages attr len) s t" and p: "unat p = B * 4096 + unat attr mod 4096"
    and w: "window_same (dynamic s) P d s t"
  defines "u \<equiv> umm_ummap_kmm p len t"
  shows "mm_inv u \<and> vmm_map u = vmm_map s \<and> pmm_free u = pmm_free t \<and> window_same (dynamic s) {} d t u \<and>
    page_mem u = page_mem t"
proof -
  let ?m = "window_pages attr len"
  have m1: "1 \<le> ?m" and ml: "?m * 4096 \<le> 3221225472 + 4095" using window_page_count(4,5) [OF len] by simp_all
  have bound: "B + ?m \<le> 196608 \<or> B < unat (dmmap_page_count s) \<and> ?m = 1" and dv: "unat (dmmap_page_count s) + unat (vmmap_page_count s) \<le> 196608"
    using op inv(1) by (auto simp: opened_def fresh_pages_def mm_inv_def vmm_wf_def)
  then have bm: "B + ?m \<le> 196609" by auto
  have pm: "window_pages p len = ?m" by (simp add: window_pages_def p)
  have lm: "unat len \<le> ?m * 4096" unfolding window_pages_def by linarith
  have pl: "unat p + unat len \<le> 3221225472"
  proof -
    have "unat attr mod 4096 < 4096" by simp
    then show ?thesis using p lm bm by linarith
  qed
  define b where "b = p AND NOT (PAGE_SIZE - 1)"
  note C = window_page_count [OF len(1) pl, folded b_def, unfolded pm]
  let ?c = "(p + len - b + PAGE_SIZE - 1) div PAGE_SIZE"
  have ub: "unat b = B * 4096" using C(1) p by simp
  have u: "u = vmm_ummap_page b ?c t" by (simp only: u_def umm_ummap_kmm_def Let_def b_def)
  have dm: "dmmap_page_count t = dmmap_page_count s" using w by (simp add: window_same_def)
  have bd: "unat (b div PAGE_SIZE) = B" by (simp add: ub)
  note O = opened_vmm_map [OF op]
  show ?thesis
  proof (cases "B < unat (dmmap_page_count s)")
    case True
    then have "\<not> b div PAGE_SIZE \<ge> dmmap_page_count t" by (simp add: word_le_nat_alt ub dm)
    then have "u = t" by (simp add: u vmm_ummap_page_def)
    with True O inv show ?thesis by simp
  next
    case False
    define h where "h = B - unat (dmmap_page_count s)"
    have B: "B = unat (dmmap_page_count s) + h" using False by (simp add: h_def)
    have hb: "unat (of_nat h :: u32) = h" using B bm by (intro unat_of_nat_u32) linarith
    have "unat (dmmap_page_count s + of_nat h) = B" using B bm by (subst unat_add32) (simp_all add: hb)
    moreover from this have "unat ((dmmap_page_count s + of_nat h) * PAGE_SIZE) = B * 4096"
      using bm unat_page_address [of "dmmap_page_count s + of_nat h"] by simp
    ultimately have be: "b = (dmmap_page_count t + of_nat h) * PAGE_SIZE" by (simp add: word_unat_eq_iff ub dm)
    have O': "{h..<h + unat ?c} \<subseteq> dom (vmm_map t)" "vmm_map t |` (- {h..<h + unat ?c}) = vmm_map s"
      using O False unfolding C(3) h_def by simp_all
    have c0: "0 < ?c" unfolding word_less_nat_alt C(3) using m1 by simp
    from vmm_ummap_page_correct [OF inv(2) c0 O'(1), folded be, folded u]
    have U: "mm_inv u" "vmm_map u = vmm_map s" "pmm_free u = pmm_free t"
      "vmm_same ((+) (unat (dmmap_page_count t)) ` {h..<h + unat ?c}) t u" unfolding O'(2) by blast+
    have "window_same (dynamic s) {} d t u" by (rule window_same_mono [OF vmm_same_window(1) [OF U(4) eq_refl [OF U(3)]]]) (auto simp: dm)
    with U show ?thesis by (simp add: vmm_same_def)
  qed
qed

section \<open>A sample address space\<close>

text \<open>The user's pages 1 and 2 are frames 5 and 4; the page table is frame 2, the directory frame 1.\<close>

definition umm_sample_mapped :: mm_state where
  "umm_sample_mapped = mm_sample\<lparr>pmm_bitmap := [0x37, 0x00], pmm_free_page_count := 11,
     page_mem := (\<lambda>_. 0)(0x1000 := 0x2007, 0x2004 := 0x5007, 0x2008 := 0x4007)\<rparr>"

lemma umm_sample_entry:
  assumes "k < 1048576" "unat i < 1024"
  shows "entry umm_sample_mapped k i = (if k = 1 \<and> i = 0 then 0x2007 else if k = 2 \<and> i = 1 then 0x5007
    else if k = 2 \<and> i = 2 then 0x4007 else 0)"
proof -
  have c: "page 1 + 4 * 0 = (0x1000 :: u32)" "page 2 + 4 * 1 = (0x2004 :: u32)" "page 2 + 4 * 2 = (0x2008 :: u32)" by simp_all
  show ?thesis
    using cell_inj [OF assms, of 1 0] cell_inj [OF assms, of 2 1] cell_inj [OF assms, of 2 2]
    by (simp add: entry_def read_entry_def umm_sample_mapped_def mm_sample_def)
qed

lemma umm_sample_free: "pmm_free umm_sample_mapped = insert 3 {6..<16}"
proof -
  have "list_all (\<lambda>i. (\<not> bit ([0x37, 0x00 :: u8] ! (i div 8)) (i mod 8)) = (i = 3 \<or> 6 \<le> i)) [0..<16]" by code_simp
  then show ?thesis
    by (auto simp: pmm_free_def umm_sample_mapped_def mm_sample_def list_all_iff)
qed

lemma umm_sample_mapped_facts:
  "mm_inv umm_sample_mapped" "umm_wf 1 umm_sample_mapped" "direct_low umm_sample_mapped"
  "n \<le> e \<Longrightarrow> vmm_run umm_sample_mapped n e" "vmm_pos umm_sample_mapped = 15" "vmm_map umm_sample_mapped = Map.empty"
  "dmmap_page_count umm_sample_mapped = 16"
  "get_umm_value 0x1ffc (page 1) umm_sample_mapped = 0x5007" "get_umm_value 0x2000 (page 1) umm_sample_mapped = 0x4007"
proof -
  let ?s = umm_sample_mapped
  note F = umm_sample_free
  have T: "pmm_total ?s = 16" by (simp add: pmm_total_def umm_sample_mapped_def mm_sample_def)
  have "pmm_wf ?s" "pmm_free_page_count ?s = 11" "pmm_head_pos ?s = 3" "pmm_tail_pos ?s = 15"
    by (simp_all add: pmm_wf_def umm_sample_mapped_def mm_sample_def)
  then have ok: "pmm_ok ?s" by (auto simp: pmm_ok_def pmm_inv_def F)
  show dm: "dmmap_page_count ?s = 16" and pos: "vmm_pos ?s = 15" by (simp_all add: umm_sample_mapped_def mm_sample_def)
  show m: "vmm_map ?s = Map.empty"
    unfolding mm_sample_map [symmetric] by (rule vmm_map_cong) (simp_all add: umm_sample_mapped_def)
  show "vmm_run ?s n e" if "n \<le> e" using that by (simp add: vmm_run_def m)
  have vm: "vmmap_page_count ?s = 16" "vmm_free_page_count ?s = 16" by (simp_all add: umm_sample_mapped_def mm_sample_def)
  have "vmm_unmapped ?s = {..<16}" by (auto simp: vmm_unmapped_def m vm)
  then show "mm_inv ?s" using ok by (simp add: mm_inv_def vmm_wf_def dm vm pos)
  have "unat (globl_mmap_pte ?s g) div 4096 = unat g" if "unat g < 16" for g
    using set_page_div [of g] that by (simp add: umm_sample_mapped_def mm_sample_def word_less_nat_alt)
  then show "direct_low ?s" by (simp add: direct_low_def T dm vmm_frame_def)
  note e = umm_sample_entry
  have U: "umm_table ?s 1 i = (if i = 0 then 2 else 0)" if "unat i < 768" for i
    using e [of 1 i] that by (simp add: umm_table_def pte_frame_def)
  show wf: "umm_wf 1 ?s" using U e [of 1] F T dm by (auto simp: umm_wf_def split: if_splits)
  have i: "pde_index 0x1ffc = 0" "pte_index 0x1ffc = 1" "pde_index 0x2000 = 0" "pte_index 0x2000 = 2" by code_simp+
  show "get_umm_value 0x1ffc (page 1) ?s = 0x5007" "get_umm_value 0x2000 (page 1) ?s = 0x4007"
    by (rule trans [OF get_umm_value_entry [OF wf]]; simp add: i U e Let_def del: One_nat_def)+
qed

lemma umm_sample_frames:
  assumes "b < PAGE_OFFSET"
  shows "user_frame umm_sample_mapped 1 b = (if unat b div 4096 = 1 then 5 else if unat b div 4096 = 2 then 4 else 0)"
proof -
  let ?s = umm_sample_mapped
  have i: "unat (pde_index b) = unat b div 4194304" "unat (pte_index b) = unat b div 4096 mod 1024"
    by (simp_all add: unat_pde_index unat_pte_index)
  have b1: "unat (pde_index b) < 768" using assms by (simp add: user_index)
  have U: "umm_table ?s 1 (pde_index b) = (if pde_index b = 0 then 2 else 0)"
    using umm_sample_entry [of 1 "pde_index b"] b1 by (simp add: umm_table_def pte_frame_def)
  have E: "entry ?s 2 (pte_index b) = (if pte_index b = 1 then 0x5007 else if pte_index b = 2 then 0x4007 else 0)"
    using umm_sample_entry [of 2 "pte_index b"] pte_index_bound [of b] by simp
  have z: "pde_index b = 0 \<longleftrightarrow> unat b div 4096 < 1024" "pte_index b = 1 \<longleftrightarrow> unat b div 4096 mod 1024 = 1"
    "pte_index b = 2 \<longleftrightarrow> unat b div 4096 mod 1024 = 2"
    using i by (auto simp: word_unat_eq_iff)
  have "get_umm_value b (page 1) ?s = (if unat b div 4096 = 1 then 0x5007 else if unat b div 4096 = 2 then 0x4007 else 0)"
    by (rule trans [OF get_umm_value_entry [OF umm_sample_mapped_facts(2) assms]]) (auto simp: U E z Let_def simp del: One_nat_def)
  then show ?thesis by (simp add: user_frame_def pte_frame_def)
qed

lemma umm_sample_user_wf: "user_wf 1 umm_sample_mapped"
  by (auto simp: user_wf_def umm_sample_frames umm_sample_free simp del: One_nat_def split: if_splits)

lemma umm_sample_request:
  "0 < (8 :: u32)" "unat (0x1ffc :: u32) + unat (8 :: u32) \<le> 3221225472"
  "vmm_run umm_sample_mapped (window_pages 0x1ffc 8) 15" "15 \<le> unat (vmm_pos umm_sample_mapped)"
  "window_pages 0x1ffc 8 = 2"
proof -
  show n: "window_pages 0x1ffc 8 = 2" by (simp add: window_pages_def)
  show "vmm_run umm_sample_mapped (window_pages 0x1ffc 8) 15" "15 \<le> unat (vmm_pos umm_sample_mapped)"
    unfolding n umm_sample_mapped_facts(5) by (simp_all add: umm_sample_mapped_facts(4))
qed simp_all

lemma umm_sample_present:
  "user_frame umm_sample_mapped 1 0x1ffc = 5" "user_frame umm_sample_mapped 1 0x2000 = 4"
  "\<not> (\<exists>b<PAGE_OFFSET. unat (0x1ffc :: u32) div 4096 \<le> unat b div 4096 \<and>
     unat b div 4096 < unat (0x1ffc :: u32) div 4096 + window_pages 0x1ffc 8 \<and> user_frame umm_sample_mapped 1 b = 0)"
proof -
  let ?s = umm_sample_mapped
  show fr: "user_frame ?s 1 0x1ffc = 5" "user_frame ?s 1 0x2000 = 4"
    unfolding user_frame_def umm_sample_mapped_facts(8,9) by (simp_all add: pte_frame_def)
  have "user_frame ?s 1 b \<noteq> 0" if "1 \<le> unat b div 4096" "unat b div 4096 < 3" for b
  proof -
    have "unat b div 4096 = unat (0x1ffc :: u32) div 4096 \<or> unat b div 4096 = unat (0x2000 :: u32) div 4096"
      using that by simp arith
    then have "get_umm_value b (page 1) ?s = get_umm_value 0x1ffc (page 1) ?s \<or>
        get_umm_value b (page 1) ?s = get_umm_value 0x2000 (page 1) ?s" using user_page_cong(1) by blast
    with fr show ?thesis by (auto simp: user_frame_def)
  qed
  then show "\<not> (\<exists>b<PAGE_OFFSET. unat (0x1ffc :: u32) div 4096 \<le> unat b div 4096 \<and>
      unat b div 4096 < unat (0x1ffc :: u32) div 4096 + window_pages 0x1ffc 8 \<and> user_frame ?s 1 b = 0)"
    unfolding umm_sample_request(5) by (auto simp del: One_nat_def)
qed

section \<open>Properties\<close>

text \<open>C8. \<open>umm_mmap_kmm\<close> opens a kernel window on a range of user memory, on a machine whose frames are all direct
  mapped (\<open>direct_low\<close>: at most 512 MB, since the code reaches page tables through the direct map, \<open>vmm.c:138\<close>) and
  when the search finds room among the dynamic pages: every
  byte of the window and the user's byte are the same physical byte, pages that were absent are allocated
  and entered, no page of the kernel or the user that was mapped is changed, and the window's own
  pages were unmapped (or are one page of the direct map).  The call fails only when some page of
  the range was absent.  A byte is not shared only when its page table was missing and could not be
  allocated (\<open>vmm.c:139\<close>).  Neither happens when two frames for every page and two more are free.\<close>

theorem umm_mmap_kmm_shares:
  assumes "mm_inv s" and "umm_wf d s" and "direct_low s" and "0 < len" and "unat attr + unat len \<le> 3221225472"
    and "vmm_run s (window_pages attr len) e0" and "e0 \<le> unat (vmm_pos s)"
  shows "\<exists>p t. umm_mmap_kmm attr len (page d) s = Some (p, t) \<and>
    (p = NULL \<longrightarrow> (\<exists>b<PAGE_OFFSET. unat attr div 4096 \<le> unat b div 4096 \<and>
      unat b div 4096 < unat attr div 4096 + window_pages attr len \<and> user_frame s d b = 0)) \<and>
    (p \<noteq> NULL \<longrightarrow> mm_inv t \<and> umm_wf d t \<and> shares p attr len d s t \<and>
      window_same (dynamic s) {unat attr div 4096..<unat attr div 4096 + window_pages attr len} d s t \<and>
      (\<exists>B. unat p = B * 4096 + unat attr mod 4096 \<and> opened B (window_pages attr len) s t)) \<and>
    (2 * window_pages attr len + 2 \<le> card (pmm_free s) \<longrightarrow> p \<noteq> NULL \<and> (\<forall>k<len. user_frame t d (attr + k) \<noteq> 0))"
  by (rule umm_mmap_kmm_correct [OF assms])

theorem umm_mmap_kmm_shares_witness:
  "\<exists>p t. umm_mmap_kmm 0x1ffc 8 (page 1) umm_sample_mapped = Some (p, t) \<and>
     get_globl_phy_attr p t = 0x5ffc \<and> get_globl_phy_attr (p + 4) t = 0x4000"
proof -
  let ?s = umm_sample_mapped
  note f = umm_sample_mapped_facts
  from umm_mmap_kmm_shares [OF f(1-3) umm_sample_request(1-4)] umm_sample_present(3) obtain p t where
    p: "umm_mmap_kmm 0x1ffc 8 (page 1) ?s = Some (p, t)" and S: "shares p 0x1ffc 8 1 ?s t"
    and w: "window_same (dynamic ?s) {unat (0x1ffc :: u32) div 4096..<unat (0x1ffc :: u32) div 4096 + window_pages 0x1ffc 8} 1 ?s t"
    by blast
  have "get_umm_value b (page 1) t = get_umm_value b (page 1) ?s" if "b < PAGE_OFFSET" "user_frame ?s 1 b \<noteq> 0" for b
    using w that by (simp add: window_same_def)
  then have g: "get_umm_value 0x1ffc (page 1) t = 0x5007" "get_umm_value 0x2000 (page 1) t = 0x4007"
    using umm_sample_present(1,2) f(8,9) by simp_all
  have "get_page_attr 0x5007 = 0x5000" "get_page_attr 0x4007 = 0x4000" by code_simp+
  then have u: "user_phy_attr 0x1ffc 1 t = 0x5ffc" "user_phy_attr 0x2000 1 t = 0x4000"
    unfolding user_phy_attr_def g by simp_all
  have "get_globl_phy_attr (p + k) t = user_phy_attr (0x1ffc + k) 1 t"
    if "k < 8" "get_umm_value (0x1ffc + k) (page 1) t \<noteq> 0" for k
    using S that unfolding shares_def by blast
  from this [of 0] this [of 4] have "get_globl_phy_attr p t = 0x5ffc" "get_globl_phy_attr (p + 4) t = 0x4000"
    using g u by simp_all
  with p show ?thesis by blast
qed

end
