(* ===== verification/StringLib.thy ===== *)
theory StringLib
  imports Prelude
begin

text \<open>
  The string and memory routines of \<open>src/include/lib/string.h\<close> over a byte memory: a
  function from 32-bit addresses to bytes, so that address arithmetic wraps as it does in
  the kernel.  The routines that stop at a NUL byte are \<open>partial_function (option)\<close>s; \<open>None\<close>
  is the loop that never finds one.
\<close>

type_synonym memory = "u32 \<Rightarrow> u8"

section \<open>Operations\<close>

function memcpy :: "u32 \<Rightarrow> u32 \<Rightarrow> u32 \<Rightarrow> memory \<Rightarrow> memory" where
  "memcpy dst sr len m =
     (if len \<noteq> 0 then memcpy (dst + 1) (sr + 1) (len - 1) (m(dst := m sr)) else m)"
  by pat_completeness auto
termination
  by (relation "measure (\<lambda>(dst, sr, len, m). unat len)") (auto simp: unat_pred_less)

declare memcpy.simps [simp del]

text \<open>The loop stops at the first pair whose difference is 0.\<close>

function memcmp_loop :: "u32 \<Rightarrow> u32 \<Rightarrow> u32 \<Rightarrow> int \<Rightarrow> memory \<Rightarrow> int" where
  "memcmp_loop dst sr len ret m =
     (if len \<noteq> 0 then
        (let ret = uint (m dst) - uint (m sr) in
         if ret = 0 then ret else memcmp_loop (dst + 1) (sr + 1) (len - 1) ret m)
      else ret)"
  by pat_completeness auto
termination
  by (relation "measure (\<lambda>(dst, sr, len, ret, m). unat len)")
    (auto simp: unat_pred_less)

declare memcmp_loop.simps [simp del]

definition memcmp :: "u32 \<Rightarrow> u32 \<Rightarrow> u32 \<Rightarrow> memory \<Rightarrow> int" where
  "memcmp dest src len m = memcmp_loop dest src len 0 m"

function memset :: "u32 \<Rightarrow> u8 \<Rightarrow> u32 \<Rightarrow> memory \<Rightarrow> memory" where
  "memset dst val len m =
     (if len \<noteq> 0 then memset (dst + 1) val (len - 1) (m(dst := val)) else m)"
  by pat_completeness auto
termination
  by (relation "measure (\<lambda>(dst, val, len, m). unat len)") (auto simp: unat_pred_less)

declare memset.simps [simp del]

partial_function (option) strcmp_loop :: "u32 \<Rightarrow> u32 \<Rightarrow> memory \<Rightarrow> int option" where
  "strcmp_loop dest src m =
     (let ret = uint (m src) - uint (m dest) in
      if ret = 0 \<and> m dest \<noteq> 0 then strcmp_loop (dest + 1) (src + 1) m else Some ret)"

definition strcmp :: "u32 \<Rightarrow> u32 \<Rightarrow> memory \<Rightarrow> int option" where
  "strcmp dest src m =
     (case strcmp_loop dest src m of
        None \<Rightarrow> None
      | Some ret \<Rightarrow> Some (if ret < 0 then -1 else if ret > 0 then 1 else ret))"

text \<open>The copying loop of \<open>strcpy\<close> and the inner loop of \<open>strncpy\<close>: the pointers and the
  memory when the NUL of the source is reached.\<close>

partial_function (option) copy_loop :: "u32 \<Rightarrow> u32 \<Rightarrow> memory \<Rightarrow> (u32 \<times> u32 \<times> memory) option" where
  "copy_loop dest src m =
     (if m src \<noteq> 0 then copy_loop (dest + 1) (src + 1) (m(dest := m src)) else Some (dest, src, m))"

definition strcpy :: "u32 \<Rightarrow> u32 \<Rightarrow> memory \<Rightarrow> (u32 \<times> memory) option" where
  "strcpy dest src m =
     (case copy_loop dest src m of
        None \<Rightarrow> None
      | Some (d, s, m1) \<Rightarrow> Some (dest, m1(d := 0)))"

function strncpy_loop :: "u32 \<Rightarrow> u32 \<Rightarrow> u32 \<Rightarrow> memory \<Rightarrow> (u32 \<times> memory) option" where
  "strncpy_loop dest src len m =
     (if len > 0 then
        (case copy_loop dest src m of
           None \<Rightarrow> None
         | Some (d, s, m1) \<Rightarrow> strncpy_loop d s (len - 1) m1)
      else Some (dest, m))"
  by pat_completeness auto
termination
  by (relation "measure (\<lambda>(dest, src, len, m). unat len)") (auto simp: unat_pred word_less_nat_alt)

declare strncpy_loop.simps [simp del]

definition strncpy :: "u32 \<Rightarrow> u32 \<Rightarrow> u32 \<Rightarrow> memory \<Rightarrow> (u32 \<times> memory) option" where
  "strncpy dest src len m =
     (case strncpy_loop dest src len m of
        None \<Rightarrow> None
      | Some (d, m1) \<Rightarrow> Some (dest, m1(d := 0)))"

partial_function (option) find_nul :: "u32 \<Rightarrow> memory \<Rightarrow> u32 option" where
  "find_nul p m = (if m p \<noteq> 0 then find_nul (p + 1) m else Some p)"

text \<open>\<open>while ((*cp++ = *src++))\<close> copies the NUL as well.\<close>

partial_function (option) append_loop :: "u32 \<Rightarrow> u32 \<Rightarrow> memory \<Rightarrow> memory option" where
  "append_loop cp src m =
     (let m1 = m(cp := m src) in
      if m src \<noteq> 0 then append_loop (cp + 1) (src + 1) m1 else Some m1)"

definition strcat :: "u32 \<Rightarrow> u32 \<Rightarrow> memory \<Rightarrow> (u32 \<times> memory) option" where
  "strcat dest src m =
     (case find_nul dest m of
        None \<Rightarrow> None
      | Some cp \<Rightarrow>
          (case append_loop cp src m of None \<Rightarrow> None | Some m1 \<Rightarrow> Some (dest, m1)))"

definition strlen :: "u32 \<Rightarrow> memory \<Rightarrow> u32 option" where
  "strlen src m = (case find_nul src m of None \<Rightarrow> None | Some eos \<Rightarrow> Some (eos + 1 - src - 1))"

partial_function (option) strchr :: "u32 \<Rightarrow> u8 \<Rightarrow> memory \<Rightarrow> u32 option" where
  "strchr s c m =
     (if m s \<noteq> 0 \<and> m s \<noteq> c then strchr (s + 1) c m else Some (if m s = c then s else NULL))"

declare strcmp_loop.simps [code] copy_loop.simps [code] find_nul.simps [code]
  append_loop.simps [code] strchr.simps [code]

section \<open>Offsets into a region\<close>

lemma word_offset_pred:
  fixes x len :: u32
  assumes "x \<noteq> 0" and "len \<noteq> 0"
  shows "x - 1 < len - 1 \<longleftrightarrow> x < len"
  using unat_pred_Suc [OF assms(1)] unat_pred_Suc [OF assms(2)] by (simp add: word_less_nat_alt)

lemma word_minus_1_max: "\<not> (-1 :: u32) < n"
  by (simp add: not_less)

lemma word_offset_pred0: "len \<noteq> 0 \<Longrightarrow> \<not> (0 - 1 :: u32) < len - 1"
  using word_minus_1_max by simp

text \<open>
  The byte-wise forward copy does what \<open>memcpy\<close> should whenever the destination does not
  start inside the source: when it lies below it, or apart from it, or is the same.
\<close>

lemma memcpy_correct:
  assumes "dst = sr \<or> len \<le> dst - sr"
  shows "memcpy dst sr len m a = (if a - dst < len then m (sr + (a - dst)) else m a)"
  using assms
proof (induction dst sr len m rule: memcpy.induct)
  case (1 dst sr len m)
  note unf = memcpy.simps [of dst sr len m]
  show ?case
  proof (cases "len = 0")
    case True
    then show ?thesis unfolding unf by simp
  next
    case False
    let ?m = "m(dst := m sr)" and ?x = "a - dst"
    have pred: "len - 1 \<le> len" using unat_pred_less [OF False] by (simp add: word_le_nat_alt)
    have cond: "dst + 1 = sr + 1 \<or> len - 1 \<le> (dst + 1) - (sr + 1)"
    proof (cases "dst = sr")
      case False
      with "1.prems" have "len \<le> dst - sr" by simp
      with pred have "len - 1 \<le> dst - sr" by (rule order_trans)
      then show ?thesis by simp
    qed simp
    have IH: "memcpy (dst + 1) (sr + 1) (len - 1) ?m a =
        (if a - (dst + 1) < len - 1 then ?m (sr + 1 + (a - (dst + 1))) else ?m a)"
      by (rule "1.IH" [OF False cond])
    have off: "a - (dst + 1) = ?x - 1" "sr + 1 + (?x - 1) = sr + ?x" by simp_all
    have "memcpy dst sr len m = memcpy (dst + 1) (sr + 1) (len - 1) ?m" using False by (simp add: unf)
    then have r: "memcpy dst sr len m a = (if ?x - 1 < len - 1 then ?m (sr + ?x) else ?m a)"
      by (simp only: IH [unfolded off])
    show ?thesis
    proof (cases "?x = 0")
      case True
      moreover have "0 < len" using False by (simp add: word_neq_0_conv)
      ultimately show ?thesis using r word_offset_pred0 [OF False] by simp
    next
      case x: False
      have "sr + ?x \<noteq> dst" if "?x < len"
      proof
        assume "sr + ?x = dst"
        then have "dst - sr = ?x" by (metis add_diff_cancel_left')
        with x that "1.prems" show False by auto
      qed
      with r x word_offset_pred [OF x False] show ?thesis by auto
    qed
  qed
qed

lemma memset_correct: "memset dst val len m a = (if a - dst < len then val else m a)"
proof (induction dst val len m rule: memset.induct)
  case (1 dst val len m)
  note unf = memset.simps [of dst val len m]
  show ?case
  proof (cases "len = 0")
    case True
    then show ?thesis unfolding unf by simp
  next
    case False
    let ?x = "a - dst"
    have "a - (dst + 1) = ?x - 1" by simp
    moreover have "memset dst val len m = memset (dst + 1) val (len - 1) (m(dst := val))"
      using False by (simp add: unf)
    ultimately have r: "memset dst val len m a =
        (if ?x - 1 < len - 1 then val else (m(dst := val)) a)" by (simp only: "1.IH" [OF False])
    show ?thesis
    proof (cases "?x = 0")
      case True
      moreover have "0 < len" using False by (simp add: word_neq_0_conv)
      ultimately show ?thesis using r word_offset_pred0 [OF False] by simp
    next
      case x: False
      then have "a \<noteq> dst" by auto
      with r x word_offset_pred [OF x False] show ?thesis by simp
    qed
  qed
qed

section \<open>Comparing memory\<close>

lemma memcmp_loop_zero:
  "memcmp_loop dst sr len ret m = 0 \<longleftrightarrow>
     (len = 0 \<and> ret = 0) \<or> (\<exists>i<unat len. m (dst + of_nat i) = m (sr + of_nat i))"
proof (induction dst sr len ret m rule: memcmp_loop.induct)
  case (1 dst sr len ret m)
  note unf = memcmp_loop.simps [of dst sr len ret m]
  show ?case
  proof (cases "len = 0")
    case True
    then show ?thesis unfolding unf by simp
  next
    case False
    let ?E = "\<lambda>i. m (dst + of_nat i) = m (sr + of_nat i)"
    have ex: "(\<exists>i<unat len. ?E i) \<longleftrightarrow> ?E 0 \<or> (\<exists>i<unat (len - 1). ?E (Suc i))"
      unfolding unat_pred_Suc [OF False] by (auto simp: less_Suc_eq_0_disj)
    have z: "uint (m dst) - uint (m sr) = 0 \<longleftrightarrow> ?E 0" by (simp add: word_uint_eq_iff)
    show ?thesis
    proof (cases "?E 0")
      case True
      with z have "memcmp_loop dst sr len ret m = 0" using False by (simp add: unf)
      with True ex show ?thesis by blast
    next
      case F: False
      have "memcmp_loop dst sr len ret m =
          memcmp_loop (dst + 1) (sr + 1) (len - 1) (uint (m dst) - uint (m sr)) m"
        using False F z by (simp add: unf Let_def)
      moreover have "dst + 1 + of_nat i = dst + of_nat (Suc i)" "sr + 1 + of_nat i = sr + of_nat (Suc i)"
        for i by simp_all
      ultimately show ?thesis
        using "1.IH" [OF False refl] F z ex False by (simp only: simp_thms)
    qed
  qed
qed

lemma memcmp_zero:
  "memcmp dest src len m = 0 \<longleftrightarrow> len = 0 \<or> (\<exists>i<unat len. m (dest + of_nat i) = m (src + of_nat i))"
  by (simp add: memcmp_def memcmp_loop_zero)

section \<open>C strings\<close>

fun cstring :: "memory \<Rightarrow> u32 \<Rightarrow> u8 list \<Rightarrow> bool" where
  "cstring m p [] \<longleftrightarrow> m p = 0"
| "cstring m p (x # xs) \<longleftrightarrow> m p = x \<and> x \<noteq> 0 \<and> cstring m (p + 1) xs"

lemma cstring_nth: "cstring m p xs \<Longrightarrow> i \<le> length xs \<Longrightarrow> m (p + of_nat i) = (xs @ [0]) ! i"
proof (induction xs arbitrary: p i)
  case Nil
  then show ?case by simp
next
  case (Cons x xs)
  show ?case
  proof (cases i)
    case 0
    with Cons.prems show ?thesis by simp
  next
    case (Suc j)
    then have "p + of_nat i = p + 1 + of_nat j" by simp
    with Cons Suc show ?thesis by (simp only: cstring.simps) simp
  qed
qed

lemma cstring_cong:
  "(\<And>j. j \<le> length xs \<Longrightarrow> m' (p + of_nat j) = m (p + of_nat j)) \<Longrightarrow> cstring m' p xs = cstring m p xs"
proof (induction xs arbitrary: p)
  case Nil
  from Nil [of 0] show ?case by simp
next
  case (Cons x xs)
  have "m' (p + 1 + of_nat j) = m (p + 1 + of_nat j)" if "j \<le> length xs" for j
    using Cons.prems [of "Suc j"] that by (simp add: add.assoc)
  with Cons.IH [of "p + 1"] Cons.prems [of 0] show ?case by simp
qed

lemma find_nul_cstring:
  "cstring m p xs \<Longrightarrow> find_nul p m = Some (p + of_nat (length xs))"
proof (induction xs arbitrary: p)
  case Nil
  then show ?case by (simp add: find_nul.simps)
next
  case (Cons x xs)
  then show ?case by (subst find_nul.simps) (simp add: add.assoc)
qed

lemma strlen_correct: "cstring m p xs \<Longrightarrow> strlen p m = Some (of_nat (length xs))"
  by (simp add: strlen_def find_nul_cstring)

lemma strcmp_loop_cstring:
  "cstring m d xs \<Longrightarrow> cstring m s ys \<Longrightarrow>
     \<exists>r. strcmp_loop d s m = Some r \<and> (r = 0 \<longleftrightarrow> xs = ys) \<and> (r < 0 \<longleftrightarrow> ord_class.lexordp ys xs)"
proof (induction xs arbitrary: d s ys)
  case Nil
  then have "strcmp_loop d s m = Some (uint (m s))" by (simp add: strcmp_loop.simps)
  with Nil show ?case
    by (cases ys) (auto simp: word_neq_0_conv word_less_def)
next
  case (Cons x xs)
  show ?case
  proof (cases ys)
    case Nil
    with Cons.prems have r: "strcmp_loop d s m = Some (- uint x)" "x \<noteq> 0"
      by (simp_all add: strcmp_loop.simps [of d s m] word_uint_eq_iff)
    moreover have "0 < uint x" using r(2) by (simp add: word_neq_0_conv word_less_def)
    ultimately show ?thesis using Nil by simp
  next
    case Y: (Cons y ys')
    show ?thesis
    proof (cases "x = y")
      case True
      with Cons.prems Y have "strcmp_loop d s m = strcmp_loop (d + 1) (s + 1) m"
        by (subst strcmp_loop.simps) simp
      with Cons.IH [of "d + 1" "s + 1" ys'] Cons.prems Y True show ?thesis by simp
    next
      case False
      with Cons.prems Y have "strcmp_loop d s m = Some (uint y - uint x)"
        by (subst strcmp_loop.simps) (simp add: word_uint_eq_iff)
      with False Y show ?thesis by (auto simp: word_uint_eq_iff word_less_def)
    qed
  qed
qed

lemma strcmp_correct:
  assumes "cstring m d xs" and "cstring m s ys"
  shows "strcmp d s m = Some (if xs = ys then 0 else if ord_class.lexordp ys xs then -1 else 1)"
  using strcmp_loop_cstring [OF assms] by (auto simp: strcmp_def)

lemma strchr_correct:
  "cstring m p xs \<Longrightarrow> c \<noteq> 0 \<Longrightarrow>
     strchr p c m = Some (if c \<in> set xs then p + of_nat (length (takeWhile (\<lambda>x. x \<noteq> c) xs)) else NULL)"
proof (induction xs arbitrary: p)
  case Nil
  then show ?case by (simp add: strchr.simps)
next
  case (Cons x xs)
  then show ?case by (subst strchr.simps) (auto simp: add.assoc)
qed

section \<open>Copying strings\<close>

lemma memcpy_Suc:
  assumes "n < 4294967295"
  shows "memcpy dst sr (of_nat (Suc n)) m = memcpy (dst + 1) (sr + 1) (of_nat n) (m(dst := m sr))"
proof -
  have "unat (of_nat (Suc n) :: u32) = Suc n" using assms by (intro unat_of_nat_u32) simp
  then have "(of_nat (Suc n) :: u32) \<noteq> 0" by (metis unat_0 nat.distinct(1))
  moreover have "(of_nat (Suc n) :: u32) - 1 = of_nat n" by simp
  ultimately show ?thesis by (simp only: memcpy.simps [of dst sr "of_nat (Suc n)"] simp_thms if_True not_False_eq_True)
qed

lemma cstring_upd:
  assumes "\<And>j. j \<le> length xs \<Longrightarrow> p + of_nat j \<noteq> a"
  shows "cstring (m(a := v)) p xs = cstring m p xs"
  using assms by (intro cstring_cong) simp

text \<open>The destination does not start inside the string or its NUL.\<close>

definition apart :: "u32 \<Rightarrow> u32 \<Rightarrow> nat \<Rightarrow> bool" where
  "apart dst sr n \<longleftrightarrow> n < unat (dst - sr)"

lemma apart_ne:
  assumes "apart dst sr n" and "j \<le> n"
  shows "sr + of_nat j \<noteq> dst"
proof
  assume "sr + of_nat j = dst"
  then have "dst - sr = of_nat j" by (metis add_diff_cancel_left')
  moreover have "j < 4294967296"
    using assms unat_u32_less [of "dst - sr"] unfolding apart_def by linarith
  ultimately show False using assms unfolding apart_def by (simp add: unat_of_nat_u32)
qed

lemma copy_loop_cstring:
  "cstring m sr xs \<Longrightarrow> apart dst sr (length xs) \<Longrightarrow>
     copy_loop dst sr m = Some (dst + of_nat (length xs), sr + of_nat (length xs),
       memcpy dst sr (of_nat (length xs)) m) \<and>
     memcpy dst sr (of_nat (length xs)) m (sr + of_nat (length xs)) = 0"
proof (induction xs arbitrary: dst sr m)
  case Nil
  then show ?case by (simp add: copy_loop.simps memcpy.simps)
next
  case (Cons x xs)
  have n: "length xs < 4294967295"
    using Cons.prems(2) unat_u32_less [of "dst - sr"] unfolding apart_def list.size by linarith
  have ap: "apart (dst + 1) (sr + 1) (length xs)" using Cons.prems(2) by (simp add: apart_def)
  have "sr + 1 + of_nat j \<noteq> dst" if "j \<le> length xs" for j
    using apart_ne [OF Cons.prems(2), of "Suc j"] that by (simp add: add.assoc)
  then have cs: "cstring (m(dst := m sr)) (sr + 1) xs"
    using Cons.prems(1) by (simp add: cstring_upd)
  have "m sr \<noteq> 0" using Cons.prems(1) by simp
  then have "copy_loop dst sr m = copy_loop (dst + 1) (sr + 1) (m(dst := m sr))"
    by (subst copy_loop.simps) simp
  with Cons.IH [OF cs ap] memcpy_Suc [OF n] show ?case by (simp add: add.assoc del: fun_upd_apply)
qed

lemma memcpy_last:
  assumes "n < 4294967295" and "n < unat (dst - sr) \<or> dst = sr"
  shows "memcpy dst sr (of_nat (Suc n)) m =
    (memcpy dst sr (of_nat n) m)(dst + of_nat n := m (sr + of_nat n))"
proof
  fix a
  have u: "unat (of_nat (Suc n) :: u32) = Suc n" "unat (of_nat n :: u32) = n"
    using assms(1) by (intro unat_of_nat_u32; simp)+
  have c: "dst = sr \<or> of_nat (Suc n) \<le> dst - sr" "dst = sr \<or> of_nat n \<le> dst - sr"
    using assms(2) by (auto simp only: word_le_nat_alt u)
  have "a - dst < of_nat (Suc n) \<longleftrightarrow> a - dst < of_nat n \<or> a - dst = of_nat n"
    unfolding word_less_nat_alt u word_unat_eq_iff by auto
  moreover have "a - dst = of_nat n \<longleftrightarrow> a = dst + of_nat n" by (auto simp: algebra_simps)
  moreover have "\<not> (of_nat n :: u32) < of_nat n" by simp
  ultimately show "memcpy dst sr (of_nat (Suc n)) m a =
      ((memcpy dst sr (of_nat n) m)(dst + of_nat n := m (sr + of_nat n))) a"
    using memcpy_correct [OF c(1), of m a] memcpy_correct [OF c(2), of m a] by auto
qed

lemma strcpy_memcpy:
  assumes "cstring m sr xs" and "apart dst sr (length xs)"
  shows "strcpy dst sr m = Some (dst, memcpy dst sr (of_nat (Suc (length xs))) m)"
proof -
  have n: "length xs < 4294967295"
    using assms(2) unat_u32_less [of "dst - sr"] unfolding apart_def by linarith
  have "m (sr + of_nat (length xs)) = 0" using cstring_nth [OF assms(1), of "length xs"] by simp
  with memcpy_last [OF n, of dst sr m] assms(2) copy_loop_cstring [OF assms]
  show ?thesis by (simp add: strcpy_def apart_def)
qed

lemma cstring_length:
  assumes "apart dst sr (length xs)"
  shows "length xs < 4294967295"
  using assms unat_u32_less [of "dst - sr"] unfolding apart_def by linarith

text \<open>\<open>strncpy\<close> copies the whole source whatever its limit.\<close>

lemma strncpy_loop_done: "m sr = 0 \<Longrightarrow> strncpy_loop dst sr len m = Some (dst, m)"
proof (induction dst sr len m rule: strncpy_loop.induct)
  case (1 dst sr len m)
  then show ?case by (simp add: strncpy_loop.simps [of dst sr len m] copy_loop.simps)
qed

lemma strncpy_strcpy:
  assumes "cstring m sr xs" and "apart dst sr (length xs)" and "0 < len"
  shows "strncpy dst sr len m = strcpy dst sr m"
proof -
  note c = copy_loop_cstring [OF assms(1,2)]
  have "strncpy_loop dst sr len m =
      Some (dst + of_nat (length xs), memcpy dst sr (of_nat (length xs)) m)"
    using assms(3) c strncpy_loop_done
    by (subst strncpy_loop.simps) simp
  then show ?thesis using c by (simp add: strncpy_def strcpy_def)
qed

lemma append_loop_cstring:
  "cstring m sr xs \<Longrightarrow> apart cp sr (length xs) \<Longrightarrow>
     append_loop cp sr m = Some (memcpy cp sr (of_nat (Suc (length xs))) m)"
proof (induction xs arbitrary: cp sr m)
  case Nil
  then show ?case
    by (subst append_loop.simps) (simp add: memcpy.simps [of cp sr 1] memcpy.simps [of _ _ 0])
next
  case (Cons x xs)
  have n: "Suc (length xs) < 4294967295"
    using Cons.prems(2) unat_u32_less [of "cp - sr"] unfolding apart_def list.size by linarith
  have ap: "apart (cp + 1) (sr + 1) (length xs)" using Cons.prems(2) by (simp add: apart_def)
  have "sr + 1 + of_nat j \<noteq> cp" if "j \<le> length xs" for j
    using apart_ne [OF Cons.prems(2), of "Suc j"] that by (simp add: add.assoc)
  then have cs: "cstring (m(cp := m sr)) (sr + 1) xs"
    using Cons.prems(1) by (simp add: cstring_upd)
  have "append_loop cp sr m = append_loop (cp + 1) (sr + 1) (m(cp := m sr))"
    using Cons.prems(1) by (subst append_loop.simps) simp
  with Cons.IH [OF cs ap] memcpy_Suc [OF n] show ?case by (simp del: fun_upd_apply)
qed

text \<open>A string that is copied is that string.\<close>

lemma cstring_memcpy:
  assumes "cstring m sr xs" and "apart dst sr (length xs)"
  shows "cstring (memcpy dst sr (of_nat (Suc (length xs))) m) dst xs"
proof -
  let ?n = "of_nat (Suc (length xs)) :: u32"
  note n = cstring_length [OF assms(2)]
  have u: "unat ?n = Suc (length xs)" using n by (intro unat_of_nat_u32) simp
  have c: "dst = sr \<or> ?n \<le> dst - sr" using assms(2) by (auto simp only: word_le_nat_alt u apart_def)
  have "memcpy dst sr ?n m (dst + of_nat j) = m (sr + of_nat j)" if "j \<le> length xs" for j
  proof -
    have "unat (of_nat j :: u32) = j" using that n by (intro unat_of_nat_u32) simp
    then have "(of_nat j :: u32) < ?n" using that by (simp only: word_less_nat_alt u less_Suc_eq_le)
    then show ?thesis by (simp only: memcpy_correct [OF c] add_diff_cancel_left' if_True)
  qed
  then have "cstring (\<lambda>a. memcpy dst sr ?n m (a - sr + dst)) sr xs"
    using assms(1) by (subst cstring_cong [of _ _ _ m]) (simp_all add: add.commute)
  moreover have "cstring (\<lambda>a. f (a - sr + dst)) p ys = cstring f (p - sr + dst) ys" for f p ys
    by (induction ys arbitrary: p) (simp_all add: algebra_simps)
  ultimately show ?thesis by simp
qed

lemma strcat_correct:
  assumes d: "cstring m dst xs" and s: "cstring m sr ys"
    and ap: "apart (dst + of_nat (length xs)) sr (length ys)"
    and sep: "\<And>j i. j < length xs \<Longrightarrow> i \<le> length ys \<Longrightarrow> dst + of_nat j \<noteq> dst + of_nat (length xs) + of_nat i"
  shows "\<exists>m'. strcat dst sr m = Some (dst, m') \<and> cstring m' dst (xs @ ys)"
proof -
  let ?cp = "dst + of_nat (length xs)" and ?n = "of_nat (Suc (length ys)) :: u32"
  let ?m = "memcpy ?cp sr ?n m"
  note n = cstring_length [OF ap]
  have u: "unat ?n = Suc (length ys)" using n by (intro unat_of_nat_u32) simp
  have c: "?cp = sr \<or> ?n \<le> ?cp - sr" using ap by (auto simp only: word_le_nat_alt u apart_def)
  have "strcat dst sr m = Some (dst, ?m)"
    using find_nul_cstring [OF d] append_loop_cstring [OF s ap] by (simp add: strcat_def)
  moreover have keep: "?m (dst + of_nat j) = m (dst + of_nat j)" if "j < length xs" for j
  proof -
    have "\<not> (dst + of_nat j - ?cp) < ?n"
    proof
      assume "dst + of_nat j - ?cp < ?n"
      then have "unat (dst + of_nat j - ?cp) \<le> length ys" by (simp only: word_less_nat_alt u less_Suc_eq_le)
      with sep [OF that, of "unat (dst + of_nat j - ?cp)"] show False by simp
    qed
    then show ?thesis by (simp only: memcpy_correct [OF c] if_False)
  qed
  have "cstring ?m dst (xs @ ys)"
  proof -
    have "cstring f p (as @ bs)"
      if "\<And>j. j < length as \<Longrightarrow> f (p + of_nat j) = m (p + of_nat j)" "cstring m p as"
        "cstring f (p + of_nat (length as)) bs" for f p as bs
      using that
    proof (induction as arbitrary: p)
      case (Cons a as)
      have "f (p + 1 + of_nat j) = m (p + 1 + of_nat j)" if "j < length as" for j
        using Cons.prems(1) [of "Suc j"] that by (simp add: add.assoc)
      with Cons.IH [of "p + 1"] Cons.prems(1) [of 0] Cons.prems(2,3) show ?case
        by (simp add: add.assoc)
    qed simp
    from this [OF keep d cstring_memcpy [OF s ap]] show ?thesis .
  qed
  ultimately show ?thesis by blast
qed

section \<open>A sample memory\<close>

text \<open>The strings \<open>"FAT16"\<close> at 16, \<open>"FAT32"\<close> at 32 and zeros elsewhere.\<close>

definition str_sample :: memory where
  "str_sample = (\<lambda>_. 0)(16 := 0x46, 17 := 0x41, 18 := 0x54, 19 := 0x31, 20 := 0x36,
     32 := 0x46, 33 := 0x41, 34 := 0x54, 35 := 0x33, 36 := 0x32)"

lemma str_sample_strings:
  "cstring str_sample 16 [0x46, 0x41, 0x54, 0x31, 0x36]"
  "cstring str_sample 32 [0x46, 0x41, 0x54, 0x33, 0x32]"
  by (simp_all add: str_sample_def)

section \<open>Properties\<close>

text \<open>C32. \<open>memcmp\<close> does not compare: its loop stops at the first pair of EQUAL bytes, so it
  answers 0 ("equal") exactly when the length is 0 or the two regions agree in at least one
  position.\<close>

theorem memcmp_finds_an_equal_byte:
  "memcmp dest src len m = 0 \<longleftrightarrow> len = 0 \<or> (\<exists>i<unat len. m (dest + of_nat i) = m (src + of_nat i))"
  by (rule memcmp_zero)

end
