(* ===== verification/Printk.thy ===== *)
theory Printk
  imports StringLib
begin

text \<open>
  Formatted output: \<open>src/lib/printk.c\<close>.  A format is the list of its characters before the
  NUL, the variable arguments are the 32-bit words of the caller's stack, and what is
  written through \<open>str\<close> is a list that grows.  \<open>int\<close> variables that count characters are
  integers (their overflow is undefined in C); the number to print is a 32-bit word.
\<close>

section \<open>Numbers\<close>

abbreviation ZEROPAD :: u32 where "ZEROPAD \<equiv> 1"
abbreviation SIGN :: u32 where "SIGN \<equiv> 2"
abbreviation PLUS :: u32 where "PLUS \<equiv> 4"
abbreviation SPACE :: u32 where "SPACE \<equiv> 8"
abbreviation LEFT :: u32 where "LEFT \<equiv> 16"
abbreviation SPECIAL :: u32 where "SPECIAL \<equiv> 32"
abbreviation SMALL :: u32 where "SMALL \<equiv> 64"

definition is_digit :: "char \<Rightarrow> bool" where
  "is_digit c \<longleftrightarrow> 48 \<le> (of_char c :: nat) \<and> (of_char c :: nat) \<le> 57"

fun skip_atoi :: "int \<Rightarrow> string \<Rightarrow> int \<times> string" where
  "skip_atoi i (c # s) = (if is_digit c then skip_atoi (i * 10 + of_char c - 48) s else (i, c # s))"
| "skip_atoi i [] = (i, [])"

definition upper_digits :: string where
  "upper_digits = ''0123456789ABCDEFGHIJKLMNOPQRSTUVWXYZ''"

definition lower_digits :: string where
  "lower_digits = ''0123456789abcdefghijklmnopqrstuvwxyz''"

text \<open>\<open>while (num != 0) tmp[i++] = digits[do_div(num, base)]\<close>, least significant digit first;
  the division is the processor's unsigned one.  (The base is at least 2 here.)\<close>

function digit_loop :: "string \<Rightarrow> u32 \<Rightarrow> u32 \<Rightarrow> string" where
  "digit_loop digits num base =
     (if num \<noteq> 0 \<and> 2 \<le> base
      then digits ! unat (num mod base) # digit_loop digits (num div base) base else [])"
  by pat_completeness auto
termination
proof (relation "measure (\<lambda>(digits, num, base). unat num)", goal_cases)
  case 2
  then show ?case by (auto simp: word_le_nat_alt intro!: div_less_dividend) (simp add: unat_gt_0)
qed simp

declare digit_loop.simps [simp del]

text \<open>\<open>while (size-- > 0) *str++ = c\<close>\<close>

definition pad_loop :: "char \<Rightarrow> int \<Rightarrow> string \<times> int" where
  "pad_loop c n = (replicate (nat n) c, if n > 0 then -1 else n - 1)"

definition number :: "u32 \<Rightarrow> int \<Rightarrow> int \<Rightarrow> int \<Rightarrow> u32 \<Rightarrow> string option" where
  "number num base sz precision ty =
     (let digits = (if ty AND SMALL \<noteq> 0 then lower_digits else upper_digits);
          ty = (if ty AND LEFT \<noteq> 0 then ty AND NOT ZEROPAD else ty)
      in if base < 2 \<or> base > 36 then None
      else
        (let c = (if ty AND ZEROPAD \<noteq> 0 then CHR ''0'' else CHR '' '');
             neg = ty AND SIGN \<noteq> 0 \<and> sint num < 0;
             sign = (if neg then ''-'' else if ty AND PLUS \<noteq> 0 then ''+''
                     else if ty AND SPACE \<noteq> 0 then '' '' else []);
             num = (if neg then - num else num);
             sz = (if sign \<noteq> [] then sz - 1 else sz);
             sz = (if ty AND SPECIAL \<noteq> 0
                     then (if base = 16 then sz - 2 else if base = 8 then sz - 1 else sz) else sz);
             tmp = (if num = 0 then ''0'' else digit_loop digits num (of_int base));
             i = int (length tmp);
             precision = (if i > precision then i else precision);
             sz = sz - precision;
             (spaces, sz) = (if ty AND (ZEROPAD + LEFT) = 0 then pad_loop CHR '' '' sz else ([], sz));
             prefix = (if ty AND SPECIAL \<noteq> 0
                       then (if base = 8 then ''0'' else if base = 16 then [CHR ''0'', digits ! 33] else [])
                       else []);
             (padding, sz) = (if ty AND LEFT = 0 then pad_loop c sz else ([], sz));
             zeros = replicate (nat (precision - i)) CHR ''0'';
             (trailer, sz) = pad_loop CHR '' '' sz
         in Some (spaces @ sign @ prefix @ padding @ zeros @ rev tmp @ trailer)))"

section \<open>Formats\<close>

fun parse_flags :: "u32 \<Rightarrow> string \<Rightarrow> u32 \<times> string" where
  "parse_flags flags (c # s) =
     (if c = CHR ''-'' then parse_flags (flags OR LEFT) s
      else if c = CHR ''+'' then parse_flags (flags OR PLUS) s
      else if c = CHR '' '' then parse_flags (flags OR SPACE) s
      else if c = CHR ''#'' then parse_flags (flags OR SPECIAL) s
      else if c = CHR ''0'' then parse_flags (flags OR ZEROPAD) s
      else (flags, c # s))"
| "parse_flags flags [] = (flags, [])"

type_synonym va_list = "nat \<Rightarrow> u32"

text \<open>The field width: the width, the flags, the position in the arguments, the rest.\<close>

definition parse_width :: "va_list \<Rightarrow> nat \<Rightarrow> u32 \<Rightarrow> string \<Rightarrow> int \<times> u32 \<times> nat \<times> string" where
  "parse_width args k flags s =
     (case s of [] \<Rightarrow> (-1, flags, k, s)
      | c # s' \<Rightarrow>
          if is_digit c then (case skip_atoi 0 s of (w, r) \<Rightarrow> (w, flags, k, r))
          else if c = CHR ''*'' then
            (let w = sint (args k) in
             if w < 0 then (- w, flags OR LEFT, k + 1, s') else (w, flags, k + 1, s'))
          else (-1, flags, k, s))"

text \<open>The precision.  For \<open>*\<close> the argument is taken but, unlike in the field width, the format
  is left on the \<open>*\<close>, which the conversions below then meet.\<close>

definition parse_precision :: "va_list \<Rightarrow> nat \<Rightarrow> string \<Rightarrow> int \<times> nat \<times> string" where
  "parse_precision args k s =
     (case s of
        c # s' \<Rightarrow>
          if c = CHR ''.'' then
            (let (p, k, r) =
               (case s' of [] \<Rightarrow> (-1, k, s')
                | d # s'' \<Rightarrow>
                    if is_digit d then (case skip_atoi 0 s' of (p, r) \<Rightarrow> (p, k, r))
                    else if d = CHR ''*'' then (sint (args k), k + 1, s')
                    else (-1, k, s'))
             in (if p < 0 then 0 else p, k, r))
          else (-1, k, s)
      | [] \<Rightarrow> (-1, k, s))"

definition skip_qualifier :: "string \<Rightarrow> string" where
  "skip_qualifier s =
     (case s of [] \<Rightarrow> s
      | c # s' \<Rightarrow> if c = CHR ''h'' \<or> c = CHR ''l'' \<or> c = CHR ''L'' then s' else s)"

definition parse_spec :: "va_list \<Rightarrow> nat \<Rightarrow> string \<Rightarrow> u32 \<times> int \<times> int \<times> nat \<times> string" where
  "parse_spec args k s =
     (case parse_flags 0 s of (flags, s) \<Rightarrow>
      case parse_width args k flags s of (w, flags, k, s) \<Rightarrow>
      case parse_precision args k s of (p, k, s) \<Rightarrow> (flags, w, p, k, skip_qualifier s))"

text \<open>\<open>while (--field_width > 0)\<close> and \<open>while (len < field_width--)\<close>\<close>

definition predec_loop :: "int \<Rightarrow> string \<times> int" where
  "predec_loop w = (replicate (nat (w - 1)) CHR '' '', if w > 1 then 0 else w - 1)"

definition postdec_loop :: "int \<Rightarrow> int \<Rightarrow> string \<times> int" where
  "postdec_loop len w = (replicate (nat (w - len)) CHR '' '', min w len - 1)"

definition byte_char :: "u8 \<Rightarrow> char" where
  "byte_char b = char_of (unat b)"

text \<open>The conversions: the characters, the next argument and the words stored by \<open>%n\<close>.\<close>

definition vs_conv ::
    "memory \<Rightarrow> va_list \<Rightarrow> nat \<Rightarrow> nat \<Rightarrow> u32 \<Rightarrow> int \<Rightarrow> int \<Rightarrow> char \<Rightarrow>
       (string \<times> nat \<times> (u32 \<times> u32) list) option" where
  "vs_conv m args pos k flags w p c =
     (let num = (\<lambda>base flags w p. case number (args k) base w p flags of
                    None \<Rightarrow> None | Some out \<Rightarrow> Some (out, k + 1, [])) in
      if c = CHR ''c'' then
        (let (before, w) = (if flags AND LEFT = 0 then predec_loop w else ([], w));
             (after, w) = predec_loop w
         in Some (before @ [byte_char (ucast (args k))] @ after, k + 1, []))
      else if c = CHR ''s'' then
        (case strlen (args k) m of None \<Rightarrow> None
         | Some n \<Rightarrow>
             (let len = sint n;
                  len = (if p < 0 then len else if len > p then p else len);
                  (before, w) = (if flags AND LEFT = 0 then postdec_loop len w else ([], w));
                  (after, w) = postdec_loop len w
              in Some (before @ map (\<lambda>i. byte_char (m (args k + of_nat i))) [0..<nat len] @ after, k + 1, [])))
      else if c = CHR ''o'' then num 8 flags w p
      else if c = CHR ''p'' then
        (if w = -1 then num 16 (flags OR ZEROPAD) 8 p else num 16 flags w p)
      else if c = CHR ''x'' then num 16 (flags OR SMALL) w p
      else if c = CHR ''X'' then num 16 flags w p
      else if c = CHR ''d'' \<or> c = CHR ''i'' then num 10 (flags OR SIGN) w p
      else if c = CHR ''u'' then num 10 flags w p
      else if c = CHR ''n'' then Some ([], k + 1, [(args k, of_nat pos)])
      else Some ((if c \<noteq> CHR ''%'' then ''%'' else []) @ [c], k, []))"

lemma skip_atoi_length: "length (snd (skip_atoi i s)) \<le> length s"
  by (induction i s rule: skip_atoi.induct) auto

lemma parse_flags_length: "length (snd (parse_flags f s)) \<le> length s"
  by (induction f s rule: parse_flags.induct) auto

lemma parse_width_length: "length (snd (snd (snd (parse_width args k f s)))) \<le> length s"
  using skip_atoi_length [of 0 s]
  by (auto simp: parse_width_def Let_def split: list.splits prod.splits)

lemma parse_precision_length: "length (snd (snd (parse_precision args k s))) \<le> length s"
  using skip_atoi_length [of 0 "tl s"]
  by (auto simp: parse_precision_def Let_def split: list.splits prod.splits)

lemma skip_qualifier_length: "length (skip_qualifier s) \<le> length s"
  by (auto simp: skip_qualifier_def split: list.splits)

lemma parse_spec_length:
  assumes "parse_spec args k s = (flags, w, p, k', r)"
  shows "length r \<le> length s"
proof -
  obtain f1 s1 where 1: "parse_flags 0 s = (f1, s1)" by (cases "parse_flags 0 s")
  obtain w2 f2 k2 s2 where 2: "parse_width args k f1 s1 = (w2, f2, k2, s2)"
    by (cases "parse_width args k f1 s1")
  obtain p3 k3 s3 where 3: "parse_precision args k2 s2 = (p3, k3, s3)"
    by (cases "parse_precision args k2 s2")
  have "r = skip_qualifier s3" using assms by (simp add: parse_spec_def 1 2 3)
  moreover have "length s1 \<le> length s" using parse_flags_length [of 0 s] 1 by simp
  moreover have "length s2 \<le> length s1" using parse_width_length [of args k f1 s1] 2 by simp
  moreover have "length s3 \<le> length s2" using parse_precision_length [of args k2 s2] 3 by simp
  ultimately show ?thesis using skip_qualifier_length [of s3] by simp
qed

function vsprintf_loop ::
    "memory \<Rightarrow> va_list \<Rightarrow> nat \<Rightarrow> string \<Rightarrow> string \<Rightarrow> (u32 \<times> u32) list \<Rightarrow>
       (string \<times> (u32 \<times> u32) list) option" where
  "vsprintf_loop m args k fmt out ws =
     (case fmt of [] \<Rightarrow> Some (out, ws)
      | c # s \<Rightarrow>
          if c \<noteq> CHR ''%'' then vsprintf_loop m args k s (out @ [c]) ws
          else
            (case parse_spec args k s of (flags, w, p, k, r) \<Rightarrow>
             case r of [] \<Rightarrow> Some (out @ ''%'', ws)
             | d # r' \<Rightarrow>
                 (case vs_conv m args (length out) k flags w p d of None \<Rightarrow> None
                  | Some (o', k, w') \<Rightarrow> vsprintf_loop m args k r' (out @ o') (ws @ w'))))"
  by pat_completeness auto
termination
  by (relation "measure (\<lambda>(m, args, k, fmt, out, ws). length fmt)")
    (auto dest!: parse_spec_length [OF sym])

declare vsprintf_loop.simps [simp del]

definition vsprintf :: "memory \<Rightarrow> string \<Rightarrow> va_list \<Rightarrow> (string \<times> (u32 \<times> u32) list) option" where
  "vsprintf m fmt args = vsprintf_loop m args 0 fmt [] []"

text \<open>\<open>printk\<close> formats into a buffer of 1024 bytes and writes the buffer, up to its first
  NUL, to the console: the value is the count it returns and the text it writes.\<close>

definition printk :: "memory \<Rightarrow> string \<Rightarrow> va_list \<Rightarrow> (int \<times> string) option" where
  "printk m fmt args =
     (case vsprintf m fmt args of None \<Rightarrow> None
      | Some (out, ws) \<Rightarrow> Some (int (length out), takeWhile (\<lambda>c. c \<noteq> CHR 0x00) out))"

text \<open>The memory after \<open>printk\<close>, whose buffer lies at \<open>buf\<close>: the characters stored through \<open>str\<close>,
  the words stored by \<open>%n\<close> (into memory apart from the buffer), the NUL of \<open>vsprintf\<close> and the
  NUL of \<open>printk\<close>.\<close>

fun store_chars :: "u32 \<Rightarrow> string \<Rightarrow> memory \<Rightarrow> memory" where
  "store_chars str (c # cs) m = store_chars (str + 1) cs (m(str := of_char c))"
| "store_chars str [] m = m"

definition store_word :: "u32 \<Rightarrow> u32 \<Rightarrow> memory \<Rightarrow> memory" where
  "store_word p v m =
     m(p := ucast v, p + 1 := ucast (drop_bit 8 v), p + 2 := ucast (drop_bit 16 v),
       p + 3 := ucast (drop_bit 24 v))"

definition printk_memory :: "u32 \<Rightarrow> memory \<Rightarrow> string \<Rightarrow> va_list \<Rightarrow> memory option" where
  "printk_memory buf m fmt args =
     (case vsprintf m fmt args of None \<Rightarrow> None
      | Some (out, ws) \<Rightarrow>
          (let m = store_chars buf out m;
               m = fold (\<lambda>(p, v). store_word p v) ws m;
               m = m(buf + of_nat (length out) := 0);
               i = int (length out)
           in Some (m(buf + of_int i := 0))))"

section \<open>Digits\<close>

text \<open>The number a digit string denotes, most significant digit first.\<close>

definition digit_val :: "string \<Rightarrow> char \<Rightarrow> nat" where
  "digit_val digits c = length (takeWhile (\<lambda>d. d \<noteq> c) digits)"

definition digits_value :: "string \<Rightarrow> nat \<Rightarrow> string \<Rightarrow> nat" where
  "digits_value digits base ds = foldl (\<lambda>v d. v * base + digit_val digits d) 0 ds"

lemma digit_sets:
  "length upper_digits = 36" "length lower_digits = 36" "distinct upper_digits" "distinct lower_digits"
  "upper_digits ! 0 = CHR ''0''" "lower_digits ! 0 = CHR ''0''"
  by code_simp+

lemma digit_val_nth:
  assumes "distinct digits" and "i < length digits"
  shows "digit_val digits (digits ! i) = i"
  using assms
proof (induction digits arbitrary: i)
  case Nil
  then show ?case by simp
next
  case (Cons d ds)
  then show ?case by (cases i) (auto simp: digit_val_def)
qed

lemma digits_value_snoc:
  "digits_value digits base (ds @ [d]) = digits_value digits base ds * base + digit_val digits d"
  by (simp add: digits_value_def)

lemma digit_loop_0 [simp]: "digit_loop digits 0 base = []"
  by (simp add: digit_loop.simps)

lemma digit_loop_step:
  "num \<noteq> 0 \<Longrightarrow> 2 \<le> base \<Longrightarrow>
     digit_loop digits num base = digits ! unat (num mod base) # digit_loop digits (num div base) base"
  by (simp add: digit_loop.simps [of digits num base])

lemma unat_mod_less:
  assumes "2 \<le> (base :: u32)"
  shows "unat (num mod base) < unat base"
  using assms by (simp add: word_le_nat_alt)

lemma digit_loop_value:
  assumes "distinct digits" and "length digits = 36" and "2 \<le> base" and "base \<le> 36"
  shows "digits_value digits (unat base) (rev (digit_loop digits num base)) = unat num"
  using assms
proof (induction digits num base rule: digit_loop.induct)
  case (1 digits num base)
  show ?case
  proof (cases "num = 0")
    case True
    then show ?thesis by (simp add: digits_value_def)
  next
    case False
    with "1.prems"(3) have c: "num \<noteq> 0 \<and> 2 \<le> base" by simp
    have "unat (num mod base) < 36"
      using unat_mod_less [OF "1.prems"(3), of num] "1.prems"(4) by (simp add: word_le_nat_alt)
    then have "digit_val digits (digits ! unat (num mod base)) = unat (num mod base)"
      using "1.prems" by (intro digit_val_nth) simp_all
    with "1.IH" [OF c "1.prems"] c show ?thesis
      by (simp add: digit_loop_step digits_value_snoc)
  qed
qed

text \<open>No leading zero.\<close>

lemma digit_loop_leading:
  assumes "distinct digits" and "length digits = 36" and "2 \<le> base" and "base \<le> 36" and "num \<noteq> 0"
  shows "digit_loop digits num base \<noteq> [] \<and> last (digit_loop digits num base) \<noteq> digits ! 0"
  using assms
proof (induction digits num base rule: digit_loop.induct)
  case (1 digits num base)
  then have c: "num \<noteq> 0 \<and> 2 \<le> base" by simp
  have m: "unat (num mod base) < 36"
    using unat_mod_less [OF "1.prems"(3), of num] "1.prems"(4) by (simp add: word_le_nat_alt)
  show ?case
  proof (cases "num div base = 0")
    case True
    then have "unat num div unat base = 0" by (metis unat_div_u32 unat_0)
    moreover have "unat base \<noteq> 0" using c by (auto simp: word_le_nat_alt)
    ultimately have "unat num < unat base" by (simp add: div_eq_0_iff)
    then have "unat (num mod base) = unat num" by simp
    moreover have "unat num \<noteq> 0" using c by (simp add: unat_eq_zero)
    ultimately have "digits ! unat (num mod base) \<noteq> digits ! 0"
      using "1.prems"(1,2) m by (subst nth_eq_iff_index_eq) auto
    with c True show ?thesis by (simp add: digit_loop_step)
  next
    case False
    with "1.IH" [OF c "1.prems"(1-4)] c show ?thesis by (simp add: digit_loop_step)
  qed
qed

section \<open>Numbers: the value and the width\<close>

definition number_digits :: "u32 \<Rightarrow> string" where
  "number_digits ty = (if ty AND SMALL \<noteq> 0 then lower_digits else upper_digits)"

definition number_magnitude :: "u32 \<Rightarrow> u32 \<Rightarrow> u32" where
  "number_magnitude num ty = (if ty AND SIGN \<noteq> 0 \<and> sint num < 0 then - num else num)"

definition number_sign :: "u32 \<Rightarrow> u32 \<Rightarrow> string" where
  "number_sign num ty =
     (if ty AND SIGN \<noteq> 0 \<and> sint num < 0 then ''-''
      else if ty AND PLUS \<noteq> 0 then ''+'' else if ty AND SPACE \<noteq> 0 then '' '' else [])"

definition number_prefix :: "int \<Rightarrow> u32 \<Rightarrow> string" where
  "number_prefix base ty =
     (if ty AND SPECIAL = 0 then []
      else if base = 8 then ''0'' else if base = 16 then [CHR ''0'', number_digits ty ! 33] else [])"

definition number_text :: "u32 \<Rightarrow> int \<Rightarrow> u32 \<Rightarrow> string" where
  "number_text num base ty =
     (if number_magnitude num ty = 0 then ''0''
      else rev (digit_loop (number_digits ty) (number_magnitude num ty) (of_int base)))"

lemma not_left_bits:
  "(ty AND NOT ZEROPAD) AND SIGN = ty AND SIGN" "(ty AND NOT ZEROPAD) AND PLUS = ty AND PLUS"
  "(ty AND NOT ZEROPAD) AND SPACE = ty AND SPACE" "(ty AND NOT ZEROPAD) AND SPECIAL = ty AND SPECIAL"
  "(ty AND NOT ZEROPAD) AND LEFT = ty AND LEFT" "(ty AND NOT ZEROPAD) AND SMALL = ty AND SMALL"
proof -
  have "NOT ZEROPAD AND SIGN = SIGN" "NOT ZEROPAD AND PLUS = PLUS" "NOT ZEROPAD AND SPACE = SPACE"
    "NOT ZEROPAD AND SPECIAL = SPECIAL" "NOT ZEROPAD AND LEFT = LEFT" "NOT ZEROPAD AND SMALL = SMALL"
    by code_simp+
  then show "(ty AND NOT ZEROPAD) AND SIGN = ty AND SIGN" "(ty AND NOT ZEROPAD) AND PLUS = ty AND PLUS"
    "(ty AND NOT ZEROPAD) AND SPACE = ty AND SPACE" "(ty AND NOT ZEROPAD) AND SPECIAL = ty AND SPECIAL"
    "(ty AND NOT ZEROPAD) AND LEFT = ty AND LEFT" "(ty AND NOT ZEROPAD) AND SMALL = ty AND SMALL"
    by (simp_all only: and.assoc)
qed

lemma zeropad_left: "ty AND (ZEROPAD + LEFT) = 0 \<longleftrightarrow> ty AND ZEROPAD = 0 \<and> ty AND LEFT = 0"
proof -
  have "ZEROPAD + LEFT = ZEROPAD OR LEFT" by code_simp
  then have "ty AND (ZEROPAD + LEFT) = (ty AND ZEROPAD) OR (ty AND LEFT)"
    by (simp only: bit.conj_disj_distrib)
  then show ?thesis by (simp only: or_eq_0_iff)
qed

lemma clear_zeropad: "(ty AND NOT ZEROPAD) AND ZEROPAD = 0"
  by (simp add: and.assoc)

text \<open>The fill: how many characters are missing to the field width.\<close>

definition number_fill :: "u32 \<Rightarrow> int \<Rightarrow> int \<Rightarrow> int \<Rightarrow> u32 \<Rightarrow> int" where
  "number_fill num base sz precision ty =
     sz - int (length (number_sign num ty)) - int (length (number_prefix base ty))
        - max precision (int (length (number_text num base ty)))"

definition pad_rest :: "int \<Rightarrow> int" where
  "pad_rest n = (if n > 0 then -1 else n - 1)"

lemma pad_loop_rest: "pad_loop c n = (replicate (nat n) c, pad_rest n)"
  by (simp add: pad_loop_def pad_rest_def)

lemma pad_rest_done [simp]: "nat (pad_rest n) = 0"
  by (simp add: pad_rest_def)

lemma number_normal:
  fixes num ty :: u32 and base sz precision :: int
  assumes "2 \<le> base" and "base \<le> 36"
  defines "fill \<equiv> nat (number_fill num base sz precision ty)"
  shows "number num base sz precision ty = Some
     ((if ty AND LEFT = 0 \<and> ty AND ZEROPAD = 0 then replicate fill CHR '' '' else []) @
      number_sign num ty @ number_prefix base ty @
      (if ty AND LEFT = 0 \<and> ty AND ZEROPAD \<noteq> 0 then replicate fill CHR ''0'' else []) @
      replicate (nat (precision - int (length (number_text num base ty)))) CHR ''0'' @
      number_text num base ty @
      (if ty AND LEFT \<noteq> 0 then replicate fill CHR '' '' else []))"
proof -
  let ?T = "number_text num base ty"
  have tmp: "(if number_magnitude num ty = 0 then ''0''
      else digit_loop (number_digits ty) (number_magnitude num ty) (of_int base)) = rev ?T"
    by (simp add: number_text_def)
  have mag: "(if ty AND SIGN \<noteq> 0 \<and> sint num < 0 then - num else num) = number_magnitude num ty"
    by (simp add: number_magnitude_def)
  have len: "length (rev ?T) = length ?T" by simp
  have mx: "(if int (length ?T) > precision then int (length ?T) else precision) =
      max precision (int (length ?T))" by simp
  have mz: "nat (max precision (int (length ?T)) - int (length ?T)) = nat (precision - int (length ?T))"
    by simp
  have sg: "(if ty AND SIGN \<noteq> 0 \<and> sint num < 0 then ''-'' else if ty AND PLUS \<noteq> 0 then ''+''
      else if ty AND SPACE \<noteq> 0 then '' '' else []) = number_sign num ty"
    by (simp add: number_sign_def)
  have sgl: "(if number_sign num ty \<noteq> [] then sz - 1 else sz) = sz - int (length (number_sign num ty))"
    by (simp add: number_sign_def)
  have pf: "(if ty AND SPECIAL \<noteq> 0 then if base = 16 then x - 2 else if base = 8 then x - 1 else x else x) =
      x - int (length (number_prefix base ty))" for x
    by (simp add: number_prefix_def)
  have pf2: "(if ty AND SPECIAL \<noteq> 0 then if base = 8 then ''0''
      else if base = 16 then [CHR ''0'', number_digits ty ! 33] else [] else []) = number_prefix base ty"
    by (simp add: number_prefix_def)
  have b: "\<not> (base < 2 \<or> base > 36)" using assms by simp
  show ?thesis
  proof (cases "ty AND LEFT = 0")
    case True
    then show ?thesis
      unfolding number_def Let_def number_digits_def [symmetric] if_not_P [OF b] not_left_bits
        mag tmp len sg sgl pf pf2 mx mz zeropad_left fill_def number_fill_def
      by (cases "ty AND ZEROPAD = 0") (simp_all only: pad_loop_rest pad_rest_done replicate_0 prod.case
          simp_thms if_True if_False append_Nil append_Nil2 rev_rev_ident mag tmp sg sgl pf pf2 mx mz len)
  next
    case False
    then show ?thesis
      unfolding number_def Let_def number_digits_def [symmetric] if_not_P [OF b] not_left_bits
        if_P [OF False] not_left_bits mag tmp len sg sgl pf pf2 mx mz fill_def number_fill_def zeropad_left
      by (simp only: pad_loop_rest pad_rest_done replicate_0 prod.case
          simp_thms if_True if_False append_Nil append_Nil2 rev_rev_ident mag tmp sg sgl pf pf2 mx mz len)
  qed
qed

lemma number_text_value:
  assumes "2 \<le> base" and "base \<le> 36"
  shows "digits_value (number_digits ty) (nat base) (number_text num base ty) = unat (number_magnitude num ty)"
    and "number_text num base ty \<noteq> []"
    and "number_magnitude num ty \<noteq> 0 \<Longrightarrow> hd (number_text num base ty) \<noteq> CHR ''0''"
proof -
  have ds: "distinct (number_digits ty)" "length (number_digits ty) = 36" "number_digits ty ! 0 = CHR ''0''"
    using digit_sets by (simp_all add: number_digits_def)
  have ub: "unat (of_int base :: u32) = nat base"
    using assms by (simp add: unat_eq_nat_uint uint_word_of_int take_bit_int_eq_self)
  have b: "2 \<le> (of_int base :: u32)" "(of_int base :: u32) \<le> 36"
    unfolding word_le_nat_alt ub using assms by simp_all
  have z: "digit_val (number_digits ty) CHR ''0'' = 0"
    using digit_val_nth [OF ds(1), of 0] ds by simp
  show "digits_value (number_digits ty) (nat base) (number_text num base ty) = unat (number_magnitude num ty)"
    using digit_loop_value [OF ds(1,2) b, of "number_magnitude num ty"] z
    by (simp add: number_text_def ub) (simp add: digits_value_def)
  show "number_text num base ty \<noteq> []"
    using digit_loop_leading [OF ds(1,2) b, of "number_magnitude num ty"] by (simp add: number_text_def)
  show "hd (number_text num base ty) \<noteq> CHR ''0''" if "number_magnitude num ty \<noteq> 0"
    using digit_loop_leading [OF ds(1,2) b that] ds(3) that by (simp add: number_text_def hd_rev)
qed

lemma number_length:
  assumes "2 \<le> base" and "base \<le> 36" and "number num base sz precision ty = Some out"
  shows "int (length out) = max sz (int (length (number_sign num ty)) + int (length (number_prefix base ty))
     + max precision (int (length (number_text num base ty))))"
  using assms(3) unfolding number_normal [OF assms(1,2)] number_fill_def by auto


section \<open>Termination\<close>

text \<open>A search for a NUL ends as soon as there is one anywhere: the pointer wraps around.\<close>

lemma find_nul_ends:
  assumes "m a = 0"
  shows "\<exists>r. find_nul p m = Some r"
proof (induction "unat (a - p)" arbitrary: p)
  case 0
  then have "a = p" by (simp add: unat_eq_zero)
  with assms show ?case by (subst find_nul.simps) simp
next
  case (Suc n)
  then have "a - p \<noteq> 0" by auto
  from unat_pred_Suc [OF this] Suc.hyps(2) have "n = unat (a - (p + 1))"
    by (simp add: algebra_simps)
  from Suc.hyps(1) [OF this] show ?case by (subst find_nul.simps) auto
qed

lemma strlen_ends:
  assumes "m a = 0"
  shows "\<exists>n. strlen p m = Some n"
  using find_nul_ends [where m = m and a = a, OF assms, of p] by (auto simp: strlen_def)

lemma vs_conv_ends:
  assumes "m a = 0"
  shows "\<exists>r. vs_conv m args pos k flags w p c = Some r"
proof -
  have n: "\<exists>out. number v base sz pr ty = Some out" if "2 \<le> base" "base \<le> 36" for v base sz pr ty
    using number_normal [OF that] by blast
  obtain l where l: "strlen (args k) m = Some l" using strlen_ends [where m = m and a = a, OF assms] by blast
  have b: "(2 :: int) \<le> 8" "(8 :: int) \<le> 36" "(2 :: int) \<le> 16" "(16 :: int) \<le> 36" "(2 :: int) \<le> 10" "(10 :: int) \<le> 36"
    by simp_all
  obtain o8 where "number (args k) 8 w p flags = Some o8" using n [OF b(1,2)] by blast
  moreover obtain o16 where "number (args k) 16 w p flags = Some o16" using n [OF b(3,4)] by blast
  moreover obtain op where "number (args k) 16 8 p (flags OR ZEROPAD) = Some op" using n [OF b(3,4)] by blast
  moreover obtain ox where "number (args k) 16 w p (flags OR SMALL) = Some ox" using n [OF b(3,4)] by blast
  moreover obtain od where "number (args k) 10 w p (flags OR SIGN) = Some od" using n [OF b(5,6)] by blast
  moreover obtain ou where "number (args k) 10 w p flags = Some ou" using n [OF b(5,6)] by blast
  ultimately show ?thesis
    unfolding vs_conv_def Let_def l
    by (cases "w = -1") (simp_all split: prod.splits)
qed

lemma vsprintf_loop_ends:
  assumes "m a = 0"
  shows "\<exists>r. vsprintf_loop m args k fmt out ws = Some r"
  using assms
proof (induction m args k fmt out ws rule: vsprintf_loop.induct)
  case (1 m args k fmt out ws)
  show ?case
  proof (cases fmt)
    case Nil
    then show ?thesis by (simp add: vsprintf_loop.simps)
  next
    case (Cons c s)
    show ?thesis
    proof (cases "c = CHR ''%''")
      case False
      with "1.IH"(1) [OF Cons False "1.prems"] Cons show ?thesis by (simp add: vsprintf_loop.simps [of m args k "c # s"])
    next
      case True
      obtain flags w p k' r where ps: "parse_spec args k s = (flags, w, p, k', r)"
        by (cases "parse_spec args k s")
      show ?thesis
      proof (cases r)
        case Nil
        with True \<open>fmt = c # s\<close> ps show ?thesis by (simp add: vsprintf_loop.simps [of m args k "CHR ''%'' # s"])
      next
        case (Cons d r')
        obtain o' k'' w' where vc: "vs_conv m args (length out) k' flags w p d = Some (o', k'', w')"
          using vs_conv_ends [where m = m and a = a, OF "1.prems"] by (metis prod_cases3)
        from "1.IH"(2) [OF \<open>fmt = c # s\<close> _ ps [symmetric] refl refl refl Cons vc refl refl "1.prems"] True
        show ?thesis using True \<open>fmt = c # s\<close> Cons ps vc
          by (simp add: vsprintf_loop.simps [of m args k "CHR ''%'' # s"])
      qed
    qed
  qed
qed

section \<open>Plain text and the decimal conversion\<close>

text \<open>A reference printer: the decimal digits of a natural number, the sign of an integer.\<close>

fun show_nat :: "nat \<Rightarrow> string" where
  "show_nat n = (if n < 10 then [upper_digits ! n] else show_nat (n div 10) @ [upper_digits ! (n mod 10)])"

declare show_nat.simps [simp del]

definition show_int :: "int \<Rightarrow> string" where
  "show_int i = (if i < 0 then ''-'' @ show_nat (nat (- i)) else show_nat (nat i))"

lemma digit_loop_show_nat:
  "num \<noteq> 0 \<Longrightarrow> rev (digit_loop upper_digits num 10) = show_nat (unat num)"
proof (induction "unat num" arbitrary: num rule: less_induct)
  case less
  have z: "unat num \<noteq> 0" using less.prems by (simp add: unat_eq_zero)
  have step: "rev (digit_loop upper_digits num 10) =
      rev (digit_loop upper_digits (num div 10) 10) @ [upper_digits ! (unat num mod 10)]"
    using less.prems digit_loop_step [of num 10 upper_digits] by simp
  show ?case
  proof (cases "unat num < 10")
    case True
    then have "unat (num div 10) = 0" by simp
    then have "num div 10 = 0" by (simp only: unat_eq_zero)
    with step True show ?thesis by (simp add: show_nat.simps [of "unat num"])
  next
    case False
    then have "unat (num div 10) \<noteq> 0" by simp
    then have nz: "num div 10 \<noteq> 0" by (simp only: unat_eq_zero not_False_eq_True)
    have "unat (num div 10) < unat num" using z by simp
    from less.hyps [OF this nz] step False show ?thesis
      by (simp add: show_nat.simps [of "unat num"])
  qed
qed

lemma uint_minus_sint:
  assumes "sint (x :: u32) < 0"
  shows "unat (- x) = nat (- sint x)"
proof -
  have "(of_int (sint x) :: u32) = x" by simp
  then have "- x = of_int (- sint x)" by (metis of_int_minus)
  then have "unat (- x) = nat (uint (of_int (- sint x) :: u32))" by (simp only: unat_eq_nat_uint)
  also have "uint (of_int (- sint x) :: u32) = - sint x"
  proof -
    have "- sint x \<le> 2147483648" using sint_ge [of x] by simp
    then have "take_bit 32 (- sint x) = - sint x"
      using assms by (intro take_bit_int_eq_self) simp_all
    then show ?thesis by (simp only: unsigned_of_int len_num1 len_num0 len_bit0 len_bit1) (use assms in simp)
  qed
  finally show ?thesis .
qed

lemma unat_sint: "\<not> sint (x :: u32) < 0 \<Longrightarrow> unat x = nat (sint x)"
proof -
  assume nn: "\<not> sint x < 0"
  have "sint x < 2147483648" using sint_lt [of x] by simp
  then have "take_bit 32 (sint x) = sint x" using nn by (intro take_bit_int_eq_self) simp_all
  moreover have "uint x = take_bit 32 (sint x)" using uint_sint [of x] by simp
  ultimately show ?thesis by (simp add: unat_eq_nat_uint)
qed

lemma show_nat_0: "show_nat 0 = ''0''"
  by (simp add: show_nat.simps digit_sets)

lemma number_decimal_width:
  "number num 10 sz (-1) SIGN =
     Some (replicate (nat (sz - int (length (show_int (sint num))))) CHR '' '' @ show_int (sint num))"
proof -
  have s: "SIGN AND SMALL = 0" "SIGN AND SIGN \<noteq> 0" "SIGN AND PLUS = 0" "SIGN AND SPACE = 0"
    "SIGN AND SPECIAL = 0" "SIGN AND LEFT = 0" "SIGN AND ZEROPAD = 0"
    by code_simp+
  have d: "number_digits SIGN = upper_digits" by (simp add: number_digits_def s)
  have b: "(2 :: int) \<le> 10" "(10 :: int) \<le> 36" by simp_all
  have dec: "number_text num 10 SIGN = show_nat (unat (number_magnitude num SIGN))"
    using digit_loop_show_nat [of "number_magnitude num SIGN"]
    by (simp add: number_text_def d show_nat_0)
  have shown: "number_sign num SIGN @ number_text num 10 SIGN = show_int (sint num)"
    unfolding dec show_int_def number_sign_def number_magnitude_def
    using uint_minus_sint [of num] unat_sint [of num] s by simp
  have np: "number_prefix 10 SIGN = []" by (simp add: number_prefix_def)
  have "length (show_int (sint num)) = length (number_sign num SIGN) + length (number_text num 10 SIGN)"
    unfolding shown [symmetric] by simp
  then have fill: "number_fill num 10 sz (-1) SIGN = sz - int (length (show_int (sint num)))"
    by (simp add: number_fill_def np)
  show ?thesis
    unfolding number_normal [OF b] fill np shown [symmetric] by (simp add: s)
qed

lemma show_nat_pos: "1 \<le> length (show_nat n)"
  by (subst show_nat.simps) simp

lemma show_int_pos: "1 \<le> length (show_int i)"
  using show_nat_pos [of "nat i"] by (simp add: show_int_def)

lemma number_decimal:
  "number num 10 (-1) (-1) SIGN = Some (show_int (sint num))"
  by (simp add: number_decimal_width)

lemma vsprintf_loop_nil: "vsprintf_loop m args k [] out ws = Some (out, ws)"
  by (simp add: vsprintf_loop.simps)

lemma vsprintf_loop_text:
  assumes "CHR ''%'' \<notin> set pre"
  shows "vsprintf_loop m args k (pre @ rest) out ws = vsprintf_loop m args k rest (out @ pre) ws"
  using assms
proof (induction pre arbitrary: out)
  case Nil
  then show ?case by simp
next
  case (Cons c pre)
  then have "c \<noteq> CHR ''%''" by auto
  with Cons show ?case by (simp add: vsprintf_loop.simps [of m args k "c # pre @ rest"])
qed

lemma vsprintf_loop_d:
  "vsprintf_loop m args k (''%d'' @ rest) out ws =
     vsprintf_loop m args (k + 1) rest (out @ show_int (sint (args k))) ws"
proof -
  have "parse_spec args k (CHR ''d'' # rest) = (0, -1, -1, k, CHR ''d'' # rest)"
    by (simp add: parse_spec_def parse_width_def parse_precision_def skip_qualifier_def is_digit_def)
  moreover have "vs_conv m args pos k 0 (-1) (-1) CHR ''d'' = Some (show_int (sint (args k)), k + 1, [])" for pos
    using number_decimal [of "args k"] by (simp add: vs_conv_def)
  ultimately show ?thesis
    by (simp add: vsprintf_loop.simps [of m args k "CHR ''%'' # CHR ''d'' # rest"])
qed

section \<open>Properties\<close>

lemma number_correct:
  assumes "2 \<le> base" and "base \<le> 36"
  shows "\<exists>out left zeros right.
     number num base sz precision ty = Some out \<and>
     out = left @ zeros @ number_text num base ty @ right \<and> set zeros \<subseteq> {CHR ''0''} \<and>
     set right \<subseteq> {CHR '' ''} \<and> (ty AND LEFT = 0 \<longrightarrow> right = []) \<and>
     digits_value (number_digits ty) (nat base) (number_text num base ty) =
       (if ty AND SIGN \<noteq> 0 then nat \<bar>sint num\<bar> else unat num) \<and>
     int (length out) = max sz (int (length (number_sign num ty)) + int (length (number_prefix base ty))
       + max precision (int (length (number_text num base ty))))"
proof -
  have v: "unat (number_magnitude num ty) = (if ty AND SIGN \<noteq> 0 then nat \<bar>sint num\<bar> else unat num)"
    using uint_minus_sint [of num] unat_sint [of num] by (simp add: number_magnitude_def)
  obtain out where out: "number num base sz precision ty = Some out"
    using number_normal [OF assms] by blast
  note len = number_length [OF assms out]
  let ?f = "nat (number_fill num base sz precision ty)"
  define left where "left = (if ty AND LEFT = 0 \<and> ty AND ZEROPAD = 0 then replicate ?f CHR '' '' else []) @
      number_sign num ty @ number_prefix base ty @
      (if ty AND LEFT = 0 \<and> ty AND ZEROPAD \<noteq> 0 then replicate ?f CHR ''0'' else [])"
  define zeros where "zeros = replicate (nat (precision - int (length (number_text num base ty)))) CHR ''0''"
  define right where "right = (if ty AND LEFT \<noteq> 0 then replicate ?f CHR '' '' else [])"
  have "out = left @ zeros @ number_text num base ty @ right"
    using out unfolding number_normal [OF assms] left_def zeros_def right_def by simp
  moreover have "set zeros \<subseteq> {CHR ''0''}" "set right \<subseteq> {CHR '' ''}" "ty AND LEFT = 0 \<longrightarrow> right = []"
    unfolding zeros_def right_def by auto
  ultimately show ?thesis
    using out len number_text_value(1) [OF assms, of ty num] v by metis
qed

text \<open>C23. \<open>number\<close> prints a number in any base from 2 to 36 as its digits, most significant
  first, which read back in that base are the magnitude of the number (of the signed number
  when \<open>SIGN\<close> is set); zeros up to the precision stand before them, blanks after them only
  under \<open>LEFT\<close>, and the text is exactly as long as the field width or what has to be printed,
  whichever is longer.\<close>

theorem number_spec:
  assumes "2 \<le> base" and "base \<le> 36"
  shows "\<exists>out left zeros right.
     number num base sz precision ty = Some out \<and>
     out = left @ zeros @ number_text num base ty @ right \<and> set zeros \<subseteq> {CHR ''0''} \<and>
     set right \<subseteq> {CHR '' ''} \<and> (ty AND LEFT = 0 \<longrightarrow> right = []) \<and>
     digits_value (number_digits ty) (nat base) (number_text num base ty) =
       (if ty AND SIGN \<noteq> 0 then nat \<bar>sint num\<bar> else unat num) \<and>
     int (length out) = max sz (int (length (number_sign num ty)) + int (length (number_prefix base ty))
       + max precision (int (length (number_text num base ty))))"
  using assms by (rule number_correct)

theorem number_spec_witness:
  "\<exists>out. number 255 16 8 (-1) (SMALL + SPECIAL + ZEROPAD) = Some out \<and> length out = 8"
proof -
  have "number 255 16 8 (-1) (SMALL + SPECIAL + ZEROPAD) = Some ''0x0000ff''" by code_simp
  then show ?thesis
    using number_spec [of 16 255 8 "-1" "SMALL + SPECIAL + ZEROPAD"] by auto
qed

text \<open>C24. Formatting \<open>pre%dpost\<close> yields \<open>pre\<close>, the reference decimal text of the signed
  argument and \<open>post\<close>, for every argument, the least \<open>int\<close> included, and stores nothing.\<close>

theorem vsprintf_decimal:
  assumes "CHR ''%'' \<notin> set pre" and "CHR ''%'' \<notin> set post"
  shows "vsprintf m (pre @ ''%d'' @ post) args = Some (pre @ show_int (sint (args 0)) @ post, [])"
  using vsprintf_loop_text [OF assms(1), of m args 0 "''%d'' @ post"]
    vsprintf_loop_text [OF assms(2), of m args "0 + 1" "[]"] vsprintf_loop_d [of m args 0 post]
  by (simp only: vsprintf_def vsprintf_loop_nil append_Nil append_Nil2 append_assoc)

theorem vsprintf_decimal_witness:
  "vsprintf (\<lambda>_. 0) ''[%d]'' (\<lambda>_. 0x80000000) = Some (''[-2147483648]'', [])"
proof -
  have "sint (0x80000000 :: u32) = -2147483648" by simp
  then have "show_int (sint (0x80000000 :: u32)) = ''-2147483648''"
    by (simp add: show_int_def show_nat.simps upper_digits_def)
  moreover have "vsprintf (\<lambda>_. 0) (''['' @ ''%d'' @ '']'') (\<lambda>_. 0x80000000) =
      Some (''['' @ show_int (sint (0x80000000 :: u32)) @ '']'', [])"
    by (rule vsprintf_decimal) simp_all
  ultimately show ?thesis by (simp only: append.simps)
qed

text \<open>C33. \<open>vsprintf\<close> returns on every format and every argument list, provided some byte of
  the memory is NUL: the only loop that is not bounded by the format or by a width is the
  search for the end of a \<open>%s\<close> argument.\<close>

theorem vsprintf_terminates:
  assumes "m a = 0"
  shows "\<exists>out ws. vsprintf m fmt args = Some (out, ws)"
  using vsprintf_loop_ends [where m = m and a = a, OF assms, of args 0 fmt "[]" "[]"]
  by (auto simp: vsprintf_def)

theorem vsprintf_terminates_witness:
  "\<exists>out ws. vsprintf (\<lambda>_. 0) ''%s %5d%%'' (\<lambda>k. of_nat k) = Some (out, ws)"
  by (rule vsprintf_terminates [where m = "\<lambda>_. 0" and a = 0]) (rule refl)

text \<open>A precision \<open>*\<close> takes its argument and is then printed: the number after it is not.\<close>

lemma vsprintf_star_precision: "vsprintf m ''%.*d'' args = Some (''%*d'', [])"
proof -
  have "parse_spec args 0 ''.*d'' =
      (0, -1, if sint (args 0) < 0 then 0 else sint (args 0), 1, ''*d'')"
    by (simp add: parse_spec_def parse_width_def parse_precision_def skip_qualifier_def is_digit_def)
  moreover have "vs_conv m args 0 1 0 (-1) p CHR ''*'' = Some (''%*'', 1, [])" for p
    by (simp add: vs_conv_def)
  ultimately show ?thesis
    using vsprintf_loop_text [of "''d''" m args 1 "[]" "''%*''"]
    by (simp add: vsprintf_def vsprintf_loop.simps [of m args 0 "''%.*d''"] vsprintf_loop_nil)
qed

section \<open>The buffer\<close>

lemma show_nat_length: "n < 10 ^ Suc k \<Longrightarrow> length (show_nat n) \<le> Suc k"
proof (induction k arbitrary: n)
  case 0
  then show ?case by (simp add: show_nat.simps [of n])
next
  case (Suc k)
  then have "n div 10 < 10 ^ Suc k" by (simp add: less_mult_imp_div_less)
  from Suc.IH [OF this] show ?case by (simp add: show_nat.simps [of n])
qed

lemma show_int_length: "length (show_int (sint (x :: u32))) \<le> 11"
proof -
  have "nat (- sint x) < 10 ^ Suc 9" using sint_ge [of x] by simp
  moreover have "nat (sint x) < 10 ^ Suc 9" using sint_lt [of x] by simp
  ultimately show ?thesis
    using show_nat_length [of "nat (- sint x)" 9] show_nat_length [of "nat (sint x)" 9]
    by (simp add: show_int_def)
qed

lemma show_nat_no_nul: "CHR 0x00 \<notin> set (show_nat n)"
proof (induction n rule: less_induct)
  case (less n)
  have d: "upper_digits ! (i mod 10) \<noteq> CHR 0x00" for i
  proof -
    have "upper_digits ! (i mod 10) \<in> set upper_digits"
      by (rule nth_mem) (simp add: upper_digits_def less_Suc_eq_le)
    then show ?thesis by (auto simp: upper_digits_def)
  qed
  show ?case using less [of "n div 10"] d [of n] d [of n, symmetric]
    by (cases "n < 10") (simp_all add: show_nat.simps [of n])
qed

lemma show_int_no_nul: "CHR 0x00 \<notin> set (show_int i)"
  by (simp add: show_int_def show_nat_no_nul)

lemma store_chars_apply:
  "length cs \<le> 2 ^ 32 \<Longrightarrow>
   store_chars p cs m x = (if unat (x - p) < length cs then of_char (cs ! unat (x - p)) else m x)"
proof (induction p cs m rule: store_chars.induct)
  case (1 p c cs m)
  have le: "length cs \<le> 2 ^ 32" using 1(2) by simp
  note IH = 1(1) [OF le]
  show ?case
  proof (cases "x = p")
    case True
    have "p - (p + 1) = (- 1 :: u32)" by simp
    moreover have "unat (- 1 :: u32) = 2 ^ 32 - 1" by (simp only: unsigned_minus_1_eq_mask mask_eq_exp_minus_1) simp
    ultimately have "unat (p - (p + 1)) = 2 ^ 32 - 1" by (simp only:)
    then have "\<not> unat (x - (p + 1)) < length cs" using 1(2) True by simp
    then have "store_chars (p + 1) cs (m(p := of_char c)) x = of_char c"
      using True unfolding IH by simp
    then show ?thesis using True by simp
  next
    case False
    then have nz: "x - p \<noteq> 0" by simp
    have "unat (x - p) = Suc (unat (x - (p + 1)))"
      using unat_pred_Suc [OF nz] by (simp add: algebra_simps)
    then show ?thesis using False by (simp only: store_chars.simps IH) simp
  qed
qed simp

text \<open>C34. \<open>printk\<close> does not bound what it formats.  With a field width of 1024 it stores, whatever
  the argument, 1024 characters (blanks and the reference decimal text of the argument) from the
  start of its buffer on and a NUL in the byte at offset 1024, the first one behind
  \<open>static char buf[1024]\<close>, whatever that byte held; no other byte of memory changes.\<close>

theorem printk_overruns_buffer:
  "\<exists>t m'. printk m ''%1024d'' args = Some (1024, t) \<and> printk_memory buf m ''%1024d'' args = Some m' \<and>
     t = replicate (1024 - length (show_int (sint (args 0)))) CHR '' '' @ show_int (sint (args 0)) \<and>
     m' = (\<lambda>x. if unat (x - buf) < 1024 then of_char (t ! unat (x - buf))
               else if x = buf + 1024 then 0 else m x)"
proof -
  let ?n = "show_int (sint (args 0))"
  define t where "t = replicate (1024 - length ?n) CHR '' '' @ ?n"
  have s: "parse_spec args 0 ''1024d'' = (0, 1024, -1, 0, ''d'')"
    by (simp add: parse_spec_def parse_width_def parse_precision_def skip_qualifier_def is_digit_def)
  have l: "length ?n \<le> 11" by (rule show_int_length)
  then have r: "nat (1024 - int (length ?n)) = 1024 - length ?n" by simp
  have "vs_conv m args 0 0 0 1024 (-1) CHR ''d'' = Some (t, 1, [])"
    by (simp add: vs_conv_def number_decimal_width r t_def)
  then have v: "vsprintf m ''%1024d'' args = Some (t, [])"
    using s by (simp add: vsprintf_def vsprintf_loop.simps [of m args 0 "''%1024d''"]
        vsprintf_loop_nil)
  have len: "length t = 1024" using l by (simp add: t_def)
  have "CHR 0x00 \<notin> set t" using show_int_no_nul by (auto simp: t_def)
  then have "takeWhile (\<lambda>c. c \<noteq> CHR 0x00) t = t" by (auto simp: takeWhile_eq_all_conv)
  then have "printk m ''%1024d'' args = Some (1024, t)" by (simp add: printk_def v len)
  moreover have "printk_memory buf m ''%1024d'' args =
      Some (\<lambda>x. if unat (x - buf) < 1024 then of_char (t ! unat (x - buf))
               else if x = buf + 1024 then 0 else m x)"
    by (auto simp: printk_memory_def v len store_chars_apply fun_eq_iff)
  ultimately show ?thesis using t_def by blast
qed

end
