(* ===== verification/Sched.thy ===== *)
theory Sched
  imports Vmm
begin

text \<open>
  Processes: \<open>src/kernel/process/process.c\<close>, \<open>lock.c\<close>, \<open>lock.h\<close>, \<open>wait.c\<close> and \<open>switch_context\<close> of
  \<open>switch.S\<close>.  A process is a record at the address of its kernel stack; all processes form
  a ring through \<open>next\<close>.  The timer interrupt calls \<open>process_switch\<close>, whose \<open>goto\<close> loop walks
  the ring and may not end: it is a \<open>partial_function (option)\<close>.
\<close>

section \<open>State\<close>

datatype pstate = RUN | EXIT | LOCK | WAIT

record context_t =
  esp :: u32
  ebp :: u32
  eflags :: u32

record process =
  state :: pstate
  pid :: u32
  stack_top :: u32
  pde :: u32
  ctx :: context_t
  lock :: u32
  tick :: u32
  next_proc :: u32

text \<open>The processes and locks by address, the words \<open>process_create\<close> pushes on new stacks, the
  kernel stack pointer of the TSS and the registers that \<open>switch_context\<close> exchanges.\<close>

record sched_state = mm_state +
  current_process :: u32
  new_pid :: u32
  procs :: "u32 \<Rightarrow> process"
  stack_mem :: "u32 \<Rightarrow> u32"
  lock_mem :: "u32 \<Rightarrow> u8"
  esp0 :: u32
  cpu :: context_t
  timer_ticks :: u32

definition upd_proc :: "u32 \<Rightarrow> (process \<Rightarrow> process) \<Rightarrow> 'a sched_state_scheme \<Rightarrow> 'a sched_state_scheme" where
  "upd_proc p f s = s\<lparr>procs := (procs s)(p := f (procs s p))\<rparr>"

definition upd_lock :: "u32 \<Rightarrow> u8 \<Rightarrow> 'a sched_state_scheme \<Rightarrow> 'a sched_state_scheme" where
  "upd_lock l v s = s\<lparr>lock_mem := (lock_mem s)(l := v)\<rparr>"

section \<open>Locks\<close>

definition init_process_lock :: "u32 \<Rightarrow> 'a sched_state_scheme \<Rightarrow> 'a sched_state_scheme" where
  "init_process_lock l = upd_lock l 0"

definition init_intr_lock :: "u32 \<Rightarrow> 'a sched_state_scheme \<Rightarrow> 'a sched_state_scheme" where
  "init_intr_lock l = upd_lock l 1"

definition process_unlock :: "u32 \<Rightarrow> 'a sched_state_scheme \<Rightarrow> 'a sched_state_scheme" where
  "process_unlock l = upd_lock l 0"

definition intr_unlock :: "u32 \<Rightarrow> 'a sched_state_scheme \<Rightarrow> 'a sched_state_scheme" where
  "intr_unlock l = upd_lock l 0"

section \<open>The switch\<close>

text \<open>\<open>switch_context\<close> saves the three registers in one record and loads them from the other.\<close>

definition switch_context :: "u32 \<Rightarrow> u32 \<Rightarrow> 'a sched_state_scheme \<Rightarrow> 'a sched_state_scheme" where
  "switch_context prev nxt s =
     (let s1 = upd_proc prev (\<lambda>p. p\<lparr>ctx := cpu s\<rparr>) s
      in s1\<lparr>cpu := ctx (procs s1 nxt)\<rparr>)"

definition switch_to :: "u32 \<Rightarrow> u32 \<Rightarrow> 'a sched_state_scheme \<Rightarrow> 'a sched_state_scheme" where
  "switch_to prev nxt s =
     (if nxt \<noteq> prev then
        (let s1 = s\<lparr>current_process := nxt, esp0 := stack_top (procs s nxt)\<rparr>;
             s2 = (if pde (procs s1 prev) \<noteq> pde (procs s1 nxt)
                   then s1\<lparr>cr3 := pde (procs s1 nxt)\<rparr> else s1)
         in switch_context prev nxt s2)
      else s)"

definition wake_lock :: "u32 \<Rightarrow> 'a sched_state_scheme \<Rightarrow> 'a sched_state_scheme" where
  "wake_lock nxt s =
     (let l = lock (procs s nxt) in
      if lock_mem s l = 0 then upd_proc nxt (\<lambda>p. p\<lparr>state := RUN\<rparr>) (upd_lock l 1 s) else s)"

definition wake_wait :: "u32 \<Rightarrow> u32 \<Rightarrow> 'a sched_state_scheme \<Rightarrow> 'a sched_state_scheme" where
  "wake_wait t nxt s =
     (if t \<ge> tick (procs s nxt) then upd_proc nxt (\<lambda>p. p\<lparr>state := RUN\<rparr>) s else s)"

definition reap :: "u32 \<Rightarrow> u32 \<Rightarrow> 'a sched_state_scheme \<Rightarrow> 'a sched_state_scheme" where
  "reap lst nxt s =
     vmm_free_page nxt (KERNEL_STACK_SIZE div PAGE_SIZE)
       (upd_proc lst (\<lambda>p. p\<lparr>next_proc := next_proc (procs s nxt)\<rparr>) s)"

partial_function (option) switch_loop ::
    "u32 \<Rightarrow> u32 \<Rightarrow> u32 \<Rightarrow> 'a sched_state_scheme \<Rightarrow> 'a sched_state_scheme option" where
  "switch_loop prev lst t s =
     (let nxt = next_proc (procs s lst) in
      if state (procs s nxt) = RUN then Some (switch_to prev nxt s)
      else if state (procs s nxt) = LOCK then switch_loop prev nxt t (wake_lock nxt s)
      else if state (procs s nxt) = WAIT then switch_loop prev nxt t (wake_wait t nxt s)
      else switch_loop prev lst t (reap lst nxt s))"

declare switch_loop.simps [code]

definition process_switch :: "u32 \<Rightarrow> 'a sched_state_scheme \<Rightarrow> 'a sched_state_scheme option" where
  "process_switch t s = switch_loop (current_process s) (current_process s) t s"

text \<open>\<open>intr(TIMER_INT)\<close> and the timer's interrupt run \<open>irq0_handler\<close>: the registered handler is
  \<open>process_switch\<close>, called with the tick count, which is then one higher.\<close>

definition timer_interrupt :: "'a sched_state_scheme \<Rightarrow> 'a sched_state_scheme option" where
  "timer_interrupt s = process_switch (timer_ticks s) (s\<lparr>timer_ticks := timer_ticks s + 1\<rparr>)"

section \<open>Operations of a process\<close>

definition process_lock :: "u32 \<Rightarrow> 'a sched_state_scheme \<Rightarrow> 'a sched_state_scheme option" where
  "process_lock l s =
     timer_interrupt (upd_proc (current_process s) (\<lambda>p. p\<lparr>lock := l, state := LOCK\<rparr>) s)"

text \<open>\<open>intr_lock\<close> with a process running: alone in the ring it halts until an interrupt opens the
  lock; \<open>halts\<close> are the states of the interrupts' handlers that end those halts, one each.\<close>

fun intr_lock_wait :: "u32 \<Rightarrow> ('a sched_state_scheme \<Rightarrow> 'a sched_state_scheme) list \<Rightarrow>
    'a sched_state_scheme \<Rightarrow> 'a sched_state_scheme option" where
  "intr_lock_wait l hs s =
     (if (current_process s = NULL \<or> current_process s = next_proc (procs s (current_process s))) \<and>
         lock_mem s l = 1
      then (case hs of [] \<Rightarrow> None | h # hs \<Rightarrow> intr_lock_wait l hs (h s))
      else Some s)"

definition intr_lock :: "u32 \<Rightarrow> ('a sched_state_scheme \<Rightarrow> 'a sched_state_scheme) list \<Rightarrow>
    'a sched_state_scheme \<Rightarrow> 'a sched_state_scheme option" where
  "intr_lock l hs s =
     (case intr_lock_wait l hs (upd_proc (current_process s) (\<lambda>p. p\<lparr>lock := l\<rparr>) s) of
        None \<Rightarrow> None
      | Some s1 \<Rightarrow>
          if lock_mem s1 l = 1
          then timer_interrupt (upd_proc (current_process s1) (\<lambda>p. p\<lparr>state := LOCK\<rparr>) s1)
          else Some s1)"

definition process_wait :: "u32 \<Rightarrow> 'a sched_state_scheme \<Rightarrow> 'a sched_state_scheme option" where
  "process_wait n s =
     timer_interrupt (upd_proc (current_process s) (\<lambda>p. p\<lparr>tick := timer_ticks s + n, state := WAIT\<rparr>) s)"

text \<open>\<open>process_exit\<close> marks the process and halts until the timer takes the processor away.\<close>

definition process_exit :: "'a sched_state_scheme \<Rightarrow> 'a sched_state_scheme" where
  "process_exit s = upd_proc (current_process s) (\<lambda>p. p\<lparr>state := EXIT\<rparr>) s"

definition process_create ::
    "u32 \<Rightarrow> u32 \<Rightarrow> u32 \<Rightarrow> u32 \<Rightarrow> 'a sched_state_scheme \<Rightarrow> (u32 \<times> 'a sched_state_scheme) option" where
  "process_create fn arg exit_fn pd s =
     (case vmm_alloc_page (KERNEL_STACK_SIZE div PAGE_SIZE) s of
        None \<Rightarrow> None
      | Some (new, s1) \<Rightarrow>
          if new = NULL then Some (0, s1)
          else
            (let n = new_pid s1;
                 top = new + KERNEL_STACK_SIZE;
                 s2 = s1\<lparr>new_pid := n + 1,
                   stack_mem := (stack_mem s1)(top - 4 := arg, top - 8 := exit_fn, top - 12 := fn)\<rparr>;
                 s3 = upd_proc new (\<lambda>p. p\<lparr>state := RUN, pid := n, stack_top := top,
                        ctx := (ctx p)\<lparr>esp := top - 12, eflags := 0x200\<rparr>, pde := pd,
                        next_proc := next_proc (procs s2 (current_process s2))\<rparr>) s2;
                 s4 = upd_proc (current_process s3) (\<lambda>p. p\<lparr>next_proc := new\<rparr>) s3
             in Some (n, s4)))"

text \<open>\<open>init_current_process\<close>: the boot stack becomes the first process, alone in the ring.\<close>

definition init_current_process :: "u32 \<Rightarrow> 'a sched_state_scheme \<Rightarrow> 'a sched_state_scheme" where
  "init_current_process init_kernel_stack s =
     (let n = new_pid s;
          s1 = s\<lparr>current_process := init_kernel_stack, new_pid := n + 1\<rparr>
      in upd_proc init_kernel_stack (\<lambda>p. p\<lparr>state := RUN, pid := n,
           stack_top := init_kernel_stack + KERNEL_STACK_SIZE, pde := kernel_mmap_pde_addr s1,
           next_proc := init_kernel_stack\<rparr>) s1)"

section \<open>Frames\<close>

lemma mm_more_pmm: "pmm_state.more s = pmm_state.more t \<Longrightarrow> mm_state.more s = mm_state.more t"
  by (cases s, cases t) simp

lemma globl_page_more [simp]:
  "mm_state.more (globl_page_mmap f g s) = mm_state.more s"
  "mm_state.more (globl_page_remove g s) = mm_state.more s"
  by (simp_all add: globl_page_mmap_def globl_page_remove_def)

lemma vmm_free_page_more [simp]: "mm_state.more (vmm_free_page a n s) = mm_state.more s"
proof -
  have b: "mm_state.more (globl_page_remove g (pmm_free_page p k s)) = mm_state.more s" for g p k s
    by (simp add: mm_more_pmm [OF pmm_free_page_more])
  have "mm_state.more (for_loop 0 n (\<lambda>i s. let s1 = pmm_free_page (get_vmm_page (k + i) s) 1 s
      in globl_page_remove (get_globl_page_index (k + i) s1) s1) s) = mm_state.more s" for k s
    by (rule for_loop_preserves) (simp only: Let_def b)
  note loop = this
  show ?thesis
    by (simp add: vmm_free_page_def Let_def mm_more_pmm [OF pmm_free_page_more] loop [unfolded Let_def])
qed

lemma sched_more_cong:
  assumes "mm_state.more s = mm_state.more t"
  shows "current_process s = current_process t" "new_pid s = new_pid t" "procs s = procs t"
    "stack_mem s = stack_mem t" "lock_mem s = lock_mem t" "esp0 s = esp0 t" "cpu s = cpu t"
    "timer_ticks s = timer_ticks t"
  using assms by (cases s, cases t, simp)+

lemmas vmm_free_page_sched [simp, frame] = sched_more_cong [OF vmm_free_page_more]

abbreviation nx :: "'a sched_state_scheme \<Rightarrow> u32 \<Rightarrow> u32" where
  "nx s p \<equiv> next_proc (procs s p)"

abbreviation st :: "'a sched_state_scheme \<Rightarrow> u32 \<Rightarrow> pstate" where
  "st s p \<equiv> state (procs s p)"

lemma upd_proc_simps [simp]:
  "procs (upd_proc p f s) q = (if q = p then f (procs s p) else procs s q)"
  "current_process (upd_proc p f s) = current_process s" "lock_mem (upd_proc p f s) = lock_mem s"
  "timer_ticks (upd_proc p f s) = timer_ticks s" "new_pid (upd_proc p f s) = new_pid s"
  "stack_mem (upd_proc p f s) = stack_mem s" "cpu (upd_proc p f s) = cpu s"
  "esp0 (upd_proc p f s) = esp0 s"
  by (simp_all add: upd_proc_def)

lemma upd_lock_simps [simp]:
  "lock_mem (upd_lock l v s) m = (if m = l then v else lock_mem s m)"
  "current_process (upd_lock l v s) = current_process s" "procs (upd_lock l v s) = procs s"
  "timer_ticks (upd_lock l v s) = timer_ticks s"
  by (simp_all add: upd_lock_def)

lemma switch_to_simps [simp]:
  "nx (switch_to prev n s) p = nx s p" "st (switch_to prev n s) p = st s p"
  "lock (procs (switch_to prev n s) p) = lock (procs s p)"
  "lock_mem (switch_to prev n s) = lock_mem s"
  "timer_ticks (switch_to prev n s) = timer_ticks s"
  by (simp_all add: switch_to_def switch_context_def Let_def upd_proc_def)

lemma switch_to_current:
  "current_process s = prev \<Longrightarrow> current_process (switch_to prev n s) = n"
  by (simp add: switch_to_def switch_context_def Let_def)

lemma wake_lock_simps [simp]:
  "nx (wake_lock n s) p = nx s p" "current_process (wake_lock n s) = current_process s"
  "lock (procs (wake_lock n s) p) = lock (procs s p)" "tick (procs (wake_lock n s) p) = tick (procs s p)"
  "st (wake_lock n s) p = (if p = n \<and> lock_mem s (lock (procs s n)) = 0 then RUN else st s p)"
  "lock_mem (wake_lock n s) l = (if l = lock (procs s n) \<and> lock_mem s l = 0 then 1 else lock_mem s l)"
  by (auto simp: wake_lock_def Let_def)

lemma wake_wait_simps [simp]:
  "nx (wake_wait t n s) p = nx s p" "current_process (wake_wait t n s) = current_process s"
  "lock (procs (wake_wait t n s) p) = lock (procs s p)" "tick (procs (wake_wait t n s) p) = tick (procs s p)"
  "st (wake_wait t n s) p = (if p = n \<and> t \<ge> tick (procs s n) then RUN else st s p)"
  "lock_mem (wake_wait t n s) = lock_mem s"
  by (auto simp: wake_wait_def)

lemma reap_simps [simp]:
  "nx (reap l n s) p = (if p = l then nx s n else nx s p)"
  "current_process (reap l n s) = current_process s"
  "lock (procs (reap l n s) p) = lock (procs s p)" "tick (procs (reap l n s) p) = tick (procs s p)"
  "st (reap l n s) p = st s p" "lock_mem (reap l n s) = lock_mem s"
  by (auto simp: reap_def)

section \<open>Induction on the switch\<close>

text \<open>One rule for every statement of the form ``if the switch returns'': the four cases of the
  process the loop looks at.\<close>

lemma switch_loop_induct [consumes 1, case_names run lock wait exit]:
  assumes "switch_loop prev lst t s = Some u"
    and run: "\<And>lst s. st s (nx s lst) = RUN \<Longrightarrow> P lst s (switch_to prev (nx s lst) s)"
    and lock: "\<And>lst s u. st s (nx s lst) = LOCK \<Longrightarrow> P (nx s lst) (wake_lock (nx s lst) s) u \<Longrightarrow> P lst s u"
    and wait: "\<And>lst s u. st s (nx s lst) = WAIT \<Longrightarrow> P (nx s lst) (wake_wait t (nx s lst) s) u \<Longrightarrow> P lst s u"
    and exit: "\<And>lst s u. st s (nx s lst) = EXIT \<Longrightarrow> P lst (reap lst (nx s lst) s) u \<Longrightarrow> P lst s u"
  shows "P lst s u"
proof -
  have "switch_loop a b c d = Some e \<Longrightarrow> a = prev \<longrightarrow> c = t \<longrightarrow> P b d e" for a b c d e
  proof (rule switch_loop.raw_induct [where P = "\<lambda>a b c d e. a = prev \<longrightarrow> c = t \<longrightarrow> P b d e"], goal_cases)
    case (1 loop a b c d e)
    show ?case
    proof (cases "st d (nx d b)")
      case RUN
      with 1 run [of d b] show ?thesis by (auto simp: Let_def)
    next
      case LOCK
      with 1 lock [of d b e] show ?thesis by (auto simp: Let_def)
    next
      case WAIT
      with 1 wait [of d b e] show ?thesis by (auto simp: Let_def)
    next
      case EXIT
      with 1 exit [of d b e] show ?thesis by (auto simp: Let_def)
    qed
  qed
  with assms(1) show ?thesis by blast
qed

lemma switch_loop_step:
  "st s (nx s lst) = RUN \<Longrightarrow> switch_loop prev lst t s = Some (switch_to prev (nx s lst) s)"
  "st s (nx s lst) = LOCK \<Longrightarrow> switch_loop prev lst t s = switch_loop prev (nx s lst) t (wake_lock (nx s lst) s)"
  "st s (nx s lst) = WAIT \<Longrightarrow> switch_loop prev lst t s = switch_loop prev (nx s lst) t (wake_wait t (nx s lst) s)"
  "st s (nx s lst) = EXIT \<Longrightarrow> switch_loop prev lst t s = switch_loop prev lst t (reap lst (nx s lst) s)"
  by (subst switch_loop.simps, simp add: Let_def)+

section \<open>The ring\<close>

fun walk :: "(u32 \<Rightarrow> u32) \<Rightarrow> u32 \<Rightarrow> u32 list \<Rightarrow> bool" where
  "walk f a [] \<longleftrightarrow> True"
| "walk f a (y # ys) \<longleftrightarrow> f a = y \<and> walk f y ys"

lemma walk_append: "walk f a (xs @ ys) \<longleftrightarrow> walk f a xs \<and> walk f (last (a # xs)) ys"
  by (induction xs arbitrary: a) auto

lemma walk_cong:
  "(\<And>x. x \<in> set (butlast (a # xs)) \<Longrightarrow> f x = g x) \<Longrightarrow> walk f a xs \<longleftrightarrow> walk g a xs"
proof (induction xs arbitrary: a)
  case Nil
  then show ?case by simp
next
  case (Cons x xs)
  then have "walk f x xs \<longleftrightarrow> walk g x xs" by (intro Cons.IH) auto
  with Cons.prems show ?case by simp
qed

definition ring :: "'a sched_state_scheme \<Rightarrow> u32 list \<Rightarrow> bool" where
  "ring s xs \<longleftrightarrow> (case xs of [] \<Rightarrow> False | x # ys \<Rightarrow> distinct xs \<and> walk (nx s) x (ys @ [x]))"

lemma ring_cong:
  assumes "\<And>p. p \<in> set xs \<Longrightarrow> nx s p = nx t p"
  shows "ring s xs = ring t xs"
proof (cases xs)
  case Nil
  then show ?thesis by (simp add: ring_def)
next
  case (Cons x ys)
  have "walk (nx s) x (ys @ [x]) \<longleftrightarrow> walk (nx t) x (ys @ [x])"
    using assms Cons by (intro walk_cong) auto
  with Cons show ?thesis by (simp add: ring_def)
qed

lemma ring_rotate:
  assumes "ring s (x # y # ys)"
  shows "ring s (y # ys @ [x])"
  using assms by (auto simp: ring_def walk_append)

lemma ring_next: "ring s (x # ys) \<Longrightarrow> nx s x = hd (ys @ [x])"
  by (cases ys) (auto simp: ring_def)

lemma ring_reap:
  assumes "ring s (x # y # ys)"
  shows "ring (reap x y s) (x # ys)"
proof -
  have d: "distinct (x # y # ys)" and n: "nx s x = y" and w: "walk (nx s) y (ys @ [x])"
    using assms by (auto simp: ring_def)
  have "walk (nx (reap x y s)) x (ys @ [x])"
  proof (cases ys)
    case Nil
    with w d show ?thesis by simp
  next
    case (Cons z zs)
    have "walk (nx (reap x y s)) z (zs @ [x]) \<longleftrightarrow> walk (nx s) z (zs @ [x])"
      using d Cons by (intro walk_cong) (auto dest: in_set_butlastD)
    with w d Cons show ?thesis by simp
  qed
  with d show ?thesis by (simp add: ring_def)
qed

lemma ring_reap_single:
  "ring s [x] \<Longrightarrow> ring (reap x x s) [x]"
  by (simp add: ring_def)

lemma ring_step:
  assumes "ring s (x # ys)"
  obtains zs where "ring s (nx s x # zs)" "set (nx s x # zs) = set (x # ys)"
proof (cases ys)
  case Nil
  with assms have "nx s x = x" by (simp add: ring_def)
  with assms that [of ys] show thesis by simp
next
  case (Cons y zs)
  then have "nx s x = y" using ring_next [OF assms] by simp
  moreover have "ring s (y # zs @ [x])" using assms Cons by (auto intro: ring_rotate)
  ultimately show thesis using that [of "zs @ [x]"] Cons by auto
qed

lemma ring_wake [simp]:
  "ring (wake_lock n s) xs = ring s xs" "ring (wake_wait t n s) xs = ring s xs"
  "ring (switch_to prev n s) xs = ring s xs"
  by (rule ring_cong; simp)+

text \<open>A process the switch reaps leaves the ring; the others stay.\<close>

lemma ring_exit:
  assumes "ring s (x # ys)"
  obtains zs where "ring (reap x (nx s x) s) (x # zs)" "set (x # zs) \<subseteq> set (x # ys)"
    "set (x # ys) - set (x # zs) \<subseteq> {nx s x}"
proof (cases ys)
  case Nil
  with assms have "nx s x = x" by (simp add: ring_def)
  with assms Nil that [of "[]"] ring_reap_single [of s x] show thesis by simp
next
  case (Cons y zs)
  then have "nx s x = y" using ring_next [OF assms] by simp
  with assms Cons ring_reap [of s x y zs] that [of zs] show thesis by auto
qed

section \<open>What a switch does to states and locks\<close>

text \<open>The only change of state is from waiting to running.\<close>

lemma switch_loop_states:
  assumes "switch_loop prev lst t s = Some u"
  shows "(st u p = st s p \<or> st u p = RUN \<and> (st s p = LOCK \<or> st s p = WAIT)) \<and>
    lock (procs u p) = lock (procs s p)"
  using assms by (induction rule: switch_loop_induct) (auto split: if_splits)

lemma switch_loop_ring:
  assumes "switch_loop prev lst t s = Some u" and "current_process s = prev" and "ring s (lst # ys)"
  shows "\<exists>qs. ring u (current_process u # qs) \<and> st u (current_process u) = RUN \<and>
    set (current_process u # qs) \<subseteq> set (lst # ys) \<and>
    (\<forall>p\<in>set (lst # ys) - set (current_process u # qs). st s p = EXIT)"
  using assms
proof (induction arbitrary: ys rule: switch_loop_induct)
  case (run lst s)
  obtain zs where "ring s (nx s lst # zs)" "set (nx s lst # zs) = set (lst # ys)"
    using ring_step [OF run(3)] by blast
  with run show ?case by (intro exI [of _ zs]) (auto simp: switch_to_current)
next
  case (lock lst s u)
  obtain zs where "ring s (nx s lst # zs)" "set (nx s lst # zs) = set (lst # ys)"
    using ring_step [OF lock(4)] by blast
  moreover from this lock.IH [of zs] lock.prems obtain qs where
    "ring u (current_process u # qs)" "st u (current_process u) = RUN"
    "set (current_process u # qs) \<subseteq> set (nx s lst # zs)"
    "\<forall>p\<in>set (nx s lst # zs) - set (current_process u # qs). st (wake_lock (nx s lst) s) p = EXIT"
    by auto
  ultimately show ?case by (intro exI [of _ qs]) (auto split: if_splits)
next
  case (wait lst s u)
  obtain zs where "ring s (nx s lst # zs)" "set (nx s lst # zs) = set (lst # ys)"
    using ring_step [OF wait(4)] by blast
  moreover from this wait.IH [of zs] wait.prems obtain qs where
    "ring u (current_process u # qs)" "st u (current_process u) = RUN"
    "set (current_process u # qs) \<subseteq> set (nx s lst # zs)"
    "\<forall>p\<in>set (nx s lst # zs) - set (current_process u # qs). st (wake_wait t (nx s lst) s) p = EXIT"
    by auto
  ultimately show ?case by (intro exI [of _ qs]) (auto split: if_splits)
next
  case (exit lst s u)
  obtain zs where zs: "ring (reap lst (nx s lst) s) (lst # zs)" "set (lst # zs) \<subseteq> set (lst # ys)"
    "set (lst # ys) - set (lst # zs) \<subseteq> {nx s lst}"
    using ring_exit [OF exit(4)] by blast
  from exit.IH [OF _ zs(1)] exit.prems obtain qs where
    "ring u (current_process u # qs)" "st u (current_process u) = RUN"
    "set (current_process u # qs) \<subseteq> set (lst # zs)"
    "\<forall>p\<in>set (lst # zs) - set (current_process u # qs). st s p = EXIT"
    by auto
  with zs exit(1) show ?case by (intro exI [of _ qs]) blast
qed

text \<open>The processes that a switch lets through a lock.\<close>

definition granted :: "'a sched_state_scheme \<Rightarrow> 'a sched_state_scheme \<Rightarrow> u32 \<Rightarrow> u32 set" where
  "granted s u l = {p. st s p = LOCK \<and> lock (procs s p) = l \<and> st u p = RUN}"

lemma switch_loop_locks:
  assumes "switch_loop prev lst t s = Some u"
  shows "(lock_mem u l = lock_mem s l \<and> granted s u l = {} \<or>
    lock_mem s l = 0 \<and> lock_mem u l = 1 \<and> (\<exists>p. granted s u l = {p})) \<and>
    (\<forall>p. st s p = RUN \<longrightarrow> st u p = RUN)"
  using assms
proof (induction rule: switch_loop_induct)
  case (run lst s)
  then show ?case by (auto simp: granted_def)
next
  case (lock lst s u)
  let ?n = "nx s lst" and ?s1 = "wake_lock (nx s lst) s"
  show ?case
  proof (cases "lock_mem s (process.lock (procs s ?n)) = 0")
    case True
    note free = True
    have n: "st u ?n = RUN" using lock.IH free by simp
    have g: "granted s u l = granted ?s1 u l \<union> (if l = process.lock (procs s ?n) then {?n} else {})"
      using lock.hyps n free by (auto simp: granted_def)
    show ?thesis
    proof (cases "l = process.lock (procs s ?n)")
      case True
      with lock.IH free have "lock_mem u l = 1" "granted ?s1 u l = {}" by auto
      with g True free lock.IH show ?thesis by auto
    next
      case False
      with g lock.IH show ?thesis by auto
    qed
  next
    case False
    then have "?s1 = s" by (simp add: wake_lock_def Let_def)
    with lock.IH show ?thesis by simp
  qed
next
  case (wait lst s u)
  have "granted s u l = granted (wake_wait t (nx s lst) s) u l"
    using wait.hyps by (auto simp: granted_def split: if_splits)
  with wait.IH show ?case by auto
next
  case (exit lst s u)
  then show ?case by (auto simp: granted_def)
qed

section \<open>When a switch returns\<close>

definition ready :: "u32 \<Rightarrow> 'a sched_state_scheme \<Rightarrow> u32 \<Rightarrow> bool" where
  "ready t s p \<longleftrightarrow> (case st s p of RUN \<Rightarrow> True | EXIT \<Rightarrow> False
     | LOCK \<Rightarrow> lock_mem s (process.lock (procs s p)) = 0 | WAIT \<Rightarrow> t \<ge> tick (procs s p))"

lemma ready_reap [simp]: "ready t (reap l n s) p = ready t s p"
  by (simp add: ready_def split: pstate.split)

lemma switch_loop_stuck:
  assumes "switch_loop prev lst t s = Some u"
  shows "lst \<in> X \<Longrightarrow> (\<And>p. p \<in> X \<Longrightarrow> nx s p \<in> X \<and> \<not> ready t s p) \<Longrightarrow> False"
  using assms
proof (induction rule: switch_loop_induct)
  case (run lst s)
  then have "\<not> ready t s (nx s lst)" by blast
  with run show ?case by (simp add: ready_def)
next
  case (lock lst s u)
  then have nr: "nx s lst \<in> X" "\<not> ready t s (nx s lst)" by blast+
  with lock(1) have "wake_lock (nx s lst) s = s"
    by (simp add: wake_lock_def ready_def Let_def)
  with lock nr show ?case by simp
next
  case (wait lst s u)
  then have nr: "nx s lst \<in> X" "\<not> ready t s (nx s lst)" by blast+
  with wait(1) have "wake_wait t (nx s lst) s = s"
    by (simp add: wake_wait_def ready_def)
  with wait nr show ?case by simp
next
  case (exit lst s u)
  have "nx (reap lst (nx s lst) s) p \<in> X \<and> \<not> ready t (reap lst (nx s lst) s) p" if "p \<in> X" for p
    using exit.prems that by auto
  with exit show ?case by blast
qed

text \<open>A process that is not woken changes nothing; one that is becomes \<open>RUN\<close>.\<close>

lemma wake_idle:
  "st s n = LOCK \<Longrightarrow> \<not> ready t s n \<Longrightarrow> wake_lock n s = s"
  "st s n = WAIT \<Longrightarrow> \<not> ready t s n \<Longrightarrow> wake_wait t n s = s"
  "st s n = LOCK \<Longrightarrow> ready t s n \<Longrightarrow> st (wake_lock n s) p = (if p = n then RUN else st s p)"
  "st s n = WAIT \<Longrightarrow> ready t s n \<Longrightarrow> st (wake_wait t n s) p = (if p = n then RUN else st s p)"
  by (simp_all add: ready_def wake_lock_def wake_wait_def Let_def)

definition idle :: "'a sched_state_scheme \<Rightarrow> u32 list \<Rightarrow> nat" where
  "idle s xs = length (filter (\<lambda>q. st s q \<noteq> RUN) xs)"

definition ready_dist :: "u32 \<Rightarrow> 'a sched_state_scheme \<Rightarrow> u32 list \<Rightarrow> nat" where
  "ready_dist t s xs = length (takeWhile (\<lambda>q. \<not> ready t s q) xs)"

lemma idle_rotate: "idle s (ys @ [x]) = idle s (x # ys)"
  by (simp add: idle_def)

lemma idle_wake:
  assumes "n \<in> set xs" and "st s n \<noteq> RUN" and "\<And>q. st s1 q = (if q = n then RUN else st s q)"
  shows "idle s1 xs < idle s xs"
  using assms(1)
proof (induction xs)
  case Nil
  then show ?case by simp
next
  case (Cons a xs)
  have le: "idle s1 xs \<le> idle s xs"
    by (induction xs) (auto simp: idle_def assms(3))
  from Cons assms(2) le show ?case by (cases "a = n") (auto simp: idle_def assms(3) less_Suc_eq_le)
qed

lemma ready_dist_rotate:
  assumes "\<not> ready t s y" and "p \<in> set (ys @ [x])" and "ready t s p"
  shows "ready_dist t s (ys @ [x, y]) < ready_dist t s (y # ys @ [x])"
proof -
  have "takeWhile (\<lambda>q. \<not> ready t s q) ((ys @ [x]) @ [y]) = takeWhile (\<lambda>q. \<not> ready t s q) (ys @ [x])"
    using assms(2,3) by (intro takeWhile_append1) auto
  with assms(1) show ?thesis by (simp add: ready_dist_def)
qed

text \<open>With a process that is ready the loop ends: every step removes a process that is not
  running, starts one, or brings the first ready process one step nearer.\<close>

lemma switch_loop_returns:
  fixes s :: "'a sched_state_scheme"
  assumes "ring s (lst # ys)" and "p \<in> set (lst # ys)" and "ready t s p"
  shows "\<exists>u. switch_loop prev lst t s = Some u"
  using assms
proof (induction "(idle s (lst # ys), ready_dist t s (ys @ [lst]))" arbitrary: lst ys s p
    rule: wf_induct_rule [OF wf_lex_prod [OF wf_less_than wf_less_than]])
  case (1 lst ys s p)
  have ih1: "\<exists>u. switch_loop prev l t s' = Some u"
    if "ring s' (l # zs)" "q \<in> set (l # zs)" "ready t s' q" "idle s' (l # zs) < idle s (lst # ys)"
    for s' :: "'a sched_state_scheme" and l zs q
    using 1(1) [OF _ that(1-3)] that(4) by simp
  have ih2: "\<exists>u. switch_loop prev l t s = Some u"
    if "ring s (l # zs)" "q \<in> set (l # zs)" "ready t s q" "idle s (l # zs) = idle s (lst # ys)"
      "ready_dist t s (zs @ [l]) < ready_dist t s (ys @ [lst])" for l zs q
    using 1(1) [OF _ that(1-3)] that(4,5) by simp
  define n where "n = nx s lst"
  obtain zs where zs: "ys @ [lst] = n # zs"
    using ring_next [OF 1(2)] by (cases "ys @ [lst]") (auto simp: n_def)
  have mem: "set (n # zs) = set (lst # ys)" unfolding zs [symmetric] by auto
  have ring_n: "ring s (n # zs)"
  proof (cases ys)
    case Nil
    with zs 1(2) show ?thesis by auto
  next
    case (Cons y ys')
    with zs have "n = y" "zs = ys' @ [lst]" by simp_all
    with ring_rotate [of s lst y ys'] 1(2) Cons show ?thesis by simp
  qed
  have move: "\<exists>u. switch_loop prev n t s1 = Some u"
    if nr: "st s n \<noteq> RUN" and r: "\<And>xs. ring s1 xs = ring s xs"
      and w: "ready t s n \<Longrightarrow> (\<And>q. st s1 q = (if q = n then RUN else st s q))"
      and k: "\<not> ready t s n \<Longrightarrow> s1 = s" for s1
  proof (cases "ready t s n")
    case True
    have "idle s1 (n # zs) < idle s (n # zs)" using nr w [OF True] by (intro idle_wake) auto
    moreover have "idle s (n # zs) = idle s (lst # ys)"
      unfolding zs [symmetric] by (rule idle_rotate)
    moreover have "ready t s1 n" using w [OF True] by (simp add: ready_def)
    ultimately show ?thesis using ih1 [of s1 n zs n] r ring_n by simp
  next
    case False
    with 1(3,4) mem have p: "p \<in> set zs" by auto
    then obtain ys' where ys: "ys = n # ys'" "zs = ys' @ [lst]"
      using zs by (cases ys) auto
    have "ready_dist t s (zs @ [n]) < ready_dist t s (ys @ [lst])"
      using ready_dist_rotate [OF False, of p ys' lst] p 1(4) ys by simp
    moreover have "idle s (n # zs) = idle s (lst # ys)"
      unfolding zs [symmetric] by (rule idle_rotate)
    ultimately show ?thesis using ih2 [OF ring_n _ 1(4)] p k [OF False] by simp
  qed
  show ?case
  proof (cases "st s n")
    case RUN
    then show ?thesis by (simp add: n_def switch_loop_step)
  next
    case EXIT
    then have nr: "\<not> ready t s n" by (simp add: ready_def)
    with 1(3,4) mem have p: "p \<in> set zs" by auto
    then obtain ys' where ys: "ys = n # ys'" "zs = ys' @ [lst]"
      using zs by (cases ys) auto
    have "ring (reap lst n s) (lst # ys')" using ring_reap [of s lst n ys'] 1(2) ys by simp
    moreover have "idle (reap lst n s) (lst # ys') < idle s (lst # ys)"
      using EXIT ys by (simp add: idle_def)
    ultimately have "\<exists>u. switch_loop prev lst t (reap lst n s) = Some u"
      using p ys 1(4) by (intro ih1 [of _ lst ys' p]) auto
    with EXIT show ?thesis by (simp add: n_def switch_loop_step)
  next
    case LOCK
    with move [of "wake_lock n s"] wake_idle(1,3) [of s n t]
    show ?thesis by (simp add: n_def switch_loop_step)
  next
    case WAIT
    with move [of "wake_wait t n s"] wake_idle(2,4) [of s n t]
    show ?thesis by (simp add: n_def switch_loop_step)
  qed
qed

text \<open>The loop takes the first running process after \<open>last\<close> and brings it to the front.\<close>

lemma switch_loop_first:
  fixes s :: "'a sched_state_scheme"
  assumes "ring s (lst # ys @ r # zs)" and "\<And>y. y \<in> set ys \<Longrightarrow> st s y \<noteq> RUN" and "st s r = RUN"
    and "current_process s = prev"
  shows "\<exists>u seen. switch_loop prev lst t s = Some u \<and> current_process u = r \<and>
    ring u (r # zs @ seen) \<and> set seen \<subseteq> set (lst # ys)"
  using assms
proof (induction ys arbitrary: lst s zs)
  case Nil
  have n: "nx s lst = r" using Nil.prems(1) by (simp add: ring_def)
  have "ring (switch_to prev r s) (r # zs @ [lst])" using ring_rotate [of s lst r zs] Nil.prems(1) by simp
  moreover have "current_process (switch_to prev r s) = r" using Nil.prems(4) by (rule switch_to_current)
  ultimately show ?case using Nil.prems(3) n by (force simp: switch_loop_step)
next
  case (Cons y ys)
  have n: "nx s lst = y" using Cons.prems(1) by (simp add: ring_def)
  have rot: "ring s (y # ys @ r # zs @ [lst])"
    using ring_rotate [of s lst y "ys @ r # zs"] Cons.prems(1) by simp
  have d: "y \<notin> set ys" "r \<noteq> y" using Cons.prems(1) by (auto simp: ring_def)
  have move: "\<exists>u seen. switch_loop prev y t s1 = Some u \<and> current_process u = r \<and>
      ring u (r # zs @ seen) \<and> set seen \<subseteq> set (lst # y # ys)"
    if "\<And>xs. ring s1 xs = ring s xs" "\<And>q. q \<noteq> y \<Longrightarrow> st s1 q = st s q" "current_process s1 = prev"
    for s1 :: "'a sched_state_scheme"
  proof -
    have "\<exists>u seen. switch_loop prev y t s1 = Some u \<and> current_process u = r \<and>
        ring u (r # (zs @ [lst]) @ seen) \<and> set seen \<subseteq> set (y # ys)"
    proof (rule Cons.IH)
      show "st s1 q \<noteq> RUN" if "q \<in> set ys" for q
        using Cons.prems(2) [of q] d(1) \<open>q \<in> set ys\<close> \<open>\<And>q. q \<noteq> y \<Longrightarrow> st s1 q = st s q\<close> [of q]
        by (metis list.set_intros(2))
    qed (use Cons.prems(3) d(2) that rot in auto)
    then obtain u seen where "switch_loop prev y t s1 = Some u" "current_process u = r"
      "ring u (r # zs @ lst # seen)" "set seen \<subseteq> set (y # ys)" by auto
    then show ?thesis by (intro exI [of _ u] exI [of _ "lst # seen"]) auto
  qed
  show ?case
  proof (cases "st s y")
    case RUN
    with Cons.prems(2) [of y] show ?thesis by simp
  next
    case EXIT
    have "ring (reap lst y s) (lst # ys @ r # zs)"
      using ring_reap [of s lst y "ys @ r # zs"] Cons.prems(1) by simp
    then have "\<exists>u seen. switch_loop prev lst t (reap lst y s) = Some u \<and> current_process u = r \<and>
        ring u (r # zs @ seen) \<and> set seen \<subseteq> set (lst # ys)"
      using Cons.prems by (intro Cons.IH) auto
    with EXIT n show ?thesis by (auto simp: switch_loop_step)
  next
    case LOCK
    with move [of "wake_lock y s"] n Cons.prems(4) show ?thesis by (auto simp: switch_loop_step)
  next
    case WAIT
    with move [of "wake_wait t y s"] n Cons.prems(4) show ?thesis by (auto simp: switch_loop_step)
  qed
qed

section \<open>No starvation\<close>

text \<open>Timer interrupts one after the other, the processes themselves doing nothing.\<close>

fun timer_interrupts :: "nat \<Rightarrow> 'a sched_state_scheme \<Rightarrow> 'a sched_state_scheme option" where
  "timer_interrupts 0 s = Some s"
| "timer_interrupts (Suc k) s =
     (case timer_interrupt s of None \<Rightarrow> None | Some u \<Rightarrow> timer_interrupts k u)"

lemma ring_ticks [simp]: "ring (timer_ticks_update f s) xs = ring s xs"
  by (rule ring_cong) simp

lemma timer_interrupt_loop:
  "timer_interrupt s = switch_loop (current_process s) (current_process s) (timer_ticks s)
     (s\<lparr>timer_ticks := timer_ticks s + 1\<rparr>)"
  by (simp add: timer_interrupt_def process_switch_def)

lemma timer_interrupts_reach:
  fixes s :: "'a sched_state_scheme"
  assumes "ring s (current_process s # ys @ p # zs)" and "st s p = RUN"
  shows "\<exists>k\<le>Suc (length ys). \<exists>u. timer_interrupts k s = Some u \<and> current_process u = p"
  using assms
proof (induction "length ys" arbitrary: s ys zs rule: less_induct)
  case less
  let ?s1 = "s\<lparr>timer_ticks := timer_ticks s + 1\<rparr>"
  have "\<exists>q\<in>set (ys @ [p]). st s q = RUN" using less.prems(2) by simp
  then obtain xs r ws where r: "ys @ [p] = xs @ r # ws" "st s r = RUN" "\<And>q. q \<in> set xs \<Longrightarrow> st s q \<noteq> RUN"
    using split_list_first_prop [of "ys @ [p]" "\<lambda>q. st s q = RUN"] by blast
  then have "ring ?s1 (current_process s # xs @ r # ws @ zs)"
    using less.prems(1) by (metis append.assoc append_Cons append_Nil ring_ticks)
  then obtain u seen where u: "timer_interrupt s = Some u" "current_process u = r"
      "ring u (r # (ws @ zs) @ seen)"
    using switch_loop_first [of ?s1 "current_process s" xs r "ws @ zs" "current_process s" "timer_ticks s"] r(2,3)
    by (auto simp: timer_interrupt_loop)
  show ?case
  proof (cases ws rule: rev_cases)
    case Nil
    with r(1) have "r = p" by simp
    with u show ?thesis by (intro exI [of _ 1]) simp
  next
    case (snoc ws' q)
    with r(1) have ys: "ys = xs @ r # ws'" "q = p" by simp_all
    have "st u p = RUN"
      using u(1) switch_loop_states [of _ _ _ ?s1 u p] less.prems(2)
      unfolding timer_interrupt_loop by (auto split: if_splits)
    moreover have "ring u (current_process u # ws' @ p # zs @ seen)"
      using u(2,3) snoc ys by simp
    moreover have "length ws' < length ys" using ys by simp
    ultimately obtain k v where "k \<le> Suc (length ws')" "timer_interrupts k u = Some v" "current_process v = p"
      using less.hyps by blast
    with u(1) ys show ?thesis by (intro exI [of _ "Suc k"]) auto
  qed
qed

section \<open>The exchange of contexts\<close>

lemma vmm_free_page_cr3 [simp]: "cr3 (vmm_free_page a n s) = cr3 s"
proof -
  have "cr3 (for_loop 0 n (\<lambda>i s. let s1 = pmm_free_page (get_vmm_page (k + i) s) 1 s
      in globl_page_remove (get_globl_page_index (k + i) s1) s1) s) = cr3 s" for k
    by (rule for_loop_preserves) (simp add: Let_def globl_page_remove_def)
  then show ?thesis by (simp add: vmm_free_page_def Let_def)
qed

text \<open>What a step before the switch leaves alone.\<close>

lemma wake_reap_context [simp]:
  "ctx (procs (wake_lock n s) p) = ctx (procs s p)" "ctx (procs (wake_wait t n s) p) = ctx (procs s p)"
  "ctx (procs (reap l n s) p) = ctx (procs s p)"
  "pde (procs (wake_lock n s) p) = pde (procs s p)" "pde (procs (wake_wait t n s) p) = pde (procs s p)"
  "pde (procs (reap l n s) p) = pde (procs s p)"
  "stack_top (procs (wake_lock n s) p) = stack_top (procs s p)"
  "stack_top (procs (wake_wait t n s) p) = stack_top (procs s p)"
  "stack_top (procs (reap l n s) p) = stack_top (procs s p)"
  "cpu (wake_lock n s) = cpu s" "cpu (wake_wait t n s) = cpu s" "cpu (reap l n s) = cpu s"
  "esp0 (wake_lock n s) = esp0 s" "esp0 (wake_wait t n s) = esp0 s" "esp0 (reap l n s) = esp0 s"
  "cr3 (wake_lock n s) = cr3 s" "cr3 (wake_wait t n s) = cr3 s" "cr3 (reap l n s) = cr3 s"
  by (auto simp: wake_lock_def wake_wait_def reap_def Let_def upd_proc_def upd_lock_def)

lemma switch_loop_context:
  assumes "switch_loop prev lst t s = Some u" and "current_process s = prev"
    and "cr3 s = pde (procs s prev)" and "esp0 s = stack_top (procs s prev)"
  shows "cr3 u = pde (procs s (current_process u)) \<and> esp0 u = stack_top (procs s (current_process u)) \<and>
    (if current_process u = prev then cpu u = cpu s
     else cpu u = ctx (procs s (current_process u)) \<and> ctx (procs u prev) = cpu s)"
  using assms
proof (induction rule: switch_loop_induct)
  case (run lst s)
  then show ?case
    by (auto simp: switch_to_def switch_context_def Let_def upd_proc_def)
qed simp_all

section \<open>A sample\<close>

text \<open>Three processes: the current one runs, the second waits for lock 8, the third runs.\<close>

definition sample_proc :: "pstate \<Rightarrow> u32 \<Rightarrow> u32 \<Rightarrow> process" where
  "sample_proc x p n = \<lparr>state = x, pid = p, stack_top = p, pde = 0x3000, ctx = \<lparr>esp = p, ebp = 0, eflags = 0x200\<rparr>,
     lock = 8, tick = 50, next_proc = n\<rparr>"

definition sched_sample :: "pstate \<Rightarrow> pstate \<Rightarrow> pstate \<Rightarrow> u8 \<Rightarrow> sched_state" where
  "sched_sample a b c l = mm_state.extend (mm_sample\<lparr>cr3 := 0x3000\<rparr>) (sched_state.fields 1 4
     ((\<lambda>_. sample_proc RUN 0 0)(1 := sample_proc a 1 2, 2 := sample_proc b 2 3, 3 := sample_proc c 3 1))
     (\<lambda>_. 0) (\<lambda>_. l) 1 \<lparr>esp = 0, ebp = 0, eflags = 0\<rparr> 10)"

lemma sched_sample_simps [simp]:
  "current_process (sched_sample a b c l) = 1" "lock_mem (sched_sample a b c l) m = l"
  "cr3 (sched_sample a b c l) = 0x3000" "esp0 (sched_sample a b c l) = 1"
  "timer_ticks (sched_sample a b c l) = 10"
  "procs (sched_sample a b c l) 1 = sample_proc a 1 2"
  "procs (sched_sample a b c l) 2 = sample_proc b 2 3"
  "procs (sched_sample a b c l) 3 = sample_proc c 3 1"
  by (simp_all add: sched_sample_def mm_state.defs sched_state.defs)

lemma sample_proc_simps [simp]:
  "state (sample_proc x p n) = x" "next_proc (sample_proc x p n) = n" "lock (sample_proc x p n) = 8"
  "tick (sample_proc x p n) = 50" "pde (sample_proc x p n) = 0x3000" "stack_top (sample_proc x p n) = p"
  "ctx (sample_proc x p n) = \<lparr>esp = p, ebp = 0, eflags = 0x200\<rparr>"
  by (simp_all add: sample_proc_def)

lemma sched_sample_ring: "ring (sched_sample a b c l) [1, 2, 3]"
  by (simp add: ring_def)

section \<open>Properties\<close>

text \<open>C7. \<open>process_switch\<close> is round robin: it gives the processor to the first running process
  after the current one, past any number of exited and waiting ones, which it removes or wakes.
  The ring stays a ring and is turned so that the chosen process is in front and those it
  passed are at the end; the registers of the two processes, the page directory and the kernel
  stack of the TSS are exchanged.\<close>

theorem process_switch_round_robin:
  assumes "ring s (current_process s # ys @ r # zs)" and "\<And>y. y \<in> set ys \<Longrightarrow> state (procs s y) \<noteq> RUN"
    and "state (procs s r) = RUN"
    and "cr3 s = pde (procs s (current_process s))" and "esp0 s = stack_top (procs s (current_process s))"
  shows "\<exists>u seen. process_switch t s = Some u \<and> current_process u = r \<and>
    ring u (r # zs @ seen) \<and> set seen \<subseteq> set (current_process s # ys) \<and>
    cpu u = ctx (procs s r) \<and> ctx (procs u (current_process s)) = cpu s \<and>
    cr3 u = pde (procs s r) \<and> esp0 u = stack_top (procs s r)"
proof -
  have "r \<noteq> current_process s" using assms(1) by (auto simp: ring_def)
  obtain u seen where u: "process_switch t s = Some u" "current_process u = r"
    "ring u (r # zs @ seen)" "set seen \<subseteq> set (current_process s # ys)"
    using switch_loop_first [OF assms(1-3) refl, of t] by (auto simp: process_switch_def)
  from switch_loop_context [OF u(1) [unfolded process_switch_def] refl assms(4,5)] u \<open>r \<noteq> current_process s\<close>
  show ?thesis by auto
qed

theorem process_switch_round_robin_witness:
  "\<exists>u. process_switch 10 (sched_sample RUN LOCK RUN 0) = Some u \<and> current_process u = 3 \<and> esp (cpu u) = 3"
proof -
  have "ring (sched_sample RUN LOCK RUN 0) (current_process (sched_sample RUN LOCK RUN 0) # [2] @ 3 # [])"
    using sched_sample_ring by simp
  from process_switch_round_robin [OF this, of 10] show ?thesis by auto
qed

text \<open>C25. \<open>process_switch\<close> returns exactly when some process of the ring can be made to run: it
  is \<open>RUN\<close>, or waits for an open lock, or for a tick that has come.  Otherwise the loop goes
  round the ring for ever, with interrupts off, so that no lock can be opened and no tick can
  pass: one process that calls \<open>process_wait\<close> while no other can run stops the kernel.\<close>

theorem process_switch_returns_iff:
  assumes "ring s (current_process s # ps)"
  shows "(\<exists>u. process_switch t s = Some u) \<longleftrightarrow>
    (\<exists>p\<in>set (current_process s # ps). case state (procs s p) of RUN \<Rightarrow> True | EXIT \<Rightarrow> False
       | LOCK \<Rightarrow> lock_mem s (lock (procs s p)) = 0 | WAIT \<Rightarrow> tick (procs s p) \<le> t)"
proof -
  let ?R = "set (current_process s # ps)"
  have closed: "next_proc (procs s p) \<in> ?R" if "p \<in> ?R" for p
  proof -
    have w: "walk f a (xs @ [z]) \<Longrightarrow> q \<in> set (a # xs) \<Longrightarrow> f q \<in> set (xs @ [z])" for f a xs z q
      by (induction xs arbitrary: a) auto
    show ?thesis using w [of "nx s" "current_process s" ps "current_process s" p] assms that
      by (auto simp: ring_def)
  qed
  have "\<not> (\<exists>u. process_switch t s = Some u)" if "\<forall>p\<in>?R. \<not> ready t s p"
  proof
    assume "\<exists>u. process_switch t s = Some u"
    then obtain u where u: "switch_loop (current_process s) (current_process s) t s = Some u"
      by (auto simp: process_switch_def)
    show False using switch_loop_stuck [OF u, of ?R] closed that by auto
  qed
  moreover have "\<exists>u. process_switch t s = Some u" if "p \<in> ?R" "ready t s p" for p
    using switch_loop_returns [OF assms that] by (simp add: process_switch_def)
  ultimately have "(\<exists>u. process_switch t s = Some u) \<longleftrightarrow> (\<exists>p\<in>?R. ready t s p)" by blast
  then show ?thesis by (simp only: ready_def)
qed

theorem process_switch_returns_iff_witness:
  "process_switch 10 (sched_sample WAIT LOCK EXIT 1) = None \<and>
   (\<exists>u. process_switch 10 (sched_sample WAIT LOCK EXIT 0) = Some u)"
proof -
  have r: "ring (sched_sample WAIT LOCK EXIT l) (current_process (sched_sample WAIT LOCK EXIT l) # [2, 3])" for l
    using sched_sample_ring by simp
  show ?thesis
    using process_switch_returns_iff [OF r, of 10 1] process_switch_returns_iff [OF r, of 10 0] by auto
qed

text \<open>C26. No starvation: with timer interrupts alone, a running process at distance \<open>n\<close> from the
  current one in the ring has the processor after at most \<open>n\<close> of them.\<close>

theorem timer_interrupts_no_starvation:
  assumes "ring s (current_process s # ys @ p # zs)" and "state (procs s p) = RUN"
  shows "\<exists>k\<le>Suc (length ys). \<exists>u. timer_interrupts k s = Some u \<and> current_process u = p"
  using assms by (rule timer_interrupts_reach)

theorem timer_interrupts_no_starvation_witness:
  "\<exists>k\<le>2. \<exists>u. timer_interrupts k (sched_sample RUN RUN RUN 0) = Some u \<and> current_process u = 3"
  using timer_interrupts_no_starvation [of "sched_sample RUN RUN RUN 0" "[2]" 3 "[]"]
    sched_sample_ring [of RUN RUN RUN 0] by (simp add: numeral_2_eq_2)

text \<open>C15. Mutual exclusion: a switch lets a process through a lock only if the lock was open, lets
  at most one through each lock, and then leaves the lock closed; every other lock keeps its
  value, and no process leaves the \<open>RUN\<close> state.\<close>

theorem process_switch_mutual_exclusion:
  assumes "process_switch t s = Some u"
  shows "(lock_mem u l = lock_mem s l \<and> granted s u l = {} \<or>
      lock_mem s l = 0 \<and> lock_mem u l = 1 \<and> (\<exists>p. granted s u l = {p})) \<and>
    (\<forall>p. state (procs s p) = RUN \<longrightarrow> state (procs u p) = RUN)"
  using assms unfolding process_switch_def by (rule switch_loop_locks)

theorem process_switch_mutual_exclusion_witness:
  "\<exists>u. process_switch 10 (sched_sample LOCK LOCK RUN 0) = Some u \<and>
     (lock_mem u 8 = 0 \<and> granted (sched_sample LOCK LOCK RUN 0) u 8 = {} \<or>
      lock_mem u 8 = 1 \<and> (\<exists>p. granted (sched_sample LOCK LOCK RUN 0) u 8 = {p}))"
proof -
  have "\<exists>u. switch_loop 1 1 10 (sched_sample LOCK LOCK RUN 0) = Some u"
    using switch_loop_returns [OF sched_sample_ring, of 3] by (simp add: ready_def)
  then obtain u where u: "process_switch 10 (sched_sample LOCK LOCK RUN 0) = Some u"
    by (auto simp: process_switch_def)
  from process_switch_mutual_exclusion [OF u, of 8] u show ?thesis by auto
qed

end
