(* ===== verification/Keyboard.thy ===== *)
theory Keyboard
  imports Prelude
begin

text \<open>
  The keyboard: the scan code machine of \<open>src/kernel/dev/keyboard.c\<close> with the key codes of
  \<open>keyboard.h\<close>, and the controller of \<open>src/driver/atkbd.c\<close>.  What the handler does to the outside
  is a list of outputs: a character for the console, a call of the registered callback.
\<close>

section \<open>Key codes\<close>

abbreviation (input) KEY_FLAG_EXT :: "'a::len word" where "KEY_FLAG_EXT \<equiv> 0x80"
abbreviation (input) KEY_FLAG_BREAK :: "'a::len word" where "KEY_FLAG_BREAK \<equiv> 0x100"
abbreviation (input) KEY_TAB_INPUT :: "'a::len word" where "KEY_TAB_INPUT \<equiv> 9"
abbreviation (input) KEY_ENTER_INPUT :: "'a::len word" where "KEY_ENTER_INPUT \<equiv> 10"
abbreviation (input) KEY_BACKSPACE_INPUT :: "'a::len word" where "KEY_BACKSPACE_INPUT \<equiv> 8"

abbreviation (input) KEY_ESC :: "'a::len word" where "KEY_ESC \<equiv> 0x81"
abbreviation (input) KEY_TAB :: "'a::len word" where "KEY_TAB \<equiv> 0x82"
abbreviation (input) KEY_ENTER :: "'a::len word" where "KEY_ENTER \<equiv> 0x83"
abbreviation (input) KEY_BACKSPACE :: "'a::len word" where "KEY_BACKSPACE \<equiv> 0x84"
abbreviation (input) KEY_GUI_L :: "'a::len word" where "KEY_GUI_L \<equiv> 0x85"
abbreviation (input) KEY_GUI_R :: "'a::len word" where "KEY_GUI_R \<equiv> 0x86"
abbreviation (input) KEY_APPS :: "'a::len word" where "KEY_APPS \<equiv> 0x87"
abbreviation (input) KEY_SHIFT_L :: "'a::len word" where "KEY_SHIFT_L \<equiv> 0x88"
abbreviation (input) KEY_SHIFT_R :: "'a::len word" where "KEY_SHIFT_R \<equiv> 0x89"
abbreviation (input) KEY_CTRL_L :: "'a::len word" where "KEY_CTRL_L \<equiv> 0x8a"
abbreviation (input) KEY_CTRL_R :: "'a::len word" where "KEY_CTRL_R \<equiv> 0x8b"
abbreviation (input) KEY_ALT_L :: "'a::len word" where "KEY_ALT_L \<equiv> 0x8c"
abbreviation (input) KEY_ALT_R :: "'a::len word" where "KEY_ALT_R \<equiv> 0x8d"
abbreviation (input) KEY_CAPS_LOCK :: "'a::len word" where "KEY_CAPS_LOCK \<equiv> 0x8e"
abbreviation (input) KEY_NUM_LOCK :: "'a::len word" where "KEY_NUM_LOCK \<equiv> 0x8f"
abbreviation (input) KEY_SCROLL_LOCK :: "'a::len word" where "KEY_SCROLL_LOCK \<equiv> 0x90"
abbreviation (input) KEY_F1 :: "'a::len word" where "KEY_F1 \<equiv> 0x91"
abbreviation (input) KEY_F2 :: "'a::len word" where "KEY_F2 \<equiv> 0x92"
abbreviation (input) KEY_F3 :: "'a::len word" where "KEY_F3 \<equiv> 0x93"
abbreviation (input) KEY_F4 :: "'a::len word" where "KEY_F4 \<equiv> 0x94"
abbreviation (input) KEY_F5 :: "'a::len word" where "KEY_F5 \<equiv> 0x95"
abbreviation (input) KEY_F6 :: "'a::len word" where "KEY_F6 \<equiv> 0x96"
abbreviation (input) KEY_F7 :: "'a::len word" where "KEY_F7 \<equiv> 0x97"
abbreviation (input) KEY_F8 :: "'a::len word" where "KEY_F8 \<equiv> 0x98"
abbreviation (input) KEY_F9 :: "'a::len word" where "KEY_F9 \<equiv> 0x99"
abbreviation (input) KEY_F10 :: "'a::len word" where "KEY_F10 \<equiv> 0x9a"
abbreviation (input) KEY_F11 :: "'a::len word" where "KEY_F11 \<equiv> 0x9b"
abbreviation (input) KEY_F12 :: "'a::len word" where "KEY_F12 \<equiv> 0x9c"
abbreviation (input) KEY_INSERT :: "'a::len word" where "KEY_INSERT \<equiv> 0x9f"
abbreviation (input) KEY_DELETE :: "'a::len word" where "KEY_DELETE \<equiv> 0xa0"
abbreviation (input) KEY_HOME :: "'a::len word" where "KEY_HOME \<equiv> 0xa1"
abbreviation (input) KEY_END :: "'a::len word" where "KEY_END \<equiv> 0xa2"
abbreviation (input) KEY_PAGEUP :: "'a::len word" where "KEY_PAGEUP \<equiv> 0xa3"
abbreviation (input) KEY_PAGEDOWN :: "'a::len word" where "KEY_PAGEDOWN \<equiv> 0xa4"
abbreviation (input) KEY_UP :: "'a::len word" where "KEY_UP \<equiv> 0xa5"
abbreviation (input) KEY_DOWN :: "'a::len word" where "KEY_DOWN \<equiv> 0xa6"
abbreviation (input) KEY_LEFT :: "'a::len word" where "KEY_LEFT \<equiv> 0xa7"
abbreviation (input) KEY_RIGHT :: "'a::len word" where "KEY_RIGHT \<equiv> 0xa8"
abbreviation (input) KEY_PAD_SLASH :: "'a::len word" where "KEY_PAD_SLASH \<equiv> 0xac"
abbreviation (input) KEY_PAD_MINUS :: "'a::len word" where "KEY_PAD_MINUS \<equiv> 0xae"
abbreviation (input) KEY_PAD_PLUS :: "'a::len word" where "KEY_PAD_PLUS \<equiv> 0xaf"
abbreviation (input) KEY_PAD_ENTER :: "'a::len word" where "KEY_PAD_ENTER \<equiv> 0xb0"
abbreviation (input) KEY_PAD_DOT :: "'a::len word" where "KEY_PAD_DOT \<equiv> 0xb1"
abbreviation (input) KEY_PAD_0 :: "'a::len word" where "KEY_PAD_0 \<equiv> 0xb2"
abbreviation (input) KEY_PAD_1 :: "'a::len word" where "KEY_PAD_1 \<equiv> 0xb3"
abbreviation (input) KEY_PAD_2 :: "'a::len word" where "KEY_PAD_2 \<equiv> 0xb4"
abbreviation (input) KEY_PAD_3 :: "'a::len word" where "KEY_PAD_3 \<equiv> 0xb5"
abbreviation (input) KEY_PAD_4 :: "'a::len word" where "KEY_PAD_4 \<equiv> 0xb6"
abbreviation (input) KEY_PAD_5 :: "'a::len word" where "KEY_PAD_5 \<equiv> 0xb7"
abbreviation (input) KEY_PAD_6 :: "'a::len word" where "KEY_PAD_6 \<equiv> 0xb8"
abbreviation (input) KEY_PAD_7 :: "'a::len word" where "KEY_PAD_7 \<equiv> 0xb9"
abbreviation (input) KEY_PAD_8 :: "'a::len word" where "KEY_PAD_8 \<equiv> 0xba"
abbreviation (input) KEY_PAD_9 :: "'a::len word" where "KEY_PAD_9 \<equiv> 0xbb"
abbreviation (input) KEY_PAD_UP :: "'a::len word" where "KEY_PAD_UP \<equiv> KEY_PAD_8"
abbreviation (input) KEY_PAD_DOWN :: "'a::len word" where "KEY_PAD_DOWN \<equiv> KEY_PAD_2"
abbreviation (input) KEY_PAD_LEFT :: "'a::len word" where "KEY_PAD_LEFT \<equiv> KEY_PAD_4"
abbreviation (input) KEY_PAD_RIGHT :: "'a::len word" where "KEY_PAD_RIGHT \<equiv> KEY_PAD_6"
abbreviation (input) KEY_PAD_HOME :: "'a::len word" where "KEY_PAD_HOME \<equiv> KEY_PAD_7"
abbreviation (input) KEY_PAD_END :: "'a::len word" where "KEY_PAD_END \<equiv> KEY_PAD_1"
abbreviation (input) KEY_PAD_PAGEUP :: "'a::len word" where "KEY_PAD_PAGEUP \<equiv> KEY_PAD_9"
abbreviation (input) KEY_PAD_PAGEDOWN :: "'a::len word" where "KEY_PAD_PAGEDOWN \<equiv> KEY_PAD_3"
abbreviation (input) KEY_PAD_INS :: "'a::len word" where "KEY_PAD_INS \<equiv> KEY_PAD_0"
abbreviation (input) KEY_PAD_MID :: "'a::len word" where "KEY_PAD_MID \<equiv> KEY_PAD_5"

abbreviation (input) CODE_BREAK :: u8 where "CODE_BREAK \<equiv> 0x80"
abbreviation (input) CODE_EMUL0 :: u8 where "CODE_EMUL0 \<equiv> 0xe0"
abbreviation (input) CODE_EMUL1 :: u8 where "CODE_EMUL1 \<equiv> 0xe1"

abbreviation (input) FLAG_EMUL0 :: u16 where "FLAG_EMUL0 \<equiv> 0x01"
abbreviation (input) FLAG_EMUL1 :: u16 where "FLAG_EMUL1 \<equiv> 0x02"
abbreviation (input) FLAG_SHIFT_L :: u16 where "FLAG_SHIFT_L \<equiv> 0x04"
abbreviation (input) FLAG_SHIFT_R :: u16 where "FLAG_SHIFT_R \<equiv> 0x08"
abbreviation (input) FLAG_CTRL_L :: u16 where "FLAG_CTRL_L \<equiv> 0x10"
abbreviation (input) FLAG_CTRL_R :: u16 where "FLAG_CTRL_R \<equiv> 0x20"
abbreviation (input) FLAG_ALT_L :: u16 where "FLAG_ALT_L \<equiv> 0x40"
abbreviation (input) FLAG_ALT_R :: u16 where "FLAG_ALT_R \<equiv> 0x80"

text \<open>The table \<open>keyboard_map[0x80][3]\<close>: the key alone, with shift, after the prefix \<open>0xe0\<close>;
  characters by their codes.\<close>

definition keyboard_map :: "(u8 \<times> u8 \<times> u8) list" where
  "keyboard_map =
    [(0, 0, 0),
     (KEY_ESC, KEY_ESC, 0),
     (0x31, 0x21, 0),
     (0x32, 0x40, 0),
     (0x33, 0x23, 0),
     (0x34, 0x24, 0),
     (0x35, 0x25, 0),
     (0x36, 0x5e, 0),
     (0x37, 0x26, 0),
     (0x38, 0x2a, 0),
     (0x39, 0x28, 0),
     (0x30, 0x29, 0),
     (0x2d, 0x5f, 0),
     (0x3d, 0x2b, 0),
     (KEY_BACKSPACE, KEY_BACKSPACE, 0),
     (KEY_TAB, KEY_TAB, 0),
     (0x71, 0x51, 0),
     (0x77, 0x57, 0),
     (0x65, 0x45, 0),
     (0x72, 0x52, 0),
     (0x74, 0x54, 0),
     (0x79, 0x59, 0),
     (0x75, 0x55, 0),
     (0x69, 0x49, 0),
     (0x6f, 0x4f, 0),
     (0x70, 0x50, 0),
     (0x5b, 0x7b, 0),
     (0x5d, 0x7d, 0),
     (KEY_ENTER, KEY_ENTER, KEY_PAD_ENTER),
     (KEY_CTRL_L, KEY_CTRL_L, KEY_CTRL_R),
     (0x61, 0x41, 0),
     (0x73, 0x53, 0),
     (0x64, 0x44, 0),
     (0x66, 0x46, 0),
     (0x67, 0x47, 0),
     (0x68, 0x48, 0),
     (0x6a, 0x4a, 0),
     (0x6b, 0x4b, 0),
     (0x6c, 0x4c, 0),
     (0x3b, 0x3a, 0),
     (0x27, 0x22, 0),
     (0x60, 0x7e, 0),
     (KEY_SHIFT_L, KEY_SHIFT_L, 0),
     (0x5c, 0x7c, 0),
     (0x7a, 0x5a, 0),
     (0x78, 0x58, 0),
     (0x63, 0x43, 0),
     (0x76, 0x56, 0),
     (0x62, 0x42, 0),
     (0x6e, 0x4e, 0),
     (0x6d, 0x4d, 0),
     (0x2c, 0x3c, 0),
     (0x2e, 0x3e, 0),
     (0x2f, 0x3f, KEY_PAD_SLASH),
     (KEY_SHIFT_R, KEY_SHIFT_R, 0),
     (0x2a, 0x2a, 0),
     (KEY_ALT_L, KEY_ALT_L, KEY_ALT_R),
     (0x20, 0x20, 0),
     (KEY_CAPS_LOCK, KEY_CAPS_LOCK, 0),
     (KEY_F1, KEY_F1, 0),
     (KEY_F2, KEY_F2, 0),
     (KEY_F3, KEY_F3, 0),
     (KEY_F4, KEY_F4, 0),
     (KEY_F5, KEY_F5, 0),
     (KEY_F6, KEY_F6, 0),
     (KEY_F7, KEY_F7, 0),
     (KEY_F8, KEY_F8, 0),
     (KEY_F9, KEY_F9, 0),
     (KEY_F10, KEY_F10, 0),
     (KEY_NUM_LOCK, KEY_NUM_LOCK, 0),
     (KEY_SCROLL_LOCK, KEY_SCROLL_LOCK, 0),
     (KEY_PAD_HOME, 0x37, KEY_HOME),
     (KEY_PAD_UP, 0x38, KEY_UP),
     (KEY_PAD_PAGEUP, 0x39, KEY_PAGEUP),
     (KEY_PAD_MINUS, 0x2d, 0),
     (KEY_PAD_LEFT, 0x34, KEY_LEFT),
     (KEY_PAD_MID, 0x35, 0),
     (KEY_PAD_RIGHT, 0x36, KEY_RIGHT),
     (KEY_PAD_PLUS, 0x2b, 0),
     (KEY_PAD_END, 0x31, KEY_END),
     (KEY_PAD_DOWN, 0x32, KEY_DOWN),
     (KEY_PAD_PAGEDOWN, 0x33, KEY_PAGEDOWN),
     (KEY_PAD_INS, 0x30, KEY_INSERT),
     (KEY_PAD_DOT, 0x2e, KEY_DELETE),
     (0, 0, 0),
     (0, 0, 0),
     (0, 0, 0),
     (KEY_F11, KEY_F11, 0),
     (KEY_F12, KEY_F12, 0),
     (0, 0, 0),
     (0, 0, 0),
     (0, 0, KEY_GUI_L),
     (0, 0, KEY_GUI_R),
     (0, 0, KEY_APPS),
     (0, 0, 0),
     (0, 0, 0),
     (0, 0, 0),
     (0, 0, 0),
     (0, 0, 0),
     (0, 0, 0),
     (0, 0, 0),
     (0, 0, 0),
     (0, 0, 0),
     (0, 0, 0),
     (0, 0, 0),
     (0, 0, 0),
     (0, 0, 0),
     (0, 0, 0),
     (0, 0, 0),
     (0, 0, 0),
     (0, 0, 0),
     (0, 0, 0),
     (0, 0, 0),
     (0, 0, 0),
     (0, 0, 0),
     (0, 0, 0),
     (0, 0, 0),
     (0, 0, 0),
     (0, 0, 0),
     (0, 0, 0),
     (0, 0, 0),
     (0, 0, 0),
     (0, 0, 0),
     (0, 0, 0),
     (0, 0, 0),
     (0, 0, 0),
     (0, 0, 0),
     (0, 0, 0)]"

text \<open>\<open>keyboard_map[i][j]\<close>; \<open>after\<close> is the memory behind the array, which an index of \<open>0x80\<close>
  reads.\<close>

definition keyboard_map_at :: "(nat \<Rightarrow> u8) \<Rightarrow> nat \<Rightarrow> nat \<Rightarrow> u8" where
  "keyboard_map_at after i j =
     (if i < length keyboard_map then
        (case keyboard_map ! i of (a, b, c) \<Rightarrow> if j = 0 then a else if j = 1 then b else c)
      else after (i * 3 + j))"

section \<open>The handler\<close>

record kbd_state =
  key_callback :: u32
  key_flags :: u16
  key_led :: u8
  input_mode :: u8
  atkbd_handler :: u32
  ilock :: u8

datatype kbd_out = Console u8 | Callback u32 u16

definition release_flags :: "u16 \<Rightarrow> u16 \<Rightarrow> u16" where
  "release_flags key fl =
     (if key = KEY_SHIFT_L then fl AND NOT FLAG_SHIFT_L
      else if key = KEY_SHIFT_R then fl AND NOT FLAG_SHIFT_R
      else if key = KEY_CTRL_L then fl AND NOT FLAG_CTRL_L
      else if key = KEY_CTRL_R then fl AND NOT FLAG_CTRL_R
      else if key = KEY_ALT_L then fl AND NOT FLAG_ALT_L
      else if key = KEY_ALT_R then fl AND NOT FLAG_ALT_R
      else fl)"

definition press_flags :: "u16 \<Rightarrow> u16 \<Rightarrow> u16" where
  "press_flags key fl =
     (if key = KEY_SHIFT_L then fl OR FLAG_SHIFT_L
      else if key = KEY_SHIFT_R then fl OR FLAG_SHIFT_R
      else if key = KEY_CTRL_L then fl OR FLAG_CTRL_L
      else if key = KEY_CTRL_R then fl OR FLAG_CTRL_R
      else if key = KEY_ALT_L then fl OR FLAG_ALT_L
      else if key = KEY_ALT_R then fl OR FLAG_ALT_R
      else fl)"

text \<open>The character of a key press when \<open>input_mode\<close> is not 0.\<close>

definition input_key :: "(nat \<Rightarrow> u8) \<Rightarrow> u8 \<Rightarrow> u16 \<Rightarrow> u16 \<Rightarrow> u16" where
  "input_key after code fl key =
     (let key = (if fl AND FLAG_SHIFT_L = FLAG_SHIFT_L \<or> fl AND FLAG_SHIFT_R = FLAG_SHIFT_R
                 then ucast (keyboard_map_at after (unat code) 1) else key);
          key = (if fl AND FLAG_CTRL_L = FLAG_CTRL_L \<or> fl AND FLAG_CTRL_R = FLAG_CTRL_R \<or>
                    fl AND FLAG_ALT_L = FLAG_ALT_L \<or> fl AND FLAG_ALT_R = FLAG_ALT_R
                 then 0 else key);
          key = (if key = KEY_TAB then KEY_TAB_INPUT
                 else if key = KEY_ENTER then KEY_ENTER_INPUT
                 else if key = KEY_BACKSPACE then KEY_BACKSPACE_INPUT else key)
      in if key > KEY_FLAG_EXT then 0 else key)"

definition keyboard_handler :: "(nat \<Rightarrow> u8) \<Rightarrow> u8 \<Rightarrow> kbd_state \<Rightarrow> kbd_out list \<times> kbd_state" where
  "keyboard_handler after code s =
     (if code = CODE_EMUL0 then ([], s\<lparr>key_flags := key_flags s OR FLAG_EMUL0\<rparr>)
      else if code = CODE_EMUL1 then ([], s\<lparr>key_flags := key_flags s OR FLAG_EMUL1\<rparr>)
      else
        (let (flags, fl) = (if key_flags s AND FLAG_EMUL0 = FLAG_EMUL0
                            then (2, key_flags s AND NOT FLAG_EMUL0) else (0, key_flags s));
             (key, fl, put) =
               (if code > CODE_BREAK then
                  (let key = ucast (keyboard_map_at after (unat (code - CODE_BREAK)) flags);
                       fl = release_flags key fl
                   in (if input_mode s = 0 then key + KEY_FLAG_BREAK else 0, fl, []))
                else
                  (let key = ucast (keyboard_map_at after (unat code) flags);
                       fl = press_flags key fl
                   in if input_mode s \<noteq> 0 then
                        (let key = input_key after code fl key
                         in (key, fl, if key \<noteq> 0 \<and> input_mode s = 2 then [Console (ucast key)] else []))
                      else (key, fl, [])));
             call = (if key \<noteq> 0 \<and> key_callback s \<noteq> NULL then [Callback (key_callback s) key] else [])
         in (put @ call, s\<lparr>key_flags := fl\<rparr>)))"

definition reg_key_callback :: "u32 \<Rightarrow> kbd_state \<Rightarrow> kbd_state" where
  "reg_key_callback cb s = s\<lparr>key_callback := cb\<rparr>"

definition set_input_mode :: "u8 \<Rightarrow> kbd_state \<Rightarrow> kbd_state" where
  "set_input_mode m s = s\<lparr>input_mode := m\<rparr>"

section \<open>The controller\<close>

definition reg_atkbd_handler :: "u32 \<Rightarrow> kbd_state \<Rightarrow> kbd_state" where
  "reg_atkbd_handler h s = s\<lparr>atkbd_handler := h\<rparr>"

definition init_atkbd :: "kbd_state \<Rightarrow> kbd_state" where
  "init_atkbd s = s\<lparr>atkbd_handler := NULL\<rparr>"

text \<open>\<open>scan_code\<close> is the byte read from the data port.  The only handler that the kernel
  registers is \<open>keyboard_handler\<close>.\<close>

definition irq1_handler :: "(nat \<Rightarrow> u8) \<Rightarrow> u8 \<Rightarrow> kbd_state \<Rightarrow> kbd_out list \<times> kbd_state" where
  "irq1_handler after scan_code s =
     (let s1 = s\<lparr>ilock := 0\<rparr>
      in if atkbd_handler s1 \<noteq> NULL then keyboard_handler after scan_code s1 else ([], s1))"

text \<open>One byte for the keyboard, sent again while it answers \<open>0xfe\<close>.  Each answer raises the
  interrupt that ends \<open>intr_lock\<close>, so \<open>irq1_handler\<close> sees it as a scan code first.  The result
  is what the handler put out, the bytes written, the answers left and the state; \<open>None\<close> when
  the answers end.\<close>

fun send_kbd :: "(nat \<Rightarrow> u8) \<Rightarrow> u8 \<Rightarrow> u8 list \<Rightarrow> kbd_state \<Rightarrow>
    (kbd_out list \<times> u8 list \<times> u8 list \<times> kbd_state) option" where
  "send_kbd after c [] s = None"
| "send_kbd after c (r # rs) s =
     (case irq1_handler after r (s\<lparr>ilock := 1\<rparr>) of (out, s1) \<Rightarrow>
        if r = 0xfe then
          (case send_kbd after c rs s1 of None \<Rightarrow> None
           | Some (out', w, rs', s2) \<Rightarrow> Some (out @ out', c # w, rs', s2))
        else Some (out, [c], rs, s1))"

definition set_kbd_led :: "(nat \<Rightarrow> u8) \<Rightarrow> u8 \<Rightarrow> u8 list \<Rightarrow> u8 list \<Rightarrow> kbd_state \<Rightarrow>
    (kbd_out list \<times> u8 list \<times> kbd_state) option" where
  "set_kbd_led after c status answers s =
     (case dropWhile (\<lambda>x. x AND 2 \<noteq> 0) status of [] \<Rightarrow> None
      | _ # _ \<Rightarrow>
         (case send_kbd after 0xed answers s of None \<Rightarrow> None
          | Some (o1, w1, rs, s1) \<Rightarrow>
             (case send_kbd after c rs s1 of None \<Rightarrow> None
              | Some (o2, w2, _, s2) \<Rightarrow> Some (o1 @ o2, w1 @ w2, s2))))"

definition keyboard_init :: "(nat \<Rightarrow> u8) \<Rightarrow> u32 \<Rightarrow> u8 list \<Rightarrow> u8 list \<Rightarrow> kbd_state \<Rightarrow>
    (kbd_out list \<times> u8 list \<times> kbd_state) option" where
  "keyboard_init after handler status answers s =
     (let s1 = s\<lparr>key_callback := NULL, key_flags := 0, key_led := 0, input_mode := 0\<rparr>
      in set_kbd_led after 0 status answers (reg_atkbd_handler handler (init_atkbd s1)))"

section \<open>The characters of the input modes\<close>

text \<open>With shift or without, a character of the table that is not a key code is an ASCII
  character; no entry is \<open>0x80\<close>.\<close>

lemma keyboard_map_entries:
  "\<forall>(a, b, c)\<in>set keyboard_map. a \<noteq> 0x80 \<and> b \<noteq> 0x80 \<and> c \<noteq> 0x80"
  by code_simp

lemma keyboard_map_length: "length keyboard_map = 128"
  by code_simp

lemma keyboard_map_at_ne:
  assumes "i < 128"
  shows "keyboard_map_at after i j \<noteq> 0x80"
proof -
  obtain a b c where r: "keyboard_map ! i = (a, b, c)" by (cases "keyboard_map ! i")
  then have "(a, b, c) \<in> set keyboard_map"
    using assms keyboard_map_length by (metis nth_mem)
  with keyboard_map_entries r show ?thesis
    using assms by (auto simp: keyboard_map_at_def keyboard_map_length)
qed

lemma ucast_ne_80:
  assumes "x \<noteq> (0x80 :: u8)"
  shows "(ucast x :: u16) \<noteq> 0x80"
proof
  assume "(ucast x :: u16) = 0x80"
  then have "unat (ucast x :: u16) = unat (0x80 :: u16)" by (rule arg_cong)
  then have "unat x = unat (0x80 :: u8)" by (simp add: unat_ucast_up)
  with assms show False by (simp only: word_unat_eq_iff)
qed

lemma input_key_ascii:
  assumes "unat code < 128" and "key \<noteq> 0x80"
  shows "input_key after code fl key < 0x80"
proof -
  have le: "k < 0x80" if "k \<noteq> 0x80" "\<not> 0x80 < k" for k :: u16
    using that by (simp add: order_less_le not_less)
  show ?thesis
    using ucast_ne_80 [OF keyboard_map_at_ne [OF assms(1), of after 1]] assms(2)
    unfolding input_key_def Let_def by (intro le) (auto split: if_splits)
qed

text \<open>A break code, and every code in an input mode, in one line.\<close>

lemma keyboard_handler_input:
  assumes "input_mode s \<noteq> 0" and "code \<noteq> CODE_BREAK"
    and "keyboard_handler after code s = (outs, t)" and "out \<in> set outs"
  shows "code < CODE_BREAK \<and> (\<exists>k :: u16. 0 < k \<and> k < 0x80 \<and>
    (out = Console (ucast k) \<and> input_mode s = 2 \<or> out = Callback (key_callback s) k \<and> key_callback s \<noteq> NULL))"
proof -
  define flags :: nat where "flags = (if key_flags s AND FLAG_EMUL0 = FLAG_EMUL0 then 2 else 0)"
  define fl where "fl = (if key_flags s AND FLAG_EMUL0 = FLAG_EMUL0 then key_flags s AND NOT FLAG_EMUL0 else key_flags s)"
  have pr: "(if key_flags s AND FLAG_EMUL0 = FLAG_EMUL0 then (2, key_flags s AND NOT FLAG_EMUL0)
      else (0, key_flags s)) = (flags, fl)" by (simp add: flags_def fl_def)
  have ne: "code \<noteq> CODE_EMUL0" "code \<noteq> CODE_EMUL1"
    using assms(3,4) by (auto simp: keyboard_handler_def)
  have le: "\<not> code > CODE_BREAK"
    using assms(1,3,4) ne unfolding keyboard_handler_def Let_def pr by auto
  with assms(2) have lt: "code < CODE_BREAK" by (simp add: order_less_le)
  then have u: "unat code < 128" by (simp add: word_less_nat_alt)
  define key :: u16 where "key = ucast (keyboard_map_at after (unat code) flags)"
  define k where "k = input_key after code (press_flags key fl) key"
  have "key \<noteq> 0x80"
    using ucast_ne_80 [OF keyboard_map_at_ne [OF u]] by (simp add: key_def)
  then have k: "k < 0x80" unfolding k_def by (rule input_key_ascii [OF u])
  have "outs = (if k \<noteq> 0 \<and> input_mode s = 2 then [Console (ucast k)] else []) @
      (if k \<noteq> 0 \<and> key_callback s \<noteq> NULL then [Callback (key_callback s) k] else [])"
    using assms(1,3) ne le unfolding keyboard_handler_def Let_def pr key_def k_def by simp
  with assms(4) k lt show ?thesis
    by (auto split: if_splits simp: word_neq_0_conv)
qed

section \<open>The modifiers\<close>

datatype modifier = Shift_L | Shift_R | Ctrl_L | Ctrl_R | Alt_L | Alt_R

fun modifier_key :: "modifier \<Rightarrow> u8" where
  "modifier_key Shift_L = KEY_SHIFT_L"
| "modifier_key Shift_R = KEY_SHIFT_R"
| "modifier_key Ctrl_L = KEY_CTRL_L"
| "modifier_key Ctrl_R = KEY_CTRL_R"
| "modifier_key Alt_L = KEY_ALT_L"
| "modifier_key Alt_R = KEY_ALT_R"

fun modifier_bit :: "modifier \<Rightarrow> nat" where
  "modifier_bit Shift_L = 2"
| "modifier_bit Shift_R = 3"
| "modifier_bit Ctrl_L = 4"
| "modifier_bit Ctrl_R = 5"
| "modifier_bit Alt_L = 6"
| "modifier_bit Alt_R = 7"

text \<open>The abstract keyboard: scan codes are presses and releases of keys, and a modifier is held
  when the last event of its key was a press.\<close>

fun key_events :: "(nat \<Rightarrow> u8) \<Rightarrow> bool \<Rightarrow> u8 list \<Rightarrow> (bool \<times> u8) list" where
  "key_events after ext [] = []"
| "key_events after ext (c # cs) =
     (if c = CODE_EMUL0 then key_events after True cs
      else if c = CODE_EMUL1 then key_events after ext cs
      else (c \<le> CODE_BREAK, keyboard_map_at after (unat (if c > CODE_BREAK then c - CODE_BREAK else c))
              (if ext then 2 else 0)) # key_events after False cs)"

definition held :: "modifier \<Rightarrow> bool \<Rightarrow> (bool \<times> u8) list \<Rightarrow> bool" where
  "held m h es =
     (case filter (\<lambda>(p, k). k = modifier_key m) (rev es) of [] \<Rightarrow> h | (p, k) # _ \<Rightarrow> p)"

definition keyboard_run :: "(nat \<Rightarrow> u8) \<Rightarrow> u8 list \<Rightarrow> kbd_state \<Rightarrow> kbd_state" where
  "keyboard_run after codes s = fold (\<lambda>c s. snd (keyboard_handler after c s)) codes s"

lemma held_Cons:
  "held m h ((p, k) # es) = held m (if k = modifier_key m then p else h) es"
  by (auto simp: held_def split: list.splits)

lemma set_flag_bit:
  fixes x :: u16
  assumes "m < 16"
  shows "bit (x OR FLAG_SHIFT_L) m \<longleftrightarrow> bit x m \<or> m = 2" "bit (x OR FLAG_SHIFT_R) m \<longleftrightarrow> bit x m \<or> m = 3"
    "bit (x OR FLAG_CTRL_L) m \<longleftrightarrow> bit x m \<or> m = 4" "bit (x OR FLAG_CTRL_R) m \<longleftrightarrow> bit x m \<or> m = 5"
    "bit (x OR FLAG_ALT_L) m \<longleftrightarrow> bit x m \<or> m = 6" "bit (x OR FLAG_ALT_R) m \<longleftrightarrow> bit x m \<or> m = 7"
    "bit (x OR FLAG_EMUL0) m \<longleftrightarrow> bit x m \<or> m = 0" "bit (x OR FLAG_EMUL1) m \<longleftrightarrow> bit x m \<or> m = 1"
  using bit_set_push [of m x 2] bit_set_push [of m x 3] bit_set_push [of m x 4] bit_set_push [of m x 5]
    bit_set_push [of m x 6] bit_set_push [of m x 7] bit_set_push [of m x 0] bit_set_push [of m x 1] assms
  by simp_all

lemma clear_flag_bit:
  fixes x :: u16
  assumes "m < 16"
  shows "bit (x AND NOT FLAG_SHIFT_L) m \<longleftrightarrow> bit x m \<and> m \<noteq> 2" "bit (x AND NOT FLAG_SHIFT_R) m \<longleftrightarrow> bit x m \<and> m \<noteq> 3"
    "bit (x AND NOT FLAG_CTRL_L) m \<longleftrightarrow> bit x m \<and> m \<noteq> 4" "bit (x AND NOT FLAG_CTRL_R) m \<longleftrightarrow> bit x m \<and> m \<noteq> 5"
    "bit (x AND NOT FLAG_ALT_L) m \<longleftrightarrow> bit x m \<and> m \<noteq> 6" "bit (x AND NOT FLAG_ALT_R) m \<longleftrightarrow> bit x m \<and> m \<noteq> 7"
    "bit (x AND NOT FLAG_EMUL0) m \<longleftrightarrow> bit x m \<and> m \<noteq> 0"
  using bit_clear_push [of m x 2] bit_clear_push [of m x 3] bit_clear_push [of m x 4] bit_clear_push [of m x 5]
    bit_clear_push [of m x 6] bit_clear_push [of m x 7] bit_clear_push [of m x 0] assms
  by simp_all

declare bit_0 [simp del]

text \<open>The same with the masks as the simplifier writes them.\<close>

lemmas clear_mask_bit = clear_flag_bit [simplified]

lemma emul0_bit: "x AND FLAG_EMUL0 = FLAG_EMUL0 \<longleftrightarrow> bit x 0"
  by (simp add: and_one_eq bit_0 odd_iff_mod_2_eq_one)

lemma modifier_key_u16: "(ucast k :: u16) = ucast (modifier_key m) \<longleftrightarrow> k = modifier_key m"
proof
  assume "(ucast k :: u16) = ucast (modifier_key m)"
  then have "unat (ucast k :: u16) = unat (ucast (modifier_key m) :: u16)" by (rule arg_cong)
  then have "unat k = unat (modifier_key m)" by (simp add: unat_ucast_up)
  then show "k = modifier_key m" by (simp only: word_unat_eq_iff)
qed simp

lemma press_flags_bit:
  "bit (press_flags key fl) (modifier_bit m) \<longleftrightarrow> bit fl (modifier_bit m) \<or> key = ucast (modifier_key m)"
  "bit (press_flags key fl) 0 \<longleftrightarrow> bit fl 0"
  by (cases m; simp add: press_flags_def set_flag_bit)+

lemma release_flags_bit:
  "bit (release_flags key fl) (modifier_bit m) \<longleftrightarrow> bit fl (modifier_bit m) \<and> key \<noteq> ucast (modifier_key m)"
  "bit (release_flags key fl) 0 \<longleftrightarrow> bit fl 0"
  by (cases m; simp add: release_flags_def clear_mask_bit)+

lemma modifier_bit_range: "modifier_bit m < 16" "modifier_bit m \<noteq> 0" "modifier_bit m \<noteq> 1"
  by (cases m; simp)+

text \<open>One code: the flags afterwards.\<close>

lemma keyboard_handler_flags:
  fixes s :: kbd_state and c :: u8 and after :: "nat \<Rightarrow> u8"
  defines "ext \<equiv> bit (key_flags s) 0"
  defines "t \<equiv> snd (keyboard_handler after c s)"
  shows "c = CODE_EMUL0 \<Longrightarrow> bit (key_flags t) 0 \<and> bit (key_flags t) (modifier_bit m) = bit (key_flags s) (modifier_bit m)"
    and "c = CODE_EMUL1 \<Longrightarrow> bit (key_flags t) 0 = ext \<and> bit (key_flags t) (modifier_bit m) = bit (key_flags s) (modifier_bit m)"
    and "c \<noteq> CODE_EMUL0 \<Longrightarrow> c \<noteq> CODE_EMUL1 \<Longrightarrow> \<not> bit (key_flags t) 0 \<and>
      bit (key_flags t) (modifier_bit m) =
        (if keyboard_map_at after (unat (if c > CODE_BREAK then c - CODE_BREAK else c)) (if ext then 2 else 0) =
            modifier_key m then c \<le> CODE_BREAK else bit (key_flags s) (modifier_bit m))"
proof -
  note mb = modifier_bit_range [of m]
  show "bit (key_flags t) 0 \<and> bit (key_flags t) (modifier_bit m) = bit (key_flags s) (modifier_bit m)"
    if "c = CODE_EMUL0"
    using that mb by (simp add: t_def keyboard_handler_def set_flag_bit)
  show "bit (key_flags t) 0 = ext \<and> bit (key_flags t) (modifier_bit m) = bit (key_flags s) (modifier_bit m)"
    if "c = CODE_EMUL1"
    using that mb by (simp add: t_def ext_def keyboard_handler_def set_flag_bit)
  assume ne: "c \<noteq> CODE_EMUL0" "c \<noteq> CODE_EMUL1"
  define fl where "fl = (if ext then key_flags s AND NOT FLAG_EMUL0 else key_flags s)"
  define flags :: nat where "flags = (if ext then 2 else 0)"
  have fl: "\<not> bit fl 0" "bit fl (modifier_bit m) = bit (key_flags s) (modifier_bit m)"
    using mb by (simp_all add: fl_def ext_def clear_mask_bit)
  have pr: "(if key_flags s AND FLAG_EMUL0 = FLAG_EMUL0 then (2, key_flags s AND NOT FLAG_EMUL0)
      else (0, key_flags s)) = (flags, fl)"
    by (simp only: emul0_bit fl_def flags_def ext_def if_distrib [of Pair]) simp
  show "\<not> bit (key_flags t) 0 \<and> bit (key_flags t) (modifier_bit m) =
      (if keyboard_map_at after (unat (if c > CODE_BREAK then c - CODE_BREAK else c)) (if ext then 2 else 0) =
            modifier_key m then c \<le> CODE_BREAK else bit (key_flags s) (modifier_bit m))"
  proof (cases "c > CODE_BREAK")
    case True
    then have "key_flags t = release_flags (ucast (keyboard_map_at after (unat (c - CODE_BREAK)) flags)) fl"
      unfolding t_def keyboard_handler_def Let_def pr using ne by simp
    with True fl show ?thesis
      by (simp add: not_le release_flags_bit modifier_key_u16 flags_def [symmetric])
  next
    case False
    then have "key_flags t = press_flags (ucast (keyboard_map_at after (unat c) flags)) fl"
      unfolding t_def keyboard_handler_def Let_def pr using ne by simp
    with False fl show ?thesis
      by (auto simp: press_flags_bit modifier_key_u16 flags_def [symmetric] not_less)
  qed
qed

lemma keyboard_run_held:
  "bit (key_flags (keyboard_run after cs s)) (modifier_bit m) \<longleftrightarrow>
     held m (bit (key_flags s) (modifier_bit m)) (key_events after (bit (key_flags s) 0) cs)"
proof (induction cs arbitrary: s)
  case Nil
  then show ?case by (simp add: keyboard_run_def held_def)
next
  case (Cons c cs)
  let ?t = "snd (keyboard_handler after c s)"
  have run: "keyboard_run after (c # cs) s = keyboard_run after cs ?t"
    by (simp add: keyboard_run_def)
  note step = keyboard_handler_flags [where after = after and c = c and s = s and m = m]
  consider "c = CODE_EMUL0" | "c = CODE_EMUL1" | "c \<noteq> CODE_EMUL0" "c \<noteq> CODE_EMUL1" by blast
  then show ?case
  proof cases
    case 1
    with step(1) Cons.IH [of ?t] run show ?thesis by simp
  next
    case 2
    with step(2) Cons.IH [of ?t] run show ?thesis by simp
  next
    case 3
    with step(3) Cons.IH [of ?t] run show ?thesis by (simp add: held_Cons)
  qed
qed

section \<open>Properties\<close>

definition kbd_sample :: kbd_state where
  "kbd_sample = \<lparr>key_callback = 0x5000, key_flags = 0, key_led = 0, input_mode = 2, atkbd_handler = 0x4000, ilock = 0\<rparr>"

text \<open>C22. The keyboard implements the set of held modifiers: after any scan codes, with any state
  before, each modifier's flag is set exactly when the last event of that modifier's key was a
  press (or there was none and it was set before), where a code above \<open>0x80\<close> is a release, the
  others are presses, and \<open>0xe0\<close> selects the extended column for the one key after it.\<close>

theorem keyboard_modifiers_refine:
  "bit (key_flags (keyboard_run after codes s)) (modifier_bit m) \<longleftrightarrow>
     held m (bit (key_flags s) (modifier_bit m)) (key_events after (bit (key_flags s) 0) codes)"
  by (rule keyboard_run_held)

text \<open>C35. In an input mode the handler hands out only characters from 1 to 127, to the console in
  mode 2 and to the callback if there is one, and only for key presses; the scan code \<open>0x80\<close> is
  left out because it reads behind the table.\<close>

theorem keyboard_input_characters:
  assumes "input_mode s \<noteq> 0" and "code \<noteq> CODE_BREAK"
    and "keyboard_handler after code s = (outs, t)" and "out \<in> set outs"
  shows "code < CODE_BREAK \<and> (\<exists>k :: u16. 0 < k \<and> k < 0x80 \<and>
    (out = Console (ucast k) \<and> input_mode s = 2 \<or> out = Callback (key_callback s) k \<and> key_callback s \<noteq> NULL))"
  using assms by (rule keyboard_handler_input)

lemma kbd_sample_a:
  "keyboard_handler (\<lambda>_. 0) 0x1e kbd_sample = ([Console 0x61, Callback 0x5000 0x61], kbd_sample)"
  by code_simp

theorem keyboard_input_characters_witness:
  "keyboard_handler (\<lambda>_. 0) 0x1e kbd_sample = ([Console 0x61, Callback 0x5000 0x61], kbd_sample) \<and>
   (\<exists>k :: u16. 0 < k \<and> k < 0x80 \<and> Callback 0x5000 0x61 = Callback (key_callback kbd_sample) k \<and>
      key_callback kbd_sample \<noteq> NULL)"
  using keyboard_input_characters [OF _ _ kbd_sample_a, of "Callback 0x5000 0x61"] kbd_sample_a
  by (auto simp: kbd_sample_def)

text \<open>The scan code \<open>0x80\<close> is taken for a press and reads behind the table.\<close>

lemma keyboard_break_zero:
  "fst (keyboard_handler (\<lambda>_. x) 0x80 kbd_sample) =
     (let k = input_key (\<lambda>_. x) 0x80 (press_flags (ucast x) 0) (ucast x)
      in if k = 0 then [] else [Console (ucast k), Callback 0x5000 k])"
  by (simp add: keyboard_handler_def keyboard_map_at_def keyboard_map_length Let_def kbd_sample_def)

text \<open>In raw mode the release of a code without a key is reported as key 0, its press is not.\<close>

lemma keyboard_raw_unmapped:
  "fst (keyboard_handler after 0x54 (kbd_sample\<lparr>input_mode := 0\<rparr>)) = [] \<and>
   fst (keyboard_handler after 0xd4 (kbd_sample\<lparr>input_mode := 0\<rparr>)) = [Callback 0x5000 0x100]"
proof -
  have "keyboard_map_at after 84 0 = 0"
    by (simp add: keyboard_map_at_def keyboard_map_def)
  then show ?thesis
    by (simp add: keyboard_handler_def kbd_sample_def Let_def press_flags_def release_flags_def)
qed

end
