(* ===== verification/Console.thy ===== *)
theory Console
  imports Prelude
begin

text \<open>
  The text console: \<open>src/kernel/dev/console.c\<close> over the CGA driver \<open>src/driver/cga.c\<close>.  The video
  memory is a map from addresses to bytes; the two cursor registers of the CRT controller are
  fields of the state.
\<close>

section \<open>The driver\<close>

abbreviation CGA_COLUMNS :: u32 where "CGA_COLUMNS \<equiv> 80"
abbreviation CGA_LINES :: u32 where "CGA_LINES \<equiv> 25"
abbreviation CGA_ATTRIBUTE :: u8 where "CGA_ATTRIBUTE \<equiv> 7"
abbreviation CGA_MEM_ATTR :: u32 where "CGA_MEM_ATTR \<equiv> 0xb8000"

record console_state =
  attribute :: u8
  video :: "u32 \<Rightarrow> u8"
  cursor_h :: u8
  cursor_l :: u8
  columns :: u32
  lines :: u32
  xpos :: u32
  ypos :: u32

definition get_screen_columns :: u32 where "get_screen_columns = CGA_COLUMNS"

definition get_screen_lines :: u32 where "get_screen_lines = CGA_LINES"

definition screen_wirte :: "u8 \<Rightarrow> u32 \<Rightarrow> u32 \<Rightarrow> console_state \<Rightarrow> console_state" where
  "screen_wirte c x y s =
     s\<lparr>video := (video s)(CGA_MEM_ATTR + (x + y * CGA_COLUMNS) * 2 := c,
        CGA_MEM_ATTR + (x + y * CGA_COLUMNS) * 2 + 1 := attribute s)\<rparr>"

text \<open>\<open>*((_u16_t*) (CGA_MEM_ATTR) + i)\<close>, read and written.\<close>

definition read_cell :: "u32 \<Rightarrow> console_state \<Rightarrow> u16" where
  "read_cell i s = ucast (video s (CGA_MEM_ATTR + i * 2)) OR push_bit 8 (ucast (video s (CGA_MEM_ATTR + i * 2 + 1)))"

definition write_cell :: "u32 \<Rightarrow> u16 \<Rightarrow> console_state \<Rightarrow> console_state" where
  "write_cell i w s = s\<lparr>video := (video s)(CGA_MEM_ATTR + i * 2 := ucast w,
     CGA_MEM_ATTR + i * 2 + 1 := ucast (drop_bit 8 w))\<rparr>"

text \<open>\<open>attribute << 8 & 0xff00\<close>\<close>

definition blank_cell :: "console_state \<Rightarrow> u16" where
  "blank_cell s = push_bit 8 (ucast (attribute s)) AND 0xff00"

definition screen_scroll :: "u32 \<Rightarrow> console_state \<Rightarrow> console_state" where
  "screen_scroll line s =
     for_loop (CGA_COLUMNS * (CGA_LINES - line)) (CGA_COLUMNS * CGA_LINES) (\<lambda>i s. write_cell i (blank_cell s) s)
       (for_loop 0 (CGA_COLUMNS * (CGA_LINES - line)) (\<lambda>i s. write_cell i (read_cell (i + line * 80) s) s) s)"

definition screen_clear :: "console_state \<Rightarrow> console_state" where
  "screen_clear s = for_loop 0 (CGA_COLUMNS * CGA_LINES) (\<lambda>i s. write_cell i (blank_cell s) s) s"

definition set_video_color :: "u8 \<Rightarrow> console_state \<Rightarrow> console_state" where
  "set_video_color color s = s\<lparr>attribute := color\<rparr>"

definition set_cursor :: "u32 \<Rightarrow> u32 \<Rightarrow> console_state \<Rightarrow> console_state" where
  "set_cursor x y s =
     (let location = ucast (y * CGA_COLUMNS + x) :: u16
      in s\<lparr>cursor_h := ucast (drop_bit 8 location), cursor_l := ucast location\<rparr>)"

definition init_cga :: "console_state \<Rightarrow> console_state" where
  "init_cga s = set_cursor 0 0 (screen_clear (s\<lparr>attribute := CGA_ATTRIBUTE\<rparr>))"

section \<open>The console\<close>

abbreviation TAB_SIZE :: u32 where "TAB_SIZE \<equiv> 8"

text \<open>\<open>char\<close> is signed: a byte from \<open>0x80\<close> on is negative and not printed.\<close>

definition console_putchar :: "u8 \<Rightarrow> console_state \<Rightarrow> console_state" where
  "console_putchar c s =
     (let s1 =
        (if c = 8 then
           (let s = (if xpos s \<noteq> 0 then s\<lparr>xpos := xpos s - 1\<rparr> else s)
            in screen_wirte 0 (xpos s) (ypos s) s)
         else if c = 9 then
           (let s = s\<lparr>xpos := (xpos s + TAB_SIZE) AND NOT (TAB_SIZE - 1)\<rparr>
            in if xpos s \<ge> columns s then s\<lparr>xpos := columns s - 1\<rparr> else s)
         else if c = 13 then s\<lparr>xpos := 0\<rparr>
         else if c = 10 then s\<lparr>xpos := 0, ypos := ypos s + 1\<rparr>
         else if sint c \<ge> 0x20 then
           (let s = screen_wirte c (xpos s) (ypos s) s in s\<lparr>xpos := xpos s + 1\<rparr>)
         else s);
          s2 = (if xpos s1 \<ge> columns s1 then s1\<lparr>xpos := 0, ypos := ypos s1 + 1\<rparr> else s1);
          s3 = (if ypos s2 \<ge> lines s2 then (screen_scroll 1 s2)\<lparr>ypos := lines s2 - 1\<rparr> else s2)
      in set_cursor (xpos s3) (ypos s3) s3)"

text \<open>\<open>console_write\<close> of a string, its characters before the NUL.\<close>

definition console_write :: "u8 list \<Rightarrow> console_state \<Rightarrow> console_state" where
  "console_write cs s = fold console_putchar (takeWhile (\<lambda>c. c \<noteq> 0) cs) s"

definition console_puts :: "u8 list \<Rightarrow> console_state \<Rightarrow> console_state" where
  "console_puts cs s = console_putchar 10 (console_write cs s)"

definition console_clear :: "console_state \<Rightarrow> console_state" where
  "console_clear s =
     (let s1 = (screen_clear s)\<lparr>xpos := 0, ypos := 0\<rparr>
      in screen_wirte 0 (xpos s1) (ypos s1) (set_cursor (xpos s1) (ypos s1) s1))"

definition console_init :: "console_state \<Rightarrow> console_state" where
  "console_init s =
     (init_cga s)\<lparr>columns := get_screen_columns, lines := get_screen_lines, xpos := 0, ypos := 0\<rparr>"

section \<open>Cells\<close>

text \<open>The screen as the reader sees it: character and attribute of the cell \<open>k\<close>.\<close>

definition cell :: "console_state \<Rightarrow> nat \<Rightarrow> u8 \<times> u8" where
  "cell s k = (video s (CGA_MEM_ATTR + of_nat k * 2), video s (CGA_MEM_ATTR + of_nat k * 2 + 1))"

text \<open>No byte outside the screen changes.\<close>

definition video_same :: "console_state \<Rightarrow> console_state \<Rightarrow> bool" where
  "video_same s t \<longleftrightarrow> (\<forall>a. \<not> (0xb8000 \<le> unat a \<and> unat a < 0xb8000 + 4000) \<longrightarrow> video t a = video s a)"

lemma screen_cell_address:
  assumes "k < 2000"
  shows "unat (CGA_MEM_ATTR + of_nat k * 2) = 753664 + 2 * k" "unat (CGA_MEM_ATTR + of_nat k * 2 + 1) = 753665 + 2 * k"
proof -
  have u: "unat (of_nat k :: u32) = k" using assms by (simp add: unat_of_nat_u32)
  have "unat (of_nat k * 2 :: u32) = k * 2" using assms u by (simp add: unat_mult32)
  then show 1: "unat (CGA_MEM_ATTR + of_nat k * 2) = 753664 + 2 * k" using assms by (simp add: unat_add32)
  show "unat (CGA_MEM_ATTR + of_nat k * 2 + 1) = 753665 + 2 * k"
    using unat_add32 [of "CGA_MEM_ATTR + of_nat k * 2" 1] 1 assms by simp
qed

lemma cell_upd:
  assumes "i < 2000" and "k < 2000"
  shows "cell (s\<lparr>video := (video s)(CGA_MEM_ATTR + of_nat i * 2 := a, CGA_MEM_ATTR + of_nat i * 2 + 1 := b)\<rparr>) k =
    (if k = i then (a, b) else cell s k)"
  using screen_cell_address [OF assms(1)] screen_cell_address [OF assms(2)]
  by (auto simp: cell_def word_unat_eq_iff)

lemma video_same_upd:
  assumes "i < 2000"
  shows "video_same s (s\<lparr>video := (video s)(CGA_MEM_ATTR + of_nat i * 2 := a, CGA_MEM_ATTR + of_nat i * 2 + 1 := b)\<rparr>)"
  using screen_cell_address [OF assms] assms by (auto simp: video_same_def)

lemma video_same_refl [simp]: "video_same s s"
  by (simp add: video_same_def)

lemma video_same_trans: "video_same s t \<Longrightarrow> video_same t u \<Longrightarrow> video_same s u"
  by (simp add: video_same_def)

lemma split_u16:
  fixes a b :: u8
  shows "ucast (ucast a OR push_bit 8 (ucast b) :: u16) = a"
    "ucast (drop_bit 8 (ucast a OR push_bit 8 (ucast b) :: u16)) = b"
  by (rule bit_word_eqI, auto simp: bit_simps dest: bit_imp_le_length)+

lemma write_cell_upd:
  assumes "i < 2000" and "k < 2000"
  shows "cell (write_cell (of_nat i) w s) k = (if k = i then (ucast w, ucast (drop_bit 8 w)) else cell s k)"
    "video_same s (write_cell (of_nat i) w s)"
  unfolding write_cell_def by (rule cell_upd [OF assms], rule video_same_upd [OF assms(1)])

lemma read_cell_parts:
  "(ucast (read_cell (of_nat i) s), ucast (drop_bit 8 (read_cell (of_nat i) s))) = cell s i"
  by (simp only: read_cell_def cell_def split_u16)

lemma blank_cell_shift: "blank_cell s = push_bit 8 (ucast (attribute s))"
proof -
  have e: "(0xff00 :: u16) = NOT (mask 8)" by (simp add: mask_eq_exp_minus_1)
  show ?thesis unfolding blank_cell_def e by (rule bit_word_eqI) (auto simp: bit_simps)
qed

lemma blank_cell_parts: "(ucast (blank_cell s) :: u8) = 0" "ucast (drop_bit 8 (blank_cell s)) = attribute s"
  unfolding blank_cell_shift by (rule bit_word_eqI, auto simp: bit_simps dest: bit_imp_le_length)+

section \<open>Scrolling and clearing\<close>

text \<open>An operation on the video memory alone.\<close>

definition video_only :: "console_state \<Rightarrow> console_state \<Rightarrow> bool" where
  "video_only s t \<longleftrightarrow> t = s\<lparr>video := video t\<rparr> \<and> video_same s t"

lemma video_only_refl: "video_only s s"
  by (simp add: video_only_def)

lemma video_only_fields:
  assumes "video_only s t"
  shows "attribute t = attribute s" "columns t = columns s" "lines t = lines s" "xpos t = xpos s"
    "ypos t = ypos s" "cursor_h t = cursor_h s" "cursor_l t = cursor_l s" "video_same s t"
  using assms unfolding video_only_def by (metis console_state.select_convs console_state.surjective
      console_state.update_convs)+

lemma video_only_write:
  assumes "video_only s t" and "i < 2000"
  shows "video_only s (write_cell (of_nat i) w t)"
proof -
  have "video_same s (write_cell (of_nat i) w t)"
    using video_same_trans [OF video_only_fields(8) [OF assms(1)] write_cell_upd(2) [OF assms(2) assms(2)]] .
  then show ?thesis using assms(1) unfolding video_only_def write_cell_def
    by (cases s, cases t) simp
qed

lemma blank_cell_attribute: "attribute t = attribute s \<Longrightarrow> blank_cell t = blank_cell s"
  by (simp add: blank_cell_def)

lemma blank_loop:
  fixes s s0 :: console_state and lo :: u32
  assumes "lo \<le> 2000" and "video_only s0 s"
  defines "t \<equiv> for_loop lo (CGA_COLUMNS * CGA_LINES) (\<lambda>i s. write_cell i (blank_cell s) s) s"
  shows "video_only s0 t \<and> (\<forall>k<2000. cell t k = (if unat lo \<le> k then (0, attribute s0) else cell s k))"
proof -
  let ?P = "\<lambda>n u. video_only s0 u \<and>
    (\<forall>k<2000. cell u k = (if unat lo \<le> k \<and> k < n then (0, attribute s0) else cell s k))"
  have "?P (unat (2000 :: u32)) (for_loop lo 2000 (\<lambda>i s. write_cell i (blank_cell s) s) s)"
  proof (rule for_loop_invariant [where P = ?P])
    show "?P (unat lo) s" using assms(2) by auto
  next
    fix i u
    assume i: "unat lo \<le> unat i" "i < (2000 :: u32)" and P: "?P (unat i) u"
    have i2: "unat i < 2000" using i(2) by (simp add: word_less_nat_alt)
    have w: "cell (write_cell i (blank_cell u) u) k = (if k = unat i then (0, attribute s0) else cell u k)"
      if "k < 2000" for k
      using write_cell_upd(1) [OF i2 that, of "blank_cell u" u] P blank_cell_parts [of u]
      by (simp add: video_only_fields(1))
    have "video_only s0 (write_cell i (blank_cell u) u)"
      using video_only_write [OF _ i2, of s0 u] P by simp
    with P i(1) w show "?P (Suc (unat i)) (write_cell i (blank_cell u) u)"
      by (auto simp: less_Suc_eq)
  next
    show "lo \<le> 2000" by (rule assms(1))
  qed
  then show ?thesis by (simp add: t_def)
qed

lemma scroll_loop:
  fixes s :: console_state
  defines "t \<equiv> for_loop 0 1920 (\<lambda>i s. write_cell i (read_cell (i + 80) s) s) s"
  shows "video_only s t \<and> (\<forall>k<2000. cell t k = (if k < 1920 then cell s (k + 80) else cell s k))"
proof -
  let ?P = "\<lambda>n u. video_only s u \<and> (\<forall>k<2000. cell u k = (if k < n then cell s (k + 80) else cell s k))"
  have "?P (unat (1920 :: u32)) t"
    unfolding t_def
  proof (rule for_loop_invariant [where P = ?P])
    show "?P (unat (0 :: u32)) s" by (simp add: video_only_refl)
  next
    fix i u
    assume i: "i < (1920 :: u32)" and P: "?P (unat i) u"
    have i2: "unat i < 1920" using i by (simp add: word_less_nat_alt)
    then have u: "i + 80 = of_nat (unat i + 80)" by simp
    have w: "cell (write_cell i (read_cell (i + 80) u) u) k = (if k = unat i then cell s (unat i + 80) else cell u k)"
      if "k < 2000" for k
      using write_cell_upd(1) [OF _ that, of "unat i" "read_cell (i + 80) u" u] P i2
        read_cell_parts [of "unat i + 80" u] unfolding u [symmetric] by simp
    have "video_only s (write_cell i (read_cell (i + 80) u) u)"
      using video_only_write [of s u "unat i" "read_cell (i + 80) u"] P i2 by simp
    with P w show "?P (Suc (unat i)) (write_cell i (read_cell (i + 80) u) u)"
      by (auto simp: less_Suc_eq)
  qed simp
  then show ?thesis by simp
qed

lemma screen_scroll_cells:
  "video_only s (screen_scroll 1 s)"
  "k < 2000 \<Longrightarrow> cell (screen_scroll 1 s) k = (if k < 1920 then cell s (k + 80) else (0, attribute s))"
proof -
  let ?t = "for_loop 0 1920 (\<lambda>i s. write_cell i (read_cell (i + 80) s) s) s"
  have e: "screen_scroll 1 s = for_loop 1920 (CGA_COLUMNS * CGA_LINES) (\<lambda>i s. write_cell i (blank_cell s) s) ?t"
    by (simp add: screen_scroll_def)
  note sc = scroll_loop [of s]
  note bl = blank_loop [of 1920 s ?t]
  show "video_only s (screen_scroll 1 s)" using sc bl unfolding e by simp
  show "cell (screen_scroll 1 s) k = (if k < 1920 then cell s (k + 80) else (0, attribute s))" if "k < 2000"
    using sc bl that unfolding e by auto
qed

lemma screen_clear_cells:
  "video_only s (screen_clear s)" "k < 2000 \<Longrightarrow> cell (screen_clear s) k = (0, attribute s)"
  using blank_loop [of 0 s s] video_only_refl [of s] by (simp_all add: screen_clear_def)

section \<open>The abstract terminal\<close>

text \<open>A grid of 25 rows and 80 columns with a cursor.\<close>

record terminal =
  grid :: "nat \<Rightarrow> nat \<Rightarrow> u8 \<times> u8"
  col :: nat
  row :: nat
  color :: u8

definition in_grid :: "nat \<Rightarrow> nat \<Rightarrow> bool" where
  "in_grid y x \<longleftrightarrow> y < 25 \<and> x < 80"

definition put_at :: "u8 \<Rightarrow> terminal \<Rightarrow> terminal" where
  "put_at c t = t\<lparr>grid := \<lambda>y x. if y = row t \<and> x = col t then (c, color t) else grid t y x\<rparr>"

definition wrap_line :: "terminal \<Rightarrow> terminal" where
  "wrap_line t = (if col t \<ge> 80 then t\<lparr>col := 0, row := row t + 1\<rparr> else t)"

definition scroll_up :: "terminal \<Rightarrow> terminal" where
  "scroll_up t =
     (if row t \<ge> 25 then
        t\<lparr>grid := \<lambda>y x. if \<not> in_grid y x then (0, 0) else if y < 24 then grid t (y + 1) x else (0, color t),
          row := 24\<rparr>
      else t)"

definition term_putchar :: "u8 \<Rightarrow> terminal \<Rightarrow> terminal" where
  "term_putchar c t =
     scroll_up (wrap_line
       (if c = 8 then put_at 0 (t\<lparr>col := col t - 1\<rparr>)
        else if c = 9 then t\<lparr>col := min 79 (col t div 8 * 8 + 8)\<rparr>
        else if c = 13 then t\<lparr>col := 0\<rparr>
        else if c = 10 then t\<lparr>col := 0, row := row t + 1\<rparr>
        else if 32 \<le> unat c \<and> unat c < 128 then (put_at c t)\<lparr>col := col t + 1\<rparr>
        else t))"

definition term_of :: "console_state \<Rightarrow> terminal" where
  "term_of s = \<lparr>grid = \<lambda>y x. if in_grid y x then cell s (y * 80 + x) else (0, 0),
     col = unat (xpos s), row = unat (ypos s), color = attribute s\<rparr>"

definition console_inv :: "console_state \<Rightarrow> bool" where
  "console_inv s \<longleftrightarrow> columns s = 80 \<and> lines s = 25 \<and> xpos s < 80 \<and> ypos s < 25"

definition cursor_shown :: "console_state \<Rightarrow> bool" where
  "cursor_shown s \<longleftrightarrow> unat (cursor_h s) * 256 + unat (cursor_l s) = unat (ypos s) * 80 + unat (xpos s)"

lemma grid_index:
  "in_grid y x \<Longrightarrow> in_grid v u \<Longrightarrow> y * 80 + x = v * 80 + u \<longleftrightarrow> y = v \<and> x = u"
  "in_grid y x \<Longrightarrow> y * 80 + x < 2000"
proof -
  show "y * 80 + x = v * 80 + u \<longleftrightarrow> y = v \<and> x = u" if "in_grid y x" "in_grid v u"
  proof
    assume e: "y * 80 + x = v * 80 + u"
    from that have "(y * 80 + x) div 80 = y" "(v * 80 + u) div 80 = v"
      "(y * 80 + x) mod 80 = x" "(v * 80 + u) mod 80 = u" by (simp_all add: in_grid_def)
    with e show "y = v \<and> x = u" by metis
  qed simp
  show "y * 80 + x < 2000" if "in_grid y x" using that unfolding in_grid_def by linarith
qed

lemma screen_wirte_cell:
  assumes "x < 80" and "y < 25"
  shows "screen_wirte c x y s = s\<lparr>video := (video s)(CGA_MEM_ATTR + of_nat (unat y * 80 + unat x) * 2 := c,
      CGA_MEM_ATTR + of_nat (unat y * 80 + unat x) * 2 + 1 := attribute s)\<rparr>"
    and "unat y * 80 + unat x < 2000"
proof -
  have "unat x < 80" "unat y < 25" using assms by (simp_all add: word_less_nat_alt)
  then show "unat y * 80 + unat x < 2000" by linarith
  show "screen_wirte c x y s = s\<lparr>video := (video s)(CGA_MEM_ATTR + of_nat (unat y * 80 + unat x) * 2 := c,
      CGA_MEM_ATTR + of_nat (unat y * 80 + unat x) * 2 + 1 := attribute s)\<rparr>"
    by (simp add: screen_wirte_def add.commute)
qed

lemma screen_wirte_term:
  assumes "xpos s < 80" and "ypos s < 25"
  shows "term_of (screen_wirte c (xpos s) (ypos s) s) = put_at c (term_of s)"
    and "video_same s (screen_wirte c (xpos s) (ypos s) s)"
proof -
  let ?i = "unat (ypos s) * 80 + unat (xpos s)"
  note w = screen_wirte_cell(1) [OF assms, of c s] screen_wirte_cell(2) [OF assms]
  have g: "in_grid (unat (ypos s)) (unat (xpos s))" using assms by (simp add: in_grid_def word_less_nat_alt)
  have c: "cell (screen_wirte c (xpos s) (ypos s) s) k = (if k = ?i then (c, attribute s) else cell s k)"
    if "k < 2000" for k
    unfolding w(1) by (rule cell_upd [OF w(2) that])
  show "video_same s (screen_wirte c (xpos s) (ypos s) s)"
    unfolding w(1) by (rule video_same_upd [OF w(2)])
  have "(if in_grid y x then cell (screen_wirte c (xpos s) (ypos s) s) (y * 80 + x) else (0, 0)) =
      (if y = unat (ypos s) \<and> x = unat (xpos s) then (c, attribute s)
       else if in_grid y x then cell s (y * 80 + x) else (0, 0))" for y x
    using c [OF grid_index(2), of y x] grid_index(1) [OF _ g, of y x] g by auto
  then show "term_of (screen_wirte c (xpos s) (ypos s) s) = put_at c (term_of s)"
    by (simp add: term_of_def put_at_def fun_eq_iff) (simp add: screen_wirte_def)
qed

lemma screen_wirte_fields [simp]:
  "columns (screen_wirte c x y s) = columns s" "lines (screen_wirte c x y s) = lines s"
  "xpos (screen_wirte c x y s) = xpos s" "ypos (screen_wirte c x y s) = ypos s"
  "attribute (screen_wirte c x y s) = attribute s"
  by (simp_all add: screen_wirte_def)

lemma term_of_update [simp]:
  "term_of (xpos_update f s) = (term_of s)\<lparr>col := unat (f (xpos s))\<rparr>"
  "term_of (ypos_update f s) = (term_of s)\<lparr>row := unat (f (ypos s))\<rparr>"
  by (simp_all add: term_of_def cell_def cong: if_cong)

lemma video_same_update [simp]:
  "video_same s (xpos_update f t) = video_same s t" "video_same s (ypos_update f t) = video_same s t"
  "video_same s (set_cursor x y t) = video_same s t"
  by (simp_all add: video_same_def set_cursor_def Let_def)

lemma set_cursor_fields [simp]:
  "columns (set_cursor x y s) = columns s" "lines (set_cursor x y s) = lines s"
  "xpos (set_cursor x y s) = xpos s" "ypos (set_cursor x y s) = ypos s"
  "attribute (set_cursor x y s) = attribute s" "term_of (set_cursor x y s) = term_of s"
  by (simp_all add: set_cursor_def Let_def term_of_def cell_def cong: if_cong)

lemma set_cursor_shown:
  assumes "xpos s < 80" and "ypos s < 25"
  shows "cursor_shown (set_cursor (xpos s) (ypos s) s)"
proof -
  let ?w = "ypos s * 80 + xpos s"
  have b: "unat (xpos s) < 80" "unat (ypos s) < 25" using assms by (simp_all add: word_less_nat_alt)
  then have "unat (ypos s * 80) = unat (ypos s) * 80" by (intro unat_mult32 [THEN trans]) simp_all
  with b have w: "unat ?w = unat (ypos s) * 80 + unat (xpos s)" by (simp add: unat_add32)
  with b have lt: "unat ?w < 2000" by linarith
  then have l: "unat (ucast ?w :: u16) = unat ?w"
    by (simp add: unsigned_ucast_eq take_bit_nat_eq_self)
  have h: "unat (ucast (drop_bit 8 (ucast ?w :: u16)) :: u8) = unat ?w div 256"
  proof -
    have "unat (drop_bit 8 (ucast ?w :: u16)) = unat ?w div 256"
      using l by (simp add: drop_bit_eq_div unat_div)
    with lt show ?thesis by (simp add: unsigned_ucast_eq take_bit_nat_eq_self)
  qed
  have "unat (ucast (ucast ?w :: u16) :: u8) = unat ?w mod 256"
    using l by (simp add: unsigned_ucast_eq [of "ucast ?w :: u16"] take_bit_eq_mod)
  with h w show ?thesis
    by (simp add: cursor_shown_def set_cursor_def Let_def)
qed

lemma screen_scroll_fields [simp]:
  "columns (screen_scroll 1 s) = columns s" "lines (screen_scroll 1 s) = lines s"
  "xpos (screen_scroll 1 s) = xpos s" "ypos (screen_scroll 1 s) = ypos s"
  "attribute (screen_scroll 1 s) = attribute s" "video_same s (screen_scroll 1 s)"
  using video_only_fields [OF screen_scroll_cells(1) [of s]] by simp_all

text \<open>The end of \<open>console_putchar\<close>: the line is wrapped, the screen scrolled, the cursor shown.\<close>

definition finish_putchar :: "console_state \<Rightarrow> console_state" where
  "finish_putchar s1 =
     (let s2 = (if xpos s1 \<ge> columns s1 then s1\<lparr>xpos := 0, ypos := ypos s1 + 1\<rparr> else s1);
          s3 = (if ypos s2 \<ge> lines s2 then (screen_scroll 1 s2)\<lparr>ypos := lines s2 - 1\<rparr> else s2)
      in set_cursor (xpos s3) (ypos s3) s3)"

lemma scroll_term:
  assumes "row (term_of s) = 25" and "ypos s \<ge> 25"
  shows "term_of ((screen_scroll 1 s)\<lparr>ypos := 24\<rparr>) = scroll_up (term_of s)"
proof -
  have "(if in_grid y x then cell (screen_scroll 1 s) (y * 80 + x) else (0, 0)) =
      (if \<not> in_grid y x then (0, 0) else if y < 24 then (if in_grid (y + 1) x then cell s ((y + 1) * 80 + x) else (0, 0))
       else (0, attribute s))" for y x
  proof (cases "in_grid y x")
    case True
    then have "y * 80 + x < 1920 \<longleftrightarrow> y < 24" by (auto simp: in_grid_def)
    with True grid_index(2) [OF True] show ?thesis
      by (simp add: screen_scroll_cells(2)) (simp add: in_grid_def add.commute add.left_commute)
  qed simp
  then have g: "grid (term_of (screen_scroll 1 s)) = grid (scroll_up (term_of s))"
    using assms by (simp add: term_of_def scroll_up_def fun_eq_iff)
  have u: "term_of ((screen_scroll 1 s)\<lparr>ypos := 24\<rparr>) = (term_of (screen_scroll 1 s))\<lparr>row := 24\<rparr>" by simp
  show ?thesis unfolding u
  proof (rule terminal.equality)
    show "grid ((term_of (screen_scroll 1 s))\<lparr>row := 24\<rparr>) = grid (scroll_up (term_of s))" using g by simp
  qed (use assms in \<open>simp_all add: scroll_up_def\<close>, simp_all add: term_of_def)
qed

lemma finish_putchar_term:
  assumes "columns s = 80" and "lines s = 25" and "xpos s \<le> 80" and "ypos s \<le> 25"
    and "xpos s < 80 \<or> ypos s < 25"
  shows "term_of (finish_putchar s) = scroll_up (wrap_line (term_of s)) \<and> console_inv (finish_putchar s) \<and>
    cursor_shown (finish_putchar s) \<and> video_same s (finish_putchar s)"
proof -
  define s2 where "s2 = (if xpos s \<ge> 80 then s\<lparr>xpos := 0, ypos := ypos s + 1\<rparr> else s)"
  define s3 where "s3 = (if ypos s2 \<ge> 25 then (screen_scroll 1 s2)\<lparr>ypos := 24\<rparr> else s2)"
  have l2: "lines s2 = 25" "columns s2 = 80" using assms by (simp_all add: s2_def)
  have f: "finish_putchar s = set_cursor (xpos s3) (ypos s3) s3"
    using assms(1) l2 unfolding finish_putchar_def Let_def s3_def s2_def [symmetric] by (simp add: s2_def)
  have b: "unat (xpos s) \<le> 80" "unat (ypos s) \<le> 25" "unat (xpos s) < 80 \<or> unat (ypos s) < 25"
    using assms(3-5) by (simp_all add: word_le_nat_alt word_less_nat_alt)
  have y: "unat (ypos s + 1) = unat (ypos s) + 1" using b(2) by (simp add: unat_add32)
  have t2: "term_of s2 = wrap_line (term_of s)"
  proof (cases "xpos s \<ge> 80")
    case True
    then have "unat (xpos s) \<ge> 80" by (simp add: word_le_nat_alt)
    with True show ?thesis using y
      by (simp add: s2_def wrap_line_def) (simp add: term_of_def)
  next
    case False
    then have "\<not> unat (xpos s) \<ge> 80" by (simp add: word_le_nat_alt)
    with False show ?thesis by (simp add: s2_def wrap_line_def) (simp add: term_of_def)
  qed
  have x2: "xpos s2 < 80" using assms(3) by (auto simp: s2_def)
  have y2: "unat (ypos s2) \<le> 25" using b y by (auto simp: s2_def word_le_nat_alt)
  have t3: "term_of s3 = scroll_up (term_of s2)" and y3: "ypos s3 < 25" and v3: "video_same s s3"
  proof (atomize (full), cases "ypos s2 \<ge> 25")
    case True
    then have "row (term_of s2) = 25" using y2 by (simp add: term_of_def word_le_nat_alt)
    from scroll_term [OF this True] True
    have "term_of s3 = scroll_up (term_of s2)" by (simp only: s3_def if_True)
    moreover have "video_same s s3"
      using video_same_trans [of s s2 s3] True by (auto simp: s3_def s2_def)
    ultimately show "term_of s3 = scroll_up (term_of s2) \<and> ypos s3 < 25 \<and> video_same s s3"
      using True by (simp add: s3_def)
  next
    case False
    then have "\<not> row (term_of s2) \<ge> 25" by (simp add: term_of_def word_le_nat_alt)
    with False show "term_of s3 = scroll_up (term_of s2) \<and> ypos s3 < 25 \<and> video_same s s3"
      by (auto simp: s3_def scroll_up_def s2_def)
  qed
  have x3: "xpos s3 = xpos s2" "columns s3 = 80" "lines s3 = 25" using l2 by (simp_all add: s3_def)
  show ?thesis
    using t2 t3 y3 v3 x2 x3 set_cursor_shown [of s3] unfolding f by (simp add: console_inv_def)
qed

text \<open>What comes before: the cursor moves, a character is written.\<close>

definition start_putchar :: "u8 \<Rightarrow> console_state \<Rightarrow> console_state" where
  "start_putchar c s =
     (if c = 8 then
        (let s = (if xpos s \<noteq> 0 then s\<lparr>xpos := xpos s - 1\<rparr> else s)
         in screen_wirte 0 (xpos s) (ypos s) s)
      else if c = 9 then
        (let s = s\<lparr>xpos := (xpos s + TAB_SIZE) AND NOT (TAB_SIZE - 1)\<rparr>
         in if xpos s \<ge> columns s then s\<lparr>xpos := columns s - 1\<rparr> else s)
      else if c = 13 then s\<lparr>xpos := 0\<rparr>
      else if c = 10 then s\<lparr>xpos := 0, ypos := ypos s + 1\<rparr>
      else if sint c \<ge> 0x20 then
        (let s = screen_wirte c (xpos s) (ypos s) s in s\<lparr>xpos := xpos s + 1\<rparr>)
      else s)"

lemma console_putchar_split: "console_putchar c s = finish_putchar (start_putchar c s)"
  unfolding console_putchar_def finish_putchar_def start_putchar_def by (simp only: Let_def)

lemma sint_u8: "0x20 \<le> sint (c :: u8) \<longleftrightarrow> 32 \<le> unat c \<and> unat c < 128"
proof -
  have u: "uint c = int (unat c)" "unat c < 256" using unsigned_less [of c] by simp_all
  have b: "bit (uint c) 7 \<longleftrightarrow> 128 \<le> unat c"
  proof -
    have "odd (unat c div 128) \<longleftrightarrow> 128 \<le> unat c"
    proof (cases "128 \<le> unat c")
      case True
      with u(2) have "unat c div 128 = 1" by (simp add: div_nat_eqI)
      with True show ?thesis by simp
    qed simp
    moreover have "uint c div 2 ^ 7 = int (unat c div 128)"
      unfolding u(1) by (simp only: zdiv_int) simp
    ultimately show ?thesis unfolding bit_iff_odd by simp
  qed
  have tb: "take_bit 8 (uint c) = uint c"
    using unsigned_less [of c] by (intro take_bit_int_eq_self) simp_all
  have "sint c = take_bit 8 (uint c) - 256 * of_bool (bit (uint c) 7)"
    unfolding sint_uint signed_take_bit_eq_take_bit_minus by simp
  then have "sint c = (if unat c < 128 then int (unat c) else int (unat c) - 256)"
    using b tb by simp
  then show ?thesis using u(2) by (simp del: of_nat_unat)
qed

lemma start_putchar_term:
  fixes c :: u8 and s :: console_state
  assumes "console_inv s"
  defines "t \<equiv> start_putchar c s"
  shows "columns t = 80 \<and> lines t = 25 \<and> xpos t \<le> 80 \<and> ypos t \<le> 25 \<and> (xpos t < 80 \<or> ypos t < 25) \<and>
    video_same s t \<and> scroll_up (wrap_line (term_of t)) = term_putchar c (term_of s)"
proof -
  have inv: "columns s = 80" "lines s = 25" "xpos s < 80" "ypos s < 25"
    using assms(1) by (simp_all add: console_inv_def)
  have b: "unat (xpos s) < 80" "unat (ypos s) < 25" using inv by (simp_all add: word_less_nat_alt)
  have x1: "unat (xpos s + 1) = unat (xpos s) + 1" and y1: "unat (ypos s + 1) = unat (ypos s) + 1"
    using b by (simp_all add: unat_add32)
  have f: "col (term_of s) = unat (xpos s)" "row (term_of s) = unat (ypos s)" for s
    by (simp_all add: term_of_def)
  have le: "xpos s + 1 \<le> 80" "ypos s + 1 \<le> 25" "xpos s \<le> 80" "ypos s \<le> 25"
    using b x1 y1 by (simp_all add: word_le_nat_alt)
  consider "c = 8" | "c = 9" | "c = 13" | "c = 10" | "sint c \<ge> 0x20" "c \<noteq> 8" "c \<noteq> 9" "c \<noteq> 13" "c \<noteq> 10"
    | "\<not> sint c \<ge> 0x20" "c \<noteq> 8" "c \<noteq> 9" "c \<noteq> 13" "c \<noteq> 10" by blast
  then show ?thesis
  proof cases
    case 1
    define s' where "s' = (if xpos s \<noteq> 0 then s\<lparr>xpos := xpos s - 1\<rparr> else s)"
    have t: "t = screen_wirte 0 (xpos s') (ypos s') s'"
      unfolding t_def start_putchar_def s'_def Let_def by (simp only: 1 if_True simp_thms)
    have x: "unat (xpos s') = unat (xpos s) - 1"
      by (cases "xpos s = 0") (simp_all add: s'_def unat_pred word_neq_0_conv)
    have e: "columns s' = 80" "lines s' = 25" "ypos s' = ypos s" "video_same s s'" using inv by (simp_all add: s'_def)
    have l: "xpos s' < 80" "ypos s' < 25" using x b e by (simp_all add: word_less_nat_alt)
    have "term_of s' = (term_of s)\<lparr>col := unat (xpos s) - 1\<rparr>"
      using x by (auto simp: s'_def) (simp add: term_of_def)
    then have "term_of t = put_at 0 ((term_of s)\<lparr>col := col (term_of s) - 1\<rparr>)"
      unfolding t using screen_wirte_term(1) [OF l] f by simp
    then have "scroll_up (wrap_line (term_of t)) = term_putchar c (term_of s)"
      using 1 by (simp add: term_putchar_def)
    moreover have "video_same s t"
      unfolding t using video_same_trans [OF e(4) screen_wirte_term(2) [OF l]] .
    ultimately show ?thesis using t e l by (simp add: order_less_imp_le)
  next
    case 2
    define X where "X = (xpos s + TAB_SIZE) AND NOT (TAB_SIZE - 1)"
    have m: "TAB_SIZE - 1 = mask 3" by (simp add: mask_eq_exp_minus_1)
    have "unat (xpos s + 8) = unat (xpos s) + 8" using b by (simp add: unat_add32)
    then have X: "unat X = unat (xpos s) div 8 * 8 + 8"
      unfolding X_def m by (subst unat_and_not_mask) (simp_all add: div_add_self2)
    have t: "t = s\<lparr>xpos := if X \<ge> 80 then 79 else X\<rparr>"
      unfolding t_def start_putchar_def Let_def X_def [symmetric] using 2 inv by simp
    have ux: "unat (if X \<ge> 80 then 79 else X) = min 79 (unat (xpos s) div 8 * 8 + 8)"
    proof (cases "X \<ge> 80")
      case True
      with X show ?thesis by (simp add: word_le_nat_alt)
    next
      case False
      with X have "unat (xpos s) div 8 * 8 + 8 < 80" by (simp add: word_le_nat_alt)
      with False X show ?thesis by simp
    qed
    have "term_of t = (term_of s)\<lparr>col := min 79 (col (term_of s) div 8 * 8 + 8)\<rparr>"
      unfolding t using ux f by simp
    then have "scroll_up (wrap_line (term_of t)) = term_putchar c (term_of s)"
      using 2 by (simp add: term_putchar_def)
    moreover have "xpos t < 80" using ux unfolding t by (auto simp: word_less_nat_alt not_le)
    ultimately show ?thesis using t inv le by (simp add: order_less_imp_le)
  next
    case 3
    then have "t = s\<lparr>xpos := 0\<rparr>" by (simp add: t_def start_putchar_def)
    then show ?thesis using 3 inv le by (simp add: term_putchar_def)
  next
    case 4
    then have t: "t = s\<lparr>xpos := 0, ypos := ypos s + 1\<rparr>" by (simp add: t_def start_putchar_def)
    then have "term_of t = (term_of s)\<lparr>col := 0, row := row (term_of s) + 1\<rparr>"
      using y1 f by simp
    then show ?thesis using 4 t inv le by (simp add: term_putchar_def)
  next
    case 5
    define s' where "s' = screen_wirte c (xpos s) (ypos s) s"
    have t: "t = s'\<lparr>xpos := xpos s' + 1\<rparr>"
      unfolding t_def start_putchar_def s'_def Let_def using 5 by simp
    have e: "xpos s' = xpos s" "ypos s' = ypos s" "columns s' = 80" "lines s' = 25"
      using inv by (simp_all add: s'_def)
    have "term_of s' = put_at c (term_of s)"
      unfolding s'_def by (rule screen_wirte_term(1) [OF inv(3,4)])
    then have "term_of t = (put_at c (term_of s))\<lparr>col := col (term_of s) + 1\<rparr>"
      unfolding t using e x1 f by simp
    moreover have "col (put_at c (term_of s)) = col (term_of s)" by (simp add: put_at_def)
    ultimately have "scroll_up (wrap_line (term_of t)) = term_putchar c (term_of s)"
      using 5 sint_u8 [of c] by (simp add: term_putchar_def)
    moreover have "video_same s t" using screen_wirte_term(2) [OF inv(3,4)] unfolding t s'_def by simp
    ultimately show ?thesis using t e inv le by simp
  next
    case 6
    then have "t = s" by (simp add: t_def start_putchar_def)
    then show ?thesis using 6 sint_u8 [of c] inv le by (auto simp: term_putchar_def)
  qed
qed

lemma console_putchar_correct:
  assumes "console_inv s"
  shows "term_of (console_putchar c s) = term_putchar c (term_of s) \<and> console_inv (console_putchar c s) \<and>
    cursor_shown (console_putchar c s) \<and> video_same s (console_putchar c s)"
proof -
  note st = start_putchar_term [OF assms, of c]
  have "term_of (console_putchar c s) = scroll_up (wrap_line (term_of (start_putchar c s))) \<and>
    console_inv (console_putchar c s) \<and> cursor_shown (console_putchar c s) \<and>
    video_same (start_putchar c s) (console_putchar c s)"
    unfolding console_putchar_split using st by (intro finish_putchar_term) blast+
  with st video_same_trans show ?thesis by metis
qed

lemma console_write_correct:
  assumes "console_inv s" and "cursor_shown s"
  shows "term_of (console_write cs s) = fold term_putchar (takeWhile (\<lambda>c. c \<noteq> 0) cs) (term_of s) \<and>
    console_inv (console_write cs s) \<and> cursor_shown (console_write cs s) \<and> video_same s (console_write cs s)"
  unfolding console_write_def using assms
proof (induction "takeWhile (\<lambda>c. c \<noteq> 0) cs" arbitrary: s cs)
  case Nil
  then show ?case by (metis fold_simps(1) video_same_refl)
next
  case (Cons c ds)
  note p = console_putchar_correct [OF Cons.prems(1), of c]
  have ds: "ds = takeWhile (\<lambda>c. c \<noteq> 0) ds" using Cons.hyps(2)
    by (metis list.inject takeWhile_idem set_takeWhileD takeWhile_eq_all_conv list.set_intros(2))
  from Cons.hyps(1) [OF ds, of "console_putchar c s"] p ds
  have "term_of (fold console_putchar ds (console_putchar c s)) = fold term_putchar ds (term_putchar c (term_of s)) \<and>
    console_inv (fold console_putchar ds (console_putchar c s)) \<and>
    cursor_shown (fold console_putchar ds (console_putchar c s)) \<and>
    video_same (console_putchar c s) (fold console_putchar ds (console_putchar c s))" by simp
  with p Cons.hyps(2) [symmetric] video_same_trans show ?case by auto
qed

text \<open>The start: a blank screen with the cursor in the corner.\<close>

definition blank_terminal :: terminal where
  "blank_terminal = \<lparr>grid = \<lambda>y x. if in_grid y x then (0, CGA_ATTRIBUTE) else (0, 0), col = 0, row = 0,
     color = CGA_ATTRIBUTE\<rparr>"

lemma console_init_correct:
  "console_inv (console_init s) \<and> cursor_shown (console_init s) \<and> term_of (console_init s) = blank_terminal \<and>
   video_same s (console_init s)"
proof -
  let ?s = "s\<lparr>attribute := CGA_ATTRIBUTE\<rparr>"
  note c = screen_clear_cells [where s = ?s]
  note f = video_only_fields [OF c(1)]
  have "cell (console_init s) k = cell (screen_clear ?s) k" for k
    by (simp add: console_init_def init_cga_def cell_def set_cursor_def Let_def)
  then have "cell (console_init s) k = (0, CGA_ATTRIBUTE)" if "k < 2000" for k
    using c(2) [OF that] by simp
  with grid_index(2) have "(if in_grid y x then cell (console_init s) (y * 80 + x) else (0, 0)) =
      (if in_grid y x then (0, CGA_ATTRIBUTE) else (0, 0))" for y x by auto
  moreover have "attribute (console_init s) = CGA_ATTRIBUTE"
    using f(1) by (simp add: console_init_def init_cga_def)
  moreover have "xpos (console_init s) = 0" "ypos (console_init s) = 0"
    by (simp_all add: console_init_def)
  ultimately have "term_of (console_init s) = blank_terminal"
    by (simp add: term_of_def blank_terminal_def fun_eq_iff)
  moreover have "console_inv (console_init s)"
    by (simp add: console_inv_def console_init_def get_screen_columns_def get_screen_lines_def)
  moreover have "cursor_shown (console_init s)"
    by (simp add: cursor_shown_def console_init_def init_cga_def set_cursor_def Let_def)
  moreover have "video_same s (console_init s)"
    using f(8) by (simp add: video_same_def console_init_def init_cga_def set_cursor_def Let_def)
  ultimately show ?thesis by blast
qed

section \<open>Properties\<close>

text \<open>C16. The console implements a terminal of 25 rows and 80 columns: writing a string does to
  the screen, read as a grid with a cursor, exactly what the terminal does character by
  character (backspace, tab, carriage return, line feed, wrapping at the right edge, scrolling
  at the bottom).  The cursor stays on the screen, the hardware cursor is where it is, and no
  byte outside the 4000 of the screen is written.\<close>

theorem console_write_refines_terminal:
  assumes "console_inv s" and "cursor_shown s"
  shows "term_of (console_write cs s) = fold term_putchar (takeWhile (\<lambda>c. c \<noteq> 0) cs) (term_of s) \<and>
    console_inv (console_write cs s) \<and> cursor_shown (console_write cs s) \<and> video_same s (console_write cs s)"
  using assms by (rule console_write_correct)

definition console_sample :: console_state where
  "console_sample = \<lparr>attribute = 0, video = (\<lambda>_. 0), cursor_h = 0, cursor_l = 0, columns = 0, lines = 0, xpos = 0, ypos = 0\<rparr>"

theorem console_write_refines_terminal_witness:
  "term_of (console_write [0x41, 10] (console_init console_sample)) =
    term_putchar 10 (term_putchar 0x41 blank_terminal)"
  using console_write_refines_terminal [of "console_init console_sample" "[0x41, 10]"]
    console_init_correct [of console_sample] by simp

end
