(* ===== verification/Interrupts.thy ===== *)
theory Interrupts
  imports Prelude
begin

text \<open>
  Descriptor tables and interrupts: \<open>src/arch/x86/descriptor.c\<close> (with \<open>descriptor.h\<close>,
  \<open>selector.h\<close>), \<open>src/kernel/mm/gdt.c\<close>, \<open>src/kernel/intr/idt.c\<close>, \<open>stub.c\<close>, \<open>isr.c\<close>,
  \<open>src/driver/i8259.c\<close>, \<open>src/driver/timer.c\<close> and the dispatch of \<open>src/kernel/syscall/syscall.c\<close>.
  Function pointers that the kernel registers are constructors of small data types; the bytes
  written to ports are a list of port and byte, oldest first.
\<close>

section \<open>Descriptors\<close>

abbreviation SEGM_G :: u16 where "SEGM_G \<equiv> 0x8000"
abbreviation SEGM_DB :: u16 where "SEGM_DB \<equiv> 0x4000"
abbreviation (input) DESC_P :: "'a::len word" where "DESC_P \<equiv> 0x80"
abbreviation (input) DESC_DPL0 :: "'a::len word" where "DESC_DPL0 \<equiv> 0x00"
abbreviation (input) DESC_DPL3 :: "'a::len word" where "DESC_DPL3 \<equiv> 0x60"
abbreviation (input) DESC_S :: "'a::len word" where "DESC_S \<equiv> 0x10"
abbreviation (input) DESC_D :: "'a::len word" where "DESC_D \<equiv> 0x08"
abbreviation SEGM_TYPE_RW :: u16 where "SEGM_TYPE_RW \<equiv> 0x02"
abbreviation SEGM_TYPE_CR :: u16 where "SEGM_TYPE_CR \<equiv> 0x0a"
abbreviation SEGM_TYPE_TSS :: u16 where "SEGM_TYPE_TSS \<equiv> 0x01"
abbreviation GATE_TYPE_INT :: u8 where "GATE_TYPE_INT \<equiv> 0x06"

record segment_descriptor =
  limit_1 :: u16
  base_addr_1 :: u16
  base_addr_2 :: u8
  seg_attribute :: u16
  base_addr_3 :: u8

record gate_descriptor =
  offset_1 :: u16
  gate_selector :: u16
  always0 :: u8
  gate_attribute :: u8
  offset_2 :: u16

record table_ptr =
  ptr_limit :: u16
  base_attr :: u32

definition selector :: "u16 \<Rightarrow> u16 \<Rightarrow> u16" where
  "selector n attr = push_bit 3 n OR attr"

definition set_segment_descriptor :: "u32 \<Rightarrow> u32 \<Rightarrow> u16 \<Rightarrow> segment_descriptor" where
  "set_segment_descriptor base limit attr =
     \<lparr>limit_1 = ucast (limit AND 0xffff),
      base_addr_1 = ucast (base AND 0xffff),
      base_addr_2 = ucast (drop_bit 16 base AND 0xff),
      seg_attribute = (attr AND 0xf0ff) OR ucast (limit AND 0x0f00),
      base_addr_3 = ucast (drop_bit 24 base AND 0xff)\<rparr>"

definition set_gate_descriptor :: "u16 \<Rightarrow> u32 \<Rightarrow> u8 \<Rightarrow> gate_descriptor" where
  "set_gate_descriptor sel offset attr =
     \<lparr>offset_1 = ucast (offset AND 0xffff), gate_selector = sel AND 0xffff, always0 = 0,
      gate_attribute = attr AND 0xff, offset_2 = ucast (drop_bit 16 offset AND 0xffff)\<rparr>"

definition load_gdt :: "u32 \<Rightarrow> u16 \<Rightarrow> table_ptr" where
  "load_gdt base len = \<lparr>ptr_limit = 8 * len - 1, base_attr = base\<rparr>"

definition load_idt :: "u32 \<Rightarrow> u16 \<Rightarrow> table_ptr" where
  "load_idt base len = \<lparr>ptr_limit = 8 * len - 1, base_attr = base\<rparr>"

text \<open>\<open>MAX_ATTR\<close> is a 64-bit constant, so the limits are computed in 64 bits and truncated.\<close>

definition gdt_init :: "u32 \<Rightarrow> u32 \<Rightarrow> segment_descriptor list \<times> table_ptr" where
  "gdt_init gdt_list globl_tss =
     ([set_segment_descriptor 0 0 0,
       set_segment_descriptor PAGE_OFFSET (ucast (drop_bit 12 ((0x100000000 :: u64) - ucast PAGE_OFFSET - 1)))
         (SEGM_G OR SEGM_DB OR DESC_P OR DESC_DPL0 OR DESC_S OR SEGM_TYPE_CR),
       set_segment_descriptor PAGE_OFFSET (ucast (drop_bit 12 ((0x100000000 :: u64) - ucast PAGE_OFFSET - 1)))
         (SEGM_G OR SEGM_DB OR DESC_P OR DESC_DPL0 OR DESC_S OR SEGM_TYPE_RW),
       set_segment_descriptor 0 (ucast (drop_bit 12 ((0x100000000 :: u64) - 1)))
         (SEGM_G OR SEGM_DB OR DESC_P OR DESC_DPL3 OR DESC_S OR SEGM_TYPE_CR),
       set_segment_descriptor 0 (ucast (drop_bit 12 ((0x100000000 :: u64) - 1)))
         (SEGM_G OR SEGM_DB OR DESC_P OR DESC_DPL3 OR DESC_S OR SEGM_TYPE_RW),
       set_segment_descriptor (globl_tss + PAGE_OFFSET) 104
         (DESC_P OR DESC_DPL3 OR DESC_D OR SEGM_TYPE_TSS)],
      load_gdt (gdt_list + PAGE_OFFSET) 6)"

section \<open>Handlers and state\<close>

text \<open>The functions registered for vectors and for interrupt requests, \<open>NULL\<close> included.\<close>

datatype intr_handler = No_handler | Isr_handler | Irq_handler | Syscall_handler

datatype irq_handler = No_irq | Timer_irq | Keyboard_irq | Ata_irq nat

record intr_state =
  idt_list :: "gate_descriptor list"
  idt_ptr :: table_ptr
  intr_handler_list :: "intr_handler list"
  irq_handler_list :: "irq_handler list"
  master_int_mask :: u8
  slave_int_mask :: u8
  user_isr_set :: bool
  timer_set :: bool
  timer_tick :: u32
  ports :: "(u16 \<times> u8) list"
  intr_on :: bool

definition outb :: "u8 \<Rightarrow> u16 \<Rightarrow> intr_state \<Rightarrow> intr_state" where
  "outb v port s = s\<lparr>ports := ports s @ [(port, v)]\<rparr>"

section \<open>The interrupt descriptor table\<close>

definition idt_set :: "nat \<Rightarrow> u32 \<Rightarrow> intr_state \<Rightarrow> intr_state" where
  "idt_set n base s =
     (if n < 256 then
        s\<lparr>idt_list := (idt_list s)[n := set_gate_descriptor (selector 1 0) base (DESC_P OR DESC_D OR GATE_TYPE_INT)]\<rparr>
      else s)"

definition idt_attribute :: "nat \<Rightarrow> u8 \<Rightarrow> intr_state \<Rightarrow> intr_state" where
  "idt_attribute n attr s =
     (if n < 256 then
        s\<lparr>idt_list := (idt_list s)[n := (idt_list s ! n)
            \<lparr>gate_attribute := gate_attribute (idt_list s ! n) OR attr\<rparr>]\<rparr>
      else s)"

definition idt_init :: "u32 \<Rightarrow> intr_state \<Rightarrow> intr_state" where
  "idt_init idt_addr s = s\<lparr>idt_ptr := load_idt (idt_addr + PAGE_OFFSET) 0x100\<rparr>"

section \<open>Vectors\<close>

definition reg_intr_handler :: "nat \<Rightarrow> intr_handler \<Rightarrow> intr_state \<Rightarrow> intr_state" where
  "reg_intr_handler n h s =
     (if n < 256 then s\<lparr>intr_handler_list := (intr_handler_list s)[n := h]\<rparr> else s)"

text \<open>The entry points \<open>int_N\<close> of \<open>intstub.S\<close> are the addresses \<open>int_stub N\<close>.\<close>

definition set_intr :: "(nat \<Rightarrow> u32) \<Rightarrow> nat \<Rightarrow> intr_state \<Rightarrow> intr_state" where
  "set_intr int_stub n s = idt_set n (int_stub n) s"

definition set_intr_low :: "(nat \<Rightarrow> u32) \<Rightarrow> intr_state \<Rightarrow> intr_state" where
  "set_intr_low int_stub s = fold (set_intr int_stub) [0..<0x70] s"

definition set_intr_high :: "(nat \<Rightarrow> u32) \<Rightarrow> intr_state \<Rightarrow> intr_state" where
  "set_intr_high int_stub s = fold (set_intr int_stub) [0x70..<0x100] s"

definition stub_init :: "(nat \<Rightarrow> u32) \<Rightarrow> intr_state \<Rightarrow> intr_state" where
  "stub_init int_stub s =
     set_intr_high int_stub (set_intr_low int_stub
       (fold (\<lambda>i s. s\<lparr>intr_handler_list := (intr_handler_list s)[i := No_handler]\<rparr>) [0..<256] s))"

section \<open>Exceptions\<close>

definition reg_user_isr_handler :: "bool \<Rightarrow> intr_state \<Rightarrow> intr_state" where
  "reg_user_isr_handler h s = s\<lparr>user_isr_set := h\<rparr>"

definition isr_int :: "intr_state \<Rightarrow> intr_state" where
  "isr_int s = fold (\<lambda>i. reg_intr_handler i Isr_handler) [0..<0x14] (s\<lparr>user_isr_set := False\<rparr>)"

section \<open>Interrupt requests\<close>

abbreviation I8259_M_CTL_IO :: u16 where "I8259_M_CTL_IO \<equiv> 0x20"
abbreviation I8259_M_SET_IO :: u16 where "I8259_M_SET_IO \<equiv> 0x21"
abbreviation I8259_S_CTL_IO :: u16 where "I8259_S_CTL_IO \<equiv> 0xa0"
abbreviation I8259_S_SET_IO :: u16 where "I8259_S_SET_IO \<equiv> 0xa1"
abbreviation (input) M_INT_VECTOR :: nat where "M_INT_VECTOR \<equiv> 0x20"
abbreviation (input) S_INT_VECTOR :: nat where "S_INT_VECTOR \<equiv> 0x28"

definition reg_irq_handler :: "nat \<Rightarrow> irq_handler \<Rightarrow> intr_state \<Rightarrow> intr_state" where
  "reg_irq_handler n h s =
     (if n < 16 then
        (let s1 = s\<lparr>irq_handler_list := (irq_handler_list s)[n := h]\<rparr>
         in if n < 8 then
              (let s2 = s1\<lparr>master_int_mask := master_int_mask s1 AND NOT (push_bit n 1)\<rparr>
               in outb (master_int_mask s2) I8259_M_SET_IO s2)
            else
              (let s2 = s1\<lparr>slave_int_mask := slave_int_mask s1 AND NOT (push_bit (n - 8) 1)\<rparr>
               in outb (slave_int_mask s2) I8259_S_SET_IO s2))
      else s)"

definition init_8259A :: "intr_state \<Rightarrow> intr_state" where
  "init_8259A s =
     (let s1 = s\<lparr>master_int_mask := 0xff, slave_int_mask := 0xff\<rparr>;
          s2 = fold (\<lambda>i s.
                 reg_intr_handler (S_INT_VECTOR + i) Irq_handler
                   (reg_intr_handler (M_INT_VECTOR + i) Irq_handler
                     (s\<lparr>irq_handler_list := (irq_handler_list s)[i := No_irq, i + 8 := No_irq]\<rparr>))) [0..<8] s1;
          s3 = outb 0x11 I8259_S_CTL_IO (outb 0x11 I8259_M_CTL_IO s2);
          s4 = outb 0x28 I8259_S_SET_IO (outb 0x20 I8259_M_SET_IO s3);
          s5 = outb 0x02 I8259_S_SET_IO (outb 0x04 I8259_M_SET_IO s4);
          s6 = outb 0x01 I8259_S_SET_IO (outb 0x01 I8259_M_SET_IO s5);
          s7 = outb (slave_int_mask s6) I8259_S_SET_IO (outb (master_int_mask s6) I8259_M_SET_IO s6)
      in reg_irq_handler 2 No_irq s7)"

definition intr_init :: "u32 \<Rightarrow> (nat \<Rightarrow> u32) \<Rightarrow> intr_state \<Rightarrow> intr_state" where
  "intr_init idt_addr int_stub s =
     (init_8259A (isr_int (stub_init int_stub (idt_init idt_addr s))))\<lparr>intr_on := True\<rparr>"

section \<open>The timer\<close>

definition get_timer_ticks :: "intr_state \<Rightarrow> u32" where
  "get_timer_ticks s = timer_tick s"

abbreviation TIMER_LATCH :: u32 where "TIMER_LATCH \<equiv> 1193180"

definition set_timer_frequency :: "u32 \<Rightarrow> intr_state \<Rightarrow> intr_state" where
  "set_timer_frequency frequency s =
     (let divisor = TIMER_LATCH div frequency
      in outb (ucast (drop_bit 8 divisor AND 0xff)) 0x40
           (outb (ucast (divisor AND 0xff)) 0x40 (outb 0x36 0x43 s)))"

definition reg_timer_handler :: "bool \<Rightarrow> intr_state \<Rightarrow> intr_state" where
  "reg_timer_handler h s = s\<lparr>timer_tick := 0, timer_set := h\<rparr>"

definition init_timer :: "intr_state \<Rightarrow> intr_state" where
  "init_timer s = reg_irq_handler 0 Timer_irq (s\<lparr>timer_set := False\<rparr>)"

section \<open>Dispatch\<close>

text \<open>What an interrupt runs after the common entry code.  \<open>Run_timer\<close> carries the tick that the
  timer's handler is given, \<open>Run_syscall\<close> the number in \<open>eax\<close>.\<close>

datatype action = Run_user_isr | Panic | Run_timer u32 | Run_keyboard | Run_ata nat | Run_syscall u32

record intr_regs =
  ds :: u32
  edi :: u32
  esi :: u32
  ebp :: u32
  esp :: u32
  ebx :: u32
  edx :: u32
  ecx :: u32
  eax :: u32
  int_code :: u32
  err_code :: u32
  eip :: u32
  cs :: u32
  eflags :: u32
  useresp :: u32
  ss :: u32

definition isr_handler :: "intr_regs \<Rightarrow> intr_state \<Rightarrow> action list" where
  "isr_handler regs s =
     (if cs regs = ucast (selector 3 3) \<and> user_isr_set s then [Run_user_isr] else [Panic])"

definition irq0_handler :: "intr_state \<Rightarrow> action list \<times> intr_state" where
  "irq0_handler s =
     (if timer_set s then ([Run_timer (timer_tick s)], s\<lparr>timer_tick := timer_tick s + 1\<rparr>) else ([], s))"

definition run_irq :: "irq_handler \<Rightarrow> intr_state \<Rightarrow> action list \<times> intr_state" where
  "run_irq h s =
     (case h of No_irq \<Rightarrow> ([], s) | Timer_irq \<Rightarrow> irq0_handler s
      | Keyboard_irq \<Rightarrow> ([Run_keyboard], s) | Ata_irq n \<Rightarrow> ([Run_ata n], s))"

definition irq_handler :: "intr_regs \<Rightarrow> intr_state \<Rightarrow> action list \<times> intr_state" where
  "irq_handler regs s =
     (let s1 = outb 0x20 I8259_M_CTL_IO s
      in if int_code regs < 0x28 then run_irq (irq_handler_list s1 ! unat (int_code regs - 0x20)) s1
         else
           (let s2 = outb 0x20 I8259_S_CTL_IO s1
            in run_irq (irq_handler_list s2 ! unat (int_code regs - 0x28 + 8)) s2))"

definition int_handler :: "intr_regs \<Rightarrow> intr_state \<Rightarrow> action list \<times> intr_state" where
  "int_handler regs s =
     (case intr_handler_list s ! unat (int_code regs) of
        No_handler \<Rightarrow> ([], s)
      | Isr_handler \<Rightarrow> (isr_handler regs s, s)
      | Irq_handler \<Rightarrow> irq_handler regs s
      | Syscall_handler \<Rightarrow> ([Run_syscall (eax regs)], s))"

definition syscall_init :: "intr_state \<Rightarrow> intr_state" where
  "syscall_init s = reg_intr_handler 0xbe Syscall_handler (idt_attribute 0xbe DESC_DPL3 s)"

section \<open>What the processor reads in a descriptor\<close>

definition seg_base :: "segment_descriptor \<Rightarrow> u32" where
  "seg_base d = ucast (base_addr_1 d) OR push_bit 16 (ucast (base_addr_2 d)) OR push_bit 24 (ucast (base_addr_3 d))"

definition seg_limit :: "segment_descriptor \<Rightarrow> u32" where
  "seg_limit d = ucast (limit_1 d) OR push_bit 16 (ucast (drop_bit 8 (seg_attribute d) AND 0xf))"

definition gate_offset :: "gate_descriptor \<Rightarrow> u32" where
  "gate_offset d = ucast (offset_1 d) OR push_bit 16 (ucast (offset_2 d))"

lemma and_masks:
  "(x :: u32) AND 0xffff = take_bit 16 x" "(x :: u32) AND 0xff = take_bit 8 x"
  "(y :: u16) AND 0xffff = y" "(z :: u8) AND 0xff = z"
proof -
  show "x AND 0xffff = take_bit 16 x" "x AND 0xff = take_bit 8 x"
    by (simp_all add: take_bit_eq_mask mask_eq_exp_minus_1)
  have "(0xffff :: u16) = -1" "(0xff :: u8) = -1" by simp_all
  then show "y AND 0xffff = y" "z AND 0xff = z" by (metis and.right_neutral)+
qed

lemma set_segment_descriptor_base: "seg_base (set_segment_descriptor base limit attr) = base"
  unfolding seg_base_def set_segment_descriptor_def segment_descriptor.simps and_masks
proof (rule bit_word_eqI)
  fix n assume "n < LENGTH(32)"
  then consider "n < 16" | "16 \<le> n" "n < 24" | "24 \<le> n" "n < 32" by fastforce
  then show "bit (ucast (ucast (take_bit 16 base) :: u16) OR push_bit 16 (ucast (ucast (take_bit 8 (drop_bit 16 base)) :: u8)) OR
      push_bit 24 (ucast (ucast (take_bit 8 (drop_bit 24 base)) :: u8)) :: u32) n = bit base n"
    by cases (auto simp: bit_simps)
qed

lemma set_gate_descriptor_fields:
  "gate_offset (set_gate_descriptor sel off attr) = off"
  "gate_selector (set_gate_descriptor sel off attr) = sel"
  "gate_attribute (set_gate_descriptor sel off attr) = attr"
  "always0 (set_gate_descriptor sel off attr) = 0"
proof -
  show "gate_offset (set_gate_descriptor sel off attr) = off"
    unfolding gate_offset_def set_gate_descriptor_def gate_descriptor.simps and_masks
    by (rule bit_word_eqI) (auto simp: bit_simps)
qed (simp_all add: set_gate_descriptor_def and_masks)

text \<open>The attributes outside bits 8 to 11 are kept; bits 16 to 19 of the limit are bits 8 to 11 of
  the argument, not its bits 16 to 19.\<close>

lemma attribute_bits:
  assumes "n < 16"
  shows "bit (0xf0ff :: u16) n \<longleftrightarrow> \<not> (8 \<le> n \<and> n < 12)" "bit (0x0f00 :: u32) n \<longleftrightarrow> 8 \<le> n \<and> n < 12"
    "bit (0xf :: u16) n \<longleftrightarrow> n < 4"
proof -
  have "list_all (\<lambda>n. (bit (0xf0ff :: u16) n \<longleftrightarrow> \<not> (8 \<le> n \<and> n < 12)) \<and>
      (bit (0x0f00 :: u32) n \<longleftrightarrow> 8 \<le> n \<and> n < 12) \<and> (bit (0xf :: u16) n \<longleftrightarrow> n < 4)) [0..<16]" by code_simp
  with assms show "bit (0xf0ff :: u16) n \<longleftrightarrow> \<not> (8 \<le> n \<and> n < 12)"
    "bit (0x0f00 :: u32) n \<longleftrightarrow> 8 \<le> n \<and> n < 12" "bit (0xf :: u16) n \<longleftrightarrow> n < 4"
    by (simp_all add: list_all_iff)
qed

lemma set_segment_descriptor_attribute:
  assumes "n < 16" and "\<not> (8 \<le> n \<and> n < 12)"
  shows "bit (seg_attribute (set_segment_descriptor base limit attr)) n \<longleftrightarrow> bit attr n"
proof -
  have "bit (ucast (limit AND 0x0f00) :: u16) n \<longleftrightarrow> bit limit n \<and> bit (0x0f00 :: u32) n"
    using assms(1) by (simp only: bit_ucast_iff bit_and_iff) simp
  then show ?thesis
    using assms attribute_bits(1,2) [OF assms(1)]
    by (simp only: set_segment_descriptor_def segment_descriptor.simps bit_and_iff bit_or_iff) blast
qed

lemma set_segment_descriptor_limit:
  "seg_limit (set_segment_descriptor base limit attr) = take_bit 16 limit OR push_bit 16 (take_bit 4 (drop_bit 8 limit))"
proof (rule bit_word_eqI)
  fix n assume "n < LENGTH(32)"
  then have n: "n < 32" by simp
  show "bit (seg_limit (set_segment_descriptor base limit attr)) n \<longleftrightarrow>
      bit (take_bit 16 limit OR push_bit 16 (take_bit 4 (drop_bit 8 limit))) n"
  proof (cases "16 \<le> n")
    case True
    then obtain k where k: "n = 16 + k" using le_iff_add by blast
    with n have k16: "k < 16" by simp
    have "bit (drop_bit 8 (seg_attribute (set_segment_descriptor base limit attr)) AND 0xf) k \<longleftrightarrow>
        k < 4 \<and> bit limit (8 + k)"
    proof (cases "k < 4")
      case True
      then have "8 + k < 16" by simp
      then have "bit (ucast (limit AND 0x0f00) :: u16) (8 + k) \<longleftrightarrow> bit limit (8 + k) \<and> bit (0x0f00 :: u32) (8 + k)"
        by (simp only: bit_ucast_iff bit_and_iff) simp
      with attribute_bits(1,2) [OF \<open>8 + k < 16\<close>] attribute_bits(3) [OF k16] True show ?thesis
        by (simp only: set_segment_descriptor_def segment_descriptor.simps bit_and_iff bit_or_iff bit_drop_bit_eq
            o_apply add.commute [of k 8]) auto
    next
      case False
      with attribute_bits(3) [OF k16] show ?thesis by (simp add: bit_and_iff)
    qed
    with k k16 show ?thesis
      by (simp add: seg_limit_def bit_or_iff bit_push_bit_iff bit_ucast_iff bit_take_bit_iff bit_drop_bit_eq
          set_segment_descriptor_def)
  next
    case False
    then show ?thesis
      by (simp add: seg_limit_def set_segment_descriptor_def and_masks bit_or_iff bit_push_bit_iff bit_ucast_iff
          bit_take_bit_iff)
  qed
qed

text \<open>The kernel's segments start at 3G and are meant to be 1G long; their descriptors say 4G.\<close>

lemma gdt_kernel_limit:
  "seg_limit (fst (gdt_init g t) ! 1) = 0xfffff \<and> seg_limit (fst (gdt_init g t) ! 2) = 0xfffff \<and>
   seg_base (fst (gdt_init g t) ! 1) = PAGE_OFFSET"
  by (simp add: gdt_init_def set_segment_descriptor_limit set_segment_descriptor_base)

section \<open>Vectors\<close>

definition idt_gate :: "u32 \<Rightarrow> gate_descriptor" where
  "idt_gate base = set_gate_descriptor (selector 1 0) base (DESC_P OR DESC_D OR GATE_TYPE_INT)"

lemma set_intr_fold:
  assumes "a \<le> b" and "b \<le> 256" and "length (idt_list s) = 256"
  shows "fold (set_intr f) [a..<b] s =
    s\<lparr>idt_list := map (\<lambda>n. if a \<le> n \<and> n < b then idt_gate (f n) else idt_list s ! n) [0..<256]\<rparr>"
  using assms
proof (induction b)
  case 0
  have "idt_list s = map (\<lambda>n. idt_list s ! n) [0..<256]" using assms(3) by (metis map_nth)
  with 0 show ?case by simp
next
  case (Suc b)
  show ?case
  proof (cases "a \<le> b")
    case True
    have "(map (\<lambda>n. if a \<le> n \<and> n < b then idt_gate (f n) else idt_list s ! n) [0..<256])[b := idt_gate (f b)] =
        map (\<lambda>n. if a \<le> n \<and> n < Suc b then idt_gate (f n) else idt_list s ! n) [0..<256]"
      using True Suc.prems(2) by (intro nth_equalityI) (auto simp: nth_list_update less_Suc_eq)
    with True Suc show ?thesis by (simp add: set_intr_def idt_set_def idt_gate_def)
  next
    case False
    with Suc.prems(1) have "a = Suc b" by simp
    moreover have "idt_list s = map (\<lambda>n. idt_list s ! n) [0..<256]" using assms(3) by (metis map_nth)
    moreover have "map (\<lambda>n. if Suc b \<le> n \<and> n < Suc b then idt_gate (f n) else idt_list s ! n) [0..<256] =
        map (\<lambda>n. idt_list s ! n) [0..<256]" by auto
    ultimately show ?thesis by simp
  qed
qed

lemma idt_set_len [simp]:
  "length (idt_list (idt_set n b s)) = length (idt_list s)"
  by (simp add: idt_set_def)

lemma no_handler_fold:
  assumes "length (intr_handler_list s) = 256" and "k \<le> 256"
  shows "fold (\<lambda>i s. s\<lparr>intr_handler_list := (intr_handler_list s)[i := No_handler]\<rparr>) [0..<k] s =
    s\<lparr>intr_handler_list := map (\<lambda>i. if i < k then No_handler else intr_handler_list s ! i) [0..<256]\<rparr>"
  using assms(2)
proof (induction k)
  case 0
  have "intr_handler_list s = map (\<lambda>i. intr_handler_list s ! i) [0..<256]" using assms(1) by (metis map_nth)
  then show ?case by simp
next
  case (Suc k)
  have "(map (\<lambda>i. if i < k then No_handler else intr_handler_list s ! i) [0..<256])[k := No_handler] =
      map (\<lambda>i. if i < Suc k then No_handler else intr_handler_list s ! i) [0..<256]"
    using Suc.prems by (intro nth_equalityI) (auto simp: nth_list_update less_Suc_eq)
  with Suc show ?case by simp
qed

text \<open>\<open>stub_init\<close>: every vector has its gate and no handler.\<close>

lemma stub_init_eq:
  assumes "length (idt_list s) = 256" and "length (intr_handler_list s) = 256"
  shows "stub_init f s = s\<lparr>idt_list := map (\<lambda>n. idt_gate (f n)) [0..<256],
    intr_handler_list := replicate 256 No_handler\<rparr>"
proof -
  have h: "map (\<lambda>i. if i < 256 then No_handler else intr_handler_list s ! i) [0..<256] = replicate 256 No_handler"
    by (intro nth_equalityI) simp_all
  let ?s = "s\<lparr>intr_handler_list := replicate 256 No_handler\<rparr>"
  have "set_intr_low f ?s = ?s\<lparr>idt_list := map (\<lambda>n. if 0 \<le> n \<and> n < 0x70 then idt_gate (f n) else idt_list ?s ! n) [0..<256]\<rparr>"
    unfolding set_intr_low_def by (rule set_intr_fold) (simp_all add: assms)
  moreover have "set_intr_high f (?s\<lparr>idt_list := map (\<lambda>n. if 0 \<le> n \<and> n < 0x70 then idt_gate (f n) else idt_list ?s ! n) [0..<256]\<rparr>) =
      ?s\<lparr>idt_list := map (\<lambda>n. idt_gate (f n)) [0..<256]\<rparr>"
    unfolding set_intr_high_def by (subst set_intr_fold) (auto simp: nth_equalityI)
  ultimately show ?thesis
    using no_handler_fold [OF assms(2), of 256] h by (simp add: stub_init_def)
qed

text \<open>Registering handlers for a range of vectors.\<close>

lemma reg_intr_fields [simp]:
  "irq_handler_list (reg_intr_handler n h s) = irq_handler_list s" "idt_list (reg_intr_handler n h s) = idt_list s"
  "master_int_mask (reg_intr_handler n h s) = master_int_mask s" "slave_int_mask (reg_intr_handler n h s) = slave_int_mask s"
  "ports (reg_intr_handler n h s) = ports s"
  "length (intr_handler_list (reg_intr_handler n h s)) = length (intr_handler_list s)"
  "user_isr_set (reg_intr_handler n h s) = user_isr_set s" "timer_set (reg_intr_handler n h s) = timer_set s"
  by (simp_all add: reg_intr_handler_def)

lemma reg_intr_nth:
  "length (intr_handler_list s) = 256 \<Longrightarrow> v < 256 \<Longrightarrow>
     intr_handler_list (reg_intr_handler n h s) ! v = (if v = n then h else intr_handler_list s ! v)"
  by (auto simp: reg_intr_handler_def nth_list_update)

lemma isr_fold:
  fixes s :: intr_state and k :: nat
  assumes "length (intr_handler_list s) = 256"
  defines "t \<equiv> fold (\<lambda>i. reg_intr_handler i Isr_handler) [0..<k] s"
  shows "length (intr_handler_list t) = 256 \<and> idt_list t = idt_list s \<and>
    irq_handler_list t = irq_handler_list s \<and>
    (\<forall>v<256. intr_handler_list t ! v = (if v < k then Isr_handler else intr_handler_list s ! v))"
  unfolding t_def
proof (induction k)
  case 0
  with assms(1) show ?case by simp
next
  case (Suc k)
  then show ?case by (auto simp: reg_intr_nth less_Suc_eq)
qed

section \<open>Interrupt requests\<close>

lemma outb_fields [simp]:
  "idt_list (outb v p s) = idt_list s" "intr_handler_list (outb v p s) = intr_handler_list s"
  "irq_handler_list (outb v p s) = irq_handler_list s" "master_int_mask (outb v p s) = master_int_mask s"
  "slave_int_mask (outb v p s) = slave_int_mask s" "ports (outb v p s) = ports s @ [(p, v)]"
  "user_isr_set (outb v p s) = user_isr_set s" "timer_set (outb v p s) = timer_set s"
  "timer_tick (outb v p s) = timer_tick s"
  by (simp_all add: outb_def)

text \<open>An interrupt request that the masks let through.\<close>

definition irq_enabled :: "intr_state \<Rightarrow> nat \<Rightarrow> bool" where
  "irq_enabled s n \<longleftrightarrow> (if n < 8 then \<not> bit (master_int_mask s) n else \<not> bit (slave_int_mask s) (n - 8))"

text \<open>The last byte written to a port: what the mask registers of the controllers hold.\<close>

definition last_out :: "intr_state \<Rightarrow> u16 \<Rightarrow> u8 option" where
  "last_out s p = map_of (rev (ports s)) p"

lemma last_out_outb: "last_out (outb v q s) p = (if p = q then Some v else last_out s p)"
  by (simp add: last_out_def)

definition irq_inv :: "intr_state \<Rightarrow> bool" where
  "irq_inv s \<longleftrightarrow> length (irq_handler_list s) = 16 \<and> length (intr_handler_list s) = 256 \<and>
     last_out s I8259_M_SET_IO = Some (master_int_mask s) \<and> last_out s I8259_S_SET_IO = Some (slave_int_mask s)"

lemma last_out_update [simp]:
  "last_out (master_int_mask_update f s) p = last_out s p" "last_out (slave_int_mask_update f s) p = last_out s p"
  "last_out (irq_handler_list_update g s) p = last_out s p" "last_out (timer_set_update b s) p = last_out s p"
  "last_out (timer_tick_update b' s) p = last_out s p" "last_out (intr_on_update b s) p = last_out s p"
  by (simp_all add: last_out_def)

lemma reg_irq_correct:
  fixes s :: intr_state and n :: nat and h :: irq_handler
  assumes "irq_inv s" and "n < 16"
  defines "t \<equiv> reg_irq_handler n h s"
  shows "irq_inv t \<and> irq_handler_list t = (irq_handler_list s)[n := h] \<and>
    intr_handler_list t = intr_handler_list s \<and> idt_list t = idt_list s \<and>
    (\<forall>k<16. irq_enabled t k \<longleftrightarrow> k = n \<or> irq_enabled s k)"
proof -
  have e: "\<forall>k<16. irq_enabled t k \<longleftrightarrow> k = n \<or> irq_enabled s k"
  proof (intro allI impI)
    fix k :: nat assume "k < 16"
    show "irq_enabled t k \<longleftrightarrow> k = n \<or> irq_enabled s k"
    proof (cases "n < 8")
      case True
      then show ?thesis
        using \<open>k < 16\<close> bit_clear_push [of k "master_int_mask s" n]
        by (auto simp: t_def reg_irq_handler_def irq_enabled_def Let_def)
    next
      case False
      then show ?thesis
        using \<open>k < 16\<close> assms(2) bit_clear_push [of "k - 8" "slave_int_mask s" "n - 8"]
        by (auto simp: t_def reg_irq_handler_def irq_enabled_def Let_def)
    qed
  qed
  moreover have "irq_inv t"
    using assms(1,2) by (auto simp: t_def irq_inv_def reg_irq_handler_def Let_def last_out_outb)
  ultimately show ?thesis using assms(2) by (simp add: t_def reg_irq_handler_def Let_def)
qed

definition init_irq_step :: "nat \<Rightarrow> intr_state \<Rightarrow> intr_state" where
  "init_irq_step i s = reg_intr_handler (S_INT_VECTOR + i) Irq_handler
     (reg_intr_handler (M_INT_VECTOR + i) Irq_handler
       (s\<lparr>irq_handler_list := (irq_handler_list s)[i := No_irq, i + 8 := No_irq]\<rparr>))"

lemma init_irq_fold:
  fixes s :: intr_state and k :: nat
  assumes "length (irq_handler_list s) = 16" and "length (intr_handler_list s) = 256" and "k \<le> 8"
  defines "t \<equiv> fold init_irq_step [0..<k] s"
  shows "length (irq_handler_list t) = 16 \<and> length (intr_handler_list t) = 256 \<and> idt_list t = idt_list s \<and>
    master_int_mask t = master_int_mask s \<and> slave_int_mask t = slave_int_mask s \<and>
    (\<forall>i<16. i mod 8 < k \<longrightarrow> irq_handler_list t ! i = No_irq) \<and>
    (\<forall>v<256. intr_handler_list t ! v =
       (if 32 \<le> v \<and> v < 32 + k \<or> 40 \<le> v \<and> v < 40 + k then Irq_handler else intr_handler_list s ! v))"
  using assms(3) unfolding t_def
proof (induction k)
  case 0
  with assms show ?case by auto
next
  case (Suc k)
  let ?u = "fold init_irq_step [0..<k] s"
  have IH: "length (irq_handler_list ?u) = 16" "length (intr_handler_list ?u) = 256" "idt_list ?u = idt_list s"
    "master_int_mask ?u = master_int_mask s" "slave_int_mask ?u = slave_int_mask s"
    "\<And>i. i < 16 \<Longrightarrow> i mod 8 < k \<Longrightarrow> irq_handler_list ?u ! i = No_irq"
    "\<And>v. v < 256 \<Longrightarrow> intr_handler_list ?u ! v =
       (if 32 \<le> v \<and> v < 32 + k \<or> 40 \<le> v \<and> v < 40 + k then Irq_handler else intr_handler_list s ! v)"
    using Suc by auto
  have "irq_handler_list (init_irq_step k ?u) ! i = No_irq" if "i < 16" "i mod 8 < Suc k" for i
  proof (cases "i = k \<or> i = k + 8")
    case True
    with Suc.prems IH(1) show ?thesis by (auto simp: init_irq_step_def nth_list_update)
  next
    case False
    have "i mod 8 \<noteq> k"
    proof
      assume "i mod 8 = k"
      with \<open>i < 16\<close> have "i = k \<or> i = k + 8" by (cases "i < 8") (auto simp: le_mod_geq)
      with False show False by simp
    qed
    with that IH(6) False show ?thesis by (auto simp: init_irq_step_def nth_list_update less_Suc_eq)
  qed
  moreover have "intr_handler_list (init_irq_step k ?u) ! v =
      (if 32 \<le> v \<and> v < 32 + Suc k \<or> 40 \<le> v \<and> v < 40 + Suc k then Irq_handler else intr_handler_list s ! v)"
    if "v < 256" for v
    using that IH(2) IH(7) [OF that] Suc.prems by (auto simp: init_irq_step_def reg_intr_nth)
  moreover have "length (irq_handler_list (init_irq_step k x)) = length (irq_handler_list x)"
    "length (intr_handler_list (init_irq_step k x)) = length (intr_handler_list x)"
    "idt_list (init_irq_step k x) = idt_list x" "master_int_mask (init_irq_step k x) = master_int_mask x"
    "slave_int_mask (init_irq_step k x) = slave_int_mask x" for x
    by (simp_all add: init_irq_step_def)
  ultimately show ?case using IH by auto
qed

lemma init_8259A_correct:
  fixes s :: intr_state
  assumes "length (irq_handler_list s) = 16" and "length (intr_handler_list s) = 256"
  defines "t \<equiv> init_8259A s"
  shows "irq_inv t \<and> idt_list t = idt_list s \<and> (\<forall>n<16. irq_handler_list t ! n = No_irq \<and> (irq_enabled t n \<longleftrightarrow> n = 2)) \<and>
    (\<forall>v<256. intr_handler_list t ! v = (if 32 \<le> v \<and> v < 48 then Irq_handler else intr_handler_list s ! v))"
proof -
  define s1 where "s1 = s\<lparr>master_int_mask := 0xff, slave_int_mask := 0xff\<rparr>"
  define u where "u = fold init_irq_step [0..<8] s1"
  have u: "length (irq_handler_list u) = 16" "length (intr_handler_list u) = 256" "idt_list u = idt_list s"
    "master_int_mask u = 0xff" "slave_int_mask u = 0xff" "\<And>n. n < 16 \<Longrightarrow> irq_handler_list u ! n = No_irq"
    "\<And>v. v < 256 \<Longrightarrow> intr_handler_list u ! v = (if 32 \<le> v \<and> v < 48 then Irq_handler else intr_handler_list s ! v)"
    using init_irq_fold [of s1 8] assms(1,2) by (auto simp: u_def s1_def)
  define x where "x = outb (slave_int_mask u) I8259_S_SET_IO (outb (master_int_mask u) I8259_M_SET_IO
    (outb 0x01 I8259_S_SET_IO (outb 0x01 I8259_M_SET_IO (outb 0x02 I8259_S_SET_IO (outb 0x04 I8259_M_SET_IO
      (outb 0x28 I8259_S_SET_IO (outb 0x20 I8259_M_SET_IO (outb 0x11 I8259_S_CTL_IO (outb 0x11 I8259_M_CTL_IO u)))))))))"
  have t: "t = reg_irq_handler 2 No_irq x"
    unfolding t_def init_8259A_def x_def u_def s1_def init_irq_step_def [abs_def] by (simp add: Let_def)
  have x: "irq_inv x" using u by (simp add: irq_inv_def x_def last_out_outb)
  have dis: "\<not> irq_enabled x n" if "n < 16" for n
  proof -
    have "list_all (\<lambda>m. bit (0xff :: u8) m) [0..<8]" by code_simp
    then have "bit (0xff :: u8) m" if "m < 8" for m using that by (simp add: list_all_iff)
    moreover have "n - 8 < 8" using \<open>n < 16\<close> by simp
    ultimately show ?thesis
      using u(4,5) that by (simp add: irq_enabled_def x_def)
  qed
  note r = reg_irq_correct [of x 2 No_irq, folded t, OF x]
  have "irq_handler_list t ! n = No_irq" if "n < 16" for n
    using r u(1,6) that by (auto simp: x_def nth_list_update)
  moreover have "irq_enabled t n \<longleftrightarrow> n = 2" if "n < 16" for n
    using r dis that by auto
  ultimately show ?thesis using r u by (auto simp: x_def)
qed

text \<open>The kernel's start-up: tables and controllers, the drivers' registrations, system calls.\<close>

definition boot_intr :: "u32 \<Rightarrow> (nat \<Rightarrow> u32) \<Rightarrow> (nat \<times> irq_handler) list \<Rightarrow> intr_state \<Rightarrow> intr_state" where
  "boot_intr idt_addr stubs rs s =
     syscall_init (fold (\<lambda>(n, h). reg_irq_handler n h) rs (intr_init idt_addr stubs s))"

lemma reg_irq_fold:
  fixes s :: intr_state
  assumes "irq_inv s" and "\<And>n h. (n, h) \<in> set rs \<Longrightarrow> n < 16"
  defines "t \<equiv> fold (\<lambda>(n, h). reg_irq_handler n h) rs s"
  shows "irq_inv t \<and> intr_handler_list t = intr_handler_list s \<and> idt_list t = idt_list s \<and>
    (\<forall>k<16. irq_handler_list t ! k = (case map_of (rev rs) k of None \<Rightarrow> irq_handler_list s ! k | Some h \<Rightarrow> h) \<and>
       (irq_enabled t k \<longleftrightarrow> k \<in> fst ` set rs \<or> irq_enabled s k))"
  using assms(2) unfolding t_def
proof (induction rs rule: rev_induct)
  case Nil
  with assms(1) show ?case by simp
next
  case (snoc r rs)
  obtain n h where r: "r = (n, h)" by (cases r)
  let ?u = "fold (\<lambda>(n, h). reg_irq_handler n h) rs s"
  have IH: "irq_inv ?u" "intr_handler_list ?u = intr_handler_list s" "idt_list ?u = idt_list s"
    "\<And>k. k < 16 \<Longrightarrow> irq_handler_list ?u ! k = (case map_of (rev rs) k of None \<Rightarrow> irq_handler_list s ! k | Some h \<Rightarrow> h)"
    "\<And>k. k < 16 \<Longrightarrow> irq_enabled ?u k \<longleftrightarrow> k \<in> fst ` set rs \<or> irq_enabled s k"
    using snoc by auto
  have n: "n < 16" using snoc.prems r by auto
  note c = reg_irq_correct [OF IH(1) n, of h]
  have l: "length (irq_handler_list ?u) = 16" using IH(1) by (simp add: irq_inv_def)
  have "irq_handler_list (reg_irq_handler n h ?u) ! k =
      (case map_of (rev (rs @ [r])) k of None \<Rightarrow> irq_handler_list s ! k | Some h \<Rightarrow> h)" if "k < 16" for k
    using c that n l IH(4) [OF that] r by (auto simp: nth_list_update)
  moreover have "irq_enabled (reg_irq_handler n h ?u) k \<longleftrightarrow> k \<in> fst ` set (rs @ [r]) \<or> irq_enabled s k" if "k < 16" for k
    using c that IH(5) [OF that] r by auto
  ultimately show ?case using c IH(2,3) r by simp
qed

lemma intr_init_correct:
  fixes s :: intr_state and a :: u32 and stubs :: "nat \<Rightarrow> u32"
  assumes "length (idt_list s) = 256" and "length (intr_handler_list s) = 256" and "length (irq_handler_list s) = 16"
  defines "t \<equiv> intr_init a stubs s"
  shows "irq_inv t \<and> idt_list t = map (\<lambda>n. idt_gate (stubs n)) [0..<256] \<and>
    (\<forall>n<16. irq_handler_list t ! n = No_irq \<and> (irq_enabled t n \<longleftrightarrow> n = 2)) \<and>
    (\<forall>v<256. intr_handler_list t ! v =
       (if v < 20 then Isr_handler else if 32 \<le> v \<and> v < 48 then Irq_handler else No_handler))"
proof -
  define x where "x = isr_int (stub_init stubs (idt_init a s))"
  have "stub_init stubs (idt_init a s) = (idt_init a s)\<lparr>idt_list := map (\<lambda>n. idt_gate (stubs n)) [0..<256],
    intr_handler_list := replicate 256 No_handler\<rparr>"
    using assms by (intro stub_init_eq) (simp_all add: idt_init_def)
  then have x: "length (intr_handler_list x) = 256" "idt_list x = map (\<lambda>n. idt_gate (stubs n)) [0..<256]"
    "\<And>v. v < 256 \<Longrightarrow> intr_handler_list x ! v = (if v < 20 then Isr_handler else No_handler)"
    "irq_handler_list x = irq_handler_list s"
    using isr_fold [of "(stub_init stubs (idt_init a s))\<lparr>user_isr_set := False\<rparr>" 20]
    by (auto simp: x_def isr_int_def idt_init_def)
  have t: "t = (init_8259A x)\<lparr>intr_on := True\<rparr>"
    by (simp add: t_def intr_init_def x_def)
  note c = init_8259A_correct [of x, unfolded x(4), OF assms(3) x(1)]
  have "irq_inv t \<longleftrightarrow> irq_inv (init_8259A x)" "irq_enabled t n \<longleftrightarrow> irq_enabled (init_8259A x) n" for n
    by (simp_all add: t irq_inv_def irq_enabled_def)
  with c x show ?thesis by (auto simp: t)
qed

lemma syscall_init_fields:
  assumes "length (idt_list s) = 256" and "length (intr_handler_list s) = 256"
  shows "irq_inv (syscall_init s) \<longleftrightarrow> irq_inv s" "irq_handler_list (syscall_init s) = irq_handler_list s"
    "irq_enabled (syscall_init s) n \<longleftrightarrow> irq_enabled s n"
    "v < 256 \<Longrightarrow> intr_handler_list (syscall_init s) ! v = (if v = 0xbe then Syscall_handler else intr_handler_list s ! v)"
    "v < 256 \<Longrightarrow> idt_list (syscall_init s) ! v = (if v = 0xbe then (idt_list s ! v)
        \<lparr>gate_attribute := gate_attribute (idt_list s ! v) OR DESC_DPL3\<rparr> else idt_list s ! v)"
    "timer_set (syscall_init s) = timer_set s" "user_isr_set (syscall_init s) = user_isr_set s"
    "timer_tick (syscall_init s) = timer_tick s"
  using assms by (auto simp: syscall_init_def idt_attribute_def reg_intr_handler_def irq_inv_def irq_enabled_def
      last_out_def nth_list_update)

lemma boot_intr_correct:
  fixes s :: intr_state and a :: u32 and stubs :: "nat \<Rightarrow> u32"
  assumes "length (idt_list s) = 256" and "length (intr_handler_list s) = 256" and "length (irq_handler_list s) = 16"
    and "\<And>n h. (n, h) \<in> set rs \<Longrightarrow> n < 16"
  defines "t \<equiv> boot_intr a stubs rs s"
  shows "irq_inv t \<and>
    (\<forall>n<16. irq_handler_list t ! n = (case map_of (rev rs) n of None \<Rightarrow> No_irq | Some h \<Rightarrow> h) \<and>
       (irq_enabled t n \<longleftrightarrow> n = 2 \<or> n \<in> fst ` set rs)) \<and>
    (\<forall>v<256. intr_handler_list t ! v = (if v < 20 then Isr_handler else if 32 \<le> v \<and> v < 48 then Irq_handler
         else if v = 0xbe then Syscall_handler else No_handler) \<and>
       gate_offset (idt_list t ! v) = stubs v \<and> gate_selector (idt_list t ! v) = 8 \<and>
       gate_attribute (idt_list t ! v) = (if v = 0xbe then 0xee else 0x8e))"
proof -
  note i = intr_init_correct [OF assms(1-3), of a stubs]
  define x where "x = fold (\<lambda>(n, h). reg_irq_handler n h) rs (intr_init a stubs s)"
  have r: "irq_inv x \<and> intr_handler_list x = intr_handler_list (intr_init a stubs s) \<and>
    idt_list x = idt_list (intr_init a stubs s) \<and>
    (\<forall>k<16. irq_handler_list x ! k = (case map_of (rev rs) k of
         None \<Rightarrow> irq_handler_list (intr_init a stubs s) ! k | Some h \<Rightarrow> h) \<and>
       (irq_enabled x k \<longleftrightarrow> k \<in> fst ` set rs \<or> irq_enabled (intr_init a stubs s) k))"
    unfolding x_def using i assms(4) by (intro reg_irq_fold) blast+
  have l: "length (idt_list x) = 256" "length (intr_handler_list x) = 256" using r i by (simp_all add: irq_inv_def)
  have t: "t = syscall_init x" by (simp add: t_def boot_intr_def x_def)
  have "irq_handler_list t ! n = (case map_of (rev rs) n of None \<Rightarrow> No_irq | Some h \<Rightarrow> h)"
    "irq_enabled t n \<longleftrightarrow> n = 2 \<or> n \<in> fst ` set rs" if "n < 16" for n
    using r i that unfolding t syscall_init_fields [OF l] by (auto split: option.splits)
  moreover have "intr_handler_list t ! v = (if v < 20 then Isr_handler else if 32 \<le> v \<and> v < 48 then Irq_handler
         else if v = 0xbe then Syscall_handler else No_handler)" if "v < 256" for v
    using r i that unfolding t syscall_init_fields(4) [OF l that] by auto
  moreover have "gate_offset (idt_list t ! v) = stubs v \<and> gate_selector (idt_list t ! v) = 8 \<and>
       gate_attribute (idt_list t ! v) = (if v = 0xbe then 0xee else 0x8e)" if "v < 256" for v
  proof -
    have "idt_list x ! v = idt_gate (stubs v)" using r i that by simp
    moreover have "gate_offset (d\<lparr>gate_attribute := b\<rparr>) = gate_offset d" for d b
      by (simp add: gate_offset_def)
    ultimately show ?thesis
      unfolding t syscall_init_fields(5) [OF l that]
      by (cases "v = 0xbe") (auto simp: idt_gate_def set_gate_descriptor_fields selector_def)
  qed
  moreover have "irq_inv t" using r unfolding t syscall_init_fields(1) [OF l] by blast
  ultimately show ?thesis by blast
qed

lemma int_handler_vector:
  assumes "unat (int_code regs) = v" and "intr_handler_list s ! v = h"
  shows "int_handler regs s = (case h of No_handler \<Rightarrow> ([], s) | Isr_handler \<Rightarrow> (isr_handler regs s, s)
    | Irq_handler \<Rightarrow> irq_handler regs s | Syscall_handler \<Rightarrow> ([Run_syscall (eax regs)], s))"
  using assms by (simp add: int_handler_def)

lemma irq_handler_vector:
  assumes "unat (int_code regs) = 32 + n" and "n < 16" and "timer_set s"
  shows "fst (irq_handler regs s) = (case irq_handler_list s ! n of No_irq \<Rightarrow> [] | Timer_irq \<Rightarrow> [Run_timer (timer_tick s)]
    | Keyboard_irq \<Rightarrow> [Run_keyboard] | Ata_irq k \<Rightarrow> [Run_ata k])"
proof (cases "n < 8")
  case True
  then have "int_code regs < 0x28" using assms(1) by (simp add: word_less_nat_alt)
  moreover have "unat (int_code regs - 0x20) = n" using assms(1) by (simp add: unat_sub32 word_le_nat_alt)
  ultimately show ?thesis
    using assms(3) by (simp add: irq_handler_def run_irq_def irq0_handler_def Let_def split: irq_handler.split)
next
  case False
  then have l: "\<not> int_code regs < 0x28" using assms(1) by (simp add: word_less_nat_alt)
  have "unat (int_code regs - 0x28) = n - 8" using assms(1) False by (simp add: unat_sub32 word_le_nat_alt)
  then have "unat (int_code regs - 0x28 + 8) = n"
    using assms(2) False unat_add32 [of "int_code regs - 0x28" 8] by simp
  with l show ?thesis
    using assms(3) by (simp add: irq_handler_def run_irq_def irq0_handler_def Let_def split: irq_handler.split)
qed

text \<open>The tables before the start.\<close>

definition intr_sample :: intr_state where
  "intr_sample = \<lparr>idt_list = replicate 256 (set_gate_descriptor 0 0 0), idt_ptr = load_idt 0 0,
     intr_handler_list = replicate 256 No_handler, irq_handler_list = replicate 16 No_irq,
     master_int_mask = 0, slave_int_mask = 0, user_isr_set = False, timer_set = False, timer_tick = 0,
     ports = [], intr_on = False\<rparr>"

end
