(* ===== verification/Stub.thy ===== *)
theory Stub
  imports Interrupts
begin

text \<open>
  The entry points of the interrupts, \<open>src/kernel/intr/intstub.S\<close>, and the other assembly of the kernel: \<open>mm_flush\<close>
  (\<open>src/kernel/mm/flush.S\<close>), \<open>_kernel_init\<close> (\<open>src/kernel/init.S\<close>) and \<open>_start\<close> (\<open>src/boot/multiboot/head.S\<close>).
  The state is the processor with the words of the kernel's stack segment; each instruction is a function on it.
  C functions that are called are parameters.
\<close>

section \<open>The processor\<close>

record cpu =
  r_eax :: u32
  r_ecx :: u32
  r_edx :: u32
  r_ebx :: u32
  r_esp :: u32
  r_ebp :: u32
  r_esi :: u32
  r_edi :: u32
  r_eip :: u32
  r_eflags :: u32
  r_cs :: u16
  r_ss :: u16
  r_ds :: u16
  r_es :: u16
  r_fs :: u16
  r_gs :: u16
  r_cr0 :: u32
  stack :: "u32 \<Rightarrow> u32"

abbreviation IF_FLAG :: u32 where "IF_FLAG \<equiv> 0x200"

definition push :: "u32 \<Rightarrow> cpu \<Rightarrow> cpu" where
  "push v c = c\<lparr>r_esp := r_esp c - 4, stack := (stack c)(r_esp c - 4 := v)\<rparr>"

definition pop :: "cpu \<Rightarrow> u32 \<times> cpu" where
  "pop c = (stack c (r_esp c), c\<lparr>r_esp := r_esp c + 4\<rparr>)"

definition pusha :: "cpu \<Rightarrow> cpu" where
  "pusha c =
     push (r_edi c) (push (r_esi c) (push (r_ebp c) (push (r_esp c) (push (r_ebx c) (push (r_edx c)
       (push (r_ecx c) (push (r_eax c) c)))))))"

definition popa :: "cpu \<Rightarrow> cpu" where
  "popa c =
     (let (di, c) = pop c; (si, c) = pop c; (bp, c) = pop c; (_, c) = pop c;
          (bx, c) = pop c; (dx, c) = pop c; (cx, c) = pop c; (ax, c) = pop c
      in c\<lparr>r_edi := di, r_esi := si, r_ebp := bp, r_ebx := bx, r_edx := dx, r_ecx := cx, r_eax := ax\<rparr>)"

definition cli :: "cpu \<Rightarrow> cpu" where
  "cli c = c\<lparr>r_eflags := r_eflags c AND NOT IF_FLAG\<rparr>"

definition popf :: "cpu \<Rightarrow> cpu" where
  "popf c = (case pop c of (v, c) \<Rightarrow> c\<lparr>r_eflags := v\<rparr>)"

text \<open>\<open>movw\<close> of one selector to the data segments.\<close>

definition set_data_segments :: "u16 \<Rightarrow> cpu \<Rightarrow> cpu" where
  "set_data_segments x c = c\<lparr>r_ds := x, r_es := x, r_fs := x, r_gs := x\<rparr>"

text \<open>Setting the lower half of a register.\<close>

definition low_half :: "u32 \<Rightarrow> u16 \<Rightarrow> u32" where
  "low_half r x = (r AND 0xffff0000) OR ucast x"

definition iret :: "cpu \<Rightarrow> cpu" where
  "iret c =
     (let (ip, c1) = pop c; (code, c2) = pop c1; (fl, c3) = pop c2;
          c4 = c3\<lparr>r_eip := ip, r_cs := ucast code, r_eflags := fl\<rparr>
      in if r_cs c4 AND 3 \<noteq> r_cs c AND 3
         then (let (sp, c5) = pop c4; (sg, c6) = pop c5 in c6\<lparr>r_esp := sp, r_ss := ucast sg\<rparr>)
         else c4)"

text \<open>What the processor does before the entry point: from another privilege level it changes to the stack of the
  task state segment; the gate is an interrupt gate; \<open>err\<close> is the error code, when the exception has one.\<close>

definition deliver :: "gate_descriptor \<Rightarrow> u16 \<Rightarrow> u32 \<Rightarrow> u32 option \<Rightarrow> cpu \<Rightarrow> cpu" where
  "deliver gate kss kesp err c =
     (let c1 = (if r_cs c AND 3 \<noteq> 0
                then push (r_esp c) (push (ucast (r_ss c)) (c\<lparr>r_ss := kss, r_esp := kesp\<rparr>)) else c);
          c2 = push (r_eip c) (push (ucast (r_cs c)) (push (r_eflags c) c1));
          c3 = (case err of None \<Rightarrow> c2 | Some e \<Rightarrow> push e c2)
      in c3\<lparr>r_cs := gate_selector gate, r_eip := gate_offset gate, r_eflags := r_eflags c AND NOT 0x4300\<rparr>)"

section \<open>\<open>intstub.S\<close>\<close>

text \<open>\<open>handler\<close> is \<open>int_handler\<close> with everything under it, called with the address of the frame on the stack.\<close>

definition int_stub :: "(cpu \<Rightarrow> cpu) \<Rightarrow> cpu \<Rightarrow> cpu" where
  "int_stub handler c =
     (let c1 = pusha c;
          c2 = c1\<lparr>r_eax := low_half (r_eax c1) (r_ds c1)\<rparr>;
          c3 = push (r_eax c2) c2;
          c4 = c3\<lparr>r_eax := low_half (r_eax c3) (selector 2 0)\<rparr>;
          c5 = (set_data_segments (ucast (r_eax c4)) c4)\<lparr>r_ss := ucast (r_eax c4)\<rparr>;
          c6 = handler (push (r_esp c5) c5);
          c7 = c6\<lparr>r_esp := r_esp c6 + 4\<rparr>;
          (bx, c8) = pop c7;
          c9 = popa (set_data_segments (ucast bx) (c8\<lparr>r_ebx := bx\<rparr>))
      in iret (c9\<lparr>r_esp := r_esp c9 + 8\<rparr>))"

definition int_entry :: "(cpu \<Rightarrow> cpu) \<Rightarrow> u32 \<Rightarrow> cpu \<Rightarrow> cpu" where
  "int_entry handler n c = int_stub handler (push n (push 0 (cli c)))"

definition inte_entry :: "(cpu \<Rightarrow> cpu) \<Rightarrow> u32 \<Rightarrow> cpu \<Rightarrow> cpu" where
  "inte_entry handler n c = int_stub handler (push n (cli c))"

text \<open>The vectors of the macro \<open>inte\<close>; all others are \<open>int\<close>.\<close>

definition inte_vectors :: "u32 list" where
  "inte_vectors = [0x08, 0x0a, 0x0b, 0x0c, 0x0d, 0x0e, 0x11]"

definition int_vector :: "(cpu \<Rightarrow> cpu) \<Rightarrow> u32 \<Rightarrow> cpu \<Rightarrow> cpu" where
  "int_vector handler n = (if n \<in> set inte_vectors then inte_entry handler n else int_entry handler n)"

section \<open>Entering the kernel\<close>

definition mm_flush :: "cpu \<Rightarrow> cpu" where
  "mm_flush c =
     (let c1 = c\<lparr>r_eax := r_cr0 c OR 0x80000000\<rparr>; c2 = c1\<lparr>r_cr0 := r_eax c1\<rparr>;
          c3 = c2\<lparr>r_eax := low_half (r_eax c2) (selector 2 0)\<rparr>;
          c4 = (set_data_segments (ucast (r_eax c3)) c3)\<lparr>r_ss := ucast (r_eax c3), r_cs := selector 1 0\<rparr>;
          (ret, c5) = pop c4
      in c5\<lparr>r_eip := ret\<rparr>)"

text \<open>Up to the call of \<open>kernel_init\<close> and of \<open>_multiboot_init\<close>, whose arguments are on the stack.\<close>

definition kernel_entry :: "u32 \<Rightarrow> cpu \<Rightarrow> cpu" where
  "kernel_entry init_kernel_stack c = popf (push 0 (c\<lparr>r_esp := init_kernel_stack + KERNEL_STACK_SIZE\<rparr>))"

definition start :: "cpu \<Rightarrow> cpu" where
  "start c = (let c1 = (cli c)\<lparr>r_esp := 0x7c00\<rparr> in push (r_eax c1) (push (r_ebx c1) c1))"

section \<open>The frame\<close>

text \<open>The structure \<open>intr_regs_t\<close> at an address.\<close>

definition regs_at :: "(u32 \<Rightarrow> u32) \<Rightarrow> u32 \<Rightarrow> intr_regs" where
  "regs_at m a =
     \<lparr>ds = m a, edi = m (a + 4), esi = m (a + 8), ebp = m (a + 12), esp = m (a + 16), ebx = m (a + 20),
      edx = m (a + 24), ecx = m (a + 28), eax = m (a + 32), int_code = m (a + 36), err_code = m (a + 40),
      eip = m (a + 44), cs = m (a + 48), eflags = m (a + 52), useresp = m (a + 56), ss = m (a + 60)\<rparr>"

text \<open>What the handler finds in it.  Of code that ran in the kernel the last two fields are not stored: they are
  what lies on its stack.\<close>

definition frame_of :: "u32 \<Rightarrow> u32 option \<Rightarrow> u32 \<Rightarrow> cpu \<Rightarrow> intr_regs" where
  "frame_of v err kesp c =
     \<lparr>ds = low_half (r_eax c) (r_ds c), edi = r_edi c, esi = r_esi c, ebp = r_ebp c,
      esp = (if r_cs c AND 3 \<noteq> 0 then kesp - 28 else r_esp c - 20), ebx = r_ebx c, edx = r_edx c, ecx = r_ecx c,
      eax = r_eax c, int_code = v, err_code = (case err of None \<Rightarrow> 0 | Some e \<Rightarrow> e), eip = r_eip c,
      cs = ucast (r_cs c), eflags = r_eflags c,
      useresp = (if r_cs c AND 3 \<noteq> 0 then r_esp c else stack c (r_esp c)),
      ss = (if r_cs c AND 3 \<noteq> 0 then ucast (r_ss c) else stack c (r_esp c + 4))\<rparr>"

text \<open>A C function that changes \<open>eax\<close> of the frame that its argument points to: it gives the stack pointer back and
  runs at the level of the kernel.  What it does below its argument and to other memory is its own.\<close>

definition changes_eax :: "(intr_regs \<Rightarrow> u32) \<Rightarrow> (cpu \<Rightarrow> cpu) \<Rightarrow> bool" where
  "changes_eax G handler \<longleftrightarrow>
     (\<forall>c. r_esp (handler c) = r_esp c \<and> r_cs (handler c) = r_cs c \<and> r_ss (handler c) = r_ss c \<and> r_cr0 (handler c) = r_cr0 c \<and>
        (let a = stack c (r_esp c); r = regs_at (stack c) a in regs_at (stack (handler c)) a = r\<lparr>eax := G r\<rparr>))"

lemma sub_steps:
  fixes x :: u32
  shows "x - a - b = x - (a + b)" "x - a + b = x - (a - b)" "(x - a = x - b) = (a = b)" "(x - a = x) = (a = 0)" "(x = x - a) = (a = 0)"
  by (auto simp: algebra_simps)

lemma low_half_ucast [simp]: "(ucast (low_half r x) :: u16) = x"
proof (rule bit_word_eqI)
  fix n assume "n < LENGTH(16)"
  then have n: "n < 16" by simp
  then have "\<not> bit (0xffff0000 :: u32) n" by (auto simp: numeral_eq_Suc less_Suc_eq)
  with n show "bit (ucast (low_half r x) :: u16) n = bit x n" by (simp add: low_half_def bit_simps)
qed

lemma ucast_half [simp]: "(ucast (ucast (x :: u16) :: u32) :: u16) = x"
  by (rule bit_word_eqI) (auto simp: bit_simps)

lemma c_call:
  assumes "changes_eax G h"
  shows "r_esp (h c) = r_esp c" "r_cs (h c) = r_cs c" "r_ss (h c) = r_ss c" "r_cr0 (h c) = r_cr0 c"
    "stack c (r_esp c) = a \<Longrightarrow> regs_at (stack (h c)) a = (regs_at (stack c) a)\<lparr>eax := G (regs_at (stack c) a)\<rparr>"
  using assms by (auto simp: changes_eax_def Let_def)

text \<open>The part of \<open>int_stub\<close> before the call.\<close>

definition enter :: "cpu \<Rightarrow> cpu" where
  "enter c =
     (let c1 = pusha c;
          c2 = c1\<lparr>r_eax := low_half (r_eax c1) (r_ds c1)\<rparr>;
          c3 = push (r_eax c2) c2;
          c4 = c3\<lparr>r_eax := low_half (r_eax c3) (selector 2 0)\<rparr>;
          c5 = (set_data_segments (ucast (r_eax c4)) c4)\<lparr>r_ss := ucast (r_eax c4)\<rparr>
      in push (r_esp c5) c5)"

text \<open>The part after it.\<close>

definition leave :: "cpu \<Rightarrow> cpu" where
  "leave c =
     (let c7 = c\<lparr>r_esp := r_esp c + 4\<rparr>; (bx, c8) = pop c7;
          c9 = popa (set_data_segments (ucast bx) (c8\<lparr>r_ebx := bx\<rparr>))
      in iret (c9\<lparr>r_esp := r_esp c9 + 8\<rparr>))"

lemma int_stub_parts: "int_stub h c = leave (h (enter c))"
  by (simp only: int_stub_def enter_def leave_def Let_def)

lemma popa_regs:
  assumes "r_esp c = a + 4"
  shows "popa c = (let r = regs_at (stack c) a in
     c\<lparr>r_edi := edi r, r_esi := esi r, r_ebp := ebp r, r_ebx := ebx r, r_edx := edx r, r_ecx := ecx r, r_eax := eax r,
       r_esp := a + 36\<rparr>)"
  using assms by (cases c) (simp add: popa_def pop_def regs_at_def Let_def add.assoc)

lemma iret_regs:
  assumes "r_esp c = a + 44" and "r = regs_at (stack c) a"
  shows "iret c = c\<lparr>r_eip := eip r, r_cs := ucast (cs r), r_eflags := eflags r,
    r_esp := (if ucast (cs r) AND 3 \<noteq> r_cs c AND (3 :: u16) then useresp r else a + 56),
    r_ss := (if ucast (cs r) AND 3 \<noteq> r_cs c AND (3 :: u16) then ucast (ss r) else r_ss c)\<rparr>"
  using assms by (cases c) (simp add: iret_def pop_def regs_at_def Let_def add.assoc)

text \<open>What \<open>leave\<close> restores, from the frame.\<close>

lemma leave_frame:
  assumes "r_esp c = a - 4" and "r = regs_at (stack c) a"
  shows "leave c = c\<lparr>r_eax := eax r, r_ecx := ecx r, r_edx := edx r, r_ebx := ebx r, r_ebp := ebp r, r_esi := esi r,
    r_edi := edi r, r_eip := eip r, r_cs := ucast (cs r), r_eflags := eflags r,
    r_ds := ucast (ds r), r_es := ucast (ds r), r_fs := ucast (ds r), r_gs := ucast (ds r),
    r_esp := (if ucast (cs r) AND 3 \<noteq> r_cs c AND (3 :: u16) then useresp r else a + 56),
    r_ss := (if ucast (cs r) AND 3 \<noteq> r_cs c AND (3 :: u16) then ucast (ss r) else r_ss c)\<rparr>"
proof -
  define d where "d = set_data_segments (ucast (ds r)) (c\<lparr>r_esp := a + 4, r_ebx := ds r\<rparr>)"
  define e where "e = (popa d)\<lparr>r_esp := r_esp (popa d) + 8\<rparr>"
  have d: "r_esp d = a + 4" "stack d = stack c" by (simp_all add: d_def set_data_segments_def)
  have l: "leave c = iret e"
    using assms by (simp add: leave_def pop_def Let_def d_def e_def regs_at_def)
  have e: "e = d\<lparr>r_edi := edi r, r_esi := esi r, r_ebp := ebp r, r_ebx := ebx r, r_edx := edx r, r_ecx := ecx r, r_eax := eax r,
       r_esp := a + 44\<rparr>"
    unfolding e_def popa_regs [OF d(1)] using assms(2) d(2) by (simp add: Let_def)
  have i: "r_esp e = a + 44" "r = regs_at (stack e) a" "r_cs e = r_cs c" "r_ss e = r_ss c"
    using assms(2) by (simp_all add: e d_def set_data_segments_def)
  show ?thesis
    unfolding l iret_regs [OF i(1,2)] i(3,4) by (rule cpu.equality) (simp_all add: e d_def set_data_segments_def)
qed

text \<open>The frame that \<open>enter\<close> leaves, and where.\<close>

lemma enter_frame:
  assumes "r_esp c = a + 36"
  shows "r_esp (enter c) = a - 4" "stack (enter c) (a - 4) = a" "r_cs (enter c) = r_cs c" "r_ss (enter c) = selector 2 0"
    "r_cr0 (enter c) = r_cr0 c"
    "regs_at (stack (enter c)) a =
       \<lparr>ds = low_half (r_eax c) (r_ds c), edi = r_edi c, esi = r_esi c, ebp = r_ebp c, esp = a + 36, ebx = r_ebx c,
        edx = r_edx c, ecx = r_ecx c, eax = r_eax c, int_code = stack c (a + 36), err_code = stack c (a + 40),
        eip = stack c (a + 44), cs = stack c (a + 48), eflags = stack c (a + 52), useresp = stack c (a + 56), ss = stack c (a + 60)\<rparr>"
proof -
  have "a = (r_esp c) - 36" using assms by simp
  then show "r_esp (enter c) = a - 4" "stack (enter c) (a - 4) = a" "r_cs (enter c) = r_cs c" "r_ss (enter c) = selector 2 0"
    "r_cr0 (enter c) = r_cr0 c"
    by (simp_all add: enter_def pusha_def push_def set_data_segments_def Let_def diff_diff_eq)
  show "regs_at (stack (enter c)) a =
       \<lparr>ds = low_half (r_eax c) (r_ds c), edi = r_edi c, esi = r_esi c, ebp = r_ebp c, esp = a + 36, ebx = r_ebx c,
        edx = r_edx c, ecx = r_ecx c, eax = r_eax c, int_code = stack c (a + 36), err_code = stack c (a + 40),
        eip = stack c (a + 44), cs = stack c (a + 48), eflags = stack c (a + 52), useresp = stack c (a + 56), ss = stack c (a + 60)\<rparr>"
    using assms by (simp add: enter_def pusha_def push_def set_data_segments_def Let_def diff_diff_eq regs_at_def)
qed

section \<open>An interrupt is transparent\<close>

definition interrupt :: "(cpu \<Rightarrow> cpu) \<Rightarrow> u32 \<Rightarrow> gate_descriptor \<Rightarrow> u16 \<Rightarrow> u32 \<Rightarrow> u32 option \<Rightarrow> cpu \<Rightarrow> cpu" where
  "interrupt handler v gate kss kesp err c = int_vector handler v (deliver gate kss kesp err c)"

text \<open>The two macros: the number of the vector and an error code are on the stack in either case.\<close>

definition numbered :: "u32 \<Rightarrow> cpu \<Rightarrow> cpu" where
  "numbered v c = (if v \<in> set inte_vectors then push v (cli c) else push v (push 0 (cli c)))"

lemma int_vector_numbered: "int_vector h v c = int_stub h (numbered v c)"
  by (simp add: int_vector_def int_entry_def inte_entry_def numbered_def)

lemma numbered_user:
  assumes "r_cs c AND 3 \<noteq> 0" and "(err \<noteq> None) = (v \<in> set inte_vectors)"
    and "d = numbered v (deliver gate kss kesp err c)" and "a = kesp - 64"
  shows "r_esp d = a + 36" "stack d (a + 36) = v" "stack d (a + 40) = (case err of None \<Rightarrow> 0 | Some e \<Rightarrow> e)"
    "stack d (a + 44) = r_eip c" "stack d (a + 48) = ucast (r_cs c)" "stack d (a + 52) = r_eflags c"
    "stack d (a + 56) = r_esp c" "stack d (a + 60) = ucast (r_ss c)"
  using assms by (cases err; simp add: numbered_def deliver_def push_def cli_def Let_def sub_steps)+

lemma numbered_kernel:
  assumes "r_cs c AND 3 = 0" and "(err \<noteq> None) = (v \<in> set inte_vectors)"
    and "d = numbered v (deliver gate kss kesp err c)" and "a = r_esp c - 56"
  shows "r_esp d = a + 36" "stack d (a + 36) = v" "stack d (a + 40) = (case err of None \<Rightarrow> 0 | Some e \<Rightarrow> e)"
    "stack d (a + 44) = r_eip c" "stack d (a + 48) = ucast (r_cs c)" "stack d (a + 52) = r_eflags c"
    "stack d (a + 56) = stack c (r_esp c)" "stack d (a + 60) = stack c (r_esp c + 4)"
  using assms by (cases err; simp add: numbered_def deliver_def push_def cli_def Let_def sub_steps)+

lemma numbered_regs:
  assumes "d = numbered v (deliver gate kss kesp err c)"
  shows "r_eax d = r_eax c" "r_ecx d = r_ecx c" "r_edx d = r_edx c" "r_ebx d = r_ebx c" "r_ebp d = r_ebp c" "r_esi d = r_esi c"
    "r_edi d = r_edi c" "r_ds d = r_ds c" "r_cs d = gate_selector gate" "r_cr0 d = r_cr0 c"
  using assms by (simp_all add: numbered_def deliver_def push_def cli_def Let_def split: option.split)

lemma entry_frame:
  assumes "(err \<noteq> None) = (v \<in> set inte_vectors)"
    and "d = numbered v (deliver gate kss kesp err c)" and "a = (if r_cs c AND 3 \<noteq> 0 then kesp - 64 else r_esp c - 56)"
  shows "r_esp d = a + 36" "regs_at (stack (enter d)) a = frame_of v err kesp c"
proof -
  note R = numbered_regs [OF assms(2)]
  show e: "r_esp d = a + 36"
    using numbered_user(1) [OF _ assms(1,2)] numbered_kernel(1) [OF _ assms(1,2)] assms(3) by simp
  show "regs_at (stack (enter d)) a = frame_of v err kesp c"
  proof (cases "r_cs c AND 3 = 0")
    case True
    then have a: "a = r_esp c - 56" using assms(3) by simp
    note K = numbered_kernel [OF True assms(1,2) a]
    show ?thesis using True unfolding enter_frame(6) [OF e] K(2-) R by (simp add: frame_of_def a)
  next
    case False
    then have a: "a = kesp - 64" using assms(3) by simp
    note K = numbered_user [OF False assms(1,2) a]
    show ?thesis using False unfolding enter_frame(6) [OF e] K(2-) R by (simp add: frame_of_def a)
  qed
qed

lemma interrupt_correct:
  assumes "changes_eax G handler" and "(err \<noteq> None) = (v \<in> set inte_vectors)" and "gate_selector gate AND 3 = 0" and "r_cs c AND 3 = 0 \<Longrightarrow> r_ss c = 0x10"
  shows "\<exists>m. interrupt handler v gate kss kesp err c = 
    c\<lparr>r_eax := G (frame_of v err kesp c), r_es := r_ds c, r_fs := r_ds c, r_gs := r_ds c, stack := m\<rparr>"
proof -
  define d where "d = numbered v (deliver gate kss kesp err c)"
  define a where "a = (if r_cs c AND 3 \<noteq> 0 then kesp - 64 else r_esp c - 56)"
  define e where "e = handler (enter d)"
  define r where "r = (frame_of v err kesp c)\<lparr>eax := G (frame_of v err kesp c)\<rparr>"
  note F = entry_frame [OF assms(2) d_def a_def] and R = numbered_regs [OF d_def]
  note E = enter_frame [OF F(1)] and C = c_call [OF assms(1), of "enter d"]
  have e: "r_esp e = a - 4" "r = regs_at (stack e) a"
    using C(1) C(5) [of a] E(1,2) F(2) by (simp_all add: e_def r_def)
  have s: "r_cs e AND 3 = 0" "r_ss e = 0x10" "r_cr0 e = r_cr0 c"
    using C(2-4) E(3-5) R(9,10) assms(3) by (simp_all add: e_def selector_def)
  have "interrupt handler v gate kss kesp err c = leave e"
    by (simp add: interrupt_def int_vector_numbered int_stub_parts e_def d_def)
  also have "\<dots> = c\<lparr>r_eax := G (frame_of v err kesp c), r_es := r_ds c, r_fs := r_ds c, r_gs := r_ds c,
    stack := stack e\<rparr>"
    unfolding leave_frame [OF e]
    using assms(4) s
    by (intro cpu.equality) (auto simp: r_def frame_of_def a_def)
  finally show ?thesis by blast
qed

section \<open>Entering the kernel\<close>

lemma mm_flush_correct:
  "mm_flush c = c\<lparr>r_cr0 := r_cr0 c OR 0x80000000, r_eax := r_eax (mm_flush c), r_ds := 0x10, r_es := 0x10, r_fs := 0x10,
     r_gs := 0x10, r_ss := 0x10, r_cs := 8, r_eip := stack c (r_esp c), r_esp := r_esp c + 4\<rparr>"
  by (rule cpu.equality) (simp_all add: mm_flush_def set_data_segments_def pop_def Let_def selector_def)

lemma kernel_entry_correct:
  "r_esp (kernel_entry k c) = k + KERNEL_STACK_SIZE" "r_eflags (kernel_entry k c) = 0"
  by (simp_all add: kernel_entry_def popf_def pop_def push_def)

lemma start_arguments:
  "stack (start c) (r_esp (start c)) = r_eax c" "stack (start c) (r_esp (start c) + 4) = r_ebx c"
  by (simp_all add: start_def push_def cli_def Let_def)

text \<open>The exceptions for which the processor pushes an error code: double fault, invalid task state segment, segment not
  present, stack fault, general protection, page fault, alignment check.\<close>

definition has_error_code :: "u32 \<Rightarrow> bool" where
  "has_error_code v \<longleftrightarrow> v = 8 \<or> 10 \<le> v \<and> v \<le> 14 \<or> v = 17"

lemma inte_vectors_error_code: "v \<in> set inte_vectors \<longleftrightarrow> has_error_code v"
proof -
  have "10 \<le> v \<and> v \<le> 14 \<longleftrightarrow> unat v \<in> set [10..<15]" by (auto simp: word_le_nat_alt)
  also have "\<dots> \<longleftrightarrow> v \<in> {10, 11, 12, 13, 14}" by (auto simp: upt_rec word_unat_eq_iff)
  finally show ?thesis by (auto simp: has_error_code_def inte_vectors_def)
qed

section \<open>Properties\<close>

text \<open>C14. An interrupt is transparent to the code it comes in, in a program as in the kernel: whatever its vector, with an
  error code or without, when its handler is done the processor has the instruction pointer, the flags, the stack and
  the registers it had, but for \<open>eax\<close>, which has the value that the handler has put in the frame, and \<open>es\<close>,
  \<open>fs\<close> and \<open>gs\<close>, which get the selector of \<open>ds\<close>.  The frame that the handler is given holds these registers, the number of
  the vector and the error code, 0 when the exception has none.\<close>

theorem interrupt_transparent:
  assumes "changes_eax G handler" and "(err \<noteq> None) = has_error_code v" and "gate_selector gate AND 3 = 0"
    and "r_cs c AND 3 = 0 \<Longrightarrow> r_ss c = 0x10"
  shows "\<exists>m. interrupt handler v gate kss kesp err c =
    c\<lparr>r_eax := G (frame_of v err kesp c), r_es := r_ds c, r_fs := r_ds c, r_gs := r_ds c, stack := m\<rparr>"
  using assms by (intro interrupt_correct) (simp_all add: inte_vectors_error_code)

text \<open>A program in ring 3 and a handler that answers with the vector plus the error code.\<close>

definition cpu_sample :: cpu where
  "cpu_sample = \<lparr>r_eax = 2, r_ecx = 8, r_edx = 0, r_ebx = 0x1ffc, r_esp = 0xbffffff0, r_ebp = 0, r_esi = 0, r_edi = 7,
     r_eip = 0x1010, r_eflags = 0x202, r_cs = 0x1b, r_ss = 0x23, r_ds = 0x23, r_es = 0x23, r_fs = 0x23, r_gs = 0,
     r_cr0 = 0x80000001, stack = \<lambda>_. 0\<rparr>"

definition answer :: "cpu \<Rightarrow> cpu" where
  "answer c = (let a = stack c (r_esp c) in
     c\<lparr>stack := (stack c)(a + 32 := stack c (a + 36) + stack c (a + 40)), r_edi := 0x77\<rparr>)"

lemma answer_changes_eax: "changes_eax (\<lambda>r. int_code r + err_code r) answer"
  by (simp add: changes_eax_def answer_def regs_at_def Let_def)

theorem interrupt_transparent_witness:
  "(\<exists>m. interrupt answer 0xbe (set_gate_descriptor 8 0x5000 0xee) 0x10 0x9000 None cpu_sample =
      cpu_sample\<lparr>r_eax := 0xbe, r_gs := 0x23, stack := m\<rparr>) \<and>
   r_eax (interrupt answer 0x0e (set_gate_descriptor 8 0x5000 0x8e) 0x10 0x9000 (Some 4) cpu_sample) = 0x12"
proof -
  note T = interrupt_transparent [OF answer_changes_eax, where c = cpu_sample and kss = "0x10" and kesp = "0x9000"]
  have g: "gate_selector (set_gate_descriptor 8 0x5000 x) AND 3 = 0" for x by (simp add: set_gate_descriptor_fields)
  have c: "r_cs cpu_sample AND 3 = 0 \<Longrightarrow> r_ss cpu_sample = 0x10" by (simp add: cpu_sample_def)
  have e: "((None :: u32 option) \<noteq> None) = has_error_code 0xbe" "((Some 4 :: u32 option) \<noteq> None) = has_error_code 0x0e"
    by (simp_all add: has_error_code_def)
  obtain m n where
    "interrupt answer 0xbe (set_gate_descriptor 8 0x5000 0xee) 0x10 0x9000 None cpu_sample =
      cpu_sample\<lparr>r_eax := 0xbe + 0, r_es := 0x23, r_fs := 0x23, r_gs := 0x23, stack := m\<rparr>"
    "interrupt answer 0x0e (set_gate_descriptor 8 0x5000 0x8e) 0x10 0x9000 (Some 4) cpu_sample =
      cpu_sample\<lparr>r_eax := 0x0e + 4, r_es := 0x23, r_fs := 0x23, r_gs := 0x23, stack := n\<rparr>"
    using T [OF e(1) g c, where x1 = "0xee"] T [OF e(2) g c, where x1 = "0x8e"] by (auto simp: frame_of_def cpu_sample_def)
  then show ?thesis by (auto simp: cpu_sample_def)
qed

end
