(* ===== verification/Ata.thy ===== *)
theory Ata
  imports StringLib
begin

text \<open>
  The ATA driver: \<open>src/driver/ata.c\<close>.  The drive is a parameter: \<open>dev\<close> maps the register writes of
  a command to the status byte and the data words that the drive answers with.  The driver's
  buffers are regions of the memory.  The locks are held from \<open>ata_io_lock\<close> to \<open>ata_io_unlock\<close>;
  \<open>process_lock\<close> returns with the lock taken (theory \<open>Sched\<close>), and \<open>intr_lock\<close> returns when the
  drive has raised its interrupt, so that the words after it are the drive's answer; each
  \<open>init_intr_lock\<close> closes that lock again.  Positions in a transfer are below \<open>2 ^ 31\<close>, the range of
  the \<open>int\<close> the source computes them in.
\<close>

section \<open>Registers\<close>

abbreviation (input) ATA_SECTOR_SIZE :: "'a::len word" where "ATA_SECTOR_SIZE \<equiv> 0x200"
abbreviation DEV_REG :: u8 where "DEV_REG \<equiv> 0xa0"
abbreviation DEV_REG_L :: u8 where "DEV_REG_L \<equiv> 0xe0"
abbreviation DEV_REG_DRV :: u8 where "DEV_REG_DRV \<equiv> 0xb0"
abbreviation STAT_REG_ERR :: u8 where "STAT_REG_ERR \<equiv> 0x01"
abbreviation STAT_REG_DRDY :: u8 where "STAT_REG_DRDY \<equiv> 0x40"
abbreviation COM_READ_SECTORS :: u8 where "COM_READ_SECTORS \<equiv> 0x20"
abbreviation COM_READ_SECTORS_EXT :: u8 where "COM_READ_SECTORS_EXT \<equiv> 0x24"
abbreviation COM_WRITE_SECTORS :: u8 where "COM_WRITE_SECTORS \<equiv> 0x30"
abbreviation COM_WRITE_SECTORS_EXT :: u8 where "COM_WRITE_SECTORS_EXT \<equiv> 0x34"
abbreviation COM_IDENTIFY :: u8 where "COM_IDENTIFY \<equiv> 0xec"

datatype ata_mode = NODISK | CHS | LBA28 | LBA48

fun mode_code :: "ata_mode \<Rightarrow> u8" where
  "mode_code NODISK = 0"
| "mode_code CHS = 1"
| "mode_code LBA28 = 2"
| "mode_code LBA48 = 3"

definition code_mode :: "u8 \<Rightarrow> ata_mode" where
  "code_mode c = (if c = 0 then NODISK else if c = 1 then CHS else if c = 2 then LBA28 else LBA48)"

record ata_io =
  io_n :: u8
  data_io :: u16
  error_io :: u16
  sector_count_io :: u16
  lba_low_io :: u16
  lba_mid_io :: u16
  lba_high_io :: u16
  device_io :: u16
  status_io :: u16
  command_io :: u16
  alternate_status_io :: u16
  device_contorl_io :: u16
  device_reg :: u8
  io_mode :: ata_mode

record ata_state =
  ata_modes :: u8
  ata_sectors :: "u64 list"
  lock_p :: u8
  lock_s :: u8
  ilock_p :: u8
  ilock_s :: u8

type_synonym writes = "(u16 \<times> u8) list"
type_synonym drive = "writes \<Rightarrow> u8 \<times> (nat \<Rightarrow> u16)"

section \<open>Locks and ports\<close>

text \<open>The ports of the primary and the secondary channel.  (The callers pass \<open>n < 4\<close>; above that
  the source leaves the ports uninitialised.)\<close>

definition ata_io_lock :: "u8 \<Rightarrow> ata_state \<Rightarrow> ata_io \<times> ata_state" where
  "ata_io_lock n s =
     (let dr = (if n mod 2 \<noteq> 0 then DEV_REG_DRV else DEV_REG);
          mode = code_mode (drop_bit (unat (n * 2)) (ata_modes s) AND 3)
      in if n < 2 then
           (\<lparr>io_n = n, data_io = 0x1f0, error_io = 0x1f1, sector_count_io = 0x1f2, lba_low_io = 0x1f3,
             lba_mid_io = 0x1f4, lba_high_io = 0x1f5, device_io = 0x1f6, status_io = 0x1f7, command_io = 0x1f7,
             alternate_status_io = 0x3f6, device_contorl_io = 0x3f6, device_reg = dr, io_mode = mode\<rparr>,
            s\<lparr>lock_p := 1\<rparr>)
         else
           (\<lparr>io_n = n, data_io = 0x170, error_io = 0x171, sector_count_io = 0x172, lba_low_io = 0x173,
             lba_mid_io = 0x174, lba_high_io = 0x175, device_io = 0x176, status_io = 0x177, command_io = 0x177,
             alternate_status_io = 0x376, device_contorl_io = 0x376, device_reg = dr, io_mode = mode\<rparr>,
            if n < 4 then s\<lparr>lock_s := 1\<rparr> else s))"

definition ata_io_unlock :: "u8 \<Rightarrow> ata_state \<Rightarrow> ata_state" where
  "ata_io_unlock n s = (if n < 2 then s\<lparr>lock_p := 0\<rparr> else if n < 4 then s\<lparr>lock_s := 0\<rparr> else s)"

text \<open>\<open>irq14_handler\<close> and \<open>irq15_handler\<close>; \<open>status\<close> is the byte read from the status port.\<close>

definition irq14_handler :: "u8 \<Rightarrow> ata_state \<Rightarrow> ata_state" where
  "irq14_handler status s = (if status AND 0x80 = 0 then s\<lparr>ilock_p := 0\<rparr> else s)"

definition irq15_handler :: "u8 \<Rightarrow> ata_state \<Rightarrow> ata_state" where
  "irq15_handler status s = (if status AND 0x80 = 0 then s\<lparr>ilock_s := 0\<rparr> else s)"

text \<open>\<open>init_intr_lock(io.ilock)\<close>.\<close>

definition close_ilock :: "u8 \<Rightarrow> ata_state \<Rightarrow> ata_state" where
  "close_ilock n s = (if n < 2 then s\<lparr>ilock_p := 1\<rparr> else s\<lparr>ilock_s := 1\<rparr>)"

section \<open>Commands\<close>

definition ata_lba28_attr :: "ata_io \<Rightarrow> u8 \<Rightarrow> u32 \<Rightarrow> writes" where
  "ata_lba28_attr io count offect =
     [(sector_count_io io, count),
      (lba_low_io io, ucast (offect AND 0xff)),
      (lba_mid_io io, ucast (drop_bit 8 offect AND 0xff)),
      (lba_high_io io, ucast (drop_bit 16 offect AND 0xff)),
      (device_io io, ucast (drop_bit 24 offect AND 0x0f) OR DEV_REG_L OR device_reg io)]"

definition ata_read_lba28 :: "ata_io \<Rightarrow> u8 \<Rightarrow> u32 \<Rightarrow> writes" where
  "ata_read_lba28 io count offect = ata_lba28_attr io count offect @ [(command_io io, COM_READ_SECTORS)]"

definition ata_write_lba28 :: "ata_io \<Rightarrow> u8 \<Rightarrow> u32 \<Rightarrow> writes" where
  "ata_write_lba28 io count offect = ata_lba28_attr io count offect @ [(command_io io, COM_WRITE_SECTORS)]"

definition ata_lba48_attr :: "ata_io \<Rightarrow> u16 \<Rightarrow> u64 \<Rightarrow> writes" where
  "ata_lba48_attr io count offect =
     [(sector_count_io io, ucast (drop_bit 8 count AND 0xff)),
      (lba_low_io io, ucast (drop_bit 24 offect AND 0xff)),
      (lba_mid_io io, ucast (drop_bit 32 offect AND 0xff)),
      (lba_high_io io, ucast (drop_bit 40 offect AND 0xff)),
      (sector_count_io io, ucast (count AND 0xff)),
      (lba_low_io io, ucast (offect AND 0xff)),
      (lba_mid_io io, ucast (drop_bit 8 offect AND 0xff)),
      (lba_high_io io, ucast (drop_bit 16 offect AND 0xff)),
      (device_io io, DEV_REG_L OR device_reg io)]"

definition ata_read_lba48 :: "ata_io \<Rightarrow> u16 \<Rightarrow> u64 \<Rightarrow> writes" where
  "ata_read_lba48 io count offect = ata_lba48_attr io count offect @ [(command_io io, COM_READ_SECTORS_EXT)]"

definition ata_write_lba48 :: "ata_io \<Rightarrow> u16 \<Rightarrow> u64 \<Rightarrow> writes" where
  "ata_write_lba48 io count offect = ata_lba48_attr io count offect @ [(command_io io, COM_WRITE_SECTORS_EXT)]"

section \<open>Reading\<close>

text \<open>One byte at position \<open>k\<close> of the sectors: \<open>k >= offect && k - offect < count\<close>.\<close>

definition read_byte :: "u32 \<Rightarrow> u32 \<Rightarrow> u64 \<Rightarrow> u64 \<Rightarrow> u8 \<Rightarrow> memory \<Rightarrow> memory" where
  "read_byte buf count offect k b m =
     (if k \<ge> offect \<and> k - offect < ucast count then m(buf + ucast (k - offect) := b) else m)"

definition read_word :: "u32 \<Rightarrow> u32 \<Rightarrow> u64 \<Rightarrow> nat \<Rightarrow> u16 \<Rightarrow> memory \<Rightarrow> memory" where
  "read_word buf count offect k data m =
     read_byte buf count offect (of_nat k + 1) (ucast (drop_bit 8 data AND 0xff))
       (read_byte buf count offect (of_nat k) (ucast (data AND 0xff)) m)"

definition ata_read_data :: "u32 \<Rightarrow> u32 \<Rightarrow> u32 \<Rightarrow> u64 \<Rightarrow> (nat \<Rightarrow> u16) \<Rightarrow> memory \<Rightarrow> memory" where
  "ata_read_data buf sector_count count offect words m =
     fold (\<lambda>n. fold (\<lambda>i. read_word buf count offect (n * 512 + i * 2) (words (n * 256 + i))) [0..<256])
       [0..<unat sector_count] m"

text \<open>The range of sectors that a request is cut to, shared by \<open>ata_read\<close> and \<open>ata_write\<close>: the
  start and the (exclusive) end.\<close>

definition sector_range :: "u64 \<Rightarrow> u32 \<Rightarrow> u64 \<Rightarrow> u64 \<times> u64" where
  "sector_range sectors count offect =
     (let e = (offect + ucast count + ATA_SECTOR_SIZE - 1) div ATA_SECTOR_SIZE
      in (offect div ATA_SECTOR_SIZE, if e \<ge> sectors then sectors - 1 else e))"

definition ata_read :: "drive \<Rightarrow> u8 \<Rightarrow> u32 \<Rightarrow> u32 \<Rightarrow> u64 \<Rightarrow> memory \<Rightarrow> ata_state \<Rightarrow> int \<times> memory \<times> ata_state" where
  "ata_read dev n buf count offect m s =
     (if n \<ge> 4 then (-1, m, s)
      else
        (let sectors = ata_sectors s ! unat n;
             (start_sector, end_sector) = sector_range sectors count offect;
             sector_count = ucast (end_sector - start_sector) :: u32;
             start_offect = offect - (offect AND NOT (ATA_SECTOR_SIZE - 1))
         in if start_sector \<ge> sectors then (0, m, s)
         else if sector_count = 0 then (0, m, s)
         else
           (case map_prod id (close_ilock n) (ata_io_lock n s) of (io, s1) \<Rightarrow>
              (case (case io_mode io of
                       LBA28 \<Rightarrow> Some (ata_read_lba28 io (ucast sector_count) (ucast start_sector))
                     | LBA48 \<Rightarrow> Some (ata_read_lba48 io (ucast sector_count) start_sector)
                     | _ \<Rightarrow> None) of
                 None \<Rightarrow> (-1, m, ata_io_unlock n s1)
               | Some ws \<Rightarrow>
                   (case dev ws of (status, words) \<Rightarrow>
                      if status AND STAT_REG_ERR \<noteq> 0 then (-1, m, ata_io_unlock n s1)
                      else
                        (let avail = ucast (sector_count * ATA_SECTOR_SIZE) - start_offect;
                             count = (if ucast count > avail then ucast avail else count)
                         in (sint count, ata_read_data buf sector_count count start_offect words m,
                             ata_io_unlock n s1)))))))"

section \<open>Writing\<close>

text \<open>The byte at position \<open>k\<close> of the sectors: before the data from \<open>buf_1\<close>, behind it from \<open>buf_2\<close>.
  \<open>low\<close> is the position in \<open>buf_1\<close>.\<close>

definition write_byte :: "u32 \<Rightarrow> u32 \<Rightarrow> u32 \<Rightarrow> u32 \<Rightarrow> u64 \<Rightarrow> u64 \<Rightarrow> nat \<Rightarrow> memory \<Rightarrow> u8" where
  "write_byte buf_1 buf_2 buf count offect k low m =
     (if k < offect then m (buf_1 + of_nat low)
      else if k - offect \<ge> ucast count then m (buf_2 + ucast (k - offect - ucast count))
      else m (buf + ucast (k - offect)))"

definition write_word :: "u32 \<Rightarrow> u32 \<Rightarrow> u32 \<Rightarrow> u32 \<Rightarrow> u64 \<Rightarrow> nat \<Rightarrow> nat \<Rightarrow> memory \<Rightarrow> u16" where
  "write_word buf_1 buf_2 buf count offect n i m =
     ucast (write_byte buf_1 buf_2 buf count offect (of_nat (n * 512 + i * 2)) (i * 2) m) OR
     push_bit 8 (ucast (write_byte buf_1 buf_2 buf count offect (of_nat (n * 512 + i * 2) + 1) (i * 2 + 1) m))"

definition ata_write_data :: "u32 \<Rightarrow> u32 \<Rightarrow> u32 \<Rightarrow> u32 \<Rightarrow> u32 \<Rightarrow> u64 \<Rightarrow> memory \<Rightarrow> u16 list" where
  "ata_write_data buf_1 buf_2 buf sector_count count offect m =
     concat (map (\<lambda>n. map (\<lambda>i. write_word buf_1 buf_2 buf count offect n i m) [0..<256]) [0..<unat sector_count])"

text \<open>The result, the register writes and the words sent, the memory and the state.\<close>

definition ata_write ::
    "drive \<Rightarrow> u32 \<Rightarrow> u32 \<Rightarrow> u8 \<Rightarrow> u32 \<Rightarrow> u32 \<Rightarrow> u64 \<Rightarrow> memory \<Rightarrow> ata_state \<Rightarrow>
       int \<times> writes \<times> u16 list \<times> memory \<times> ata_state" where
  "ata_write dev buf_1 buf_2 n buf count offect m s =
     (if n \<ge> 4 then (-1, [], [], m, s)
      else
        (let sectors = ata_sectors s ! unat n;
             start_sector = drop_bit 9 offect;
             e = drop_bit 9 (offect + ucast count + ATA_SECTOR_SIZE - 1);
             end_sector = (if e \<ge> sectors then sectors - 1 else e);
             sector_count = ucast (end_sector - start_sector) :: u32;
             start_offect = offect - (offect AND NOT (ATA_SECTOR_SIZE - 1))
         in if start_sector \<ge> sectors then (0, [], [], m, s)
         else
           (case (if start_offect \<noteq> 0
                  then ata_read dev n buf_1 (ucast start_offect) (offect AND NOT (ATA_SECTOR_SIZE - 1)) m s
                  else (0, m, s)) of (r1, m1, s1) \<Rightarrow>
            if r1 = -1 then (-1, [], [], m1, s1)
            else
              (case (if (end_sector + 1) * ATA_SECTOR_SIZE > ucast count + offect
                     then ata_read dev n buf_2 (ucast (end_sector * ATA_SECTOR_SIZE - (ucast count + offect)))
                            (ucast count + offect) m1 s1
                     else (0, m1, s1)) of (r2, m2, s2) \<Rightarrow>
               if r2 = -1 then (-1, [], [], m2, s2)
               else
                 (case ata_io_lock n s2 of (io, s3) \<Rightarrow>
                    (case (case io_mode io of
                             LBA28 \<Rightarrow> Some (ata_write_lba28 io (ucast sector_count) (ucast start_sector))
                           | LBA48 \<Rightarrow> Some (ata_write_lba48 io (ucast sector_count) start_sector)
                           | _ \<Rightarrow> None) of
                       None \<Rightarrow> (-1, [], [], m2, ata_io_unlock n s3)
                     | Some ws \<Rightarrow>
                         if fst (dev ws) AND STAT_REG_ERR \<noteq> 0 then (-1, ws, [], m2, ata_io_unlock n s3)
                         else
                           (let avail = ucast (sector_count * ATA_SECTOR_SIZE) - start_offect;
                                count = (if ucast count > avail then ucast avail else count)
                            in (sint count, ws, ata_write_data buf_1 buf_2 buf sector_count count start_offect m2,
                                m2, ata_io_unlock n s3))))))))"

section \<open>Detection\<close>

text \<open>\<open>get_ata_sectors\<close>; \<open>after\<close> is the memory behind the array, which \<open>n = 4\<close> reads.\<close>

definition get_ata_sectors :: "u64 \<Rightarrow> u8 \<Rightarrow> ata_state \<Rightarrow> u64" where
  "get_ata_sectors after n s =
     (if n > 4 then 0 else if unat n < length (ata_sectors s) then ata_sectors s ! unat n else after)"

text \<open>One word of the answer to \<open>IDENTIFY\<close>: the addressing mode and the number of sectors.\<close>

definition identify_word :: "nat \<Rightarrow> u16 \<Rightarrow> ata_mode \<times> u64 \<Rightarrow> ata_mode \<times> u64" where
  "identify_word i data st =
     (case st of (mode, sectors) \<Rightarrow>
        if i = 0 then (CHS, sectors)
        else if i = 49 \<and> data AND 0x100 \<noteq> 0 then (LBA28, sectors)
        else if i = 60 \<and> mode = LBA28 then (mode, ucast data)
        else if i = 61 \<and> mode = LBA28 then (mode, sectors + push_bit 16 (ucast data))
        else if i = 83 \<and> data AND 0x200 \<noteq> 0 then (LBA48, sectors)
        else if i = 100 \<and> mode = LBA48 then (mode, ucast data)
        else if i = 101 \<and> mode = LBA48 then (mode, sectors + push_bit 16 (ucast data))
        else if i = 102 \<and> mode = LBA48 then (mode, sectors + push_bit 32 (ucast data))
        else if i = 103 \<and> mode = LBA48 then (mode, sectors + push_bit 48 (ucast data))
        else (mode, sectors))"

text \<open>The loop over the 256 words is left at once when the first is 0.\<close>

definition identify :: "(nat \<Rightarrow> u16) \<Rightarrow> ata_mode \<times> u64" where
  "identify words =
     (if words 0 = 0 then (NODISK, 0) else fold (\<lambda>i. identify_word i (words i)) [0..<256] (NODISK, 0))"

text \<open>One drive of \<open>init_status\<close>, up to the call of \<open>disk_create\<close>.\<close>

definition init_drive :: "drive \<Rightarrow> u8 \<Rightarrow> ata_state \<Rightarrow> ata_state" where
  "init_drive dev n s =
     (case map_prod id (close_ilock n) (ata_io_lock n s) of (io, s1) \<Rightarrow>
        (case dev [(device_io io, device_reg io), (command_io io, COM_IDENTIFY)] of (status, words) \<Rightarrow>
           (let (mode, sectors) = (if status AND STAT_REG_DRDY \<noteq> 0 then identify words else (NODISK, 0))
            in ata_io_unlock n
                 (s1\<lparr>ata_sectors := (ata_sectors s1)[unat n := sectors],
                     ata_modes := ata_modes s1 OR push_bit (unat n * 2) (mode_code mode)\<rparr>))))"

text \<open>\<open>init_status\<close> and \<open>init_ata\<close>: the state and the drives that \<open>disk_create\<close> is called for, with
  their numbers of sectors.\<close>

definition init_status :: "(u8 \<Rightarrow> drive) \<Rightarrow> ata_state \<Rightarrow> ata_state \<times> (u8 \<times> u64) list" where
  "init_status devs s =
     fold (\<lambda>n (s, ds). let s1 = init_drive (devs n) n s; k = ata_sectors s1 ! unat n
                      in (s1, if k \<noteq> 0 then ds @ [(n, k)] else ds))
       [0, 1, 2, 3] (s\<lparr>ata_modes := 0\<rparr>, [])"

definition init_ata :: "(u8 \<Rightarrow> drive) \<Rightarrow> ata_state \<Rightarrow> ata_state \<times> (u8 \<times> u64) list" where
  "init_ata devs s = init_status devs (s\<lparr>lock_p := 0, lock_s := 0\<rparr>)"

section \<open>The registers as the drive reads them\<close>

text \<open>The bytes written to a register, the latest first.  A drive in 28-bit mode takes the latest byte
  of each register, one in 48-bit mode the latest two of the count and address registers; a count
  of 0 stands for the largest one.\<close>

definition latest :: "u16 \<Rightarrow> writes \<Rightarrow> u8 list" where
  "latest p ws = map snd (filter (\<lambda>w. fst w = p) (rev ws))"

definition reg_now :: "u16 \<Rightarrow> writes \<Rightarrow> nat" where
  "reg_now p ws = (case latest p ws of [] \<Rightarrow> 0 | x # _ \<Rightarrow> unat x)"

definition reg_before :: "u16 \<Rightarrow> writes \<Rightarrow> nat" where
  "reg_before p ws = (case latest p ws of x # y # _ \<Rightarrow> unat y | _ \<Rightarrow> 0)"

record ata_command =
  com :: nat
  slave :: bool
  first_sector :: nat
  n_sectors :: nat

text \<open>\<open>b\<close> is the base of the channel's ports.\<close>

definition decode28 :: "u16 \<Rightarrow> writes \<Rightarrow> ata_command" where
  "decode28 b ws =
     (let dr = reg_now (b + 6) ws; c = reg_now (b + 2) ws
      in \<lparr>com = reg_now (b + 7) ws, slave = bit dr 4,
          first_sector = reg_now (b + 3) ws + 256 * reg_now (b + 4) ws + 65536 * reg_now (b + 5) ws
            + 16777216 * (dr mod 16),
          n_sectors = (if c = 0 then 256 else c)\<rparr>)"

definition decode48 :: "u16 \<Rightarrow> writes \<Rightarrow> ata_command" where
  "decode48 b ws =
     (let c = reg_now (b + 2) ws + 256 * reg_before (b + 2) ws
      in \<lparr>com = reg_now (b + 7) ws, slave = bit (reg_now (b + 6) ws) 4,
          first_sector = reg_now (b + 3) ws + 256 * reg_now (b + 4) ws + 65536 * reg_now (b + 5) ws
            + 16777216 * (reg_before (b + 3) ws + 256 * reg_before (b + 4) ws + 65536 * reg_before (b + 5) ws),
          n_sectors = (if c = 0 then 65536 else c)\<rparr>)"

definition port_base :: "u8 \<Rightarrow> u16" where
  "port_base n = (if n < 2 then 0x1f0 else 0x170)"

lemma reg_now_Cons: "reg_now p (ws @ [w]) = (if fst w = p then unat (snd w) else reg_now p ws)"
  by (simp add: reg_now_def latest_def)

lemma reg_before_Cons: "reg_before p (ws @ [w]) = (if fst w = p then reg_now p ws else reg_before p ws)"
  by (simp add: reg_now_def reg_before_def latest_def split: list.split)

lemma io_lock_ports:
  assumes "n < 4" and "ata_io_lock n s = (io, s1)"
  shows "sector_count_io io = port_base n + 2" "lba_low_io io = port_base n + 3"
    "lba_mid_io io = port_base n + 4" "lba_high_io io = port_base n + 5" "device_io io = port_base n + 6"
    "command_io io = port_base n + 7" "device_reg io = (if n mod 2 \<noteq> 0 then DEV_REG_DRV else DEV_REG)"
    "io_mode io = code_mode (drop_bit (unat (n * 2)) (ata_modes s) AND 3)"
  using assms by (auto simp: ata_io_lock_def port_base_def Let_def split: if_splits)

lemma unat_byte: "unat (ucast (drop_bit k (x :: 'a::len word) AND 0xff) :: u8) = unat x div 2 ^ k mod 256"
proof -
  have m: "(0xff :: 'a word) = mask 8"
    by (simp add: mask_eq_exp_minus_1)
  have "(ucast (drop_bit k x AND 0xff) :: u8) = ucast (drop_bit k x)"
    unfolding m by (rule bit_word_eqI) (auto simp: bit_simps dest: bit_imp_le_length)
  then show ?thesis
    by (simp add: unsigned_ucast_eq take_bit_eq_mod unat_drop_bit_eq drop_bit_eq_div [where 'a = nat])
qed

lemmas unat_byte_0 = unat_byte [of 0, simplified]

lemma bytes3: "(x :: nat) mod 256 + 256 * (x div 256 mod 256) + 65536 * (x div 65536 mod 256) = x mod 16777216"
  using mod_mult2_eq [of x 256 65536] mod_mult2_eq [of "x div 256" 256 256] by (simp add: div_mult2_eq [symmetric])

lemma bytes2: "(x :: nat) mod 256 + 256 * (x div 256 mod 256) = x mod 65536"
  using mod_mult2_eq [of x 256 256] by simp

text \<open>The registers after a command.\<close>

lemma lba48_latest:
  assumes "n < 4" and "ata_io_lock n s = (io, s1)"
  shows "latest (port_base n + 2) (ata_lba48_attr io c lba @ [(command_io io, k)]) =
      [ucast (c AND 0xff), ucast (drop_bit 8 c AND 0xff)]"
    and "latest (port_base n + 3) (ata_lba48_attr io c lba @ [(command_io io, k)]) =
      [ucast (lba AND 0xff), ucast (drop_bit 24 lba AND 0xff)]"
    and "latest (port_base n + 4) (ata_lba48_attr io c lba @ [(command_io io, k)]) =
      [ucast (drop_bit 8 lba AND 0xff), ucast (drop_bit 32 lba AND 0xff)]"
    and "latest (port_base n + 5) (ata_lba48_attr io c lba @ [(command_io io, k)]) =
      [ucast (drop_bit 16 lba AND 0xff), ucast (drop_bit 40 lba AND 0xff)]"
    and "latest (port_base n + 6) (ata_lba48_attr io c lba @ [(command_io io, k)]) = [DEV_REG_L OR device_reg io]"
    and "latest (port_base n + 7) (ata_lba48_attr io c lba @ [(command_io io, k)]) = [k]"
  by (simp_all add: latest_def ata_lba48_attr_def io_lock_ports [OF assms])

lemma lba28_latest:
  assumes "n < 4" and "ata_io_lock n s = (io, s1)"
  shows "latest (port_base n + 2) (ata_lba28_attr io c lba @ [(command_io io, k)]) = [c]"
    and "latest (port_base n + 3) (ata_lba28_attr io c lba @ [(command_io io, k)]) = [ucast (lba AND 0xff)]"
    and "latest (port_base n + 4) (ata_lba28_attr io c lba @ [(command_io io, k)]) = [ucast (drop_bit 8 lba AND 0xff)]"
    and "latest (port_base n + 5) (ata_lba28_attr io c lba @ [(command_io io, k)]) = [ucast (drop_bit 16 lba AND 0xff)]"
    and "latest (port_base n + 6) (ata_lba28_attr io c lba @ [(command_io io, k)]) =
      [ucast (drop_bit 24 lba AND 0x0f) OR DEV_REG_L OR device_reg io]"
    and "latest (port_base n + 7) (ata_lba28_attr io c lba @ [(command_io io, k)]) = [k]"
  by (simp_all add: latest_def ata_lba28_attr_def io_lock_ports [OF assms])

lemma slave_bit: "bit (unat (x AND 0x0f OR DEV_REG_L OR (if q then DEV_REG_DRV else DEV_REG))) 4 \<longleftrightarrow> q"
  by (cases q) (simp_all add: bit_unsigned_iff bit_simps)

lemma and_0f: "x AND 0x0f = take_bit 4 (x :: 'a::len word)"
  by (simp add: take_bit_eq_mask mask_eq_exp_minus_1)

lemma device_low:
  "unat (x AND 0x0f OR DEV_REG_L OR (if q then DEV_REG_DRV else DEV_REG)) mod 16 = unat x mod 16"
proof -
  have "take_bit 4 (x AND 0x0f OR DEV_REG_L OR (if q then DEV_REG_DRV else DEV_REG)) = take_bit 4 x"
    by (cases q; simp; rule bit_word_eqI) (auto simp: bit_simps less_Suc_eq numeral_eq_Suc)
  from arg_cong [OF this, of unat] show ?thesis
    by (simp only: unsigned_take_bit_eq take_bit_eq_mod [where 'a = nat]) simp
qed

lemma lba48_decoded:
  assumes "n < 4" and "ata_io_lock n s = (io, s1)" and "unat lba < 2 ^ 48"
  shows "decode48 (port_base n) (ata_lba48_attr io c lba @ [(command_io io, k)]) =
    \<lparr>com = unat k, slave = (n mod 2 \<noteq> 0), first_sector = unat lba,
     n_sectors = (if c = 0 then 65536 else unat c)\<rparr>"
proof -
  have c: "unat c mod 256 + 256 * (unat c div 256 mod 256) = unat c"
  proof -
    have "unat c < 65536"
      using unsigned_less [of c] by simp
    then show ?thesis
      by (simp add: bytes2)
  qed
  have "unat lba mod 256 + 256 * (unat lba div 256 mod 256) + 65536 * (unat lba div 65536 mod 256)
      + 16777216 * (unat lba div 16777216 mod 256 + 256 * (unat lba div 16777216 div 256 mod 256)
        + 65536 * (unat lba div 16777216 div 65536 mod 256)) = unat lba"
    unfolding bytes3 using assms(3) by simp
  then have lba: "unat lba mod 256 + 256 * (unat lba div 256 mod 256) + 65536 * (unat lba div 65536 mod 256)
      + 16777216 * (unat lba div 16777216 mod 256 + 256 * (unat lba div 4294967296 mod 256)
        + 65536 * (unat lba div 1099511627776 mod 256)) = unat lba"
    by (simp only: div_mult2_eq [symmetric]) simp
  show ?thesis
    unfolding decode48_def reg_now_def reg_before_def lba48_latest [OF assms(1, 2)] Let_def list.case unat_byte unfolding unat_byte_0
    using lba by (simp add: c slave_bit [of 0, simplified] io_lock_ports [OF assms(1, 2)] unat_eq_0
        del: if_split)
qed

lemma lba28_decoded:
  assumes "n < 4" and "ata_io_lock n s = (io, s1)" and "unat lba < 2 ^ 28"
  shows "decode28 (port_base n) (ata_lba28_attr io c lba @ [(command_io io, k)]) =
    \<lparr>com = unat k, slave = (n mod 2 \<noteq> 0), first_sector = unat lba,
     n_sectors = (if c = 0 then 256 else unat c)\<rparr>"
proof -
  have dev: "(ucast (drop_bit 24 lba AND 0x0f) :: u8) = ucast (drop_bit 24 lba) AND 0x0f"
    by (rule bit_word_eqI) (auto simp: bit_simps and_0f)
  have low: "unat (ucast (drop_bit 24 lba) :: u8) mod 16 = unat lba div 16777216"
    using assms(3) by (simp add: unsigned_ucast_eq take_bit_eq_mod unat_drop_bit_eq drop_bit_eq_div [where 'a = nat]
        div_less_dividend mod_mod_cancel)
  have "unat lba mod 256 + 256 * (unat lba div 256 mod 256) + 65536 * (unat lba div 65536 mod 256)
      + 16777216 * (unat lba div 16777216) = unat lba"
    unfolding bytes3 by simp
  then show ?thesis
    unfolding decode28_def reg_now_def lba28_latest [OF assms(1, 2)] Let_def list.case unat_byte unfolding unat_byte_0
    by (simp add: io_lock_ports [OF assms(1, 2)] unat_eq_0 dev device_low slave_bit low
        del: if_split)
qed

section \<open>The data loops\<close>

text \<open>The memory when the bytes at the positions below \<open>K\<close> have been handled.\<close>

definition read_upto :: "u32 \<Rightarrow> u32 \<Rightarrow> nat \<Rightarrow> (nat \<Rightarrow> u8) \<Rightarrow> nat \<Rightarrow> memory \<Rightarrow> memory" where
  "read_upto buf count off B K m =
     (\<lambda>a. if unat (a - buf) < unat count \<and> off + unat (a - buf) < K then B (off + unat (a - buf)) else m a)"

lemma read_upto_0 [simp]: "read_upto buf count off B 0 m = m"
  by (simp add: read_upto_def)

lemma read_byte_step:
  assumes "K < 2 ^ 63"
  shows "read_byte buf count off (of_nat K) (B K) (read_upto buf count (unat off) B K m) =
    read_upto buf count (unat off) B (Suc K) m"
proof (cases "off \<le> (of_nat K :: u64) \<and> (of_nat K :: u64) - off < ucast count")
  case True
  have K: "unat (of_nat K :: u64) = K"
    using assms by (simp add: unat_of_nat)
  from True have le: "unat off \<le> K"
    by (simp add: word_le_nat_alt K)
  have sub: "unat ((of_nat K :: u64) - off) = K - unat off"
    using True by (simp add: unat_sub K)
  have c: "K - unat off < unat count"
    using True by (simp add: word_less_nat_alt sub unat_ucast_up)
  have "K - unat off < 2 ^ 32"
    by (rule less_trans [OF c]) simp
  then have u: "unat (ucast ((of_nat K :: u64) - off) :: u32) = K - unat off"
    by (simp add: unsigned_ucast_eq take_bit_eq_mod sub)
  have "(a = buf + ucast ((of_nat K :: u64) - off)) = (a - buf = ucast ((of_nat K :: u64) - off))" for a
    by (auto simp: algebra_simps)
  then have "(a = buf + ucast ((of_nat K :: u64) - off)) = (unat (a - buf) = K - unat off)" for a
    by (simp only: word_unat_eq_iff u)
  then have "read_byte buf count off (of_nat K) (B K) f a = (if unat (a - buf) = K - unat off then B K else f a)" for f a
    using True by (simp add: read_byte_def)
  moreover have "unat off + (K - unat off) = K"
    using le by simp
  ultimately show ?thesis
    using c by (auto simp: read_upto_def fun_eq_iff)
next
  case False
  have K: "unat (of_nat K :: u64) = K"
    using assms by (simp add: unat_of_nat)
  have "\<not> (unat x < unat count \<and> unat off + unat x = K)" for x :: u32
  proof
    assume a: "unat x < unat count \<and> unat off + unat x = K"
    then have le: "off \<le> (of_nat K :: u64)"
      by (simp add: word_le_nat_alt K)
    moreover have "(of_nat K :: u64) - off < ucast count"
      using a le by (auto simp: word_less_nat_alt unat_sub K unat_ucast_up)
    ultimately show False
      using False by simp
  qed
  then have "(unat x < unat count \<and> unat off + unat x < Suc K) = (unat x < unat count \<and> unat off + unat x < K)" for x :: u32
    by (metis less_Suc_eq)
  then show ?thesis
    using False by (auto simp: read_byte_def read_upto_def fun_eq_iff)
qed

lemma word_bytes:
  "ucast ((ucast (l :: u8) OR push_bit 8 (ucast (h :: u8)) :: u16) AND 0xff) = l"
  "ucast (drop_bit 8 (ucast (l :: u8) OR push_bit 8 (ucast (h :: u8)) :: u16) AND 0xff) = h"
proof -
  have m: "(0xff :: u16) = mask 8"
    by (simp add: mask_eq_exp_minus_1)
  show "ucast ((ucast (l :: u8) OR push_bit 8 (ucast (h :: u8)) :: u16) AND 0xff) = l"
    "ucast (drop_bit 8 (ucast (l :: u8) OR push_bit 8 (ucast (h :: u8)) :: u16) AND 0xff) = h"
    unfolding m by (rule bit_word_eqI; auto simp: bit_simps dest: bit_imp_le_length)+
qed

definition word_of :: "(nat \<Rightarrow> u8) \<Rightarrow> nat \<Rightarrow> u16" where
  "word_of B k = ucast (B (2 * k)) OR push_bit 8 (ucast (B (2 * k + 1)))"

lemma read_word_step:
  assumes "2 * k + 1 < 2 ^ 63"
  shows "read_word buf count off (2 * k) (word_of B k) (read_upto buf count (unat off) B (2 * k) m) =
    read_upto buf count (unat off) B (2 * Suc k) m"
proof -
  have "(of_nat (2 * k) + 1 :: u64) = of_nat (Suc (2 * k))"
    by simp
  then show ?thesis
    using assms read_byte_step [of "Suc (2 * k)" buf count off B m] read_byte_step [of "2 * k" buf count off B m]
    unfolding read_word_def word_of_def word_bytes by (simp del: of_nat_Suc of_nat_mult)
qed

lemma fold_read_words:
  assumes "2 * (a + N) < 2 ^ 63"
  shows "fold (\<lambda>i. read_word buf count off (2 * (a + i)) (word_of B (a + i))) [0..<N]
      (read_upto buf count (unat off) B (2 * a) m) = read_upto buf count (unat off) B (2 * (a + N)) m"
  using assms
proof (induction N)
  case (Suc N)
  have "read_word buf count off (2 * (a + N)) (word_of B (a + N)) (read_upto buf count (unat off) B (2 * (a + N)) m) =
      read_upto buf count (unat off) B (2 * Suc (a + N)) m"
    by (rule read_word_step) (use Suc.prems in simp)
  then show ?case
    using Suc by simp
qed simp

lemma ata_read_data_upto:
  assumes words: "\<And>k. k < unat sc * 256 \<Longrightarrow> words k = word_of B k"
  shows "ata_read_data buf sc count off words m = read_upto buf count (unat off) B (512 * unat sc) m"
proof -
  have "fold (\<lambda>n. fold (\<lambda>i. read_word buf count off (n * 512 + i * 2) (words (n * 256 + i))) [0..<256]) [0..<N] m =
      read_upto buf count (unat off) B (2 * (N * 256)) m" if "N \<le> unat sc" for N
    using that
  proof (induction N)
    case (Suc N)
    have less: "N < 2 ^ 32"
      using Suc.prems less_trans [of N "unat sc" "2 ^ 32"] by simp
    have "fold (\<lambda>i. read_word buf count off (N * 512 + i * 2) (words (N * 256 + i))) [0..<256]
          (read_upto buf count (unat off) B (2 * (N * 256)) m) =
        fold (\<lambda>i. read_word buf count off (2 * (N * 256 + i)) (word_of B (N * 256 + i))) [0..<256]
          (read_upto buf count (unat off) B (2 * (N * 256)) m)"
    proof (rule fold_cong)
      show "read_word buf count off (N * 512 + i * 2) (words (N * 256 + i)) =
          read_word buf count off (2 * (N * 256 + i)) (word_of B (N * 256 + i))" if "i \<in> set [0..<256]" for i
        using that Suc.prems by (simp add: words algebra_simps)
    qed simp_all
    also have "\<dots> = read_upto buf count (unat off) B (2 * (N * 256 + 256)) m"
      by (rule fold_read_words) (use less in simp)
    finally show ?case
      using Suc by (simp add: add.commute [of _ 256])
  qed simp
  from this [of "unat sc"] show ?thesis
    by (simp add: ata_read_data_def)
qed

section \<open>Transfers\<close>

text \<open>The documented behaviour of a drive with the given content: it accepts the read and write
  commands for its position on the channel, and answers a read with the words of the sectors.\<close>

definition decode :: "ata_mode \<Rightarrow> u16 \<Rightarrow> writes \<Rightarrow> ata_command" where
  "decode mode b ws = (if mode = LBA28 then decode28 b ws else decode48 b ws)"

definition read_command :: "ata_mode \<Rightarrow> nat" where
  "read_command mode = (if mode = LBA28 then 0x20 else 0x24)"

definition write_command :: "ata_mode \<Rightarrow> nat" where
  "write_command mode = (if mode = LBA28 then 0x30 else 0x34)"

definition drive_serves :: "(nat \<Rightarrow> u8) \<Rightarrow> ata_mode \<Rightarrow> u8 \<Rightarrow> drive \<Rightarrow> bool" where
  "drive_serves disk mode n dev \<longleftrightarrow>
     (\<forall>ws. let c = decode mode (port_base n) ws in
        slave c = (n mod 2 \<noteq> 0) \<longrightarrow>
          (com c = read_command mode \<longrightarrow>
             fst (dev ws) AND STAT_REG_ERR = 0 \<and>
             (\<forall>k < n_sectors c * 256. snd (dev ws) k = word_of (\<lambda>p. disk (first_sector c * 512 + p)) k)) \<and>
          (com c = write_command mode \<longrightarrow> fst (dev ws) AND STAT_REG_ERR = 0))"

text \<open>The number of bytes of a request that the driver transfers: it stops a sector before the end.\<close>

definition transferred :: "nat \<Rightarrow> nat \<Rightarrow> nat \<Rightarrow> nat" where
  "transferred sectors off count = min count ((sectors - 1) * 512 - off)"

definition drive_mode :: "u8 \<Rightarrow> ata_state \<Rightarrow> ata_mode" where
  "drive_mode n s = code_mode (drop_bit (unat (n * 2)) (ata_modes s) AND 3)"

text \<open>Requests in the range of the sector count register, on a drive in the range of its mode.\<close>

definition in_range :: "ata_mode \<Rightarrow> nat \<Rightarrow> nat \<Rightarrow> bool" where
  "in_range mode sectors count \<longleftrightarrow>
     mode = LBA28 \<and> sectors \<le> 2 ^ 28 \<and> count \<le> 255 * 512 \<or> mode = LBA48 \<and> sectors \<le> 2 ^ 48 \<and> count \<le> 65535 * 512"

lemma sector_count_bound:
  fixes off c E S :: nat
  assumes "E = (if (off + c + 511) div 512 \<ge> S then S - 1 else (off + c + 511) div 512)" and "off div 512 < S"
  shows "off div 512 \<le> E" and "E < S" and "E - off div 512 \<le> (c + 1022) div 512"
    and "min c (512 * (E - off div 512) - off mod 512) = transferred S off c"
    and "E = off div 512 \<Longrightarrow> transferred S off c = 0"
    and "E - off div 512 \<noteq> 0 \<Longrightarrow> off mod 512 \<le> 512 * (E - off div 512)"
proof -
  show le: "off div 512 \<le> E" and "E < S" and "E - off div 512 \<le> (c + 1022) div 512"
    and "E - off div 512 \<noteq> 0 \<Longrightarrow> off mod 512 \<le> 512 * (E - off div 512)"
    using assms by (auto split: if_splits)
  have "512 * (off div 512) + off mod 512 = off"
    by simp
  then have E: "512 * (E - off div 512) - off mod 512 = 512 * E - off"
    using le by (simp add: diff_mult_distrib2 diff_diff_left)
  have "min c (512 * E - off) = min c ((S - 1) * 512 - off)"
  proof (cases "(off + c + 511) div 512 \<ge> S")
    case False
    then have "512 * E \<ge> off + c" and "E \<le> S - 1"
      using assms(1) by (auto split: if_splits)
    then show ?thesis
      by simp
  qed (simp add: assms(1) mult.commute)
  then show "min c (512 * (E - off div 512) - off mod 512) = transferred S off c"
    by (simp add: transferred_def E)
  then show "E = off div 512 \<Longrightarrow> transferred S off c = 0"
    by simp
qed

lemma unat_start_offset: "unat (off - (off AND NOT (ATA_SECTOR_SIZE - 1))) = unat (off :: u64) mod 512"
proof -
  have m: "ATA_SECTOR_SIZE - 1 = (mask 9 :: u64)"
    by (simp add: mask_eq_exp_minus_1)
  have "(off AND NOT (mask 9)) + (off AND mask 9) = (off AND NOT (mask 9)) OR (off AND mask 9)"
    by (rule disjunctive_add_eq_or) (simp add: bit_eq_iff bit_simps)
  also have "\<dots> = off"
    by (rule bit_word_eqI) (auto simp: bit_simps)
  finally have "off - (off AND NOT (mask 9)) = off AND mask 9"
    by (simp add: algebra_simps)
  then show ?thesis
    unfolding m by (simp add: take_bit_eq_mask [symmetric] unsigned_take_bit_eq take_bit_eq_mod [where 'a = nat])
qed

text \<open>\<open>sector_range\<close> over the numbers.\<close>

lemma sector_range_nat:
  assumes "unat off + unat count + 511 < 2 ^ 64" and "unat off div 512 < unat sectors"
    and "sector_range sectors count off = (st, e)"
  shows "unat st = unat off div 512"
    and "unat e = (if (unat off + unat count + 511) div 512 \<ge> unat sectors then unat sectors - 1
                   else (unat off + unat count + 511) div 512)"
proof -
  have u: "unat (off + ucast count + 511) = unat off + unat count + 511"
  proof -
    have "unat (off + ucast count) = unat off + unat count"
      using assms(1) by (subst unat_add_nowrap) (simp_all add: unat_ucast_up)
    then show ?thesis
      using assms(1) by (subst unat_add_nowrap) simp_all
  qed
  have "off + ucast count + ATA_SECTOR_SIZE - 1 = off + ucast count + 511"
    by (simp add: algebra_simps)
  then have e: "unat ((off + ucast count + ATA_SECTOR_SIZE - 1) div ATA_SECTOR_SIZE) =
      (unat off + unat count + 511) div 512"
    by (simp only: unat_div u) simp
  show "unat st = unat off div 512"
    using assms(3) by (auto simp: sector_range_def Let_def unat_div)
  have "1 \<le> sectors"
    using assms(2) unfolding word_le_nat_alt by simp
  from unat_sub [OF this] have s: "unat (sectors - 1) = unat sectors - 1"
    by simp
  let ?e = "(off + ucast count + ATA_SECTOR_SIZE - 1) div ATA_SECTOR_SIZE :: u64"
  have "e = (if ?e \<ge> sectors then sectors - 1 else ?e)"
    using assms(3) by (simp only: sector_range_def Let_def prod.inject)
  then show "unat e = (if (unat off + unat count + 511) div 512 \<ge> unat sectors then unat sectors - 1
                   else (unat off + unat count + 511) div 512)"
    by (simp only: if_distrib [of unat] word_le_nat_alt e s)
qed

text \<open>The drive reads the transfer from its registers that the driver means, accepts it, and
  answers a read with the content.\<close>

lemma command_decoded:
  assumes "n < 4" and "ata_io_lock n s = (io, s1)"
    and "mode = LBA28 \<and> unat st < 2 ^ 28 \<and> sc \<le> 256 \<or> mode = LBA48 \<and> unat st < 2 ^ 48 \<and> sc \<le> 65536"
    and "sc \<noteq> 0" and "sc = unat (sc32 :: u32)"
    and "ws = (if mode = LBA28 then ata_lba28_attr io (ucast sc32) (ucast st) @ [(command_io io, k28)]
               else ata_lba48_attr io (ucast sc32) st @ [(command_io io, k48)])"
  shows "decode mode (port_base n) ws =
      \<lparr>com = unat (if mode = LBA28 then k28 else k48), slave = (n mod 2 \<noteq> 0), first_sector = unat st, n_sectors = sc\<rparr>"
  using assms(3)
proof
  assume m: "mode = LBA28 \<and> unat st < 2 ^ 28 \<and> sc \<le> 256"
  then have "unat (ucast st :: u32) = unat st"
    by (simp add: unsigned_ucast_eq take_bit_eq_mod)
  moreover have "(if (ucast sc32 :: u8) = 0 then 256 else unat (ucast sc32 :: u8)) = sc"
    using m assms(4, 5) by (auto simp: unsigned_ucast_eq take_bit_eq_mod word_unat_eq_iff le_less)
  ultimately show ?thesis
    using m lba28_decoded [OF assms(1, 2), of "ucast st" "ucast sc32" k28] assms(6)
    by (simp add: decode_def del: split_paired_All if_split)
next
  assume m: "mode = LBA48 \<and> unat st < 2 ^ 48 \<and> sc \<le> 65536"
  then have "(if (ucast sc32 :: u16) = 0 then 65536 else unat (ucast sc32 :: u16)) = sc"
    using m assms(4, 5) by (auto simp: unsigned_ucast_eq take_bit_eq_mod word_unat_eq_iff le_less)
  then show ?thesis
    using m lba48_decoded [OF assms(1, 2), of st "ucast sc32" k48] assms(6)
    by (simp add: decode_def del: if_split)
qed

lemma read_accepted:
  assumes "n < 4" and "ata_io_lock n s = (io, s1)"
    and "mode = LBA28 \<and> unat st < 2 ^ 28 \<and> sc \<le> 256 \<or> mode = LBA48 \<and> unat st < 2 ^ 48 \<and> sc \<le> 65536"
    and "sc \<noteq> 0" and "sc = unat (sc32 :: u32)"
    and "ws = (if mode = LBA28 then ata_read_lba28 io (ucast sc32) (ucast st) else ata_read_lba48 io (ucast sc32) st)"
    and "drive_serves disk mode n dev"
  shows "fst (dev ws) AND STAT_REG_ERR = 0"
    and "k < sc * 256 \<Longrightarrow> snd (dev ws) k = word_of (\<lambda>p. disk (unat st * 512 + p)) k"
proof -
  note d = command_decoded [OF assms(1-5) assms(6) [unfolded ata_read_lba28_def ata_read_lba48_def]]
  have c: "unat (if mode = LBA28 then COM_READ_SECTORS else COM_READ_SECTORS_EXT) = read_command mode"
    by (simp add: read_command_def)
  show "fst (dev ws) AND STAT_REG_ERR = 0"
    and "k < sc * 256 \<Longrightarrow> snd (dev ws) k = word_of (\<lambda>p. disk (unat st * 512 + p)) k"
    using assms(7) [unfolded drive_serves_def Let_def, rule_format, of ws, unfolded d c] by simp_all
qed

lemma write_accepted:
  assumes "n < 4" and "ata_io_lock n s = (io, s1)"
    and "mode = LBA28 \<and> unat st < 2 ^ 28 \<and> sc \<le> 256 \<or> mode = LBA48 \<and> unat st < 2 ^ 48 \<and> sc \<le> 65536"
    and "sc \<noteq> 0" and "sc = unat (sc32 :: u32)"
    and "ws = (if mode = LBA28 then ata_write_lba28 io (ucast sc32) (ucast st) else ata_write_lba48 io (ucast sc32) st)"
    and "drive_serves disk mode n dev"
  shows "decode mode (port_base n) ws =
      \<lparr>com = write_command mode, slave = (n mod 2 \<noteq> 0), first_sector = unat st, n_sectors = sc\<rparr>"
    and "fst (dev ws) AND STAT_REG_ERR = 0"
proof -
  note d = command_decoded [OF assms(1-5) assms(6) [unfolded ata_write_lba28_def ata_write_lba48_def]]
  have c: "unat (if mode = LBA28 then COM_WRITE_SECTORS else COM_WRITE_SECTORS_EXT) = write_command mode"
    by (simp add: write_command_def)
  show "decode mode (port_base n) ws =
      \<lparr>com = write_command mode, slave = (n mod 2 \<noteq> 0), first_sector = unat st, n_sectors = sc\<rparr>"
    and "fst (dev ws) AND STAT_REG_ERR = 0"
    using assms(7) [unfolded drive_serves_def Let_def, rule_format, of ws, unfolded d c] d c by simp_all
qed

lemma read_upto_disk:
  assumes "unat count = L"
    and "off mod 512 + L \<le> K"
  shows "read_upto buf count (off mod 512) (\<lambda>p. disk (off div 512 * 512 + p)) K m =
    (\<lambda>a. if unat (a - buf) < L then disk (off + unat (a - buf)) else m a)"
proof -
  have "off div 512 * 512 + (off mod 512 + x) = off + x" for x
    by simp
  then show ?thesis
    using assms by (auto simp: read_upto_def fun_eq_iff)
qed

lemma sector_product:
  fixes sc :: u32 and so :: u64
  assumes "unat sc \<le> 65536" and "unat so < 512" and "sc \<noteq> 0"
  shows "unat (ucast (sc * ATA_SECTOR_SIZE) - so :: u64) = 512 * unat sc - unat so"
proof -
  have "unat (sc * ATA_SECTOR_SIZE) = unat sc * 512"
    using assms(1) by (subst unat_mult32) simp_all
  then have u: "unat (ucast (sc * ATA_SECTOR_SIZE) :: u64) = unat sc * 512"
    by (subst unat_ucast_up) simp_all
  have "unat sc \<noteq> 0"
    using assms(3) by (simp add: unat_eq_0)
  then have "so \<le> ucast (sc * ATA_SECTOR_SIZE)"
    unfolding word_le_nat_alt u using assms(2) by linarith
  from unat_sub [OF this] show ?thesis
    by (simp only: u mult.commute [of 512])
qed

text \<open>The count that a transfer reports.\<close>

lemma cut_count:
  fixes count sc :: u32 and so :: u64
  assumes "unat sc \<le> 65536" and "unat so < 512" and "sc \<noteq> 0"
    and "c' = (if ucast count > (ucast (sc * ATA_SECTOR_SIZE) - so :: u64)
               then ucast (ucast (sc * ATA_SECTOR_SIZE) - so) else count)"
  shows "unat c' = min (unat count) (512 * unat sc - unat so)" and "sint c' = int (unat c')"
proof -
  note p = sector_product [OF assms(1-3)]
  have "unat (ucast (ucast (sc * ATA_SECTOR_SIZE) - so :: u64) :: u32) = 512 * unat sc - unat so"
    using assms(1) by (simp add: unsigned_ucast_eq take_bit_eq_mod p)
  then show u: "unat c' = min (unat count) (512 * unat sc - unat so)"
    unfolding assms(4) by (auto simp: word_less_nat_alt p unat_ucast_up min_def)
  then have "unat c' < 2 ^ 31"
    using assms(1) by (simp add: min_less_iff_disj) linarith
  then have "int (unat c') < int (2 ^ 31)"
    by (simp only: of_nat_less_iff)
  then have "uint c' < 2 ^ 31"
    by simp
  moreover have "- (2 ^ 31) \<le> uint c'"
    using unsigned_greater_eq [of c'] by (rule order.trans [rotated]) simp
  ultimately show "sint c' = int (unat c')"
    by (simp add: sint_uint signed_take_bit_int_eq_self)
qed

lemma ata_read_serves:
  assumes "drive_serves disk (drive_mode n s) n dev" and "n < 4"
    and "in_range (drive_mode n s) (unat (ata_sectors s ! unat n)) (unat count)"
    and "unat off + unat count + 511 < 2 ^ 64" and "lock_p s = 0" and "lock_s s = 0"
  defines "L \<equiv> transferred (unat (ata_sectors s ! unat n)) (unat off) (unat count)"
  shows "\<exists>s' \<in> {s, close_ilock n s}. ata_read dev n buf count off m s =
    (int L, (\<lambda>a. if unat (a - buf) < L then disk (unat off + unat (a - buf)) else m a), s')"
proof -
  define sectors where "sectors = ata_sectors s ! unat n"
  obtain st e where se: "sector_range sectors count off = (st, e)"
    by (cases "sector_range sectors count off")
  define sc where "sc = (ucast (e - st) :: u32)"
  define so where "so = off - (off AND NOT (ATA_SECTOR_SIZE - 1))"
  have so: "unat so = unat off mod 512"
    by (simp only: so_def unat_start_offset)
  have st: "st = off div 512"
    using se by (simp add: sector_range_def Let_def)
  have n: "\<not> 4 \<le> n"
    using assms(2) by (simp add: not_le)
  show ?thesis
  proof (cases "st < sectors")
    case False
    then have "unat sectors \<le> unat off div 512"
      by (simp add: st word_less_nat_alt unat_div)
    then have "L = 0"
      by (simp add: L_def transferred_def sectors_def)
    then show ?thesis
      using False n se by (simp add: ata_read_def Let_def sectors_def not_less)
  next
    case True
    then have off: "unat off div 512 < unat sectors"
      by (simp add: st word_less_nat_alt unat_div)
    note nat = sector_range_nat [OF assms(4) off se]
    note bnd = sector_count_bound [OF nat(2) off]
    have "unat (e - st) = unat e - unat off div 512"
      using bnd(1) by (subst unat_sub) (simp_all add: word_le_nat_alt nat(1))
    moreover have "unat e - unat off div 512 \<le> (if drive_mode n s = LBA28 then 256 else 65536)"
      using bnd(3) assms(3) by (auto simp: in_range_def)
    ultimately have sc: "unat sc = unat e - unat off div 512"
      and sc_max: "unat sc \<le> (if drive_mode n s = LBA28 then 256 else 65536)"
      by (auto simp: sc_def unsigned_ucast_eq take_bit_eq_mod split: if_splits)
    show ?thesis
    proof (cases "sc = 0")
      case True
      then have "L = 0"
        using bnd(1, 5) sc by (simp add: L_def sectors_def)
      then show ?thesis
        using True n se by (simp add: ata_read_def Let_def sectors_def sc_def)
    next
      case False
      obtain io s1 where io: "ata_io_lock n s = (io, s1)" and s1: "s1 = (if n < 2 then s\<lparr>lock_p := 1\<rparr> else s\<lparr>lock_s := 1\<rparr>)"
        using assms(2) by (cases "n < 2") (auto simp: ata_io_lock_def Let_def)
      have mode: "io_mode io = drive_mode n s"
        by (simp add: io_lock_ports [OF assms(2) io] drive_mode_def)
      have unlock: "ata_io_unlock n (close_ilock n s1) = close_ilock n s"
        using assms(2, 5, 6) by (cases s) (simp add: s1 ata_io_unlock_def close_ilock_def)
      define ws where "ws = (if drive_mode n s = LBA28 then ata_read_lba28 io (ucast sc) (ucast st)
        else ata_read_lba48 io (ucast sc) st)"
      obtain status words where dev: "dev ws = (status, words)"
        by (cases "dev ws")
      have "unat sc \<noteq> 0"
        using False by (simp add: unat_eq_0)
      moreover have "unat st < unat sectors"
        using True by (simp add: word_less_nat_alt)
      ultimately have acc: "status AND STAT_REG_ERR = 0"
        "\<And>k. k < unat sc * 256 \<Longrightarrow> words k = word_of (\<lambda>p. disk (unat st * 512 + p)) k"
        using read_accepted [OF assms(2) io _ _ refl ws_def assms(1)] sc_max assms(3)
        by (auto simp: dev in_range_def sectors_def)
      define count' where "count' = (if ucast count > (ucast (sc * ATA_SECTOR_SIZE) - so :: u64)
        then ucast (ucast (sc * ATA_SECTOR_SIZE) - so) else count)"
      have "unat sc \<le> 65536"
        using sc_max by (simp split: if_splits)
      note cut = cut_count [OF this _ False count'_def]
      have L: "unat count' = L"
        using cut(1) bnd(4) by (simp add: so sc L_def sectors_def)
      have "unat off mod 512 + L \<le> 512 * unat sc"
        using cut(1) bnd(6) \<open>unat sc \<noteq> 0\<close> unfolding L [symmetric] so sc by linarith
      then have data: "ata_read_data buf sc count' so words m =
          (\<lambda>a. if unat (a - buf) < L then disk (unat off + unat (a - buf)) else m a)"
        using ata_read_data_upto [OF acc(2)] read_upto_disk [OF L] by (simp add: so nat(1))
      have wss: "drive_mode n s = LBA28 \<Longrightarrow> ata_read_lba28 io (ucast sc) (ucast st) = ws"
        "drive_mode n s = LBA48 \<Longrightarrow> ata_read_lba48 io (ucast sc) st = ws"
        by (simp_all add: ws_def)
      have "ata_read dev n buf count off m s = (sint count', ata_read_data buf sc count' so words m, close_ilock n s)"
        using True False n assms(3) se
        by (auto simp: ata_read_def Let_def sectors_def [symmetric] sc_def [symmetric] so_def [symmetric, simplified] io mode
            count'_def in_range_def wss dev acc(1) unlock)
      then show ?thesis
        using cut(2) by (simp add: data L so)
    qed
  qed
qed

section \<open>Writing sectors\<close>

text \<open>What a drive keeps of a write command and its data words.\<close>

definition word_byte :: "u16 \<Rightarrow> nat \<Rightarrow> u8" where
  "word_byte w k = (if even k then ucast (w AND 0xff) else ucast (drop_bit 8 w AND 0xff))"

definition store :: "ata_command \<Rightarrow> u16 list \<Rightarrow> (nat \<Rightarrow> u8) \<Rightarrow> nat \<Rightarrow> u8" where
  "store c data disk p =
     (let k = p - first_sector c * 512
      in if first_sector c * 512 \<le> p \<and> k < 2 * length data then word_byte (data ! (k div 2)) k else disk p)"

lemma word_byte_of [simp]: "word_byte (word_of B (k div 2)) k = B k"
proof (cases "even k")
  case True
  then show ?thesis
    by (simp only: word_byte_def word_of_def word_bytes) simp
next
  case False
  then show ?thesis
    by (simp only: word_byte_def word_of_def word_bytes) (simp add: odd_two_times_div_two_succ)
qed

lemma store_words:
  "store c (map (word_of B) [0..<N]) disk p =
    (if first_sector c * 512 \<le> p \<and> p < first_sector c * 512 + 2 * N then B (p - first_sector c * 512) else disk p)"
proof -
  have "k < 2 * N \<Longrightarrow> k div 2 < N" for k
    by simp
  then show ?thesis
    by (auto simp: store_def Let_def)
qed

lemma concat_sectors:
  "concat (map (\<lambda>n. map (\<lambda>i. f (n * 256 + i)) [0..<256]) [0..<N]) = map f [0..<N * 256]"
proof (induction N)
  case (Suc N)
  have "[0..<Suc N * 256] = [0..<N * 256] @ map (\<lambda>i. N * 256 + i) [0..<256]"
    using upt_add_eq_append [of 0 "N * 256" 256] by (simp add: map_add_upt add.commute)
  then show ?case
    using Suc by (simp del: upt_rec_numeral)
qed simp

lemma ata_write_data_words:
  assumes "\<And>n low. n < unat sc \<Longrightarrow> low < 512 \<Longrightarrow>
      write_byte buf_1 buf_2 buf count so (of_nat (n * 512 + low)) low m = B (n * 512 + low)"
  shows "ata_write_data buf_1 buf_2 buf sc count so m = map (word_of B) [0..<unat sc * 256]"
proof -
  have "write_word buf_1 buf_2 buf count so n i m = word_of B (n * 256 + i)" if "n < unat sc" "i < 256" for n i
  proof -
    have k: "(of_nat (n * 512 + i * 2) + 1 :: u64) = of_nat (n * 512 + (i * 2 + 1))"
      by simp
    have "2 * (n * 256 + i) = n * 512 + i * 2"
      by simp
    then show ?thesis
      using assms [of n "i * 2"] assms [of n "i * 2 + 1"] that unfolding write_word_def word_of_def k
      by (simp only: add.assoc)
  qed
  then have "ata_write_data buf_1 buf_2 buf sc count so m =
      concat (map (\<lambda>n. map (\<lambda>i. word_of B (n * 256 + i)) [0..<256]) [0..<unat sc])"
    unfolding ata_write_data_def by (intro arg_cong [where f = concat] map_cong) simp_all
  then show ?thesis
    by (simp only: concat_sectors)
qed

definition apart :: "u32 \<Rightarrow> nat \<Rightarrow> u32 \<Rightarrow> nat \<Rightarrow> bool" where
  "apart a la b lb \<longleftrightarrow> (\<forall>x :: u32. \<not> (unat (x - a) < la \<and> unat (x - b) < lb))"

lemma apartI:
  assumes "unat a + la \<le> unat b" and "unat b + lb \<le> 2 ^ 32"
  shows "apart a la b lb"
  unfolding apart_def
proof (intro allI notI, elim conjE)
  fix x :: u32
  assume a: "unat (x - a) < la" and b: "unat (x - b) < lb"
  have "unat (b + (x - b)) = unat b + unat (x - b)"
    using b assms(2) by (intro unat_add32) simp
  moreover have "unat (a + (x - a)) = unat a + unat (x - a)"
    using a assms by (intro unat_add32) simp
  ultimately show False
    using a b assms(1) by simp
qed

lemma apart_sym: "apart a la b lb \<Longrightarrow> apart b lb a la"
  by (auto simp: apart_def)

text \<open>The content of a disk with a buffer laid over it.\<close>

definition overlay :: "memory \<Rightarrow> u32 \<Rightarrow> nat \<Rightarrow> nat \<Rightarrow> (nat \<Rightarrow> u8) \<Rightarrow> nat \<Rightarrow> u8" where
  "overlay m buf off count disk p = (if off \<le> p \<and> p < off + count then m (buf + of_nat (p - off)) else disk p)"

lemma write_byte_overlay:
  assumes "K < 2 ^ 63" and "K < 512 \<Longrightarrow> low = K" and "unat so < 512"
    and "K < unat so + unat count + c2"
    and before: "\<And>j. j < unat so \<Longrightarrow> m2 (buf_1 + of_nat j) = disk (st + j)"
    and behind: "\<And>j. j < c2 \<Longrightarrow> m2 (buf_2 + of_nat j) = disk (st + unat so + unat count + j)"
    and data: "\<And>j. j < unat count \<Longrightarrow> m2 (buf + of_nat j) = m (buf + of_nat j)"
  shows "write_byte buf_1 buf_2 buf count so (of_nat K) low m2 = overlay m buf (st + unat so) (unat count) disk (st + K)"
proof -
  have K: "unat (of_nat K :: u64) = K"
    using assms(1) by (simp add: unat_of_nat)
  show ?thesis
  proof (cases "K < unat so")
    case True
    then have "(of_nat K :: u64) < so" and "low = K"
      using assms(2, 3) by (simp_all add: word_less_nat_alt K)
    then show ?thesis
      using True before [of K] by (simp add: write_byte_def overlay_def)
  next
    case False
    then have le: "so \<le> (of_nat K :: u64)"
      by (simp add: word_le_nat_alt K)
    have sub: "unat ((of_nat K :: u64) - so) = K - unat so"
      by (simp add: unat_sub [OF le] K)
    have sub32: "(ucast ((of_nat K :: u64) - so) :: u32) = of_nat (K - unat so)"
      by (metis sub of_nat_unat)
    show ?thesis
    proof (cases "K - unat so < unat count")
      case True
      then have "\<not> (ucast count :: u64) \<le> of_nat K - so"
        by (simp add: word_le_nat_alt sub unat_ucast_up)
      moreover have "K < unat so + unat count"
        using True False by linarith
      ultimately show ?thesis
        using True False leD [OF le] data [of "K - unat so"] by (simp add: write_byte_def overlay_def sub32)
    next
      case gt: False
      then have le2: "(ucast count :: u64) \<le> of_nat K - so"
        by (simp add: word_le_nat_alt sub unat_ucast_up)
      have "unat ((of_nat K :: u64) - so - ucast count) = K - unat so - unat count"
        by (simp add: unat_sub [OF le2] sub unat_ucast_up)
      then have "(ucast ((of_nat K :: u64) - so - ucast count) :: u32) = of_nat (K - unat so - unat count)"
        by (metis of_nat_unat)
      moreover have "\<not> K < unat so + unat count"
        using gt False by linarith
      ultimately show ?thesis
        using gt False leD [OF le] le2 behind [of "K - unat so - unat count"] assms(4)
        by (simp add: write_byte_def overlay_def)
    qed
  qed
qed

lemma same_drive:
  assumes "s' \<in> {s, close_ilock n s}"
  shows "drive_mode k s' = drive_mode k s" "ata_sectors s' = ata_sectors s" "lock_p s' = lock_p s" "lock_s s' = lock_s s"
    "close_ilock n s' = close_ilock n s"
  using assms by (auto simp: close_ilock_def drive_mode_def)

text \<open>The reads in front of and behind the data.\<close>

lemma edge_read:
  assumes "drive_serves disk (drive_mode n s) n dev" and "n < 4"
    and "in_range (drive_mode n s) (unat (ata_sectors s ! unat n)) c"
    and "lock_p s = 0" and "lock_s s = 0" and "s' \<in> {s, close_ilock n s}"
    and "unat cnt < 512" and "unat off + unat cnt \<le> (unat (ata_sectors s ! unat n) - 1) * 512"
  shows "\<exists>s'' \<in> {s, close_ilock n s}. ata_read dev n b cnt off m s' =
    (int (unat cnt), (\<lambda>a. if unat (a - b) < unat cnt then disk (unat off + unat (a - b)) else m a), s'')"
proof -
  note same = same_drive [OF assms(6)]
  have r: "in_range (drive_mode n s') (unat (ata_sectors s' ! unat n)) (unat cnt)"
    using assms(3, 7) by (auto simp: in_range_def same)
  have "unat (ata_sectors s ! unat n) \<le> 2 ^ 48"
    using assms(3) by (auto simp: in_range_def)
  then have nw: "unat off + unat cnt + 511 < 2 ^ 64"
    using assms(8) by simp
  have L: "transferred (unat (ata_sectors s' ! unat n)) (unat off) (unat cnt) = unat cnt"
    using assms(8) by (simp add: transferred_def same)
  have "drive_serves disk (drive_mode n s') n dev" "lock_p s' = 0" "lock_s s' = 0"
    using assms by (simp_all add: same)
  from ata_read_serves [OF this(1) assms(2) r nw this(2, 3), of b m] show ?thesis
    using assms(6) unfolding L same(5) by auto
qed

lemma aligned_down:
  fixes off :: u64
  shows "unat (off AND NOT (ATA_SECTOR_SIZE - 1)) = unat off div 512 * 512"
proof -
  let ?d = "off AND NOT (ATA_SECTOR_SIZE - 1)"
  have "unat (off - ?d) = unat off mod 512"
    by (rule unat_start_offset)
  moreover have "off - ?d \<le> off"
    by (simp only: word_le_nat_alt unat_start_offset mod_less_eq_dividend)
  then have "unat (off - (off - ?d)) = unat off - unat (off - ?d)"
    by (rule unat_sub)
  ultimately show ?thesis
    by (simp add: minus_mod_eq_div_mult)
qed

lemma unat_times_sectors:
  fixes a :: u64
  assumes "unat a * 512 < 2 ^ 64"
  shows "unat (a * ATA_SECTOR_SIZE) = unat a * 512"
  using assms by (simp add: unat_word_ariths)

lemma filled_bytes:
  fixes b :: u32
  assumes "m' = (\<lambda>a. if unat (a - b) < k then f (unat (a - b)) else m a)" and "j < k" and "k \<le> 512"
  shows "m' (b + of_nat j) = f j"
  using assms by (simp add: unat_of_nat)

lemma other_bytes:
  fixes a b :: u32
  assumes "m' = (\<lambda>a. if unat (a - b) < k then f (unat (a - b)) else m a)" and "apart a la b lb" and "k \<le> lb"
    and "j < la" and "la \<le> 2 ^ 32"
  shows "m' (a + of_nat j) = m (a + of_nat j)"
proof -
  have "unat (a + of_nat j - a) = j"
    using assms(4, 5) by (simp add: unat_of_nat)
  then have "\<not> unat (a + of_nat j - b) < k"
    using assms(2-4) unfolding apart_def by (metis order.strict_trans2)
  then show ?thesis
    by (simp add: assms(1))
qed

lemma ata_write_stores:
  assumes drv: "drive_serves disk (drive_mode n s) n dev" and n4: "n < 4"
    and rng: "in_range (drive_mode n s) (unat (ata_sectors s ! unat n)) (unat count)"
    and lk: "lock_p s = 0" "lock_s s = 0"
    and cnt: "count \<noteq> 0" and fit: "unat off + unat count \<le> (unat (ata_sectors s ! unat n) - 1) * 512"
    and apart: "apart buf_1 512 buf_2 512" "apart buf (unat count) buf_1 512" "apart buf (unat count) buf_2 512"
  shows "\<exists>ws data m' s'. ata_write dev buf_1 buf_2 n buf count off m s = (int (unat count), ws, data, m', s') \<and>
    s' \<in> {s, close_ilock n s} \<and>
    com (decode (drive_mode n s) (port_base n) ws) = write_command (drive_mode n s) \<and>
    slave (decode (drive_mode n s) (port_base n) ws) = (n mod 2 \<noteq> 0) \<and>
    length data = 256 * n_sectors (decode (drive_mode n s) (port_base n) ws) \<and>
    store (decode (drive_mode n s) (port_base n) ws) data disk = overlay m buf (unat off) (unat count) disk"
proof -
  define sectors where "sectors = ata_sectors s ! unat n"
  define so where "so = off - (off AND NOT (ATA_SECTOR_SIZE - 1))"
  obtain st e where se: "sector_range sectors count off = (st, e)"
    by (cases "sector_range sectors count off")
  define sc where "sc = (ucast (e - st) :: u32)"
  have so: "unat so = unat off mod 512"
    by (simp only: so_def unat_start_offset)
  have S: "unat sectors \<le> 2 ^ 48"
    using rng by (auto simp: in_range_def sectors_def)
  have c0: "unat count \<noteq> 0"
    using cnt by (simp add: unat_eq_0)
  have nw: "unat off + unat count + 511 < 2 ^ 64"
    using fit S by (simp add: sectors_def)
  have off: "unat off div 512 < unat sectors"
    using fit c0 by (simp add: sectors_def)
  note nat = sector_range_nat [OF nw off se]
  have e: "unat e = (unat off + unat count + 511) div 512"
    using nat(2) fit by (auto simp: sectors_def)
  note bnd = sector_count_bound [OF nat(2) off]
  have "unat (e - st) = unat e - unat off div 512"
    using bnd(1) by (subst unat_sub) (simp_all add: word_le_nat_alt nat(1))
  moreover have "unat e - unat off div 512 \<le> (if drive_mode n s = LBA28 then 256 else 65536)"
    using bnd(3) rng by (auto simp: in_range_def)
  ultimately have sc: "unat sc = unat e - unat off div 512"
    and sc_max: "unat sc \<le> (if drive_mode n s = LBA28 then 256 else 65536)"
    by (auto simp: sc_def unsigned_ucast_eq take_bit_eq_mod split: if_splits)
  have "unat sc \<noteq> 0"
    using c0 unfolding sc e by linarith
  define c2 where "c2 = (ucast (e * ATA_SECTOR_SIZE - (ucast count + off)) :: u32)"
  have end_le: "unat off + unat count \<le> unat e * 512" and end_less: "unat e * 512 < unat off + unat count + 512"
    unfolding e by linarith+
  have uoc: "unat (ucast count + off) = unat off + unat count"
    using nw by (subst unat_add_nowrap) (simp_all add: unat_ucast_up)
  have "unat e * 512 + 512 < 2 ^ 64"
    using end_less fit S unfolding sectors_def by simp
  then have ue: "unat (e * ATA_SECTOR_SIZE) = unat e * 512" and e1: "unat (e + 1) = unat e + 1"
    by (simp_all add: unat_times_sectors unat_add_nowrap)
  have ue1: "unat ((e + 1) * ATA_SECTOR_SIZE) = unat e * 512 + 512"
    using \<open>unat e * 512 + 512 < 2 ^ 64\<close> by (simp add: unat_times_sectors e1 del: distrib_right_numeral)
  have "ucast count + off \<le> e * ATA_SECTOR_SIZE"
    unfolding word_le_nat_alt uoc ue by (rule end_le)
  then have "unat (e * ATA_SECTOR_SIZE - (ucast count + off)) = unat e * 512 - (unat off + unat count)"
    by (simp only: unat_sub uoc ue)
  then have c2: "unat c2 = unat e * 512 - (unat off + unat count)" and c2_less: "unat c2 < 512"
    using end_less by (auto simp: c2_def unsigned_ucast_eq take_bit_eq_mod)
  have gt: "ucast count + off < (e + 1) * ATA_SECTOR_SIZE"
    unfolding word_less_nat_alt uoc ue1 using end_le by linarith
  define d where "d = off AND NOT (ATA_SECTOR_SIZE - 1)"
  have d: "unat d = unat off div 512 * 512"
    by (simp only: d_def aligned_down)
  have so32: "unat (ucast so :: u32) = unat so"
    using so by (simp add: unsigned_ucast_eq take_bit_eq_mod)
  have "\<exists>m1. \<exists>s1 \<in> {s, close_ilock n s}.
      (if so \<noteq> 0 then ata_read dev n buf_1 (ucast so) d m s else (0, m, s)) = (int (unat so), m1, s1) \<and>
      m1 = (\<lambda>a. if unat (a - buf_1) < unat so then disk (unat d + unat (a - buf_1)) else m a)"
  proof (cases "so = 0")
    case False
    have "unat (ucast so :: u32) < 512" and "unat d + unat (ucast so :: u32) \<le> (unat (ata_sectors s ! unat n) - 1) * 512"
      using fit unfolding so32 so d by simp_all
    from edge_read [OF drv n4 rng lk insertI1 this, of buf_1 m] show ?thesis
      using False unfolding so32 by auto
  qed auto
  then obtain m1 s1 where r1: "(if so \<noteq> 0 then ata_read dev n buf_1 (ucast so) d m s else (0, m, s)) = (int (unat so), m1, s1)"
    and s1: "s1 \<in> {s, close_ilock n s}"
    and m1: "m1 = (\<lambda>a. if unat (a - buf_1) < unat so then disk (unat d + unat (a - buf_1)) else m a)"
    by blast
  have "unat (ucast count + off) + unat c2 \<le> (unat (ata_sectors s ! unat n) - 1) * 512"
  proof -
    have "unat e \<le> unat (ata_sectors s ! unat n) - 1"
      using bnd(2) by (simp add: sectors_def)
    then show ?thesis
      unfolding uoc c2 using end_le by simp
  qed
  from edge_read [OF drv n4 rng lk s1 c2_less this, of buf_2 m1] obtain m2 s2
    where r2: "ata_read dev n buf_2 c2 (ucast count + off) m1 s1 = (int (unat c2), m2, s2)"
      and s2: "s2 \<in> {s, close_ilock n s}"
      and m2: "m2 = (\<lambda>a. if unat (a - buf_2) < unat c2 then disk (unat (ucast count + off) + unat (a - buf_2)) else m1 a)"
    by blast
  obtain io s3 where io: "ata_io_lock n s2 = (io, s3)" and s3: "s3 = (if n < 2 then s2\<lparr>lock_p := 1\<rparr> else s2\<lparr>lock_s := 1\<rparr>)"
    using n4 by (cases "n < 2") (auto simp: ata_io_lock_def Let_def)
  have mode: "io_mode io = drive_mode n s"
    by (simp add: io_lock_ports [OF n4 io] drive_mode_def [symmetric] same_drive [OF s2])
  have unlock: "ata_io_unlock n s3 = s2"
    using n4 lk by (cases s2) (use same_drive [OF s2] in \<open>simp add: s3 ata_io_unlock_def\<close>)
  define ws where "ws = (if drive_mode n s = LBA28 then ata_write_lba28 io (ucast sc) (ucast st)
    else ata_write_lba48 io (ucast sc) st)"
  have "unat st < unat sectors"
    using off nat(1) by simp
  then have acc: "decode (drive_mode n s) (port_base n) ws =
      \<lparr>com = write_command (drive_mode n s), slave = (n mod 2 \<noteq> 0), first_sector = unat st, n_sectors = unat sc\<rparr>"
    "fst (dev ws) AND STAT_REG_ERR = 0"
    using write_accepted [OF n4 io _ \<open>unat sc \<noteq> 0\<close> refl ws_def drv] sc_max rng
    by (auto simp: in_range_def sectors_def)
  define count' where "count' = (if ucast count > (ucast (sc * ATA_SECTOR_SIZE) - so :: u64)
    then ucast (ucast (sc * ATA_SECTOR_SIZE) - so) else count)"
  have sc64: "unat sc \<le> 65536" "sc \<noteq> 0"
    using sc_max \<open>unat sc \<noteq> 0\<close> by (auto split: if_splits)
  have "unat so < 512"
    by (simp add: so)
  note cut = cut_count [OF sc64(1) this sc64(2) count'_def]
  have "transferred (unat sectors) (unat off) (unat count) = unat count"
    using fit by (simp add: transferred_def sectors_def)
  then have "unat count' = unat count"
    using cut(1) bnd(4) by (simp add: so sc)
  then have count': "count' = count"
    by (simp add: word_unat_eq_iff)
  define B where "B = (\<lambda>k. overlay m buf (unat off) (unat count) disk (unat st * 512 + k))"
  have total_len: "unat sc * 512 = unat so + unat count + unat c2"
  proof -
    have "unat e = unat off div 512 + unat sc" and "unat off div 512 * 512 + unat off mod 512 = unat off"
      using bnd(1) by (simp_all add: sc)
    then show ?thesis
      using end_le unfolding c2 so by linarith
  qed
  have st: "unat st = unat off div 512"
    by (rule nat(1))
  have off_split: "unat off = unat off div 512 * 512 + unat so"
    by (simp add: so)
  have "ata_write_data buf_1 buf_2 buf sc count so m2 = map (word_of B) [0..<unat sc * 256]"
  proof (rule ata_write_data_words)
    fix k low :: nat
    assume "k < unat sc" and "low < 512"
    then have K: "k * 512 + low < unat sc * 512"
      by linarith
    have "write_byte buf_1 buf_2 buf count so (of_nat (k * 512 + low)) low m2 =
        overlay m buf (unat off div 512 * 512 + unat so) (unat count) disk (unat off div 512 * 512 + (k * 512 + low))"
    proof (rule write_byte_overlay)
      show "k * 512 + low < 2 ^ 63"
        using K sc64(1) by simp
      show "low = k * 512 + low" if "k * 512 + low < 512"
        using that by simp
      show "unat so < 512" and "k * 512 + low < unat so + unat count + unat c2"
        using K so by (simp_all add: total_len)
      show "m2 (buf_1 + of_nat j) = disk (unat off div 512 * 512 + j)" if "j < unat so" for j
        using other_bytes [OF m2 apart(1), of j] filled_bytes [OF m1 that] c2_less that \<open>unat so < 512\<close> by (simp add: d)
      show "m2 (buf_2 + of_nat j) = disk (unat off div 512 * 512 + unat so + unat count + j)" if "j < unat c2" for j
        using filled_bytes [OF m2 that] c2_less by (simp add: uoc off_split [symmetric])
      show "m2 (buf + of_nat j) = m (buf + of_nat j)" if "j < unat count" for j
        using other_bytes [OF m2 apart(3) _ that] other_bytes [OF m1 apart(2) _ that] c2_less \<open>unat so < 512\<close>
        by (simp add: less_imp_le)
    qed
    then show "write_byte buf_1 buf_2 buf count so (of_nat (k * 512 + low)) low m2 = B (k * 512 + low)"
      unfolding B_def st off_split [symmetric] .
  qed
  moreover have "ata_write dev buf_1 buf_2 n buf count off m s =
      (int (unat count), ws, ata_write_data buf_1 buf_2 buf sc count so m2, m2, s2)"
  proof -
    have st': "drop_bit 9 off = st"
      using se by (auto simp: sector_range_def Let_def drop_bit_eq_div)
    have e': "(if drop_bit 9 (off + ucast count + ATA_SECTOR_SIZE - 1) \<ge> sectors then sectors - 1
        else drop_bit 9 (off + ucast count + ATA_SECTOR_SIZE - 1)) = e"
      using se by (auto simp: sector_range_def Let_def drop_bit_eq_div)
    have so': "off - d = so"
      by (simp only: so_def d_def)
    have n: "(4 \<le> n) = False" and lt: "(sectors \<le> st) = False"
      using n4 off by (simp_all add: not_le word_less_nat_alt nat(1))
    have ne: "(int k = - 1) = False" for k
      by simp
    have cmd: "(case drive_mode n s of LBA28 \<Rightarrow> Some (ata_write_lba28 io (ucast sc) (ucast st))
        | LBA48 \<Rightarrow> Some (ata_write_lba48 io (ucast sc) st) | _ \<Rightarrow> None) = Some ws"
      using rng by (auto simp: in_range_def ws_def)
    have res: "sint count = int (unat count)"
      using cut(2) by (simp add: count')
    show ?thesis
      unfolding ata_write_def Let_def sectors_def [symmetric] n lt e' st' sc_def [symmetric] d_def [symmetric] so'
        r1 prod.case if_False ne gt [THEN eqTrueI] if_True c2_def [symmetric] r2 io mode cmd option.case acc(2)
        simp_thms unlock count'_def [symmetric] count' res ..
  qed
  moreover have "store (decode (drive_mode n s) (port_base n) ws) (map (word_of B) [0..<unat sc * 256]) disk =
      overlay m buf (unat off) (unat count) disk"
  proof
    fix p
    have "unat off div 512 * 512 \<le> unat off"
      by simp
    then show "store (decode (drive_mode n s) (port_base n) ws) (map (word_of B) [0..<unat sc * 256]) disk p =
        overlay m buf (unat off) (unat count) disk p"
      using total_len off_split by (auto simp: store_words acc(1) st B_def overlay_def)
  qed
  ultimately show ?thesis
    using acc(1) s2 by (intro exI conjI) (assumption | simp)+
qed

section \<open>Properties\<close>

text \<open>A drive that keeps to the documented behaviour, for the witnesses.\<close>

definition model_drive :: "(nat \<Rightarrow> u8) \<Rightarrow> ata_mode \<Rightarrow> u8 \<Rightarrow> drive" where
  "model_drive disk mode n ws =
     (0x50, word_of (\<lambda>p. disk (first_sector (decode mode (port_base n) ws) * 512 + p)))"

lemma model_drive_serves: "drive_serves disk mode n (model_drive disk mode n)"
  by (simp add: drive_serves_def model_drive_def Let_def)

definition sample_ata :: ata_state where
  "sample_ata = \<lparr>ata_modes = 0x0e, ata_sectors = [40, 100, 0, 0], lock_p = 0, lock_s = 0, ilock_p = 0, ilock_s = 0\<rparr>"

lemma sample_ata_simps:
  "drive_mode 1 sample_ata = LBA48" "ata_sectors sample_ata ! unat (1 :: u8) = 100" "lock_p sample_ata = 0"
  "lock_s sample_ata = 0"
  by (simp_all add: sample_ata_def drive_mode_def code_mode_def)

text \<open>C36. \<open>ata_read\<close> on a drive that serves its content: it reports the number of bytes of the
  request that lie before the last sector, stores exactly these bytes of the disk at the buffer and
  changes no other byte of the memory.\<close>

theorem ata_read_delivers:
  assumes "drive_serves disk (drive_mode n s) n dev" and "n < 4"
    and "in_range (drive_mode n s) (unat (ata_sectors s ! unat n)) (unat count)"
    and "unat off + unat count + 511 < 2 ^ 64" and "lock_p s = 0" and "lock_s s = 0"
    and "L = min (unat count) ((unat (ata_sectors s ! unat n) - 1) * 512 - unat off)"
  shows "\<exists>s' \<in> {s, close_ilock n s}. ata_read dev n buf count off m s =
    (int L, (\<lambda>a. if unat (a - buf) < L then disk (unat off + unat (a - buf)) else m a), s')"
  unfolding assms(7) using ata_read_serves [OF assms(1-6)] by (simp only: transferred_def)

theorem ata_read_delivers_witness:
  "\<exists>s' \<in> {sample_ata, close_ilock 1 sample_ata}.
     ata_read (model_drive of_nat LBA48 1) 1 0x5000 1000 50600 (\<lambda>_. 7) sample_ata =
       (int 88, (\<lambda>a. if unat (a - 0x5000) < 88 then of_nat (50600 + unat (a - 0x5000)) else 7), s')"
  using ata_read_delivers [where disk = of_nat and n = 1 and s = sample_ata and dev = "model_drive of_nat LBA48 1"
      and count = 1000 and off = 50600 and L = 88 and buf = "0x5000" and m = "\<lambda>_. 7"]
  unfolding sample_ata_simps by (simp add: model_drive_serves in_range_def cong: if_cong)

text \<open>C17. \<open>ata_write\<close> on a drive that serves its content, for a request that ends before the last
  sector (which the code never writes, \<open>ata.c:344\<close> and \<open>430\<close>) and fits one command (at most 255 sectors with
  28-bit addresses, 65535 with 48-bit ones): it reports the whole count, and the command and the words it sends make the drive's
  content the old one with exactly the buffer laid over the requested bytes; the bytes around
  them in the first and the last sector are written back.\<close>

theorem ata_write_delivers:
  assumes "drive_serves disk (drive_mode n s) n dev" and "n < 4"
    and "in_range (drive_mode n s) (unat (ata_sectors s ! unat n)) (unat count)"
    and "lock_p s = 0" and "lock_s s = 0"
    and "count \<noteq> 0" and "unat off + unat count \<le> (unat (ata_sectors s ! unat n) - 1) * 512"
    and "apart front 512 behind 512" and "apart buf (unat count) front 512" and "apart buf (unat count) behind 512"
  shows "\<exists>ws data m' s'. ata_write dev front behind n buf count off m s = (int (unat count), ws, data, m', s') \<and>
    s' \<in> {s, close_ilock n s} \<and>
    com (decode (drive_mode n s) (port_base n) ws) = write_command (drive_mode n s) \<and>
    slave (decode (drive_mode n s) (port_base n) ws) = (n mod 2 \<noteq> 0) \<and>
    length data = 256 * n_sectors (decode (drive_mode n s) (port_base n) ws) \<and>
    store (decode (drive_mode n s) (port_base n) ws) data disk =
      (\<lambda>p. if unat off \<le> p \<and> p < unat off + unat count then m (buf + of_nat (p - unat off)) else disk p)"
  using ata_write_stores [OF assms] by (simp only: overlay_def [abs_def])

theorem ata_write_delivers_witness:
  "\<exists>ws data m' s'.
     ata_write (model_drive of_nat LBA48 1) 0x1000 0x2000 1 0x5000 1000 700 (\<lambda>_. 7) sample_ata =
       (int 1000, ws, data, m', s') \<and>
     store (decode48 0x1f0 ws) data of_nat = (\<lambda>p. if 700 \<le> p \<and> p < 1700 then 7 else of_nat p)"
proof -
  have a: "apart 0x1000 512 0x2000 512" "apart 0x5000 1000 0x1000 512" "apart 0x5000 1000 0x2000 512"
    by (auto intro: apartI apart_sym [OF apartI])
  show ?thesis
    using ata_write_delivers [where disk = of_nat and n = 1 and s = sample_ata and dev = "model_drive of_nat LBA48 1"
        and count = 1000 and off = 700 and buf = "0x5000" and front = "0x1000" and behind = "0x2000" and m = "\<lambda>_. 7"] a
    unfolding sample_ata_simps
    by (auto simp: model_drive_serves in_range_def decode_def port_base_def cong: if_cong)
qed

text \<open>A request inside the last sector is not cut to nothing by \<open>ata_write\<close>, as \<open>ata_read\<close> cuts it: the
  drive is told to write 65536 sectors, gets no data, and the whole count is reported.\<close>

lemma ata_write_last_sector:
  "(let (r, ws, data, _) = ata_write (model_drive of_nat LBA48 1) 0x1000 0x2000 1 0x5000 100 50689 (\<lambda>_. 7) sample_ata
    in (r, data, first_sector (decode48 0x1f0 ws), n_sectors (decode48 0x1f0 ws))) = (100, [], 99, 65536)"
  by (simp add: ata_write_def ata_read_def sector_range_def Let_def sample_ata_def ata_io_lock_def code_mode_def
      model_drive_def ata_write_data_def ata_write_lba48_def ata_lba48_attr_def decode48_def reg_now_def
      reg_before_def latest_def ata_io_unlock_def not_le)

end
