(* ===== verification/Blocks.thy ===== *)
theory Blocks
  imports Prelude
begin

text \<open>
  What the kernel heap (\<open>src/kernel/mm/alloc.c\<close>) keeps of its blocks and pages, over numbers: a block is its
  address and its length with the header.  A block lies at the start of fresh pages or behind the
  block before it in that block's last page, and a page is given back with the last block in it.
  The locale \<open>page_provider\<close> is the interface to the page allocator that the heap is a client of.
\<close>

type_synonym block = "nat \<times> nat"

definition lo :: "block \<Rightarrow> nat" where
  "lo b = fst b div 4096"

definition hi :: "block \<Rightarrow> nat" where
  "hi b = (fst b + snd b - 1) div 4096"

definition pgs :: "block \<Rightarrow> nat set" where
  "pgs b = {lo b..hi b}"

definition block_ok :: "block \<Rightarrow> bool" where
  "block_ok b \<longleftrightarrow> 0 < lo b \<and> 12 \<le> snd b \<and> fst b + snd b \<le> 196608 * 4096 \<and> (fst b mod 4096 = 0 \<or> lo b = hi b)"

definition follows :: "block \<Rightarrow> block \<Rightarrow> bool" where
  "follows b c \<longleftrightarrow> hi b = lo c \<and> fst b + snd b \<le> fst c \<or> pgs b \<inter> pgs c = {}"

text \<open>From a block on, the blocks of its last page are next to each other.\<close>

fun chain :: "nat \<Rightarrow> block list \<Rightarrow> bool" where
  "chain p [] = True"
| "chain p (c # cs) = (if lo c = p \<and> hi c = p then chain p cs else \<forall>d \<in> set cs. lo d \<noteq> p)"

fun chained :: "block list \<Rightarrow> bool" where
  "chained [] = True"
| "chained (b # bs) = (chain (hi b) bs \<and> chained bs)"

definition layout :: "block list \<Rightarrow> bool" where
  "layout bs \<longleftrightarrow> (\<forall>b \<in> set bs. block_ok b) \<and> sorted_wrt follows bs \<and> chained bs"

definition used :: "block list \<Rightarrow> nat set" where
  "used bs = (\<Union>b \<in> set bs. pgs b)"

lemma used_simps [simp]:
  "used [] = {}" "used (b # bs) = pgs b \<union> used bs" "used (as @ bs) = used as \<union> used bs"
  by (auto simp: used_def)

lemma chain_free: "\<forall>d \<in> set cs. lo d \<noteq> p \<Longrightarrow> chain p cs"
  by (cases cs) auto

lemma chain_remove: "chain p (as @ b # cs) \<Longrightarrow> chain p (as @ cs)"
proof (induction as)
  case Nil
  then show ?case
    by (cases "lo b = p \<and> hi b = p") (simp_all add: chain_free)
next
  case (Cons a as)
  show ?case
  proof (cases "lo a = p \<and> hi a = p")
    case False
    then have "\<forall>d \<in> set (as @ cs). lo d \<noteq> p"
      using Cons.prems by (simp only: append_Cons chain.simps if_False) simp
    then show ?thesis
      using False by (simp only: append_Cons chain.simps if_False)
  qed (use Cons in simp)
qed

lemma chained_remove: "chained (as @ b # cs) \<Longrightarrow> chained (as @ cs)"
proof (induction as)
  case (Cons a as)
  then show ?case
    using chain_remove [of "hi a" as b cs] by simp
qed simp

lemma layout_remove: "layout (as @ b # cs) \<Longrightarrow> layout (as @ cs)"
  using chained_remove [of as b cs] by (simp add: layout_def sorted_wrt_append)

text \<open>All blocks between two that share a page are inside that page.\<close>

lemma chain_between: "chain p (as @ b # cs) \<Longrightarrow> lo b = p \<Longrightarrow> k \<in> set as \<Longrightarrow> lo k = p \<and> hi k = p"
proof (induction as)
  case (Cons a as)
  show ?case
  proof (cases "lo a = p \<and> hi a = p")
    case False
    then have "\<forall>d \<in> set (as @ b # cs). lo d \<noteq> p"
      using Cons.prems(1) by (simp only: append_Cons chain.simps if_False)
    then show ?thesis
      using Cons.prems(2) by simp
  qed (use Cons in auto)
qed simp

lemma chained_chain: "chained (as @ x # ys) \<Longrightarrow> chain (hi x) ys"
  by (induction as) auto

lemma lo_le_hi: "block_ok b \<Longrightarrow> lo b \<le> hi b"
  by (auto simp: block_ok_def lo_def hi_def intro: div_le_mono)

lemma follows_shared:
  assumes "follows b c" and "block_ok b" and "block_ok c"
  shows "pgs b \<inter> pgs c = (if hi b = lo c then {hi b} else {})"
  using assms lo_le_hi [OF assms(2)] lo_le_hi [OF assms(3)] by (auto simp: follows_def pgs_def)

text \<open>The pages that go with a block: without the first, if the block before ends in it, and without
  the last, if the block behind starts in it.\<close>

definition shares_before :: "block list \<Rightarrow> block \<Rightarrow> bool" where
  "shares_before as b \<longleftrightarrow> as \<noteq> [] \<and> hi (last as) = lo b"

definition shares_behind :: "block \<Rightarrow> block list \<Rightarrow> bool" where
  "shares_behind b cs \<longleftrightarrow> cs \<noteq> [] \<and> lo (hd cs) = hi b"

definition freed :: "block list \<Rightarrow> block \<Rightarrow> block list \<Rightarrow> nat set" where
  "freed as b cs = {lo b + of_bool (shares_before as b)..<hi b + 1 - of_bool (shares_behind b cs)}"

lemma shares_before_iff:
  assumes "layout (as @ b # cs)"
  shows "(\<exists>x \<in> set as. hi x = lo b) \<longleftrightarrow> shares_before as b"
proof
  assume "\<exists>x \<in> set as. hi x = lo b"
  then obtain x where x: "x \<in> set as" "hi x = lo b"
    by blast
  then obtain us ys where as: "as = us @ x # ys"
    by (auto dest: split_list)
  have "chain (hi x) (ys @ b # cs)"
    using assms as chained_chain [of us x "ys @ b # cs"] by (simp add: layout_def)
  then have "k \<in> set ys \<Longrightarrow> hi k = lo b" for k
    using chain_between x(2) by fastforce
  then have "hi (last as) = lo b"
    using as x(2) by (cases "ys = []") auto
  then show "shares_before as b"
    using as by (simp add: shares_before_def)
qed (auto simp: shares_before_def intro: last_in_set)

lemma shares_behind_iff:
  assumes "layout (as @ b # cs)"
  shows "(\<exists>y \<in> set cs. lo y = hi b) \<longleftrightarrow> shares_behind b cs"
proof
  assume "\<exists>y \<in> set cs. lo y = hi b"
  then obtain y where y: "y \<in> set cs" "lo y = hi b"
    by blast
  then obtain us ys where cs: "cs = us @ y # ys"
    by (auto dest: split_list)
  have "chain (hi b) (us @ y # ys)"
    using assms cs chained_chain [of as b cs] by (simp add: layout_def)
  then have "k \<in> set us \<Longrightarrow> lo k = hi b" for k
    using chain_between y(2) by fastforce
  then have "lo (hd cs) = hi b"
    using cs y(2) by (cases us) auto
  then show "shares_behind b cs"
    using cs by (simp add: shares_behind_def)
qed (auto simp: shares_behind_def intro: hd_in_set)

text \<open>These are exactly the pages that no other block uses.\<close>

lemma freed_exact:
  assumes "layout (as @ b # cs)"
  shows "freed as b cs = pgs b - used (as @ cs)"
proof -
  have ok: "block_ok b" "\<And>x. x \<in> set as \<Longrightarrow> block_ok x" "\<And>x. x \<in> set cs \<Longrightarrow> block_ok x"
    and f: "\<And>x. x \<in> set as \<Longrightarrow> follows x b" "\<And>y. y \<in> set cs \<Longrightarrow> follows b y"
    using assms by (auto simp: layout_def sorted_wrt_append)
  have "pgs b \<inter> used as = (if \<exists>x \<in> set as. hi x = lo b then {lo b} else {})"
    using follows_shared [OF f(1) ok(2) ok(1)] unfolding used_def by (fastforce split: if_splits)
  moreover have "pgs b \<inter> used cs = (if \<exists>y \<in> set cs. lo y = hi b then {hi b} else {})"
    using follows_shared [OF f(2) ok(1) ok(3)] unfolding used_def by (fastforce split: if_splits)
  moreover have "pgs b - used (as @ cs) = pgs b - (pgs b \<inter> used as) - (pgs b \<inter> used cs)"
    by auto
  ultimately show ?thesis
    unfolding shares_before_iff [OF assms] shares_behind_iff [OF assms]
    using lo_le_hi [OF ok(1)] by (auto simp: freed_def pgs_def)
qed

section \<open>New blocks\<close>

lemma chain_snoc:
  assumes "chain p bs" and "lo x = p \<Longrightarrow> \<forall>b \<in> set bs. lo b = p \<and> hi b = p"
  shows "chain p (bs @ [x])"
  using assms
proof (induction bs)
  case (Cons b bs)
  show ?case
  proof (cases "lo b = p \<and> hi b = p")
    case False
    then have "lo x \<noteq> p"
      using Cons.prems(2) by (meson list.set_intros(1))
    then show ?thesis
      using False Cons.prems(1) by (simp only: append_Cons chain.simps if_False) simp
  next
    case True
    have "chain p (bs @ [x])"
    proof (rule Cons.IH)
      show "chain p bs"
        using Cons.prems(1) True by simp
      show "lo x = p \<Longrightarrow> \<forall>b \<in> set bs. lo b = p \<and> hi b = p"
        using Cons.prems(2) by (meson list.set_intros(2))
    qed
    then show ?thesis
      using True by simp
  qed
qed simp

lemma chained_snoc:
  assumes "chained bs"
    and "\<And>us b vs. bs = us @ b # vs \<Longrightarrow> hi b = lo x \<Longrightarrow> \<forall>c \<in> set vs. lo c = lo x \<and> hi c = lo x"
  shows "chained (bs @ [x])"
  using assms
proof (induction bs)
  case (Cons b bs)
  have "chain (hi b) (bs @ [x])"
  proof (rule chain_snoc)
    show "chain (hi b) bs"
      using Cons.prems(1) by simp
    show "lo x = hi b \<Longrightarrow> \<forall>c \<in> set bs. lo c = hi b \<and> hi c = hi b"
      using Cons.prems(2) [of "[]" b bs] by (metis append_Nil)
  qed
  moreover have "chained (bs @ [x])"
  proof (rule Cons.IH)
    show "chained bs"
      using Cons.prems(1) by simp
    show "\<forall>c \<in> set vs. lo c = lo x \<and> hi c = lo x" if "bs = us @ c # vs" "hi c = lo x" for us c vs
      using Cons.prems(2) [of "b # us" c vs] that by (metis append_Cons)
  qed
  ultimately show ?case
    by simp
qed simp

text \<open>A block behind the tail, in the rest of its last page.\<close>

definition tail_room :: "block \<Rightarrow> nat" where
  "tail_room b = (4096 - (fst b + snd b) mod 4096) mod 4096"

lemma tail_block:
  assumes "block_ok b" and "12 \<le> l" and "l \<le> tail_room b"
  shows "block_ok (fst b + snd b, l)" "lo (fst b + snd b, l) = hi b" "hi (fst b + snd b, l) = hi b"
proof -
  let ?e = "fst b + snd b"
  have r: "?e mod 4096 + l \<le> 4096" "?e mod 4096 \<noteq> 0"
    using assms(2, 3) by (cases "?e mod 4096 = 0"; simp add: tail_room_def)+
  have e: "4096 * (?e div 4096) + ?e mod 4096 = ?e" "?e mod 4096 < 4096"
    by simp_all
  have "(?e - 1) div 4096 = ?e div 4096"
    using r e by (intro div_nat_eqI; simp only: mult_Suc_right; linarith)
  moreover have "(?e + l - 1) div 4096 = ?e div 4096"
    using r e assms(2) by (intro div_nat_eqI; simp only: mult_Suc_right; linarith)
  ultimately show "lo (?e, l) = hi b" and "hi (?e, l) = hi b"
    by (simp_all add: lo_def hi_def)
  moreover have "?e div 4096 < 196608"
  proof -
    have "?e \<le> 196608 * 4096"
      using assms(1) by (simp add: block_ok_def)
    then have "4096 * (?e div 4096) < 4096 * 196608"
      using e(1) r(2) by linarith
    then show ?thesis
      by simp
  qed
  then have "?e + l \<le> 196608 * 4096"
    using e(1) r(1) by linarith
  ultimately show "block_ok (?e, l)"
    using assms lo_le_hi [OF assms(1)] by (simp add: block_ok_def)
qed

lemma layout_tail:
  assumes "layout (bs @ [b])" and "12 \<le> l" and "l \<le> tail_room b"
  shows "layout (bs @ [b, (fst b + snd b, l)])" and "pgs (fst b + snd b, l) \<subseteq> pgs b"
proof -
  let ?x = "(fst b + snd b, l)"
  have ok: "block_ok b" "\<And>a. a \<in> set bs \<Longrightarrow> block_ok a" "\<And>a. a \<in> set bs \<Longrightarrow> follows a b" "chained (bs @ [b])"
    and s: "sorted_wrt follows bs"
    using assms(1) by (auto simp: layout_def sorted_wrt_append)
  note x = tail_block [OF ok(1) assms(2, 3)]
  show sub: "pgs ?x \<subseteq> pgs b"
    using lo_le_hi [OF ok(1)] by (simp add: pgs_def x)
  have bx: "follows b ?x"
    by (simp add: follows_def x)
  have ax: "follows a ?x" if a: "a \<in> set bs" for a
  proof (cases "hi a = lo b \<and> lo b = hi b")
    case True
    then have "fst a + snd a \<le> fst b"
      using ok(3) [OF a] lo_le_hi [OF ok(2) [OF a]] by (auto simp: follows_def pgs_def)
    then show ?thesis
      using True by (simp add: follows_def x)
  next
    case False
    then have "hi b \<notin> pgs a"
      using follows_shared [OF ok(3) [OF a] ok(2) [OF a] ok(1)] lo_le_hi [OF ok(1)]
      by (fastforce simp: pgs_def split: if_splits)
    then show ?thesis
      by (simp add: follows_def pgs_def x)
  qed
  have "chained ((bs @ [b]) @ [?x])"
  proof (rule chained_snoc [OF ok(4)], intro ballI)
    fix us a vs c
    assume split: "bs @ [b] = us @ a # vs" and h: "hi a = lo ?x" and c: "c \<in> set vs"
    then have a: "a \<in> set bs" and "vs \<noteq> []"
      by (cases vs rule: rev_cases; auto)+
    then obtain ws where vs: "vs = ws @ [b]"
      using split by (cases vs rule: rev_cases) auto
    have "hi b \<in> pgs a \<inter> pgs b"
      using h lo_le_hi [OF ok(1)] lo_le_hi [OF ok(2) [OF a]] by (simp add: pgs_def x)
    then have b: "lo b = hi b" "hi a = lo b"
      using follows_shared [OF ok(3) [OF a] ok(2) [OF a] ok(1)] by (auto split: if_splits)
    have "chain (hi a) (ws @ [b])"
      using ok(4) split vs chained_chain [of us a vs] by simp
    then have "c \<in> set ws \<Longrightarrow> lo c = hi a \<and> hi c = hi a"
      using chain_between [of "hi a" ws b "[]" c] b by simp
    then show "lo c = lo ?x \<and> hi c = lo ?x"
      using c vs b h by (auto simp: x)
  qed
  then show "layout (bs @ [b, ?x])"
    using assms(1) x(1) bx ax by (auto simp: layout_def sorted_wrt_append)
qed

lemma layout_fresh:
  assumes "layout bs" and "block_ok x" and "pgs x \<inter> used bs = {}"
  shows "layout (bs @ [x])"
proof -
  have ok: "block_ok b" if "b \<in> set bs" for b
    using assms(1) that by (simp add: layout_def)
  have "pgs b \<inter> pgs x = {}" if "b \<in> set bs" for b
    using assms(3) that by (auto simp: used_def)
  moreover have "hi b \<noteq> lo x" if "b \<in> set bs" for b
    using \<open>b \<in> set bs \<Longrightarrow> pgs b \<inter> pgs x = {}\<close> that lo_le_hi [OF ok [OF that]] lo_le_hi [OF assms(2)]
    by (auto simp: pgs_def)
  then have "chained (bs @ [x])"
    using assms(1) by (intro chained_snoc) (auto simp: layout_def)
  ultimately show ?thesis
    using assms(1, 2) by (auto simp: layout_def sorted_wrt_append follows_def)
qed

text \<open>Blocks do not overlap.\<close>

lemma layout_disjoint:
  assumes "layout (as @ b # cs)" and "c \<in> set (as @ cs)"
  shows "{fst b..<fst b + snd b} \<inter> {fst c..<fst c + snd c} = {}"
proof -
  have sep: "{fst x..<fst x + snd x} \<inter> {fst y..<fst y + snd y} = {}" if "follows x y" for x y
  proof -
    have "k div 4096 \<in> pgs z" if "k \<in> {fst z..<fst z + snd z}" for k z
      using that by (auto simp: pgs_def lo_def hi_def intro: div_le_mono)
    then have "pgs x \<inter> pgs y = {} \<Longrightarrow> ?thesis"
      by blast
    then show ?thesis
      using \<open>follows x y\<close> unfolding follows_def by fastforce
  qed
  have "follows b c \<or> follows c b"
    using assms by (auto simp: layout_def sorted_wrt_append)
  then show ?thesis
    using sep [of b c] sep [of c b] by (metis Int_commute)
qed

lemma page_count:
  assumes "block_ok b"
  shows "(snd b + 4095) div 4096 + lo b = hi b + 1"
proof -
  have s: "12 \<le> snd b"
    using assms by (simp add: block_ok_def)
  have split: "fst b = 4096 * lo b + fst b mod 4096"
    by (simp add: lo_def)
  show ?thesis
  proof (cases "fst b mod 4096 = 0")
    case True
    then have "fst b + snd b - 1 = snd b - 1 + 4096 * lo b"
      using split s by linarith
    then have "hi b = (snd b - 1) div 4096 + lo b"
      unfolding hi_def by simp
    moreover have "(snd b + 4095) div 4096 = (snd b - 1) div 4096 + 1"
      using s by linarith
    ultimately show ?thesis
      by simp
  next
    case False
    then have e: "lo b = hi b"
      using assms by (simp add: block_ok_def)
    have "fst b + snd b - 1 < 4096 * hi b + 4096"
      unfolding hi_def by linarith
    then have "snd b \<le> 4096"
      using split e by linarith
    then have "(snd b + 4095) div 4096 = 1"
      using s by linarith
    then show ?thesis
      using e by simp
  qed
qed

section \<open>The page allocator as the heap uses it\<close>

text \<open>\<open>pages\<close> are the numbers of the pages in use, \<open>room n\<close> says that \<open>n\<close> pages can be had.\<close>

locale page_provider =
  fixes ok :: "'s \<Rightarrow> bool" and pages :: "'s \<Rightarrow> nat set" and room :: "nat \<Rightarrow> 's \<Rightarrow> bool"
    and alloc :: "u32 \<Rightarrow> 's \<Rightarrow> (u32 \<times> 's) option" and release :: "u32 \<Rightarrow> u32 \<Rightarrow> 's \<Rightarrow> 's"
  assumes alloc_pages: "ok s \<Longrightarrow> 0 < n \<Longrightarrow> room (unat n) s \<Longrightarrow>
      \<exists>a t. alloc n s = Some (a, t) \<and> ok t \<and> a \<noteq> NULL \<and> unat a mod 4096 = 0 \<and>
        unat a div 4096 + unat n \<le> 196608 \<and>
        pages t = pages s \<union> {unat a div 4096..<unat a div 4096 + unat n} \<and>
        pages s \<inter> {unat a div 4096..<unat a div 4096 + unat n} = {}"
    and release_pages: "ok s \<Longrightarrow> 0 < n \<Longrightarrow> unat a mod 4096 = 0 \<Longrightarrow>
      {unat a div 4096..<unat a div 4096 + unat n} \<subseteq> pages s \<Longrightarrow>
      ok (release a n s) \<and> pages (release a n s) = pages s - {unat a div 4096..<unat a div 4096 + unat n}"
begin

text \<open>The heap has the pages of its blocks; the pages \<open>other\<close> belong to other users.\<close>

definition heap_ok :: "nat set \<Rightarrow> block list \<Rightarrow> 's \<Rightarrow> bool" where
  "heap_ok other bs s \<longleftrightarrow> ok s \<and> layout bs \<and> pages s = other \<union> used bs \<and> other \<inter> used bs = {}"

lemma heap_grow_tail:
  assumes "heap_ok other (bs @ [b]) s" and "12 \<le> l" and "l \<le> tail_room b"
  shows "heap_ok other (bs @ [b, (fst b + snd b, l)]) s"
  using assms layout_tail [OF _ assms(2, 3), of bs] by (auto simp: heap_ok_def)

lemma heap_grow_pages:
  assumes "heap_ok other bs s" and "12 \<le> l" and "unat n = (l + 4095) div 4096" and "room (unat n) s"
  shows "\<exists>a t. alloc n s = Some (a, t) \<and> a \<noteq> NULL \<and> heap_ok other (bs @ [(unat a, l)]) t"
proof -
  have "0 < unat n"
    using assms(2) unfolding assms(3) by linarith
  then have "0 < n"
    by (simp add: word_less_nat_alt)
  moreover have "ok s"
    using assms(1) by (simp add: heap_ok_def)
  ultimately have "ok s" "0 < n"
    by simp_all
  from alloc_pages [OF this assms(4)] obtain a t where a: "alloc n s = Some (a, t)" "ok t" "a \<noteq> NULL"
      "unat a mod 4096 = 0" "unat a div 4096 + unat n \<le> 196608"
      "pages t = pages s \<union> {unat a div 4096..<unat a div 4096 + unat n}"
      "pages s \<inter> {unat a div 4096..<unat a div 4096 + unat n} = {}"
    by (elim exE conjE) (rule that)
  have u: "unat a = unat a div 4096 * 4096"
    using a(4) by auto
  have pgs: "pgs (unat a, l) = {unat a div 4096..<unat a div 4096 + unat n}"
  proof -
    have "(unat a + l - 1) div 4096 = unat a div 4096 + (l - 1) div 4096"
    proof -
      have "unat a + l - 1 = l - 1 + unat a div 4096 * 4096"
        using u assms(2) by linarith
      then show ?thesis
        by (simp only: div_mult_self3)
    qed
    moreover have "unat n = (l - 1) div 4096 + 1"
      unfolding assms(3) using assms(2) by linarith
    ultimately show ?thesis
      by (auto simp: pgs_def lo_def hi_def)
  qed
  have "0 < unat a"
    using a(3) by (simp add: unat_gt_0)
  moreover have "unat a + l \<le> 196608 * 4096"
    using a(5) u assms(3) by linarith
  ultimately have "block_ok (unat a, l)"
    using a(4) assms(2) by (auto simp: block_ok_def lo_def)
  moreover have "pgs (unat a, l) \<inter> used bs = {}"
    using assms(1) a(7) unfolding pgs by (auto simp: heap_ok_def)
  ultimately have "layout (bs @ [(unat a, l)])"
    using assms(1) by (intro layout_fresh) (simp_all add: heap_ok_def)
  then show ?thesis
    using assms(1) a(1-3, 6, 7) pgs by (intro exI [of _ a] exI [of _ t]) (auto simp: heap_ok_def)
qed

text \<open>\<open>first\<close> and \<open>num\<close> are what \<open>kfree\<close> computes.\<close>

lemma heap_shrink:
  assumes "heap_ok other (as @ b # cs) s"
    and "unat first = (lo b + of_bool (shares_before as b)) * 4096"
    and "num = int ((snd b + 4095) div 4096) - of_bool (shares_before as b) - of_bool (shares_behind b cs)"
  shows "heap_ok other (as @ cs) (if num > 0 then release first (of_int num) s else s)"
proof -
  have l: "layout (as @ b # cs)" and ok: "ok s"
    using assms(1) by (simp_all add: heap_ok_def)
  have b: "block_ok b"
    using l by (simp add: layout_def)
  have n: "int ((snd b + 4095) div 4096) = int (hi b) - int (lo b) + 1"
    using page_count [OF b] lo_le_hi [OF b] by simp
  have freed: "freed as b cs = {unat first div 4096..<unat first div 4096 + nat num}"
    using lo_le_hi [OF b] unfolding assms(2, 3) n by (auto simp: freed_def of_bool_def)
  have used: "used (as @ cs) = used (as @ b # cs) - freed as b cs"
    using freed_exact [OF l] by auto
  show ?thesis
  proof (cases "num > 0")
    case True
    have "num \<le> int (hi b) + 1"
      unfolding assms(3) n by simp
    moreover have "hi b < 196608"
      using b by (auto simp: block_ok_def hi_def)
    ultimately have "unat (of_nat (nat num) :: u32) = nat num"
      by (intro unat_of_nat_u32) linarith
    then have u: "unat (of_int num :: u32) = nat num"
      using True by simp
    have "unat first mod 4096 = 0"
      by (simp add: assms(2))
    moreover have "0 < (of_int num :: u32)"
      using True by (simp add: word_less_nat_alt u)
    moreover have "{unat first div 4096..<unat first div 4096 + unat (of_int num :: u32)} \<subseteq> pages s"
      unfolding u freed [symmetric] using assms(1) freed_exact [OF l] by (auto simp: heap_ok_def)
    ultimately have "ok (release first (of_int num) s)" "pages (release first (of_int num) s) = pages s - freed as b cs"
      using release_pages [OF ok, of "of_int num" first] by (simp_all only: u freed)
    then show ?thesis
      using True assms(1) used freed_exact [OF l] layout_remove [OF l] by (auto simp: heap_ok_def)
  next
    case False
    then show ?thesis
      using assms(1) used freed layout_remove [OF l] by (auto simp: heap_ok_def)
  qed
qed

end

end
