(* ===== verification/Links.thy ===== *)
theory Links
  imports Prelude
begin

text \<open>
  Doubly linked lists through memory, as the kernel heap (\<open>src/kernel/mm/alloc.c\<close>) and the disk
  table (\<open>src/kernel/dev/disk.c\<close>) keep them: each node has a \<open>last\<close> and a \<open>next\<close> pointer, both
  \<open>NULL\<close> at the ends, and new nodes are put behind the tail.  The pointers are functions of the
  address of the node.
\<close>

definition head :: "u32 list \<Rightarrow> u32" where
  "head xs = (case xs of [] \<Rightarrow> NULL | x # _ \<Rightarrow> x)"

definition tail_of :: "u32 \<Rightarrow> u32 list \<Rightarrow> u32" where
  "tail_of p xs = (if xs = [] then p else last xs)"

fun dll :: "(u32 \<Rightarrow> u32) \<Rightarrow> (u32 \<Rightarrow> u32) \<Rightarrow> u32 \<Rightarrow> u32 list \<Rightarrow> bool" where
  "dll l n p [] = True"
| "dll l n p (x # xs) = (x \<noteq> NULL \<and> x \<notin> set xs \<and> l x = p \<and> n x = head xs \<and> dll l n x xs)"

lemma head_simps [simp]: "head [] = NULL" "head (x # xs) = x"
  by (simp_all add: head_def)

lemma tail_of_simps [simp]: "tail_of p [] = p" "tail_of p (x # xs) = tail_of x xs" "tail_of p (xs @ [x]) = x"
  by (simp_all add: tail_of_def)

lemma head_append: "head (xs @ ys) = (if xs = [] then head ys else head xs)"
  by (cases xs) simp_all

lemma tail_of_append: "tail_of p (xs @ ys) = tail_of (tail_of p xs) ys"
  by (simp add: tail_of_def)

lemma tail_of_in: "tail_of p xs = p \<or> tail_of p xs \<in> set xs"
  by (simp add: tail_of_def)

lemma dll_cong:
  assumes "\<And>x. x \<in> set xs \<Longrightarrow> l x = l' x \<and> n x = n' x"
  shows "dll l n p xs = dll l' n' p xs"
  using assms by (induction xs arbitrary: p) auto

lemma dll_distinct: "dll l n p xs \<Longrightarrow> distinct xs \<and> NULL \<notin> set xs"
  by (induction xs arbitrary: p) auto

lemma dll_append:
  "dll l n p (xs @ ys) \<longleftrightarrow>
    dll l (\<lambda>x. if xs \<noteq> [] \<and> x = last xs then NULL else n x) p xs \<and> (xs \<noteq> [] \<longrightarrow> n (last xs) = head ys) \<and>
    dll l n (tail_of p xs) ys \<and> set xs \<inter> set ys = {}"
proof (induction xs arbitrary: p)
  case (Cons x xs)
  show ?case
  proof (cases "xs = []")
    case False
    have c: "dll l (\<lambda>y. if y = last xs then NULL else n y) x xs \<Longrightarrow> x \<notin> set xs \<Longrightarrow> x \<noteq> last xs"
      using False by (metis last_in_set)
    then show ?thesis
      using Cons [of x] False by (auto simp: head_append)
  qed auto
qed simp

text \<open>The pointers of a node inside a list.\<close>

lemma dll_node:
  assumes "dll l n p (xs @ b # ys)"
  shows "b \<noteq> NULL" "l b = tail_of p xs" "n b = head ys" "b \<notin> set xs" "b \<notin> set ys" "distinct (xs @ b # ys)"
  using assms dll_distinct [OF assms] by (auto simp: dll_append)

text \<open>A new node behind the tail.\<close>

lemma dll_snoc:
  assumes "dll l n NULL xs" and "b \<notin> set xs" and "b \<noteq> NULL"
    and "l' b = tail_of NULL xs" and "n' b = NULL" and "xs \<noteq> [] \<Longrightarrow> n' (last xs) = b"
    and "\<And>x. x \<in> set xs \<Longrightarrow> l' x = l x" and "\<And>x. x \<in> set xs \<Longrightarrow> x \<noteq> last xs \<Longrightarrow> n' x = n x"
  shows "dll l' n' NULL (xs @ [b])"
proof -
  have "dll l (\<lambda>x. if xs \<noteq> [] \<and> x = last xs then NULL else n x) NULL xs"
    using assms(1) by (simp add: dll_append [of l n NULL xs "[]", simplified])
  then have "dll l' (\<lambda>x. if xs \<noteq> [] \<and> x = last xs then NULL else n' x) NULL xs"
    using assms(7, 8) by (subst dll_cong [where l' = l and n' = "\<lambda>x. if xs \<noteq> [] \<and> x = last xs then NULL else n x"]) auto
  then show ?thesis
    using assms(2-6) by (auto simp: dll_append)
qed

text \<open>Unlinking a node: the neighbours point to each other.\<close>

lemma dll_remove:
  assumes "dll l n NULL (xs @ b # ys)"
    and "\<And>x. x \<in> set (xs @ ys) \<Longrightarrow> n' x = (if x = l b then n b else n x)"
    and "\<And>x. x \<in> set (xs @ ys) \<Longrightarrow> l' x = (if x = n b then l b else l x)"
  shows "dll l' n' NULL (xs @ ys)"
proof -
  note node = dll_node [OF assms(1)]
  have d: "dll l (\<lambda>x. if xs \<noteq> [] \<and> x = last xs then NULL else n x) NULL xs" "dll l n b ys" "set xs \<inter> set ys = {}"
    using assms(1) by (auto simp: dll_append)
  have nl: "NULL \<notin> set xs" "NULL \<notin> set ys"
    using dll_distinct [OF assms(1)] by auto
  have lb: "xs \<noteq> [] \<Longrightarrow> l b = last xs" "xs = [] \<Longrightarrow> l b = NULL"
    using node(2) by (simp_all add: tail_of_def)
  have 1: "dll l' (\<lambda>x. if xs \<noteq> [] \<and> x = last xs then NULL else n' x) NULL xs"
  proof (subst dll_cong [where l' = l and n' = "\<lambda>x. if xs \<noteq> [] \<and> x = last xs then NULL else n x"])
    fix x assume x: "x \<in> set xs"
    have "x \<noteq> n b"
      using x node(3) d(3) nl by (cases ys) auto
    then show "l' x = l x \<and> (if xs \<noteq> [] \<and> x = last xs then NULL else n' x) = (if xs \<noteq> [] \<and> x = last xs then NULL else n x)"
      using x assms(2, 3) [of x] lb nl by auto
  qed (rule d(1))
  have 2: "xs \<noteq> [] \<Longrightarrow> n' (last xs) = head ys"
    using assms(2) [of "last xs"] lb(1) node(3) by simp
  have 3: "dll l' n' (tail_of NULL xs) ys"
  proof (cases ys)
    case (Cons y zs)
    then have d2: "y \<notin> set zs" "n y = head zs" "dll l n y zs" "y \<noteq> NULL"
      using d(2) by auto
    have nb: "n b = y"
      using node(3) Cons by simp
    have ne: "x \<noteq> l b" if "x \<in> set ys" for x
      using that d(3) nl node(2) tail_of_in [of NULL xs] by auto
    have "dll l' n' y zs"
    proof (subst dll_cong [where l' = l and n' = n])
      fix x assume "x \<in> set zs"
      then show "l' x = l x \<and> n' x = n x"
        using Cons assms(2, 3) [of x] ne [of x] nb d2(1) by auto
    qed (rule d2(3))
    moreover have "l' y = tail_of NULL xs" "n' y = head zs"
      using Cons assms(2, 3) [of y] ne [of y] nb node(2) d2(2) by auto
    ultimately show ?thesis
      using Cons d2 by simp
  qed simp
  show ?thesis
    using 1 2 3 d(3) by (simp add: dll_append)
qed

end
