(* ===== verification/Heap.thy ===== *)
theory Heap
  imports Vmm Blocks Links
begin

text \<open>
  The kernel heap: \<open>src/kernel/mm/alloc.c\<close> over the dynamic kernel pages of theory \<open>Vmm\<close>.  The headers
  are a function of their address; that no two blocks overlap, so that no block's data is another
  block's header, is part of what is shown.  An allocation returns \<open>None\<close> when the page search of
  \<open>vmm_alloc_page\<close> never ends.
\<close>

section \<open>State and operations\<close>

record alloc_header =
  a_last :: u32
  a_next :: u32
  a_length :: u32

record heap_state =
  mm :: mm_state
  hdr :: "u32 \<Rightarrow> alloc_header"
  alloc_pos :: u32

definition upd_hdr :: "u32 \<Rightarrow> (alloc_header \<Rightarrow> alloc_header) \<Rightarrow> heap_state \<Rightarrow> heap_state" where
  "upd_hdr a f s = s\<lparr>hdr := (hdr s)(a := f (hdr s a))\<rparr>"

definition page_down :: "u32 \<Rightarrow> u32" where
  "page_down a = a AND NOT (PAGE_SIZE - 1)"

text \<open>The end of \<open>kmalloc\<close>: the header of the new block \<open>m\<close>, behind the block at \<open>pos\<close>.\<close>

definition link_block :: "u32 \<Rightarrow> u32 \<Rightarrow> heap_state \<Rightarrow> u32 \<times> heap_state" where
  "link_block m len s =
     (let s1 = upd_hdr m (\<lambda>_. \<lparr>a_last = alloc_pos s, a_next = NULL, a_length = len\<rparr>) s;
          s2 = (if alloc_pos s1 \<noteq> NULL then upd_hdr (alloc_pos s1) (\<lambda>h. h\<lparr>a_next := m\<rparr>) s1 else s1)
      in (m + 12, s2\<lparr>alloc_pos := m\<rparr>))"

definition kmalloc :: "u32 \<Rightarrow> heap_state \<Rightarrow> (u32 \<times> heap_state) option" where
  "kmalloc n s =
     (let len = n + 12;
          e = alloc_pos s + a_length (hdr s (alloc_pos s))
      in if alloc_pos s \<noteq> NULL \<and> page_down (e + PAGE_SIZE - 1) - e \<ge> len then Some (link_block e len s)
         else
           (case vmm_alloc_page ((len + PAGE_SIZE - 1) div PAGE_SIZE) (mm s) of
              None \<Rightarrow> None
            | Some (m, t) \<Rightarrow>
                if m = NULL then Some (NULL, s\<lparr>mm := t\<rparr>) else Some (link_block m len (s\<lparr>mm := t\<rparr>))))"

text \<open>\<open>num\<close> is signed in the source; \<open>mem\<close> is not changed by the writes to its neighbours.\<close>

definition kfree :: "u32 \<Rightarrow> heap_state \<Rightarrow> heap_state" where
  "kfree p s =
     (let m = p - 12;
          h = hdr s m;
          attr = page_down m;
          num = int (unat ((a_length h + PAGE_SIZE - 1) div PAGE_SIZE));
          (attr, num, s1) =
            (if a_last h \<noteq> NULL then
               (let s1 = upd_hdr (a_last h) (\<lambda>g. g\<lparr>a_next := a_next h\<rparr>) s
                in if page_down (a_last h + a_length (hdr s1 (a_last h)) - 1) = attr
                   then (attr + PAGE_SIZE, num - 1, s1) else (attr, num, s1))
             else (attr, num, s));
          (num, s2) =
            (if a_next h \<noteq> NULL then
               (let s2 = upd_hdr (a_next h) (\<lambda>g. g\<lparr>a_last := a_last h\<rparr>) s1
                in if page_down (m + a_length h - 1) = page_down (a_next h) then (num - 1, s2) else (num, s2))
             else (num, s1\<lparr>alloc_pos := a_last h\<rparr>))
      in if num > 0 then s2\<lparr>mm := vmm_free_page attr (of_int num) (mm s2)\<rparr> else s2)"

section \<open>The dynamic pages as a provider\<close>

definition vmm_good :: "'a mm_state_scheme \<Rightarrow> bool" where
  "vmm_good s \<longleftrightarrow> mm_inv s \<and> vmm_owned s (dom (vmm_map s))"

definition vmm_pages :: "'a mm_state_scheme \<Rightarrow> nat set" where
  "vmm_pages s = (\<lambda>i. unat (dmmap_page_count s) + i) ` dom (vmm_map s)"

definition vmm_room :: "nat \<Rightarrow> 'a mm_state_scheme \<Rightarrow> bool" where
  "vmm_room n s \<longleftrightarrow> (\<exists>e. e \<le> unat (vmm_pos s) \<and> vmm_run s n e) \<and> n \<le> card (pmm_avail s)"

lemma pmm_free_total: "f \<in> pmm_free s \<Longrightarrow> f < pmm_total s"
  by (simp add: pmm_free_def pmm_total_def)

lemma vmm_owned_alloc:
  assumes "vmm_owned s (dom (vmm_map s))" and "vmm_map t = vmm_map s ++ m" and "dom m \<inter> dom (vmm_map s) = {}"
    and "inj_on m (dom m)" and "ran m \<subseteq> pmm_free s" and "pmm_free t = pmm_free s - ran m"
    and "pmm_total t = pmm_total s"
  shows "vmm_owned t (dom (vmm_map t))"
proof -
  have d: "vmm_map t i = (if i \<in> dom m then m i else vmm_map s i)" for i
    by (auto simp: assms(2) map_add_def split: option.splits)
  have new: "i \<in> dom m \<Longrightarrow> vmm_map t i = Some f \<Longrightarrow> f \<in> ran m" for i f
    by (auto simp: d ran_def)
  have old: "i \<in> dom (vmm_map s) \<Longrightarrow> i \<notin> dom m \<Longrightarrow> vmm_map t i = Some f \<Longrightarrow> f \<notin> pmm_free s \<and> f < pmm_total s" for i f
    using assms(1) by (auto simp: d vmm_owned_def)
  have "inj_on (vmm_map t) (dom (vmm_map s) \<union> dom m)"
  proof (rule inj_onI)
    fix i j assume ij: "i \<in> dom (vmm_map s) \<union> dom m" "j \<in> dom (vmm_map s) \<union> dom m" "vmm_map t i = vmm_map t j"
    then have "i \<in> dom (vmm_map t)"
      by (simp add: assms(2) Un_commute)
    then obtain f where f: "vmm_map t i = Some f" "vmm_map t j = Some f"
      using ij(3) by (metis domD)
    show "i = j"
    proof (cases "i \<in> dom m \<longleftrightarrow> j \<in> dom m")
      case True
      then show ?thesis
        using ij f assms(1, 4) by (cases "i \<in> dom m") (auto simp: d inj_on_def vmm_owned_def)
    next
      case False
      then show ?thesis
        using ij f new [of i f] new [of j f] old [of i f] old [of j f] assms(5) by auto
    qed
  qed
  moreover have "f \<notin> pmm_free t \<and> f < pmm_total t" if "vmm_map t i = Some f" for i f
    using that new [of i f] old [of i f] assms(5-7) pmm_free_total [of f s]
    by (cases "i \<in> dom m") (auto simp: d)
  ultimately show ?thesis
    by (auto simp: vmm_owned_def assms(2) Un_commute)
qed

lemma vmm_owned_free:
  assumes "vmm_owned s (dom (vmm_map s))" and "vmm_map t = vmm_map s |` (- R)"
    and "pmm_free t = pmm_free s \<union> {f. Some f \<in> vmm_map s ` R}" and "pmm_total t = pmm_total s"
    and "R \<subseteq> dom (vmm_map s)"
  shows "vmm_owned t (dom (vmm_map t))"
proof -
  have d: "vmm_map t i = (if i \<in> R then None else vmm_map s i)" for i
    by (simp add: assms(2) restrict_map_def)
  have inj: "inj_on (vmm_map s) (dom (vmm_map s))"
    using assms(1) by (simp add: vmm_owned_def)
  have "f \<notin> pmm_free t \<and> f < pmm_total t" if i: "vmm_map t i = Some f" for i f
  proof -
    have s: "vmm_map s i = Some f" "i \<notin> R"
      using i by (auto simp: d split: if_splits)
    have "Some f \<notin> vmm_map s ` R"
    proof
      assume "Some f \<in> vmm_map s ` R"
      then obtain j where "j \<in> R" "vmm_map s j = Some f"
        by force
      then show False
        using inj s assms(5) by (metis domI inj_on_def)
    qed
    then show ?thesis
      using assms(1, 3, 4) s by (auto simp: vmm_owned_def)
  qed
  moreover have "inj_on (vmm_map t) (dom (vmm_map t))"
  proof (rule inj_onI)
    fix i j assume "i \<in> dom (vmm_map t)" "j \<in> dom (vmm_map t)" "vmm_map t i = vmm_map t j"
    then show "i = j"
      using inj_onD [OF inj, of i j] by (auto simp: d dom_def split: if_splits)
  qed
  ultimately show ?thesis
    by (auto simp: vmm_owned_def)
qed

lemma vmm_map_less: "i \<in> dom (vmm_map s) \<Longrightarrow> i < unat (vmmap_page_count s)"
  using vmm_map_some(2) by auto

lemma vmm_alloc_provides:
  assumes "vmm_good s" and "0 < n" and "vmm_room (unat n) s"
  shows "\<exists>a t. vmm_alloc_page n s = Some (a, t) \<and> vmm_good t \<and> a \<noteq> NULL \<and> unat a mod 4096 = 0 \<and>
        unat a div 4096 + unat n \<le> 196608 \<and>
        vmm_pages t = vmm_pages s \<union> {unat a div 4096..<unat a div 4096 + unat n} \<and>
        vmm_pages s \<inter> {unat a div 4096..<unat a div 4096 + unat n} = {}"
proof -
  have inv: "mm_inv s" and own: "vmm_owned s (dom (vmm_map s))"
    using assms(1) by (simp_all add: vmm_good_def)
  from assms(3) obtain e0 where run: "vmm_run s (unat n) e0" "e0 \<le> unat (vmm_pos s)" and av: "unat n \<le> card (pmm_avail s)"
    by (auto simp: vmm_room_def)
  from vmm_alloc_page_correct [OF inv assms(2) run av] obtain q m a t where
    al: "vmm_alloc_page n s = Some (a, t)" and q: "unat n \<le> q" "q \<le> unat (vmm_pos s)" "vmm_run s (unat n) q"
    and a: "unat a = (unat (dmmap_page_count s) + q + 1 - unat n) * 4096"
    and m: "dom m = {q + 1 - unat n..q}" "inj_on m (dom m)" "ran m \<subseteq> pmm_free s"
      "vmm_map t = vmm_map s ++ m" and t: "pmm_free t = pmm_free s - ran m" "mm_inv t"
    and same: "vmm_same {unat (dmmap_page_count s) + (q + 1 - unat n)..unat (dmmap_page_count s) + q} s t"
    by metis
  let ?d = "unat (dmmap_page_count s)" and ?k = "q + 1 - unat n"
  have d: "dmmap_page_count t = dmmap_page_count s" "pmm_total t = pmm_total s"
    using same by (simp_all add: vmm_same_def)
  have wf: "?d + unat (vmmap_page_count s) \<le> 196608" "q < unat (vmmap_page_count s)"
    using inv q(2) by (auto simp: mm_inv_def vmm_wf_def)
  have n0: "0 < unat n"
    using assms(2) by (simp add: word_less_nat_alt)
  have ad: "unat a div 4096 = ?d + ?k"
    using a q(1) by simp
  have R: "{?k..<?k + unat n} = dom m"
    using m(1) q(1) by auto
  then have img: "{unat a div 4096..<unat a div 4096 + unat n} = (\<lambda>i. ?d + i) ` dom m"
    unfolding ad R [symmetric] image_add_atLeastLessThan by (simp add: ac_simps)
  have none: "vmm_map s i = None" if "i \<in> dom m" for i
  proof -
    have "q - i < unat n" "q - (q - i) = i"
      using that q(1) by (auto simp: m(1))
    with q(3) show ?thesis
      unfolding vmm_run_def by metis
  qed
  then have dis: "dom m \<inter> dom (vmm_map s) = {}"
    unfolding disjoint_iff domIff by simp
  have "vmm_good t"
    using t(2) vmm_owned_alloc [OF own m(4) dis m(2, 3) t(1) d(2)] by (simp add: vmm_good_def)
  moreover have "vmm_pages t = vmm_pages s \<union> {unat a div 4096..<unat a div 4096 + unat n}"
    unfolding img by (auto simp: vmm_pages_def d m(4))
  moreover have "vmm_pages s \<inter> {unat a div 4096..<unat a div 4096 + unat n} = {}"
    using dis unfolding img by (auto simp: vmm_pages_def)
  moreover have "unat a div 4096 + unat n \<le> 196608"
    using wf q(1) unfolding ad by linarith
  moreover have "a \<noteq> NULL"
    using a q(1) n0 by (auto simp: unat_eq_zero [symmetric])
  moreover have "unat a mod 4096 = 0"
    unfolding a by simp
  ultimately show ?thesis
    using al by (intro exI [of _ a] exI [of _ t] conjI) assumption+
qed

lemma vmm_free_provides:
  assumes "vmm_good s" and "0 < n" and "unat a mod 4096 = 0"
    and "{unat a div 4096..<unat a div 4096 + unat n} \<subseteq> vmm_pages s"
  shows "vmm_good (vmm_free_page a n s) \<and>
    vmm_pages (vmm_free_page a n s) = vmm_pages s - {unat a div 4096..<unat a div 4096 + unat n}"
proof -
  have inv: "mm_inv s" and own: "vmm_owned s (dom (vmm_map s))"
    using assms(1) by (simp_all add: vmm_good_def)
  let ?d = "unat (dmmap_page_count s)"
  have n0: "0 < unat n"
    using assms(2) by (simp add: word_less_nat_alt)
  then have "unat a div 4096 \<in> vmm_pages s"
    using assms(4) by auto
  then obtain k where k: "unat a div 4096 = ?d + k" "k \<in> dom (vmm_map s)"
    by (auto simp: vmm_pages_def)
  let ?R = "{k..<k + unat n}"
  have img: "{unat a div 4096..<unat a div 4096 + unat n} = (\<lambda>i. ?d + i) ` ?R"
    unfolding k(1) image_add_atLeastLessThan by (simp add: ac_simps)
  have sub: "?R \<subseteq> dom (vmm_map s)"
    using assms(4) unfolding img vmm_pages_def by (simp only: inj_image_subset_iff [OF inj_on_add])
  have wf: "k < unat (vmmap_page_count s)" "?d + unat (vmmap_page_count s) \<le> 196608"
    using vmm_map_less [OF k(2)] inv by (auto simp: mm_inv_def vmm_wf_def)
  then have uk: "unat (of_nat k :: u32) = k"
    by (intro unat_of_nat_u32) linarith
  then have w: "unat (dmmap_page_count s + of_nat k) = ?d + k"
    using wf by (subst unat_add32) (simp_all add: uk)
  then have "unat ((dmmap_page_count s + of_nat k) * PAGE_SIZE) = (?d + k) * 4096"
    using wf by (subst unat_page_address) (simp_all add: w)
  moreover have "unat a = (?d + k) * 4096"
    using assms(3) k(1) by (metis add.right_neutral div_mult_mod_eq)
  ultimately have ak: "a = (dmmap_page_count s + of_nat k) * PAGE_SIZE"
    by (simp only: word_unat_eq_iff)
  have owned: "vmm_owned s ?R"
    using own sub by (auto simp: vmm_owned_def intro: inj_on_subset)
  note free = vmm_free_page_correct [OF inv assms(2) owned, folded ak]
  have d: "dmmap_page_count (vmm_free_page a n s) = dmmap_page_count s" "pmm_total (vmm_free_page a n s) = pmm_total s"
    using free by (simp_all add: vmm_same_def)
  have "vmm_good (vmm_free_page a n s)"
    using free vmm_owned_free [OF own _ _ d(2) sub] by (simp add: vmm_good_def)
  moreover have "vmm_pages (vmm_free_page a n s) = vmm_pages s - {unat a div 4096..<unat a div 4096 + unat n}"
    using free unfolding img by (auto simp: vmm_pages_def d)
  ultimately show ?thesis
    by blast
qed

interpretation vmm: page_provider vmm_good vmm_pages vmm_room vmm_alloc_page vmm_free_page
  by unfold_locales (blast intro: vmm_alloc_provides, rule vmm_free_provides)

section \<open>The heap as a list of blocks\<close>

definition block_of :: "heap_state \<Rightarrow> u32 \<Rightarrow> block" where
  "block_of s a = (unat a, unat (a_length (hdr s a)))"

text \<open>\<open>as\<close> are the addresses of the blocks, the oldest first; \<open>other\<close> are the pages of other users.\<close>

definition heap_inv :: "nat set \<Rightarrow> u32 list \<Rightarrow> heap_state \<Rightarrow> bool" where
  "heap_inv other as s \<longleftrightarrow> dll (\<lambda>a. a_last (hdr s a)) (\<lambda>a. a_next (hdr s a)) NULL as \<and>
     alloc_pos s = tail_of NULL as \<and> vmm.heap_ok other (map (block_of s) as) (mm s)"

lemma upd_hdr_simps [simp]:
  "hdr (upd_hdr a f s) b = (if b = a then f (hdr s a) else hdr s b)"
  "mm (upd_hdr a f s) = mm s" "alloc_pos (upd_hdr a f s) = alloc_pos s"
  by (simp_all add: upd_hdr_def)

lemma unat_page_down: "unat (page_down a) = unat a div 4096 * 4096"
proof -
  have "PAGE_SIZE - 1 = (mask 12 :: u32)"
    by (simp add: mask_eq_exp_minus_1)
  then show ?thesis
    unfolding page_down_def using unat_and_not_mask [of 12 a] by simp
qed

lemma page_down_eq: "page_down a = page_down b \<longleftrightarrow> unat a div 4096 = unat b div 4096"
  by (simp add: word_unat_eq_iff unat_page_down)

lemma block_end:
  assumes "block_ok (block_of s a)"
  shows "unat (a + a_length (hdr s a)) = unat a + unat (a_length (hdr s a))"
    and "unat (a + a_length (hdr s a) - 1) div 4096 = hi (block_of s a)"
proof -
  have "unat a + unat (a_length (hdr s a)) \<le> 196608 * 4096" and l: "12 \<le> unat (a_length (hdr s a))"
    using assms by (simp_all add: block_ok_def block_of_def)
  then show e: "unat (a + a_length (hdr s a)) = unat a + unat (a_length (hdr s a))"
    by (intro unat_add32) simp
  have "0 < a + a_length (hdr s a)"
    using e l by (simp add: word_less_nat_alt)
  then show "unat (a + a_length (hdr s a) - 1) div 4096 = hi (block_of s a)"
    by (simp add: unat_pred e hi_def block_of_def)
qed

lemma rest_of_page:
  assumes "unat e \<le> 196608 * 4096"
  shows "unat (page_down (e + PAGE_SIZE - 1) - e) = (4096 - unat e mod 4096) mod 4096"
proof -
  have "e + PAGE_SIZE - 1 = e + 4095"
    by simp
  moreover have "unat (e + 4095) = unat e + 4095"
    using assms by (subst unat_add32) simp_all
  ultimately have u: "unat (page_down (e + PAGE_SIZE - 1)) = (unat e + 4095) div 4096 * 4096"
    by (simp only: unat_page_down)
  have "unat e \<le> (unat e + 4095) div 4096 * 4096"
    by linarith
  then have "e \<le> page_down (e + PAGE_SIZE - 1)"
    by (simp only: word_le_nat_alt u)
  from unat_sub [OF this] have "unat (page_down (e + PAGE_SIZE - 1) - e) = (unat e + 4095) div 4096 * 4096 - unat e"
    by (simp only: u)
  also have "\<dots> = (4096 - unat e mod 4096) mod 4096"
  proof (cases "unat e mod 4096 = 0")
    case True
    then show ?thesis
      by (auto elim!: dvdE simp: mod_eq_0_iff_dvd)
  next
    case False
    have "(x + 4095) div 4096 = x div 4096 + 1" if "x mod 4096 \<noteq> 0" for x :: nat
    proof (rule div_nat_eqI)
      have "4096 * (x div 4096) + x mod 4096 = x" "x mod 4096 < 4096"
        by simp_all
      then show "4096 * (x div 4096 + 1) \<le> x + 4095" "x + 4095 < 4096 * Suc (x div 4096 + 1)"
        unfolding mult_Suc_right distrib_left using that by linarith+
    qed
    then have "(unat e + 4095) div 4096 = unat e div 4096 + 1"
      using False by blast
    then show ?thesis
      using False by (simp add: minus_mod_eq_div_mult [symmetric])
  qed
  finally show ?thesis .
qed

lemma link_block_simps:
  "fst (link_block m len s) = m + 12" "mm (snd (link_block m len s)) = mm s"
  "alloc_pos (snd (link_block m len s)) = m"
  by (simp_all add: link_block_def Let_def)

lemma link_block_hdr:
  assumes "m \<noteq> alloc_pos s"
  shows "hdr (snd (link_block m len s)) a =
    (if a = m then \<lparr>a_last = alloc_pos s, a_next = NULL, a_length = len\<rparr>
     else if a = alloc_pos s \<and> a \<noteq> NULL then (hdr s a)\<lparr>a_next := m\<rparr> else hdr s a)"
  using assms by (auto simp: link_block_def Let_def)

text \<open>Linking a block whose pages the heap has.\<close>

lemma heap_inv_link:
  assumes "heap_inv other as s" and "m \<notin> set as" and "m \<noteq> NULL"
    and "vmm.heap_ok other (map (block_of s) as @ [(unat m, unat len)]) t"
  shows "heap_inv other (as @ [m]) (snd (link_block m len (s\<lparr>mm := t\<rparr>)))"
    and "a \<in> set as \<Longrightarrow> block_of (snd (link_block m len (s\<lparr>mm := t\<rparr>))) a = block_of s a"
    and "block_of (snd (link_block m len (s\<lparr>mm := t\<rparr>))) m = (unat m, unat len)"
proof -
  let ?u = "snd (link_block m len (s\<lparr>mm := t\<rparr>))"
  have d: "dll (\<lambda>a. a_last (hdr s a)) (\<lambda>a. a_next (hdr s a)) NULL as" and p: "alloc_pos s = tail_of NULL as"
    using assms(1) by (simp_all add: heap_inv_def)
  have nn: "NULL \<notin> set as"
    using dll_distinct [OF d] by simp
  have mp: "m \<noteq> alloc_pos (s\<lparr>mm := t\<rparr>)"
    using assms(2, 3) p tail_of_in [of NULL as] by auto
  note h = link_block_hdr [OF mp, simplified]
  show old: "a \<in> set as \<Longrightarrow> block_of ?u a = block_of s a" for a
    using assms(2) by (auto simp: block_of_def h)
  show new: "block_of ?u m = (unat m, unat len)"
    by (simp add: block_of_def h)
  have "dll (\<lambda>a. a_last (hdr ?u a)) (\<lambda>a. a_next (hdr ?u a)) NULL (as @ [m])"
  proof (rule dll_snoc [OF d assms(2, 3)])
    show "a_next (hdr ?u (last as)) = m" if "as \<noteq> []"
    proof -
      have "last as \<in> set as"
        using that by simp
      then have "last as \<noteq> NULL" "last as \<noteq> m"
        using nn assms(2) by metis+
      then show ?thesis
        using that p by (simp add: h tail_of_def)
    qed
  qed (use assms(2) p tail_of_in [of NULL as] in \<open>auto simp: h tail_of_def split: if_splits\<close>)
  moreover have map: "map (block_of ?u) (as @ [m]) = map (block_of s) as @ [(unat m, unat len)]"
    using old new by simp
  ultimately show "heap_inv other (as @ [m]) ?u"
    using assms(4) unfolding heap_inv_def map by (simp add: link_block_simps)
qed

section \<open>Allocation\<close>

text \<open>The rest of the last block's last page is enough.\<close>

definition fits_tail :: "heap_state \<Rightarrow> u32 list \<Rightarrow> nat \<Rightarrow> bool" where
  "fits_tail s as len \<longleftrightarrow> as \<noteq> [] \<and> len \<le> tail_room (block_of s (last as))"

lemma heap_inv_layout: "heap_inv other as s \<Longrightarrow> layout (map (block_of s) as)"
  by (simp add: heap_inv_def vmm.heap_ok_def)

lemma heap_inv_block: "heap_inv other as s \<Longrightarrow> a \<in> set as \<Longrightarrow> block_ok (block_of s a)"
  using heap_inv_layout [of other as s] by (simp add: layout_def)

lemma heap_inv_nodup: "heap_inv other as s \<Longrightarrow> distinct as \<and> NULL \<notin> set as"
  unfolding heap_inv_def by (blast dest: dll_distinct)

lemma new_block_fresh:
  assumes "layout (map (block_of s) as @ [(unat m, l)])" and "0 < l"
  shows "m \<notin> set as"
proof
  assume "m \<in> set as"
  then have c: "block_of s m \<in> set (map (block_of s) as @ [])"
    by simp
  have "{unat m..<unat m + l} \<inter> {unat m..<unat m + snd (block_of s m)} = {}"
    using layout_disjoint [OF assms(1) c] by (simp add: block_of_def)
  moreover have "0 < snd (block_of s m)"
    using assms(1) \<open>m \<in> set as\<close> by (auto simp: layout_def block_ok_def)
  ultimately show False
    using assms(2) by (metis IntI add_less_same_cancel1 atLeastLessThan_iff empty_iff le_refl less_add_same_cancel1)
qed

lemma kmalloc_correct:
  assumes inv: "heap_inv other as s" and n: "unat n + 12 + 4095 < 2 ^ 32"
    and avail: "fits_tail s as (unat n + 12) \<or> vmm_room ((unat n + 12 + 4095) div 4096) (mm s)"
  shows "\<exists>b t. kmalloc n s = Some (b + 12, t) \<and> b \<noteq> NULL \<and> b \<notin> set as \<and> heap_inv other (as @ [b]) t \<and>
    block_of t b = (unat b, unat n + 12) \<and> (\<forall>a \<in> set as. block_of t a = block_of s a)"
proof -
  let ?len = "n + 12" and ?e = "alloc_pos s + a_length (hdr s (alloc_pos s))"
  have len: "unat ?len = unat n + 12"
    using n by (subst unat_add32) simp_all
  have pos: "alloc_pos s = tail_of NULL as"
    using inv by (simp add: heap_inv_def)
  have pos0: "alloc_pos s \<noteq> NULL \<longleftrightarrow> as \<noteq> []"
    using pos heap_inv_nodup [OF inv] by (auto simp: tail_of_def) (metis last_in_set)
  have link: "\<exists>b t. Some (link_block m ?len (s\<lparr>mm := u\<rparr>)) = Some (b + 12, t) \<and> b \<noteq> NULL \<and> b \<notin> set as \<and>
      heap_inv other (as @ [b]) t \<and>
      block_of t b = (unat b, unat n + 12) \<and> (\<forall>a \<in> set as. block_of t a = block_of s a)"
    if m: "m \<noteq> NULL" "vmm.heap_ok other (map (block_of s) as @ [(unat m, unat n + 12)]) u" for m u
  proof -
    have "m \<notin> set as"
      using m(2) by (intro new_block_fresh) (auto simp: vmm.heap_ok_def)
    note l = heap_inv_link [OF inv this m(1), of ?len u, unfolded len, OF m(2)]
    show ?thesis
      using l m(1) \<open>m \<notin> set as\<close> link_block_simps(1) [of m ?len "s\<lparr>mm := u\<rparr>"]
      by (intro exI [of _ m] exI [of _ "snd (link_block m ?len (s\<lparr>mm := u\<rparr>))"]) (simp add: prod_eq_iff)
  qed
  have tail: "(alloc_pos s \<noteq> NULL \<and> page_down (?e + PAGE_SIZE - 1) - ?e \<ge> ?len) = fits_tail s as (unat n + 12)"
    and tail_e: "as \<noteq> [] \<Longrightarrow> unat ?e = fst (block_of s (last as)) + snd (block_of s (last as))"
  proof -
    have *: "unat ?e = fst (block_of s (last as)) + snd (block_of s (last as)) \<and>
        unat (page_down (?e + PAGE_SIZE - 1) - ?e) = tail_room (block_of s (last as))" if "as \<noteq> []"
    proof -
      have l: "alloc_pos s = last as"
        using that pos by (simp add: tail_of_def)
      have ok: "block_ok (block_of s (alloc_pos s))"
        using heap_inv_block [OF inv] that l by simp
      have e: "unat ?e = unat (alloc_pos s) + unat (a_length (hdr s (alloc_pos s)))"
        using block_end(1) [OF ok] .
      moreover have "unat ?e \<le> 196608 * 4096"
        using ok unfolding e by (simp add: block_ok_def block_of_def)
      ultimately show ?thesis
        using rest_of_page [of ?e] by (simp add: tail_room_def block_of_def l)
    qed
    then show "(alloc_pos s \<noteq> NULL \<and> page_down (?e + PAGE_SIZE - 1) - ?e \<ge> ?len) = fits_tail s as (unat n + 12)"
      unfolding pos0 fits_tail_def word_le_nat_alt len by auto
    show "as \<noteq> [] \<Longrightarrow> unat ?e = fst (block_of s (last as)) + snd (block_of s (last as))"
      using * by blast
  qed
  show ?thesis
  proof (cases "fits_tail s as (unat n + 12)")
    case True
    then have ne: "as \<noteq> []"
      by (simp add: fits_tail_def)
    have split: "map (block_of s) as = map (block_of s) (butlast as) @ [block_of s (last as)]"
      using ne by (metis append_butlast_last_id list.simps(8, 9) map_append)
    have "vmm.heap_ok other (map (block_of s) as @ [(unat ?e, unat n + 12)]) (mm s)"
      using vmm.heap_grow_tail [of other "map (block_of s) (butlast as)" "block_of s (last as)" "mm s" "unat n + 12"]
        inv True unfolding tail_e [OF ne] by (simp add: heap_inv_def fits_tail_def split)
    moreover have "?e \<noteq> NULL"
      using tail_e [OF ne] heap_inv_block [OF inv last_in_set [OF ne]] by (auto simp: block_ok_def simp flip: unat_eq_0)
    ultimately have "\<exists>b t. Some (link_block ?e ?len (s\<lparr>mm := mm s\<rparr>)) = Some (b + 12, t) \<and> b \<noteq> NULL \<and> b \<notin> set as \<and>
      heap_inv other (as @ [b]) t \<and>
      block_of t b = (unat b, unat n + 12) \<and> (\<forall>a \<in> set as. block_of t a = block_of s a)"
      by (intro link)
    moreover have "kmalloc n s = Some (link_block ?e ?len (s\<lparr>mm := mm s\<rparr>))"
      using True tail by (simp add: kmalloc_def Let_def)
    ultimately show ?thesis
      by simp
  next
    case False
    have cnt: "unat ((?len + PAGE_SIZE - 1) div PAGE_SIZE) = (unat n + 12 + 4095) div 4096"
    proof -
      have "?len + PAGE_SIZE - 1 = ?len + 4095"
        by simp
      moreover have "unat (?len + 4095) = unat n + 12 + 4095"
        using n by (subst unat_add32) (simp_all add: len)
      ultimately show ?thesis
        by (simp only: unat_div_u32) simp
    qed
    have "vmm.heap_ok other (map (block_of s) as) (mm s)"
      using inv by (simp add: heap_inv_def)
    from vmm.heap_grow_pages [OF this _ cnt] False avail obtain a t where
      a: "vmm_alloc_page ((?len + PAGE_SIZE - 1) div PAGE_SIZE) (mm s) = Some (a, t)" "a \<noteq> NULL"
      "vmm.heap_ok other (map (block_of s) as @ [(unat a, unat n + 12)]) t"
      unfolding cnt by auto
    have "kmalloc n s = Some (link_block a ?len (s\<lparr>mm := t\<rparr>))"
      unfolding kmalloc_def Let_def tail a(1) using False a(2) by simp
    then show ?thesis
      using link [OF a(2, 3)] by (simp only:)
  qed
qed

section \<open>Giving blocks back\<close>

lemma kfree_correct:
  assumes inv: "heap_inv other (as @ b # cs) s"
  shows "heap_inv other (as @ cs) (kfree (b + 12) s) \<and>
    (\<forall>a \<in> set (as @ cs). block_of (kfree (b + 12) s) a = block_of s a)"
proof -
  let ?h = "hdr s b"
  have d: "dll (\<lambda>a. a_last (hdr s a)) (\<lambda>a. a_next (hdr s a)) NULL (as @ b # cs)"
    and pos: "alloc_pos s = tail_of NULL (as @ b # cs)"
    and ok: "vmm.heap_ok other (map (block_of s) as @ block_of s b # map (block_of s) cs) (mm s)"
    using inv by (simp_all add: heap_inv_def)
  note node = dll_node [OF d]
  have nn: "NULL \<notin> set (as @ b # cs)"
    using heap_inv_nodup [OF inv] by simp
  have blk: "block_ok (block_of s a)" if "a \<in> set (as @ b # cs)" for a
    using heap_inv_block [OF inv that] .
  have last: "a_last ?h \<noteq> NULL \<longleftrightarrow> as \<noteq> []" "as \<noteq> [] \<Longrightarrow> a_last ?h = last as"
    using node(2) nn by (cases as rule: rev_cases; auto)+
  have next': "a_next ?h \<noteq> NULL \<longleftrightarrow> cs \<noteq> []" "cs \<noteq> [] \<Longrightarrow> a_next ?h = hd cs"
    using node(3) nn by (cases cs; auto)+
  define s1 where "s1 = (if a_last ?h \<noteq> NULL then upd_hdr (a_last ?h) (\<lambda>g. g\<lparr>a_next := a_next ?h\<rparr>) s else s)"
  define s2 where "s2 = (if a_next ?h \<noteq> NULL then upd_hdr (a_next ?h) (\<lambda>g. g\<lparr>a_last := a_last ?h\<rparr>) s1
    else s1\<lparr>alloc_pos := a_last ?h\<rparr>)"
  let ?sb = "shares_before (map (block_of s) as) (block_of s b)" and ?sn = "shares_behind (block_of s b) (map (block_of s) cs)"
  define first where "first = (if ?sb then page_down b + PAGE_SIZE else page_down b)"
  define num where "num = int ((unat (a_length ?h) + 4095) div 4096) - of_bool ?sb - of_bool ?sn"
  have mm2: "mm s2 = mm s"
    by (simp add: s2_def s1_def)
  have len_le: "unat (a_length ?h) \<le> 196608 * 4096"
    using blk [of b] by (simp add: block_ok_def block_of_def)
  have pages: "unat ((a_length ?h + PAGE_SIZE - 1) div PAGE_SIZE) = (unat (a_length ?h) + 4095) div 4096"
  proof -
    have "a_length ?h + PAGE_SIZE - 1 = a_length ?h + 4095"
      by simp
    moreover have "unat (a_length ?h + 4095) = unat (a_length ?h) + 4095"
      using len_le by (subst unat_add32) simp_all
    ultimately show ?thesis
      by (simp only: unat_div_u32) simp
  qed
  have lob: "unat b div 4096 = lo (block_of s b)"
    by (simp add: lo_def block_of_def)
  have sb: "(page_down (a_last ?h + a_length (hdr s (a_last ?h)) - 1) = page_down b) = ?sb" if "a_last ?h \<noteq> NULL"
  proof -
    have "as \<noteq> []" and l: "a_last ?h = last as"
      using that last by simp_all
    then have "last as \<in> set (as @ b # cs)"
      by simp
    note e = block_end(2) [OF blk [OF this]]
    show ?thesis
      using \<open>as \<noteq> []\<close> unfolding l page_down_eq e lob by (simp add: shares_before_def last_map)
  qed
  have sb0: "?sb = False" if "a_last ?h = NULL"
    using that last by (simp add: shares_before_def)
  have sn: "(page_down (b + a_length ?h - 1) = page_down (a_next ?h)) = ?sn" if "a_next ?h \<noteq> NULL"
  proof -
    have "cs \<noteq> []" and l: "a_next ?h = hd cs"
      using that next' by simp_all
    moreover have "block_ok (block_of s b)"
      using blk by simp
    ultimately show ?thesis
      unfolding l page_down_eq block_end(2) [OF \<open>block_ok (block_of s b)\<close>]
      by (auto simp: shares_behind_def hd_map lo_def block_of_def)
  qed
  have sn0: "?sn = False" if "a_next ?h = NULL"
    using that next' by (simp add: shares_behind_def)
  have run: "kfree (b + 12) s = (if num > 0 then s2\<lparr>mm := vmm_free_page first (of_int num) (mm s2)\<rparr> else s2)"
  proof -
    have l1: "a_length (hdr (upd_hdr (a_last ?h) (\<lambda>g. g\<lparr>a_next := a_next ?h\<rparr>) s) (a_last ?h)) = a_length (hdr s (a_last ?h))"
      by simp
    have m: "b + 12 - 12 = b"
      by simp
    have split: "(if sb then (a, k, u) else (c, l, u)) = (if sb then a else c, if sb then k else l, u)"
      "(if sb then (k, u) else (l, u)) = (if sb then k else l, u)" for sb and a c :: u32 and k l :: int and u :: heap_state
      by simp_all
    define n0 where "n0 = int ((unat (a_length ?h) + 4095) div 4096)"
    have n: "num = (if ?sn then (if ?sb then n0 - 1 else n0) - 1 else if ?sb then n0 - 1 else n0)"
      by (simp add: num_def n0_def)
    have sb': "(if a_last ?h \<noteq> NULL then (if page_down (a_last ?h + a_length (hdr s (a_last ?h)) - 1) = page_down b
          then page_down b + PAGE_SIZE else page_down b, if page_down (a_last ?h + a_length (hdr s (a_last ?h)) - 1) = page_down b
          then n0 - 1 else n0, upd_hdr (a_last ?h) (\<lambda>g. g\<lparr>a_next := a_next ?h\<rparr>) s)
        else (page_down b, n0, s)) = (first, if ?sb then n0 - 1 else n0, s1)"
      using sb sb0 by (cases "a_last ?h = NULL") (simp_all only: first_def s1_def simp_thms if_True if_False)
    have sn': "(if a_next ?h \<noteq> NULL then (if page_down (b + a_length ?h - 1) = page_down (a_next ?h) then k - 1 else k,
          upd_hdr (a_next ?h) (\<lambda>g. g\<lparr>a_last := a_last ?h\<rparr>) s1) else (k, s1\<lparr>alloc_pos := a_last ?h\<rparr>)) =
        (if ?sn then k - 1 else k, s2)" for k :: int
      using sn sn0 by (cases "a_next ?h = NULL") (simp_all only: s2_def simp_thms if_True if_False)
    show ?thesis
      unfolding kfree_def Let_def m l1 pages n0_def [symmetric] split sb' prod.case sn' n ..
  qed
  have "block_ok (block_of s b)"
    using blk by simp
  then have "unat (page_down b) + 4096 < 2 ^ 32"
    unfolding unat_page_down by (simp add: block_ok_def block_of_def) linarith
  then have first: "unat first = (lo (block_of s b) + of_bool ?sb) * 4096"
    by (simp add: first_def unat_add32 unat_page_down lob)
  have num: "num = int ((snd (block_of s b) + 4095) div 4096) - of_bool ?sb - of_bool ?sn"
    by (simp add: num_def block_of_def)
  note shrink = vmm.heap_shrink [OF ok first num]
  have len: "a_length (hdr s2 x) = a_length (hdr s x)" for x
    by (simp add: s2_def s1_def)
  have h2: "x \<noteq> NULL \<Longrightarrow> a_next (hdr s2 x) = (if x = a_last ?h then a_next ?h else a_next (hdr s x))"
    "x \<noteq> NULL \<Longrightarrow> a_last (hdr s2 x) = (if x = a_next ?h then a_last ?h else a_last (hdr s x))" for x
    by (auto simp: s2_def s1_def)
  have dll2: "dll (\<lambda>a. a_last (hdr s2 a)) (\<lambda>a. a_next (hdr s2 a)) NULL (as @ cs)"
  proof (rule dll_remove [OF d])
    fix x assume "x \<in> set (as @ cs)"
    then have "x \<noteq> NULL"
      using nn by auto
    then show "a_next (hdr s2 x) = (if x = a_last ?h then a_next ?h else a_next (hdr s x))"
      "a_last (hdr s2 x) = (if x = a_next ?h then a_last ?h else a_last (hdr s x))"
      by (rule h2)+
  qed
  have pos2: "alloc_pos s2 = tail_of NULL (as @ cs)"
    using pos last next' node(2) by (cases cs rule: rev_cases) (auto simp: s2_def s1_def tail_of_append)
  have blocks: "block_of s2 x = block_of s x" for x
    by (simp add: block_of_def len)
  have run2: "mm (kfree (b + 12) s) = (if num > 0 then vmm_free_page first (of_int num) (mm s) else mm s)"
    "hdr (kfree (b + 12) s) = hdr s2" "alloc_pos (kfree (b + 12) s) = alloc_pos s2"
    by (simp_all add: run mm2)
  then have blocks2: "block_of (kfree (b + 12) s) = block_of s"
    using blocks by (simp add: block_of_def fun_eq_iff)
  then show ?thesis
    using dll2 pos2 shrink by (simp add: heap_inv_def run2 blocks2)
qed

section \<open>Properties\<close>

definition heap_sample :: heap_state where
  "heap_sample = \<lparr>mm = mm_sample, hdr = (\<lambda>_. \<lparr>a_last = 0, a_next = 0, a_length = 0\<rparr>), alloc_pos = 0\<rparr>"

lemma heap_sample_inv: "heap_inv {} [] heap_sample"
  using mm_sample_inv
  by (simp add: heap_inv_def heap_sample_def vmm.heap_ok_def vmm_good_def vmm_owned_def mm_sample_map layout_def
      vmm_pages_def)

lemma heap_sample_room: "n \<le> 12 \<Longrightarrow> vmm_room n (mm heap_sample)"
  using mm_sample_run [of n 12]
  by (auto simp: vmm_room_def heap_sample_def mm_sample_pmm(5) intro!: exI [of _ 12]) (simp_all add: mm_sample_def)

lemma block_in_pages:
  assumes "heap_inv other as s" and "b \<in> set as" and "fst (block_of s b) \<le> x" and "x < fst (block_of s b) + snd (block_of s b)"
  shows "x div 4096 \<in> vmm_pages (mm s)"
proof -
  have "x div 4096 \<in> pgs (block_of s b)"
    using assms(3, 4) by (auto simp: pgs_def lo_def hi_def intro: div_le_mono)
  then show ?thesis
    using assms(1, 2) by (auto simp: heap_inv_def vmm.heap_ok_def used_def)
qed

text \<open>C21. \<open>kmalloc\<close> when the rest of the last page or the page allocator has room: it returns memory
  behind a new header, all of it in mapped pages; the new block overlaps no other block, the
  other blocks stay where they are, and the heap invariant is kept: the blocks are linked in the
  order of their creation, and exactly their pages are in use besides those of other users.\<close>

theorem kmalloc_new_block:
  assumes "heap_inv other as s" and "unat n + 12 + 4095 < 2 ^ 32"
    and "fits_tail s as (unat n + 12) \<or> vmm_room ((unat n + 12 + 4095) div 4096) (mm s)"
  shows "\<exists>b t. kmalloc n s = Some (b + 12, t) \<and> b \<noteq> NULL \<and> heap_inv other (as @ [b]) t \<and>
    block_of t b = (unat b, unat n + 12) \<and>
    {x div 4096 | x. unat b \<le> x \<and> x < unat b + unat n + 12} \<subseteq> vmm_pages (mm t) \<and>
    (\<forall>a \<in> set as. block_of t a = block_of s a \<and>
       {unat a..<unat a + unat (a_length (hdr t a))} \<inter> {unat b..<unat b + unat n + 12} = {})"
proof -
  obtain b t where k: "kmalloc n s = Some (b + 12, t)" "b \<noteq> NULL" "heap_inv other (as @ [b]) t"
      "block_of t b = (unat b, unat n + 12)" "\<forall>a \<in> set as. block_of t a = block_of s a"
    using kmalloc_correct [OF assms] by metis
  have "{unat a..<unat a + unat (a_length (hdr t a))} \<inter> {unat b..<unat b + unat n + 12} = {}" if "a \<in> set as" for a
  proof -
    have "layout (map (block_of t) as @ block_of t b # [])" and "block_of t a \<in> set (map (block_of t) as @ [])"
      using heap_inv_layout [OF k(3)] that by simp_all
    from layout_disjoint [OF this] show ?thesis
      unfolding k(4) by (auto simp: block_of_def)
  qed
  moreover have "{x div 4096 | x. unat b \<le> x \<and> x < unat b + unat n + 12} \<subseteq> vmm_pages (mm t)"
    using block_in_pages [OF k(3), of b] k(4) by auto
  ultimately show ?thesis
    using k by (intro exI [of _ b] exI [of _ t]) simp
qed

theorem kmalloc_new_block_witness:
  "\<exists>b t. kmalloc 5000 heap_sample = Some (b + 12, t) \<and> heap_inv {} [b] t \<and> block_of t b = (unat b, 5012)"
  using kmalloc_new_block [OF heap_sample_inv, of 5000] heap_sample_room [of 2] by auto

text \<open>C10. \<open>kfree\<close> of any block: the others stay where they are and linked in their order, and the pages
  in use are then those of the others: a page is given back exactly when its last block goes.\<close>

theorem kfree_block:
  assumes "heap_inv other (as @ b # cs) s"
  shows "heap_inv other (as @ cs) (kfree (b + 12) s) \<and>
    vmm_pages (mm (kfree (b + 12) s)) = other \<union> used (map (block_of s) (as @ cs)) \<and>
    (\<forall>a \<in> set (as @ cs). block_of (kfree (b + 12) s) a = block_of s a)"
proof -
  have k: "heap_inv other (as @ cs) (kfree (b + 12) s)"
    "\<forall>a \<in> set (as @ cs). block_of (kfree (b + 12) s) a = block_of s a"
    using kfree_correct [OF assms] by blast+
  have map: "map (block_of (kfree (b + 12) s)) (as @ cs) = map (block_of s) (as @ cs)"
    using k(2) by (intro map_cong) auto
  have "vmm_pages (mm (kfree (b + 12) s)) = other \<union> used (map (block_of (kfree (b + 12) s)) (as @ cs))"
    using k(1) by (simp only: heap_inv_def vmm.heap_ok_def)
  then show ?thesis
    using k unfolding map by blast
qed

theorem kfree_block_witness:
  "\<exists>b t. kmalloc 100 heap_sample = Some (b + 12, t) \<and> heap_inv {} [] (kfree (b + 12) t) \<and>
     vmm_pages (mm (kfree (b + 12) t)) = {}"
proof -
  obtain b t where k: "kmalloc 100 heap_sample = Some (b + 12, t)" "heap_inv {} ([] @ [b]) t"
    using kmalloc_correct [OF heap_sample_inv, of 100] heap_sample_room [of 1] by auto
  show ?thesis
    using k(1) kfree_block [of "{}" "[]" b "[]" t] k(2) by auto
qed

end
