(* ===== verification/Disk.thy ===== *)
theory Disk
  imports Ata Heap "HOL-Library.Monad_Syntax"
begin

text \<open>
  The disk table and the access to disks: \<open>src/kernel/dev/disk.c\<close> without the operations that call the file
  systems or scan for partitions, which are in theories \<open>Fs\<close> and \<open>Partition\<close>.  A disk is a whole drive or a
  partition, a range of sectors of another disk.  The nodes of the table and the file system
  descriptors are functions of their address, apart from the byte memory of the buffers.  A walk
  over the table is \<open>None\<close> when the list has a cycle and the walk never ends.
\<close>

section \<open>State\<close>

datatype disk_dev_type = DISK_ATA

datatype fs_type = FS_RAW | FS_FAT

record fs =
  fs_type :: fs_type
  info :: u32

record disk =
  d_id :: u32
  dev_type :: disk_dev_type
  dev_id :: u32
  start_sector :: u64
  sector_count :: u64
  d_fs :: fs
  part_id :: u32
  part_count :: u32
  pdisk :: u32
  d_last :: u32
  d_next :: u32

datatype fat_type = FAT16 | FAT32

record fat =
  disk_id :: u32
  fat_type :: fat_type
  sector_size :: u32
  cluster_size :: u32
  start_cluster :: u64
  fat_sector :: u64
  root_dir_cluster :: u64
  root_dir_sector :: u64
  root_dir_count :: u32

record disk_state =
  dmem :: memory
  ata :: ata_state
  heap :: heap_state
  disks :: "u32 \<Rightarrow> disk"
  fats :: "u32 \<Rightarrow> fat"
  new_id :: u32
  header :: u32
  pos :: u32

definition upd_disk :: "u32 \<Rightarrow> (disk \<Rightarrow> disk) \<Rightarrow> disk_state \<Rightarrow> disk_state" where
  "upd_disk p f s = s\<lparr>disks := (disks s)(p := f (disks s p))\<rparr>"

section \<open>The table\<close>

partial_function (option) find_disk :: "(u32 \<Rightarrow> disk) \<Rightarrow> u32 \<Rightarrow> u32 \<Rightarrow> u32 option" where
  "find_disk ds p n =
     (if p = NULL then Some NULL
      else if d_id (ds p) = n then Some p else find_disk ds (d_next (ds p)) n)"

definition get_disk :: "u32 \<Rightarrow> disk_state \<Rightarrow> u32 option" where
  "get_disk n s = find_disk (disks s) (header s) n"

fun nth_disk :: "(u32 \<Rightarrow> disk) \<Rightarrow> nat \<Rightarrow> u32 \<Rightarrow> u32" where
  "nth_disk ds 0 p = p"
| "nth_disk ds (Suc n) p = (if p = NULL then NULL else nth_disk ds n (d_next (ds p)))"

text \<open>The signed result; the id of a disk is converted to it.\<close>

definition get_disk_id :: "u32 \<Rightarrow> disk_state \<Rightarrow> int" where
  "get_disk_id n s = (let p = nth_disk (disks s) (unat n) (header s) in if p = NULL then -1 else sint (d_id (disks s p)))"

definition get_disk_sector_size :: "u32 \<Rightarrow> disk_state \<Rightarrow> int option" where
  "get_disk_sector_size n s =
     do { p \<leftarrow> get_disk n s;
          Some (if p = NULL then -1 else case dev_type (disks s p) of DISK_ATA \<Rightarrow> 0x200) }"

definition get_disk_sectors :: "u32 \<Rightarrow> disk_state \<Rightarrow> int option" where
  "get_disk_sectors n s =
     do { p \<leftarrow> get_disk n s;
          Some (if p = NULL then -1 else sint (ucast (sector_count (disks s p)) :: u32)) }"

text \<open>\<open>free_disk\<close>; \<open>fs_free\<close> does nothing.\<close>

definition free_disk :: "u32 \<Rightarrow> disk_state \<Rightarrow> disk_state" where
  "free_disk p s =
     (if p = NULL then s
      else
        (let s1 = (if d_last (disks s p) = NULL then s\<lparr>header := d_next (disks s p)\<rparr>
                   else upd_disk (d_last (disks s p)) (\<lambda>d. d\<lparr>d_next := d_next (disks s p)\<rparr>) s);
             s2 = (if d_next (disks s1 p) = NULL then s1\<lparr>pos := d_last (disks s1 p)\<rparr>
                   else upd_disk (d_next (disks s1 p)) (\<lambda>d. d\<lparr>d_last := d_last (disks s1 p)\<rparr>) s1);
             s3 = (if pdisk (disks s2 p) \<noteq> NULL
                   then upd_disk (pdisk (disks s2 p)) (\<lambda>d. d\<lparr>part_count := part_count d - 1\<rparr>) s2 else s2)
         in s3\<lparr>heap := kfree p (heap s3)\<rparr>))"

section \<open>Reading and writing\<close>

text \<open>The range of a request, cut at the end of the disk, and where it is on the device.\<close>

definition disk_count :: "disk \<Rightarrow> u32 \<Rightarrow> u64 \<Rightarrow> u32" where
  "disk_count d count offect =
     (if ucast count + offect > sector_count d * ATA_SECTOR_SIZE
      then ucast (sector_count d * ATA_SECTOR_SIZE - offect) else count)"

definition disk_read :: "drive \<Rightarrow> u32 \<Rightarrow> u32 \<Rightarrow> u32 \<Rightarrow> u64 \<Rightarrow> disk_state \<Rightarrow> (int \<times> disk_state) option" where
  "disk_read dev n buf count offect s =
     do { p \<leftarrow> get_disk n s;
          Some (if p = NULL then (-1, s)
                else
                  (let d = disks s p
                   in case dev_type d of DISK_ATA \<Rightarrow>
                        (case ata_read dev (ucast (dev_id d)) buf (disk_count d count offect)
                                (start_sector d * ATA_SECTOR_SIZE + offect) (dmem s) (ata s) of
                           (r, m, a) \<Rightarrow> (r, s\<lparr>dmem := m, ata := a\<rparr>)))) }"

text \<open>\<open>buf_1\<close> and \<open>buf_2\<close> are the sector buffers of the driver; also returned are the register writes and
  the words that the drive is sent.\<close>

definition disk_write ::
    "drive \<Rightarrow> u32 \<Rightarrow> u32 \<Rightarrow> u32 \<Rightarrow> u32 \<Rightarrow> u32 \<Rightarrow> u64 \<Rightarrow> disk_state \<Rightarrow>
       (int \<times> writes \<times> u16 list \<times> disk_state) option" where
  "disk_write dev buf_1 buf_2 n buf count offect s =
     do { p \<leftarrow> get_disk n s;
          Some (if p = NULL then (-1, [], [], s)
                else
                  (let d = disks s p
                   in case dev_type d of DISK_ATA \<Rightarrow>
                        (case ata_write dev buf_1 buf_2 (ucast (dev_id d)) buf (disk_count d count offect)
                                (start_sector d * ATA_SECTOR_SIZE + offect) (dmem s) (ata s) of
                           (r, ws, data, m, a) \<Rightarrow> (r, ws, data, s\<lparr>dmem := m, ata := a\<rparr>)))) }"

section \<open>The table as a list\<close>

text \<open>\<open>ds\<close> are the addresses of the nodes, the oldest disk first.\<close>

definition disk_list :: "disk_state \<Rightarrow> u32 list \<Rightarrow> bool" where
  "disk_list s ds \<longleftrightarrow> dll (\<lambda>p. d_last (disks s p)) (\<lambda>p. d_next (disks s p)) NULL ds \<and>
     header s = head ds \<and> pos s = tail_of NULL ds"

definition ids_distinct :: "disk_state \<Rightarrow> u32 list \<Rightarrow> bool" where
  "ids_distinct s ds \<longleftrightarrow> inj_on (\<lambda>p. d_id (disks s p)) (set ds)"

lemma upd_disk_simps [simp]:
  "disks (upd_disk p f s) q = (if q = p then f (disks s p) else disks s q)"
  "dmem (upd_disk p f s) = dmem s" "ata (upd_disk p f s) = ata s" "heap (upd_disk p f s) = heap s"
  "fats (upd_disk p f s) = fats s" "new_id (upd_disk p f s) = new_id s" "header (upd_disk p f s) = header s"
  "pos (upd_disk p f s) = pos s"
  by (simp_all add: upd_disk_def)

lemma find_disk_dll:
  assumes "dll l (\<lambda>p. d_next (ds p)) q xs"
  shows "find_disk ds (head xs) n = Some (case find (\<lambda>p. d_id (ds p) = n) xs of None \<Rightarrow> NULL | Some p \<Rightarrow> p)"
  using assms
proof (induction xs arbitrary: q)
  case Nil
  then show ?case
    by (simp add: find_disk.simps)
next
  case (Cons x xs)
  then show ?case
    by (subst find_disk.simps) auto
qed

lemma get_disk_list:
  assumes "disk_list s ds"
  shows "get_disk n s = Some (case find (\<lambda>p. d_id (disks s p) = n) ds of None \<Rightarrow> NULL | Some p \<Rightarrow> p)"
  using assms find_disk_dll [where ds = "disks s"] by (auto simp: get_disk_def disk_list_def)

lemma get_disk_found:
  assumes "disk_list s ds" and "ids_distinct s ds" and "p \<in> set ds"
  shows "get_disk (d_id (disks s p)) s = Some p" and "p \<noteq> NULL"
proof -
  have "find (\<lambda>q. d_id (disks s q) = d_id (disks s p)) ds \<noteq> None"
    using assms(3) by (auto simp: find_None_iff)
  then obtain q where q: "find (\<lambda>q. d_id (disks s q) = d_id (disks s p)) ds = Some q"
    by auto
  then have "q \<in> set ds" "d_id (disks s q) = d_id (disks s p)"
    by (auto simp: find_Some_iff)
  then have "q = p"
    using assms(2, 3) by (auto simp: ids_distinct_def inj_on_def)
  then show "get_disk (d_id (disks s p)) s = Some p"
    using q by (simp add: get_disk_list [OF assms(1)])
  show "p \<noteq> NULL"
    using assms(1, 3) dll_distinct by (metis disk_list_def)
qed

lemma get_disk_missing:
  assumes "disk_list s ds" and "\<And>p. p \<in> set ds \<Longrightarrow> d_id (disks s p) \<noteq> n"
  shows "get_disk n s = Some NULL"
proof -
  have "find (\<lambda>p. d_id (disks s p) = n) ds = None"
    using assms(2) by (auto simp: find_None_iff)
  then show ?thesis
    by (simp add: get_disk_list [OF assms(1)])
qed

section \<open>The range of a disk on its device\<close>

definition disk_start :: "disk \<Rightarrow> nat" where
  "disk_start d = unat (start_sector d)"

definition disk_end :: "disk \<Rightarrow> nat" where
  "disk_end d = unat (start_sector d) + unat (sector_count d)"

lemma unat_sectors:
  fixes k :: u64
  assumes "unat k \<le> 2 ^ 48"
  shows "unat (k * ATA_SECTOR_SIZE) = unat k * 512"
  using assms by (intro unat_times_sectors) simp

lemma disk_count_nat:
  assumes "unat (sector_count d) \<le> 2 ^ 48" and "unat off \<le> unat (sector_count d) * 512"
  shows "unat (disk_count d count off) = min (unat count) (unat (sector_count d) * 512 - unat off)"
proof -
  note size = unat_sectors [OF assms(1)]
  have c: "unat count < 4294967296"
    by (rule unat_u32_less)
  moreover have "unat (sector_count d) \<le> 281474976710656"
    using assms(1) by simp
  ultimately have "unat count + unat off < 18446744073709551616"
    using assms(2) by linarith
  then have "unat (ucast count + off) = unat count + unat off"
    by (subst unat_add_nowrap) (simp_all add: unat_ucast_up)
  moreover have "unat (sector_count d * ATA_SECTOR_SIZE - off) = unat (sector_count d) * 512 - unat off"
    using assms(2) by (subst unat_sub) (simp_all add: word_le_nat_alt size)
  moreover have "(unat (sector_count d) * 512 - unat off) mod 4294967296 = unat (sector_count d) * 512 - unat off"
    if "unat (sector_count d) * 512 - unat off < unat count"
    using that c by (intro mod_less) linarith
  ultimately show ?thesis
    by (auto simp: disk_count_def word_less_nat_alt size unsigned_ucast_eq take_bit_eq_mod min_def)
qed

text \<open>A device that serves the content of a drive to the driver.\<close>

definition device_ok :: "drive \<Rightarrow> (nat \<Rightarrow> u8) \<Rightarrow> disk \<Rightarrow> ata_state \<Rightarrow> bool" where
  "device_ok dev content d a \<longleftrightarrow>
     (ucast (dev_id d) :: u8) < 4 \<and>
     drive_serves content (drive_mode (ucast (dev_id d)) a) (ucast (dev_id d)) dev \<and>
     lock_p a = 0 \<and> lock_s a = 0 \<and>
     in_range (drive_mode (ucast (dev_id d)) a) (unat (ata_sectors a ! unat (ucast (dev_id d) :: u8))) 0 \<and>
     disk_end d \<le> unat (ata_sectors a ! unat (ucast (dev_id d) :: u8))"

definition device_sectors :: "disk \<Rightarrow> ata_state \<Rightarrow> nat" where
  "device_sectors d a = unat (ata_sectors a ! unat (ucast (dev_id d) :: u8))"

text \<open>The largest request in one command.\<close>

definition request_ok :: "disk \<Rightarrow> ata_state \<Rightarrow> nat \<Rightarrow> bool" where
  "request_ok d a count \<longleftrightarrow> count \<le> (if drive_mode (ucast (dev_id d)) a = LBA28 then 255 else 65535) * 512"

lemma device_range:
  assumes "device_ok dev content d a" and "request_ok d a c"
  shows "in_range (drive_mode (ucast (dev_id d)) a) (device_sectors d a) c"
  using assms by (auto simp: device_ok_def request_ok_def in_range_def device_sectors_def)

lemma device_bounds:
  assumes "device_ok dev content d a"
  shows "disk_end d \<le> device_sectors d a" "device_sectors d a \<le> 2 ^ 48"
  using assms by (auto simp: device_ok_def in_range_def device_sectors_def)

text \<open>The bytes of a request that are transferred: up to the end of the disk, and to the last sector of the
  device.\<close>

definition disk_transferred :: "disk \<Rightarrow> ata_state \<Rightarrow> nat \<Rightarrow> nat \<Rightarrow> nat" where
  "disk_transferred d a count off =
     min count (min (disk_end d) (device_sectors d a - 1) * 512 - (disk_start d * 512 + off))"

lemma disk_position:
  assumes "device_ok dev content d a" and "unat off \<le> unat (sector_count d) * 512"
  shows "unat (start_sector d * ATA_SECTOR_SIZE + off) = disk_start d * 512 + unat off"
    and "disk_start d * 512 + unat off \<le> 2 ^ 57"
proof -
  have e: "unat (start_sector d) + unat (sector_count d) \<le> 2 ^ 48"
    using device_bounds [OF assms(1)] by (simp add: disk_end_def)
  then have s: "unat (start_sector d * ATA_SECTOR_SIZE) = unat (start_sector d) * 512"
    by (intro unat_sectors) simp
  show b: "disk_start d * 512 + unat off \<le> 2 ^ 57"
    using e assms(2) by (simp add: disk_start_def)
  show "unat (start_sector d * ATA_SECTOR_SIZE + off) = disk_start d * 512 + unat off"
    using b by (subst unat_add_nowrap) (simp_all add: s disk_start_def)
qed

lemma disk_read_correct:
  assumes "disk_list s ds" and "ids_distinct s ds" and "p \<in> set ds" and "d = disks s p"
    and "device_ok dev content d (ata s)" and "request_ok d (ata s) (unat count)"
    and "unat off \<le> unat (sector_count d) * 512"
    and "L = disk_transferred d (ata s) (unat count) (unat off)"
  shows "\<exists>m a. disk_read dev (d_id d) buf count off s = Some (int L, s\<lparr>dmem := m, ata := a\<rparr>) \<and>
    m = (\<lambda>x. if unat (x - buf) < L then content (disk_start d * 512 + unat off + unat (x - buf)) else dmem s x) \<and>
    a \<in> {ata s, close_ilock (ucast (dev_id d)) (ata s)}"
proof -
  let ?n = "ucast (dev_id d) :: u8" and ?c = "disk_count d count off"
  note get = get_disk_found [OF assms(1-3), folded assms(4)]
  note pos = disk_position [OF assms(5, 7)] and b = device_bounds [OF assms(5)]
  have "unat (sector_count d) \<le> 2 ^ 48"
    using b by (simp add: disk_end_def)
  note c = disk_count_nat [OF this assms(7), of count]
  have ok: "?n < 4" "drive_serves content (drive_mode ?n (ata s)) ?n dev" "lock_p (ata s) = 0" "lock_s (ata s) = 0"
    using assms(5) by (simp_all add: device_ok_def)
  have r: "in_range (drive_mode ?n (ata s)) (unat (ata_sectors (ata s) ! unat ?n)) (unat ?c)"
    using device_range [OF assms(5), of "unat ?c"] assms(6) c by (auto simp: device_sectors_def request_ok_def)
  have nw: "unat (start_sector d * ATA_SECTOR_SIZE + off) + unat ?c + 511 < 2 ^ 64"
  proof -
    have "unat ?c < 4294967296"
      by (rule unat_u32_less)
    moreover have "disk_start d * 512 + unat off \<le> 144115188075855872"
      using pos(2) by simp
    ultimately have "disk_start d * 512 + unat off + unat ?c + 511 < 18446744073709551616"
      by linarith
    then show ?thesis
      unfolding pos(1) by simp
  qed
  have L: "transferred (unat (ata_sectors (ata s) ! unat ?n)) (unat (start_sector d * ATA_SECTOR_SIZE + off)) (unat ?c) = L"
  proof -
    have "disk_end d * 512 - (disk_start d * 512 + unat off) = unat (sector_count d) * 512 - unat off"
      by (simp add: disk_end_def disk_start_def)
    then show ?thesis
      unfolding assms(8) pos(1) c transferred_def disk_transferred_def device_sectors_def [symmetric]
        nat_mult_min_left min_diff [symmetric] min.assoc by simp
  qed
  from ata_read_serves [OF ok(2, 1) r nw ok(3, 4), of buf "dmem s", unfolded L, unfolded pos(1)] obtain a where
    a: "a \<in> {ata s, close_ilock ?n (ata s)}" and
    run: "ata_read dev ?n buf ?c (start_sector d * ATA_SECTOR_SIZE + off) (dmem s) (ata s) =
      (int L, (\<lambda>x. if unat (x - buf) < L then content (disk_start d * 512 + unat off + unat (x - buf)) else dmem s x), a)"
    by (elim bexE) (rule that)
  have "disk_read dev (d_id d) buf count off s = Some (int L, s\<lparr>dmem :=
      (\<lambda>x. if unat (x - buf) < L then content (disk_start d * 512 + unat off + unat (x - buf)) else dmem s x), ata := a\<rparr>)"
    using get assms(4) run by (cases "dev_type d") (simp add: disk_read_def)
  then show ?thesis
    using a by blast
qed

text \<open>A request that ends inside the disk and before the last sector of the device.\<close>

lemma disk_write_correct:
  assumes "disk_list s ds" and "ids_distinct s ds" and "p \<in> set ds" and "d = disks s p"
    and "device_ok dev content d (ata s)" and "request_ok d (ata s) (unat count)"
    and "count \<noteq> 0" and "disk_start d * 512 + unat off + unat count \<le> disk_end d * 512"
    and "disk_end d < device_sectors d (ata s)"
    and "apart buf_1 512 buf_2 512" and "apart buf (unat count) buf_1 512" and "apart buf (unat count) buf_2 512"
  shows "\<exists>ws data m a. disk_write dev buf_1 buf_2 (d_id d) buf count off s =
      Some (int (unat count), ws, data, s\<lparr>dmem := m, ata := a\<rparr>) \<and>
    a \<in> {ata s, close_ilock (ucast (dev_id d)) (ata s)} \<and>
    store (decode (drive_mode (ucast (dev_id d)) (ata s)) (port_base (ucast (dev_id d))) ws) data content =
      overlay (dmem s) buf (disk_start d * 512 + unat off) (unat count) content"
proof -
  let ?n = "ucast (dev_id d) :: u8"
  note get = get_disk_found [OF assms(1-3), folded assms(4)]
  have off: "unat off + unat count \<le> unat (sector_count d) * 512"
    using assms(8) by (simp add: disk_end_def disk_start_def)
  then have "unat off \<le> unat (sector_count d) * 512"
    by simp
  note pos = disk_position [OF assms(5) this] and b = device_bounds [OF assms(5)]
  have "unat (sector_count d) \<le> 2 ^ 48"
    using b by (simp add: disk_end_def)
  from disk_count_nat [OF this \<open>unat off \<le> _\<close>, of count] off have "unat (disk_count d count off) = unat count"
    by simp
  then have c: "disk_count d count off = count"
    by (simp only: word_unat_eq_iff)
  have ok: "?n < 4" "drive_serves content (drive_mode ?n (ata s)) ?n dev" "lock_p (ata s) = 0" "lock_s (ata s) = 0"
    using assms(5) by (simp_all add: device_ok_def)
  have r: "in_range (drive_mode ?n (ata s)) (unat (ata_sectors (ata s) ! unat ?n)) (unat count)"
    using device_range [OF assms(5, 6)] by (simp add: device_sectors_def)
  have fit: "unat (start_sector d * ATA_SECTOR_SIZE + off) + unat count \<le> (unat (ata_sectors (ata s) ! unat ?n) - 1) * 512"
  proof -
    have "disk_end d * 512 \<le> (device_sectors d (ata s) - 1) * 512"
      using assms(9) by simp
    then show ?thesis
      unfolding pos(1) device_sectors_def using assms(8) by linarith
  qed
  from ata_write_stores [OF ok(2, 1) r ok(3, 4) assms(7) fit assms(10-12), of "dmem s", unfolded pos(1)] obtain ws data m a where
    run: "ata_write dev buf_1 buf_2 ?n buf count (start_sector d * ATA_SECTOR_SIZE + off) (dmem s) (ata s) =
      (int (unat count), ws, data, m, a)"
    and a: "a \<in> {ata s, close_ilock ?n (ata s)}"
    and st: "store (decode (drive_mode ?n (ata s)) (port_base ?n) ws) data content =
      overlay (dmem s) buf (disk_start d * 512 + unat off) (unat count) content"
    by (elim exE conjE) (rule that; assumption)
  have "disk_write dev buf_1 buf_2 (d_id d) buf count off s =
      Some (int (unat count), ws, data, s\<lparr>dmem := m, ata := a\<rparr>)"
    using get run by (cases "dev_type d") (simp add: disk_write_def Let_def assms(4) [symmetric] c)
  then show ?thesis
    using a st by blast
qed

text \<open>Behind the end of a disk the count is the difference modulo \<open>2 ^ 32\<close>, so that a request is not cut to
  nothing but goes on behind the disk.\<close>

lemma disk_count_behind:
  assumes "unat (sector_count d) \<le> 2 ^ 48" and "unat (sector_count d) * 512 < unat off" and "unat off < 2 ^ 63"
  shows "disk_count d count off = ucast (sector_count d * ATA_SECTOR_SIZE - off)"
proof -
  have c: "unat count < 4294967296"
    by (rule unat_u32_less)
  have "unat off < 9223372036854775808"
    using assms(3) by simp
  then have "unat count + unat off < 18446744073709551616"
    using c by linarith
  then have u: "unat (ucast count + off) = unat count + unat off"
    by (subst unat_add_nowrap) (simp_all add: unat_ucast_up)
  show ?thesis
    using assms(2) by (auto simp: disk_count_def word_less_nat_alt u unat_sectors [OF assms(1)])
qed

lemma disk_count_behind_sample:
  "sector_count d = 1 \<Longrightarrow> disk_count d 512 1024 = 0xfffffe00"
  by (simp add: disk_count_def)

section \<open>Reading as the layers above see it\<close>

text \<open>What a read may change: the memory and the interrupt locks of the driver.\<close>

definition quiet :: "disk_state \<Rightarrow> disk_state \<Rightarrow> bool" where
  "quiet s t \<longleftrightarrow> (\<exists>m a. t = s\<lparr>dmem := m, ata := a\<rparr> \<and> ata_modes a = ata_modes (ata s) \<and>
     ata_sectors a = ata_sectors (ata s) \<and> lock_p a = lock_p (ata s) \<and> lock_s a = lock_s (ata s))"

text \<open>Disk \<open>n\<close> is the node \<open>q\<close> of the table, on a device that serves \<open>content\<close>, and ends before the
  device's last sector.\<close>

definition serving :: "drive \<Rightarrow> (nat \<Rightarrow> u8) \<Rightarrow> u32 \<Rightarrow> u32 \<Rightarrow> disk_state \<Rightarrow> bool" where
  "serving dev content n q s \<longleftrightarrow>
     (\<exists>ds. disk_list s ds \<and> ids_distinct s ds \<and> q \<in> set ds) \<and> d_id (disks s q) = n \<and>
     device_ok dev content (disks s q) (ata s) \<and> disk_end (disks s q) < device_sectors (disks s q) (ata s)"

text \<open>The content of a disk, by the disk's own offsets, and its size in bytes.\<close>

definition view :: "(nat \<Rightarrow> u8) \<Rightarrow> disk \<Rightarrow> nat \<Rightarrow> u8" where
  "view content d k = content (disk_start d * 512 + k)"

definition disk_bytes :: "disk \<Rightarrow> nat" where
  "disk_bytes d = unat (sector_count d) * 512"

lemma quiet_refl [intro]: "quiet s s"
  unfolding quiet_def by (intro exI [of _ "dmem s"] exI [of _ "ata s"]) simp

lemma quiet_trans [trans]:
  assumes "quiet s t" and "quiet t u"
  shows "quiet s u"
proof -
  obtain m a where "u = s\<lparr>dmem := m, ata := a\<rparr>" "ata_modes a = ata_modes (ata s)" "ata_sectors a = ata_sectors (ata s)"
    "lock_p a = lock_p (ata s)" "lock_s a = lock_s (ata s)"
    using assms by (auto simp: quiet_def)
  then show ?thesis
    unfolding quiet_def by blast
qed

lemma quiet_dmem [simp, intro]: "quiet s (s\<lparr>dmem := m\<rparr>)"
  unfolding quiet_def by (intro exI [of _ m] exI [of _ "ata s"]) simp

lemma quiet_same:
  assumes "quiet s t"
  shows "disks t = disks s" "fats t = fats s" "header t = header s" "pos t = pos s" "new_id t = new_id s" "heap t = heap s"
  using assms by (auto simp: quiet_def)

lemma quiet_serving:
  assumes "quiet s t"
  shows "serving dev content n q t \<longleftrightarrow> serving dev content n q s"
proof -
  obtain m a where t: "t = s\<lparr>dmem := m, ata := a\<rparr>" and a: "ata_modes a = ata_modes (ata s)"
    "ata_sectors a = ata_sectors (ata s)" "lock_p a = lock_p (ata s)" "lock_s a = lock_s (ata s)"
    using assms by (auto simp: quiet_def)
  have "drive_mode k a = drive_mode k (ata s)" for k
    by (simp add: drive_mode_def a)
  then show ?thesis
    by (simp add: serving_def t disk_list_def ids_distinct_def device_ok_def device_sectors_def a)
qed

lemma disk_read_full:
  assumes "serving dev content n q s" and "unat count \<le> 255 * 512"
    and "unat off + unat count \<le> disk_bytes (disks s q)"
  shows "\<exists>t. disk_read dev n buf count off s = Some (int (unat count), t) \<and> quiet s t \<and>
    dmem t = (\<lambda>x. if unat (x - buf) < unat count then view content (disks s q) (unat off + unat (x - buf)) else dmem s x)"
proof -
  let ?d = "disks s q"
  obtain ds where ds: "disk_list s ds" "ids_distinct s ds" "q \<in> set ds" and n: "d_id ?d = n"
    and dev: "device_ok dev content ?d (ata s)" and e: "disk_end ?d < device_sectors ?d (ata s)"
    using assms(1) by (auto simp: serving_def)
  have req: "request_ok ?d (ata s) (unat count)"
    using assms(2) by (simp add: request_ok_def)
  have off: "unat off \<le> unat (sector_count ?d) * 512"
    using assms(3) by (simp add: disk_bytes_def)
  have L: "unat count = disk_transferred ?d (ata s) (unat count) (unat off)"
    using assms(3) e by (simp add: disk_transferred_def disk_bytes_def disk_end_def disk_start_def)
  from disk_read_correct [OF ds refl dev req off L, of buf] obtain m a where
    run: "disk_read dev n buf count off s = Some (int (unat count), s\<lparr>dmem := m, ata := a\<rparr>)"
    and m: "m = (\<lambda>x. if unat (x - buf) < unat count then content (disk_start ?d * 512 + unat off + unat (x - buf)) else dmem s x)"
    and a: "a \<in> {ata s, close_ilock (ucast (dev_id ?d)) (ata s)}"
    unfolding n by (elim exE conjE) (rule that; assumption)
  have "quiet s (s\<lparr>dmem := m, ata := a\<rparr>)"
    unfolding quiet_def using a by (intro exI [of _ m] exI [of _ a]) (auto simp: close_ilock_def)
  then show ?thesis
    using run m by (intro exI [of _ "s\<lparr>dmem := m, ata := a\<rparr>"]) (simp add: view_def add.assoc cong: if_cong)
qed

section \<open>Properties\<close>

text \<open>A partition of 20 sectors from sector 10 of a drive of 100, with a FAT16 file system, for the witnesses.\<close>

definition sample_disks :: disk_state where
  "sample_disks = \<lparr>dmem = (\<lambda>_. 7), ata = sample_ata, heap = heap_sample,
     disks = (\<lambda>_. \<lparr>d_id = 5, dev_type = DISK_ATA, dev_id = 1, start_sector = 10, sector_count = 20,
       d_fs = \<lparr>fs_type = FS_FAT, info = 0x3000\<rparr>, part_id = 0, part_count = 0, pdisk = 0, d_last = 0, d_next = 0\<rparr>),
     fats = (\<lambda>_. \<lparr>disk_id = 5, fat_type = FAT16, sector_size = 512, cluster_size = 512, start_cluster = 1536,
       fat_sector = 1, root_dir_cluster = 0, root_dir_sector = 2, root_dir_count = 16\<rparr>),
     new_id = 6, header = 0x1000, pos = 0x1000\<rparr>"

lemma sample_disks_ok:
  "disk_list sample_disks [0x1000]" "ids_distinct sample_disks [0x1000]"
  "device_ok (model_drive content LBA48 1) content (disks sample_disks 0x1000) (ata sample_disks)"
  "device_sectors (disks sample_disks 0x1000) (ata sample_disks) = 100"
  "request_ok (disks sample_disks 0x1000) (ata sample_disks) 1000"
  "disk_start (disks sample_disks 0x1000) = 10" "disk_end (disks sample_disks 0x1000) = 30"
  using sample_ata_simps
  by (simp_all add: sample_disks_def disk_list_def ids_distinct_def device_ok_def model_drive_serves in_range_def
      device_sectors_def request_ok_def disk_start_def disk_end_def)

text \<open>C19. \<open>disk_read\<close> of a disk in the table, at an offset that is not behind its end (behind it the code reads on
  into the next partition, \<open>disk.c:119\<close>): it delivers the bytes of the
  disk's own sectors of the device, as many as there are before the end of the disk and the last
  sector of the device, and they all lie in the disk; it changes no other byte of the memory.\<close>

theorem disk_read_partition:
  assumes "disk_list s ds" and "ids_distinct s ds" and "p \<in> set ds"
    and "device_ok dev content (disks s p) (ata s)" and "request_ok (disks s p) (ata s) (unat count)"
    and "unat off \<le> unat (sector_count (disks s p)) * 512"
    and "L = min (unat count) (min (disk_end (disks s p)) (device_sectors (disks s p) (ata s) - 1) * 512 -
      (disk_start (disks s p) * 512 + unat off))"
  shows "\<exists>m a. disk_read dev (d_id (disks s p)) buf count off s = Some (int L, s\<lparr>dmem := m, ata := a\<rparr>) \<and>
    m = (\<lambda>x. if unat (x - buf) < L then content (disk_start (disks s p) * 512 + unat off + unat (x - buf)) else dmem s x) \<and>
    disk_start (disks s p) * 512 + unat off + L \<le> disk_end (disks s p) * 512"
proof -
  have "L = disk_transferred (disks s p) (ata s) (unat count) (unat off)"
    by (simp only: assms(7) disk_transferred_def)
  from disk_read_correct [OF assms(1-3) refl assms(4-6) this, of buf]
  have run: "\<exists>m a. disk_read dev (d_id (disks s p)) buf count off s = Some (int L, s\<lparr>dmem := m, ata := a\<rparr>) \<and>
    m = (\<lambda>x. if unat (x - buf) < L then content (disk_start (disks s p) * 512 + unat off + unat (x - buf)) else dmem s x)"
    by blast
  have "L \<le> disk_end (disks s p) * 512 - (disk_start (disks s p) * 512 + unat off)"
    unfolding assms(7) by (intro min.coboundedI2 diff_le_mono) simp
  moreover have "disk_start (disks s p) * 512 + unat off \<le> disk_end (disks s p) * 512"
    using assms(6) by (simp add: disk_start_def disk_end_def)
  ultimately show ?thesis
    using run by auto
qed

theorem disk_read_partition_witness:
  "\<exists>m a. disk_read (model_drive of_nat LBA48 1) 5 0x5000 1000 9728 sample_disks = Some (512, sample_disks\<lparr>dmem := m, ata := a\<rparr>) \<and>
    m = (\<lambda>x. if unat (x - 0x5000) < 512 then of_nat (14848 + unat (x - 0x5000)) else 7)"
proof -
  have "d_id (disks sample_disks 0x1000) = 5" "unat (sector_count (disks sample_disks 0x1000)) = 20"
    "dmem sample_disks = (\<lambda>_. 7)"
    by (simp_all add: sample_disks_def)
  with disk_read_partition [OF sample_disks_ok(1, 2) _ sample_disks_ok(3), where count = 1000 and off = 9728 and L = 512 and buf = "0x5000" and content = of_nat]
  show ?thesis
    using sample_disks_ok by (simp cong: if_cong)
qed

text \<open>C37. \<open>disk_write\<close> of a request that lies inside a disk of the table which ends before the last sector of
  the device (a partition; the last sector of a drive is never written, \<open>ata.c:344\<close> and \<open>430\<close>): the content of the device
  becomes the old one with exactly the buffer laid over the requested bytes of this disk, so that
  no byte of another partition changes.\<close>

theorem disk_write_partition:
  assumes "disk_list s ds" and "ids_distinct s ds" and "p \<in> set ds"
    and "device_ok dev content (disks s p) (ata s)" and "request_ok (disks s p) (ata s) (unat count)"
    and "count \<noteq> 0" and "unat off + unat count \<le> unat (sector_count (disks s p)) * 512"
    and "disk_end (disks s p) < device_sectors (disks s p) (ata s)"
    and "apart front 512 behind 512" and "apart buf (unat count) front 512" and "apart buf (unat count) behind 512"
  shows "\<exists>ws data m a. disk_write dev front behind (d_id (disks s p)) buf count off s =
      Some (int (unat count), ws, data, s\<lparr>dmem := m, ata := a\<rparr>) \<and>
    store (decode (drive_mode (ucast (dev_id (disks s p))) (ata s)) (port_base (ucast (dev_id (disks s p)))) ws) data content =
      (\<lambda>x. if disk_start (disks s p) * 512 + unat off \<le> x \<and> x < disk_start (disks s p) * 512 + unat off + unat count
           then dmem s (buf + of_nat (x - (disk_start (disks s p) * 512 + unat off))) else content x)"
proof -
  have "disk_start (disks s p) * 512 + unat off + unat count \<le> disk_end (disks s p) * 512"
    using assms(7) by (simp add: disk_start_def disk_end_def)
  from disk_write_correct [OF assms(1-3) refl assms(4-6) this assms(8-11)] show ?thesis
    unfolding overlay_def [abs_def] by blast
qed

theorem disk_write_partition_witness:
  "\<exists>ws data m a. disk_write (model_drive of_nat LBA48 1) 0x1000 0x2000 5 0x5000 1000 700 sample_disks =
      Some (1000, ws, data, sample_disks\<lparr>dmem := m, ata := a\<rparr>) \<and>
    store (decode48 0x1f0 ws) data of_nat = (\<lambda>x. if 5820 \<le> x \<and> x < 6820 then 7 else of_nat x)"
proof -
  have a: "apart 0x1000 512 0x2000 512" "apart 0x5000 1000 0x1000 512" "apart 0x5000 1000 0x2000 512"
    by (auto intro: apartI apart_sym [OF apartI])
  have "d_id (disks sample_disks 0x1000) = 5" "unat (sector_count (disks sample_disks 0x1000)) = 20"
    "dmem sample_disks = (\<lambda>_. 7)" "dev_id (disks sample_disks 0x1000) = 1" "ata sample_disks = sample_ata"
    by (simp_all add: sample_disks_def)
  with disk_write_partition [OF sample_disks_ok(1, 2) _ sample_disks_ok(3), where count = 1000 and off = 700 and front = "0x1000" and behind = "0x2000"
      and buf = "0x5000" and content = of_nat] a
  show ?thesis
    using sample_disks_ok sample_ata_simps by (simp add: decode_def port_base_def cong: if_cong)
qed

end
