(* ===== verification/Fat.thy ===== *)
theory Fat
  imports Disk
begin

text \<open>
  The clusters of the FAT16 and FAT32 file systems and mounting: the first part of \<open>src/kernel/fs/fat.c\<close> and its
  last function; names, directories and files are in theory \<open>FatDir\<close>.  The local variables that the disk is read
  into lie in the byte memory at the addresses of a \<open>fat_frame\<close>, as do the two string literals that
  \<open>fat_init\<close> compares with; the other locals are values.  A local struct that the code leaves
  uninitialised is a parameter, \<open>uninit_entry\<close> or \<open>uninit_fat\<close>.  \<open>None\<close> is a loop that does not end: a cluster
  chain with a cycle, or a path with no NUL.
\<close>

section \<open>Directory entries\<close>

abbreviation ATTR_DIR :: u8 where "ATTR_DIR \<equiv> 0x10"
abbreviation ATTR_ARCHIVE :: u8 where "ATTR_ARCHIVE \<equiv> 0x20"
abbreviation ATTR_LFN :: u8 where "ATTR_LFN \<equiv> 0x0f"
abbreviation FLAG_DEL :: u8 where "FLAG_DEL \<equiv> 0xe5"
abbreviation FLAG_LAST :: u8 where "FLAG_LAST \<equiv> 0x40"

definition get16 :: "memory \<Rightarrow> u32 \<Rightarrow> u16" where
  "get16 m a = ucast (m a) OR push_bit 8 (ucast (m (a + 1)))"

definition get32 :: "memory \<Rightarrow> u32 \<Rightarrow> u32" where
  "get32 m a = ucast (get16 m a) OR push_bit 16 (ucast (get16 m (a + 2)))"

definition put32 :: "u32 \<Rightarrow> u32 \<Rightarrow> memory \<Rightarrow> memory" where
  "put32 a x m = m(a := ucast x, a + 1 := ucast (drop_bit 8 x), a + 2 := ucast (drop_bit 16 x), a + 3 := ucast (drop_bit 24 x))"

definition get_bytes :: "memory \<Rightarrow> u32 \<Rightarrow> nat \<Rightarrow> u8 list" where
  "get_bytes m a k = map (\<lambda>i. m (a + of_nat i)) [0..<k]"

text \<open>The 32 bytes of a \<open>_fat_dir_t\<close>, read as one of the two structs of its union.\<close>

type_synonym fat_dir = "u8 list"

definition half :: "fat_dir \<Rightarrow> nat \<Rightarrow> u16" where
  "half e i = ucast (e ! i) OR push_bit 8 (ucast (e ! (i + 1)))"

definition order :: "fat_dir \<Rightarrow> u8" where "order e = e ! 0"
definition attribute :: "fat_dir \<Rightarrow> u8" where "attribute e = e ! 11"
definition reserved :: "fat_dir \<Rightarrow> u8" where "reserved e = e ! 12"
definition first_cluster_high :: "fat_dir \<Rightarrow> u16" where "first_cluster_high e = half e 20"
definition first_cluster_low :: "fat_dir \<Rightarrow> u16" where "first_cluster_low e = half e 26"

definition file_size :: "fat_dir \<Rightarrow> u32" where
  "file_size e = ucast (half e 28) OR push_bit 16 (ucast (half e 30))"

definition set_deleted :: "fat_dir \<Rightarrow> fat_dir" where
  "set_deleted e = e[0 := FLAG_DEL]"

record fat_frame =
  next_at :: u32
  entry_at :: u32
  root_entry_at :: u32
  file_at :: u32
  header_at :: u32
  lit16_at :: u32
  lit32_at :: u32
  uninit_entry :: fat_dir
  uninit_fat :: fat

datatype file_type = FILE_REG | FILE_DIR

record file_t =
  f_name :: "u8 list"
  name_len :: u32
  f_type :: "file_type option"

section \<open>Clusters\<close>

definition next_cluster :: "drive \<Rightarrow> fat_frame \<Rightarrow> u32 \<Rightarrow> u32 \<Rightarrow> disk_state \<Rightarrow> (u32 \<times> disk_state) option" where
  "next_cluster dev fr p cluster s =
     (let fat = fats s p;
          base = fat_sector fat * ucast (sector_size fat);
          s0 = s\<lparr>dmem := put32 (next_at fr) 0 (dmem s)\<rparr>
      in case fat_type fat of
           FAT16 \<Rightarrow>
             do { (_, s1) \<leftarrow> disk_read dev (disk_id fat) (next_at fr) 2 (base + ucast (cluster * 2)) s0;
                  let n = get32 (dmem s1) (next_at fr) in
                  Some (if n < 0x2 \<or> n > 0xffef then 0 else n, s1) }
         | FAT32 \<Rightarrow>
             do { (_, s1) \<leftarrow> disk_read dev (disk_id fat) (next_at fr) 4 (base + ucast (cluster * 4)) s0;
                  let n = get32 (dmem s1) (next_at fr) in
                  Some (if n < 0x2 \<or> n > 0xfffffef then 0 else n, s1) })"

partial_function (option) count_clusters ::
    "drive \<Rightarrow> fat_frame \<Rightarrow> u32 \<Rightarrow> u32 \<Rightarrow> u32 \<Rightarrow> disk_state \<Rightarrow> (u32 \<times> disk_state) option" where
  "count_clusters dev fr p cluster n s =
     do { (c, s1) \<leftarrow> next_cluster dev fr p cluster s;
          if c \<noteq> 0 then count_clusters dev fr p c (n + 1) s1 else Some (n, s1) }"

definition dir_cluster :: "drive \<Rightarrow> fat_frame \<Rightarrow> u32 \<Rightarrow> u32 \<Rightarrow> disk_state \<Rightarrow> (u32 \<times> disk_state) option" where
  "dir_cluster dev fr p cluster s = count_clusters dev fr p cluster 1 s"

text \<open>One turn of the loop of \<open>read_cluster\<close>: the result, or the variables with which the loop goes on.  \<open>n\<close>
  and \<open>i\<close> are signed, and a sum that leaves the range of \<open>int\<close> wraps.\<close>

definition read_part ::
    "drive \<Rightarrow> fat \<Rightarrow> u32 \<Rightarrow> u32 \<Rightarrow> u32 \<Rightarrow> u64 \<Rightarrow> u32 \<Rightarrow> u64 \<Rightarrow> disk_state \<Rightarrow>
       ((int + u32 \<times> u64 \<times> u32 \<times> u64) \<times> disk_state) option" where
  "read_part dev fat buf cluster count offect n buf_offect s =
     (let size = (ucast (cluster_size fat) :: u64);
          at = start_cluster fat + ucast ((cluster - 2) * cluster_size fat) + offect
      in if offect < size then
           (if offect + ucast count > size then
              do { (i, s1) \<leftarrow> disk_read dev (disk_id fat) (buf + ucast buf_offect) (ucast (size - offect)) at s;
                   Some (if i = -1 then Inl (-1)
                         else Inr (count - ucast (size - offect), 0, n + word_of_int i, buf_offect + size), s1) }
            else
              do { (i, s1) \<leftarrow> disk_read dev (disk_id fat) (buf + ucast buf_offect) count at s;
                   Some (if i = -1 then Inl (-1) else Inl (sint (n + word_of_int i)), s1) })
         else Some (Inr (count, offect - size, n, buf_offect), s))"

partial_function (option) read_clusters ::
    "drive \<Rightarrow> fat_frame \<Rightarrow> u32 \<Rightarrow> u32 \<Rightarrow> u32 \<Rightarrow> u32 \<Rightarrow> u64 \<Rightarrow> u32 \<Rightarrow> u64 \<Rightarrow> disk_state \<Rightarrow> (int \<times> disk_state) option" where
  "read_clusters dev fr p buf cluster count offect n buf_offect s =
     do { (r, s1) \<leftarrow> read_part dev (fats s p) buf cluster count offect n buf_offect s;
          case r of
            Inl v \<Rightarrow> Some (v, s1)
          | Inr (count, offect, n, buf_offect) \<Rightarrow>
              do { (c, s2) \<leftarrow> next_cluster dev fr p cluster s1;
                   if c \<noteq> 0 then read_clusters dev fr p buf c count offect n buf_offect s2 else Some (sint n, s2) } }"

definition read_cluster ::
    "drive \<Rightarrow> fat_frame \<Rightarrow> u32 \<Rightarrow> u32 \<Rightarrow> u32 \<Rightarrow> u32 \<Rightarrow> u64 \<Rightarrow> disk_state \<Rightarrow> (int \<times> disk_state) option" where
  "read_cluster dev fr p buf cluster count offect s = read_clusters dev fr p buf cluster count offect 0 0 s"

definition read_dir_entry ::
    "drive \<Rightarrow> fat_frame \<Rightarrow> u32 \<Rightarrow> u32 \<Rightarrow> u32 \<Rightarrow> disk_state \<Rightarrow> (fat_dir \<times> disk_state) option" where
  "read_dir_entry dev fr p cluster n s =
     do { (_, s1) \<leftarrow> read_cluster dev fr p (entry_at fr) cluster 32 (ucast (n * 32)) s;
          Some (get_bytes (dmem s1) (entry_at fr) 32, s1) }"

definition read_root_dir_entry :: "drive \<Rightarrow> fat_frame \<Rightarrow> u32 \<Rightarrow> u32 \<Rightarrow> disk_state \<Rightarrow> (fat_dir \<times> disk_state) option" where
  "read_root_dir_entry dev fr p n s =
     (let fat = fats s p
      in case fat_type fat of
           FAT16 \<Rightarrow>
             do { (_, s1) \<leftarrow> disk_read dev (disk_id fat) (root_entry_at fr) 32
                    (root_dir_sector fat * ucast (sector_size fat) + ucast (n * 32)) s;
                  Some (get_bytes (dmem s1) (root_entry_at fr) 32, s1) }
         | FAT32 \<Rightarrow> read_dir_entry dev fr p (ucast (root_dir_cluster fat)) n s)"

section \<open>Mounting\<close>

text \<open>The fields of the boot sector, read from byte 3 of the disk on; \<open>None\<close> is no file system.\<close>

definition fat_fields :: "fat_frame \<Rightarrow> memory \<Rightarrow> fat \<Rightarrow> fat option" where
  "fat_fields fr m fat =
     (let h = header_at fr;
          reserved_sectors = get16 m (h + 11); table_count = m (h + 13); table_sectors = get16 m (h + 19);
          big_sectors = get32 m (h + 33); root_cluster = get32 m (h + 41)
      in if memcmp (h + 51) (lit16_at fr) 8 m = 0 then
           (let root = ucast reserved_sectors + ucast table_sectors * ucast table_count
            in Some (fat\<lparr>fat_type := FAT16, root_dir_sector := root,
                 start_cluster := root * ucast (get16 m (h + 8)) + ucast (ucast (get16 m (h + 14)) * 32 :: u32)\<rparr>))
         else if memcmp (h + 79) (lit32_at fr) 8 m = 0 then
           (let tables = ucast reserved_sectors + big_sectors * ucast table_count
            in Some (fat\<lparr>fat_type := FAT32, start_cluster := ucast (tables * ucast (get16 m (h + 8))),
                 root_dir_sector := ucast (tables + (root_cluster - 2) * ucast (m (h + 10))),
                 root_dir_cluster := ucast root_cluster\<rparr>))
         else None)"

definition fat_init :: "drive \<Rightarrow> fat_frame \<Rightarrow> u32 \<Rightarrow> disk_state \<Rightarrow> (u32 \<times> disk_state) option" where
  "fat_init dev fr n s =
     do { (r, s1) \<leftarrow> disk_read dev n (header_at fr) 87 3 s;
          let m = dmem s1; h = header_at fr; fat = (uninit_fat fr)\<lparr>disk_id := n\<rparr> in
          case (if r \<noteq> -1 then fat_fields fr m fat else Some fat) of
            None \<Rightarrow> Some (NULL, s1)
          | Some f \<Rightarrow>
              (let f = f\<lparr>sector_size := ucast (get16 m (h + 8)), cluster_size := ucast (m (h + 10)) * ucast (get16 m (h + 8)),
                     fat_sector := ucast (get16 m (h + 11)), root_dir_count := ucast (get16 m (h + 14))\<rparr>
               in do { (p, hp) \<leftarrow> kmalloc 52 (heap s1);
                       Some (p, if p \<noteq> NULL then s1\<lparr>heap := hp, fats := (fats s1)(p := f)\<rparr> else s1\<lparr>heap := hp\<rparr>) }) }"

section \<open>What the disk says\<close>

text \<open>Memory outside a region of \<open>k\<close> bytes is as it was.\<close>

definition outside :: "u32 \<Rightarrow> nat \<Rightarrow> memory \<Rightarrow> memory \<Rightarrow> bool" where
  "outside a k m m' \<longleftrightarrow> (\<forall>x. \<not> unat (x - a) < k \<longrightarrow> m' x = m x)"

lemma outside_refl [simp]: "outside a k m m"
  by (simp add: outside_def)

lemma outside_trans [trans]: "outside a k m m' \<Longrightarrow> outside a k m' m'' \<Longrightarrow> outside a k m m''"
  by (simp add: outside_def)

definition le16 :: "(nat \<Rightarrow> u8) \<Rightarrow> nat \<Rightarrow> u16" where
  "le16 V k = ucast (V k) OR push_bit 8 (ucast (V (k + 1)))"

definition le32 :: "(nat \<Rightarrow> u8) \<Rightarrow> nat \<Rightarrow> u32" where
  "le32 V k = ucast (le16 V k) OR push_bit 16 (ucast (le16 V (k + 2)))"

definition entry_width :: "fat \<Rightarrow> nat" where
  "entry_width f = (case fat_type f of FAT16 \<Rightarrow> 2 | FAT32 \<Rightarrow> 4)"

definition table_pos :: "fat \<Rightarrow> u32 \<Rightarrow> nat" where
  "table_pos f c = unat (fat_sector f) * unat (sector_size f) + unat c * entry_width f"

text \<open>The cluster after \<open>c\<close> by the first table of the disk; 0 ends the chain.\<close>

definition link :: "(nat \<Rightarrow> u8) \<Rightarrow> fat \<Rightarrow> u32 \<Rightarrow> u32" where
  "link V f c =
     (let n = (case fat_type f of FAT16 \<Rightarrow> ucast (le16 V (table_pos f c)) | FAT32 \<Rightarrow> le32 V (table_pos f c));
          hi = (case fat_type f of FAT16 \<Rightarrow> 0xffef | FAT32 \<Rightarrow> 0xfffffef)
      in if n < 2 \<or> n > hi then 0 else n)"

text \<open>The table has an entry for \<open>c\<close> on the disk.\<close>

definition table_has :: "fat \<Rightarrow> disk \<Rightarrow> u32 \<Rightarrow> bool" where
  "table_has f d c \<longleftrightarrow> unat c < 2 ^ 28 \<and> table_pos f c + entry_width f \<le> disk_bytes d"

abbreviation disk_view :: "(nat \<Rightarrow> u8) \<Rightarrow> u32 \<Rightarrow> disk_state \<Rightarrow> nat \<Rightarrow> u8" where
  "disk_view content q s \<equiv> view content (disks s q)"

abbreviation fat_serving :: "drive \<Rightarrow> (nat \<Rightarrow> u8) \<Rightarrow> u32 \<Rightarrow> u32 \<Rightarrow> disk_state \<Rightarrow> bool" where
  "fat_serving dev content q p s \<equiv> serving dev content (disk_id (fats s p)) q s"

lemma serving_size:
  assumes "serving dev content n q s"
  shows "disk_bytes (disks s q) \<le> 2 ^ 57"
proof -
  have "disk_end (disks s q) \<le> 2 ^ 48"
    using assms device_bounds [where d = "disks s q"] unfolding serving_def by (meson order_trans)
  then show ?thesis
    by (simp add: disk_bytes_def disk_end_def)
qed

lemma unat_mult_nowrap:
  fixes a b :: "'a::len word"
  assumes "unat a * unat b < 2 ^ LENGTH('a)"
  shows "unat (a * b) = unat a * unat b"
  using assms by (simp add: unat_word_ariths)

lemma table_offset:
  assumes "table_has f d c" and "disk_bytes d \<le> 2 ^ 57"
  shows "unat (fat_sector f * ucast (sector_size f) + ucast (c * of_nat (entry_width f)) :: u64) = table_pos f c"
    (is "unat (?a + ?b) = _")
proof -
  have w: "entry_width f \<le> 4" "unat (of_nat (entry_width f) :: u32) = entry_width f"
    by (simp_all add: entry_width_def split: fat_type.split)
  have c: "unat c < 268435456"
    using assms(1) by (simp add: table_has_def)
  have "unat c * entry_width f \<le> unat c * 4"
    using w by simp
  then have "unat c * entry_width f < 4294967296"
    using c by linarith
  then have b: "unat ?b = unat c * entry_width f"
    using w by (simp add: unat_ucast_up unat_mult32)
  have le: "unat (fat_sector f) * unat (sector_size f) + unat c * entry_width f \<le> 2 ^ 57"
    using assms by (simp add: table_has_def table_pos_def)
  then have "unat (fat_sector f) * unat (sector_size f) \<le> 2 ^ 57"
    by linarith
  then have a: "unat ?a = unat (fat_sector f) * unat (sector_size f)"
    by (subst unat_mult_nowrap) (simp_all add: unat_ucast_up)
  show ?thesis
    using le by (subst unat_add_nowrap) (simp_all only: a b table_pos_def, simp)
qed

lemma get32_read:
  assumes "m = (\<lambda>x. if unat (x - a) < k then B (unat (x - a)) else put32 a 0 m0 x)"
  shows "k = 2 \<Longrightarrow> get32 m a = ucast (le16 B 0)" and "k = 4 \<Longrightarrow> get32 m a = le32 B 0"
proof -
  have m: "m a = (if 0 < k then B 0 else 0)" "m (a + 1) = (if 1 < k then B 1 else 0)"
    "m (a + 2) = (if 2 < k then B 2 else 0)" "m (a + 3) = (if 3 < k then B 3 else 0)"
    using assms by (simp_all add: put32_def)
  have a3: "a + 2 + 1 = a + 3"
    by simp
  show "k = 2 \<Longrightarrow> get32 m a = ucast (le16 B 0)" and "k = 4 \<Longrightarrow> get32 m a = le32 B 0"
    by (simp_all add: get32_def get16_def le32_def le16_def m a3 del: add_2_eq_Suc')
qed

lemma next_cluster_link:
  assumes "fat_serving dev content q p s" and "table_has (fats s p) (disks s q) c"
  shows "\<exists>t. next_cluster dev fr p c s = Some (link (disk_view content q s) (fats s p) c, t) \<and> quiet s t \<and>
    outside (next_at fr) 4 (dmem s) (dmem t)"
proof -
  let ?f = "fats s p" and ?V = "disk_view content q s" and ?w = "of_nat (entry_width (fats s p)) :: u32"
  let ?off = "fat_sector ?f * ucast (sector_size ?f) + ucast (c * ?w)"
  define s0 where "s0 = s\<lparr>dmem := put32 (next_at fr) 0 (dmem s)\<rparr>"
  have s0: "quiet s s0" "disks s0 = disks s" "dmem s0 = put32 (next_at fr) 0 (dmem s)"
    by (simp_all only: s0_def quiet_dmem, simp_all)
  have w: "unat ?w = entry_width ?f" "unat ?w \<le> 4"
    by (simp_all add: entry_width_def split: fat_type.split)
  have off: "unat ?off = table_pos ?f c"
    using table_offset [OF assms(2) serving_size [OF assms(1)]] .
  have "serving dev content (disk_id ?f) q s0" "unat ?w \<le> 255 * 512"
    "unat ?off + unat ?w \<le> disk_bytes (disks s0 q)"
    using assms w by (simp_all only: off quiet_serving [OF s0(1)] s0(2) table_has_def)
  from disk_read_full [OF this, of "next_at fr"] obtain t where
    run: "disk_read dev (disk_id ?f) (next_at fr) ?w ?off s0 = Some (int (entry_width ?f), t)" and q: "quiet s0 t"
    and m: "dmem t = (\<lambda>x. if unat (x - next_at fr) < entry_width ?f then ?V (table_pos ?f c + unat (x - next_at fr))
      else put32 (next_at fr) 0 (dmem s) x)"
    unfolding w off s0 by (elim exE conjE) (rule that; assumption)
  have le: "le16 (\<lambda>k. ?V (x + k)) 0 = le16 ?V x" "le32 (\<lambda>k. ?V (x + k)) 0 = le32 ?V x" for x
    by (simp_all add: le16_def le32_def)
  have "next_cluster dev fr p c s = Some (link ?V ?f c, t)"
  proof (cases "fat_type ?f")
    case FAT16
    then have "entry_width ?f = 2"
      by (simp add: entry_width_def)
    moreover from this have "get32 (dmem t) (next_at fr) = ucast (le16 ?V (table_pos ?f c))"
      using get32_read(1) [OF m] by (simp add: le)
    ultimately show ?thesis
      using run by (simp add: next_cluster_def Let_def FAT16 s0_def [symmetric] link_def)
  next
    case FAT32
    then have "entry_width ?f = 4"
      by (simp add: entry_width_def)
    moreover from this have "get32 (dmem t) (next_at fr) = le32 ?V (table_pos ?f c)"
      using get32_read(2) [OF m] by (simp add: le)
    ultimately show ?thesis
      using run by (simp add: next_cluster_def Let_def FAT32 s0_def [symmetric] link_def)
  qed
  moreover have "outside (next_at fr) 4 (dmem s) (dmem t)"
  proof -
    have "x \<noteq> next_at fr" "x \<noteq> next_at fr + 1" "x \<noteq> next_at fr + 2" "x \<noteq> next_at fr + 3"
      if "\<not> unat (x - next_at fr) < 4" for x
      using that by auto
    moreover have "entry_width ?f \<le> 4"
      by (simp add: entry_width_def split: fat_type.split)
    ultimately show ?thesis
      by (auto simp: outside_def m put32_def)
  qed
  moreover have "quiet s t"
    using s0(1) q by (rule quiet_trans)
  ultimately show ?thesis
    by blast
qed

lemma quiet_fat:
  assumes "quiet s t"
  shows "serving dev content n q t \<longleftrightarrow> serving dev content n q s"
    and "fats t = fats s" and "disks t = disks s"
  by (simp_all only: quiet_serving [OF assms] quiet_same [OF assms])

section \<open>Chains\<close>

text \<open>The clusters of a chain, in order: the whole of it from the first one to the one with no next.\<close>

fun chain :: "(nat \<Rightarrow> u8) \<Rightarrow> fat \<Rightarrow> u32 list \<Rightarrow> bool" where
  "chain V f [] = False"
| "chain V f [c] = (link V f c = 0)"
| "chain V f (c # c' # cs) = (link V f c = c' \<and> c' \<noteq> 0 \<and> chain V f (c' # cs))"

lemma count_clusters_chain:
  assumes "chain (disk_view content q s) (fats s p) cs" and "fat_serving dev content q p s"
    and "\<forall>c \<in> set cs. table_has (fats s p) (disks s q) c"
  shows "\<exists>t. count_clusters dev fr p (hd cs) n s = Some (n + of_nat (length cs) - 1, t) \<and> quiet s t \<and>
    outside (next_at fr) 4 (dmem s) (dmem t)"
  using assms
proof (induction cs arbitrary: n s rule: chain.induct [of _ undefined undefined])
  case (2 V f c)
  then obtain t where "next_cluster dev fr p c s = Some (0, t)" "quiet s t" "outside (next_at fr) 4 (dmem s) (dmem t)"
    using next_cluster_link [OF "2.prems"(2), of c fr] by auto
  then show ?case
    by (subst count_clusters.simps) simp
next
  case (3 V f c c' cs)
  then obtain t where t: "next_cluster dev fr p c s = Some (c', t)" "quiet s t" "outside (next_at fr) 4 (dmem s) (dmem t)"
    and c': "c' \<noteq> 0"
    using next_cluster_link [OF "3.prems"(2), of c fr] by auto
  note q = quiet_fat [OF t(2)]
  obtain u where "count_clusters dev fr p c' (n + 1) t = Some (n + 1 + of_nat (length (c' # cs)) - 1, u)"
    "quiet t u" "outside (next_at fr) 4 (dmem t) (dmem u)"
    using "3.IH" [of t "n + 1"] "3.prems" by (auto simp: q)
  moreover have "count_clusters dev fr p c n s = count_clusters dev fr p c' (n + 1) t"
    using c' by (subst count_clusters.simps) (simp add: t(1))
  ultimately show ?case
    using quiet_trans [OF t(2)] outside_trans [OF t(3)] by (intro exI [of _ u]) (simp add: add.commute)
qed simp

lemma count_clusters_endless:
  assumes "count_clusters dev fr p c n s = Some y" and "fat_serving dev content q p s" and "c \<in> S"
    and "\<And>x. x \<in> S \<Longrightarrow> table_has (fats s p) (disks s q) x"
    and "\<And>x. x \<in> S \<Longrightarrow> link (disk_view content q s) (fats s p) x \<in> S - {0}"
  shows False
proof -
  let ?Q = "\<lambda>dev p c s. fat_serving dev content q p s \<and> c \<in> S \<and> (\<forall>x\<in>S. table_has (fats s p) (disks s q) x \<and>
    link (disk_view content q s) (fats s p) x \<in> S - {0})"
  have "count_clusters a b c d e f = Some y \<Longrightarrow> \<not> ?Q a c d f" for a b c d e f y
  proof (rule count_clusters.raw_induct [where P = "\<lambda>a b c d e f y. \<not> ?Q a c d f"], goal_cases)
    case (1 rec a b c d e f y)
    show ?case
    proof
      assume Q: "?Q a c d f"
      then obtain t where t: "next_cluster a b c d f = Some (link (disk_view content q f) (fats f c) d, t)"
        and q: "quiet f t"
        using next_cluster_link [where dev = a and p = c and s = f and c = d and fr = b] by blast
      have "link (disk_view content q f) (fats f c) d \<noteq> 0"
        using Q by auto
      then have "rec a b c (link (disk_view content q f) (fats f c) d) (e + 1) t = Some y"
        using 1(3) by (simp add: t)
      from 1(2) [OF this] show False
        using Q by (simp add: quiet_fat [OF q])
    qed
  qed
  from this [OF assms(1)] show False
    using assms(2-5) by simp
qed

lemma dir_cluster_correct:
  assumes "fat_serving dev content q p s" and "c \<in> S"
    and "\<And>x. x \<in> S \<Longrightarrow> table_has (fats s p) (disks s q) x"
    and "\<And>x. x \<in> S \<Longrightarrow> link (disk_view content q s) (fats s p) x \<in> insert 0 S"
  shows "dir_cluster dev fr p c s \<noteq> None \<longleftrightarrow> (\<exists>cs. chain (disk_view content q s) (fats s p) cs \<and> hd cs = c)"
    and "chain (disk_view content q s) (fats s p) cs \<Longrightarrow> hd cs = c \<Longrightarrow>
      \<exists>t. dir_cluster dev fr p c s = Some (of_nat (length cs), t) \<and> quiet s t \<and> outside (next_at fr) 4 (dmem s) (dmem t)"
proof -
  let ?link = "link (disk_view content q s) (fats s p)" and ?chain = "chain (disk_view content q s) (fats s p)"
  have sub: "set cs \<subseteq> S" if "?chain cs" "hd cs \<in> S" for cs
    using that
  proof (induction cs rule: chain.induct [of _ undefined undefined])
    case (3 V f c c' cs)
    then show ?case
      using assms(4) [of c] by auto
  qed auto
  have ends: "\<exists>t. dir_cluster dev fr p c s = Some (of_nat (length cs), t) \<and> quiet s t \<and> outside (next_at fr) 4 (dmem s) (dmem t)"
    if "?chain cs" "hd cs = c" for cs
    using count_clusters_chain [OF that(1) assms(1), of fr 1] sub [OF that(1)] that(2) assms(2, 3)
    by (auto simp: dir_cluster_def)
  then show "?chain cs \<Longrightarrow> hd cs = c \<Longrightarrow>
      \<exists>t. dir_cluster dev fr p c s = Some (of_nat (length cs), t) \<and> quiet s t \<and> outside (next_at fr) 4 (dmem s) (dmem t)"
    .
  let ?E = "{x \<in> S. \<nexists>cs. ?chain cs \<and> hd cs = x}"
  have step: "?link x \<in> ?E - {0}" if "x \<in> ?E" for x
  proof -
    have "?link x \<noteq> 0"
    proof
      assume "?link x = 0"
      then have "?chain [x] \<and> hd [x] = x"
        by simp
      then show False
        using that by blast
    qed
    moreover have "\<not> ?chain cs" if hd: "hd cs = ?link x" for cs
    proof
      assume "?chain cs"
      then obtain ys where "cs = ?link x # ys"
        using hd by (cases cs) auto
      then have "?chain (x # cs) \<and> hd (x # cs) = x"
        using \<open>?chain cs\<close> \<open>?link x \<noteq> 0\<close> by simp
      then show False
        using \<open>x \<in> ?E\<close> by blast
    qed
    ultimately show ?thesis
      using that assms(4) [of x] by auto
  qed
  have "dir_cluster dev fr p c s = None" if "\<nexists>cs. ?chain cs \<and> hd cs = c"
  proof (rule ccontr)
    assume "dir_cluster dev fr p c s \<noteq> None"
    then obtain y where "count_clusters dev fr p c 1 s = Some y"
      by (auto simp: dir_cluster_def)
    then show False
      by (rule count_clusters_endless [OF _ assms(1), where S = ?E]) (use step assms(2, 3) that in auto)
  qed
  then show "dir_cluster dev fr p c s \<noteq> None \<longleftrightarrow> (\<exists>cs. ?chain cs \<and> hd cs = c)"
    using ends by (metis option.distinct(1))
qed

section \<open>The bytes of a chain\<close>

definition cluster_pos :: "fat \<Rightarrow> u32 \<Rightarrow> nat" where
  "cluster_pos f c = unat (start_cluster f) + (unat c - 2) * unat (cluster_size f)"

definition cluster_byte :: "(nat \<Rightarrow> u8) \<Rightarrow> fat \<Rightarrow> u32 list \<Rightarrow> nat \<Rightarrow> u8" where
  "cluster_byte V f cs k = V (cluster_pos f (cs ! (k div unat (cluster_size f))) + k mod unat (cluster_size f))"

text \<open>The clusters of a chain are on the disk, each can be read in one command, and the first 4 GB of the
  data area hold them.\<close>

definition data_has :: "fat \<Rightarrow> disk \<Rightarrow> u32 \<Rightarrow> bool" where
  "data_has f d c \<longleftrightarrow> 2 \<le> unat c \<and> (unat c - 2) * unat (cluster_size f) < 2 ^ 32 \<and>
     cluster_pos f c + unat (cluster_size f) \<le> disk_bytes d"

definition readable :: "fat \<Rightarrow> disk \<Rightarrow> u32 list \<Rightarrow> bool" where
  "readable f d cs \<longleftrightarrow> 0 < unat (cluster_size f) \<and> unat (cluster_size f) \<le> 255 * 512 \<and>
     (\<forall>c \<in> set cs. table_has f d c \<and> data_has f d c)"

lemma cluster_offset:
  assumes "data_has f d c" and "disk_bytes d \<le> 2 ^ 57" and "unat off < unat (cluster_size f)"
  shows "unat (start_cluster f + ucast ((c - 2) * cluster_size f) + off :: u64) = cluster_pos f c + unat off"
proof -
  have c: "unat (c - 2) = unat c - 2"
    using assms(1) by (subst unat_sub32) (simp_all add: data_has_def word_le_nat_alt)
  have m: "unat ((c - 2) * cluster_size f) = (unat c - 2) * unat (cluster_size f)"
    using assms(1) by (subst unat_mult32) (simp_all add: c data_has_def)
  have le: "cluster_pos f c + unat (cluster_size f) \<le> 144115188075855872"
    using assms(1, 2) by (simp add: data_has_def)
  then have "unat (start_cluster f + ucast ((c - 2) * cluster_size f)) = cluster_pos f c"
    by (subst unat_add_nowrap) (simp_all add: unat_ucast_up m cluster_pos_def)
  then show ?thesis
    using le assms(3) by (subst unat_add_nowrap) simp_all
qed

text \<open>One turn of the loop: a cluster before the range, one that holds its end, one that it goes on behind.\<close>

lemma read_part_skip:
  assumes "unat (cluster_size f) \<le> unat off"
  shows "read_part dev f buf c count off n bo s = Some (Inr (count, off - ucast (cluster_size f), n, bo), s)"
  using assms by (simp add: read_part_def Let_def word_less_nat_alt unat_ucast_up)

lemma read_part_bounds:
  fixes off :: u64 and count :: u32
  assumes "unat off < unat (cluster_size f)"
  shows "off < ucast (cluster_size f)"
    and "off + ucast count > ucast (cluster_size f) \<longleftrightarrow> unat off + unat count > unat (cluster_size f)"
    and "unat (ucast (ucast (cluster_size f) - off) :: u32) = unat (cluster_size f) - unat off"
proof -
  show less: "off < ucast (cluster_size f)"
    using assms by (simp add: word_less_nat_alt unat_ucast_up)
  have bound: "unat off < 4294967296" "unat count < 4294967296" "unat (cluster_size f) < 4294967296"
    using assms unat_u32_less [of "cluster_size f"] unat_u32_less [of count] by (simp_all del: unat_u32_less)
  have "unat off + unat count < 18446744073709551616"
    using bound by linarith
  then have "unat (off + ucast count) = unat off + unat count"
    by (subst unat_add_nowrap) (simp_all add: unat_ucast_up)
  then show "off + ucast count > ucast (cluster_size f) \<longleftrightarrow> unat off + unat count > unat (cluster_size f)"
    by (simp add: word_less_nat_alt unat_ucast_up)
  have "unat (ucast (cluster_size f) - off) = unat (cluster_size f) - unat off"
    using less by (subst unat_sub) (simp_all add: unat_ucast_up)
  moreover have "(unat (cluster_size f) - unat off) mod 4294967296 = unat (cluster_size f) - unat off"
    using bound by (intro mod_less) linarith
  ultimately show "unat (ucast (ucast (cluster_size f) - off) :: u32) = unat (cluster_size f) - unat off"
    by (simp add: unsigned_ucast_eq take_bit_eq_mod)
qed

lemma read_part_run:
  assumes "serving dev content (disk_id f) q s" and "data_has f (disks s q) c" and "unat (cluster_size f) \<le> 255 * 512"
    and "unat off < unat (cluster_size f)"
    and "k = min (unat count) (unat (cluster_size f) - unat off)"
  shows "\<exists>t. read_part dev f buf c count off n bo s =
      Some (if unat off + unat count > unat (cluster_size f)
            then Inr (count - of_nat k, 0, n + of_nat k, bo + ucast (cluster_size f))
            else Inl (sint (n + of_nat k)), t) \<and> quiet s t \<and>
    dmem t = (\<lambda>x. if unat (x - (buf + ucast bo)) < k
      then disk_view content q s (cluster_pos f c + unat off + unat (x - (buf + ucast bo))) else dmem s x)"
proof -
  note b = read_part_bounds [OF assms(4)]
  define cnt where "cnt = (if unat off + unat count > unat (cluster_size f) then ucast (ucast (cluster_size f) - off) else count)"
  have cnt: "unat cnt = k"
    using assms(4, 5) b(3) by (auto simp: cnt_def)
  have of_k: "of_nat k = cnt"
    by (simp flip: cnt)
  note at = cluster_offset [OF assms(2) serving_size [OF assms(1)] assms(4)]
  have "k \<le> unat (cluster_size f) - unat off"
    by (simp add: assms(5))
  then have "unat cnt \<le> 255 * 512" "cluster_pos f c + unat off + unat cnt \<le> disk_bytes (disks s q)"
    using assms(2-4) by (auto simp: cnt data_has_def)
  from disk_read_full [OF assms(1) this(1), of "start_cluster f + ucast ((c - 2) * cluster_size f) + off",
      unfolded at, OF this(2), of "buf + ucast bo"] obtain t where
    run: "disk_read dev (disk_id f) (buf + ucast bo) cnt (start_cluster f + ucast ((c - 2) * cluster_size f) + off) s =
      Some (int k, t)" and q: "quiet s t"
    and m: "dmem t = (\<lambda>x. if unat (x - (buf + ucast bo)) < k
      then disk_view content q s (cluster_pos f c + unat off + unat (x - (buf + ucast bo))) else dmem s x)"
    unfolding cnt by (elim exE conjE) (rule that; assumption)
  have "int k \<noteq> - 1"
    by simp
  then show ?thesis
  proof (cases "unat off + unat count > unat (cluster_size f)")
    case True
    then have "cnt = ucast (ucast (cluster_size f) - off)"
      by (simp add: cnt_def)
    then have "read_part dev f buf c count off n bo s =
        Some (Inr (count - cnt, 0, n + cnt, bo + ucast (cluster_size f)), t)"
      using run b True \<open>int k \<noteq> - 1\<close> of_k by (simp add: read_part_def Let_def)
    then show ?thesis
      using True q m of_k by (intro exI [of _ t]) simp
  next
    case False
    then have "cnt = count"
      by (simp add: cnt_def)
    then have "read_part dev f buf c count off n bo s = Some (Inl (sint (n + cnt)), t)"
      using run b False \<open>int k \<noteq> - 1\<close> of_k by (simp add: read_part_def Let_def)
    then show ?thesis
      using False q m of_k by (intro exI [of _ t]) simp
  qed
qed

lemma ucast_down_add:
  fixes a b :: u64
  shows "(ucast (a + b) :: u32) = ucast a + ucast b"
  by (simp add: word_unat_eq_iff unsigned_ucast_eq take_bit_eq_mod unat_word_ariths mod_mod_cancel mod_simps)

lemma sint_unat32:
  fixes x :: u32
  assumes "unat x < 2147483648"
  shows "sint x = int (unat x)"
proof -
  have "int (unat x) < 2147483648"
    using assms by linarith
  moreover have "- 2147483648 \<le> uint x"
    using uint_nonnegative [of x] by linarith
  ultimately show ?thesis
    using signed_take_bit_int_eq_self [of 31 "uint x"] by (simp add: sint_uint)
qed

lemma ucast_up_down: "(ucast (ucast (x :: u32) :: u64) :: u32) = x"
  by (simp add: word_unat_eq_iff unsigned_ucast_eq take_bit_word_eq_self)

text \<open>Two pieces of a buffer, one behind the other, as one.\<close>

lemma join_pieces:
  fixes b x :: u32
  assumes "k \<le> K" and "K < 2 ^ 31"
    and "unat (x - b) < k \<Longrightarrow> v = g (unat (x - b))" and "\<not> unat (x - b) < k \<Longrightarrow> v = old"
    and "unat (x - (b + of_nat k)) < K - k \<Longrightarrow> w = g (k + unat (x - (b + of_nat k)))"
    and "\<not> unat (x - (b + of_nat k)) < K - k \<Longrightarrow> w = v"
  shows "w = (if unat (x - b) < K then g (unat (x - b)) else old)"
proof -
  have k: "unat (of_nat k :: u32) = k"
    using assms(1, 2) by (intro unat_of_nat_u32) simp
  have x: "x - (b + of_nat k) = (x - b) - of_nat k"
    by simp
  show ?thesis
  proof (cases "unat (x - b) < k")
    case True
    then have "unat (x - (b + of_nat k)) = unat (x - b) + 2 ^ 32 - k"
      unfolding x by (subst unat_sub_if') (simp add: k)
    then have "\<not> unat (x - (b + of_nat k)) < K - k"
      using assms(1, 2) by simp
    then show ?thesis
      using True assms(1, 3, 6) by simp
  next
    case False
    then have "unat (x - (b + of_nat k)) = unat (x - b) - k"
      unfolding x by (subst unat_sub_if') (simp add: k)
    then show ?thesis
      using False assms(1, 4-6) by (auto split: if_splits)
  qed
qed

lemma cluster_byte_Cons:
  assumes "0 < unat (cluster_size f)"
  shows "k < unat (cluster_size f) \<Longrightarrow> cluster_byte V f (c # cs) k = V (cluster_pos f c + k)"
    and "cluster_byte V f (c # cs) (unat (cluster_size f) + k) = cluster_byte V f cs k"
  using assms by (simp_all add: cluster_byte_def div_add_self1)

text \<open>A request that starts at a cluster boundary or ends in the cluster it starts in.\<close>

definition aligned :: "fat \<Rightarrow> u64 \<Rightarrow> u32 \<Rightarrow> bool" where
  "aligned f off count \<longleftrightarrow> unat off mod unat (cluster_size f) = 0 \<or>
     unat off mod unat (cluster_size f) + unat count \<le> unat (cluster_size f)"

lemma read_clusters_chain:
  assumes "chain (disk_view content q s) (fats s p) cs" and "fat_serving dev content q p s"
    and "readable (fats s p) (disks s q) cs" and "aligned (fats s p) off count"
    and "unat off + unat count \<le> length cs * unat (cluster_size (fats s p))" and "0 < unat count"
    and "unat n + unat count < 2 ^ 31" and "unat bo + unat count < 2 ^ 31"
  shows "\<exists>t. read_clusters dev fr p buf (hd cs) count off n bo s = Some (int (unat n + unat count), t) \<and> quiet s t \<and>
    (\<forall>x. \<not> unat (x - next_at fr) < 4 \<longrightarrow>
      dmem t x = (if unat (x - (buf + ucast bo)) < unat count
        then cluster_byte (disk_view content q s) (fats s p) cs (unat off + unat (x - (buf + ucast bo))) else dmem s x))"
  using assms
proof (induction cs arbitrary: off count n bo s)
  case (Cons c cs)
  let ?f = "fats s p" and ?V = "disk_view content q s" and ?size = "unat (cluster_size (fats s p))"
  have size: "0 < ?size" "?size \<le> 255 * 512" and c: "table_has ?f (disks s q) c" "data_has ?f (disks s q) c"
    using Cons.prems(3) by (simp_all add: readable_def)
  note go = read_clusters.simps [of dev fr p buf c count off n bo s]
  have step: "\<exists>u. next_cluster dev fr p c t \<bind> (\<lambda>(c, s2). if c \<noteq> 0
        then read_clusters dev fr p buf c count' off' n' bo' s2 else Some (sint n', s2)) =
      Some (int (unat n' + unat count'), u) \<and> quiet s u \<and>
    (\<forall>x. \<not> unat (x - next_at fr) < 4 \<longrightarrow> dmem u x = (if unat (x - (buf + ucast bo')) < unat count'
      then cluster_byte ?V ?f cs (unat off' + unat (x - (buf + ucast bo'))) else dmem t x))"
    if "quiet s t" "unat off' + unat count' \<le> length cs * ?size" "aligned ?f off' count'" "0 < unat count'"
      "unat n' + unat count' < 2 ^ 31" "unat bo' + unat count' < 2 ^ 31" for t off' count' n' bo'
  proof -
    note q = quiet_fat [OF that(1)]
    have cs: "cs \<noteq> []"
      using that(2, 4) by auto
    then have link: "link ?V ?f c = hd cs" "hd cs \<noteq> 0" and chain: "chain ?V ?f cs"
      using Cons.prems(1) by (cases cs; auto)+
    have "fat_serving dev content q p t" "table_has (fats t p) (disks t q) c"
      using Cons.prems(2) c(1) by (simp_all only: q)
    from next_cluster_link [OF this, of fr] obtain t1 where
      t1: "next_cluster dev fr p c t = Some (hd cs, t1)" "quiet t t1" "outside (next_at fr) 4 (dmem t) (dmem t1)"
      unfolding q link by blast
    note q1 = quiet_fat [OF t1(2), unfolded q]
    have "fat_serving dev content q p t1" "readable ?f (disks s q) cs"
      using Cons.prems(2, 3) by (simp_all add: q1 readable_def)
    from Cons.IH [of t1, unfolded q1, OF chain this(1) [unfolded q1] this(2) that(3, 2, 4-6)] obtain u where
      "read_clusters dev fr p buf (hd cs) count' off' n' bo' t1 = Some (int (unat n' + unat count'), u)" "quiet t1 u"
      "\<forall>x. \<not> unat (x - next_at fr) < 4 \<longrightarrow> dmem u x = (if unat (x - (buf + ucast bo')) < unat count'
        then cluster_byte ?V ?f cs (unat off' + unat (x - (buf + ucast bo'))) else dmem t1 x)"
      by (elim exE conjE) (rule that; assumption)
    then show ?thesis
      using t1(3) link(2) quiet_trans [OF quiet_trans [OF that(1) t1(2)]]
      by (intro exI [of _ u]) (simp add: t1(1) outside_def)
  qed
  show ?case
  proof (cases "?size \<le> unat off")
    case True
    have off: "unat (off - ucast (cluster_size ?f)) = unat off - ?size"
      using True by (subst unat_sub) (simp_all add: word_le_nat_alt unat_ucast_up)
    have "unat off mod ?size = (unat off - ?size) mod ?size"
      using True by (simp add: le_mod_geq)
    then have "aligned ?f (off - ucast (cluster_size ?f)) count"
      using Cons.prems(4) by (simp add: aligned_def off)
    have "unat (off - ucast (cluster_size ?f)) + unat count \<le> length cs * ?size"
      using True Cons.prems(5) by (simp add: off)
    from step [OF quiet_refl this \<open>aligned ?f (off - ucast (cluster_size ?f)) count\<close> Cons.prems(6-8)] obtain u where
      run: "next_cluster dev fr p c s \<bind> (\<lambda>(c', s2). if c' \<noteq> 0
          then read_clusters dev fr p buf c' count (off - ucast (cluster_size ?f)) n bo s2 else Some (sint n, s2)) =
        Some (int (unat n + unat count), u)" and q: "quiet s u"
      and m: "\<forall>x. \<not> unat (x - next_at fr) < 4 \<longrightarrow> dmem u x = (if unat (x - (buf + ucast bo)) < unat count
        then cluster_byte ?V ?f cs (unat off - ?size + unat (x - (buf + ucast bo))) else dmem s x)"
      unfolding off by (elim exE conjE) (rule that; assumption)
    have "read_clusters dev fr p buf c count off n bo s = Some (int (unat n + unat count), u)"
      unfolding go read_part_skip [OF True] run [symmetric] by simp
    moreover have "cluster_byte ?V ?f (c # cs) (unat off + k) = cluster_byte ?V ?f cs (unat off - ?size + k)" for k
      using cluster_byte_Cons(2) [OF size(1), of ?V c cs "unat off - ?size + k"] True by simp
    ultimately show ?thesis
      using q m by (intro exI [of _ u]) simp
  next
    case False
    then have less: "unat off < ?size"
      by simp
    define k where "k = min (unat count) (?size - unat off)"
    from read_part_run [OF Cons.prems(2) c(2) size(2) less k_def, of buf n bo] obtain t where
      run: "read_part dev ?f buf c count off n bo s = Some (if unat off + unat count > ?size
        then Inr (count - of_nat k, 0, n + of_nat k, bo + ucast (cluster_size ?f)) else Inl (sint (n + of_nat k)), t)"
      and q: "quiet s t"
      and m: "dmem t = (\<lambda>x. if unat (x - (buf + ucast bo)) < k
        then ?V (cluster_pos ?f c + unat off + unat (x - (buf + ucast bo))) else dmem s x)"
      by blast
    show ?thesis
    proof (cases "unat off + unat count > ?size")
      case True
      then have "unat off = 0" and k: "k = ?size"
        using Cons.prems(4) less by (auto simp: aligned_def k_def)
      have less: "k < unat count" and bound: "unat count < 2147483648"
        using True Cons.prems(7) by (auto simp: k \<open>unat off = 0\<close>)
      have of_k: "unat (of_nat k :: u32) = k"
        by (simp add: k)
      have u: "unat (count - of_nat k) = unat count - k" "unat (n + of_nat k) = unat n + k"
        "unat (bo + ucast (cluster_size ?f)) = unat bo + k"
        "(ucast (bo + ucast (cluster_size ?f)) :: u32) = ucast bo + of_nat k"
        using less bound Cons.prems(7, 8)
        by (simp_all add: unat_sub word_le_nat_alt of_k unat_add_nowrap unat_ucast_up k ucast_down_add ucast_up_down)
      have "unat (0 :: u64) + unat (count - of_nat k) \<le> length cs * ?size" "aligned ?f 0 (count - of_nat k)"
        "0 < unat (count - of_nat k)" "unat (n + of_nat k) + unat (count - of_nat k) < 2 ^ 31"
        "unat (bo + ucast (cluster_size ?f)) + unat (count - of_nat k) < 2 ^ 31"
        using Cons.prems(5-8) less \<open>unat off = 0\<close> unfolding u by (simp_all add: aligned_def k)
      from step [OF q this] obtain w where
        w: "next_cluster dev fr p c t \<bind> (\<lambda>(c, s2). if c \<noteq> 0
            then read_clusters dev fr p buf c (count - of_nat k) 0 (n + of_nat k) (bo + ucast (cluster_size ?f)) s2
            else Some (sint (n + of_nat k), s2)) = Some (int (unat n + unat count), w)" "quiet s w"
          "\<And>x. \<not> unat (x - next_at fr) < 4 \<Longrightarrow> dmem w x = (if unat (x - (buf + ucast bo + of_nat k)) < unat count - k
            then cluster_byte ?V ?f cs (unat (x - (buf + ucast bo + of_nat k))) else dmem t x)"
        using less unfolding u by (auto simp: add.assoc)
      have "dmem w x = (if unat (x - (buf + ucast bo)) < unat count
          then cluster_byte ?V ?f (c # cs) (unat (x - (buf + ucast bo))) else dmem s x)"
        if "\<not> unat (x - next_at fr) < 4" for x
      proof (rule join_pieces [where v = "dmem t x" and k = k])
        show "k \<le> unat count" "unat count < 2 ^ 31"
          using less bound by simp_all
      qed (use w(3) [OF that] in \<open>simp_all add: m \<open>unat off = 0\<close> k cluster_byte_Cons [OF size(1)] del: of_nat_unat_u32\<close>)
      moreover have "read_clusters dev fr p buf c count off n bo s = Some (int (unat n + unat count), w)"
        using run w(1) True by (simp add: go)
      ultimately show ?thesis
        using w(2) \<open>unat off = 0\<close> by (intro exI [of _ w]) simp
    next
      case False
      then have k: "k = unat count" "of_nat k = count"
        by (simp_all add: k_def)
      have "sint (n + count) = int (unat n + unat count)"
        using Cons.prems(7) by (subst sint_unat32) (simp_all add: unat_add_nowrap)
      then show ?thesis
        using run q False by (intro exI [of _ t]) (simp add: go m k cluster_byte_Cons [OF size(1)] add.assoc)
    qed
  qed
qed simp

lemma read_cluster_chain:
  assumes "chain (disk_view content q s) (fats s p) cs" and "fat_serving dev content q p s"
    and "readable (fats s p) (disks s q) cs" and "aligned (fats s p) off count"
    and "unat off + unat count \<le> length cs * unat (cluster_size (fats s p))" and "0 < unat count" and "unat count < 2 ^ 31"
  shows "\<exists>t. read_cluster dev fr p buf (hd cs) count off s = Some (int (unat count), t) \<and> quiet s t \<and>
    (\<forall>x. \<not> unat (x - next_at fr) < 4 \<longrightarrow> dmem t x = (if unat (x - buf) < unat count
      then cluster_byte (disk_view content q s) (fats s p) cs (unat off + unat (x - buf)) else dmem s x))"
proof -
  have z: "unat (0 :: u32) + unat count < 2 ^ 31" "unat (0 :: u64) + unat count < 2 ^ 31" "buf + ucast (0 :: u64) = buf"
    using assms(7) by simp_all
  from read_clusters_chain [OF assms(1-6) z(1, 2), of fr buf] show ?thesis
    unfolding read_cluster_def z(3) unat_0 add_0 .
qed

text \<open>A request that starts inside a cluster and goes on behind it: \<open>size - off\<close> bytes are stored, but the place of
  the rest in the buffer is \<open>size\<close> bytes further on, since \<open>offect\<close> is set to 0 before it is subtracted.\<close>

lemma read_part_gap:
  assumes "serving dev content (disk_id f) q s" and "data_has f (disks s q) c" and "unat (cluster_size f) \<le> 255 * 512"
    and "0 < unat off" and "unat off < unat (cluster_size f)" and "unat off + unat count > unat (cluster_size f)"
    and "\<not> unat (x - (buf + ucast bo)) < unat (cluster_size f) - unat off"
  shows "\<exists>t. read_part dev f buf c count off n bo s = Some (Inr (count - of_nat (unat (cluster_size f) - unat off), 0,
      n + of_nat (unat (cluster_size f) - unat off), bo + ucast (cluster_size f)), t) \<and> dmem t x = dmem s x"
proof -
  have "unat (cluster_size f) - unat off = min (unat count) (unat (cluster_size f) - unat off)"
    using assms(6) by simp
  from read_part_run [OF assms(1-3, 5) this, of buf n bo] show ?thesis
    using assms(6, 7) by auto
qed

section \<open>Entries\<close>

text \<open>The memory that reading an entry may change.\<close>

definition scratch :: "fat_frame \<Rightarrow> u32 \<Rightarrow> bool" where
  "scratch fr x \<longleftrightarrow> unat (x - next_at fr) < 4 \<or> unat (x - entry_at fr) < 32 \<or> unat (x - root_entry_at fr) < 32"

definition keeps :: "fat_frame \<Rightarrow> memory \<Rightarrow> memory \<Rightarrow> bool" where
  "keeps fr m m' \<longleftrightarrow> (\<forall>x. \<not> scratch fr x \<longrightarrow> m' x = m x)"

lemma keeps_trans [trans]: "keeps fr m m' \<Longrightarrow> keeps fr m' m'' \<Longrightarrow> keeps fr m m''"
  by (simp add: keeps_def)

lemma outside_keeps: "outside (next_at fr) 4 m m' \<Longrightarrow> keeps fr m m'"
  by (auto simp: outside_def keeps_def scratch_def)

definition chain_entry :: "(nat \<Rightarrow> u8) \<Rightarrow> fat \<Rightarrow> u32 list \<Rightarrow> nat \<Rightarrow> fat_dir" where
  "chain_entry V f cs n = map (\<lambda>i. cluster_byte V f cs (n * 32 + i)) [0..<32]"

definition root_entry :: "(nat \<Rightarrow> u8) \<Rightarrow> fat \<Rightarrow> nat \<Rightarrow> fat_dir" where
  "root_entry V f n = map (\<lambda>i. V (unat (root_dir_sector f) * unat (sector_size f) + n * 32 + i)) [0..<32]"

lemma unat_offset32:
  fixes a :: u32
  assumes "i < 4294967296"
  shows "unat (a + of_nat i - a) = i"
  using assms by (simp add: unat_of_nat_u32)

lemma read_dir_entry_chain:
  assumes "chain (disk_view content q s) (fats s p) cs" and "fat_serving dev content q p s"
    and "readable (fats s p) (disks s q) cs" and "32 dvd unat (cluster_size (fats s p))"
    and "unat n < length cs * unat (cluster_size (fats s p)) div 32" and "unat n < 2 ^ 27"
    and "apart (entry_at fr) 32 (next_at fr) 4"
  shows "\<exists>t. read_dir_entry dev fr p (hd cs) n s =
      Some (chain_entry (disk_view content q s) (fats s p) cs (unat n), t) \<and> quiet s t \<and> keeps fr (dmem s) (dmem t)"
proof -
  let ?size = "unat (cluster_size (fats s p))" and ?V = "disk_view content q s"
  obtain k where k: "?size = 32 * k"
    using assms(4) by blast
  have n: "unat (ucast (n * 32) :: u64) = unat n * 32"
    using assms(6) by (simp add: unat_ucast_up unat_mult32)
  have "0 < k"
    using assms(3) k by (auto simp: readable_def)
  then have "unat n mod k < k"
    by simp
  then have "unat n mod k * 32 + 32 \<le> 32 * k"
    by linarith
  then have "aligned (fats s p) (ucast (n * 32)) 32"
    unfolding aligned_def n k by (simp add: mult.commute [of 32 k] mult_mod_left)
  moreover have "unat (ucast (n * 32) :: u64) + unat (32 :: u32) \<le> length cs * ?size"
    using assms(5) unfolding n k by simp
  ultimately obtain t where
    t: "read_cluster dev fr p (entry_at fr) (hd cs) 32 (ucast (n * 32)) s = Some (32, t)" "quiet s t"
    and m: "\<And>x. \<not> unat (x - next_at fr) < 4 \<Longrightarrow> dmem t x = (if unat (x - entry_at fr) < 32
      then cluster_byte ?V (fats s p) cs (unat n * 32 + unat (x - entry_at fr)) else dmem s x)"
    using read_cluster_chain [OF assms(1-3), of "ucast (n * 32)" 32 fr "entry_at fr"] by (auto simp: n)
  have "dmem t (entry_at fr + of_nat i) = cluster_byte ?V (fats s p) cs (unat n * 32 + i)" if "i < 32" for i
  proof -
    have i: "unat (entry_at fr + of_nat i - entry_at fr) = i"
      using that by (intro unat_offset32) simp
    then have "\<not> unat (entry_at fr + of_nat i - next_at fr) < 4"
      using assms(7) that unfolding apart_def by metis
    from m [OF this] show ?thesis
      using that unfolding i by simp
  qed
  then have "get_bytes (dmem t) (entry_at fr) 32 = chain_entry ?V (fats s p) cs (unat n)"
    by (simp add: get_bytes_def chain_entry_def)
  moreover have "keeps fr (dmem s) (dmem t)"
    using m by (auto simp: keeps_def scratch_def)
  ultimately show ?thesis
    using t by (intro exI [of _ t]) (simp add: read_dir_entry_def)
qed

definition root_has :: "fat \<Rightarrow> disk \<Rightarrow> nat \<Rightarrow> bool" where
  "root_has f d k \<longleftrightarrow> unat (root_dir_sector f) * unat (sector_size f) + k * 32 \<le> disk_bytes d"

lemma read_root_entry_fat16:
  assumes "fat_type (fats s p) = FAT16" and "fat_serving dev content q p s"
    and "root_has (fats s p) (disks s q) k" and "unat n < k" and "unat n < 2 ^ 27"
  shows "\<exists>t. read_root_dir_entry dev fr p n s = Some (root_entry (disk_view content q s) (fats s p) (unat n), t) \<and>
    quiet s t \<and> keeps fr (dmem s) (dmem t)"
proof -
  let ?f = "fats s p" and ?V = "disk_view content q s"
  let ?off = "root_dir_sector ?f * ucast (sector_size ?f) + ucast (n * 32) :: u64"
  have n: "unat (ucast (n * 32) :: u64) = unat n * 32"
    using assms(5) by (simp add: unat_ucast_up unat_mult32)
  have le: "unat (root_dir_sector ?f) * unat (sector_size ?f) + unat n * 32 + 32 \<le> disk_bytes (disks s q)"
    using assms(3, 4) by (simp add: root_has_def)
  moreover have "disk_bytes (disks s q) \<le> 144115188075855872"
    using serving_size [OF assms(2)] by simp
  ultimately have "unat (root_dir_sector ?f * ucast (sector_size ?f)) = unat (root_dir_sector ?f) * unat (sector_size ?f)"
    by (subst unat_mult_nowrap) (simp_all add: unat_ucast_up)
  with le \<open>disk_bytes (disks s q) \<le> 144115188075855872\<close>
  have off: "unat ?off = unat (root_dir_sector ?f) * unat (sector_size ?f) + unat n * 32"
    by (subst unat_add_nowrap) (simp_all add: n)
  have "unat (32 :: u32) \<le> 255 * 512" "unat ?off + unat (32 :: u32) \<le> disk_bytes (disks s q)"
    using le by (simp_all add: off)
  from disk_read_full [OF assms(2) this, of "root_entry_at fr"] obtain t where
    t: "disk_read dev (disk_id ?f) (root_entry_at fr) 32 ?off s = Some (32, t)" "quiet s t"
    and m: "dmem t = (\<lambda>x. if unat (x - root_entry_at fr) < 32 then ?V (unat ?off + unat (x - root_entry_at fr)) else dmem s x)"
    by auto
  have "dmem t (root_entry_at fr + of_nat i) = ?V (unat (root_dir_sector ?f) * unat (sector_size ?f) + unat n * 32 + i)"
    if "i < 32" for i
    using that unat_offset32 [of i "root_entry_at fr"] by (simp only: m off) simp
  then have "get_bytes (dmem t) (root_entry_at fr) 32 = root_entry ?V ?f (unat n)"
    by (simp add: get_bytes_def root_entry_def)
  moreover have "keeps fr (dmem s) (dmem t)"
    by (auto simp: keeps_def scratch_def m)
  ultimately show ?thesis
    using t assms(1) by (intro exI [of _ t]) (simp add: read_root_dir_entry_def)
qed

section \<open>Properties\<close>

text \<open>A FAT16 volume for the witnesses: the chain 2, 3, 5, the cycle 4, and a root directory with the file \<open>ab\<close>
  of 1200 bytes in the chain.\<close>

definition sample_table :: "u8 list" where
  "sample_table = [0xf8, 0xff, 0xff, 0xff, 3, 0, 5, 0, 4, 0, 0xff, 0xff]"

definition sample_root :: "u8 list" where
  "sample_root =
     [0x41, 0x61, 0, 0x62, 0, 0, 0, 0xff, 0xff, 0xff, 0xff, 0x0f, 0, 0, 0xff, 0xff,
      0xff, 0xff, 0xff, 0xff, 0xff, 0xff, 0xff, 0xff, 0xff, 0xff, 0, 0, 0xff, 0xff, 0xff, 0xff,
      0x41, 0x42, 0x20, 0x20, 0x20, 0x20, 0x20, 0x20, 0x20, 0x20, 0x20, 0x20, 0, 0, 0, 0,
      0, 0, 0, 0, 0, 0, 0, 0, 0, 0, 2, 0, 0xb0, 4, 0, 0]"

text \<open>The file starts with a program of two headers, the second of which is for 6 bytes of code and 2 zeros at \<open>0x1ffc\<close>.\<close>

definition sample_program :: "u8 list" where
  "sample_program =
     [0x7f, 0x45, 0x4c, 0x46, 1, 1, 1, 0, 0, 0, 0, 0, 0, 0, 0, 0, 2, 0, 3, 0, 1, 0, 0, 0, 0xfc, 0x1f, 0, 0, 52, 0, 0, 0,
      0, 0, 0, 0, 0, 0, 0, 0, 52, 0, 32, 0, 2, 0, 40, 0, 0, 0, 0, 0,
      4, 0, 0, 0, 0, 0, 0, 0, 0, 0, 0, 0, 0, 0, 0, 0, 0, 0, 0, 0, 0, 0, 0, 0, 0, 0, 0, 0, 0, 0, 0, 0,
      1, 0, 0, 0, 116, 0, 0, 0, 0xfc, 0x1f, 0, 0, 0xfc, 0x1f, 0, 0, 6, 0, 0, 0, 8, 0, 0, 0, 5, 0, 0, 0, 4, 0, 0, 0,
      0xb8, 1, 2, 3, 4, 5]"

definition sample_content :: "nat \<Rightarrow> u8" where
  "sample_content x =
     (if 5632 \<le> x \<and> x < 5644 then sample_table ! (x - 5632)
      else if 6144 \<le> x \<and> x < 6208 then sample_root ! (x - 6144)
      else if 6656 \<le> x \<and> x < 6778 then sample_program ! (x - 6656)
      else if x < 6656 then 0 else of_nat (x div 512))"

definition sample_frame :: fat_frame where
  "sample_frame = \<lparr>next_at = 0x2000, entry_at = 0x2020, root_entry_at = 0x2040, file_at = 0x3000, header_at = 0x4000,
     lit16_at = 0x4100, lit32_at = 0x4200, uninit_entry = replicate 32 7, uninit_fat = fats sample_disks 0\<rparr>"

abbreviation sample_drive :: drive where
  "sample_drive \<equiv> model_drive sample_content LBA48 1"

lemma sample_disk_simps:
  "fat_type (fats sample_disks p) = FAT16" "sector_size (fats sample_disks p) = 512"
  "cluster_size (fats sample_disks p) = 512" "start_cluster (fats sample_disks p) = 1536"
  "fat_sector (fats sample_disks p) = 1" "root_dir_sector (fats sample_disks p) = 2"
  "root_dir_count (fats sample_disks p) = 16"
  "disk_id (fats sample_disks p) = 5" "disk_start (disks sample_disks 0x1000) = 10"
  "disk_bytes (disks sample_disks 0x1000) = 10240"
  by (simp_all add: sample_disks_def disk_start_def disk_bytes_def)

lemma sample_serving: "fat_serving sample_drive sample_content 0x1000 p sample_disks"
  unfolding serving_def using sample_disks_ok by (auto simp: sample_disks_def intro!: exI [of _ "[0x1000]"])

lemma sample_link:
  "link (disk_view sample_content 0x1000 sample_disks) (fats sample_disks p) 2 = 3"
  "link (disk_view sample_content 0x1000 sample_disks) (fats sample_disks p) 3 = 5"
  "link (disk_view sample_content 0x1000 sample_disks) (fats sample_disks p) 4 = 4"
  "link (disk_view sample_content 0x1000 sample_disks) (fats sample_disks p) 5 = 0"
  by (simp_all add: link_def sample_disk_simps view_def table_pos_def entry_width_def le16_def sample_content_def
      sample_table_def)

lemma sample_table_has:
  "c \<in> {2, 3, 4, 5} \<Longrightarrow> table_has (fats sample_disks p) (disks sample_disks 0x1000) c"
  by (auto simp: table_has_def table_pos_def entry_width_def sample_disk_simps)

lemma sample_readable: "readable (fats sample_disks p) (disks sample_disks 0x1000) [2, 3, 5]"
  using sample_table_has [of _ p] by (simp add: readable_def data_has_def cluster_pos_def sample_disk_simps)

lemma chain_fixpoint:
  assumes "link V f c = c" and "c \<noteq> 0"
  shows "\<not> chain V f (c # cs)"
proof (induction cs)
  case Nil
  then show ?case
    using assms by auto
next
  case (Cons x xs)
  then show ?case
    using assms by auto
qed

text \<open>C38. \<open>dir_cluster\<close> returns exactly when the chain from its cluster ends, and then the number of its
  clusters; a chain with a cycle makes it run for ever.  \<open>S\<close> is a set of clusters that have an entry in
  the table and that no link leaves.\<close>

theorem dir_cluster_terminates:
  assumes "fat_serving dev content q p s" and "c \<in> S"
    and "\<And>x. x \<in> S \<Longrightarrow> table_has (fats s p) (disks s q) x"
    and "\<And>x. x \<in> S \<Longrightarrow> link (view content (disks s q)) (fats s p) x \<in> insert 0 S"
  shows "(dir_cluster dev fr p c s \<noteq> None \<longleftrightarrow> (\<exists>cs. chain (view content (disks s q)) (fats s p) cs \<and> hd cs = c)) \<and>
    (\<forall>cs. chain (view content (disks s q)) (fats s p) cs \<and> hd cs = c \<longrightarrow>
      (\<exists>t. dir_cluster dev fr p c s = Some (of_nat (length cs), t) \<and> quiet s t))"
  using dir_cluster_correct [OF assms] by blast

theorem dir_cluster_terminates_witness:
  "(\<exists>t. dir_cluster sample_drive sample_frame 0x3000 2 sample_disks = Some (3, t)) \<and>
   dir_cluster sample_drive sample_frame 0x3000 4 sample_disks = None"
proof
  let ?V = "disk_view sample_content 0x1000 sample_disks" and ?f = "fats sample_disks 0x3000"
  have T: "(dir_cluster sample_drive sample_frame 0x3000 c sample_disks \<noteq> None \<longleftrightarrow> (\<exists>cs. chain ?V ?f cs \<and> hd cs = c)) \<and>
      (\<forall>cs. chain ?V ?f cs \<and> hd cs = c \<longrightarrow>
        (\<exists>t. dir_cluster sample_drive sample_frame 0x3000 c sample_disks = Some (of_nat (length cs), t) \<and> quiet sample_disks t))"
    if "c \<in> S" "S = {2, 3, 5} \<or> S = {4}" for c S
    by (rule dir_cluster_terminates [OF sample_serving that(1)])
      (use that(2) in \<open>auto simp: sample_link sample_table_has\<close>)
  have "chain ?V ?f [2, 3, 5]"
    by (simp add: sample_link)
  then have "\<exists>t. dir_cluster sample_drive sample_frame 0x3000 2 sample_disks = Some (of_nat (length [2, 3, 5 :: u32]), t)"
    using T [of 2 "{2, 3, 5}"] by (metis insertI1 list.sel(1))
  then show "\<exists>t. dir_cluster sample_drive sample_frame 0x3000 2 sample_disks = Some (3, t)"
    by simp
  have "\<not> chain ?V ?f cs" if "hd cs = 4" for cs
    using that chain_fixpoint [OF sample_link(3), of "0x3000" "tl cs"] by (cases cs) auto
  then show "dir_cluster sample_drive sample_frame 0x3000 4 sample_disks = None"
    using T [of 4 "{4}"] by blast
qed

text \<open>C18. \<open>read_cluster\<close> on a file system whose chain from the cluster is \<open>cs\<close>: a request inside the chain that
  starts at a cluster boundary, or ends in the cluster it starts in, stores the bytes of the clusters in
  the order of the chain at the buffer, reports their number and changes only its local variable
  besides.\<close>

theorem read_cluster_reads_chain:
  assumes "chain (view content (disks s q)) (fats s p) cs" and "fat_serving dev content q p s"
    and "readable (fats s p) (disks s q) cs"
    and "unat off mod unat (cluster_size (fats s p)) = 0 \<or>
      unat off mod unat (cluster_size (fats s p)) + unat count \<le> unat (cluster_size (fats s p))"
    and "unat off + unat count \<le> length cs * unat (cluster_size (fats s p))" and "0 < unat count" and "unat count < 2 ^ 31"
  shows "\<exists>t. read_cluster dev fr p buf (hd cs) count off s = Some (int (unat count), t) \<and> quiet s t \<and>
    (\<forall>x. \<not> unat (x - next_at fr) < 4 \<longrightarrow> dmem t x = (if unat (x - buf) < unat count
      then cluster_byte (view content (disks s q)) (fats s p) cs (unat off + unat (x - buf)) else dmem s x))"
  using read_cluster_chain [OF assms(1-3)] assms(4-7) by (simp only: aligned_def)

theorem read_cluster_reads_chain_witness:
  "\<exists>t. read_cluster sample_drive sample_frame 0x3000 0x5000 2 600 512 sample_disks = Some (600, t) \<and>
     dmem t 0x5000 = 14 \<and> dmem t 0x51ff = 14 \<and> dmem t 0x5200 = 16 \<and> dmem t 0x5257 = 16 \<and> dmem t 0x5258 = 7"
proof -
  have "chain (disk_view sample_content 0x1000 sample_disks) (fats sample_disks 0x3000) [2, 3, 5]"
    by (simp add: sample_link)
  from read_cluster_reads_chain [OF this sample_serving sample_readable, of 512 600 sample_frame "0x5000"] obtain t where
    "read_cluster sample_drive sample_frame 0x3000 0x5000 2 600 512 sample_disks = Some (600, t)"
    and m: "\<And>x. \<not> unat (x - next_at sample_frame) < 4 \<Longrightarrow> dmem t x = (if unat (x - 0x5000) < 600
      then cluster_byte (disk_view sample_content 0x1000 sample_disks) (fats sample_disks 0x3000) [2, 3, 5]
        (512 + unat (x - 0x5000)) else dmem sample_disks x)"
    by (auto simp: sample_disk_simps)
  moreover have "dmem sample_disks = (\<lambda>_. 7)"
    by (simp add: sample_disks_def)
  ultimately show ?thesis
    by (intro exI [of _ t]) (simp add: m sample_frame_def cluster_byte_def sample_disk_simps cluster_pos_def view_def
        sample_content_def)
qed

end
