(* ===== verification/FatDir.thy ===== *)
theory FatDir
  imports Fat
begin

text \<open>
  Names, directories, files and paths of the FAT file systems: the second part of \<open>src/kernel/fs/fat.c\<close>.  The
  search for a name and the listing of a directory are written once over a reader of entries, which the
  code has twice, for the root directory and for the others.
\<close>

section \<open>Long file names\<close>

text \<open>\<open>*p++\<close> is read once for each of the eleven steps; the sum is kept in a byte.\<close>

definition lfn_checksum :: "memory \<Rightarrow> u32 \<Rightarrow> u8" where
  "lfn_checksum m p =
     fold (\<lambda>i sum. (if sum AND 1 \<noteq> 0 then 0x80 else 0) + drop_bit 1 sum + m (p + of_nat i)) [0..<11] 0"

definition lfn_char :: "fat_dir \<Rightarrow> u32 \<Rightarrow> u16" where
  "lfn_char lfn n =
     (if n < 5 then half lfn (1 + 2 * unat n)
      else if n < 11 then half lfn (14 + 2 * unat (n - 5))
      else if n < 13 then half lfn (28 + 2 * unat (n - 11))
      else 0)"

text \<open>A \<open>char\<close> is signed.\<close>

definition lfn_cmp :: "memory \<Rightarrow> u32 \<Rightarrow> fat_dir \<Rightarrow> u32 \<Rightarrow> int" where
  "lfn_cmp m name lfn len =
     (if list_ex (\<lambda>n. sint (m (name + of_nat n)) \<noteq> uint (lfn_char lfn (of_nat n))) [0..<unat len] then 1
      else uint (lfn_char lfn len))"

function lfn_cpy_loop :: "u32 \<Rightarrow> fat_dir \<Rightarrow> nat \<Rightarrow> memory \<Rightarrow> nat \<times> memory" where
  "lfn_cpy_loop name lfn n m =
     (if n < 13 then
        (let c = (ucast (lfn_char lfn (of_nat n)) :: u8);
             m1 = m(name + of_nat n := c)
         in if c = 0 then (n, m1) else lfn_cpy_loop name lfn (n + 1) m1)
      else (n, m))"
  by pat_completeness auto
termination
  by (relation "measure (\<lambda>(name, lfn, n, m). 13 - n)") auto

declare lfn_cpy_loop.simps [simp del]

definition lfn_cpy :: "u32 \<Rightarrow> fat_dir \<Rightarrow> memory \<Rightarrow> u32 \<times> memory" where
  "lfn_cpy name lfn m = (case lfn_cpy_loop name lfn 0 m of (n, m1) \<Rightarrow> (of_nat n, m1))"

section \<open>Searching a directory\<close>

text \<open>The parts that \<open>get_root_file\<close> and \<open>get_file\<close> have in common.  \<open>rd\<close> reads an entry of the directory.\<close>

type_synonym entry_reader = "u32 \<Rightarrow> disk_state \<Rightarrow> (fat_dir \<times> disk_state) option"

definition is_lfn :: "fat_dir \<Rightarrow> bool" where
  "is_lfn e \<longleftrightarrow> order e \<noteq> FLAG_DEL \<and> attribute e = ATTR_LFN"

definition is_last :: "fat_dir \<Rightarrow> bool" where
  "is_last e \<longleftrightarrow> order e AND FLAG_LAST \<noteq> 0"

definition lfn_number :: "fat_dir \<Rightarrow> u32" where
  "lfn_number e = ucast (order e AND 0x3f)"

definition is_std :: "fat_dir \<Rightarrow> bool" where
  "is_std e \<longleftrightarrow> order e \<noteq> FLAG_DEL \<and> attribute e \<noteq> ATTR_LFN"

definition lfn_count :: "u32 \<Rightarrow> u32" where
  "lfn_count len = (len + 12) div 13"

definition last_len :: "u32 \<Rightarrow> u32" where
  "last_len len = (if len mod 13 \<noteq> 0 then len mod 13 else 13)"

definition head_matches :: "memory \<Rightarrow> u32 \<Rightarrow> u32 \<Rightarrow> fat_dir \<Rightarrow> bool" where
  "head_matches m name len e \<longleftrightarrow>
     is_lfn e \<and> is_last e \<and> lfn_number e = lfn_count len \<and>
     lfn_cmp m (name + (lfn_count len - 1) * 13) e (last_len len) = 0"

definition part_matches :: "memory \<Rightarrow> u32 \<Rightarrow> u32 \<Rightarrow> fat_dir \<Rightarrow> bool" where
  "part_matches m name i e \<longleftrightarrow>
     is_lfn e \<and> \<not> is_last e \<and> lfn_number e = i \<and> lfn_cmp m (name + (i - 1) * 13) e 13 = 0"

text \<open>\<open>for (i = lfn_count - 1; i > 0; i--)\<close>: the last \<open>i\<close> and the last entry that was read.\<close>

fun match_parts ::
    "entry_reader \<Rightarrow> u32 \<Rightarrow> u32 \<Rightarrow> u32 \<Rightarrow> nat \<Rightarrow> fat_dir \<Rightarrow> disk_state \<Rightarrow> (nat \<times> fat_dir \<times> disk_state) option" where
  "match_parts rd name count n 0 entry s = Some (0, entry, s)"
| "match_parts rd name count n (Suc k) entry s =
     do { (e, s1) \<leftarrow> rd (n + count - of_nat (Suc k)) s;
          if part_matches (dmem s1) name (of_nat (Suc k)) e then match_parts rd name count n k e s1
          else Some (Suc k, e, s1) }"

partial_function (option) find_entry ::
    "entry_reader \<Rightarrow> u32 \<Rightarrow> u32 \<Rightarrow> u32 \<Rightarrow> u32 \<Rightarrow> fat_dir \<Rightarrow> disk_state \<Rightarrow> (fat_dir \<times> disk_state) option" where
  "find_entry rd dir_count name len n entry s =
     (if n < dir_count then
        do { (e, s1) \<leftarrow> rd n s;
             if head_matches (dmem s1) name len e then
               do { (i, e2, s2) \<leftarrow> match_parts rd name (lfn_count len) n (unat (lfn_count len - 1)) e s1;
                    if i = 0 then
                      do { (e3, s3) \<leftarrow> rd (n + lfn_count len) s2;
                           if is_std e3 then Some (e3, s3) else find_entry rd dir_count name len (n + 1) e3 s3 }
                    else find_entry rd dir_count name len (n + (lfn_count len - of_nat i - 1) + 1) e2 s2 }
             else find_entry rd dir_count name len (n + 1) e s1 }
      else Some (set_deleted entry, s))"

definition set_root_dir_count :: "drive \<Rightarrow> fat_frame \<Rightarrow> u32 \<Rightarrow> disk_state \<Rightarrow> disk_state option" where
  "set_root_dir_count dev fr p s =
     (case fat_type (fats s p) of
        FAT32 \<Rightarrow>
          do { (k, s1) \<leftarrow> dir_cluster dev fr p (ucast (root_dir_cluster (fats s p))) s;
               Some (s1\<lparr>fats := (fats s1)(p := (fats s1 p)\<lparr>root_dir_count := cluster_size (fats s1 p) * k div 32\<rparr>)\<rparr>) }
      | FAT16 \<Rightarrow> Some s)"

definition get_root_file ::
    "drive \<Rightarrow> fat_frame \<Rightarrow> u32 \<Rightarrow> u32 \<Rightarrow> u32 \<Rightarrow> disk_state \<Rightarrow> (fat_dir \<times> disk_state) option" where
  "get_root_file dev fr p name len s =
     do { s1 \<leftarrow> set_root_dir_count dev fr p s;
          find_entry (read_root_dir_entry dev fr p) (root_dir_count (fats s1 p)) name len 0 (uninit_entry fr) s1 }"

definition entry_cluster :: "fat \<Rightarrow> fat_dir \<Rightarrow> u32" where
  "entry_cluster fat e =
     (let low = ucast (first_cluster_low e)
      in case fat_type fat of FAT32 \<Rightarrow> low OR push_bit 0x10 (ucast (first_cluster_high e)) | FAT16 \<Rightarrow> low)"

definition get_file ::
    "drive \<Rightarrow> fat_frame \<Rightarrow> u32 \<Rightarrow> fat_dir \<Rightarrow> u32 \<Rightarrow> u32 \<Rightarrow> disk_state \<Rightarrow> (fat_dir \<times> disk_state) option" where
  "get_file dev fr p dir name len s =
     (if order dir = FLAG_DEL \<or> attribute dir AND ATTR_DIR = 0 then Some (set_deleted (uninit_entry fr), s)
      else
        (let cluster = entry_cluster (fats s p) dir
         in do { (k, s1) \<leftarrow> dir_cluster dev fr p cluster s;
                 find_entry (read_dir_entry dev fr p cluster) (cluster_size (fats s1 p) * k div 32) name len 0
                   (uninit_entry fr) s1 }))"

section \<open>Listing a directory\<close>

text \<open>The parts that \<open>read_root_dir\<close> and \<open>read_dir\<close> have in common.  The name is composed in the local
  \<open>file\<close>, with no test that it fits the 256 bytes.\<close>

abbreviation (input) name_len_at :: "fat_frame \<Rightarrow> u32" where "name_len_at fr \<equiv> file_at fr + 256"

fun copy_parts ::
    "entry_reader \<Rightarrow> fat_frame \<Rightarrow> u32 \<Rightarrow> u32 \<Rightarrow> nat \<Rightarrow> disk_state \<Rightarrow> (nat \<times> disk_state) option" where
  "copy_parts rd fr count n 0 s = Some (0, s)"
| "copy_parts rd fr count n (Suc k) s =
     do { (e, s1) \<leftarrow> rd (n + count - of_nat (Suc k)) s;
          if is_lfn e \<and> \<not> is_last e
          then copy_parts rd fr count n k
                 (s1\<lparr>dmem := snd (lfn_cpy (file_at fr + (lfn_number e - 1) * 13) e (dmem s1))\<rparr>)
          else Some (Suc k, s1) }"

definition entry_type :: "bool \<Rightarrow> fat_dir \<Rightarrow> file_type option" where
  "entry_type root e =
     (if \<not> is_std e then None
      else if attribute e AND 0xf0 = ATTR_DIR then Some FILE_DIR
      else if attribute e AND 0xf0 = ATTR_ARCHIVE then Some FILE_REG
      else if root \<and> attribute e AND 0xf0 = 0 then Some FILE_REG
      else None)"

definition file_of :: "fat_frame \<Rightarrow> file_type option \<Rightarrow> memory \<Rightarrow> file_t" where
  "file_of fr t m = \<lparr>f_name = get_bytes m (file_at fr) 256, name_len = get32 m (name_len_at fr), f_type = t\<rparr>"

definition no_file :: "fat_frame \<Rightarrow> disk_state \<Rightarrow> file_t \<times> disk_state" where
  "no_file fr s = (let m = put32 (name_len_at fr) 0 (dmem s) in (file_of fr None m, s\<lparr>dmem := m\<rparr>))"

partial_function (option) list_entries ::
    "entry_reader \<Rightarrow> bool \<Rightarrow> fat_frame \<Rightarrow> u32 \<Rightarrow> u32 \<Rightarrow> u32 \<Rightarrow> disk_state \<Rightarrow> (file_t \<times> disk_state) option" where
  "list_entries rd root fr dir_count offect n s =
     (if n < dir_count then
        do { (e, s1) \<leftarrow> rd n s;
             if is_lfn e \<and> is_last e then
               (let count = lfn_number e
                in if offect = 0 then
                     (case lfn_cpy (file_at fr + (count - 1) * 13) e (dmem s1) of (k, m) \<Rightarrow>
                        do { (i, s2) \<leftarrow> copy_parts rd fr count n (unat (count - 1))
                               (s1\<lparr>dmem := put32 (name_len_at fr) ((count - 1) * 13 + k) m\<rparr>);
                             if i = 0 then
                               do { (e3, s3) \<leftarrow> rd (n + count) s2;
                                    case entry_type root e3 of
                                      Some t \<Rightarrow> Some (file_of fr (Some t) (dmem s3), s3)
                                    | None \<Rightarrow> list_entries rd root fr dir_count offect (n + 1) s3 }
                             else list_entries rd root fr dir_count offect (n + 1) s2 })
                   else list_entries rd root fr dir_count (offect - 1) (n + count + 1) s1)
             else list_entries rd root fr dir_count offect (n + 1) s1 }
      else Some (no_file fr s))"

definition read_root_dir :: "drive \<Rightarrow> fat_frame \<Rightarrow> u32 \<Rightarrow> u32 \<Rightarrow> disk_state \<Rightarrow> (file_t \<times> disk_state) option" where
  "read_root_dir dev fr p offect s =
     do { s1 \<leftarrow> set_root_dir_count dev fr p s;
          list_entries (read_root_dir_entry dev fr p) True fr (root_dir_count (fats s1 p)) offect 0 s1 }"

definition read_dir :: "drive \<Rightarrow> fat_frame \<Rightarrow> u32 \<Rightarrow> fat_dir \<Rightarrow> u32 \<Rightarrow> disk_state \<Rightarrow> (file_t \<times> disk_state) option" where
  "read_dir dev fr p dir offect s =
     (if order dir = FLAG_DEL \<or> attribute dir AND ATTR_DIR = 0 then Some (no_file fr s)
      else
        (let cluster = entry_cluster (fats s p) dir
         in do { (k, s1) \<leftarrow> dir_cluster dev fr p cluster s;
                 list_entries (read_dir_entry dev fr p cluster) False fr (cluster_size (fats s1 p) * k div 32) offect 0 s1 }))"

section \<open>Files and paths\<close>

definition read_file ::
    "drive \<Rightarrow> fat_frame \<Rightarrow> u32 \<Rightarrow> fat_dir \<Rightarrow> u32 \<Rightarrow> u32 \<Rightarrow> u64 \<Rightarrow> disk_state \<Rightarrow> (int \<times> disk_state) option" where
  "read_file dev fr p file buf count offect s =
     (if order file = FLAG_DEL \<or> attribute file AND ATTR_ARCHIVE = 0 then Some (-1, s)
      else if offect \<ge> ucast (file_size file) then Some (0, s)
      else
        read_cluster dev fr p buf (entry_cluster (fats s p) file)
          (if offect + ucast count > ucast (file_size file) then ucast (ucast (file_size file) - offect) else count)
          offect s)"

text \<open>One component of a path: in the root directory, or in the directory found before it.\<close>

definition get_component ::
    "drive \<Rightarrow> fat_frame \<Rightarrow> u32 \<Rightarrow> fat_dir \<Rightarrow> u32 \<Rightarrow> u32 \<Rightarrow> disk_state \<Rightarrow> (fat_dir \<times> disk_state) option" where
  "get_component dev fr p file name len s =
     (if reserved file = 0x2f then get_root_file dev fr p name len s else get_file dev fr p file name len s)"

partial_function (option) walk_path ::
    "drive \<Rightarrow> fat_frame \<Rightarrow> u32 \<Rightarrow> u32 \<Rightarrow> fat_dir \<Rightarrow> disk_state \<Rightarrow> (fat_dir \<times> disk_state) option" where
  "walk_path dev fr p path file s =
     do { slash \<leftarrow> strchr path 0x2f (dmem s);
          if slash \<noteq> NULL then
            (let len = slash - path
             in do { (file1, s1) \<leftarrow> (if len \<noteq> 0 then get_component dev fr p file path len s else Some (file, s));
                     if len \<noteq> 0 \<and> order file1 = FLAG_DEL then Some (file1, s1)
                     else walk_path dev fr p (path + (len + 1)) file1 s1 })
          else
            do { len \<leftarrow> strlen path (dmem s);
                 if len \<noteq> 0 then get_component dev fr p file path len s else Some (file, s) } }"

definition get_path :: "drive \<Rightarrow> fat_frame \<Rightarrow> u32 \<Rightarrow> u32 \<Rightarrow> disk_state \<Rightarrow> (fat_dir \<times> disk_state) option" where
  "get_path dev fr p path s = walk_path dev fr p path ((uninit_entry fr)[12 := 0x2f]) s"

definition fat_readdir :: "drive \<Rightarrow> fat_frame \<Rightarrow> u32 \<Rightarrow> u32 \<Rightarrow> u32 \<Rightarrow> disk_state \<Rightarrow> (file_t \<times> disk_state) option" where
  "fat_readdir dev fr p path n s =
     do { (dir, s1) \<leftarrow> get_path dev fr p path s;
          if reserved dir = 0x2f then read_root_dir dev fr p n s1 else read_dir dev fr p dir n s1 }"

definition fat_read ::
    "drive \<Rightarrow> fat_frame \<Rightarrow> u32 \<Rightarrow> u32 \<Rightarrow> u32 \<Rightarrow> u32 \<Rightarrow> u64 \<Rightarrow> disk_state \<Rightarrow> (int \<times> disk_state) option" where
  "fat_read dev fr p path buf count offect s =
     do { (file, s1) \<leftarrow> get_path dev fr p path s;
          if reserved file = 0x2f then Some (-1, s1) else read_file dev fr p file buf count offect s1 }"

definition fat_write :: "u32 \<Rightarrow> u32 \<Rightarrow> u32 \<Rightarrow> u32 \<Rightarrow> u64 \<Rightarrow> disk_state \<Rightarrow> int \<times> disk_state" where
  "fat_write p path buf count offect s = (-1, s)"

definition fat_free :: "u32 \<Rightarrow> disk_state \<Rightarrow> disk_state" where
  "fat_free p s = (if p \<noteq> NULL then s\<lparr>heap := kfree p (heap s)\<rparr> else s)"

section \<open>Names in memory and in entries\<close>

definition mem_bytes :: "memory \<Rightarrow> u32 \<Rightarrow> u8 list \<Rightarrow> bool" where
  "mem_bytes m a xs \<longleftrightarrow> (\<forall>j < length xs. m (a + of_nat j) = xs ! j)"

definition lfn_chars :: "fat_dir \<Rightarrow> u16 list" where
  "lfn_chars e = map (\<lambda>n. lfn_char e (of_nat n)) [0..<13]"

definition same_char :: "u8 \<Rightarrow> u16 \<Rightarrow> bool" where
  "same_char b w \<longleftrightarrow> sint b = uint w"

text \<open>A name is cut into pieces of 13 characters, counted from 1; the last may be shorter and ends with a NUL then.\<close>

definition pieces :: "u8 list \<Rightarrow> nat" where
  "pieces xs = (length xs + 12) div 13"

definition piece :: "u8 list \<Rightarrow> nat \<Rightarrow> u8 list" where
  "piece xs i = take 13 (drop ((i - 1) * 13) xs)"

definition holds_piece :: "u8 list \<Rightarrow> nat \<Rightarrow> fat_dir \<Rightarrow> bool" where
  "holds_piece xs i e \<longleftrightarrow>
     list_all2 same_char (piece xs i) (take (length (piece xs i)) (lfn_chars e)) \<and>
     (length (piece xs i) < 13 \<longrightarrow> lfn_chars e ! length (piece xs i) = 0)"

text \<open>The name \<open>xs\<close> is written in front of the file's entry, its last piece first.\<close>

definition head_ok :: "u8 list \<Rightarrow> fat_dir \<Rightarrow> bool" where
  "head_ok xs e \<longleftrightarrow> is_lfn e \<and> is_last e \<and> unat (lfn_number e) = pieces xs \<and> holds_piece xs (pieces xs) e"

definition part_ok :: "u8 list \<Rightarrow> nat \<Rightarrow> fat_dir \<Rightarrow> bool" where
  "part_ok xs i e \<longleftrightarrow> is_lfn e \<and> \<not> is_last e \<and> unat (lfn_number e) = i \<and> holds_piece xs i e"

definition names_file :: "(nat \<Rightarrow> fat_dir) \<Rightarrow> u8 list \<Rightarrow> nat \<Rightarrow> bool" where
  "names_file entry xs k \<longleftrightarrow>
     head_ok xs (entry k) \<and> (\<forall>i \<in> {1..<pieces xs}. part_ok xs i (entry (k + pieces xs - i))) \<and>
     is_std (entry (k + pieces xs))"

lemma lfn_chars_simps [simp]:
  "length (lfn_chars e) = 13" "n < 13 \<Longrightarrow> lfn_chars e ! n = lfn_char e (of_nat n)"
  by (simp_all add: lfn_chars_def del: upt_rec_numeral)

lemma lfn_cmp_bytes:
  assumes "mem_bytes m a ys" and "unat len = length ys" and "length ys \<le> 13"
  shows "lfn_cmp m a e len = 0 \<longleftrightarrow>
    list_all2 same_char ys (take (length ys) (lfn_chars e)) \<and> (length ys < 13 \<longrightarrow> lfn_chars e ! length ys = 0)"
proof -
  have "list_ex (\<lambda>n. sint (m (a + of_nat n)) \<noteq> uint (lfn_char e (of_nat n))) [0..<unat len] \<longleftrightarrow>
      \<not> list_all2 same_char ys (take (length ys) (lfn_chars e))"
    using assms by (auto simp: list_ex_iff list_all2_conv_all_nth same_char_def mem_bytes_def)
  moreover have "uint (lfn_char e len) = 0 \<longleftrightarrow> (length ys < 13 \<longrightarrow> lfn_chars e ! length ys = 0)"
  proof (cases "length ys < 13")
    case True
    moreover have "of_nat (length ys) = len"
      by (simp flip: assms(2))
    ultimately show ?thesis
      by (simp add: unsigned_eq_0_iff)
  next
    case False
    then have "len = 13"
      using assms(2, 3) by (simp add: word_unat_eq_iff)
    then show ?thesis
      using False by (simp add: lfn_char_def)
  qed
  ultimately show ?thesis
    by (simp add: lfn_cmp_def)
qed

lemma mem_bytes_piece:
  assumes "mem_bytes m a xs" and "1 \<le> i"
  shows "mem_bytes m (a + (of_nat i - 1) * 13) (piece xs i)"
  unfolding mem_bytes_def
proof (intro allI impI)
  fix j
  assume j: "j < length (piece xs i)"
  obtain i' where i: "i = Suc i'"
    using assms(2) by (cases i) auto
  have e: "a + (of_nat i - 1) * 13 + of_nat j = a + of_nat (i' * 13 + j)"
    by (simp add: i)
  have p: "piece xs i ! j = xs ! (i' * 13 + j)" "i' * 13 + j < length xs"
    using j by (auto simp: piece_def i)
  show "m (a + (of_nat i - 1) * 13 + of_nat j) = piece xs i ! j"
    unfolding e p(1) using assms(1) p(2) unfolding mem_bytes_def by blast
qed

lemma length_piece:
  "1 \<le> i \<Longrightarrow> i < pieces xs \<Longrightarrow> length (piece xs i) = 13"
  "xs \<noteq> [] \<Longrightarrow> length (piece xs (pieces xs)) = (if length xs mod 13 \<noteq> 0 then length xs mod 13 else 13)"
proof -
  show "1 \<le> i \<Longrightarrow> i < pieces xs \<Longrightarrow> length (piece xs i) = 13"
    by (auto simp: piece_def pieces_def min_def)
  assume "xs \<noteq> []"
  define q r where "q = length xs div 13" and "r = length xs mod 13"
  then have l: "length xs = 13 * q + r" "r < 13"
    by simp_all
  show "length (piece xs (pieces xs)) = (if length xs mod 13 \<noteq> 0 then length xs mod 13 else 13)"
  proof (cases "r = 0")
    case True
    then have "0 < q"
      using l \<open>xs \<noteq> []\<close> by (cases q) auto
    then have "13 * q - (q - 1) * 13 = 13"
      by (cases q) auto
    then show ?thesis
      using True by (simp add: piece_def pieces_def l)
  next
    case False
    then have "(13 * q + r + 12) div 13 = q + 1"
      using l(2) by (intro div_nat_eqI) simp_all
    then show ?thesis
      using False l(2) by (simp add: piece_def pieces_def l(1) mult.commute)
  qed
qed

text \<open>A name of at most 63 pieces, since the number of an entry has six bits.\<close>

definition name_fits :: "u32 \<Rightarrow> u8 list \<Rightarrow> bool" where
  "name_fits len xs \<longleftrightarrow> xs \<noteq> [] \<and> length xs \<le> 819 \<and> unat len = length xs"

lemma name_counts:
  assumes "name_fits len xs"
  shows "unat (lfn_count len) = pieces xs" and "unat (last_len len) = length (piece xs (pieces xs))"
    and "1 \<le> pieces xs" and "pieces xs \<le> 63"
proof -
  have len: "unat len = length xs" "length xs \<le> 819" "xs \<noteq> []"
    using assms by (simp_all add: name_fits_def)
  then have "unat (len + 12) = length xs + 12"
    by (subst unat_add32) simp_all
  then show "unat (lfn_count len) = pieces xs"
    by (simp add: lfn_count_def pieces_def)
  have m: "unat (len mod 13) = length xs mod 13"
    by (simp add: len)
  then have "len mod 13 = 0 \<longleftrightarrow> length xs mod 13 = 0"
    by (metis unat_0 unat_eq_0)
  then show "unat (last_len len) = length (piece xs (pieces xs))"
    by (simp add: last_len_def length_piece(2) [OF len(3)] len(1))
  have "1 \<le> length xs"
    using len(3) by (cases xs) auto
  then show "1 \<le> pieces xs" "pieces xs \<le> 63"
    using len(2) unfolding pieces_def by linarith+
qed

lemma head_matches_bytes:
  assumes "name_fits len xs" and "mem_bytes m a xs"
  shows "head_matches m a len e \<longleftrightarrow> head_ok xs e"
proof -
  note c = name_counts [OF assms(1)]
  have len: "lfn_count len = of_nat (pieces xs)"
    by (simp flip: c(1))
  have le: "length (piece xs (pieces xs)) \<le> 13"
    by (simp add: piece_def)
  have "lfn_number e = lfn_count len \<longleftrightarrow> unat (lfn_number e) = pieces xs"
    by (simp add: word_unat_eq_iff c(1))
  moreover have "lfn_cmp m (a + (lfn_count len - 1) * 13) e (last_len len) = 0 \<longleftrightarrow> holds_piece xs (pieces xs) e"
    unfolding len holds_piece_def
    by (rule lfn_cmp_bytes [OF mem_bytes_piece [OF assms(2) c(3)] c(2) le])
  ultimately show ?thesis
    by (auto simp: head_matches_def head_ok_def)
qed

lemma part_matches_bytes:
  assumes "name_fits len xs" and "mem_bytes m a xs" and "1 \<le> i" and "i < pieces xs"
  shows "part_matches m a (of_nat i) e \<longleftrightarrow> part_ok xs i e"
proof -
  have i: "unat (of_nat i :: u32) = i"
    using assms(4) name_counts(4) [OF assms(1)] by (intro unat_of_nat_u32) simp
  have "unat (13 :: u32) = length (piece xs i)" "length (piece xs i) \<le> 13"
    using length_piece(1) [OF assms(3, 4)] by simp_all
  from lfn_cmp_bytes [OF mem_bytes_piece [OF assms(2, 3)] this]
  have "lfn_cmp m (a + (of_nat i - 1) * 13) e 13 = 0 \<longleftrightarrow> holds_piece xs i e"
    unfolding holds_piece_def .
  moreover have "lfn_number e = of_nat i \<longleftrightarrow> unat (lfn_number e) = i"
    by (simp add: word_unat_eq_iff i)
  ultimately show ?thesis
    by (auto simp: part_matches_def part_ok_def)
qed

lemma find_skip:
  assumes "n \<le> n'" and "\<And>k. n \<le> k \<Longrightarrow> k < n' \<Longrightarrow> \<not> P k"
  shows "find P [n..<N] = find P [n'..<N]"
  using assms
proof (induction "n' - n" arbitrary: n)
  case (Suc d)
  then have "find P [Suc n..<N] = find P [n'..<N]"
    by simp
  moreover have "\<not> P n"
    using Suc by simp
  ultimately show ?case
    using Suc.hyps(2) by (cases "n < N") (simp_all add: upt_conv_Cons)
qed simp

section \<open>The search, over any reader of entries\<close>

text \<open>A name in memory that the reader does not write to.\<close>

definition name_at :: "(u32 \<Rightarrow> bool) \<Rightarrow> u32 \<Rightarrow> u8 list \<Rightarrow> disk_state \<Rightarrow> bool" where
  "name_at local a xs s \<longleftrightarrow> mem_bytes (dmem s) a xs \<and> (\<forall>j < length xs. \<not> local (a + of_nat j))"

text \<open>Every long name that starts in the first \<open>N\<close> entries has its entries and its file's entry inside the
  directory.\<close>

definition complete_dir :: "(nat \<Rightarrow> fat_dir) \<Rightarrow> nat \<Rightarrow> nat \<Rightarrow> bool" where
  "complete_dir entry room N \<longleftrightarrow>
     (\<forall>k < N. is_lfn (entry k) \<and> is_last (entry k) \<longrightarrow> k + unat (lfn_number (entry k)) < room)"

text \<open>The first file of the name, from entry \<open>n\<close> on.\<close>

definition search_result :: "(nat \<Rightarrow> fat_dir) \<Rightarrow> u8 list \<Rightarrow> nat \<Rightarrow> nat \<Rightarrow> fat_dir \<Rightarrow> bool" where
  "search_result entry xs n N e \<longleftrightarrow> length e = 32 \<and>
     (case find (names_file entry xs) [n..<N] of None \<Rightarrow> order e = FLAG_DEL | Some k \<Rightarrow> e = entry (k + pieces xs))"

text \<open>What the search needs of a reader: entry \<open>n\<close> of a directory of \<open>size\<close> entries is \<open>entry n\<close>, reading it
  keeps the state good, and changes only memory that \<open>local\<close> holds.\<close>

locale entry_source =
  fixes rd :: entry_reader and entry :: "nat \<Rightarrow> fat_dir" and size :: nat
    and good :: "disk_state \<Rightarrow> bool" and local :: "u32 \<Rightarrow> bool"
  assumes rd_entry: "good s \<Longrightarrow> unat n < size \<Longrightarrow>
      \<exists>t. rd n s = Some (entry (unat n), t) \<and> good t \<and> (\<forall>x. \<not> local x \<longrightarrow> dmem t x = dmem s x)"
    and entry_length: "length (entry k) = 32"
    and size_bound: "good s \<Longrightarrow> size < 2 ^ 31"
begin

definition same_outside :: "disk_state \<Rightarrow> disk_state \<Rightarrow> bool" where
  "same_outside s t \<longleftrightarrow> (\<forall>x. \<not> local x \<longrightarrow> dmem t x = dmem s x)"

lemma same_outside_trans: "same_outside s t \<Longrightarrow> same_outside t u \<Longrightarrow> same_outside s u"
  by (simp add: same_outside_def)

lemma name_at_same: "same_outside s t \<Longrightarrow> name_at local a xs s \<Longrightarrow> name_at local a xs t"
  by (simp add: same_outside_def name_at_def mem_bytes_def)

lemma read_entry:
  assumes "good s" and "unat n < size" and "name_at local a xs s"
  obtains t where "rd n s = Some (entry (unat n), t)" "good t" "same_outside s t" "name_at local a xs t"
proof -
  obtain t where "rd n s = Some (entry (unat n), t)" "good t" "same_outside s t"
    using rd_entry [OF assms(1, 2)] by (auto simp: same_outside_def)
  then show ?thesis
    using that name_at_same assms(3) by blast
qed

lemma match_parts_entries:
  assumes "good s" and "name_fits len xs" and "name_at local a xs s" and "k < pieces xs" and "unat n + pieces xs < size"
    and "length e = 32"
  shows "\<exists>i e' t. match_parts rd a (lfn_count len) n k e s = Some (i, e', t) \<and> good t \<and> same_outside s t \<and>
    length e' = 32 \<and> i \<le> k \<and> (\<forall>j \<in> {i<..k}. part_ok xs j (entry (unat n + pieces xs - j))) \<and>
    (i \<noteq> 0 \<longrightarrow> \<not> part_ok xs i (entry (unat n + pieces xs - i)))"
  using assms(1, 3, 4, 6)
proof (induction k arbitrary: e s)
  case 0
  then show ?case
    by (auto simp: same_outside_def)
next
  case (Suc k)
  note c = name_counts [OF assms(2)]
  have len: "lfn_count len = of_nat (pieces xs)"
    by (simp flip: c(1))
  have k: "of_nat (Suc k) \<le> n + lfn_count len" "unat (of_nat (Suc k) :: u32) = Suc k"
    "unat (n + lfn_count len) = unat n + pieces xs"
  proof -
    show "unat (n + lfn_count len) = unat n + pieces xs"
      using assms(5) size_bound [OF assms(1)] by (subst unat_add32) (simp_all add: c(1))
    moreover show "unat (of_nat (Suc k) :: u32) = Suc k"
      using Suc.prems(3) c(4) by (intro unat_of_nat_u32) simp
    ultimately show "of_nat (Suc k) \<le> n + lfn_count len"
      using Suc.prems(3) by (simp only: word_le_nat_alt)
  qed
  have at: "unat (n + lfn_count len - of_nat (Suc k)) = unat n + pieces xs - Suc k"
    by (simp only: unat_sub [OF k(1)] k(2, 3))
  have "unat (n + lfn_count len - of_nat (Suc k)) < size"
    using assms(5) unfolding at by simp
  from read_entry [OF Suc.prems(1) this Suc.prems(2)] obtain t where
    t: "rd (n + lfn_count len - of_nat (Suc k)) s = Some (entry (unat n + pieces xs - Suc k), t)" "good t"
      "same_outside s t" "name_at local a xs t"
    unfolding at by blast
  have match: "part_matches (dmem t) a (of_nat (Suc k)) e' \<longleftrightarrow> part_ok xs (Suc k) e'" for e'
    using t(4) Suc.prems(3) by (intro part_matches_bytes [OF assms(2)]) (simp_all add: name_at_def)
  show ?case
  proof (cases "part_ok xs (Suc k) (entry (unat n + pieces xs - Suc k))")
    case True
    have "k < pieces xs"
      using Suc.prems(3) by simp
    from Suc.IH [OF t(2, 4) this entry_length [of "unat n + pieces xs - Suc k"]] obtain i e' u where
      u: "match_parts rd a (lfn_count len) n k (entry (unat n + pieces xs - Suc k)) t = Some (i, e', u)" "good u"
        "same_outside t u" "length e' = 32" "i \<le> k"
      and parts: "\<forall>j \<in> {i<..k}. part_ok xs j (entry (unat n + pieces xs - j))"
        "i \<noteq> 0 \<longrightarrow> \<not> part_ok xs i (entry (unat n + pieces xs - i))"
      by (elim exE conjE) (rule that; assumption)
    have "match_parts rd a (lfn_count len) n (Suc k) e s = Some (i, e', u)"
      using True u(1) by (simp add: t(1) match del: of_nat_Suc)
    moreover have "part_ok xs j (entry (unat n + pieces xs - j))" if "i < j" "j \<le> Suc k" for j
      using that True parts(1) by (cases "j = Suc k") auto
    ultimately show ?thesis
      using u(2, 4, 5) same_outside_trans [OF t(3) u(3)] parts(2)
      by (intro exI [of _ i] exI [of _ e'] exI [of _ u]) auto
  next
    case False
    then have "match_parts rd a (lfn_count len) n (Suc k) e s = Some (Suc k, entry (unat n + pieces xs - Suc k), t)"
      by (simp add: t(1) match del: of_nat_Suc)
    then show ?thesis
      using False t entry_length by (intro exI [of _ "Suc k"] exI) auto
  qed
qed

text \<open>A run of entries that breaks at piece \<open>i\<close> names nothing, and no name starts in the pieces that were looked at.\<close>

lemma broken_run:
  assumes "i \<noteq> 0" and "i < pieces xs" and "\<not> part_ok xs i (entry (n + pieces xs - i))"
    and "\<forall>j \<in> {i<..pieces xs - 1}. part_ok xs j (entry (n + pieces xs - j))"
    and "n \<le> k" and "k < n + (pieces xs - i)"
  shows "\<not> names_file entry xs k"
proof (cases "k = n")
  case True
  have "i \<in> {1..<pieces xs}"
    using assms(1, 2) by simp
  then show ?thesis
    using True assms(3) unfolding names_file_def by blast
next
  case False
  define j where "j = n + pieces xs - k"
  then have j: "k = n + pieces xs - j" "j \<in> {i<..pieces xs - 1}"
    using False assms by auto
  then have "\<not> is_last (entry k)"
    using assms(4) by (auto simp: part_ok_def)
  then show ?thesis
    by (simp add: names_file_def head_ok_def)
qed

lemma whole_run:
  assumes "head_ok xs (entry n)" and "\<forall>j \<in> {0<..pieces xs - 1}. part_ok xs j (entry (n + pieces xs - j))"
  shows "names_file entry xs n \<longleftrightarrow> is_std (entry (n + pieces xs))"
proof -
  have "{1..<pieces xs} = {0<..pieces xs - 1}"
    by auto
  then show ?thesis
    using assms by (simp add: names_file_def)
qed

text \<open>How one turn of the loop ends: with the file's entry, or at a later entry with no name passed over.\<close>

definition turn_found :: "u32 \<Rightarrow> u32 \<Rightarrow> u32 \<Rightarrow> u8 list \<Rightarrow> u32 \<Rightarrow> fat_dir \<Rightarrow> disk_state \<Rightarrow> bool" where
  "turn_found N a len xs n e s \<longleftrightarrow> names_file entry xs (unat n) \<and>
     (\<exists>t. find_entry rd N a len n e s = Some (entry (unat n + pieces xs), t) \<and> good t \<and> same_outside s t)"

definition turn_goes_on :: "u32 \<Rightarrow> u32 \<Rightarrow> u32 \<Rightarrow> u8 list \<Rightarrow> u32 \<Rightarrow> fat_dir \<Rightarrow> disk_state \<Rightarrow> bool" where
  "turn_goes_on N a len xs n e s \<longleftrightarrow>
     (\<exists>n' e1 u. find_entry rd N a len n e s = find_entry rd N a len n' e1 u \<and> good u \<and> same_outside s u \<and>
        name_at local a xs u \<and> length e1 = 32 \<and> unat n < unat n' \<and> (\<forall>k \<in> {unat n..<unat n'}. \<not> names_file entry xs k))"

lemma turn_goes_onI:
  assumes "find_entry rd N a len n e s = find_entry rd N a len n' e1 u" and "good u" and "same_outside s u"
    and "name_at local a xs u" and "length e1 = 32" and "unat n < unat n'"
    and "\<And>k. unat n \<le> k \<Longrightarrow> k < unat n' \<Longrightarrow> \<not> names_file entry xs k"
  shows "turn_goes_on N a len xs n e s"
  unfolding turn_goes_on_def
  by (rule exI [of _ n'], rule exI [of _ e1], rule exI [of _ u]) (simp add: assms(1-6), simp add: assms(7))

lemma turn_next:
  assumes "find_entry rd N a len n e s = find_entry rd N a len (n + 1) e1 u" and "n < N" and "good u"
    and "same_outside s u" and "name_at local a xs u" and "length e1 = 32" and "\<not> names_file entry xs (unat n)"
  shows "turn_goes_on N a len xs n e s"
proof (rule turn_goes_onI [OF assms(1, 3-6)])
  have "unat (n + 1) = unat n + 1"
    using assms(2) unat_Suc_less by simp
  then show "unat n < unat (n + 1)" "\<And>k. unat n \<le> k \<Longrightarrow> k < unat (n + 1) \<Longrightarrow> \<not> names_file entry xs k"
    using assms(7) by (auto simp: less_Suc_eq)
qed

text \<open>The turn at an entry that is the head of the name's run.\<close>

lemma turn_head:
  assumes "good s1" and "same_outside s s1" and "name_fits len xs" and "name_at local a xs s" and "n < N"
    and "rd n s = Some (entry (unat n), s1)" and "head_ok xs (entry (unat n))" and "unat n + pieces xs < size"
  shows "turn_found N a len xs n e s \<or> turn_goes_on N a len xs n e s"
proof -
  note c = name_counts [OF assms(3)] and name1 = name_at_same [OF assms(2, 4)]
  have "head_matches (dmem s1) a len (entry (unat n))"
    using name1 assms(7) by (subst head_matches_bytes [OF assms(3)]) (simp_all add: name_at_def)
  note go = find_entry.simps [of rd N a len n e s] assms(5, 6) this
  have k: "unat (lfn_count len - 1) = pieces xs - 1" "pieces xs - 1 < pieces xs"
    using c(1, 3) by (simp_all add: unat_sub32 word_le_nat_alt)
  from match_parts_entries [OF assms(1, 3) name1 k(2) assms(8) entry_length [of "unat n"]] obtain i e2 s2 where
    s2: "match_parts rd a (lfn_count len) n (pieces xs - 1) (entry (unat n)) s1 = Some (i, e2, s2)" "good s2"
      "same_outside s1 s2" "length e2 = 32" "i \<le> pieces xs - 1"
    and parts: "\<forall>j \<in> {i<..pieces xs - 1}. part_ok xs j (entry (unat n + pieces xs - j))"
      "i \<noteq> 0 \<longrightarrow> \<not> part_ok xs i (entry (unat n + pieces xs - i))"
    by (elim exE conjE) (rule that; assumption)
  note go = go k(1) [unfolded One_nat_def] s2(1) [unfolded One_nat_def]
    and same2 = same_outside_trans [OF assms(2) s2(3)]
  note name2 = name_at_same [OF same2 assms(4)]
  show ?thesis
  proof (cases "i = 0")
    case True
    have at: "unat (n + lfn_count len) = unat n + pieces xs"
      using assms(8) size_bound [OF assms(1)] by (subst unat_add32) (simp_all add: c(1))
    have "unat (n + lfn_count len) < size"
      using assms(8) by (simp add: at)
    from read_entry [OF s2(2) this name2] obtain s3 where
      s3: "rd (n + lfn_count len) s2 = Some (entry (unat n + pieces xs), s3)" "good s3" "same_outside s2 s3" "name_at local a xs s3"
      unfolding at by blast
    note names = whole_run [OF assms(7) parts(1) [unfolded True]] and same3 = same_outside_trans [OF same2 s3(3)]
    show ?thesis
    proof (cases "is_std (entry (unat n + pieces xs))")
      case std: True
      then have "find_entry rd N a len n e s = Some (entry (unat n + pieces xs), s3)"
        by (simp add: go True s3(1))
      then show ?thesis
        using names std s3(2) same3 unfolding turn_found_def by blast
    next
      case std: False
      then have "find_entry rd N a len n e s = find_entry rd N a len (n + 1) (entry (unat n + pieces xs)) s3"
        by (simp add: go True s3(1))
      then show ?thesis
        using turn_next [OF _ assms(5) s3(2) same3 s3(4) entry_length] names std by blast
    qed
  next
    case False
    have i: "unat (of_nat i :: u32) = i" "i < pieces xs"
      using s2(5) c(3, 4) by (simp_all add: unat_of_nat_u32)
    then have "unat (lfn_count len - of_nat i) = pieces xs - i"
      by (subst unat_sub32) (simp_all add: word_le_nat_alt c(1))
    then have at: "unat (n + (lfn_count len - of_nat i)) = unat n + (pieces xs - i)"
      using assms(8) size_bound [OF assms(1)] by (subst unat_add32) simp_all
    have "turn_goes_on N a len xs n e s"
    proof (rule turn_goes_onI [OF _ s2(2) same2 name2 s2(4)])
      show "find_entry rd N a len n e s = find_entry rd N a len (n + (lfn_count len - of_nat i)) e2 s2"
        using False by (simp add: go)
      show "unat n < unat (n + (lfn_count len - of_nat i))"
        using i(2) by (simp add: at)
      show "\<not> names_file entry xs k" if "unat n \<le> k" "k < unat (n + (lfn_count len - of_nat i))" for k
        using that False parts by (intro broken_run [OF _ i(2), of "unat n"]) (simp_all add: at)
    qed
    then show ?thesis ..
  qed
qed

lemma find_entry_turn:
  assumes "good s" and "name_fits len xs" and "name_at local a xs s" and "n < N"
    and "unat N \<le> size" and "complete_dir entry size (unat N)"
  shows "turn_found N a len xs n e s \<or> turn_goes_on N a len xs n e s"
proof -
  have n: "unat n < unat N" "unat n < size"
    using assms(4, 5) by (simp_all add: word_less_nat_alt)
  from read_entry [OF assms(1) n(2) assms(3)] obtain s1 where
    s1: "rd n s = Some (entry (unat n), s1)" "good s1" "same_outside s s1" "name_at local a xs s1" .
  show ?thesis
  proof (cases "head_ok xs (entry (unat n))")
    case True
    then have "unat n + pieces xs < size"
      using assms(6) n(1) by (auto simp: complete_dir_def head_ok_def)
    then show ?thesis
      by (rule turn_head [OF s1(2, 3) assms(2-4) s1(1) True])
  next
    case False
    then have "\<not> head_matches (dmem s1) a len (entry (unat n))"
      using s1(4) by (subst head_matches_bytes [OF assms(2)]) (simp_all add: name_at_def)
    then have "find_entry rd N a len n e s = find_entry rd N a len (n + 1) (entry (unat n)) s1"
      using assms(4) by (subst find_entry.simps) (simp add: s1(1))
    moreover have "\<not> names_file entry xs (unat n)"
      using False by (simp add: names_file_def)
    ultimately show ?thesis
      using turn_next [OF _ assms(4) s1(2-4) entry_length] by blast
  qed
qed

lemma find_entry_first:
  assumes "good s" and "name_fits len xs" and "name_at local a xs s" and "length e = 32"
    and "unat N \<le> size" and "complete_dir entry size (unat N)"
  shows "\<exists>e' t. find_entry rd N a len n e s = Some (e', t) \<and> good t \<and> same_outside s t \<and>
    search_result entry xs (unat n) (unat N) e'"
  using assms(1, 3, 4)
proof (induction "unat N - unat n" arbitrary: n e s rule: less_induct)
  case less
  show ?case
  proof (cases "n < N")
    case False
    then have "find (names_file entry xs) [unat n..<unat N] = None"
      by (simp add: word_less_nat_alt)
    moreover have "length (set_deleted e) = 32" "order (set_deleted e) = FLAG_DEL"
      using less.prems(3) by (simp_all add: set_deleted_def order_def)
    moreover have "find_entry rd N a len n e s = Some (set_deleted e, s)"
      using False by (subst find_entry.simps) simp
    ultimately show ?thesis
      using less.prems by (simp add: search_result_def same_outside_def)
  next
    case True
    then have n: "unat n < unat N"
      by (simp add: word_less_nat_alt)
    from find_entry_turn [OF less.prems(1) assms(2) less.prems(2) True assms(5, 6)] show ?thesis
    proof
      assume "turn_found N a len xs n e s"
      then show ?thesis
        using n by (auto simp: turn_found_def search_result_def entry_length upt_conv_Cons)
    next
      assume "turn_goes_on N a len xs n e s"
      then obtain n' e1 u where u: "find_entry rd N a len n e s = find_entry rd N a len n' e1 u" "good u"
          "same_outside s u" "name_at local a xs u" "length e1 = 32"
        and n': "unat n < unat n'" "\<forall>k \<in> {unat n..<unat n'}. \<not> names_file entry xs k"
        unfolding turn_goes_on_def by (elim exE conjE) (rule that)
      have "unat N - unat n' < unat N - unat n"
        using n n'(1) by simp
      from less.hyps [OF this u(2, 4, 5)] obtain e' t where
        t: "find_entry rd N a len n' e1 u = Some (e', t)" "good t" "same_outside u t" "search_result entry xs (unat n') (unat N) e'"
        by blast
      have "find (names_file entry xs) [unat n..<unat N] = find (names_file entry xs) [unat n'..<unat N]"
        using n' by (intro find_skip) auto
      then have "search_result entry xs (unat n) (unat N) e'"
        using t(4) by (simp add: search_result_def)
      then show ?thesis
        using t(1, 2) same_outside_trans [OF u(3) t(3)] unfolding u(1) by blast
    qed
  qed
qed

end

section \<open>The directories of a disk\<close>

text \<open>A directory in the clusters \<open>cs\<close> has \<open>N\<close> entries.\<close>

definition chain_dir :: "(nat \<Rightarrow> u8) \<Rightarrow> fat \<Rightarrow> disk \<Rightarrow> u32 list \<Rightarrow> nat \<Rightarrow> bool" where
  "chain_dir V f d cs N \<longleftrightarrow> chain V f cs \<and> readable f d cs \<and> 32 dvd unat (cluster_size f) \<and>
     N = length cs * unat (cluster_size f) div 32 \<and> N < 2 ^ 27"

definition sub_dir :: "(nat \<Rightarrow> u8) \<Rightarrow> fat \<Rightarrow> disk \<Rightarrow> fat_dir \<Rightarrow> nat \<Rightarrow> (nat \<Rightarrow> fat_dir) \<Rightarrow> bool" where
  "sub_dir V f d e N entry \<longleftrightarrow>
     (\<exists>cs. hd cs = entry_cluster f e \<and> chain_dir V f d cs N \<and> entry = chain_entry V f cs)"

definition root_dir :: "(nat \<Rightarrow> u8) \<Rightarrow> fat \<Rightarrow> disk \<Rightarrow> nat \<Rightarrow> (nat \<Rightarrow> fat_dir) \<Rightarrow> bool" where
  "root_dir V f d N entry \<longleftrightarrow>
     (case fat_type f of
        FAT16 \<Rightarrow> N = unat (root_dir_count f) \<and> N < 2 ^ 27 \<and> root_has f d N \<and> entry = root_entry V f
      | FAT32 \<Rightarrow> \<exists>cs. hd cs = ucast (root_dir_cluster f) \<and> chain_dir V f d cs N \<and> entry = chain_entry V f cs)"

definition chain_good :: "drive \<Rightarrow> (nat \<Rightarrow> u8) \<Rightarrow> u32 \<Rightarrow> u32 \<Rightarrow> fat_frame \<Rightarrow> disk_state \<Rightarrow> u32 list \<Rightarrow> nat \<Rightarrow> disk_state \<Rightarrow> bool" where
  "chain_good dev content q p fr s0 cs N s \<longleftrightarrow>
     quiet s0 s \<and> fat_serving dev content q p s0 \<and> chain_dir (disk_view content q s0) (fats s0 p) (disks s0 q) cs N \<and>
     apart (entry_at fr) 32 (next_at fr) 4"

definition root_good :: "drive \<Rightarrow> (nat \<Rightarrow> u8) \<Rightarrow> u32 \<Rightarrow> u32 \<Rightarrow> disk_state \<Rightarrow> nat \<Rightarrow> disk_state \<Rightarrow> bool" where
  "root_good dev content q p s0 N s \<longleftrightarrow>
     quiet s0 s \<and> fat_serving dev content q p s0 \<and> fat_type (fats s0 p) = FAT16 \<and> N < 2 ^ 27 \<and>
     root_has (fats s0 p) (disks s0 q) N"

lemma chain_entry_read:
  assumes "chain_good dev content q p fr s0 cs N s" and "unat n < N"
  shows "\<exists>t. read_dir_entry dev fr p (hd cs) n s =
      Some (chain_entry (disk_view content q s0) (fats s0 p) cs (unat n), t) \<and>
    chain_good dev content q p fr s0 cs N t \<and> (\<forall>x. \<not> scratch fr x \<longrightarrow> dmem t x = dmem s x)"
proof -
  have q: "quiet s0 s" and serve: "fat_serving dev content q p s0"
    and dir: "chain_dir (disk_view content q s0) (fats s0 p) (disks s0 q) cs N" and ap: "apart (entry_at fr) 32 (next_at fr) 4"
    using assms(1) by (simp_all add: chain_good_def)
  note same = quiet_fat [OF q]
  have "fat_serving dev content q p s"
    using serve by (simp only: same)
  moreover have "chain (disk_view content q s) (fats s p) cs" "readable (fats s p) (disks s q) cs"
    "32 dvd unat (cluster_size (fats s p))" "unat n < length cs * unat (cluster_size (fats s p)) div 32" "unat n < 2 ^ 27"
    using dir assms(2) by (simp_all add: same chain_dir_def)
  ultimately obtain t where
    "read_dir_entry dev fr p (hd cs) n s = Some (chain_entry (disk_view content q s) (fats s p) cs (unat n), t)"
    "quiet s t" "keeps fr (dmem s) (dmem t)"
    using read_dir_entry_chain ap by blast
  then show ?thesis
    using quiet_trans [OF q] serve dir ap by (simp add: same chain_good_def keeps_def)
qed

lemma root_entry_read:
  assumes "root_good dev content q p s0 N s" and "unat n < N"
  shows "\<exists>t. read_root_dir_entry dev fr p n s = Some (root_entry (disk_view content q s0) (fats s0 p) (unat n), t) \<and>
    root_good dev content q p s0 N t \<and> (\<forall>x. \<not> scratch fr x \<longrightarrow> dmem t x = dmem s x)"
proof -
  have q: "quiet s0 s" and serve: "fat_serving dev content q p s0" and rest: "fat_type (fats s0 p) = FAT16" "N < 2 ^ 27"
    "root_has (fats s0 p) (disks s0 q) N"
    using assms(1) by (simp_all add: root_good_def)
  note same = quiet_fat [OF q]
  have "fat_serving dev content q p s" "fat_type (fats s p) = FAT16" "root_has (fats s p) (disks s q) N" "unat n < 2 ^ 27"
    using serve rest assms(2) by (simp_all only: same)
  from read_root_entry_fat16 [OF this(2, 1, 3) assms(2) this(4), of fr] obtain t where
    "read_root_dir_entry dev fr p n s = Some (root_entry (disk_view content q s) (fats s p) (unat n), t)"
    "quiet s t" "keeps fr (dmem s) (dmem t)"
    by blast
  then show ?thesis
    using quiet_trans [OF q] serve rest by (simp add: same root_good_def keeps_def)
qed

text \<open>The root directory of FAT32 is a chain.\<close>

definition root_chain_good ::
    "drive \<Rightarrow> (nat \<Rightarrow> u8) \<Rightarrow> u32 \<Rightarrow> u32 \<Rightarrow> fat_frame \<Rightarrow> disk_state \<Rightarrow> u32 list \<Rightarrow> nat \<Rightarrow> disk_state \<Rightarrow> bool" where
  "root_chain_good dev content q p fr s0 cs N s \<longleftrightarrow>
     chain_good dev content q p fr s0 cs N s \<and> fat_type (fats s0 p) = FAT32 \<and>
     hd cs = ucast (root_dir_cluster (fats s0 p))"

lemma root_chain_entry_read:
  assumes "root_chain_good dev content q p fr s0 cs N s" and "unat n < N"
  shows "\<exists>t. read_root_dir_entry dev fr p n s =
      Some (chain_entry (disk_view content q s0) (fats s0 p) cs (unat n), t) \<and>
    root_chain_good dev content q p fr s0 cs N t \<and> (\<forall>x. \<not> scratch fr x \<longrightarrow> dmem t x = dmem s x)"
proof -
  have g: "chain_good dev content q p fr s0 cs N s" and t: "fat_type (fats s0 p) = FAT32"
    and hd: "hd cs = ucast (root_dir_cluster (fats s0 p))" and q: "quiet s0 s"
    using assms(1) by (simp_all add: root_chain_good_def chain_good_def)
  have "read_root_dir_entry dev fr p n s = read_dir_entry dev fr p (hd cs) n s"
    by (simp add: read_root_dir_entry_def quiet_fat [OF q] t hd)
  then show ?thesis
    using chain_entry_read [OF g assms(2)] t hd by (simp add: root_chain_good_def)
qed

interpretation in_chain: entry_source "read_dir_entry dev fr p (hd cs)"
    "chain_entry (disk_view content q s0) (fats s0 p) cs" N "chain_good dev content q p fr s0 cs N" "scratch fr"
  for dev content q p fr s0 cs N
proof unfold_locales
  show "chain_good dev content q p fr s0 cs N s \<Longrightarrow> N < 2 ^ 31" for s
    by (simp add: chain_good_def chain_dir_def)
qed (simp_all only: chain_entry_read, simp add: chain_entry_def)

interpretation in_root_chain: entry_source "read_root_dir_entry dev fr p"
    "chain_entry (disk_view content q s0) (fats s0 p) cs" N "root_chain_good dev content q p fr s0 cs N" "scratch fr"
  for dev content q p fr s0 cs N
proof unfold_locales
  show "root_chain_good dev content q p fr s0 cs N s \<Longrightarrow> N < 2 ^ 31" for s
    by (simp add: root_chain_good_def chain_good_def chain_dir_def)
qed (simp_all only: root_chain_entry_read, simp add: chain_entry_def)

interpretation in_root: entry_source "read_root_dir_entry dev fr p"
    "root_entry (disk_view content q s0) (fats s0 p)" N "root_good dev content q p s0 N" "scratch fr"
  for dev content q p fr s0 N
proof unfold_locales
  show "root_good dev content q p s0 N s \<Longrightarrow> N < 2 ^ 31" for s
    by (simp add: root_good_def)
qed (simp_all only: root_entry_read, simp add: root_entry_def)

section \<open>A mounted file system\<close>

text \<open>The only field of the descriptor that an operation changes is \<open>root_dir_count\<close>, and only on FAT32.  The heap
  \<open>h\<close> is as it was: reading allocates nothing.\<close>

definition mounted :: "heap_state \<Rightarrow> drive \<Rightarrow> (nat \<Rightarrow> u8) \<Rightarrow> u32 \<Rightarrow> u32 \<Rightarrow> disk \<Rightarrow> fat \<Rightarrow> disk_state \<Rightarrow> bool" where
  "mounted h dev content q p d f s \<longleftrightarrow>
     heap s = h \<and> fat_serving dev content q p s \<and> disks s q = d \<and>
     (\<exists>k. fats s p = f\<lparr>root_dir_count := k\<rparr> \<and> (fat_type f = FAT16 \<longrightarrow> k = root_dir_count f))"

definition frame_ok :: "fat_frame \<Rightarrow> bool" where
  "frame_ok fr \<longleftrightarrow> apart (entry_at fr) 32 (next_at fr) 4 \<and> length (uninit_entry fr) = 32"

lemma mounted_quiet: "quiet s t \<Longrightarrow> mounted h dev content q p d f t \<longleftrightarrow> mounted h dev content q p d f s"
  by (auto simp: mounted_def quiet_fat quiet_def)

lemma root_count_irrelevant [simp]:
  "link V (f\<lparr>root_dir_count := k\<rparr>) = link V f"
  "entry_width (f\<lparr>root_dir_count := k\<rparr>) = entry_width f"
  "cluster_pos (f\<lparr>root_dir_count := k\<rparr>) = cluster_pos f"
  "cluster_byte V (f\<lparr>root_dir_count := k\<rparr>) = cluster_byte V f"
  "table_has (f\<lparr>root_dir_count := k\<rparr>) = table_has f"
  "data_has (f\<lparr>root_dir_count := k\<rparr>) = data_has f"
  "readable (f\<lparr>root_dir_count := k\<rparr>) = readable f"
  "chain_entry V (f\<lparr>root_dir_count := k\<rparr>) = chain_entry V f"
  "root_entry V (f\<lparr>root_dir_count := k\<rparr>) = root_entry V f"
  "root_has (f\<lparr>root_dir_count := k\<rparr>) = root_has f"
  "entry_cluster (f\<lparr>root_dir_count := k\<rparr>) = entry_cluster f"
  by (simp_all add: fun_eq_iff link_def table_pos_def entry_width_def cluster_pos_def cluster_byte_def table_has_def
      data_has_def readable_def chain_entry_def root_entry_def root_has_def entry_cluster_def cong: fat_type.case_cong)

lemma root_count_chain [simp]: "chain V (f\<lparr>root_dir_count := k\<rparr>) cs = chain V f cs"
  by (induction cs rule: chain.induct [of _ V f]) simp_all

lemma root_count_chain_dir [simp]: "chain_dir V (f\<lparr>root_dir_count := k\<rparr>) = chain_dir V f"
  by (simp add: fun_eq_iff chain_dir_def)

lemma search_chain:
  assumes "mounted h dev content q p d f s" and "frame_ok fr" and "chain_dir (view content d) f d cs N"
    and "complete_dir (chain_entry (view content d) f cs) N N" and "name_fits len xs" and "name_at (scratch fr) a xs s"
  shows "\<exists>e t. find_entry (read_dir_entry dev fr p (hd cs)) (of_nat N) a len 0 (uninit_entry fr) s = Some (e, t) \<and>
    quiet s t \<and> keeps fr (dmem s) (dmem t) \<and> search_result (chain_entry (view content d) f cs) xs 0 N e"
proof -
  have d: "disks s q = d" and serve: "fat_serving dev content q p s" and ap: "apart (entry_at fr) 32 (next_at fr) 4"
    and len: "length (uninit_entry fr) = 32"
    using assms(1, 2) by (simp_all add: mounted_def frame_ok_def)
  obtain k where f: "fats s p = f\<lparr>root_dir_count := k\<rparr>"
    using assms(1) by (auto simp: mounted_def)
  have "N < 2 ^ 27"
    using assms(3) by (simp add: chain_dir_def)
  then have N: "unat (of_nat N :: u32) = N"
    by (intro unat_of_nat_u32) simp
  have good: "chain_good dev content q p fr s cs N s"
    unfolding chain_good_def d f root_count_chain_dir using assms(3) serve [unfolded f] ap by (simp add: quiet_refl)
  from in_chain.find_entry_first [OF good assms(5, 6) len, of "of_nat N" 0, unfolded N d f root_count_irrelevant, OF order_refl assms(4)]
  show ?thesis
    unfolding unat_0 by (auto simp: chain_good_def in_chain.same_outside_def keeps_def)
qed

lemma search_root:
  assumes "mounted h dev content q p d f s" and "frame_ok fr" and "root_dir (view content d) f d N entry"
    and "complete_dir entry N N" and "name_fits len xs" and "name_at (scratch fr) a xs s"
  shows "\<exists>e t. find_entry (read_root_dir_entry dev fr p) (of_nat N) a len 0 (uninit_entry fr) s = Some (e, t) \<and>
    quiet s t \<and> keeps fr (dmem s) (dmem t) \<and> search_result entry xs 0 N e"
proof -
  have d: "disks s q = d" and serve: "fat_serving dev content q p s" and ap: "apart (entry_at fr) 32 (next_at fr) 4"
    and len: "length (uninit_entry fr) = 32"
    using assms(1, 2) by (simp_all add: mounted_def frame_ok_def)
  obtain k where f: "fats s p = f\<lparr>root_dir_count := k\<rparr>"
    using assms(1) by (auto simp: mounted_def)
  have "N < 2 ^ 27"
    using assms(3) by (auto simp: root_dir_def chain_dir_def split: fat_type.splits)
  then have N: "unat (of_nat N :: u32) = N"
    by (intro unat_of_nat_u32) simp
  show ?thesis
  proof (cases "fat_type f")
    case FAT16
    then have root: "root_has f d N" "entry = root_entry (view content d) f"
      using assms(3) by (auto simp: root_dir_def)
    then have good: "root_good dev content q p s N s"
      unfolding root_good_def d f root_count_irrelevant
      using FAT16 serve [unfolded f] \<open>N < 2 ^ 27\<close> by (simp add: quiet_refl)
    from in_root.find_entry_first [OF good assms(5, 6) len, of "of_nat N" 0, unfolded N d f root_count_irrelevant,
        OF order_refl assms(4) [unfolded root(2)]]
    show ?thesis
      unfolding unat_0 root(2) by (auto simp: root_good_def in_root.same_outside_def keeps_def)
  next
    case FAT32
    then obtain cs where root: "hd cs = ucast (root_dir_cluster f)" "chain_dir (view content d) f d cs N"
      "entry = chain_entry (view content d) f cs"
      using assms(3) by (auto simp: root_dir_def)
    then have good: "root_chain_good dev content q p fr s cs N s"
      unfolding root_chain_good_def chain_good_def d f root_count_chain_dir
      using FAT32 serve [unfolded f] ap by (simp add: quiet_refl)
    from in_root_chain.find_entry_first [OF good assms(5, 6) len, of "of_nat N" 0, unfolded N d f root_count_irrelevant,
        OF order_refl assms(4) [unfolded root(3)]]
    show ?thesis
      unfolding unat_0 root(3) by (auto simp: root_chain_good_def chain_good_def in_root_chain.same_outside_def keeps_def)
  qed
qed

lemma dir_count_chain:
  assumes "chain_dir V f d cs N"
  shows "cluster_size f * of_nat (length cs) div 32 = of_nat N"
proof -
  have N: "N = length cs * unat (cluster_size f) div 32" "N < 134217728" and dvd: "32 dvd unat (cluster_size f)"
    and pos: "0 < unat (cluster_size f)"
    using assms by (simp_all add: chain_dir_def readable_def)
  have prod: "length cs * unat (cluster_size f) = 32 * N"
    using dvd by (simp add: N(1))
  then have "length cs \<le> 32 * N"
    using pos by (metis mult.right_neutral mult_le_mono2 Suc_leI One_nat_def)
  then have len: "unat (of_nat (length cs) :: u32) = length cs"
    using N(2) by (intro unat_of_nat_u32) linarith
  have "unat (cluster_size f * of_nat (length cs)) = 32 * N"
    using prod N(2) by (subst unat_mult32) (simp_all add: len mult.commute)
  moreover have "unat (of_nat N :: u32) = N"
    using N(2) by (intro unat_of_nat_u32) simp
  ultimately show ?thesis
    by (simp add: word_unat_eq_iff)
qed

lemma dir_cluster_chain:
  assumes "mounted h dev content q p d f s" and "chain_dir (view content d) f d cs N"
  shows "\<exists>t. dir_cluster dev fr p (hd cs) s = Some (of_nat (length cs), t) \<and> quiet s t \<and> keeps fr (dmem s) (dmem t)"
proof -
  obtain k where f: "fats s p = f\<lparr>root_dir_count := k\<rparr>" and d: "disks s q = d" and serve: "fat_serving dev content q p s"
    using assms(1) unfolding mounted_def by blast
  have "chain (disk_view content q s) (fats s p) cs" "\<forall>c \<in> set cs. table_has (fats s p) (disks s q) c"
    using assms(2) by (simp_all add: f d chain_dir_def readable_def)
  from count_clusters_chain [OF this(1) serve this(2), of fr 1] show ?thesis
    using outside_keeps by (auto simp: dir_cluster_def)
qed

lemma set_root_dir_count_mounted:
  assumes "mounted h dev content q p d f s" and "root_dir (view content d) f d N entry"
  shows "\<exists>t. set_root_dir_count dev fr p s = Some t \<and> mounted h dev content q p d f t \<and> keeps fr (dmem s) (dmem t) \<and>
    root_dir_count (fats t p) = of_nat N"
proof -
  obtain k where f: "fats s p = f\<lparr>root_dir_count := k\<rparr>" and k: "fat_type f = FAT16 \<longrightarrow> k = root_dir_count f"
    using assms(1) by (auto simp: mounted_def)
  show ?thesis
  proof (cases "fat_type f")
    case FAT16
    then have "set_root_dir_count dev fr p s = Some s" "root_dir_count (fats s p) = of_nat N"
      using assms(2) k by (auto simp: set_root_dir_count_def f root_dir_def)
    then show ?thesis
      using assms(1) by (simp add: keeps_def)
  next
    case FAT32
    then obtain cs where root: "hd cs = ucast (root_dir_cluster f)" "chain_dir (view content d) f d cs N"
      using assms(2) by (auto simp: root_dir_def)
    from dir_cluster_chain [OF assms(1) root(2), of fr] obtain t where
      t: "dir_cluster dev fr p (hd cs) s = Some (of_nat (length cs), t)" "quiet s t" "keeps fr (dmem s) (dmem t)"
      by blast
    have ft: "fats t p = f\<lparr>root_dir_count := k\<rparr>"
      by (simp add: quiet_fat [OF t(2)] f)
    let ?u = "t\<lparr>fats := (fats t)(p := (fats t p)\<lparr>root_dir_count := of_nat N\<rparr>)\<rparr>"
    have "set_root_dir_count dev fr p s = Some ?u"
      using FAT32 t(1) root(1) dir_count_chain [OF root(2)] by (simp add: set_root_dir_count_def f ft)
    moreover have "mounted h dev content q p d f t"
      using assms(1) by (simp add: mounted_quiet [OF t(2)])
    then have "mounted h dev content q p d f ?u"
      using FAT32 ft by (auto simp: mounted_def serving_def disk_list_def ids_distinct_def)
    ultimately show ?thesis
      using t(3) by simp
  qed
qed

section \<open>Paths\<close>

text \<open>The directory tree as the code reads it.  A place is the root, \<open>None\<close>, or an entry; \<open>lookup\<close> is one
  name in it, \<open>None\<close> when there is no file of the name or the place is no directory.\<close>

definition is_dir :: "fat_dir \<Rightarrow> bool" where
  "is_dir e \<longleftrightarrow> order e \<noteq> FLAG_DEL \<and> attribute e AND ATTR_DIR \<noteq> 0"

definition name_ok :: "u8 list \<Rightarrow> bool" where
  "name_ok x \<longleftrightarrow> x \<noteq> [] \<and> length x \<le> 819 \<and> 0x2f \<notin> set x"

definition directory :: "(nat \<Rightarrow> u8) \<Rightarrow> fat \<Rightarrow> disk \<Rightarrow> fat_dir option \<Rightarrow> nat \<Rightarrow> (nat \<Rightarrow> fat_dir) \<Rightarrow> bool" where
  "directory V f d place N entry \<longleftrightarrow> complete_dir entry N N \<and>
     (case place of None \<Rightarrow> root_dir V f d N entry | Some e \<Rightarrow> is_dir e \<and> sub_dir V f d e N entry)"

definition lookup :: "(nat \<Rightarrow> u8) \<Rightarrow> fat \<Rightarrow> disk \<Rightarrow> fat_dir option \<Rightarrow> u8 list \<Rightarrow> fat_dir option \<Rightarrow> bool" where
  "lookup V f d place x r \<longleftrightarrow> name_ok x \<and>
     ((\<exists>e. place = Some e \<and> \<not> is_dir e \<and> r = None) \<or>
      (\<exists>N entry. directory V f d place N entry \<and>
         r = map_option (\<lambda>k. entry (k + pieces x)) (find (names_file entry x) [0..<N])))"

definition represents :: "fat_dir \<Rightarrow> fat_dir option \<Rightarrow> bool" where
  "represents e place \<longleftrightarrow> (case place of None \<Rightarrow> reserved e = 0x2f | Some e' \<Rightarrow> e = e' \<and> reserved e \<noteq> 0x2f)"

definition found_as :: "fat_dir \<Rightarrow> fat_dir option \<Rightarrow> bool" where
  "found_as e r \<longleftrightarrow> (case r of None \<Rightarrow> order e = FLAG_DEL | Some e' \<Rightarrow> e = e' \<and> order e \<noteq> FLAG_DEL)"

lemma search_found:
  assumes "search_result entry x 0 N e"
  shows "found_as e (map_option (\<lambda>k. entry (k + pieces x)) (find (names_file entry x) [0..<N]))"
proof (cases "find (names_file entry x) [0..<N]")
  case (Some k)
  then have "names_file entry x k"
    by (auto simp: find_Some_iff)
  then show ?thesis
    using assms Some by (simp add: search_result_def found_as_def names_file_def is_std_def)
qed (use assms in \<open>simp add: search_result_def found_as_def\<close>)

lemma get_component_lookup:
  assumes "mounted h dev content q p d f s" and "frame_ok fr" and "represents file place"
    and "lookup (view content d) f d place x r" and "unat len = length x" and "name_at (scratch fr) a x s"
  shows "\<exists>e t. get_component dev fr p file a len s = Some (e, t) \<and> mounted h dev content q p d f t \<and>
    keeps fr (dmem s) (dmem t) \<and> found_as e r"
proof -
  have x: "name_fits len x"
    using assms(4, 5) by (simp add: lookup_def name_ok_def name_fits_def)
  note dir_cases = assms(4) [unfolded lookup_def]
  show ?thesis
  proof (cases place)
    case None
    then have root: "reserved file = 0x2f"
      using assms(3) by (simp add: represents_def)
    obtain N entry where dir: "root_dir (view content d) f d N entry" "complete_dir entry N N"
      and r: "r = map_option (\<lambda>k. entry (k + pieces x)) (find (names_file entry x) [0..<N])"
      using dir_cases None by (auto simp: directory_def)
    from set_root_dir_count_mounted [OF assms(1) dir(1)] obtain t where
      t: "set_root_dir_count dev fr p s = Some t" "mounted h dev content q p d f t" "keeps fr (dmem s) (dmem t)"
        "root_dir_count (fats t p) = of_nat N"
      by blast
    have "name_at (scratch fr) a x t"
      using assms(6) t(3) by (simp add: name_at_def keeps_def mem_bytes_def)
    from search_root [OF t(2) assms(2) dir x this] obtain e u where
      u: "find_entry (read_root_dir_entry dev fr p) (of_nat N) a len 0 (uninit_entry fr) t = Some (e, u)"
        "quiet t u" "keeps fr (dmem t) (dmem u)" "search_result entry x 0 N e"
      by blast
    have "get_component dev fr p file a len s = Some (e, u)"
      by (simp add: get_component_def root get_root_file_def t(1, 4) u(1))
    then show ?thesis
      using t(2) keeps_trans [OF t(3) u(3)] search_found [OF u(4)] by (simp add: mounted_quiet [OF u(2)] r)
  next
    case (Some e0)
    then have fl: "file = e0" "reserved file \<noteq> 0x2f"
      using assms(3) by (auto simp: represents_def)
    show ?thesis
    proof (cases "is_dir e0")
      case False
      then have "r = None"
        using dir_cases Some by (auto simp: directory_def)
      moreover have "get_component dev fr p file a len s = Some (set_deleted (uninit_entry fr), s)"
        using False fl by (auto simp: get_component_def get_file_def is_dir_def)
      moreover have "order (set_deleted (uninit_entry fr)) = FLAG_DEL"
        using assms(2) by (simp add: frame_ok_def set_deleted_def order_def)
      ultimately show ?thesis
        using assms(1) by (simp add: found_as_def keeps_def)
    next
      case True
      then obtain N entry cs where dir: "hd cs = entry_cluster f e0" "chain_dir (view content d) f d cs N"
          "entry = chain_entry (view content d) f cs" "complete_dir entry N N"
        and r: "r = map_option (\<lambda>k. entry (k + pieces x)) (find (names_file entry x) [0..<N])"
        using dir_cases Some by (auto simp: directory_def sub_dir_def)
      obtain k where f: "fats s p = f\<lparr>root_dir_count := k\<rparr>"
        using assms(1) unfolding mounted_def by blast
      from dir_cluster_chain [OF assms(1) dir(2), of fr] obtain t where
        t: "dir_cluster dev fr p (hd cs) s = Some (of_nat (length cs), t)" "quiet s t" "keeps fr (dmem s) (dmem t)"
        by blast
      have mt: "mounted h dev content q p d f t"
        using assms(1) by (simp add: mounted_quiet [OF t(2)])
      have "name_at (scratch fr) a x t"
        using assms(6) t(3) by (simp add: name_at_def keeps_def mem_bytes_def)
      from search_chain [OF mt assms(2) dir(2) dir(4) [unfolded dir(3)] x this] obtain e u where
        u: "find_entry (read_dir_entry dev fr p (hd cs)) (of_nat N) a len 0 (uninit_entry fr) t = Some (e, u)"
          "quiet t u" "keeps fr (dmem t) (dmem u)" "search_result entry x 0 N e"
        unfolding dir(3) by blast
      have "get_component dev fr p file a len s = Some (e, u)"
        using True fl t(1) u(1) dir_count_chain [OF dir(2)]
        by (simp add: get_component_def get_file_def is_dir_def f dir(1) quiet_fat [OF t(2)] Let_def)
      then show ?thesis
        using mt keeps_trans [OF t(3) u(3)] search_found [OF u(4)] by (simp add: mounted_quiet [OF u(2)] r)
    qed
  qed
qed

text \<open>A path is a list of names between slashes; empty names, as in front of a leading slash, are passed over.
  The result is \<open>None\<close> at the first name that is not there.\<close>

fun path_text :: "u8 list list \<Rightarrow> u8 list" where
  "path_text [] = []"
| "path_text [x] = x"
| "path_text (x # y # ys) = x @ 0x2f # path_text (y # ys)"

inductive resolves ::
    "(nat \<Rightarrow> u8) \<Rightarrow> fat \<Rightarrow> disk \<Rightarrow> fat_dir option \<Rightarrow> u8 list list \<Rightarrow> fat_dir option option \<Rightarrow> bool"
  for V f d where
  path_end: "resolves V f d place [] (Some place)"
| path_empty: "resolves V f d place xs r \<Longrightarrow> resolves V f d place ([] # xs) r"
| path_step: "lookup V f d place x (Some e) \<Longrightarrow> reserved e \<noteq> 0x2f \<Longrightarrow> resolves V f d (Some e) xs r \<Longrightarrow>
    resolves V f d place (x # xs) r"
| path_fail: "lookup V f d place x None \<Longrightarrow> resolves V f d place (x # xs) None"

inductive_cases resolves_NilE: "resolves V f d place [] r"

definition ends_as :: "fat_dir \<Rightarrow> fat_dir option option \<Rightarrow> bool" where
  "ends_as e r \<longleftrightarrow> (case r of None \<Rightarrow> order e = FLAG_DEL | Some place \<Rightarrow> represents e place)"

definition string_at :: "fat_frame \<Rightarrow> u32 \<Rightarrow> u8 list \<Rightarrow> disk_state \<Rightarrow> bool" where
  "string_at fr a xs s \<longleftrightarrow> cstring (dmem s) a xs \<and> (\<forall>j \<le> length xs. \<not> scratch fr (a + of_nat j)) \<and>
     a \<noteq> 0 \<and> unat a + length xs < 2 ^ 32"

lemma string_at_keeps: "string_at fr a xs s \<Longrightarrow> keeps fr (dmem s) (dmem t) \<Longrightarrow> string_at fr a xs t"
  unfolding string_at_def keeps_def by (metis cstring_cong)

lemma string_at_bytes:
  assumes "string_at fr a (xs @ ys) s"
  shows "name_at (scratch fr) a xs s" and "unat (of_nat (length xs) :: u32) = length xs"
proof -
  have "dmem s (a + of_nat j) = xs ! j" if "j < length xs" for j
    using cstring_nth [of "dmem s" a "xs @ ys" j] assms that by (simp add: string_at_def nth_append)
  then show "name_at (scratch fr) a xs s"
    using assms by (simp add: name_at_def mem_bytes_def string_at_def)
  have "length xs < 4294967296"
    using assms by (simp add: string_at_def)
  then show "unat (of_nat (length xs) :: u32) = length xs"
    by (rule unat_of_nat_u32)
qed

lemma cstring_tail: "cstring m a (xs @ x # ys) \<Longrightarrow> cstring m (a + of_nat (length xs) + 1) ys"
proof (induction xs arbitrary: a)
  case (Cons z zs)
  have e: "a + of_nat (length (z # zs)) + 1 = a + 1 + of_nat (length zs) + 1"
    by simp
  show ?case
    unfolding e by (rule Cons.IH) (use Cons.prems in simp)
qed simp

lemma string_at_tail:
  assumes "string_at fr a (xs @ x # ys) s"
  shows "string_at fr (a + of_nat (length xs) + 1) ys s"
proof -
  have at: "a + of_nat (length xs) + 1 = a + of_nat (length xs + 1)"
    by simp
  have le: "unat a + (length xs + 1) + length ys < 4294967296"
    using assms by (simp add: string_at_def)
  then have "unat (of_nat (length xs + 1) :: u32) = length xs + 1"
    by (intro unat_of_nat_u32) linarith
  then have u: "unat (a + of_nat (length xs + 1)) = unat a + (length xs + 1)"
    using le by (subst unat_add32) linarith+
  have "\<not> scratch fr (a + of_nat (length xs + 1) + of_nat j)" if "j \<le> length ys" for j
  proof -
    have "a + of_nat (length xs + 1) + of_nat j = a + of_nat (length xs + 1 + j)"
      by simp
    then show ?thesis
      using assms that unfolding string_at_def by (metis add_le_mono1 add.assoc add.commute length_Cons length_append plus_1_eq_Suc nat_add_left_cancel_le)
  qed
  moreover have "a + of_nat (length xs + 1) \<noteq> 0"
    using u by (metis add_is_0 unat_0 one_neq_zero)
  moreover have "cstring (dmem s) (a + of_nat (length xs + 1)) ys"
    using cstring_tail [of "dmem s" a xs x ys] assms by (simp only: string_at_def at)
  ultimately show ?thesis
    unfolding at string_at_def using le u by simp
qed

lemma walk_last:
  assumes "string_at fr a x s" and "0x2f \<notin> set x"
  shows "walk_path dev fr p a e s =
    (if x \<noteq> [] then get_component dev fr p e a (of_nat (length x)) s else Some (e, s))"
proof -
  have c: "cstring (dmem s) a x"
    using assms(1) by (simp add: string_at_def)
  have len: "unat (of_nat (length x) :: u32) = length x"
    using string_at_bytes(2) [of fr a x "[]" s] assms(1) by simp
  have "(of_nat (length x) :: u32) \<noteq> 0 \<longleftrightarrow> x \<noteq> []"
    unfolding unat_eq_0 [symmetric] len by simp
  moreover have "strchr a 0x2f (dmem s) = Some NULL"
    using strchr_correct [OF c, of "0x2f"] assms(2) by simp
  ultimately show ?thesis
    by (subst walk_path.simps) (simp add: strlen_correct [OF c])
qed

lemma walk_more:
  assumes "string_at fr a (x @ 0x2f # ys) s" and "0x2f \<notin> set x"
  shows "walk_path dev fr p a e s =
    do { (e1, s1) \<leftarrow> (if x \<noteq> [] then get_component dev fr p e a (of_nat (length x)) s else Some (e, s));
         if x \<noteq> [] \<and> order e1 = FLAG_DEL then Some (e1, s1)
         else walk_path dev fr p (a + of_nat (length x) + 1) e1 s1 }"
proof -
  have c: "cstring (dmem s) a (x @ 0x2f # ys)" and le: "unat a + length x < 4294967296" and "a \<noteq> 0"
    using assms(1) by (simp_all add: string_at_def)
  note len = string_at_bytes(2) [OF assms(1)]
  have "takeWhile (\<lambda>c. c \<noteq> 0x2f) (x @ 0x2f # ys) = x"
    using assms(2) by (induction x) auto
  then have slash: "strchr a 0x2f (dmem s) = Some (a + of_nat (length x))"
    using strchr_correct [OF c, of "0x2f"] by simp
  have "unat (a + of_nat (length x)) = unat a + length x"
    using le by (subst unat_add32) (simp_all add: len)
  then have "a + of_nat (length x) \<noteq> 0"
    using \<open>a \<noteq> 0\<close> by (metis add_is_0 unat_0 unat_eq_0)
  moreover have "(of_nat (length x) :: u32) \<noteq> 0 \<longleftrightarrow> x \<noteq> []"
    unfolding unat_eq_0 [symmetric] len by simp
  ultimately show ?thesis
    by (subst walk_path.simps) (simp add: slash add.assoc Let_def cong: if_cong)
qed

lemma path_text_Cons: "xs \<noteq> [] \<Longrightarrow> path_text (x # xs) = x @ 0x2f # path_text xs"
  by (cases xs) simp_all

text \<open>One name of the path and what is left of it.\<close>

lemma walk_component:
  assumes "mounted h dev content q p d f s" and "frame_ok fr" and "represents e place"
    and "lookup (view content d) f d place x r" and "string_at fr a (path_text (x # xs)) s"
  shows "\<exists>e1 t. mounted h dev content q p d f t \<and> keeps fr (dmem s) (dmem t) \<and> found_as e1 r \<and>
    walk_path dev fr p a e s =
      (if xs = [] \<or> r = None then Some (e1, t) else walk_path dev fr p (a + of_nat (length x) + 1) e1 t)"
proof -
  have x: "x \<noteq> []" "0x2f \<notin> set x"
    using assms(4) by (simp_all add: lookup_def name_ok_def)
  obtain ys where ys: "string_at fr a (x @ ys) s"
    using assms(5) that [of "[]"] that [of "0x2f # path_text xs"] by (cases "xs = []") (auto simp: path_text_Cons)
  obtain e1 t where get: "get_component dev fr p e a (of_nat (length x)) s = Some (e1, t)"
    "mounted h dev content q p d f t" "keeps fr (dmem s) (dmem t)" "found_as e1 r"
    using get_component_lookup [OF assms(1-4) string_at_bytes(2) [OF ys] string_at_bytes(1) [OF ys]] by blast
  have del: "order e1 = FLAG_DEL \<longleftrightarrow> r = None"
    using get(4) by (auto simp: found_as_def split: option.splits)
  have "walk_path dev fr p a e s =
      (if xs = [] \<or> r = None then Some (e1, t) else walk_path dev fr p (a + of_nat (length x) + 1) e1 t)"
  proof (cases "xs = []")
    case True
    then show ?thesis
      using walk_last [OF _ x(2), of fr a s dev p e] assms(5) x(1) get(1) by simp
  next
    case False
    then have "string_at fr a (x @ 0x2f # path_text xs) s"
      using assms(5) by (simp add: path_text_Cons)
    from walk_more [OF this x(2), of dev p e] show ?thesis
      using x(1) get(1) del False by simp
  qed
  then show ?thesis
    using get by blast
qed

lemma walk_resolves:
  assumes "resolves (view content d) f d place xs r" and "mounted h dev content q p d f s" and "frame_ok fr"
    and "represents e place" and "string_at fr a (path_text xs) s"
  shows "\<exists>e1 t. walk_path dev fr p a e s = Some (e1, t) \<and> mounted h dev content q p d f t \<and>
    keeps fr (dmem s) (dmem t) \<and> ends_as e1 r"
  using assms(1, 2, 4, 5)
proof (induction arbitrary: a e s rule: resolves.induct)
  case (path_end place)
  then show ?case
    using walk_last [of fr a "[]" s dev p e] by (auto simp: ends_as_def keeps_def)
next
  case (path_empty place xs r)
  show ?case
  proof (cases "xs = []")
    case True
    then have "r = Some place"
      using path_empty.hyps by (auto elim: resolves_NilE)
    then show ?thesis
      using True path_empty.prems walk_last [of fr a "[]" s dev p e] by (auto simp: ends_as_def keeps_def)
  next
    case False
    then have st: "string_at fr a ([] @ 0x2f # path_text xs) s"
      using path_empty.prems(3) by (simp add: path_text_Cons)
    from path_empty.IH [OF path_empty.prems(1, 2) string_at_tail [OF st]] show ?thesis
      using walk_more [OF st, of dev p e] by simp
  qed
next
  case (path_step place x e' xs r)
  from walk_component [OF path_step.prems(1) assms(3) path_step.prems(2) path_step.hyps(1) path_step.prems(3)] obtain e1 t where
    t: "mounted h dev content q p d f t" "keeps fr (dmem s) (dmem t)" "found_as e1 (Some e')"
    and run: "walk_path dev fr p a e s =
      (if xs = [] then Some (e1, t) else walk_path dev fr p (a + of_nat (length x) + 1) e1 t)"
    by auto
  have e': "represents e1 (Some e')"
    using t(3) path_step.hyps(2) by (auto simp: found_as_def represents_def)
  show ?case
  proof (cases "xs = []")
    case True
    then have "r = Some (Some e')"
      using path_step.hyps(3) by (auto elim: resolves_NilE)
    then show ?thesis
      using True run t(1, 2) e' by (auto simp: ends_as_def)
  next
    case False
    then have "string_at fr a (x @ 0x2f # path_text xs) t"
      using path_step.prems(3) string_at_keeps t(2) by (simp add: path_text_Cons)
    from path_step.IH [OF t(1) e' string_at_tail [OF this]] show ?thesis
      using False run keeps_trans [OF t(2)] by auto
  qed
next
  case (path_fail place x xs)
  from walk_component [OF path_fail.prems(1) assms(3) path_fail.prems(2) path_fail.hyps path_fail.prems(3)] show ?case
    by (auto simp: found_as_def ends_as_def)
qed

lemma get_path_resolves:
  assumes "resolves (view content d) f d None xs r" and "mounted h dev content q p d f s" and "frame_ok fr"
    and "string_at fr a (path_text xs) s"
  shows "\<exists>e t. get_path dev fr p a s = Some (e, t) \<and> mounted h dev content q p d f t \<and>
    keeps fr (dmem s) (dmem t) \<and> ends_as e r"
proof -
  have "represents ((uninit_entry fr)[12 := 0x2f]) None"
    using assms(3) by (simp add: represents_def frame_ok_def reserved_def)
  from walk_resolves [OF assms(1-3) this assms(4)] show ?thesis
    by (simp add: get_path_def)
qed

section \<open>Reading a file\<close>

lemma read_file_chain:
  assumes "mounted h dev content q p d f s" and "order e \<noteq> FLAG_DEL" and "attribute e AND ATTR_ARCHIVE \<noteq> 0"
    and "chain (view content d) f cs" and "hd cs = entry_cluster f e" and "readable f d cs"
    and "unat (file_size e) \<le> length cs * unat (cluster_size f)"
    and "unat off < unat (file_size e)" and "k = min (unat count) (unat (file_size e) - unat off)"
    and "0 < k" and "k < 2 ^ 31" and "aligned f off (of_nat k)"
  shows "\<exists>t. read_file dev fr p e buf count off s = Some (int k, t) \<and> mounted h dev content q p d f t \<and>
    (\<forall>x. \<not> unat (x - next_at fr) < 4 \<longrightarrow> dmem t x = (if unat (x - buf) < k
      then cluster_byte (view content d) f cs (unat off + unat (x - buf)) else dmem s x))"
proof -
  obtain rc where f: "fats s p = f\<lparr>root_dir_count := rc\<rparr>" and d: "disks s q = d" and serve: "fat_serving dev content q p s"
    using assms(1) unfolding mounted_def by blast
  have k: "unat (of_nat k :: u32) = k"
    using assms(11) by (intro unat_of_nat_u32) simp
  define cnt where "cnt = (if off + ucast count > ucast (file_size e) then ucast (ucast (file_size e) - off) else count)"
  have bound: "unat (file_size e) < 4294967296" "unat count < 4294967296"
    by (rule unat_u32_less)+
  then have "unat off + unat count < 18446744073709551616"
    using assms(8) by linarith
  then have sum: "unat (off + ucast count) = unat off + unat count"
    by (subst unat_add_nowrap) (simp_all add: unat_ucast_up)
  have "unat (ucast (file_size e) - off) = unat (file_size e) - unat off"
    using assms(8) by (subst unat_sub) (simp_all add: word_le_nat_alt unat_ucast_up)
  moreover have "(unat (file_size e) - unat off) mod 4294967296 = unat (file_size e) - unat off"
    using bound(1) by (intro mod_less) linarith
  ultimately have "unat (ucast (ucast (file_size e) - off) :: u32) = unat (file_size e) - unat off"
    by (simp add: unsigned_ucast_eq take_bit_eq_mod)
  moreover have "off + ucast count > ucast (file_size e) \<longleftrightarrow> unat off + unat count > unat (file_size e)"
    by (simp add: word_less_nat_alt sum unat_ucast_up)
  ultimately have "unat cnt = k"
    using assms(9) by (auto simp: cnt_def)
  then have cnt: "cnt = of_nat k"
    by (simp add: word_unat_eq_iff k)
  have "\<not> off \<ge> ucast (file_size e)"
    using assms(8) by (simp add: word_le_nat_alt unat_ucast_up)
  then have run: "read_file dev fr p e buf count off s = read_cluster dev fr p buf (hd cs) (of_nat k) off s"
    using assms(2, 3, 5) by (simp add: read_file_def cnt_def [symmetric] cnt f)
  have "k \<le> unat (file_size e) - unat off"
    by (simp add: assms(9))
  have "chain (disk_view content q s) (fats s p) cs" "readable (fats s p) (disks s q) cs"
    "aligned (fats s p) off (of_nat k)" "unat off + unat (of_nat k :: u32) \<le> length cs * unat (cluster_size (fats s p))"
    "0 < unat (of_nat k :: u32)" "unat (of_nat k :: u32) < 2 ^ 31"
    using assms(4, 6-8, 10-12) \<open>k \<le> unat (file_size e) - unat off\<close> by (simp_all add: f d k aligned_def)
  from read_cluster_chain [OF this(1) serve this(2-6), of fr buf] obtain t where
    t: "read_cluster dev fr p buf (hd cs) (of_nat k) off s = Some (int k, t)" "quiet s t"
    and m: "\<forall>x. \<not> unat (x - next_at fr) < 4 \<longrightarrow> dmem t x = (if unat (x - buf) < k
      then cluster_byte (view content d) f cs (unat off + unat (x - buf)) else dmem s x)"
    unfolding k d f root_count_irrelevant by blast
  show ?thesis
    using run t m assms(1) by (auto simp: mounted_quiet [OF t(2)])
qed

lemma fat_read_correct:
  assumes "resolves (view content d) f d None xs (Some (Some e))" and "mounted h dev content q p d f s" and "frame_ok fr"
    and "string_at fr a (path_text xs) s" and "order e \<noteq> FLAG_DEL" and "attribute e AND ATTR_ARCHIVE \<noteq> 0"
    and "chain (view content d) f cs" and "hd cs = entry_cluster f e" and "readable f d cs"
    and "unat (file_size e) \<le> length cs * unat (cluster_size f)"
    and "unat off < unat (file_size e)" and "k = min (unat count) (unat (file_size e) - unat off)"
    and "0 < k" and "k < 2 ^ 31" and "aligned f off (of_nat k)"
  shows "\<exists>t. fat_read dev fr p a buf count off s = Some (int k, t) \<and> mounted h dev content q p d f t \<and>
    (\<forall>x. \<not> scratch fr x \<longrightarrow> dmem t x = (if unat (x - buf) < k
      then cluster_byte (view content d) f cs (unat off + unat (x - buf)) else dmem s x))"
proof -
  obtain t where t: "get_path dev fr p a s = Some (e, t)" "mounted h dev content q p d f t" "keeps fr (dmem s) (dmem t)"
    "reserved e \<noteq> 0x2f"
    using get_path_resolves [OF assms(1-4)] by (auto simp: ends_as_def represents_def)
  from read_file_chain [OF t(2) assms(5-15), of fr buf] obtain u where
    u: "read_file dev fr p e buf count off t = Some (int k, u)" "mounted h dev content q p d f u"
    and m: "\<forall>x. \<not> unat (x - next_at fr) < 4 \<longrightarrow> dmem u x = (if unat (x - buf) < k
      then cluster_byte (view content d) f cs (unat off + unat (x - buf)) else dmem t x)"
    by blast
  have "dmem u x = (if unat (x - buf) < k then cluster_byte (view content d) f cs (unat off + unat (x - buf)) else dmem s x)"
    if "\<not> scratch fr x" for x
    using m t(3) that by (simp add: scratch_def keeps_def)
  then show ?thesis
    using u t(1, 4) by (intro exI [of _ u]) (simp add: fat_read_def)
qed

lemma fat_read_missing:
  assumes "resolves (view content d) f d None xs r" and "r = None \<or> r = Some None" and "mounted h dev content q p d f s"
    and "frame_ok fr" and "string_at fr a (path_text xs) s"
  shows "\<exists>t. fat_read dev fr p a buf count off s = Some (-1, t) \<and> mounted h dev content q p d f t \<and> keeps fr (dmem s) (dmem t)"
proof -
  obtain e t where t: "get_path dev fr p a s = Some (e, t)" "mounted h dev content q p d f t" "keeps fr (dmem s) (dmem t)"
    and e: "ends_as e r"
    using get_path_resolves [OF assms(1, 3-5)] by blast
  have "order e = FLAG_DEL \<or> reserved e = 0x2f"
    using e assms(2) by (auto simp: ends_as_def represents_def)
  then have "fat_read dev fr p a buf count off s = Some (-1, t)"
    using t(1) by (auto simp: fat_read_def read_file_def)
  then show ?thesis
    using t(2, 3) by blast
qed

section \<open>Properties\<close>

definition sample_volume :: disk_state where
  "sample_volume = sample_disks\<lparr>dmem := (\<lambda>_. 7)(0x6000 := 0x2f, 0x6001 := 0x61, 0x6002 := 0x62, 0x6003 := 0,
     0x6100 := 0x63, 0x6101 := 0)\<rparr>"

abbreviation (input) sample_V :: "nat \<Rightarrow> u8" where
  "sample_V \<equiv> disk_view sample_content 0x1000 sample_volume"

lemma sample_volume_mounted:
  "mounted heap_sample sample_drive sample_content 0x1000 p (disks sample_volume 0x1000) (fats sample_volume p) sample_volume"
proof -
  have q: "quiet sample_disks sample_volume"
    by (simp add: sample_volume_def)
  have "fat_serving sample_drive sample_content 0x1000 p sample_volume"
    using sample_serving by (simp only: quiet_fat [OF q])
  then show ?thesis
    unfolding mounted_def
    by (intro conjI refl exI [of _ "root_dir_count (fats sample_volume p)"]) (simp_all add: sample_volume_def sample_disks_def)
qed

lemma sample_volume_simps:
  "fats sample_volume = fats sample_disks" "disks sample_volume = disks sample_disks"
  by (simp_all add: sample_volume_def)

lemma sample_frame_ok: "frame_ok sample_frame"
  by (simp add: frame_ok_def sample_frame_def) (auto intro: apartI apart_sym [OF apartI])

lemma sample_entry_byte:
  assumes "i < 32"
  shows "root_entry (disk_view sample_content 0x1000 sample_disks) (fats sample_disks p) k ! i = sample_content (6144 + k * 32 + i)"
  using assms by (simp add: root_entry_def sample_disk_simps view_def add.assoc del: upt_rec_numeral)

lemma sample_only_lfn:
  assumes "k < 16" and "is_lfn (root_entry (disk_view sample_content 0x1000 sample_disks) (fats sample_disks p) k)"
  shows "k = 0"
proof (rule ccontr)
  assume "k \<noteq> 0"
  then consider "k = 1" | "2 \<le> k"
    by linarith
  then show False
    using assms by cases (simp_all add: is_lfn_def attribute_def sample_entry_byte sample_content_def sample_root_def)
qed

lemma sample_root_dir:
  "directory (disk_view sample_content 0x1000 sample_disks) (fats sample_disks p) (disks sample_disks 0x1000) None 16
     (root_entry (disk_view sample_content 0x1000 sample_disks) (fats sample_disks p))"
proof -
  have "unat (lfn_number (root_entry (disk_view sample_content 0x1000 sample_disks) (fats sample_disks p) 0)) < 16"
    by (simp add: lfn_number_def order_def sample_entry_byte sample_content_def sample_root_def)
  then have "k + unat (lfn_number (root_entry (disk_view sample_content 0x1000 sample_disks) (fats sample_disks p) k)) < 16"
    if "k < 16" "is_lfn (root_entry (disk_view sample_content 0x1000 sample_disks) (fats sample_disks p) k)" for k
    using sample_only_lfn [OF that] by simp
  then show ?thesis
    by (simp add: complete_dir_def directory_def root_dir_def sample_disk_simps root_has_def)
qed

lemma sample_names:
  "names_file (root_entry (disk_view sample_content 0x1000 sample_disks) (fats sample_disks p)) [0x61, 0x62] 0"
  by (simp add: names_file_def head_ok_def is_lfn_def is_last_def is_std_def pieces_def holds_piece_def piece_def
      list_all2_conv_all_nth All_less_Suc same_char_def lfn_char_def half_def
      attribute_def lfn_number_def order_def sample_entry_byte sample_content_def sample_root_def)

lemma sample_lookup:
  "lookup (disk_view sample_content 0x1000 sample_disks) (fats sample_disks p) (disks sample_disks 0x1000) None [0x61, 0x62]
     (Some (root_entry (disk_view sample_content 0x1000 sample_disks) (fats sample_disks p) 1))"
  "lookup (disk_view sample_content 0x1000 sample_disks) (fats sample_disks p) (disks sample_disks 0x1000) None [0x63] None"
proof -
  let ?e = "root_entry (disk_view sample_content 0x1000 sample_disks) (fats sample_disks p)"
  have found: "find (names_file ?e [0x61, 0x62]) [0..<16] = Some 0"
    using sample_names [of p] by (subst upt_conv_Cons) simp_all
  have "\<not> names_file ?e [0x63] k" if "k < 16" for k
  proof
    assume names: "names_file ?e [0x63] k"
    then have "k = 0"
      using sample_only_lfn [OF that, of p] by (simp add: names_file_def head_ok_def)
    then show False
      using names by (simp add: names_file_def head_ok_def holds_piece_def piece_def pieces_def list_all2_conv_all_nth
          same_char_def lfn_char_def half_def sample_entry_byte sample_content_def sample_root_def)
  qed
  then have missing: "find (names_file ?e [0x63]) [0..<16] = None"
    by (auto simp: find_None_iff)
  note dir = sample_root_dir [of p]
  show "lookup (disk_view sample_content 0x1000 sample_disks) (fats sample_disks p) (disks sample_disks 0x1000) None
      [0x61, 0x62] (Some (?e 1))"
    unfolding lookup_def using dir found
    by (intro conjI disjI2 exI [of _ "16 :: nat"] exI [of _ ?e]) (simp_all add: name_ok_def pieces_def del: upt_rec_numeral)
  show "lookup (disk_view sample_content 0x1000 sample_disks) (fats sample_disks p) (disks sample_disks 0x1000) None [0x63] None"
    unfolding lookup_def using dir missing
    by (intro conjI disjI2 exI [of _ "16 :: nat"] exI [of _ ?e]) (simp_all add: name_ok_def del: upt_rec_numeral)
qed

lemma sample_strings:
  "string_at sample_frame 0x6000 [0x2f, 0x61, 0x62] sample_volume" "string_at sample_frame 0x6100 [0x63] sample_volume"
proof -
  have "\<not> scratch sample_frame (0x6000 + of_nat j)" if "j \<le> 3" for j
  proof -
    have "j = 0 \<or> j = 1 \<or> j = 2 \<or> j = 3"
      using that by arith
    then show ?thesis
      by (elim disjE) (simp_all add: scratch_def sample_frame_def)
  qed
  then show "string_at sample_frame 0x6000 [0x2f, 0x61, 0x62] sample_volume"
    by (simp add: string_at_def sample_volume_def)
  have "\<not> scratch sample_frame (0x6100 + of_nat j)" if "j \<le> 1" for j
  proof -
    have "j = 0 \<or> j = 1"
      using that by arith
    then show ?thesis
      by (elim disjE) (simp_all add: scratch_def sample_frame_def)
  qed
  then show "string_at sample_frame 0x6100 [0x63] sample_volume"
    by (simp add: string_at_def sample_volume_def)
qed

text \<open>C9. Reading a file by its path on a mounted volume: when the names of the path lead to the entry \<open>e\<close> of
  a file whose clusters are the chain \<open>cs\<close>, \<open>fat_read\<close> stores the bytes of the file from the offset on, as
  many as are asked for or are left of the file, at the buffer, and reports their number.  The request
  starts at a cluster boundary or ends in the cluster it starts in.\<close>

theorem fat_read_file:
  assumes "resolves (view content d) f d None xs (Some (Some e))" and "mounted h dev content q p d f s" and "frame_ok fr"
    and "string_at fr a (path_text xs) s" and "order e \<noteq> FLAG_DEL" and "attribute e AND ATTR_ARCHIVE \<noteq> 0"
    and "chain (view content d) f cs" and "hd cs = entry_cluster f e" and "readable f d cs"
    and "unat (file_size e) \<le> length cs * unat (cluster_size f)"
    and "unat off < unat (file_size e)" and "k = min (unat count) (unat (file_size e) - unat off)"
    and "0 < k" and "k < 2 ^ 31" and "aligned f off (of_nat k)"
  shows "\<exists>t. fat_read dev fr p a buf count off s = Some (int k, t) \<and> mounted h dev content q p d f t \<and>
    (\<forall>x. \<not> scratch fr x \<longrightarrow> dmem t x = (if unat (x - buf) < k
      then cluster_byte (view content d) f cs (unat off + unat (x - buf)) else dmem s x))"
  by (rule fat_read_correct [OF assms])

theorem fat_read_file_witness:
  "\<exists>t. fat_read sample_drive sample_frame 0x3000 0x6000 0x5000 1000 512 sample_volume = Some (688, t) \<and>
     dmem t 0x5000 = 14 \<and> dmem t 0x51ff = 14 \<and> dmem t 0x5200 = 16 \<and> dmem t 0x52af = 16 \<and> dmem t 0x52b0 = 7"
proof -
  let ?V = "disk_view sample_content 0x1000 sample_disks" and ?f = "fats sample_disks 0x3000"
  let ?e = "root_entry ?V ?f 1"
  note bytes = sample_entry_byte sample_content_def sample_root_def
  have e: "order ?e \<noteq> FLAG_DEL" "attribute ?e AND ATTR_ARCHIVE \<noteq> 0" "reserved ?e \<noteq> 0x2f" "hd [2, 3, 5] = entry_cluster ?f ?e"
    "unat (file_size ?e) = 1200"
    by (simp_all add: order_def attribute_def reserved_def entry_cluster_def first_cluster_low_def file_size_def half_def
        sample_disk_simps bytes)
  have "resolves ?V ?f (disks sample_disks 0x1000) None [[], [0x61, 0x62]] (Some (Some ?e))"
    by (intro path_empty path_step [OF sample_lookup(1)] path_end e(3))
  moreover have "string_at sample_frame 0x6000 (path_text [[], [0x61, 0x62]]) sample_volume"
    using sample_strings(1) by simp
  moreover have "chain ?V ?f [2, 3, 5]"
    by (simp add: sample_link)
  moreover have "aligned ?f 512 (of_nat 688)"
    by (simp add: aligned_def sample_disk_simps)
  ultimately obtain t where
    "fat_read sample_drive sample_frame 0x3000 0x6000 0x5000 1000 512 sample_volume = Some (688, t)"
    and m: "\<And>x. \<not> scratch sample_frame x \<Longrightarrow> dmem t x = (if unat (x - 0x5000) < 688
      then cluster_byte ?V ?f [2, 3, 5] (512 + unat (x - 0x5000)) else dmem sample_volume x)"
    using fat_read_file [OF _ sample_volume_mounted [of "0x3000", unfolded sample_volume_simps] sample_frame_ok _ e(1, 2) _
        e(4) sample_readable, where off = 512 and count = 1000 and k = 688 and a = "0x6000" and buf = "0x5000"
        and xs = "[[], [0x61, 0x62]]"] e(5)
    by (auto simp: sample_disk_simps)
  then show ?thesis
    by (intro exI [of _ t]) (simp add: m scratch_def sample_frame_def cluster_byte_def sample_disk_simps cluster_pos_def
        view_def sample_content_def sample_volume_def)
qed

text \<open>C39. A path that leads nowhere, through a name that is not there or through a file as if it were a
  directory, and a path to the root itself make \<open>fat_read\<close> report -1 and store nothing in the buffer.\<close>

theorem fat_read_no_file:
  assumes "resolves (view content d) f d None xs r" and "r = None \<or> r = Some None" and "mounted h dev content q p d f s"
    and "frame_ok fr" and "string_at fr a (path_text xs) s"
  shows "\<exists>t. fat_read dev fr p a buf count off s = Some (-1, t) \<and> mounted h dev content q p d f t \<and>
    (\<forall>x. \<not> scratch fr x \<longrightarrow> dmem t x = dmem s x)"
  using fat_read_missing [OF assms, of buf count off] by (simp add: keeps_def)

theorem fat_read_no_file_witness:
  "\<exists>t. fat_read sample_drive sample_frame 0x3000 0x6100 0x5000 1000 0 sample_volume = Some (-1, t) \<and> dmem t 0x5000 = 7"
proof -
  have "string_at sample_frame 0x6100 (path_text [[0x63]]) sample_volume"
    using sample_strings(2) by simp
  from fat_read_no_file [OF path_fail [OF sample_lookup(2) [of "0x3000"]] _ sample_volume_mounted [of "0x3000", unfolded sample_volume_simps]
      sample_frame_ok this, of "0x5000" 1000 0]
  show ?thesis
    by (auto simp: scratch_def sample_frame_def sample_volume_def)
qed

end
