(* ===== verification/Fs.thy ===== *)
theory Fs
  imports FatDir
begin

text \<open>
  The file operations between the disks and the file systems: \<open>src/kernel/fs/fs.c\<close>, the file operations of
  \<open>src/kernel/dev/disk.c\<close> and \<open>src/kernel/dev/file.c\<close>.
\<close>

section \<open>File systems\<close>

text \<open>A directory listing of a disk with no file system leaves all but the length of the name uninitialised.\<close>

definition fs_readdir :: "drive \<Rightarrow> fat_frame \<Rightarrow> fs \<Rightarrow> u32 \<Rightarrow> u32 \<Rightarrow> disk_state \<Rightarrow> (file_t \<times> disk_state) option" where
  "fs_readdir dev fr fs path n s =
     (case fs_type fs of FS_FAT \<Rightarrow> fat_readdir dev fr (info fs) path n s | FS_RAW \<Rightarrow> Some (no_file fr s))"

definition fs_read :: "drive \<Rightarrow> fat_frame \<Rightarrow> fs \<Rightarrow> u32 \<Rightarrow> u32 \<Rightarrow> u32 \<Rightarrow> u64 \<Rightarrow> disk_state \<Rightarrow> (int \<times> disk_state) option" where
  "fs_read dev fr fs path buf count offect s =
     (case fs_type fs of FS_FAT \<Rightarrow> fat_read dev fr (info fs) path buf count offect s | FS_RAW \<Rightarrow> Some (-1, s))"

definition fs_write :: "fs \<Rightarrow> u32 \<Rightarrow> u32 \<Rightarrow> u32 \<Rightarrow> u64 \<Rightarrow> disk_state \<Rightarrow> int \<times> disk_state" where
  "fs_write fs path buf count offect s =
     (case fs_type fs of FS_FAT \<Rightarrow> fat_write (info fs) path buf count offect s | FS_RAW \<Rightarrow> (-1, s))"

definition fs_free :: "fs \<Rightarrow> disk_state \<Rightarrow> disk_state" where
  "fs_free fs s = s"

definition disk_fs_init :: "drive \<Rightarrow> fat_frame \<Rightarrow> u32 \<Rightarrow> disk_state \<Rightarrow> (fs \<times> disk_state) option" where
  "disk_fs_init dev fr n s =
     do { (p, s1) \<leftarrow> fat_init dev fr n s;
          Some (\<lparr>fs_type = if p \<noteq> NULL then FS_FAT else FS_RAW, info = p\<rparr>, s1) }"

section \<open>Files of a disk\<close>

definition disk_readdir :: "drive \<Rightarrow> fat_frame \<Rightarrow> u32 \<Rightarrow> u32 \<Rightarrow> u32 \<Rightarrow> disk_state \<Rightarrow> (file_t \<times> disk_state) option" where
  "disk_readdir dev fr disk path n s =
     do { p \<leftarrow> get_disk disk s;
          if p = NULL then Some (no_file fr s) else fs_readdir dev fr (d_fs (disks s p)) path n s }"

definition disk_fread ::
    "drive \<Rightarrow> fat_frame \<Rightarrow> u32 \<Rightarrow> u32 \<Rightarrow> u32 \<Rightarrow> u32 \<Rightarrow> u64 \<Rightarrow> disk_state \<Rightarrow> (int \<times> disk_state) option" where
  "disk_fread dev fr disk path buf count offect s =
     do { p \<leftarrow> get_disk disk s;
          if p = NULL then Some (-1, s) else fs_read dev fr (d_fs (disks s p)) path buf count offect s }"

definition disk_fwrite :: "u32 \<Rightarrow> u32 \<Rightarrow> u32 \<Rightarrow> u32 \<Rightarrow> u64 \<Rightarrow> disk_state \<Rightarrow> (int \<times> disk_state) option" where
  "disk_fwrite disk path buf count offect s =
     do { p \<leftarrow> get_disk disk s;
          Some (if p = NULL then (-1, s) else fs_write (d_fs (disks s p)) path buf count offect s) }"

section \<open>Files of the current disk\<close>

record file_state = disk_state +
  cur_disk :: u32

definition on_disks :: "(disk_state \<Rightarrow> ('r \<times> disk_state) option) \<Rightarrow> file_state \<Rightarrow> ('r \<times> file_state) option" where
  "on_disks op s = do { (r, t) \<leftarrow> op (disk_state.truncate s); Some (r, disk_state.extend t (file_state.fields (cur_disk s))) }"

definition set_disk :: "u32 \<Rightarrow> file_state \<Rightarrow> file_state" where
  "set_disk n s = s\<lparr>cur_disk := n\<rparr>"

definition file_readdir :: "drive \<Rightarrow> fat_frame \<Rightarrow> u32 \<Rightarrow> u32 \<Rightarrow> file_state \<Rightarrow> (file_t \<times> file_state) option" where
  "file_readdir dev fr path n s = on_disks (disk_readdir dev fr (cur_disk s) path n) s"

definition file_read :: "drive \<Rightarrow> fat_frame \<Rightarrow> u32 \<Rightarrow> u32 \<Rightarrow> u32 \<Rightarrow> u64 \<Rightarrow> file_state \<Rightarrow> (int \<times> file_state) option" where
  "file_read dev fr path buf count offect s = on_disks (disk_fread dev fr (cur_disk s) path buf count offect) s"

definition file_write :: "u32 \<Rightarrow> u32 \<Rightarrow> u32 \<Rightarrow> u64 \<Rightarrow> file_state \<Rightarrow> (int \<times> file_state) option" where
  "file_write path buf count offect s = on_disks (disk_fwrite (cur_disk s) path buf count offect) s"

end
