(* ===== verification/Partition.thy ===== *)
theory Partition
  imports Fs
begin

text \<open>
  New disks, the partitions on them and their removal: \<open>disk_create\<close>, \<open>disk_mmap\<close>, \<open>disk_remove\<close> and
  \<open>disk_init\<close> of \<open>src/kernel/dev/disk.c\<close>, and \<open>src/kernel/dev/part.c\<close>, \<open>part/mbr.c\<close> and \<open>part/gpt.c\<close>.  The
  partition tables are read into local variables, which lie at the addresses of a \<open>part_frame\<close>;
  the master boot record has one for each depth of the recursion over extended partitions.
\<close>

abbreviation TYPE_EMPTY :: u8 where "TYPE_EMPTY \<equiv> 0x00"
abbreviation TYPE_EXT :: u8 where "TYPE_EXT \<equiv> 0x05"
abbreviation TYPE_GPT :: u8 where "TYPE_GPT \<equiv> 0xee"

record part_frame =
  mbr_at :: "nat \<Rightarrow> u32"
  gpt_at :: u32
  gpt_entry_at :: u32
  fat_fr :: fat_frame

definition get64 :: "memory \<Rightarrow> u32 \<Rightarrow> u64" where
  "get64 m a = ucast (get32 m a) OR push_bit 32 (ucast (get32 m (a + 4)))"

section \<open>New disks\<close>

definition link_disk :: "u32 \<Rightarrow> disk_state \<Rightarrow> disk_state" where
  "link_disk p s = (if pos s \<noteq> NULL then upd_disk (pos s) (\<lambda>d. d\<lparr>d_next := p\<rparr>) s else s)\<lparr>pos := p\<rparr>"

definition mount :: "drive \<Rightarrow> fat_frame \<Rightarrow> u32 \<Rightarrow> disk_state \<Rightarrow> (int \<times> disk_state) option" where
  "mount dev fr p s =
     do { (f, s1) \<leftarrow> disk_fs_init dev fr (d_id (disks s p)) s;
          let s2 = upd_disk p (\<lambda>d. d\<lparr>d_fs := f\<rparr>) s1 in
          Some (sint (d_id (disks s2 p)), s2) }"

definition disk_mmap :: "drive \<Rightarrow> fat_frame \<Rightarrow> u32 \<Rightarrow> u64 \<Rightarrow> u64 \<Rightarrow> disk_state \<Rightarrow> (int \<times> disk_state) option" where
  "disk_mmap dev fr n start count s =
     do { q \<leftarrow> get_disk n s;
          if q = NULL then Some (-1, s)
          else if start + count > sector_count (disks s q) then Some (-1, s)
          else
            do { (p, hp) \<leftarrow> kmalloc 56 (heap s);
                 if p = NULL then Some (-1, s\<lparr>heap := hp\<rparr>)
                 else
                   (let pd = disks s q;
                        s1 = upd_disk p (\<lambda>d. \<lparr>d_id = new_id s, dev_type = dev_type pd, dev_id = dev_id pd,
                               start_sector = start_sector pd + start, sector_count = count, d_fs = d_fs d,
                               part_id = part_count pd, part_count = 0, pdisk = q, d_last = pos s, d_next = NULL\<rparr>)
                             (upd_disk q (\<lambda>d. d\<lparr>part_count := part_count d + 1\<rparr>)
                               (s\<lparr>heap := hp, new_id := new_id s + 1\<rparr>))
                    in mount dev fr p (link_disk p s1)) } }"

section \<open>Partition tables\<close>

text \<open>The entries of a GUID partition table; \<open>n\<close> counts the partitions.\<close>

partial_function (option) gpt_loop :: "drive \<Rightarrow> part_frame \<Rightarrow> u32 \<Rightarrow> u32 \<Rightarrow> u32 \<Rightarrow> disk_state \<Rightarrow> (u32 \<times> disk_state) option" where
  "gpt_loop dev pf disk i n s =
     (if i < get32 (dmem s) (gpt_at pf + 80) then
        do { size \<leftarrow> get_disk_sector_size disk s;
             (r, s1) \<leftarrow> disk_read dev disk (gpt_entry_at pf) 128
               (word_of_int size * get64 (dmem s) (gpt_at pf + 72) + ucast (i * get32 (dmem s) (gpt_at pf + 84))) s;
             let first = get64 (dmem s1) (gpt_entry_at pf + 32); final = get64 (dmem s1) (gpt_entry_at pf + 40) in
             if r \<noteq> -1 \<and> first \<noteq> 0 then
               do { (_, s2) \<leftarrow> disk_mmap dev (fat_fr pf) disk first (final - first + 1) s1;
                    gpt_loop dev pf disk (i + 1) (n + 1) s2 }
             else gpt_loop dev pf disk (i + 1) n s1 }
      else Some (n, s))"

definition gpt_part :: "drive \<Rightarrow> part_frame \<Rightarrow> u32 \<Rightarrow> disk_state \<Rightarrow> (u32 \<times> disk_state) option" where
  "gpt_part dev pf disk s =
     do { size \<leftarrow> get_disk_sector_size disk s;
          (r, s1) \<leftarrow> disk_read dev disk (gpt_at pf) 92 (word_of_int size) s;
          if r \<noteq> -1 \<and> get64 (dmem s1) (gpt_at pf) = 0x5452415020494645 then gpt_loop dev pf disk 0 0 s1
          else Some (0, s1) }"

definition read_mbr :: "drive \<Rightarrow> u32 \<Rightarrow> u32 \<Rightarrow> disk_state \<Rightarrow> (bool \<times> disk_state) option" where
  "read_mbr dev at disk s =
     do { (r, s1) \<leftarrow> disk_read dev disk at 66 0x1be s; Some (r \<noteq> -1 \<and> get16 (dmem s1) (at + 64) = 0xaa55, s1) }"

text \<open>The four entries of a master boot record, from entry \<open>i\<close> on.  An extended partition is a disk of its
  own, with a record of its own.\<close>

partial_function (option) mbr_loop ::
    "drive \<Rightarrow> part_frame \<Rightarrow> nat \<Rightarrow> u32 \<Rightarrow> nat \<Rightarrow> u32 \<Rightarrow> disk_state \<Rightarrow> (u32 \<times> disk_state) option" where
  "mbr_loop dev pf depth disk i n s =
     (if i < 4 then
        (let e = mbr_at pf depth + of_nat (16 * i); type = dmem s (e + 4);
             first = ucast (get32 (dmem s) (e + 8)); sectors = ucast (get32 (dmem s) (e + 12))
         in if type = TYPE_EXT then
              do { (r, s1) \<leftarrow> disk_mmap dev (fat_fr pf) disk first sectors s;
                   (ok, s2) \<leftarrow> read_mbr dev (mbr_at pf (depth + 1)) (word_of_int r) s1;
                   (k, s3) \<leftarrow> (if ok then mbr_loop dev pf (depth + 1) (word_of_int r) 0 0 s2 else Some (0, s2));
                   mbr_loop dev pf depth disk (i + 1) (n + k + 1) s3 }
            else if type = TYPE_GPT then
              do { (k, s1) \<leftarrow> gpt_part dev pf disk s; mbr_loop dev pf depth disk (i + 1) (n + k) s1 }
            else if type \<noteq> TYPE_EMPTY then
              do { (_, s1) \<leftarrow> disk_mmap dev (fat_fr pf) disk first sectors s;
                   mbr_loop dev pf depth disk (i + 1) (n + 1) s1 }
            else mbr_loop dev pf depth disk (i + 1) n s)
      else Some (n, s))"

definition mbr_part :: "drive \<Rightarrow> part_frame \<Rightarrow> nat \<Rightarrow> u32 \<Rightarrow> disk_state \<Rightarrow> (u32 \<times> disk_state) option" where
  "mbr_part dev pf depth disk s =
     do { (ok, s1) \<leftarrow> read_mbr dev (mbr_at pf depth) disk s;
          if ok then mbr_loop dev pf depth disk 0 0 s1 else Some (0, s1) }"

definition disk_part :: "drive \<Rightarrow> part_frame \<Rightarrow> u32 \<Rightarrow> disk_state \<Rightarrow> (u32 \<times> disk_state) option" where
  "disk_part dev pf disk s = mbr_part dev pf 0 disk s"

section \<open>Drives\<close>

definition disk_create ::
    "drive \<Rightarrow> part_frame \<Rightarrow> disk_dev_type \<Rightarrow> u32 \<Rightarrow> u64 \<Rightarrow> disk_state \<Rightarrow> (int \<times> disk_state) option" where
  "disk_create dev pf t n sectors s =
     do { (p, hp) \<leftarrow> kmalloc 56 (heap s);
          if p = NULL then Some (-1, s\<lparr>heap := hp\<rparr>)
          else
            (let s1 = upd_disk p (\<lambda>d. \<lparr>d_id = new_id s, dev_type = t, dev_id = n, start_sector = 0, sector_count = sectors,
                        d_fs = d_fs d, part_id = 0, part_count = 0, pdisk = NULL, d_last = pos s, d_next = NULL\<rparr>)
                      (s\<lparr>heap := hp, new_id := new_id s + 1\<rparr>);
                 s2 = link_disk p s1;
                 s3 = (if header s2 = NULL then s2\<lparr>header := p\<rparr> else s2)
             in do { (_, s4) \<leftarrow> disk_part dev pf (d_id (disks s3 p)) s3; mount dev (fat_fr pf) p s4 }) }"

text \<open>\<open>disk_init\<close> by way of \<open>init_ata\<close>: each drive that is there becomes a disk before the next is identified.\<close>

primrec create_disks :: "drive \<Rightarrow> part_frame \<Rightarrow> u8 list \<Rightarrow> disk_state \<Rightarrow> disk_state option" where
  "create_disks dev pf [] s = Some s"
| "create_disks dev pf (n # ns) s =
     (let s1 = s\<lparr>ata := init_drive dev n (ata s)\<rparr>; sectors = ata_sectors (ata s1) ! unat n
      in if sectors \<noteq> 0 then do { (_, s2) \<leftarrow> disk_create dev pf DISK_ATA (ucast n) sectors s1; create_disks dev pf ns s2 }
         else create_disks dev pf ns s1)"

definition disk_init :: "drive \<Rightarrow> part_frame \<Rightarrow> disk_state \<Rightarrow> disk_state option" where
  "disk_init dev pf s = create_disks dev pf [0, 1, 2, 3] (s\<lparr>ata := (ata s)\<lparr>lock_p := 0, lock_s := 0, ata_modes := 0\<rparr>\<rparr>)"

section \<open>Removal\<close>

text \<open>The walk goes on with the \<open>next\<close> pointer of a node that it has freed.\<close>

partial_function (option) remove_parts :: "u32 \<Rightarrow> u32 \<Rightarrow> disk_state \<Rightarrow> disk_state option" where
  "remove_parts n p s =
     (if p = NULL then Some s
      else if pdisk (disks s p) \<noteq> NULL \<and> d_id (disks s (pdisk (disks s p))) = n then
        do { s1 \<leftarrow> remove_parts (d_id (disks s p)) (header s) s;
             let s2 = free_disk p s1 in
             remove_parts n (d_next (disks s2 p)) s2 }
      else remove_parts n (d_next (disks s p)) s)"

definition disk_remove_part :: "u32 \<Rightarrow> disk_state \<Rightarrow> disk_state option" where
  "disk_remove_part n s = remove_parts n (header s) s"

definition disk_remove :: "u32 \<Rightarrow> disk_state \<Rightarrow> disk_state option" where
  "disk_remove n s =
     do { p \<leftarrow> get_disk n s;
          if p \<noteq> NULL then do { s1 \<leftarrow> disk_remove_part n s; Some (free_disk p s1) } else Some s }"

section \<open>The table while it grows\<close>

text \<open>The nodes of the table: different ids, all given out before, and each partition inside the disk it
  is a part of, on the same device.\<close>

definition inside :: "disk \<Rightarrow> disk \<Rightarrow> bool" where
  "inside d d' \<longleftrightarrow> dev_type d = dev_type d' \<and> dev_id d = dev_id d' \<and> disk_start d' \<le> disk_start d \<and> disk_end d \<le> disk_end d'"

definition table_ok :: "disk_state \<Rightarrow> u32 list \<Rightarrow> bool" where
  "table_ok s ds \<longleftrightarrow> disk_list s ds \<and> ids_distinct s ds \<and>
     (\<forall>p \<in> set ds. d_id (disks s p) < new_id s \<and> disk_end (disks s p) < 2 ^ 64 \<and>
        (pdisk (disks s p) = NULL \<or> pdisk (disks s p) \<in> set ds \<and> inside (disks s p) (disks s (pdisk (disks s p)))))"

lemma find_disk_some: "disk_list s ds \<Longrightarrow> \<exists>p. get_disk n s = Some p \<and> (p = NULL \<or> p \<in> set ds \<and> d_id (disks s p) = n)"
  by (auto simp: get_disk_list find_Some_iff split: option.split)

lemma disk_read_some:
  assumes "disk_list s ds"
  shows "\<exists>r m a. disk_read dev n buf count off s = Some (r, s\<lparr>dmem := m, ata := a\<rparr>)"
proof -
  obtain p where p: "get_disk n s = Some p"
    using find_disk_some [OF assms] by blast
  show ?thesis
  proof (cases "p = NULL")
    case True
    then show ?thesis
      by (intro exI [of _ "-1"] exI [of _ "dmem s"] exI [of _ "ata s"]) (simp add: disk_read_def p)
  next
    case False
    obtain r m a where "ata_read dev (ucast (dev_id (disks s p))) buf (disk_count (disks s p) count off)
        (start_sector (disks s p) * ATA_SECTOR_SIZE + off) (dmem s) (ata s) = (r, m, a)"
      by (metis prod_cases3)
    then show ?thesis
      using False by (intro exI [of _ r] exI [of _ m] exI [of _ a]) (simp add: disk_read_def p Let_def split: disk_dev_type.split)
  qed
qed

text \<open>Mounting leaves the table alone.\<close>

definition same_table :: "disk_state \<Rightarrow> disk_state \<Rightarrow> bool" where
  "same_table s t \<longleftrightarrow> disks t = disks s \<and> header t = header s \<and> pos t = pos s \<and> new_id t = new_id s"

lemma fat_init_some:
  assumes "disk_list s ds" and "kmalloc 52 (heap s) \<noteq> None"
  shows "\<exists>p t. fat_init dev fr n s = Some (p, t) \<and> same_table s t"
proof -
  obtain r m a where r: "disk_read dev n (header_at fr) 87 3 s = Some (r, s\<lparr>dmem := m, ata := a\<rparr>)"
    using disk_read_some [OF assms(1)] by blast
  obtain p hp where k: "kmalloc 52 (heap s) = Some (p, hp)"
    using assms(2) by auto
  show ?thesis
    by (cases "r = -1"; cases "fat_fields fr m ((uninit_fat fr)\<lparr>disk_id := n\<rparr>)"; cases "p = NULL")
      (simp_all add: fat_init_def r k Let_def same_table_def)
qed

lemma mount_some:
  assumes "disk_list s ds" and "kmalloc 52 (heap s) \<noteq> None"
  shows "\<exists>f t. mount dev fr p s = Some (sint (d_id (disks s p)), t) \<and> header t = header s \<and> pos t = pos s \<and>
    new_id t = new_id s \<and> disks t = (disks s)(p := (disks s p)\<lparr>d_fs := f\<rparr>)"
proof -
  obtain q u where "fat_init dev fr (d_id (disks s p)) s = Some (q, u)" "same_table s u"
    using fat_init_some [OF assms] by blast
  then show ?thesis
    by (intro exI [of _ "\<lparr>fs_type = if q \<noteq> NULL then FS_FAT else FS_RAW, info = q\<rparr>"])
      (simp add: mount_def disk_fs_init_def Let_def same_table_def upd_disk_def)
qed

lemma disk_list_cong:
  assumes "disk_list s ds" and "\<And>p. p \<in> set ds \<Longrightarrow> d_last (disks t p) = d_last (disks s p) \<and> d_next (disks t p) = d_next (disks s p)"
    and "header t = header s" and "pos t = pos s"
  shows "disk_list t ds"
  using assms dll_cong [of ds "\<lambda>p. d_last (disks t p)" "\<lambda>p. d_last (disks s p)" "\<lambda>p. d_next (disks t p)"
      "\<lambda>p. d_next (disks s p)" NULL] by (simp add: disk_list_def)

text \<open>A new node at the end; \<open>s1\<close> has it filled in.\<close>

lemma link_disk_list:
  assumes "disk_list s ds" and "p \<notin> set ds" and "p \<noteq> NULL" and "ds \<noteq> []"
    and "\<And>q. q \<in> set ds \<Longrightarrow> d_last (disks s1 q) = d_last (disks s q) \<and> d_next (disks s1 q) = d_next (disks s q)"
    and "header s1 = header s" and "pos s1 = pos s" and "d_last (disks s1 p) = pos s" and "d_next (disks s1 p) = NULL"
  shows "disk_list (link_disk p s1) (ds @ [p])"
    and "disks (link_disk p s1) q = (if q = last ds then (disks s1 q)\<lparr>d_next := p\<rparr> else disks s1 q)"
    and "new_id (link_disk p s1) = new_id s1" and "heap (link_disk p s1) = heap s1"
proof -
  have d: "dll (\<lambda>p. d_last (disks s p)) (\<lambda>p. d_next (disks s p)) NULL ds" "header s = head ds" "pos s = last ds"
    using assms(1, 4) by (simp_all add: disk_list_def tail_of_def)
  have l: "last ds \<in> set ds" "last ds \<noteq> NULL" "last ds \<noteq> p"
    using assms(2, 4) dll_distinct [OF d(1)] by (metis last_in_set)+
  show upd: "disks (link_disk p s1) q = (if q = last ds then (disks s1 q)\<lparr>d_next := p\<rparr> else disks s1 q)" for q
    using l by (simp add: link_disk_def assms(7) d(3))
  show "new_id (link_disk p s1) = new_id s1" "heap (link_disk p s1) = heap s1"
    by (simp_all add: link_disk_def)
  have "dll (\<lambda>q. d_last (disks (link_disk p s1) q)) (\<lambda>q. d_next (disks (link_disk p s1) q)) NULL (ds @ [p])"
  proof (rule dll_snoc [OF d(1) assms(2, 3)])
    show "d_last (disks (link_disk p s1) p) = tail_of NULL ds"
      using l assms(4, 8) by (simp add: upd d(3) tail_of_def)
    show "d_next (disks (link_disk p s1) p) = NULL"
      using l assms(9) by (simp add: upd)
  qed (use assms(5) in \<open>auto simp: upd\<close>)
  moreover have "header (link_disk p s1) = head (ds @ [p])" "pos (link_disk p s1) = p"
    using assms(4, 6) d(2) by (simp_all add: link_disk_def head_append)
  ultimately show "disk_list (link_disk p s1) (ds @ [p])"
    by (simp add: disk_list_def)
qed

lemma disk_mmap_refused:
  assumes "disk_list s ds"
    and "\<And>q. q \<in> set ds \<Longrightarrow> d_id (disks s q) = n \<Longrightarrow> start + count > sector_count (disks s q)"
  shows "disk_mmap dev fr n start count s = Some (-1, s)"
proof -
  obtain q where "get_disk n s = Some q" "q = NULL \<or> q \<in> set ds \<and> d_id (disks s q) = n"
    using find_disk_some [OF assms(1)] by blast
  then show ?thesis
    using assms(2) [of q] by (auto simp: disk_mmap_def)
qed

lemma disk_mmap_accepted:
  assumes "table_ok s ds" and "q \<in> set ds" and "n = d_id (disks s q)"
    and "start + count \<le> sector_count (disks s q)"
    and "kmalloc 56 (heap s) = Some (p, hp)" and "p \<notin> insert NULL (set ds)" and "kmalloc 52 hp \<noteq> None"
  shows "\<exists>t. disk_mmap dev fr n start count s = Some (sint (new_id s), t) \<and> disk_list t (ds @ [p]) \<and>
    new_id t = new_id s + 1 \<and>
    d_id (disks t p) = new_id s \<and> pdisk (disks t p) = q \<and> dev_type (disks t p) = dev_type (disks s q) \<and>
    dev_id (disks t p) = dev_id (disks s q) \<and> start_sector (disks t p) = start_sector (disks s q) + start \<and>
    sector_count (disks t p) = count \<and> part_id (disks t p) = part_count (disks s q) \<and>
    (\<forall>x \<in> set ds. \<exists>nx. disks t x = (disks s x)\<lparr>d_next := nx,
       part_count := part_count (disks s x) + (if x = q then 1 else 0)\<rparr>)"
proof -
  have list: "disk_list s ds" and ids: "ids_distinct s ds"
    using assms(1) by (simp_all add: table_ok_def)
  note get = get_disk_found [OF list ids assms(2), folded assms(3)]
  have pq: "p \<noteq> q" and p: "p \<notin> set ds" "p \<noteq> NULL" and ne: "ds \<noteq> []"
    using assms(2, 6) by auto
  define s1 where "s1 = upd_disk p (\<lambda>d. \<lparr>d_id = new_id s, dev_type = dev_type (disks s q), dev_id = dev_id (disks s q),
      start_sector = start_sector (disks s q) + start, sector_count = count, d_fs = d_fs d,
      part_id = part_count (disks s q), part_count = 0, pdisk = q, d_last = pos s, d_next = NULL\<rparr>)
    (upd_disk q (\<lambda>d. d\<lparr>part_count := part_count d + 1\<rparr>) (s\<lparr>heap := hp, new_id := new_id s + 1\<rparr>))"
  have s1: "header s1 = header s" "pos s1 = pos s" "new_id s1 = new_id s + 1" "heap s1 = hp"
    "x \<noteq> p \<Longrightarrow> disks s1 x = (disks s x)\<lparr>part_count := part_count (disks s x) + (if x = q then 1 else 0)\<rparr>" for x
    using pq by (simp_all add: s1_def)
  have old: "d_last (disks s1 x) = d_last (disks s x) \<and> d_next (disks s1 x) = d_next (disks s x)" if "x \<in> set ds" for x
    using that p s1(5) [of x] by (cases "x = p") auto
  have new: "d_last (disks s1 p) = pos s" "d_next (disks s1 p) = NULL"
    by (simp_all add: s1_def)
  note link = link_disk_list [OF list p ne old s1(1, 2) new]
  have "kmalloc 52 (heap (link_disk p s1)) \<noteq> None"
    using assms(7) by (simp add: link(4) s1(4))
  from mount_some [OF link(1) this, of dev fr p] obtain f t where
    t: "mount dev fr p (link_disk p s1) = Some (sint (d_id (disks (link_disk p s1) p)), t)"
      "header t = header (link_disk p s1)" "pos t = pos (link_disk p s1)" "new_id t = new_id (link_disk p s1)"
      "disks t = (disks (link_disk p s1))(p := (disks (link_disk p s1) p)\<lparr>d_fs := f\<rparr>)"
    by blast
  have lp: "p \<noteq> last ds"
    using p ne by (metis last_in_set)
  have "\<not> start + count > sector_count (disks s q)"
    using assms(4) by simp
  then have "disk_mmap dev fr n start count s = mount dev fr p (link_disk p s1)"
    using get p by (simp add: disk_mmap_def assms(5) s1_def Let_def)
  moreover have "disk_list t (ds @ [p])"
    using link(1) by (rule disk_list_cong) (simp_all add: t(2-5))
  moreover have node: "disks t p = (disks s1 p)\<lparr>d_fs := f\<rparr>"
    using lp by (simp add: t(5) link(2))
  moreover have "\<exists>nx. disks t x = (disks s x)\<lparr>d_next := nx, part_count := part_count (disks s x) + (if x = q then 1 else 0)\<rparr>"
    if "x \<in> set ds" for x
  proof -
    have "x \<noteq> p"
      using that p by auto
    then show ?thesis
      by (intro exI [of _ "if x = last ds then p else d_next (disks s x)"]) (simp add: t(5) link(2) s1(5))
  qed
  ultimately show ?thesis
    using lp t(1, 4) by (intro exI [of _ t]) (simp add: link(2, 3) s1(3), simp add: s1_def)
qed

text \<open>A partition that fits without wrap-around keeps the table.\<close>

lemma disk_mmap_keeps:
  assumes "table_ok s ds" and "q \<in> set ds" and "n = d_id (disks s q)"
    and "unat start + unat count \<le> unat (sector_count (disks s q))" and "new_id s \<noteq> -1"
    and "kmalloc 56 (heap s) = Some (p, hp)" and "p \<notin> insert NULL (set ds)" and "kmalloc 52 hp \<noteq> None"
  shows "\<exists>t. disk_mmap dev fr n start count s = Some (sint (new_id s), t) \<and> table_ok t (ds @ [p]) \<and>
    pdisk (disks t p) = q \<and> disk_start (disks t p) = disk_start (disks s q) + unat start \<and>
    disk_end (disks t p) = disk_start (disks s q) + unat start + unat count"
proof -
  have old: "d_id (disks s x) < new_id s" "disk_end (disks s x) < 2 ^ 64"
    "pdisk (disks s x) = NULL \<or> pdisk (disks s x) \<in> set ds \<and> inside (disks s x) (disks s (pdisk (disks s x)))"
    if "x \<in> set ds" for x
    using assms(1) that by (auto simp: table_ok_def)
  have "unat (sector_count (disks s q)) < 18446744073709551616"
    by (rule order_less_le_trans [OF unsigned_less]) simp
  then have sum: "unat (start + count) = unat start + unat count"
    using assms(4) by (intro unat_add_nowrap) simp
  have le: "start + count \<le> sector_count (disks s q)"
    using assms(4) by (simp add: word_le_nat_alt sum)
  from disk_mmap_accepted [OF assms(1-3) le assms(6-8), of dev fr] obtain t where
    t: "disk_mmap dev fr n start count s = Some (sint (new_id s), t)" "disk_list t (ds @ [p])" "new_id t = new_id s + 1"
    and new: "d_id (disks t p) = new_id s" "pdisk (disks t p) = q" "dev_type (disks t p) = dev_type (disks s q)"
      "dev_id (disks t p) = dev_id (disks s q)" "start_sector (disks t p) = start_sector (disks s q) + start"
      "sector_count (disks t p) = count"
    and rest: "\<forall>x \<in> set ds. \<exists>nx. disks t x = (disks s x)\<lparr>d_next := nx,
       part_count := part_count (disks s x) + (if x = q then 1 else 0)\<rparr>"
    by (elim exE conjE) (rule that; assumption)
  have same: "d_id (disks t x) = d_id (disks s x)" "pdisk (disks t x) = pdisk (disks s x)"
    "disk_end (disks t x) = disk_end (disks s x)" "disk_start (disks t x) = disk_start (disks s x)"
    "dev_type (disks t x) = dev_type (disks s x)" "dev_id (disks t x) = dev_id (disks s x)" if "x \<in> set ds" for x
    using rest that by (force simp: disk_end_def disk_start_def)+
  have "disk_start (disks s q) + unat start < 2 ^ 64"
    using old(2) [OF assms(2)] assms(4) by (simp add: disk_start_def disk_end_def)
  then have start: "disk_start (disks t p) = disk_start (disks s q) + unat start"
    unfolding disk_start_def new(5) by (intro unat_add_nowrap) simp
  then have e: "disk_end (disks t p) = disk_start (disks s q) + unat start + unat count"
    by (simp add: disk_end_def disk_start_def new(6))
  have "disk_end (disks t p) \<le> disk_end (disks s q)"
    using assms(4) unfolding e by (simp add: disk_end_def disk_start_def)
  then have ins: "inside (disks t p) (disks t q)"
    using assms(2) start by (simp add: inside_def same new)
  have ids: "ids_distinct t (ds @ [p])"
  proof -
    have "inj_on (\<lambda>x. d_id (disks t x)) (set ds)"
      using assms(1) by (simp add: table_ok_def ids_distinct_def same cong: inj_on_cong)
    moreover have "d_id (disks t p) \<notin> (\<lambda>x. d_id (disks t x)) ` set ds"
    proof
      assume "d_id (disks t p) \<in> (\<lambda>x. d_id (disks t x)) ` set ds"
      then obtain x where "x \<in> set ds" "d_id (disks s x) = new_id s"
        by (auto simp: same new(1))
      then show False
        using old(1) [of x] by simp
    qed
    ultimately show ?thesis
      using assms(7) by (simp add: ids_distinct_def)
  qed
  have "1 + new_id s \<noteq> 0"
    using assms(5) by (metis add.commute eq_neg_iff_add_eq_0)
  then have "unat (new_id s + 1) = unat (new_id s) + 1"
    using unatSuc [of "new_id s"] by (simp add: add.commute)
  then have less: "x < new_id s \<Longrightarrow> x < new_id s + 1" "new_id s < new_id s + 1" for x
    by (simp_all add: word_less_nat_alt)
  have "d_id (disks t x) < new_id t \<and> disk_end (disks t x) < 2 ^ 64 \<and>
      (pdisk (disks t x) = NULL \<or> pdisk (disks t x) \<in> set (ds @ [p]) \<and> inside (disks t x) (disks t (pdisk (disks t x))))"
    if x: "x \<in> set (ds @ [p])" for x
  proof (cases "x \<in> set ds")
    case True
    then show ?thesis
      using old [OF True] less(1) by (auto simp: same t(3) inside_def)
  next
    case False
    then have "x = p"
      using x by simp
    then show ?thesis
      using \<open>disk_end (disks t p) \<le> disk_end (disks s q)\<close> old(2) [OF assms(2)] assms(2) ins less(2) by (simp add: new t(3))
  qed
  then have "table_ok t (ds @ [p])"
    unfolding table_ok_def using t(2) ids by blast
  then show ?thesis
    using t(1) new(2) start e by blast
qed

text \<open>The sum of the test wraps: a partition that starts before its disk is accepted.\<close>

lemma disk_mmap_escapes:
  assumes "table_ok s ds" and "q \<in> set ds" and "n = d_id (disks s q)" and "2 \<le> unat (start_sector (disks s q))"
    and "kmalloc 56 (heap s) = Some (p, hp)" and "p \<notin> insert NULL (set ds)" and "kmalloc 52 hp \<noteq> None"
  shows "\<exists>t. disk_mmap dev fr n (-2) 2 s = Some (sint (new_id s), t) \<and>
    disk_start (disks t p) = disk_start (disks s q) - 2 \<and> disk_start (disks t p) < disk_start (disks s q)"
proof -
  have "(-2 :: u64) + 2 \<le> sector_count (disks s q)"
    by simp
  from disk_mmap_accepted [OF assms(1-3) this assms(5-7), of dev fr] obtain t where
    t: "disk_mmap dev fr n (-2) 2 s = Some (sint (new_id s), t)"
    and new: "start_sector (disks t p) = start_sector (disks s q) + (-2)"
    by blast
  have "unat (start_sector (disks s q) - 2) = unat (start_sector (disks s q)) - 2"
    using assms(4) by (subst unat_sub) (simp_all add: word_le_nat_alt)
  then show ?thesis
    using t new assms(4) by (intro exI [of _ t]) (simp add: disk_start_def)
qed

section \<open>Removing a disk\<close>

lemma free_disk_list:
  assumes "disk_list s (xs @ p # ys)" and "pdisk (disks s p) \<noteq> p"
  shows "disk_list (free_disk p s) (xs @ ys)"
    and "\<And>x. x \<in> set (xs @ ys) \<Longrightarrow> d_id (disks (free_disk p s) x) = d_id (disks s x) \<and>
      start_sector (disks (free_disk p s) x) = start_sector (disks s x) \<and>
      sector_count (disks (free_disk p s) x) = sector_count (disks s x) \<and>
      pdisk (disks (free_disk p s) x) = pdisk (disks s x) \<and>
      part_count (disks (free_disk p s) x) =
        part_count (disks s x) - (if x = pdisk (disks s p) then 1 else 0)"
proof -
  have d: "dll (\<lambda>p. d_last (disks s p)) (\<lambda>p. d_next (disks s p)) NULL (xs @ p # ys)"
    and hp: "header s = head (xs @ p # ys)" "pos s = tail_of NULL (xs @ p # ys)"
    using assms(1) by (simp_all add: disk_list_def)
  note node = dll_node [OF d]
  have nn: "NULL \<notin> set (xs @ p # ys)"
    using dll_distinct [OF d] by blast
  have last: "d_last (disks s p) \<in> insert NULL (set xs)" and nxt: "d_next (disks s p) \<in> insert NULL (set ys)"
    using node(2, 3) tail_of_in [of NULL xs] by (auto simp: head_def split: list.splits)
  have p: "p \<notin> set xs" "p \<notin> set ys" "p \<noteq> NULL" "set xs \<inter> set ys = {}"
    using node nn by auto
  let ?t = "free_disk p s"
  have upd: "disks ?t x = (disks s x)\<lparr>d_next := if x = d_last (disks s p) then d_next (disks s p) else d_next (disks s x),
      d_last := if x = d_next (disks s p) then d_last (disks s p) else d_last (disks s x),
      part_count := part_count (disks s x) - (if x = pdisk (disks s p) then 1 else 0)\<rparr>" if "x \<noteq> NULL" "x \<noteq> p" for x
    using that p assms(2) by (simp add: free_disk_def Let_def)
  have other: "x \<noteq> NULL" "x \<noteq> p" if "x \<in> set (xs @ ys)" for x
    using that p nn by auto
  show "d_id (disks ?t x) = d_id (disks s x) \<and>
      start_sector (disks ?t x) = start_sector (disks s x) \<and> sector_count (disks ?t x) = sector_count (disks s x) \<and>
      pdisk (disks ?t x) = pdisk (disks s x) \<and>
      part_count (disks ?t x) = part_count (disks s x) - (if x = pdisk (disks s p) then 1 else 0)"
    if "x \<in> set (xs @ ys)" for x
    by (simp add: upd [OF other [OF that]])
  have "dll (\<lambda>x. d_last (disks ?t x)) (\<lambda>x. d_next (disks ?t x)) NULL (xs @ ys)"
    by (rule dll_remove [OF d]) (simp_all add: upd [OF other])
  moreover have ends: "d_last (disks s p) = NULL \<longleftrightarrow> xs = []" "d_next (disks s p) = NULL \<longleftrightarrow> ys = []"
    using node(2, 3) nn by (cases xs rule: rev_cases; cases ys; auto)+
  have "d_last (disks s p) \<noteq> p"
    using last p by auto
  then have "header ?t = (if xs = [] then d_next (disks s p) else header s)"
    "pos ?t = (if ys = [] then d_last (disks s p) else pos s)"
    using p(3) by (simp_all add: free_disk_def Let_def ends)
  then have "header ?t = head (xs @ ys)" "pos ?t = tail_of NULL (xs @ ys)"
    using hp node(2, 3) by (simp_all add: head_append tail_of_append) (simp add: tail_of_def)
  ultimately show "disk_list ?t (xs @ ys)"
    by (simp add: disk_list_def)
qed

lemma remove_parts_none:
  assumes "dll l (\<lambda>x. d_next (disks s x)) q xs"
    and "\<And>x. x \<in> set xs \<Longrightarrow> pdisk (disks s x) = NULL \<or> d_id (disks s (pdisk (disks s x))) \<noteq> n"
  shows "remove_parts n (head xs) s = Some s"
  using assms
proof (induction xs arbitrary: q)
  case Nil
  then show ?case
    by (simp add: remove_parts.simps)
next
  case (Cons x xs)
  have "dll l (\<lambda>x. d_next (disks s x)) x xs"
    using Cons.prems(1) by simp
  from Cons.IH [OF this Cons.prems(2)] have "remove_parts n (head xs) s = Some s"
    by simp
  then show ?case
    using Cons.prems(1) Cons.prems(2) [of x] by (subst remove_parts.simps) auto
qed

lemma disk_remove_leaf:
  assumes "table_ok s (xs @ p # ys)" and "n = d_id (disks s p)" and "\<And>x. x \<in> set (xs @ p # ys) \<Longrightarrow> pdisk (disks s x) \<noteq> p"
  shows "disk_remove n s = Some (free_disk p s)" and "table_ok (free_disk p s) (xs @ ys)"
proof -
  let ?ds = "xs @ p # ys"
  have list: "disk_list s ?ds" and ids: "ids_distinct s ?ds" and p: "p \<in> set ?ds"
    using assms(1) by (simp_all add: table_ok_def)
  note get = get_disk_found [OF list ids p, folded assms(2)]
  have parent: "pdisk (disks s x) = NULL \<or> pdisk (disks s x) \<in> set ?ds \<and> inside (disks s x) (disks s (pdisk (disks s x)))"
    if "x \<in> set ?ds" for x
    using assms(1) that unfolding table_ok_def by blast
  have "pdisk (disks s x) = NULL \<or> d_id (disks s (pdisk (disks s x))) \<noteq> n" if "x \<in> set ?ds" for x
    using parent [OF that] assms(2) assms(3) [OF that] ids p unfolding ids_distinct_def inj_on_def by blast
  then have "remove_parts n (header s) s = Some s"
    using remove_parts_none [of "\<lambda>p. d_last (disks s p)" s NULL ?ds n] list unfolding disk_list_def by metis
  then show "disk_remove n s = Some (free_disk p s)"
    using get by (simp add: disk_remove_def disk_remove_part_def)
  have "pdisk (disks s p) \<noteq> p"
    using assms(3) [of p] by simp
  note free = free_disk_list [OF list this]
  have same: "d_id (disks (free_disk p s) x) = d_id (disks s x)" "pdisk (disks (free_disk p s) x) = pdisk (disks s x)"
    "disk_end (disks (free_disk p s) x) = disk_end (disks s x)" "disk_start (disks (free_disk p s) x) = disk_start (disks s x)"
    if "x \<in> set (xs @ ys)" for x
    using free(2) [OF that] by (simp_all add: disk_end_def disk_start_def)
  have dev: "dev_type (disks (free_disk p s) x) = dev_type (disks s x)" "dev_id (disks (free_disk p s) x) = dev_id (disks s x)" for x
    by (simp_all add: free_disk_def Let_def)
  have new: "new_id (free_disk p s) = new_id s"
    by (simp add: free_disk_def Let_def)
  have "ids_distinct (free_disk p s) (xs @ ys)"
    using ids by (auto simp: ids_distinct_def inj_on_def same)
  moreover have "d_id (disks (free_disk p s) x) < new_id (free_disk p s) \<and> disk_end (disks (free_disk p s) x) < 2 ^ 64 \<and>
      (pdisk (disks (free_disk p s) x) = NULL \<or> pdisk (disks (free_disk p s) x) \<in> set (xs @ ys) \<and>
         inside (disks (free_disk p s) x) (disks (free_disk p s) (pdisk (disks (free_disk p s) x))))"
    if x: "x \<in> set (xs @ ys)" for x
  proof -
    have "x \<in> set ?ds"
      using x by auto
    then have "d_id (disks s x) < new_id s \<and> disk_end (disks s x) < 2 ^ 64"
      using assms(1) unfolding table_ok_def by blast
    moreover have "pdisk (disks s x) = NULL \<or>
        pdisk (disks s x) \<in> set (xs @ ys) \<and> inside (disks s x) (disks s (pdisk (disks s x)))"
      using parent [OF \<open>x \<in> set ?ds\<close>] assms(3) [OF \<open>x \<in> set ?ds\<close>] by auto
    ultimately show ?thesis
      by (auto simp del: set_append simp add: same new inside_def dev x)
  qed
  ultimately show "table_ok (free_disk p s) (xs @ ys)"
    unfolding table_ok_def using free(1) by blast
qed

text \<open>The allocator's own theorem gives a fresh node: the nodes of the table lie behind headers of blocks of
  the heap, and a new block is none of them.\<close>

lemma kmalloc_fresh_node:
  assumes "heap_inv other as h" and "set ds \<subseteq> (\<lambda>b. b + 12) ` set as" and "fits_tail h as 68 \<or> vmm_room 1 (mm h)"
  shows "\<exists>p hp. kmalloc 56 h = Some (p, hp) \<and> p \<notin> insert NULL (set ds)"
proof -
  have "fits_tail h as (unat (56 :: u32) + 12) \<or> vmm_room ((unat (56 :: u32) + 12 + 4095) div 4096) (mm h)"
    using assms(3) by simp
  from kmalloc_correct [OF assms(1) _ this] obtain b t where
    t: "kmalloc 56 h = Some (b + 12, t)" "b \<noteq> NULL" "b \<notin> set as" "heap_inv other (as @ [b]) t"
    by auto
  have "block_ok (block_of t b)"
    using heap_inv_block [OF t(4)] by simp
  then have "unat b < 196608 * 4096"
    by (simp add: block_ok_def block_of_def)
  then have "unat (b + 12) = unat b + 12"
    by (subst unat_add32) simp_all
  then have "b + 12 \<noteq> NULL"
    by (metis add_is_0 unat_0 zero_neq_numeral)
  moreover have "b + 12 \<notin> set ds"
    using assms(2) t(3) by auto
  ultimately show ?thesis
    using t(1) by auto
qed

section \<open>Properties\<close>

definition sample_part :: disk_state where
  "sample_part = sample_disks\<lparr>heap := heap_sample\<lparr>hdr := (\<lambda>_. \<lparr>a_last = 0, a_next = 0, a_length = 68\<rparr>), alloc_pos := 0x8000\<rparr>\<rparr>"

lemma sample_part_ok: "table_ok sample_part [0x1000]"
  by (simp add: table_ok_def sample_part_def sample_disks_def disk_list_def ids_distinct_def disk_end_def)

lemma sample_part_alloc:
  "\<exists>hp. kmalloc 56 (heap sample_part) = Some (0x8050, hp) \<and> kmalloc 52 hp \<noteq> None"
  by (simp add: sample_part_def kmalloc_def link_block_def page_down_def upd_hdr_def Let_def)

text \<open>C40. \<open>disk_mmap\<close> of a range inside a disk, on a table in which every partition lies inside its parent:
  the new disk is the last of the table, with a new id, its sectors are the range, inside the parent's,
  and the table is as good as before.  (The allocator's node is fresh, and the id counter does not
  wrap; the sum \<open>start + count\<close> is taken without wrap-around, which the code does not test.)\<close>

theorem disk_mmap_keeps_table:
  assumes "table_ok s ds" and "q \<in> set ds" and "n = d_id (disks s q)"
    and "unat start + unat count \<le> unat (sector_count (disks s q))" and "new_id s \<noteq> -1"
    and "kmalloc 56 (heap s) = Some (p, hp)" and "p \<notin> insert NULL (set ds)" and "kmalloc 52 hp \<noteq> None"
  shows "\<exists>t. disk_mmap dev fr n start count s = Some (sint (new_id s), t) \<and> table_ok t (ds @ [p]) \<and>
    pdisk (disks t p) = q \<and> disk_start (disks t p) = disk_start (disks s q) + unat start \<and>
    disk_end (disks t p) = disk_start (disks s q) + unat start + unat count"
  by (rule disk_mmap_keeps [OF assms])

theorem disk_mmap_keeps_table_witness:
  "\<exists>t. disk_mmap sample_drive sample_frame 5 3 4 sample_part = Some (6, t) \<and> table_ok t [0x1000, 0x8050] \<and>
     disk_start (disks t 0x8050) = 13 \<and> disk_end (disks t 0x8050) = 17"
proof -
  obtain hp where hp: "kmalloc 56 (heap sample_part) = Some (0x8050, hp)" "kmalloc 52 hp \<noteq> None"
    using sample_part_alloc by blast
  have "5 = d_id (disks sample_part 0x1000)" "unat (3 :: u64) + unat (4 :: u64) \<le> unat (sector_count (disks sample_part 0x1000))"
    "new_id sample_part = 6" "disk_start (disks sample_part 0x1000) = 10"
    by (simp_all add: sample_part_def sample_disks_def disk_start_def)
  with disk_mmap_keeps_table [OF sample_part_ok _ this(1, 2) _ hp(1) _ hp(2), of sample_drive sample_frame] show ?thesis
    by auto
qed

text \<open>C20. \<open>disk_remove\<close> of a disk that no other is a partition of takes exactly this disk out of the table
  and keeps the table good.\<close>

theorem disk_remove_disk:
  assumes "table_ok s (xs @ p # ys)" and "n = d_id (disks s p)" and "\<And>x. x \<in> set (xs @ p # ys) \<Longrightarrow> pdisk (disks s x) \<noteq> p"
  shows "\<exists>t. disk_remove n s = Some t \<and> table_ok t (xs @ ys)"
  using disk_remove_leaf [OF assms] by blast

theorem disk_remove_disk_witness:
  "\<exists>t. disk_remove 5 sample_part = Some t \<and> table_ok t []"
proof -
  have "table_ok sample_part ([] @ 0x1000 # [])"
    using sample_part_ok by simp
  moreover have "5 = d_id (disks sample_part 0x1000)" "pdisk (disks sample_part x) \<noteq> 0x1000" for x
    by (simp_all add: sample_part_def sample_disks_def)
  ultimately show ?thesis
    using disk_remove_disk by (metis append_Nil)
qed

end
