(* ===== verification/Kernel.thy ===== *)
theory Kernel
  imports Fs Share Sched Console Keyboard
begin

text \<open>
  The components put together for the code that uses several of them: the state of the whole kernel, and
  the window of \<open>umm_mmap_kmm\<close> with its bytes.  Kernel memory is read and written by kernel address, the
  user's pages by physical address; a window is loaded from the frames behind it when it is opened and
  stored to them when it is closed.  The two agree with shared memory because nothing else uses the
  frames of a process while the process is in the kernel.
\<close>

section \<open>State\<close>

text \<open>The fields of \<open>sched_state\<close> behind those of the memory manager are in \<open>tasks\<close>; the last three are the
  variables of \<open>syscall/io.c\<close>.\<close>

record kernel =
  files :: file_state
  tasks :: "unit sched_state_ext"
  ram :: memory
  screen :: console_state
  keyboard :: kbd_state
  key_c :: u32
  key_len :: u32
  key_lock :: u32

definition kmm :: "kernel \<Rightarrow> mm_state" where
  "kmm k = mm (heap (files k))"

definition set_mm :: "mm_state \<Rightarrow> kernel \<Rightarrow> kernel" where
  "set_mm t k = k\<lparr>files := (files k)\<lparr>heap := (heap (files k))\<lparr>mm := t\<rparr>\<rparr>\<rparr>"

definition ksched :: "kernel \<Rightarrow> sched_state" where
  "ksched k = mm_state.extend (kmm k) (tasks k)"

definition set_sched :: "sched_state \<Rightarrow> kernel \<Rightarrow> kernel" where
  "set_sched t k = (set_mm (mm_state.truncate t) k)\<lparr>tasks := mm_state.more t\<rparr>"

definition set_heap :: "heap_state \<Rightarrow> kernel \<Rightarrow> kernel" where
  "set_heap h k = k\<lparr>files := (files k)\<lparr>heap := h\<rparr>\<rparr>"

definition kmem :: "kernel \<Rightarrow> memory" where
  "kmem k = dmem (files k)"

definition set_mem :: "memory \<Rightarrow> kernel \<Rightarrow> kernel" where
  "set_mem m k = k\<lparr>files := (files k)\<lparr>dmem := m\<rparr>\<rparr>"

definition on_files :: "(file_state \<Rightarrow> ('r \<times> file_state) option) \<Rightarrow> kernel \<Rightarrow> ('r \<times> kernel) option" where
  "on_files f k = do { (r, t) \<leftarrow> f (files k); Some (r, k\<lparr>files := t\<rparr>) }"

text \<open>\<open>current_process -> pde\<close>.\<close>

definition cur_pde :: "kernel \<Rightarrow> u32" where
  "cur_pde k = pde (procs (ksched k) (current_process (ksched k)))"

lemma kernel_frame [simp, frame]:
  "kmm (set_mm t k) = t" "kmm (set_mem m k) = kmm k" "kmm (set_heap h k) = mm h"
  "kmem (set_mm t k) = kmem k" "kmem (set_mem m k) = m" "kmem (set_heap h k) = kmem k"
  "tasks (set_mm t k) = tasks k" "tasks (set_mem m k) = tasks k" "tasks (set_heap h k) = tasks k"
  "ram (set_mm t k) = ram k" "ram (set_mem m k) = ram k" "ram (set_heap h k) = ram k"
  "screen (set_mm t k) = screen k" "screen (set_mem m k) = screen k" "screen (set_heap h k) = screen k"
  by (simp_all add: kmm_def set_mm_def set_mem_def set_heap_def kmem_def)

lemma kernel_update [simp]:
  "kmm (k\<lparr>ram := r\<rparr>) = kmm k" "kmem (k\<lparr>ram := r\<rparr>) = kmem k"
  "kmm (k\<lparr>screen := c\<rparr>) = kmm k" "kmem (k\<lparr>screen := c\<rparr>) = kmem k"
  by (simp_all add: kmm_def kmem_def)

section \<open>Windows\<close>

definition load_window :: "u32 \<Rightarrow> u32 \<Rightarrow> mm_state \<Rightarrow> memory \<Rightarrow> memory \<Rightarrow> memory" where
  "load_window p len t r m = (\<lambda>x. if x - p < len then r (get_globl_phy_attr x t) else m x)"

definition store_window :: "u32 \<Rightarrow> u32 \<Rightarrow> mm_state \<Rightarrow> memory \<Rightarrow> memory \<Rightarrow> memory" where
  "store_window p len t m r =
     fold (\<lambda>i r. r(get_globl_phy_attr (p + of_nat i) t := m (p + of_nat i))) [0..<unat len] r"

definition open_window :: "u32 \<Rightarrow> u32 \<Rightarrow> kernel \<Rightarrow> (u32 \<times> kernel) option" where
  "open_window attr len k =
     do { (p, t) \<leftarrow> umm_mmap_kmm attr len (cur_pde k) (kmm k);
          Some (p, if p = NULL then set_mm t k
                   else set_mem (load_window p len t (ram k) (kmem k)) (set_mm t k)) }"

definition close_window :: "u32 \<Rightarrow> u32 \<Rightarrow> kernel \<Rightarrow> kernel" where
  "close_window p len k =
     set_mm (umm_ummap_kmm p len (kmm k)) (k\<lparr>ram := store_window p len (kmm k) (kmem k) (ram k)\<rparr>)"

text \<open>The byte that a user program finds at an address.\<close>

definition user_byte :: "nat \<Rightarrow> kernel \<Rightarrow> u32 \<Rightarrow> u8" where
  "user_byte d k a = ram k (user_phy_attr a d (kmm k))"

section \<open>Storing a window\<close>

lemma fold_updates:
  fixes g :: "nat \<Rightarrow> 'a" and v :: "nat \<Rightarrow> 'b"
  assumes "\<And>i j. i < n \<Longrightarrow> j < n \<Longrightarrow> g i = g j \<Longrightarrow> i = j"
  shows "(\<forall>i<n. fold (\<lambda>i r. r(g i := v i)) [0..<n] r (g i) = v i) \<and>
    (\<forall>y. (\<forall>i<n. y \<noteq> g i) \<longrightarrow> fold (\<lambda>i r. r(g i := v i)) [0..<n] r y = r y)"
  using assms
proof (induction n)
  case (Suc n)
  define R where "R = fold (\<lambda>i r. r(g i := v i)) [0..<n] r"
  have IH: "(\<forall>i<n. R (g i) = v i) \<and> (\<forall>y. (\<forall>i<n. y \<noteq> g i) \<longrightarrow> R y = r y)"
    unfolding R_def by (rule Suc.IH) (simp add: Suc.prems)
  have ne: "g i \<noteq> g n" if "i < n" for i using Suc.prems [of i n] that by auto
  have eq: "fold (\<lambda>i r. r(g i := v i)) [0..<Suc n] r = R(g n := v n)" by (simp add: R_def)
  show ?case unfolding eq using IH ne by (simp add: less_Suc_eq)
qed simp

lemma store_window_correct:
  assumes inj: "\<And>i j. i < len \<Longrightarrow> j < len \<Longrightarrow> get_globl_phy_attr (p + i) t = get_globl_phy_attr (p + j) t \<Longrightarrow> i = j"
  shows "i < len \<Longrightarrow> store_window p len t m r (get_globl_phy_attr (p + i) t) = m (p + i)"
    and "(\<And>i. i < len \<Longrightarrow> y \<noteq> get_globl_phy_attr (p + i) t) \<Longrightarrow> store_window p len t m r y = r y"
proof -
  have w: "(of_nat i :: u32) < len \<and> unat (of_nat i :: u32) = i" if "i < unat len" for i
  proof -
    have "i < 4294967296" using that unat_u32_less [of len] by linarith
    then have "unat (of_nat i :: u32) = i" by (rule unat_of_nat_u32)
    with that show ?thesis by (simp add: word_less_nat_alt)
  qed
  have inj': "i = j" if "i < unat len" "j < unat len"
    "get_globl_phy_attr (p + of_nat i) t = get_globl_phy_attr (p + of_nat j) t" for i j
    using inj [of "of_nat i" "of_nat j"] w [OF that(1)] w [OF that(2)] that(3) by metis
  note U = fold_updates [where n = "unat len" and g = "\<lambda>i. get_globl_phy_attr (p + of_nat i) t"
    and v = "\<lambda>i. m (p + of_nat i)" and r = r, OF inj', folded store_window_def]
  show "i < len \<Longrightarrow> store_window p len t m r (get_globl_phy_attr (p + i) t) = m (p + i)"
  proof -
    assume "i < len"
    then have "unat i < unat len" by (simp add: word_less_nat_alt)
    with U have "store_window p len t m r (get_globl_phy_attr (p + of_nat (unat i)) t) = m (p + of_nat (unat i))" by blast
    then show ?thesis by simp
  qed
  show "(\<And>i. i < len \<Longrightarrow> y \<noteq> get_globl_phy_attr (p + i) t) \<Longrightarrow> store_window p len t m r y = r y"
    using U w by blast
qed

section \<open>An open window\<close>

definition window :: "u32 \<Rightarrow> u32 \<Rightarrow> nat \<Rightarrow> u32 \<Rightarrow> kernel \<Rightarrow> kernel \<Rightarrow> bool" where
  "window attr len d p k k1 \<longleftrightarrow> 0 < len \<and> unat attr + unat len \<le> 3221225472 \<and>
     mm_inv (kmm k) \<and> mm_inv (kmm k1) \<and> umm_wf d (kmm k1) \<and> user_wf d (kmm k1) \<and>
     window_same (dynamic (kmm k)) {unat attr div 4096..<unat attr div 4096 + window_pages attr len} d (kmm k) (kmm k1) \<and>
     (\<exists>B. unat p = B * 4096 + unat attr mod 4096 \<and> opened B (window_pages attr len) (kmm k) (kmm k1)) \<and>
     (\<forall>i<len. get_globl_phy_attr (p + i) (kmm k1) = user_phy_attr (attr + i) d (kmm k1) \<and>
        user_frame (kmm k1) d (attr + i) \<noteq> 0) \<and>
     k1 = set_mem (load_window p len (kmm k1) (ram k) (kmem k)) (set_mm (kmm k1) k)"

text \<open>The state in which a window can be opened.\<close>

definition can_open :: "u32 \<Rightarrow> u32 \<Rightarrow> nat \<Rightarrow> mm_state \<Rightarrow> bool" where
  "can_open attr len d s \<longleftrightarrow> mm_inv s \<and> umm_wf d s \<and> direct_low s \<and> user_wf d s \<and>
     0 < len \<and> unat attr + unat len \<le> 3221225472 \<and>
     (\<exists>e \<le> unat (vmm_pos s). vmm_run s (window_pages attr len) e) \<and>
     2 * window_pages attr len + 2 \<le> card (pmm_free s)"

lemma open_window_correct:
  assumes "can_open attr len d (kmm k)" and "cur_pde k = page d"
  shows "\<exists>p k1. open_window attr len k = Some (p, k1) \<and> p \<noteq> NULL \<and> window attr len d p k k1"
proof -
  let ?s = "kmm k"
  obtain e where e: "vmm_run ?s (window_pages attr len) e" "e \<le> unat (vmm_pos ?s)"
    using assms(1) unfolding can_open_def by blast
  have c: "mm_inv ?s" "umm_wf d ?s" "direct_low ?s" "0 < len" "unat attr + unat len \<le> 3221225472"
    "user_wf d ?s" "2 * window_pages attr len + 2 \<le> card (pmm_free ?s)"
    using assms(1) by (simp_all add: can_open_def)
  from umm_mmap_kmm_correct [OF c(1-5) e] c(7) obtain p t where
    t: "umm_mmap_kmm attr len (page d) ?s = Some (p, t)" "p \<noteq> NULL" "\<forall>k<len. user_frame t d (attr + k) \<noteq> 0"
      "mm_inv t" "umm_wf d t" "shares p attr len d ?s t"
      "window_same (dynamic ?s) {unat attr div 4096..<unat attr div 4096 + window_pages attr len} d ?s t"
      "\<exists>B. unat p = B * 4096 + unat attr mod 4096 \<and> opened B (window_pages attr len) ?s t" by blast
  have "user_wf d t" using t(7) c(6) by (simp add: window_same_def)
  moreover have "get_globl_phy_attr (p + i) t = user_phy_attr (attr + i) d t" if "i < len" for i
  proof -
    have "user_frame t d (attr + i) \<noteq> 0" using t(3) that by blast
    then have "get_umm_value (attr + i) (page d) t \<noteq> 0" by (auto simp: user_frame_def)
    with t(6) that show ?thesis unfolding shares_def by blast
  qed
  ultimately show ?thesis
    using t c(1,4,5) assms(2) by (intro exI conjI) (auto simp: open_window_def window_def)
qed

lemma window_phy_inj:
  assumes "window attr len d p k k1" and "i < len" "b < PAGE_OFFSET" "user_frame (kmm k1) d b \<noteq> 0"
    and "get_globl_phy_attr (p + i) (kmm k1) = user_phy_attr b d (kmm k1)"
  shows "b = attr + i"
proof -
  let ?t = "kmm k1" and ?a = "attr + i"
  have a: "?a < PAGE_OFFSET" using assms(1,2) window_byte(4) by (auto simp: window_def)
  have f: "user_frame ?t d ?a \<noteq> 0" "user_phy_attr ?a d ?t = user_phy_attr b d ?t" "user_wf d ?t"
    using assms by (auto simp: window_def)
  have "user_frame ?t d x < 1048576" for x by (simp add: user_frame_def pte_frame_bound)
  note P = page_address [OF this]
  have u: "unat (user_phy_attr x d ?t) = user_frame ?t d x * 4096 + unat x mod 4096" for x
  proof -
    have "unat x mod 4096 < 4096" "user_frame ?t d x < 1048576" by (simp_all add: user_frame_def pte_frame_bound)
    then show ?thesis by (simp add: user_phy_attr_page unat_add32 P)
  qed
  have e: "user_frame ?t d ?a * 4096 + unat ?a mod 4096 = user_frame ?t d b * 4096 + unat b mod 4096"
    using u [of ?a] u [of b] f(2) by simp
  then have "(user_frame ?t d ?a * 4096 + unat ?a mod 4096) div 4096 = (user_frame ?t d b * 4096 + unat b mod 4096) div 4096"
    by (rule arg_cong)
  then have fr: "user_frame ?t d ?a = user_frame ?t d b" by simp
  with f(3) a assms(3) f(1) have "unat ?a div 4096 = unat b div 4096" unfolding user_wf_def by blast
  moreover have "unat ?a mod 4096 = unat b mod 4096" using e fr by simp
  ultimately have "unat ?a = unat b" by (metis div_mult_mod_eq)
  then show ?thesis by (metis word_unat_eq_iff)
qed

lemma window_load:
  assumes "window attr len d p k k1"
  shows "i < len \<Longrightarrow> kmem k1 (p + i) = user_byte d k1 (attr + i)" and "\<not> x - p < len \<Longrightarrow> kmem k1 x = kmem k x"
    and "ram k1 = ram k" and "tasks k1 = tasks k" and "screen k1 = screen k"
proof -
  have k1: "k1 = set_mem (load_window p len (kmm k1) (ram k) (kmem k)) (set_mm (kmm k1) k)"
    using assms unfolding window_def by blast
  show r: "ram k1 = ram k" by (subst k1) simp
  have m: "kmem k1 = load_window p len (kmm k1) (ram k) (kmem k)" by (subst (1) k1) simp
  show "tasks k1 = tasks k" by (subst k1) simp
  show "screen k1 = screen k" by (subst k1) simp
  show "\<not> x - p < len \<Longrightarrow> kmem k1 x = kmem k x" by (simp add: m load_window_def)
  show "kmem k1 (p + i) = user_byte d k1 (attr + i)" if "i < len"
    using assms that by (simp add: m load_window_def user_byte_def r window_def)
qed

text \<open>What closing it with any bytes does.\<close>

lemma window_close:
  assumes w: "window attr len d p k k1" and k2: "kmm k2 = kmm k1" "ram k2 = ram k1"
  defines "k3 \<equiv> close_window p len k2"
  shows "mm_inv (kmm k3)" and "umm_wf d (kmm k3)" and "user_wf d (kmm k3)"
    and "vmm_map (kmm k3) = vmm_map (kmm k)" and "pmm_free (kmm k3) = pmm_free (kmm k1)"
    and "b < PAGE_OFFSET \<Longrightarrow> get_umm_value b (page d) (kmm k3) = get_umm_value b (page d) (kmm k1)"
    and "i < len \<Longrightarrow> user_byte d k3 (attr + i) = kmem k2 (p + i)"
    and "b < PAGE_OFFSET \<Longrightarrow> user_frame (kmm k1) d b \<noteq> 0 \<Longrightarrow> \<not> b - attr < len \<Longrightarrow> user_byte d k3 b = user_byte d k1 b"
    and "kmem k3 = kmem k2" and "tasks k3 = tasks k2" and "screen k3 = screen k2"
proof -
  let ?t = "kmm k1" and ?u = "umm_ummap_kmm p len (kmm k1)"
  have W: "mm_inv (kmm k)" "mm_inv ?t" "0 < len" "unat attr + unat len \<le> 3221225472" "umm_wf d ?t" "user_wf d ?t"
    "window_same (dynamic (kmm k)) {unat attr div 4096..<unat attr div 4096 + window_pages attr len} d (kmm k) ?t"
    "\<And>i. i < len \<Longrightarrow> get_globl_phy_attr (p + i) ?t = user_phy_attr (attr + i) d ?t"
    "\<And>i. i < len \<Longrightarrow> user_frame ?t d (attr + i) \<noteq> 0"
    using w unfolding window_def by blast+
  obtain B where B: "opened B (window_pages attr len) (kmm k) ?t" "unat p = B * 4096 + unat attr mod 4096"
    using w unfolding window_def by blast
  note U = umm_ummap_kmm_correct [OF W(1-4) B W(7)]
  have k3: "k3 = set_mm ?u (k2\<lparr>ram := store_window p len ?t (kmem k2) (ram k1)\<rparr>)"
    by (simp add: k3_def close_window_def k2)
  then have m3: "kmm k3 = ?u" and r3: "ram k3 = store_window p len ?t (kmem k2) (ram k1)" by simp_all
  show "mm_inv (kmm k3)" "vmm_map (kmm k3) = vmm_map (kmm k)" "pmm_free (kmm k3) = pmm_free (kmm k1)"
    using U by (simp_all add: m3)
  have "entry ?u = entry ?t" using U by (intro entry_cong) simp
  moreover have "pmm_total ?u = pmm_total ?t" "dmmap_page_count ?u = dmmap_page_count ?t"
    using U by (simp_all add: window_same_def)
  ultimately show "umm_wf d (kmm k3)" unfolding m3 using U by (intro umm_wf_cong [OF W(5)]) simp_all
  show "user_wf d (kmm k3)" using U W(6) by (simp add: m3 window_same_def)
  have pm: "page_mem ?u = page_mem ?t" using U by blast
  have g: "get_umm_value b (page d) ?u = get_umm_value b (page d) ?t" for b by (rule get_umm_value_cong [OF pm])
  then show "b < PAGE_OFFSET \<Longrightarrow> get_umm_value b (page d) (kmm k3) = get_umm_value b (page d) (kmm k1)"
    by (simp add: m3)
  have up: "user_phy_attr b d (kmm k3) = user_phy_attr b d ?t" for b by (simp add: m3 user_phy_attr_def g)
  have bo: "attr + i < PAGE_OFFSET" if "i < len" for i using window_byte(4) [OF that W(4)] .
  have inj: "i = j" if "i < len" "j < len" "get_globl_phy_attr (p + i) ?t = get_globl_phy_attr (p + j) ?t" for i j
    using window_phy_inj [OF w that(1) bo [OF that(2)] W(9) [OF that(2)]] that(3) W(8) [OF that(2)] by simp
  show "user_byte d k3 (attr + i) = kmem k2 (p + i)" if i: "i < len"
  proof -
    have "store_window p len ?t (kmem k2) (ram k1) (get_globl_phy_attr (p + i) ?t) = kmem k2 (p + i)"
      by (rule store_window_correct(1) [OF inj i])
    then show ?thesis unfolding user_byte_def up r3 W(8) [OF i] .
  qed
  show "user_byte d k3 b = user_byte d k1 b"
    if b: "b < PAGE_OFFSET" "user_frame (kmm k1) d b \<noteq> 0" "\<not> b - attr < len"
  proof -
    have ne: "user_phy_attr b d ?t \<noteq> get_globl_phy_attr (p + i) ?t" if "i < len" for i
      using window_phy_inj [OF w that b(1,2)] that b(3) by (metis add_diff_cancel_left')
    have "store_window p len ?t (kmem k2) (ram k1) (user_phy_attr b d ?t) = ram k1 (user_phy_attr b d ?t)"
      by (rule store_window_correct(2)) (use inj ne in blast)+
    then show ?thesis unfolding user_byte_def up r3 .
  qed
  show "kmem k3 = kmem k2" "tasks k3 = tasks k2" "screen k3 = screen k2" by (simp_all add: k3)
qed

text \<open>A byte of the kernel's own: in no frame that the process has, or on a page of the kernel that is taken.\<close>

definition kernel_own :: "nat \<Rightarrow> mm_state \<Rightarrow> u32 \<Rightarrow> bool" where
  "kernel_own d s x \<longleftrightarrow> (let g = unat x div 4096; n = unat (dmmap_page_count s) in
     if g < n then \<forall>b<PAGE_OFFSET. user_frame s d b \<noteq> g else vmm_map s (g - n) \<noteq> None)"

lemma window_address:
  assumes w: "window attr len d p k k1" and i: "i < len"
  shows "unat (p + i) = unat p + unat i"
    and "\<exists>B. opened B (window_pages attr len) (kmm k) (kmm k1) \<and> B + (unat attr mod 4096 + unat i) div 4096 < 196608 \<and>
      unat (p + i) div 4096 = B + (unat attr mod 4096 + unat i) div 4096"
proof -
  let ?s = "kmm k" and ?n = "unat (dmmap_page_count (kmm k))"
  have W: "unat attr + unat len \<le> 3221225472" "mm_inv ?s" using w unfolding window_def by blast+
  obtain B where B: "unat p = B * 4096 + unat attr mod 4096" "opened B (window_pages attr len) ?s (kmm k1)"
    using w unfolding window_def by blast
  let ?j = "(unat attr mod 4096 + unat i) div 4096"
  note b = window_byte [OF i W(1)]
  have wf: "?n + unat (vmmap_page_count ?s) \<le> 196608" using W(2) by (simp add: mm_inv_def vmm_wf_def)
  have Bn: "B + window_pages attr len \<le> 196608 \<or> window_pages attr len = 1 \<and> B < ?n"
    using B(2) wf by (auto simp: opened_def fresh_pages_def)
  have "unat attr mod 4096 + unat i = ?j * 4096 + (unat attr mod 4096 + unat i) mod 4096" by simp
  moreover have "?j < window_pages attr len" by (rule b(1))
  ultimately have eq: "unat p + unat i = (B + ?j) * 4096 + (unat attr mod 4096 + unat i) mod 4096"
    using B(1) by (simp add: algebra_simps)
  moreover have bnd: "B + ?j < 196608" using Bn b(1) wf by auto
  moreover have "(unat attr mod 4096 + unat i) mod 4096 < 4096" by simp
  ultimately have "unat p + unat i < 2 ^ 32" by simp
  then show u: "unat (p + i) = unat p + unat i" using unat_add32 [of p i] by simp
  have "unat (p + i) div 4096 = B + ?j" unfolding u eq by simp
  with B(2) bnd show "\<exists>B. opened B (window_pages attr len) ?s (kmm k1) \<and> B + ?j < 196608 \<and> unat (p + i) div 4096 = B + ?j"
    by blast
qed

lemma window_apart:
  assumes w: "window attr len d p k k1" and low: "direct_low (kmm k)" and own: "kernel_own d (kmm k) x"
  shows "\<not> x - p < len"
proof
  assume i: "x - p < len"
  let ?s = "kmm k" and ?i = "x - p" and ?n = "unat (dmmap_page_count (kmm k))"
  have W: "0 < len" "unat attr + unat len \<le> 3221225472"
    "get_globl_phy_attr (p + ?i) (kmm k1) = user_phy_attr (attr + ?i) d (kmm k1)"
    using w i unfolding window_def by blast+
  note b = window_byte [OF i W(2)]
  from window_address [OF w i] obtain B where B: "opened B (window_pages attr len) ?s (kmm k1)"
    and bnd: "B + (unat attr mod 4096 + unat ?i) div 4096 < 196608"
    and x: "unat (p + ?i) div 4096 = B + (unat attr mod 4096 + unat ?i) div 4096" by blast
  let ?j = "(unat attr mod 4096 + unat ?i) div 4096"
  have x: "unat x div 4096 = B + ?j" using x by simp
  from B consider "window_pages attr len = 1" "B < ?n" "kmm k1 = ?s"
    | h where "B = ?n + h" "fresh_pages h (window_pages attr len) ?s (kmm k1)"
    unfolding opened_def by blast
  then show False
  proof cases
    case 1
    then have j: "?j = 0" using b(1) by simp
    then have g: "unat (x div PAGE_SIZE) = B" using x by simp
    have "get_globl_phy_attr x ?s = user_phy_attr (attr + ?i) d ?s" using W(3) by (simp add: 1)
    then have e: "page (vmm_frame ?s (x div PAGE_SIZE)) + x mod PAGE_SIZE =
        page (user_frame ?s d (attr + ?i)) + (attr + ?i) mod PAGE_SIZE"
      by (simp add: kernel_phy_attr user_phy_attr_page)
    have f: "vmm_frame ?s (x div PAGE_SIZE) = B" using low 1(2) g by (simp add: direct_low_def)
    have fb: "B < 1048576" "user_frame ?s d (attr + ?i) < 1048576"
      using bnd by (simp_all add: user_frame_def pte_frame_bound)
    have u: "unat (page f + y mod PAGE_SIZE) div 4096 = f" if "f < 1048576" for f and y :: u32
      using that by (simp add: unat_add32 page_address)
    have "user_frame ?s d (attr + ?i) = B" using arg_cong [OF e, of "\<lambda>a. unat a div 4096"] u fb f by simp
    then show False using own x j 1(2) b(4) by (auto simp: kernel_own_def Let_def)
  next
    case 2
    then have "unat x div 4096 - ?n = h + ?j" "\<not> unat x div 4096 < ?n" using x by simp_all
    then show False using own 2(2) b(1) by (auto simp: kernel_own_def Let_def fresh_pages_def)
  qed
qed

section \<open>A sample kernel\<close>

text \<open>One process, with its page directory in frame 1, on the sample volume; \<open>m\<close> is the memory manager.\<close>

definition kernel_sample :: "mm_state \<Rightarrow> kernel" where
  "kernel_sample m =
     \<lparr>files = disk_state.extend (sample_volume\<lparr>heap := heap_sample\<lparr>mm := m\<rparr>\<rparr>) (file_state.fields 5),
      tasks = sched_state.fields 1 4 (\<lambda>_. sample_proc RUN 1 1\<lparr>pde := 0x1000\<rparr>) (\<lambda>_. 0) (\<lambda>_. 0) 1
        \<lparr>esp = 0, ebp = 0, eflags = 0\<rparr> 10,
      ram = ucast, screen = console_init console_sample, keyboard = kbd_sample, key_c = 0, key_len = 0, key_lock = 0\<rparr>"

lemma kernel_sample_simps [simp]:
  "kmm (kernel_sample m) = m" "cur_pde (kernel_sample m) = 0x1000" "ram (kernel_sample m) = ucast"
  "screen (kernel_sample m) = console_init console_sample" "keyboard (kernel_sample m) = kbd_sample"
  "kmem (kernel_sample m) = dmem sample_volume" "key_c (kernel_sample m) = 0" "key_len (kernel_sample m) = 0"
  "disk_state.truncate (files (kernel_sample m)) = sample_volume\<lparr>heap := heap_sample\<lparr>mm := m\<rparr>\<rparr>"
  "cur_disk (files (kernel_sample m)) = 5" "key_lock (kernel_sample m) = 0"
  "procs (ksched (kernel_sample m)) q = sample_proc RUN 1 1\<lparr>pde := 0x1000\<rparr>"
  "current_process (ksched (kernel_sample m)) = 1"
  by (simp_all add: kernel_sample_def kmm_def cur_pde_def ksched_def kmem_def disk_state.defs file_state.defs
      mm_state.defs sched_state.defs)

end
