(* ===== verification/Exec.thy ===== *)
theory Exec
  imports Kernel
begin

text \<open>
  User processes: \<open>src/kernel/process/exec.c\<close>, the loader \<open>src/kernel/binfmt/elf.c\<close> with \<open>binfmt.c\<close> and \<open>a.out.c\<close>, and
  \<open>switch_to_user_mode\<close> of \<open>switch.S\<close>.  Loading is modelled up to the jump into user mode; the functions whose
  addresses are put on a new stack, and the addresses of local variables and literals, are
  parameters.  \<open>None\<close> is a search or a walk that never ends.
\<close>

section \<open>ELF files\<close>

abbreviation PT_LOAD :: u32 where "PT_LOAD \<equiv> 1"

record elf32_header =
  e_ident :: "u8 list"
  e_type :: u16
  e_machine :: u16
  e_version :: u32
  e_entry :: u32
  e_phoff :: u32
  e_shoff :: u32
  e_flags :: u32
  e_ehsize :: u16
  e_phentsize :: u16
  e_phnum :: u16
  e_shentsize :: u16
  e_shnum :: u16
  e_shstrndx :: u16

record elf32_program_header =
  p_type :: u32
  p_offset :: u32
  p_vaddr :: u32
  p_paddr :: u32
  p_filesz :: u32
  p_memsz :: u32
  p_flags :: u32
  p_align :: u32

text \<open>The packed structures as they lie in memory.\<close>

definition elf_header_at :: "memory \<Rightarrow> u32 \<Rightarrow> elf32_header" where
  "elf_header_at m a =
     \<lparr>e_ident = map (\<lambda>i. m (a + of_nat i)) [0..<16],
      e_type = get16 m (a + 16), e_machine = get16 m (a + 18), e_version = get32 m (a + 20),
      e_entry = get32 m (a + 24), e_phoff = get32 m (a + 28), e_shoff = get32 m (a + 32),
      e_flags = get32 m (a + 36), e_ehsize = get16 m (a + 40), e_phentsize = get16 m (a + 42),
      e_phnum = get16 m (a + 44), e_shentsize = get16 m (a + 46), e_shnum = get16 m (a + 48),
      e_shstrndx = get16 m (a + 50)\<rparr>"

definition program_header_at :: "memory \<Rightarrow> u32 \<Rightarrow> elf32_program_header" where
  "program_header_at m a =
     \<lparr>p_type = get32 m a, p_offset = get32 m (a + 4), p_vaddr = get32 m (a + 8), p_paddr = get32 m (a + 12),
      p_filesz = get32 m (a + 16), p_memsz = get32 m (a + 20), p_flags = get32 m (a + 24), p_align = get32 m (a + 28)\<rparr>"

text \<open>Where the two headers are on the stack; the frame of the file system below them.\<close>

record elf_frame =
  elf_fat :: fat_frame
  header_var :: u32
  pheader_var :: u32

section \<open>Loading\<close>

definition read_file_at ::
    "drive \<Rightarrow> elf_frame \<Rightarrow> u32 \<Rightarrow> u32 \<Rightarrow> u32 \<Rightarrow> u32 \<Rightarrow> kernel \<Rightarrow> (int \<times> kernel) option" where
  "read_file_at dev ef path buf count offect = on_files (file_read dev (elf_fat ef) path buf count (ucast offect))"

text \<open>The part of \<open>load_program\<close>'s body under \<open>PT_LOAD\<close>.\<close>

definition load_segment ::
    "drive \<Rightarrow> elf_frame \<Rightarrow> u32 \<Rightarrow> elf32_program_header \<Rightarrow> kernel \<Rightarrow> (bool \<times> kernel) option" where
  "load_segment dev ef path ph k =
     (let sz = (if p_memsz ph > p_filesz ph then p_memsz ph else p_filesz ph) in
      do { (p, k1) \<leftarrow> open_window (p_vaddr ph) sz k;
           if p = NULL then Some (False, k1)
           else do { (r, k2) \<leftarrow> read_file_at dev ef path p (p_filesz ph) (p_offset ph) k1;
                     if r = -1 then Some (False, close_window p sz k2)
                     else Some (True, close_window p sz
                       (set_mem (memset (p + p_filesz ph) 0 (sz - p_filesz ph) (kmem k2)) k2)) } })"

fun load_loop ::
    "drive \<Rightarrow> elf_frame \<Rightarrow> u32 \<Rightarrow> u32 \<Rightarrow> u32 \<Rightarrow> nat \<Rightarrow> u32 \<Rightarrow> kernel \<Rightarrow> (bool \<times> kernel) option" where
  "load_loop dev ef path offect entsize 0 n k = Some (True, k)"
| "load_loop dev ef path offect entsize (Suc left) n k =
     do { (r, k1) \<leftarrow> read_file_at dev ef path (pheader_var ef) 32 (offect + entsize * n) k;
          if r = -1 then Some (False, k1)
          else (let ph = program_header_at (kmem k1) (pheader_var ef) in
            do { (ok, k2) \<leftarrow> (if p_type ph = PT_LOAD then load_segment dev ef path ph k1 else Some (True, k1));
                 if ok then load_loop dev ef path offect entsize left (n + 1) k2 else Some (False, k2) }) }"

definition load_program ::
    "drive \<Rightarrow> elf_frame \<Rightarrow> u32 \<Rightarrow> u32 \<Rightarrow> u32 \<Rightarrow> u32 \<Rightarrow> kernel \<Rightarrow> (int \<times> kernel) option" where
  "load_program dev ef path offect entsize num k =
     do { (ok, k1) \<leftarrow> load_loop dev ef path offect entsize (unat num) 0 k;
          Some (if ok then sint num else -1, k1) }"

section \<open>Entering user mode\<close>

text \<open>What \<open>iret\<close> loads, and the data segment registers.\<close>

record user_context =
  u_cs :: u16
  u_eip :: u32
  u_eflags :: u32
  u_ss :: u16
  u_esp :: u32
  u_data :: u16

definition switch_to_user_mode :: "u32 \<Rightarrow> u32 \<Rightarrow> u32 \<Rightarrow> user_context" where
  "switch_to_user_mode entry_attr stack flags =
     \<lparr>u_cs = push_bit 3 3 OR 3, u_eip = entry_attr, u_eflags = flags OR 0x200,
      u_ss = push_bit 3 4 OR 3, u_esp = stack, u_data = push_bit 3 4 OR 3\<rparr>"

datatype outcome = Returned | User user_context

definition is_elf :: "elf32_header \<Rightarrow> bool" where
  "is_elf h \<longleftrightarrow> e_ident h ! 0 = 0x7f \<and> e_ident h ! 1 = 0x45 \<and> e_ident h ! 2 = 0x4c \<and> e_ident h ! 3 = 0x46 \<and>
     e_ident h ! 4 = 0x1 \<and> e_type h = 0x2"

text \<open>\<open>flags\<close> is what \<open>switch_to_user_mode\<close> finds in the flag register.\<close>

definition elf_exec :: "drive \<Rightarrow> elf_frame \<Rightarrow> u32 \<Rightarrow> u32 \<Rightarrow> kernel \<Rightarrow> (outcome \<times> kernel) option" where
  "elf_exec dev ef flags path k =
     do { (r, k1) \<leftarrow> read_file_at dev ef path (header_var ef) 52 0 k;
          if r = -1 then Some (Returned, k1)
          else (let h = elf_header_at (kmem k1) (header_var ef) in
            if is_elf h then
              do { (n, k2) \<leftarrow> load_program dev ef path (e_phoff h) (ucast (e_phentsize h)) (ucast (e_phnum h)) k1;
                   if n \<noteq> -1
                   then Some (User (switch_to_user_mode (e_entry h) PAGE_OFFSET flags),
                              set_heap (kfree path (heap (files k2))) k2)
                   else Some (Returned, k2) }
            else Some (Returned, k1)) }"

definition a_out_exec :: "u32 \<Rightarrow> kernel \<Rightarrow> kernel" where
  "a_out_exec path k = k"

definition binfmt_exec :: "drive \<Rightarrow> elf_frame \<Rightarrow> u32 \<Rightarrow> u32 \<Rightarrow> kernel \<Rightarrow> (outcome \<times> kernel) option" where
  "binfmt_exec dev ef flags path k =
     do { (res, k1) \<leftarrow> elf_exec dev ef flags path k;
          case res of
            User c \<Rightarrow> Some (User c, k1)
          | Returned \<Rightarrow>
              (let k2 = a_out_exec path k1 in Some (Returned, set_heap (kfree path (heap (files k2))) k2)) }"

section \<open>The end of a process\<close>

definition exec_exit :: "'a sched_state_scheme \<Rightarrow> 'a sched_state_scheme" where
  "exec_exit s =
     (let cur = current_process s;
          pd = pde (procs s cur);
          s1 = upd_proc cur (\<lambda>p. p\<lparr>pde := kernel_mmap_pde_addr s\<rparr>) s;
          s2 = load_pde (kernel_mmap_pde_addr s1) s1
      in process_exit (umm_free pd s2))"

text \<open>The bytes of ``Segmentation Fault'' and a newline.\<close>

definition fault_message :: "u8 list" where
  "fault_message = [0x53, 0x65, 0x67, 0x6d, 0x65, 0x6e, 0x74, 0x61, 0x74, 0x69, 0x6f, 0x6e, 0x20,
     0x46, 0x61, 0x75, 0x6c, 0x74, 0x0a]"

text \<open>\<open>code\<close> is the number of the exception, \<open>cr2\<close> the address that \<open>get_page_fault_attr\<close> reads.\<close>

definition user_isr_handler :: "u32 \<Rightarrow> u32 \<Rightarrow> kernel \<Rightarrow> kernel" where
  "user_isr_handler code cr2 k =
     (let s = ksched k;
          (r, s1) = (if code = 0x0e then umm_handler cr2 (pde (procs s (current_process s))) s else (0, s))
      in if r \<noteq> 0 then set_sched s1 k
         else set_sched (exec_exit (enable_intr s1)) (k\<lparr>screen := console_write fault_message (screen k)\<rparr>))"

section \<open>The start of a process\<close>

definition exec :: "u32 \<Rightarrow> u32 \<Rightarrow> u32 \<Rightarrow> kernel \<Rightarrow> (u32 \<times> kernel) option" where
  "exec binfmt_fn exit_fn path k =
     (case umm_alloc_pde (kmm k) of (pd, t) \<Rightarrow>
        (let k1 = set_mm t k in
         if pd = NULL then Some (0, k1)
         else do { n \<leftarrow> strlen path (kmem k1);
                   (p, h) \<leftarrow> kmalloc (n + 1) (heap (files k1));
                   (let k2 = set_heap h k1 in
                    if p = NULL then Some (0, k2)
                    else do { (_, m) \<leftarrow> strcpy p path (kmem k2);
                              (let k3 = set_mem m k2 in
                               do { (n, s) \<leftarrow> process_create binfmt_fn p exit_fn pd (ksched k3);
                                    (let k4 = set_sched s k3 in
                                     Some (n, if n = 0 then set_mm (umm_free pd (kmm k4)) k4 else k4)) }) }) }))"

text \<open>The walk over the disks for one that holds the first program; \<open>init\<close> is where its name is stored.\<close>

partial_function (option) init_loop ::
    "drive \<Rightarrow> fat_frame \<Rightarrow> u32 \<Rightarrow> u32 \<Rightarrow> u32 \<Rightarrow> u32 \<Rightarrow> kernel \<Rightarrow> kernel option" where
  "init_loop dev fr binfmt_fn exit_fn init i k =
     (let n = get_disk_id i (disk_state.truncate (files k)) in
      if n = -1 then Some k
      else Option.bind (on_files (on_disks (disk_fread dev fr (word_of_int n) init NULL 0 0)) k) (\<lambda>(r, k1).
        if r \<noteq> -1
        then Option.bind (exec binfmt_fn exit_fn init (k1\<lparr>files := set_disk (word_of_int n) (files k1)\<rparr>)) (\<lambda>(_, k2). Some k2)
        else init_loop dev fr binfmt_fn exit_fn init (i + 1) k1))"

definition exec_init :: "drive \<Rightarrow> fat_frame \<Rightarrow> u32 \<Rightarrow> u32 \<Rightarrow> u32 \<Rightarrow> kernel \<Rightarrow> kernel option" where
  "exec_init dev fr binfmt_fn exit_fn init k = init_loop dev fr binfmt_fn exit_fn init 0 k"

section \<open>The memory manager inside larger states\<close>

text \<open>Predicates of the memory manager do not depend on the fields behind its own.\<close>

definition same_mm :: "'a mm_state_scheme \<Rightarrow> 'b mm_state_scheme \<Rightarrow> bool" where
  "same_mm s t \<longleftrightarrow> 
     mm_state.truncate (s\<lparr>intr_flag := True, cr3 := 0\<rparr>) = mm_state.truncate (t\<lparr>intr_flag := True, cr3 := 0\<rparr>)"

lemma same_mm_fields:
  assumes "same_mm s t"
  shows "pmm_state.truncate s = pmm_state.truncate t" "globl_mmap_pte s = globl_mmap_pte t"
    "kernel_mmap_pde s = kernel_mmap_pde t" "kernel_mmap_pde_addr s = kernel_mmap_pde_addr t"
    "dmmap_page_count s = dmmap_page_count t" "vmmap_page_count s = vmmap_page_count t"
    "vmm_free_page_count s = vmm_free_page_count t" "vmm_pos s = vmm_pos t" "page_mem s = page_mem t"
  using assms by (simp_all add: same_mm_def mm_state.truncate_def pmm_state.truncate_def)

lemma same_mm_cong:
  assumes "same_mm s t"
  shows "mm_inv s = mm_inv t" "umm_wf d s = umm_wf d t" "umm_owned d s = umm_owned d t"
    "umm_frames d s = umm_frames d t" "vmm_map s = vmm_map t" "pmm_free s = pmm_free t"
    "get_umm_value b p s = get_umm_value b p t"
proof -
  note f = same_mm_fields [OF assms]
  note P = pmm_ok_cong [OF f(1)]
  show m: "vmm_map s = vmm_map t" by (simp add: fun_eq_iff vmm_map_def vmm_frame_def f)
  show "pmm_free s = pmm_free t" by (rule P)
  have e: "entry s = entry t" by (simp add: fun_eq_iff entry_def read_entry_def f)
  show "mm_inv s = mm_inv t" by (simp add: mm_inv_def vmm_wf_def vmm_unmapped_def P f m)
  show "umm_wf d s = umm_wf d t" "umm_owned d s = umm_owned d t" "umm_frames d s = umm_frames d t"
    by (simp_all add: umm_wf_def umm_owned_def umm_frames_def table_frames_def umm_table_def e P f)
  show "get_umm_value b p s = get_umm_value b p t" by (simp add: get_umm_value_def read_entry_def f)
qed

lemma same_mm_steps [simp]:
  "same_mm (upd_proc p f s) s" "same_mm (load_pde x s) s" "same_mm (mm_state.truncate s) s"
  "same_mm (enable_intr s) s" "same_mm s t \<Longrightarrow> same_mm (upd_proc p f s) t" "same_mm s t \<Longrightarrow> same_mm (load_pde x s) t"
  by (simp_all add: same_mm_def upd_proc_def load_pde_def enable_intr_def mm_state.truncate_def)

lemma ksched_truncate [simp]: "mm_state.truncate (ksched k) = kmm k" "mm_state.more (ksched k) = tasks k"
  by (simp_all add: ksched_def mm_state.truncate_def mm_state.extend_def)

lemma cr3_truncate [simp]: "cr3 (mm_state.truncate s) = cr3 s" "cr3 (ksched k) = cr3 (kmm k)"
  by (simp_all add: ksched_def mm_state.truncate_def mm_state.extend_def)

lemma ksched_set_sched [simp]: "ksched (set_sched t k) = t"
  by (cases t) (simp add: ksched_def set_sched_def kmm_def set_mm_def mm_state.truncate_def mm_state.extend_def)

lemma ksched_screen [simp]: "ksched (k\<lparr>screen := c\<rparr>) = ksched k" "ram (k\<lparr>screen := c\<rparr>) = ram k"
  by (simp_all add: ksched_def kmm_def)

lemma set_sched_frame [simp]:
  "screen (set_sched t k) = screen k" "ram (set_sched t k) = ram k" "kmem (set_sched t k) = kmem k"
  "kmm (set_sched t k) = mm_state.truncate t" "keyboard (set_sched t k) = keyboard k"
  by (cases t; simp add: set_sched_def set_mm_def kmem_def kmm_def mm_state.truncate_def)+

section \<open>What operations on address spaces leave alone\<close>

definition outside_mm :: "'a mm_state_scheme \<Rightarrow> u32 \<times> u32 \<times> 'a" where
  "outside_mm s = (kernel_mmap_pde_addr s, cr3 s, mm_state.more s)"

lemma outside_mm_pmm: "pmm_state.more s = pmm_state.more t \<Longrightarrow> outside_mm s = outside_mm t"
  using mm_more_cong [of s t] mm_more_pmm [of s t] by (simp add: outside_mm_def)

lemma outside_mm_write [simp]:
  "outside_mm (write_entry a i v s) = outside_mm s" "outside_mm (enable_intr s) = outside_mm s"
  "outside_mm (disable_intr s) = outside_mm s"
  by (simp_all add: outside_mm_def write_entry_def enable_intr_def disable_intr_def)

lemma outside_mm_dmm: "outside_mm (snd (dmm_alloc_page n s)) = outside_mm s"
proof -
  obtain a u where up: "pmm_up_alloc_page n (disable_intr s) = (a, u)" by (cases "pmm_up_alloc_page n (disable_intr s)")
  have "outside_mm u = outside_mm (disable_intr s)"
    using pmm_up_alloc_page_more [of n "disable_intr s"] up by (intro outside_mm_pmm) simp
  moreover have "outside_mm (pmm_free_page a n (enable_intr u)) = outside_mm (enable_intr u)"
    by (rule outside_mm_pmm) simp
  ultimately show ?thesis using up by (simp add: dmm_alloc_page_def Let_def)
qed

lemma outside_mm_set: "outside_mm (snd (set_umm_value a v d s)) = outside_mm s"
proof -
  obtain p u where al: "dmm_alloc_page 1 s = (p, u)" by (cases "dmm_alloc_page 1 s")
  have "outside_mm (for_loop 0 n (\<lambda>i s. write_entry p i 0 s) w) = outside_mm w" for n and w :: "'a mm_state_scheme"
    by (rule for_loop_preserves) simp
  moreover have "outside_mm u = outside_mm s" using outside_mm_dmm [of 1 s] al by simp
  ultimately show ?thesis using al by (auto simp: set_umm_value_def Let_def)
qed

lemma outside_mm_handler: "outside_mm (snd (umm_handler a d s)) = outside_mm s"
proof -
  obtain p u where al: "pmm_alloc_page s = (p, u)" by (cases "pmm_alloc_page s")
  obtain r w where set: "set_umm_value a (set_page p PAGE_PWU) d u = (r, w)"
    by (cases "set_umm_value a (set_page p PAGE_PWU) d u")
  have "outside_mm u = outside_mm s" using pmm_alloc_page_more [of s] al by (intro outside_mm_pmm) simp
  moreover have "outside_mm w = outside_mm u" using outside_mm_set [of a "set_page p PAGE_PWU" d u, unfolded set] by simp
  moreover have "outside_mm (pmm_free_page p 1 w) = outside_mm w" by (rule outside_mm_pmm) simp
  ultimately show ?thesis using al set by (simp add: umm_handler_def)
qed

lemma pmm_more_umm_free: "pmm_state.more (umm_free d s) = pmm_state.more s"
proof -
  have tab: "pmm_state.more (umm_free_table pte w) = pmm_state.more w" for pte and w :: "'a mm_state_scheme"
    unfolding umm_free_table_def by (rule for_loop_preserves) simp
  have "pmm_state.more (for_loop 0 n (\<lambda>m s. if get_page_attr (read_entry d m s) \<noteq> 0
      then (let pte = get_page_attr (read_entry d m s) in dmm_free_page pte 1 (umm_free_table pte s)) else s) s) =
    pmm_state.more s" for n
    by (rule for_loop_preserves) (simp add: Let_def dmm_free_page_def tab)
  then show ?thesis by (simp add: umm_free_def dmm_free_page_def)
qed

lemma umm_handler_failed:
  assumes "umm_handler a d s = (0, t)"
  shows "page_mem t = page_mem s"
proof -
  obtain p u where al: "pmm_alloc_page s = (p, u)" by (cases "pmm_alloc_page s")
  have u: "page_mem u = page_mem s" using pmm_alloc_page_mm(9) [of s] al by simp
  obtain r w where set: "set_umm_value a (set_page p PAGE_PWU) d u = (r, w)"
    by (cases "set_umm_value a (set_page p PAGE_PWU) d u")
  have w: "page_mem w = page_mem u" if "r = 0"
  proof -
    obtain q v where dm: "dmm_alloc_page 1 u = (q, v)" by (cases "dmm_alloc_page 1 u")
    obtain b x where up: "pmm_up_alloc_page 1 (disable_intr u) = (b, x)" by (cases "pmm_up_alloc_page 1 (disable_intr u)")
    have "page_mem x = page_mem u" using pmm_up_alloc_page_mm(9) [of 1 "disable_intr u"] up by simp
    then have "page_mem v = page_mem u" using dm up by (auto simp: dmm_alloc_page_def Let_def split: if_splits)
    with set that dm show ?thesis by (auto simp: set_umm_value_def Let_def split: if_splits)
  qed
  show ?thesis using assms al set u w by (auto simp: umm_handler_def split: if_splits)
qed

section \<open>The end of a process frees its memory\<close>

lemma sched_outside_mm:
  assumes "outside_mm s = outside_mm t"
  shows "current_process s = current_process t" "procs s = procs t" "cr3 s = cr3 t"
    "kernel_mmap_pde_addr s = kernel_mmap_pde_addr t"
  using assms sched_more_cong [of s t] by (simp_all add: outside_mm_def)

lemma exec_exit_correct:
  assumes inv: "mm_inv s" "umm_wf d s" "umm_owned d s" and pd: "pde (procs s (current_process s)) = page d"
  defines "t \<equiv> exec_exit s"
  shows "mm_inv t \<and> vmm_map t = vmm_map s \<and> pmm_free t = pmm_free s \<union> umm_frames d s \<and>
    umm_frames d s \<inter> pmm_free s = {} \<and> cr3 t = kernel_mmap_pde_addr s \<and> current_process t = current_process s \<and>
    procs t = (procs s)(current_process s := (procs s (current_process s))\<lparr>pde := kernel_mmap_pde_addr s, state := EXIT\<rparr>)"
proof -
  let ?c = "current_process s" and ?a = "kernel_mmap_pde_addr s"
  define u where "u = load_pde ?a (upd_proc ?c (\<lambda>p. p\<lparr>pde := ?a\<rparr>) s)"
  have "same_mm u s" by (simp add: u_def)
  note M = same_mm_cong [OF this]
  note F = umm_free_correct [of u d, unfolded M, OF inv]
  have "outside_mm (umm_free (page d) u) = outside_mm u" by (rule outside_mm_pmm) (rule pmm_more_umm_free)
  note O = sched_outside_mm [OF this]
  have O: "current_process (umm_free (page d) u) = ?c" "cr3 (umm_free (page d) u) = ?a"
    "procs (umm_free (page d) u) = (procs s)(?c := (procs s ?c)\<lparr>pde := ?a\<rparr>)"
    unfolding O by (simp_all add: u_def load_pde_def upd_proc_def)
  define w where "w = umm_free (page d) u"
  have t: "t = upd_proc ?c (\<lambda>p. p\<lparr>state := EXIT\<rparr>) w"
    using O by (simp add: t_def exec_exit_def Let_def process_exit_def w_def u_def pd upd_proc_def)
  have "same_mm t w" by (simp add: t)
  note N = same_mm_cong [OF this]
  show ?thesis
    using F O by (simp add: N w_def [symmetric]) (simp add: t upd_proc_def fun_eq_iff)
qed

text \<open>What stays: all page tables and the mappings of the kernel, and everything of the scheduler but the processes.\<close>

definition tables_same :: "'a mm_state_scheme \<Rightarrow> 'b mm_state_scheme \<Rightarrow> bool" where
  "tables_same s t \<longleftrightarrow> page_mem t = page_mem s \<and> globl_mmap_pte t = globl_mmap_pte s \<and> kernel_mmap_pde t = kernel_mmap_pde s \<and>
     dmmap_page_count t = dmmap_page_count s \<and> vmmap_page_count t = vmmap_page_count s"

definition sched_rest_same :: "'a sched_state_scheme \<Rightarrow> 'a sched_state_scheme \<Rightarrow> bool" where
  "sched_rest_same s t \<longleftrightarrow> current_process t = current_process s \<and> new_pid t = new_pid s \<and> stack_mem t = stack_mem s \<and>
     lock_mem t = lock_mem s \<and> esp0 t = esp0 s \<and> cpu t = cpu s \<and> timer_ticks t = timer_ticks s"

lemma exec_exit_frame: "tables_same s (exec_exit s) \<and> sched_rest_same s (exec_exit s)"
proof -
  let ?c = "current_process s" and ?a = "kernel_mmap_pde_addr s"
  define u where "u = load_pde ?a (upd_proc ?c (\<lambda>p. p\<lparr>pde := ?a\<rparr>) s)"
  define w where "w = umm_free (pde (procs s ?c)) u"
  have m: "pmm_state.more w = pmm_state.more u" unfolding w_def by (rule pmm_more_umm_free)
  note W = mm_more_cong [OF m] sched_more_cong [OF mm_more_pmm [OF m]]
  have U: "page_mem u = page_mem s" "globl_mmap_pte u = globl_mmap_pte s" "kernel_mmap_pde u = kernel_mmap_pde s"
    "dmmap_page_count u = dmmap_page_count s" "vmmap_page_count u = vmmap_page_count s" "current_process u = ?c"
    "new_pid u = new_pid s" "stack_mem u = stack_mem s" "lock_mem u = lock_mem s" "esp0 u = esp0 s" "cpu u = cpu s"
    "timer_ticks u = timer_ticks s"
    by (simp_all add: u_def load_pde_def upd_proc_def)
  have "exec_exit s = upd_proc ?c (\<lambda>p. p\<lparr>state := EXIT\<rparr>) w"
    using W U by (simp add: exec_exit_def Let_def process_exit_def w_def u_def upd_proc_def)
  then show ?thesis by (simp add: tables_same_def sched_rest_same_def upd_proc_def W U)
qed

section \<open>Faults of user programs\<close>

lemma umm_handler_succeeds:
  assumes "mm_inv s" and "pmm_total s \<le> unat (dmmap_page_count s)" and "3 \<le> card (pmm_free s)"
    and "a < PAGE_OFFSET" and "umm_handler a pd s = (r, t)"
  shows "r \<noteq> 0"
proof -
  obtain p u where al: "pmm_alloc_page s = (p, u)" by (cases "pmm_alloc_page s")
  have ok: "pmm_ok s" and base: "mm_base s" using assms(1) by (auto simp: mm_inv_def mm_base_def)
  have p: "p \<noteq> NULL" using assms(3) by (intro pmm_alloc_page_succeeds [OF ok _ al]) simp
  with pmm_alloc_page_law [OF ok al] obtain k where k: "k \<in> pmm_free s" "pmm_free u = pmm_free s - {k}"
    "pmm_ok u" "pmm_total u = pmm_total s" by auto
  have more: "pmm_state.more u = pmm_state.more s" using pmm_alloc_page_more [of s] al by simp
  have "mm_base u" using mm_base_more [OF base more k(3)] by simp
  moreover have "2 \<le> card (pmm_free u)" using k assms(3) by simp
  moreover have "pmm_total u \<le> unat (dmmap_page_count u)" using assms(2) k(4) mm_more_cong [OF more] by simp
  ultimately have "fst (set_umm_value a (set_page p PAGE_PWU) pd u) \<noteq> 0"
    using set_umm_value_succeeds [OF _ _ _ assms(4) prod.collapse [symmetric]] by blast
  with assms(5) al p show ?thesis by (auto simp: umm_handler_def split: prod.splits if_splits)
qed

text \<open>The handler gave the process a page, or the process is gone.\<close>

definition page_given :: "nat \<Rightarrow> u32 \<Rightarrow> kernel \<Rightarrow> kernel \<Rightarrow> bool" where
  "page_given d a k k' \<longleftrightarrow> k' = set_mm (kmm k') k \<and> cr3 (kmm k') = cr3 (kmm k) \<and> umm_same d (kmm k) (kmm k') \<and>
     umm_wf d (kmm k') \<and> umm_owned d (kmm k') \<and>
     (\<exists>f\<in>pmm_free (kmm k).
       umm_entered (pmm_free (kmm k) - {f}) d a (set_page (page f) PAGE_PWU) (kmm k) (kmm k') \<and>
       (\<forall>b<PAGE_OFFSET. get_umm_value b (page d) (kmm k') =
         (if b div PAGE_SIZE = a div PAGE_SIZE then set_page (page f) PAGE_PWU else get_umm_value b (page d) (kmm k))))"

definition killed :: "nat \<Rightarrow> kernel \<Rightarrow> kernel \<Rightarrow> bool" where
  "killed d k k' \<longleftrightarrow> (let s = ksched k; t = ksched k'; c = current_process s in
     k' = set_sched t (k\<lparr>screen := console_write fault_message (screen k)\<rparr>) \<and>
     procs t = (procs s)(c := (procs s c)\<lparr>pde := kernel_mmap_pde_addr s, state := EXIT\<rparr>) \<and>
     cr3 t = kernel_mmap_pde_addr s \<and> tables_same s t \<and> sched_rest_same s t \<and> vmm_map t = vmm_map s \<and>
     pmm_free t = pmm_free s \<union> umm_frames d s \<and> umm_frames d s \<inter> pmm_free s = {})"

lemma same_mm_ksched: "same_mm (ksched k) (kmm k)"
  by (metis ksched_truncate(1) same_mm_def same_mm_steps(3))

lemma killed_intro:
  assumes s: "mm_inv s" "umm_wf d s" "umm_owned d s" "outside_mm s = outside_mm (ksched k)" "tables_same (kmm k) s"
    and same: "pmm_free s = pmm_free (kmm k)" "umm_frames d s = umm_frames d (kmm k)" "vmm_map s = vmm_map (kmm k)"
    and pd: "cur_pde k = page d"
  defines "k' \<equiv> set_sched (exec_exit (enable_intr s)) (k\<lparr>screen := console_write fault_message (screen k)\<rparr>)"
  shows "mm_inv (kmm k') \<and> killed d k k'"
proof -
  let ?e = "enable_intr s"
  note M = same_mm_cong [of ?e s, OF same_mm_steps(4)] and K = same_mm_cong [OF same_mm_ksched [of k]]
  have "outside_mm ?e = outside_mm (ksched k)" using s(4) by simp
  note O = sched_outside_mm [OF this]
  have inv: "mm_inv ?e" "umm_wf d ?e" "umm_owned d ?e" using s by (simp_all add: M)
  have pd': "pde (procs ?e (current_process ?e)) = page d" using pd by (simp add: O cur_pde_def)
  note E = exec_exit_correct [OF inv pd', unfolded O M same]
  have ks: "ksched k' = exec_exit ?e" by (simp add: k'_def)
  have "tables_same (ksched k) (exec_exit ?e)"
    using exec_exit_frame [of ?e] s(5) same_mm_fields [OF same_mm_ksched [of k]]
    by (simp add: tables_same_def enable_intr_def)
  moreover have "sched_rest_same (ksched k) (exec_exit ?e)"
    using exec_exit_frame [of ?e] sched_more_cong [of ?e "ksched k"] s(4)
    by (simp add: sched_rest_same_def outside_mm_def enable_intr_def)
  moreover have "k' = set_sched (ksched k') (k\<lparr>screen := console_write fault_message (screen k)\<rparr>)"
    by (simp add: ks k'_def)
  moreover have "mm_inv (kmm k') = mm_inv (exec_exit ?e)" 
    unfolding k'_def by (simp add: same_mm_cong [OF same_mm_steps(3)])
  ultimately show ?thesis using E by (simp add: killed_def Let_def K ks)
qed

lemma user_isr_handler_correct:
  assumes inv: "mm_inv (kmm k)" "umm_wf d (kmm k)" "umm_owned d (kmm k)" and pd: "cur_pde k = page d"
    and k': "k' = user_isr_handler code cr2 k"
  shows "mm_inv (kmm k') \<and> kmem k' = kmem k \<and> ram k' = ram k \<and>
    (code = 0x0e \<and> cr2 < PAGE_OFFSET \<and> page_given d cr2 k k' \<or> killed d k k') \<and>
    (code \<noteq> 0x0e \<or> \<not> cr2 < PAGE_OFFSET \<longrightarrow> killed d k k') \<and>
    (code = 0x0e \<and> cr2 < PAGE_OFFSET \<and> pmm_total (kmm k) \<le> unat (dmmap_page_count (kmm k)) \<and>
       3 \<le> card (pmm_free (kmm k)) \<longrightarrow> page_given d cr2 k k')"
proof -
  let ?s = "ksched k"
  note M = same_mm_cong [OF same_mm_ksched [of k]] and f = same_mm_fields [OF same_mm_ksched [of k]]
  have inv': "mm_inv ?s" "umm_wf d ?s" "umm_owned d ?s" using inv M by simp_all
  have pd': "pde (procs ?s (current_process ?s)) = page d" using pd by (simp add: cur_pde_def)
  have tabs: "tables_same (kmm k) ?s" using f by (simp add: tables_same_def)
  have fr: "kmem k' = kmem k \<and> ram k' = ram k"
    unfolding k' user_isr_handler_def by (simp add: Let_def split: prod.split)
  show ?thesis
  proof (cases "code = 0x0e")
    case False
    then have "k' = set_sched (exec_exit (enable_intr ?s)) (k\<lparr>screen := console_write fault_message (screen k)\<rparr>)"
      by (simp add: k' user_isr_handler_def Let_def)
    with killed_intro [OF inv' refl tabs _ _ _ pd] M fr False show ?thesis by simp
  next
    case True
    obtain r u where h: "umm_handler cr2 (page d) ?s = (r, u)" by (cases "umm_handler cr2 (page d) ?s")
    note H = umm_handler_correct [OF inv'(1,2) h]
    have out: "outside_mm u = outside_mm ?s" using outside_mm_handler [of cr2 "page d" ?s] h by simp
    have k2: "k' = (if r \<noteq> 0 then set_sched u k
        else set_sched (exec_exit (enable_intr u)) (k\<lparr>screen := console_write fault_message (screen k)\<rparr>))"
      by (simp add: k' user_isr_handler_def Let_def True pd' h)
    have U: "same_mm (kmm (set_sched u k)) u" by simp
    show ?thesis
    proof (cases "r = 0")
      case False
      then have ku: "k' = set_sched u k" by (simp add: k2)
      note N = same_mm_cong [OF U, folded ku]
      have a: "cr2 < PAGE_OFFSET" and same: "umm_same d ?s u" using H False by simp_all
      from umm_handler_entered [OF inv'(1,2) h False] obtain fr' where
        f': "fr' \<in> pmm_free ?s" and e: "umm_entered (pmm_free ?s - {fr'}) d cr2 (set_page (page fr') PAGE_PWU) ?s u"
        and v: "\<forall>b<PAGE_OFFSET. get_umm_value b (page d) u = (if b div PAGE_SIZE = cr2 div PAGE_SIZE
          then set_page (page fr') PAGE_PWU else get_umm_value b (page d) ?s)" by blast
      have tot: "pmm_total u = pmm_total ?s" using same by (simp add: umm_same_def)
      have own: "umm_owned d u"
        using umm_entered_owned [OF inv'(2) _ f' a e inv'(3) tot] inv'(1) by (simp add: mm_inv_base)
      have ku': "k' = set_mm (kmm k') k"
        using out by (simp add: ku outside_mm_def) (simp add: set_sched_def)
      have mm: "kmm k' = mm_state.truncate u" by (simp add: ku)
      have tr: "entry (kmm k') = entry u" "entry (kmm k) = entry ?s"
        by (intro entry_cong, simp add: same_mm_fields [OF U, folded ku], intro entry_cong, simp add: f)
      have "umm_entered (pmm_free (kmm k) - {fr'}) d cr2 (set_page (page fr') PAGE_PWU) (kmm k) (kmm k')"
        using e unfolding umm_entered_def umm_table_def tr N M .
      moreover have "umm_same d (kmm k) (kmm k')"
        using same f same_mm_fields [OF U, folded ku] pmm_ok_cong(3) [OF f(1)] pmm_ok_cong(3) [OF same_mm_fields(1) [OF U, folded ku]]
        by (simp add: umm_same_def tr N M)
      moreover have "cr3 (kmm k') = cr3 (kmm k)"
        using sched_outside_mm(3) [OF out] by (simp add: mm)
      ultimately have "page_given d cr2 k k'"
        unfolding page_given_def using ku' H own f' v by (auto simp: N M)
      then show ?thesis using H False fr True by (simp add: N)
    next
      case z: True
      have e: "entry u = entry ?s" using umm_handler_failed [OF h [unfolded z]] by (rule entry_cong)
      have own: "umm_owned d u" "umm_frames d u = umm_frames d ?s"
        using inv'(3) H z e
        by (simp_all add: umm_owned_def umm_frames_def table_frames_def umm_table_def umm_same_def)
      have "tables_same (kmm k) u"
        using tabs H umm_handler_failed [OF h [unfolded z]] by (simp add: tables_same_def umm_same_def)
      then have K: "mm_inv (kmm k') \<and> killed d k k'"
        unfolding k2 using z H own M by (simp only: z simp_thms if_False, intro killed_intro [OF _ _ _ out _ _ _ _ pd])
          (simp_all add: umm_same_def)
      have "\<not> (cr2 < PAGE_OFFSET \<and> pmm_total (kmm k) \<le> unat (dmmap_page_count (kmm k)) \<and> 3 \<le> card (pmm_free (kmm k)))"
        using umm_handler_succeeds [OF inv'(1) _ _ _ h] z M f pmm_ok_cong [OF f(1)] by auto
      with K fr show ?thesis by blast
    qed
  qed
qed

section \<open>Properties\<close>

text \<open>C5. A fault of a user program is contained.  A page fault below \<open>PAGE_OFFSET\<close> gets the process a frame of its
  own at the page of the fault, whenever the machine has memory for it: exactly this frame leaves the free ones, and one
  more for the page table where the page had none; the table has the frame as its entry, the directory the new table, and no
  other entry of any table or directory, no mapping of the kernel and nothing of the kernel outside the memory manager
  changes; the process still owns its frames.  Any other fault, and one that no memory is left for, ends the process: it
  is marked \<open>EXIT\<close>, its directory is the kernel's and \<open>cr3\<close> no longer holds the one that is freed, exactly the frames of its
  address space come back, the message is on the screen, and no other process, page table or mapping and nothing else
  of the kernel changes.  Either way the memory manager's invariant holds after it.\<close>

theorem user_isr_handler_spec:
  assumes "mm_inv (kmm k)" and "umm_wf d (kmm k)" and "umm_owned d (kmm k)" and "cur_pde k = page d"
    and "k' = user_isr_handler code cr2 k"
  shows "mm_inv (kmm k') \<and> kmem k' = kmem k \<and> ram k' = ram k \<and>
    (code = 0x0e \<and> cr2 < PAGE_OFFSET \<and> page_given d cr2 k k' \<or> killed d k k') \<and>
    (code \<noteq> 0x0e \<or> \<not> cr2 < PAGE_OFFSET \<longrightarrow> killed d k k') \<and>
    (code = 0x0e \<and> cr2 < PAGE_OFFSET \<and> pmm_total (kmm k) \<le> unat (dmmap_page_count (kmm k)) \<and>
       3 \<le> card (pmm_free (kmm k)) \<longrightarrow> page_given d cr2 k k')"
  using assms by (rule user_isr_handler_correct)

theorem user_isr_handler_spec_witness:
  "pmm_free (ksched (user_isr_handler 0x0d 0 (kernel_sample umm_sample_table))) = {3..<16} \<union> {1, 2} \<and>
   state (procs (ksched (user_isr_handler 0x0d 0 (kernel_sample umm_sample_table))) 1) = EXIT \<and>
   get_umm_value 0x1000 (page 1) (kmm (user_isr_handler 0x0e 0x1ffc (kernel_sample umm_sample_table))) \<noteq> 0"
proof -
  let ?k = "kernel_sample umm_sample_table"
  note u = umm_sample_table_frames
  have pd: "cur_pde ?k = page 1" by simp
  have t: "pmm_total umm_sample_table = 16" "dmmap_page_count umm_sample_table = 16"
    using mm_sample_pmm by (simp_all add: umm_sample_table_def) (simp add: mm_sample_def)
  note S = user_isr_handler_spec [where d = 1 and k = ?k, OF _ _ _ pd refl, unfolded kernel_sample_simps, OF u(1-3)]
  have K: "killed 1 ?k (user_isr_handler 0x0d 0 ?k)" using S [of "0x0d" 0] by simp
  have "page_given 1 0x1ffc ?k (user_isr_handler 0x0e 0x1ffc ?k)"
    using S [of "0x0e" "0x1ffc"] t u(5) by simp
  then obtain f where f: "f \<in> {3..<16}"
    "get_umm_value 0x1000 (page 1) (kmm (user_isr_handler 0x0e 0x1ffc ?k)) = set_page (page f) PAGE_PWU"
    using u(5) by (auto simp: page_given_def)
  have "pte_frame (set_page (page f) PAGE_PWU) = f" using f(1) by (intro pte_frame_user) simp
  with f have "get_umm_value 0x1000 (page 1) (kmm (user_isr_handler 0x0e 0x1ffc ?k)) \<noteq> 0"
    by (metis atLeastLessThan_iff not_numeral_le_zero pte_frame_0)
  with K u(4,5) same_mm_cong [OF same_mm_ksched [of ?k]] show ?thesis by (simp add: killed_def Let_def)
qed

end
