(* ===== verification/Create.thy ===== *)
theory Create
  imports Exec
begin

text \<open>
  What \<open>exec\<close> (\<open>src/kernel/process/exec.c\<close>) does: a new process with an empty address space, a copy of the path in
  the heap and a stack from which it runs \<open>binfmt_exec\<close>, behind the current process in the ring.
\<close>

section \<open>Room for several allocations\<close>

lemma vmm_unmap_loop_frame:
  "vmm_pos (vmm_unmap_loop h i s) = vmm_pos s \<and> mm_state.more (vmm_unmap_loop h i s) = mm_state.more s"
proof (induction h i s rule: vmm_unmap_loop.induct)
  case (1 h i s)
  have "vmm_pos (pmm_free_page a n u) = vmm_pos u" "mm_state.more (pmm_free_page a n u) = mm_state.more u"
    for a n and u :: "'a mm_state_scheme"
    using mm_more_cong [OF pmm_free_page_more, of a n u] mm_more_pmm [OF pmm_free_page_more [of a n u]] by simp_all
  with 1 show ?case by (auto simp: vmm_unmap_loop.simps [of h i s] Let_def)
qed

lemma vmm_map_loop_frame:
  "vmm_pos (snd (vmm_map_loop h n i s)) = vmm_pos s \<and> mm_state.more (snd (vmm_map_loop h n i s)) = mm_state.more s"
proof (induction h n i s rule: vmm_map_loop.induct)
  case (1 h n i s)
  obtain a u where al: "pmm_alloc_page s = (a, u)" by (cases "pmm_alloc_page s")
  have u: "vmm_pos u = vmm_pos s" "mm_state.more u = mm_state.more s"
    using pmm_alloc_page_mm [of s] mm_more_pmm [OF pmm_alloc_page_more [of s]] al by simp_all
  show ?case using 1 al u vmm_unmap_loop_frame [of h i u] by (auto simp: vmm_map_loop.simps [of h n i s] Let_def)
qed

lemma vmm_alloc_page_frame:
  assumes "vmm_alloc_page n s = Some (a, t)"
  shows "vmm_pos t = vmm_pos s \<or> vmm_pos t = vmm_pos s - n" "mm_state.more t = mm_state.more s"
proof -
  note F = vmm_map_loop_frame [of _ n 0 "disable_intr s"]
  have d: "mm_state.more (disable_intr s) = mm_state.more s" "mm_state.more (enable_intr u) = mm_state.more u" for u :: "'a mm_state_scheme"
    by (simp_all add: disable_intr_def enable_intr_def)
  have "(vmm_pos t = vmm_pos s \<or> vmm_pos t = vmm_pos s - n) \<and> mm_state.more t = mm_state.more s"
    using assms F d by (auto simp: vmm_alloc_page_def Let_def split: option.splits prod.splits bool.splits if_splits) (metis snd_conv)+
  then show "vmm_pos t = vmm_pos s \<or> vmm_pos t = vmm_pos s - n" "mm_state.more t = mm_state.more s" by blast+
qed

text \<open>\<open>n\<close> dynamic pages next to each other are unmapped and the frames for them are free.\<close>

definition mm_room :: "nat \<Rightarrow> 'a mm_state_scheme \<Rightarrow> bool" where
  "mm_room n s \<longleftrightarrow> (\<exists>e. e \<le> unat (vmm_pos s) \<and> vmm_run s n e) \<and> n + 1 \<le> card (pmm_free s)"

lemma mm_room_mono: "mm_room n s \<Longrightarrow> m \<le> n \<Longrightarrow> mm_room m s"
  by (auto simp: mm_room_def vmm_run_def intro: le_trans less_le_trans)

lemma mm_room_vmm:
  assumes "mm_inv s" and "mm_room n s"
  shows "vmm_room n s"
proof -
  have "pmm_free s \<subseteq> insert (unat (pmm_head_pos s)) (pmm_avail s)"
    using assms(1) by (auto simp: mm_inv_def pmm_ok_def pmm_inv_def pmm_avail_def)
  moreover have "finite (pmm_avail s)" by (rule finite_subset [OF _ finite_pmm_free [of s]]) (auto simp: pmm_avail_def)
  ultimately have "card (pmm_free s) \<le> card (insert (unat (pmm_head_pos s)) (pmm_avail s))" by (intro card_mono) simp_all
  also have "\<dots> \<le> Suc (card (pmm_avail s))" by (simp add: card_insert_if \<open>finite (pmm_avail s)\<close>)
  finally have "card (pmm_free s) \<le> Suc (card (pmm_avail s))" .
  with assms(2) show ?thesis by (auto simp: mm_room_def vmm_room_def)
qed

text \<open>The pages \<open>dom f\<close>, unmapped before, are mapped one to one to frames that were free, and this is all that changes.\<close>

definition gains :: "(nat \<rightharpoonup> nat) \<Rightarrow> 'a mm_state_scheme \<Rightarrow> 'a mm_state_scheme \<Rightarrow> bool" where
  "gains f s t \<longleftrightarrow> dom f \<inter> dom (vmm_map s) = {} \<and> inj_on f (dom f) \<and> ran f \<subseteq> pmm_free s \<and>
     vmm_map t = vmm_map s ++ f \<and> pmm_free t = pmm_free s - ran f \<and>
     vmm_same ((\<lambda>i. unat (dmmap_page_count s) + i) ` dom f) s t"

lemma gains_empty: "gains Map.empty s s"
  by (simp add: gains_def)

lemma gains_trans:
  assumes "gains f s t" and "gains g t u"
  shows "gains (f ++ g) s u"
proof -
  let ?I = "\<lambda>i. unat (dmmap_page_count s) + i"
  have F: "dom f \<inter> dom (vmm_map s) = {}" "inj_on f (dom f)" "ran f \<subseteq> pmm_free s" "vmm_map t = vmm_map s ++ f"
    "pmm_free t = pmm_free s - ran f" "vmm_same (?I ` dom f) s t" using assms(1) by (simp_all add: gains_def)
  have d: "dmmap_page_count t = dmmap_page_count s" using F(6) by (simp add: vmm_same_def)
  have G: "dom g \<inter> dom (vmm_map t) = {}" "inj_on g (dom g)" "ran g \<subseteq> pmm_free t" "vmm_map u = vmm_map t ++ g"
    "pmm_free u = pmm_free t - ran g" "vmm_same (?I ` dom g) t u" using assms(2) by (simp_all add: gains_def d)
  have dj: "dom f \<inter> dom g = {}" "dom g \<inter> dom (vmm_map s) = {}" using G(1) F(4) by auto
  have rj: "ran f \<inter> ran g = {}" using G(3) F(5) by auto
  have v: "(f ++ g) x = (if x \<in> dom g then g x else f x)" for x by (simp add: map_add_dom_app_simps)
  have ran: "ran (f ++ g) = ran f \<union> ran g" using dj(1) by (simp add: ran_map_add)
  have "inj_on (f ++ g) (dom (f ++ g))"
  proof (rule inj_onI)
    fix x y assume x: "x \<in> dom (f ++ g)" and y: "y \<in> dom (f ++ g)" and eq: "(f ++ g) x = (f ++ g) y"
    have n: "f a \<noteq> g b" if a: "a \<in> dom f" for a b
    proof
      assume e: "f a = g b"
      obtain c where "f a = Some c" using a by auto
      then have "c \<in> ran f" "c \<in> ran g" using e by (auto intro: ranI)
      with rj show False by blast
    qed
    have d: "x \<in> dom f \<or> x \<in> dom g" "y \<in> dom f \<or> y \<in> dom g" using x y by auto
    show "x = y"
    proof (cases "x \<in> dom g \<longleftrightarrow> y \<in> dom g")
      case True
      then show ?thesis using d eq inj_onD [OF F(2), of x y] inj_onD [OF G(2), of x y] by (auto simp only: v split: if_splits)
    next
      case False
      then show ?thesis using d eq n [of x y] n [of y x] by (auto simp only: v split: if_splits)
    qed
  qed
  moreover have "vmm_same (?I ` dom (f ++ g)) s u"
    using F(6) G(6) unfolding vmm_same_def dom_map_add image_Un by auto
  moreover have "dom (f ++ g) \<inter> dom (vmm_map s) = {}" using F(1) dj(2) by auto
  moreover have "ran (f ++ g) \<subseteq> pmm_free s" "pmm_free u = pmm_free s - ran (f ++ g)"
    unfolding ran using F(3,5) G(3,5) by auto
  moreover have "vmm_map u = vmm_map s ++ (f ++ g)" by (simp add: F(4) G(4))
  ultimately show ?thesis by (simp add: gains_def)
qed

lemma gains_cong:
  assumes "gains f s t" and "same_mm u t"
  shows "gains f s u"
  using assms same_mm_cong [OF assms(2)] same_mm_fields [OF assms(2)] pmm_ok_cong(3) [OF same_mm_fields(1) [OF assms(2)]]
  by (simp add: gains_def vmm_same_def)

lemma gains_truncate:
  fixes s t :: sched_state
  assumes "gains f s t"
  shows "gains f (mm_state.truncate s) (mm_state.truncate t)"
proof -
  have S: "same_mm (mm_state.truncate s) s" "same_mm (mm_state.truncate t) t" by simp_all
  show ?thesis
    using assms same_mm_cong [OF S(1)] same_mm_cong [OF S(2)] same_mm_fields [OF S(1)] same_mm_fields [OF S(2)]
      pmm_ok_cong(3) [OF same_mm_fields(1) [OF S(1)]] pmm_ok_cong(3) [OF same_mm_fields(1) [OF S(2)]]
    by (simp add: gains_def vmm_same_def)
qed

text \<open>At most \<open>n\<close> pages and frames were taken; the tables of processes are as before.\<close>

definition taken :: "nat \<Rightarrow> 'a mm_state_scheme \<Rightarrow> 'a mm_state_scheme \<Rightarrow> bool" where
  "taken n s t \<longleftrightarrow> mm_inv t \<and> dmmap_page_count t = dmmap_page_count s \<and> page_mem t = page_mem s \<and>
     pmm_total t = pmm_total s \<and> pmm_free t \<subseteq> pmm_free s \<and> (\<exists>f. gains f s t) \<and>
     (\<forall>m. 0 < m \<and> mm_room (n + m) s \<longrightarrow> mm_room m t)"

lemma taken_refl: "mm_inv s \<Longrightarrow> taken n s s"
  using gains_empty [of s] by (auto simp: taken_def intro: mm_room_mono)

lemma alloc_taken:
  assumes "mm_inv s" and "0 < n" and "mm_room (unat n) s" and "vmm_alloc_page n s = Some (a, t)"
  shows "taken (unat n) s t"
proof -
  note F = vmm_alloc_page_frame [OF assms(4)]
  from mm_room_vmm [OF assms(1,3)] obtain e0 where run: "vmm_run s (unat n) e0" "e0 \<le> unat (vmm_pos s)"
    and av: "unat n \<le> card (pmm_avail s)" by (auto simp: vmm_room_def)
  from vmm_alloc_page_correct [OF assms(1,2) run av] assms(4) obtain q f where
    q: "unat n \<le> q" "q \<le> unat (vmm_pos s)" "vmm_run s (unat n) q" "\<forall>e. q < e \<and> e \<le> unat (vmm_pos s) \<longrightarrow> \<not> vmm_run s (unat n) e"
    and f: "dom f = {q + 1 - unat n..q}" "inj_on f (dom f)" "ran f \<subseteq> pmm_free s" "vmm_map t = vmm_map s ++ f"
    and t: "pmm_free t = pmm_free s - ran f" "mm_inv t"
    and same: "vmm_same {unat (dmmap_page_count s) + (q + 1 - unat n)..unat (dmmap_page_count s) + q} s t"
    by auto
  have n0: "0 < unat n" using assms(2) by (simp add: word_less_nat_alt)
  have "card (ran f) = unat n"
  proof -
    have "ran f = (\<lambda>x. the (f x)) ` dom f" by (force simp: ran_def dom_def image_def)
    moreover have "inj_on (\<lambda>x. the (f x)) (dom f)"
      using f(2) by (auto simp: inj_on_def dom_def)
    ultimately have "card (ran f) = card (dom f)" by (simp add: card_image)
    with f(1) q(1) show ?thesis by simp
  qed
  then have card: "card (pmm_free t) = card (pmm_free s) - unat n"
    using t(1) f(3) by (simp add: card_Diff_subset finite_subset [OF f(3)])
  have "mm_room m t" if m: "0 < m" "mm_room (unat n + m) s" for m
  proof -
    from m(2) obtain e where e: "e \<le> unat (vmm_pos s)" "vmm_run s (unat n + m) e" and c: "unat n + m + 1 \<le> card (pmm_free s)"
      by (auto simp: mm_room_def)
    have "vmm_run s (unat n) e" using e(2) by (simp add: vmm_run_def)
    with q(4) e(1) have eq: "e \<le> q" using not_less by blast
    have em: "unat n + m \<le> e" using e(2) by (simp add: vmm_run_def)
    have "vmm_map t (e - unat n - j) = None" if j: "j < m" for j
    proof -
      have "vmm_map s (e - (unat n + j)) = None" using e(2) j by (simp add: vmm_run_def)
      moreover have "e - (unat n + j) \<notin> dom f" using eq em j n0 by (simp add: f(1))
      ultimately show ?thesis by (simp add: f(4) map_add_def domIff)
    qed
    then have "vmm_run t m (e - unat n)" using em by (simp add: vmm_run_def)
    moreover have "e - unat n \<le> unat (vmm_pos t)"
    proof -
      have "n \<le> vmm_pos s" using q(1,2) by (simp add: word_le_nat_alt)
      then have "unat (vmm_pos s - n) = unat (vmm_pos s) - unat n" by (rule unat_sub)
      with F(1) e(1) show ?thesis by auto
    qed
    ultimately show ?thesis using c card by (auto simp: mm_room_def)
  qed
  moreover have "gains f s t"
  proof -
    have "x \<notin> dom (vmm_map s)" if x: "x \<in> dom f" for x
    proof -
      have "q - x < unat n" "x = q - (q - x)" using x q(1) n0 by (auto simp: f(1))
      then show ?thesis using q(3) unfolding vmm_run_def by (metis domIff)
    qed
    moreover have "(\<lambda>i. unat (dmmap_page_count s) + i) ` dom f =
        {unat (dmmap_page_count s) + (q + 1 - unat n)..unat (dmmap_page_count s) + q}"
      by (simp add: f(1) add.commute)
    ultimately show ?thesis using f(2-4) t(1) same by (auto simp: gains_def)
  qed
  ultimately show ?thesis using t same by (auto simp: taken_def vmm_same_def)
qed

lemma taken_cong:
  assumes "taken n s t" and "same_mm u t"
  shows "taken n s u"
proof -
  have "\<exists>f. gains f s u" using assms(1) gains_cong [OF _ assms(2)] by (auto simp: taken_def)
  then show ?thesis
    using assms(1) same_mm_cong [OF assms(2)] same_mm_fields [OF assms(2)] pmm_ok_cong(3) [OF same_mm_fields(1) [OF assms(2)]]
    by (simp add: taken_def mm_room_def vmm_run_def)
qed

lemma kmalloc_taken:
  assumes "heap_inv other as s" and "unat n + 12 + 4095 < 2 ^ 32" and "mm_room ((unat n + 12 + 4095) div 4096) (mm s)"
  shows "\<exists>b t. kmalloc n s = Some (b + 12, t) \<and> b \<noteq> NULL \<and> heap_inv other (as @ [b]) t \<and>
    block_of t b = (unat b, unat n + 12) \<and> (\<forall>a\<in>set as. block_of t a = block_of s a) \<and> taken ((unat n + 12 + 4095) div 4096) (mm s) (mm t)"
proof -
  have inv: "mm_inv (mm s)" using assms(1) by (simp add: heap_inv_def vmm.heap_ok_def vmm_good_def)
  from kmalloc_correct [OF assms(1,2)] mm_room_vmm [OF inv assms(3)] obtain b t where
    k: "kmalloc n s = Some (b + 12, t)" "b \<noteq> NULL" "heap_inv other (as @ [b]) t" "block_of t b = (unat b, unat n + 12)"
      "\<forall>a\<in>set as. block_of t a = block_of s a"
    by blast
  let ?c = "(n + 12 + PAGE_SIZE - 1) div PAGE_SIZE"
  have c: "unat ?c = (unat n + 12 + 4095) div 4096"
  proof -
    have "n + 12 + PAGE_SIZE - 1 = n + 12 + 4095" by simp
    moreover have "unat (n + 12 + 4095) = unat n + 12 + 4095" using assms(2) by (simp add: unat_add32)
    ultimately show ?thesis by (simp only: unat_div_u32) simp
  qed
  have link: "mm (snd (link_block m l u)) = mm u" for m l u by (simp add: link_block_def upd_hdr_def Let_def)
  have "mm t = mm s \<or> (\<exists>a. vmm_alloc_page ?c (mm s) = Some (a, mm t))"
    using k(1) by (auto simp: kmalloc_def Let_def dest!: arg_cong [where f = "\<lambda>x. mm (snd x)"] split: if_splits option.splits)
      (simp_all add: link)
  then have "taken (unat ?c) (mm s) (mm t)"
  proof
    assume "\<exists>a. vmm_alloc_page ?c (mm s) = Some (a, mm t)"
    then obtain a where a: "vmm_alloc_page ?c (mm s) = Some (a, mm t)" by blast
    have "1 \<le> unat ?c" unfolding c by linarith
    then have "0 < ?c" by (simp add: word_less_nat_alt)
    from alloc_taken [OF inv this _ a] assms(3) c show ?thesis by simp
  qed (simp add: taken_refl [OF inv])
  with k c show ?thesis by auto
qed

lemma umm_alloc_pde_given:
  assumes "mm_inv s" and "1 \<le> dmmap_page_count s" and "pmm_total s \<le> unat (dmmap_page_count s)" and "2 \<le> card (pmm_free s)"
    and "umm_alloc_pde s = (pd, t)"
  shows "pd \<noteq> NULL" "dmmap_page_count t = dmmap_page_count s" "pmm_total t = pmm_total s" "vmm_pos t = vmm_pos s"
proof -
  obtain a u where al: "dmm_alloc_page 1 s = (a, u)" by (cases "dmm_alloc_page 1 s")
  have a: "a \<noteq> NULL" by (rule dmm_alloc_page_succeeds [OF conjunct1 [OF assms(1) [unfolded mm_inv_base]] assms(3,4) al])
  have u: "dmmap_page_count u = dmmap_page_count s" "pmm_total u = pmm_total s" "vmm_pos u = vmm_pos s"
    using dmm_alloc_page_correct [OF assms(1) _ _ al] assms(2) dmm_alloc_page_count [of 1 s] al by (simp_all add: vmm_same_def)
  have l: "dmmap_page_count (for_loop 0 n (\<lambda>i s. write_entry a i (kernel_mmap_pde s i) s) u) = dmmap_page_count u"
    "pmm_total (for_loop 0 n (\<lambda>i s. write_entry a i (kernel_mmap_pde s i) s) u) = pmm_total u"
    "vmm_pos (for_loop 0 n (\<lambda>i s. write_entry a i (kernel_mmap_pde s i) s) u) = vmm_pos u" for n
    by (rule for_loop_preserves, simp add: write_entry_def pmm_total_def)+
  show "pd \<noteq> NULL" "dmmap_page_count t = dmmap_page_count s" "pmm_total t = pmm_total s" "vmm_pos t = vmm_pos s"
    using assms(5) al a u l by (auto simp: umm_alloc_pde_def)
qed

section \<open>A new process\<close>

text \<open>The process at \<open>p\<close> is ready to run \<open>fn\<close> with the argument \<open>arg\<close> and to return to \<open>exit_fn\<close>: \<open>switch_context\<close> loads
  its stack pointer and returns.\<close>

definition will_run :: "u32 \<Rightarrow> u32 \<Rightarrow> u32 \<Rightarrow> u32 \<Rightarrow> u32 \<Rightarrow> 'a sched_state_scheme \<Rightarrow> bool" where
  "will_run fn arg exit_fn pd p s \<longleftrightarrow>
     (let r = procs s p; sp = esp (ctx r) in
      state r = RUN \<and> pde r = pd \<and> stack_top r = p + KERNEL_STACK_SIZE \<and> eflags (ctx r) = 0x200 \<and>
      unat sp = unat p + 8180 \<and> stack_mem s sp = fn \<and> stack_mem s (sp + 4) = exit_fn \<and> stack_mem s (sp + 8) = arg)"

definition same_sched :: "u32 set \<Rightarrow> 'a sched_state_scheme \<Rightarrow> 'a sched_state_scheme \<Rightarrow> bool" where
  "same_sched P s t \<longleftrightarrow> current_process t = current_process s \<and> cpu t = cpu s \<and> lock_mem t = lock_mem s \<and>
     timer_ticks t = timer_ticks s \<and> esp0 t = esp0 s \<and>
     (\<forall>q. q \<notin> P \<longrightarrow> procs t q = (procs s q)\<lparr>next_proc := next_proc (procs t q)\<rparr>) \<and>
     (\<forall>q. q \<notin> P \<and> q \<noteq> current_process s \<longrightarrow> procs t q = procs s q)"

lemma process_create_correct:
  assumes good: "vmm_good s" and room: "mm_room 2 s" and ring: "ring s (current_process s # ps)"
    and live: "\<And>q. q \<in> set (current_process s # ps) \<Longrightarrow> unat q div 4096 \<in> vmm_pages s \<or> unat q div 4096 < unat (dmmap_page_count s)"
  shows "\<exists>p t. process_create fn arg exit_fn pd s = Some (new_pid s, t) \<and> p \<noteq> NULL \<and> unat p mod 4096 = 0 \<and>
    ring t (current_process s # p # ps) \<and> will_run fn arg exit_fn pd p t \<and> pid (procs t p) = new_pid s \<and> new_pid t = new_pid s + 1 \<and>
    same_sched {p} s t \<and> (\<forall>x. \<not> x - p < KERNEL_STACK_SIZE \<longrightarrow> stack_mem t x = stack_mem s x) \<and>
    vmm_good t \<and> taken 2 s t \<and>
    vmm_pages t = vmm_pages s \<union> {unat p div 4096, unat p div 4096 + 1} \<and>
    vmm_pages s \<inter> {unat p div 4096, unat p div 4096 + 1} = {}"
proof -
  let ?cur = "current_process s"
  have inv: "mm_inv s" using good by (simp add: vmm_good_def)
  have two: "KERNEL_STACK_SIZE div PAGE_SIZE = (2 :: u32)" "unat (2 :: u32) = 2" "(0 :: u32) < 2" by simp_all
  from vmm_alloc_provides [OF good two(3)] mm_room_vmm [OF inv room] obtain p u where
    al: "vmm_alloc_page 2 s = Some (p, u)" and u: "vmm_good u" and p: "p \<noteq> NULL" "unat p mod 4096 = 0" "unat p div 4096 + 2 \<le> 196608"
    and pages: "vmm_pages u = vmm_pages s \<union> {unat p div 4096..<unat p div 4096 + 2}"
      "vmm_pages s \<inter> {unat p div 4096..<unat p div 4096 + 2} = {}" by auto
  have iv: "{n..<n + 2} = {n, n + 1}" for n :: nat by auto
  have taken: "taken 2 s u" using alloc_taken [OF inv two(3) _ al] room by simp
  note M = sched_more_cong [OF vmm_alloc_page_frame(2) [OF al]]
  have dyn: "x \<in> vmm_pages u \<Longrightarrow> unat (dmmap_page_count s) \<le> x" for x using taken by (auto simp: vmm_pages_def taken_def)
  have pn: "p \<notin> set (?cur # ps)"
  proof
    assume "p \<in> set (?cur # ps)"
    from live [OF this] have "unat p div 4096 < unat (dmmap_page_count s)" using pages(2) by auto
    moreover have "unat p div 4096 \<in> vmm_pages u" using pages(1) by simp
    ultimately show False using dyn [of "unat p div 4096"] by simp
  qed
  define top where "top = p + KERNEL_STACK_SIZE"
  define t where "t = upd_proc ?cur (\<lambda>r. r\<lparr>next_proc := p\<rparr>) (upd_proc p (\<lambda>r. r\<lparr>state := RUN, pid := new_pid s, stack_top := top,
      ctx := (ctx r)\<lparr>esp := top - 12, eflags := 0x200\<rparr>, pde := pd, next_proc := nx s ?cur\<rparr>)
      (u\<lparr>new_pid := new_pid s + 1, stack_mem := (stack_mem s)(top - 4 := arg, top - 8 := exit_fn, top - 12 := fn)\<rparr>))"
  have run: "process_create fn arg exit_fn pd s = Some (new_pid s, t)"
    by (simp add: process_create_def two al p(1) Let_def M t_def top_def)
  have pc: "p \<noteq> ?cur" using pn by auto
  have same: "same_mm t u" unfolding t_def by (auto simp: same_mm_def mm_state.truncate_def upd_proc_def)
  have "unat p = unat p div 4096 * 4096" using p(2) by auto
  with p(3) have "unat p + 8192 \<le> 805306368" by linarith
  then have sp: "top - 12 = p + 8180" "unat (p + 8180) = unat p + 8180" "top - 8 = p + 8184" "top - 4 = p + 8188"
    by (simp_all add: top_def unat_add32)
  have nx_t: "nx t q = (if q = ?cur then p else if q = p then nx s ?cur else nx s q)" for q
    using pc by (simp add: t_def M)
  have "ring t (?cur # p # ps)"
  proof (cases ps)
    case Nil
    with ring pn show ?thesis by (auto simp: ring_def nx_t)
  next
    case (Cons y ys)
    have "walk (nx t) y (ys @ [?cur]) \<longleftrightarrow> walk (nx s) y (ys @ [?cur])"
      using ring pn unfolding Cons by (intro walk_cong) (auto simp: nx_t ring_def butlast_append)
    with ring pn Cons show ?thesis by (auto simp: ring_def nx_t)
  qed
  moreover have "will_run fn arg exit_fn pd p t"
    using pc sp(2) by (simp add: will_run_def t_def M top_def add.commute [of 8180])
  moreover have "same_sched {p} s t" "pid (procs t p) = new_pid s" "new_pid t = new_pid s + 1"
    using pc by (simp_all add: same_sched_def t_def M)
  moreover have "vmm_good t" "vmm_pages t = vmm_pages u" "taken 2 s t"
    using u taken_cong [OF taken same] same_mm_cong [OF same] same_mm_fields [OF same]
    by (simp_all add: vmm_good_def vmm_owned_def vmm_pages_def pmm_total_def pmm_state.truncate_def)
  moreover have "stack_mem t x = stack_mem s x" if "\<not> x - p < KERNEL_STACK_SIZE" for x
    using that unfolding t_def sp by (auto simp: upd_proc_def)
  ultimately show ?thesis using run p pages unfolding iv by auto
qed

section \<open>The whole of \<open>exec\<close>\<close>

text \<open>An empty address space has its directory and nothing else.\<close>

lemma umm_alloc_pde_empty:
  assumes "mm_inv s" and "1 \<le> dmmap_page_count s" and "\<And>i. unat i < 768 \<Longrightarrow> kernel_mmap_pde s i = 0"
    and "umm_alloc_pde s = (page d, t)" and "page d \<noteq> NULL" and "d \<in> pmm_free s" and "unat i < 768"
  shows "entry t d i = 0"
proof -
  obtain a u where al: "dmm_alloc_page 1 s = (a, u)" by (cases "dmm_alloc_page 1 s")
  have u: "kernel_mmap_pde u = kernel_mmap_pde s"
    using dmm_alloc_page_correct [OF assms(1) _ _ al] assms(2) by (simp add: vmm_same_def)
  have r: "a = page d" "t = for_loop 0 PAGE_PDE_INDEX (\<lambda>i s. write_entry (page d) i (kernel_mmap_pde s i) s) u"
    using assms(4,5) al by (auto simp: umm_alloc_pde_def split: if_splits)
  have db: "d < 1048576" using assms(1,6) pmm_inv_bound by (auto simp: mm_inv_def pmm_ok_def)
  note fill = fill_loop [where v = "\<lambda>i s. kernel_mmap_pde s i" and n = PAGE_PDE_INDEX and s = u, OF _ _ db, folded r(2)]
  show ?thesis using fill(2) [OF _ _ db, of i] assms(3,7) u by (simp add: word_less_nat_alt)
qed

text \<open>The directory's own entries are all that is written.\<close>

lemma umm_alloc_pde_frame:
  assumes "mm_inv s" and "1 \<le> dmmap_page_count s" and "umm_alloc_pde s = (page d, t)" and "page d \<noteq> NULL" and "d \<in> pmm_free s"
  shows "e < 1048576 \<Longrightarrow> unat i < 1024 \<Longrightarrow> e \<noteq> d \<Longrightarrow> entry t e i = entry s e i"
    and "globl_mmap_pte t = globl_mmap_pte s" and "kernel_mmap_pde t = kernel_mmap_pde s"
    and "vmmap_page_count t = vmmap_page_count s"
proof -
  obtain a u where al: "dmm_alloc_page 1 s = (a, u)" by (cases "dmm_alloc_page 1 s")
  have same: "vmm_same {} s u" using dmm_alloc_page_correct [OF assms(1) _ _ al] assms(2) by simp
  then have u: "entry u = entry s" by (intro entry_cong) (simp add: vmm_same_def)
  have r: "t = for_loop 0 PAGE_PDE_INDEX (\<lambda>i s. write_entry (page d) i (kernel_mmap_pde s i) s) u"
    using assms(3,4) al by (auto simp: umm_alloc_pde_def split: if_splits)
  have db: "d < 1048576" using assms(1,5) pmm_inv_bound by (auto simp: mm_inv_def pmm_ok_def)
  note fill = fill_loop [where v = "\<lambda>i s. kernel_mmap_pde s i" and n = PAGE_PDE_INDEX and s = u, OF _ _ db, folded r]
  show "entry t e i = entry s e i" if "e < 1048576" "unat i < 1024" "e \<noteq> d"
    using fill(2) [OF _ _ that(1,2)] that by (simp add: u)
  obtain m where "t = u\<lparr>page_mem := m\<rparr>" using fill(1) by auto
  then show "globl_mmap_pte t = globl_mmap_pte s" "kernel_mmap_pde t = kernel_mmap_pde s"
    "vmmap_page_count t = vmmap_page_count s"
    using same by (simp_all add: vmm_same_def fun_eq_iff)
qed

lemma taken_umm:
  assumes "taken n s t"
  shows "umm_wf e s \<Longrightarrow> umm_wf e t" "get_umm_value b p t = get_umm_value b p s" "entry t = entry s"
proof -
  have e: "entry t = entry s" using assms by (intro entry_cong) (simp add: taken_def)
  then show "entry t = entry s" .
  have f: "pmm_free t \<subseteq> pmm_free s" "pmm_total t = pmm_total s" "dmmap_page_count t = dmmap_page_count s"
    using assms by (simp_all add: taken_def)
  show "umm_wf e t" if "umm_wf e s" by (rule umm_wf_cong [OF that _ f]) (simp add: e)
  show "get_umm_value b p t = get_umm_value b p s" using assms by (simp add: get_umm_value_def read_entry_def taken_def)
qed

lemma heap_inv_mm:
  assumes "heap_inv other as h" and "vmm_good t" and "vmm_pages t = vmm_pages (mm h)"
  shows "heap_inv other as (h\<lparr>mm := t\<rparr>)"
proof -
  have "block_of (h\<lparr>mm := t\<rparr>) = block_of h" by (simp add: fun_eq_iff block_of_def)
  with assms show ?thesis by (simp add: heap_inv_def vmm.heap_ok_def)
qed

text \<open>An address of which the heap has nothing: in a page of another user, or outside the dynamic pages.\<close>

definition held :: "nat set \<Rightarrow> 'a mm_state_scheme \<Rightarrow> u32 \<Rightarrow> bool" where
  "held other s x \<longleftrightarrow> unat x div 4096 \<in> other \<or> unat x div 4096 < unat (dmmap_page_count s)"

lemma held_outside:
  assumes "heap_inv other as h" and "b \<in> set as" and "held other (mm h) x" and "fst (block_of h b) \<le> unat x"
  shows "fst (block_of h b) + snd (block_of h b) \<le> unat x"
proof (rule ccontr)
  assume "\<not> ?thesis"
  then have x: "unat x div 4096 \<in> pgs (block_of h b)"
    using assms(4) by (auto simp: pgs_def lo_def hi_def intro: div_le_mono)
  then have u: "unat x div 4096 \<in> used (map (block_of h) as)" using assms(2) by (auto simp: used_def)
  moreover have "other \<inter> used (map (block_of h) as) = {}" "vmm_pages (mm h) = other \<union> used (map (block_of h) as)"
    using assms(1) by (simp_all add: heap_inv_def vmm.heap_ok_def)
  ultimately have "unat x div 4096 \<notin> other" "unat x div 4096 \<in> vmm_pages (mm h)" by auto
  with assms(3) show False by (auto simp: held_def vmm_pages_def)
qed

lemma strcpy_outside:
  assumes "cstring m p xs" and "\<And>j. j \<le> length xs \<Longrightarrow> \<not> p + of_nat j - dst < of_nat (Suc (length xs))" and "length xs < 2 ^ 31"
  shows "\<exists>m'. strcpy dst p m = Some (dst, m') \<and> cstring m' dst xs \<and>
    (\<forall>x. \<not> x - dst < of_nat (Suc (length xs)) \<longrightarrow> m' x = m x)"
proof -
  let ?n = "of_nat (Suc (length xs)) :: u32"
  have n: "unat ?n = Suc (length xs)" using assms(3) by (intro unat_of_nat_u32) simp
  have ap: "StringLib.apart dst p (length xs)"
    unfolding StringLib.apart_def
  proof (rule ccontr)
    assume "\<not> length xs < unat (dst - p)"
    then have "unat (dst - p) \<le> length xs" by simp
    from assms(2) [OF this] n show False by (simp add: word_less_nat_alt)
  qed
  then have le: "?n \<le> dst - p" using n by (simp add: StringLib.apart_def word_le_nat_alt)
  let ?m = "memcpy dst p ?n m"
  have M: "?m x = (if x - dst < ?n then m (p + (x - dst)) else m x)" for x by (intro memcpy_correct disjI2 le)
  have "?m (dst + of_nat i) = (xs @ [0]) ! i" if "i \<le> length xs" for i
  proof -
    have "unat (of_nat i :: u32) = i" using that assms(3) by (intro unat_of_nat_u32) simp
    with n that have "(of_nat i :: u32) < ?n" by (simp add: word_less_nat_alt)
    then show ?thesis using M [of "dst + of_nat i"] cstring_nth [OF assms(1) that] by simp
  qed
  moreover have "x \<noteq> 0" if "x \<in> set xs" for x using assms(1) that by (induction xs arbitrary: p) auto
  moreover have "cstring m' q ys" if "\<And>i. i \<le> length ys \<Longrightarrow> m' (q + of_nat i) = (ys @ [0]) ! i" "\<And>y. y \<in> set ys \<Longrightarrow> y \<noteq> 0" for m' q ys
    using that
  proof (induction ys arbitrary: q)
    case Nil
    from Nil(1) [of 0] show ?case by simp
  next
    case (Cons y ys)
    have "m' (q + 1 + of_nat i) = (ys @ [0]) ! i" if "i \<le> length ys" for i
      using Cons.prems(1) [of "Suc i"] that by (simp add: add.assoc)
    with Cons.IH [of "q + 1"] Cons.prems(1) [of 0] Cons.prems(2) show ?case by simp
  qed
  ultimately have "cstring ?m dst xs" by blast
  with M strcpy_memcpy [OF assms(1) ap] show ?thesis by auto
qed

text \<open>The call of \<open>exec\<close> can be answered: \<open>n\<close> pages for the path, two for the stack and one frame for the directory.\<close>

definition exec_room :: "nat \<Rightarrow> mm_state \<Rightarrow> bool" where
  "exec_room n s \<longleftrightarrow> (\<exists>e. e \<le> unat (vmm_pos s) \<and> vmm_run s (n + 2) e) \<and> n + 4 \<le> card (pmm_free s) \<and>
     pmm_total s \<le> unat (dmmap_page_count s) \<and> (\<forall>i. unat i < 768 \<longrightarrow> kernel_mmap_pde s i = 0)"

lemma alloc_directory:
  assumes inv: "heap_inv other as h" and room: "exec_room n (mm h)"
  shows "\<exists>d t. umm_alloc_pde (mm h) = (page d, t) \<and> page d \<noteq> NULL \<and> d \<in> pmm_free (mm h) \<and> heap_inv other as (h\<lparr>mm := t\<rparr>) \<and>
    mm_room (n + 2) t \<and> dmmap_page_count t = dmmap_page_count (mm h) \<and> umm_wf d t \<and> (\<forall>i. unat i < 768 \<longrightarrow> entry t d i = 0) \<and>
    (\<forall>b<PAGE_OFFSET. get_umm_value b (page d) t = 0) \<and> (\<forall>e. e \<noteq> d \<and> umm_wf e (mm h) \<longrightarrow> umm_wf e t) \<and>
    pmm_free t = pmm_free (mm h) - {d} \<and> vmm_map t = vmm_map (mm h) \<and> globl_mmap_pte t = globl_mmap_pte (mm h) \<and>
    kernel_mmap_pde t = kernel_mmap_pde (mm h) \<and> vmmap_page_count t = vmmap_page_count (mm h) \<and> pmm_total t = pmm_total (mm h) \<and>
    (\<forall>e i. e < 1048576 \<and> unat i < 1024 \<and> e \<noteq> d \<longrightarrow> entry t e i = entry (mm h) e i)"
proof -
  let ?s = "mm h"
  have good: "vmm_good ?s" and mm: "mm_inv ?s" using inv by (simp_all add: heap_inv_def vmm.heap_ok_def vmm_good_def)
  obtain pd t where al: "umm_alloc_pde ?s = (pd, t)" by (cases "umm_alloc_pde ?s")
  have low: "pmm_total ?s \<le> unat (dmmap_page_count ?s)" and c: "n + 4 \<le> card (pmm_free ?s)"
    and z: "\<And>i. unat i < 768 \<Longrightarrow> kernel_mmap_pde ?s i = 0" using room by (auto simp: exec_room_def)
  have "pmm_free ?s \<noteq> {}" using c by auto
  then obtain f where "f \<in> pmm_free ?s" by blast
  from pmm_free_less_total [OF this] have "0 < pmm_total ?s" by simp
  with low have d1: "1 \<le> dmmap_page_count ?s" by (simp add: word_le_nat_alt)
  have "2 \<le> card (pmm_free ?s)" using c by simp
  note G = umm_alloc_pde_given [OF mm d1 low this al]
  from umm_alloc_pde_correct [OF mm d1 z al] G(1) obtain d where
    t: "mm_inv t" "vmm_map t = vmm_map ?s" and d: "d \<in> pmm_free ?s" "pd = page d" "pmm_free t = pmm_free ?s - {d}" "umm_wf d t"
      "\<forall>b<PAGE_OFFSET. get_umm_value b pd t = 0" "\<forall>e. e \<noteq> d \<and> umm_wf e ?s \<longrightarrow> umm_wf e t"
    by auto
  have "vmm_good t" using good t d(3) G(3) by (auto simp: vmm_good_def vmm_owned_def)
  moreover have "vmm_pages t = vmm_pages ?s" by (simp add: vmm_pages_def t(2) G(2))
  ultimately have "heap_inv other as (h\<lparr>mm := t\<rparr>)" by (rule heap_inv_mm [OF inv])
  moreover have "mm_room (n + 2) t"
    using room d(1,3) G(4) t(2) by (auto simp: mm_room_def exec_room_def vmm_run_def card_Diff_singleton)
  moreover have "entry t d i = 0" if "unat i < 768" for i
    using umm_alloc_pde_empty [OF mm d1 z _ _ d(1) that] al G(1) d(2) by simp
  moreover have "umm_alloc_pde ?s = (page d, t)" "page d \<noteq> NULL" using al G(1) d(2) by simp_all
  moreover note umm_alloc_pde_frame [OF mm d1 this d(1)]
  ultimately show ?thesis using d G(2,3) t(2) unfolding d(2) by (intro exI [of _ d] exI [of _ t]) auto
qed

lemma truncate_mm:
  fixes t :: sched_state
  shows "mm_inv (mm_state.truncate t) = mm_inv t" "vmm_good (mm_state.truncate t) = vmm_good t"
    "vmm_pages (mm_state.truncate t) = vmm_pages t" "umm_wf e (mm_state.truncate t) = umm_wf e t"
    "get_umm_value b p (mm_state.truncate t) = get_umm_value b p t" "entry (mm_state.truncate t) = entry t"
    "vmm_map (mm_state.truncate t) = vmm_map t" "pmm_free (mm_state.truncate t) = pmm_free t"
    "dmmap_page_count (mm_state.truncate t) = dmmap_page_count t" "mm_room n (mm_state.truncate t) = mm_room n t"
proof -
  have same: "same_mm (mm_state.truncate t) t" by simp
  note C = same_mm_cong [OF same] and F = same_mm_fields [OF same]
  have total: "pmm_total (mm_state.truncate t) = pmm_total t" by (simp add: mm_state.truncate_def pmm_total_def)
  show "mm_inv (mm_state.truncate t) = mm_inv t" "umm_wf e (mm_state.truncate t) = umm_wf e t"
    "get_umm_value b p (mm_state.truncate t) = get_umm_value b p t" "vmm_map (mm_state.truncate t) = vmm_map t"
    "pmm_free (mm_state.truncate t) = pmm_free t" "dmmap_page_count (mm_state.truncate t) = dmmap_page_count t"
    by (rule C F)+
  show "entry (mm_state.truncate t) = entry t" by (rule entry_cong) (rule F)
  show "vmm_good (mm_state.truncate t) = vmm_good t" by (simp add: vmm_good_def vmm_owned_def C total)
  show "vmm_pages (mm_state.truncate t) = vmm_pages t" by (simp add: vmm_pages_def C F)
  show "mm_room n (mm_state.truncate t) = mm_room n t" by (simp add: mm_room_def vmm_run_def C F)
qed

text \<open>A directory in the frame \<open>d\<close> and some dynamic pages, each over a frame that was free, are all that the memory
  manager gave away: no frame is lost, no mapping that was there and no entry of another frame changes.\<close>

definition space_added :: "nat \<Rightarrow> mm_state \<Rightarrow> mm_state \<Rightarrow> bool" where
  "space_added d s t \<longleftrightarrow> d \<in> pmm_free s \<and>
     (\<exists>f. dom f \<inter> dom (vmm_map s) = {} \<and> inj_on f (dom f) \<and> ran f \<subseteq> pmm_free s - {d} \<and>
        vmm_map t = vmm_map s ++ f \<and> pmm_free t = pmm_free s - {d} - ran f \<and>
        (\<forall>g. unat g \<notin> (\<lambda>i. unat (dmmap_page_count s) + i) ` dom f \<longrightarrow> globl_mmap_pte t g = globl_mmap_pte s g)) \<and>
     kernel_mmap_pde t = kernel_mmap_pde s \<and> dmmap_page_count t = dmmap_page_count s \<and>
     vmmap_page_count t = vmmap_page_count s \<and> pmm_total t = pmm_total s \<and>
     (\<forall>e i. e < 1048576 \<and> unat i < 1024 \<and> e \<noteq> d \<longrightarrow> entry t e i = entry s e i)"

lemma space_added_gains:
  assumes d: "d \<in> pmm_free s" "pmm_free t = pmm_free s - {d}" "vmm_map t = vmm_map s" "globl_mmap_pte t = globl_mmap_pte s"
      "kernel_mmap_pde t = kernel_mmap_pde s" "vmmap_page_count t = vmmap_page_count s" "pmm_total t = pmm_total s"
      "dmmap_page_count t = dmmap_page_count s"
      "\<forall>e i. e < 1048576 \<and> unat i < 1024 \<and> e \<noteq> d \<longrightarrow> entry t e i = entry s e i"
    and g: "gains f t u"
  shows "space_added d s u"
proof -
  have "entry u = entry t" using g by (intro entry_cong) (simp add: gains_def vmm_same_def)
  then show ?thesis
    using assms unfolding space_added_def gains_def vmm_same_def by (intro conjI exI [of _ f]) simp_all
qed

lemma exec_correct:
  assumes heap: "heap_inv other as (heap (files k))" and room: "exec_room n (kmm k)" and n: "n = (length xs + 4108) div 4096"
    and ring: "ring (ksched k) (current_process (ksched k) # ps)" and pid: "new_pid (ksched k) \<noteq> 0"
    and live: "\<And>q. q \<in> set (current_process (ksched k) # ps) \<Longrightarrow> held other (kmm k) q"
    and path: "cstring (kmem k) path xs" and at: "\<And>j. j \<le> length xs \<Longrightarrow> held other (kmm k) (path + of_nat j)"
  shows "\<exists>k' p a d. exec fn exit_fn path k = Some (new_pid (ksched k), k') \<and>
    ring (ksched k') (current_process (ksched k) # p # ps) \<and> will_run fn a exit_fn (page d) p (ksched k') \<and>
    pid (procs (ksched k') p) = new_pid (ksched k) \<and> same_sched {p} (ksched k) (ksched k') \<and>
    cstring (kmem k') a xs \<and> (\<forall>x. \<not> x - a < of_nat (Suc (length xs)) \<longrightarrow> kmem k' x = kmem k x) \<and>
    d \<in> pmm_free (kmm k) \<and> umm_wf d (kmm k') \<and> umm_owned d (kmm k') \<and> umm_frames d (kmm k') = {d} \<and>
    (\<forall>b<PAGE_OFFSET. get_umm_value b (page d) (kmm k') = 0) \<and> (\<forall>e. e \<noteq> d \<and> umm_wf e (kmm k) \<longrightarrow> umm_wf e (kmm k')) \<and>
    space_added d (kmm k) (kmm k') \<and> (\<forall>b\<in>set as. block_of (heap (files k')) b = block_of (heap (files k)) b) \<and>
    new_pid (ksched k') = new_pid (ksched k) + 1 \<and>
    (\<forall>x. \<not> x - p < KERNEL_STACK_SIZE \<longrightarrow> stack_mem (ksched k') x = stack_mem (ksched k) x) \<and>
    k' = set_mem (kmem k') (set_sched (ksched k') (set_heap (heap (files k')) k)) \<and>
    heap_inv (other \<union> {unat p div 4096, unat p div 4096 + 1}) (as @ [a - 12]) (heap (files k')) \<and>
    block_of (heap (files k')) (a - 12) = (unat (a - 12), length xs + 13) \<and>
    ram k' = ram k \<and> screen k' = screen k \<and> keyboard k' = keyboard k"
proof -
  have "kmm k = mm (heap (files k))" by (simp add: kmm_def)
  from alloc_directory [OF heap] room this obtain d t1 where
    pd: "umm_alloc_pde (kmm k) = (page d, t1)" "page d \<noteq> NULL" "d \<in> pmm_free (kmm k)"
    and h1: "heap_inv other as (heap (files k)\<lparr>mm := t1\<rparr>)" and r1: "mm_room (n + 2) t1"
    and d1: "dmmap_page_count t1 = dmmap_page_count (kmm k)" "umm_wf d t1" "\<And>i. unat i < 768 \<Longrightarrow> entry t1 d i = 0"
      "\<forall>b<PAGE_OFFSET. get_umm_value b (page d) t1 = 0" "\<forall>e. e \<noteq> d \<and> umm_wf e (kmm k) \<longrightarrow> umm_wf e t1"
    and D: "pmm_free t1 = pmm_free (kmm k) - {d}" "vmm_map t1 = vmm_map (kmm k)" "globl_mmap_pte t1 = globl_mmap_pte (kmm k)"
      "kernel_mmap_pde t1 = kernel_mmap_pde (kmm k)" "vmmap_page_count t1 = vmmap_page_count (kmm k)"
      "pmm_total t1 = pmm_total (kmm k)"
      "\<forall>e i. e < 1048576 \<and> unat i < 1024 \<and> e \<noteq> d \<longrightarrow> entry t1 e i = entry (kmm k) e i" by metis
  have "n + 2 < 196608"
  proof -
    from r1 obtain e where "e \<le> unat (vmm_pos t1)" "n + 2 \<le> e" by (auto simp: mm_room_def vmm_run_def)
    moreover have "unat (vmm_pos t1) < 196608"
      using h1 by (auto simp: heap_inv_def vmm.heap_ok_def vmm_good_def mm_inv_def vmm_wf_def)
    ultimately show ?thesis by simp
  qed
  then have len: "length xs + 4108 < 805306368" using n by linarith
  have u: "unat (of_nat (length xs) + 1 :: u32) = length xs + 1"
    using len unat_of_nat_u32 [of "Suc (length xs)"] by (simp add: add.commute)
  then have nn: "(unat (of_nat (length xs) + 1 :: u32) + 12 + 4095) div 4096 = n" "unat (of_nat (length xs) + 1 :: u32) + 12 + 4095 < 2 ^ 32"
    using n len by simp_all
  have room1: "mm_room n (mm (heap (files k)\<lparr>mm := t1\<rparr>))" using mm_room_mono [OF r1, of n] by simp
  from kmalloc_taken [OF h1 nn(2), unfolded nn(1), OF room1] obtain b h where
    k: "kmalloc (of_nat (length xs) + 1) (heap (files k)\<lparr>mm := t1\<rparr>) = Some (b + 12, h)" "b \<noteq> NULL"
      "heap_inv other (as @ [b]) h" "block_of h b = (unat b, length xs + 13)"
      "\<forall>a\<in>set as. block_of h a = block_of (heap (files k)\<lparr>mm := t1\<rparr>) a" and tk: "taken n t1 (mm h)"
    unfolding u by auto
  have dm: "dmmap_page_count (mm h) = dmmap_page_count (kmm k)" using tk d1(1) by (simp add: taken_def)
  have r2: "mm_room 2 (mm h)" using tk r1 by (simp add: taken_def)
  have good: "vmm_good (mm h)" and pages: "other \<subseteq> vmm_pages (mm h)" using k(3) by (auto simp: heap_inv_def vmm.heap_ok_def)
  have ub: "unat (b + 12) = unat b + 12" "unat b + length xs + 13 \<le> 805306368"
  proof -
    show "unat b + length xs + 13 \<le> 805306368" using heap_inv_block [OF k(3), of b] k(4) by (simp add: block_ok_def)
    then show "unat (b + 12) = unat b + 12" by (simp add: unat_add32)
  qed
  have out: "\<not> x - (b + 12) < of_nat (Suc (length xs))" if "held other (kmm k) x" for x
  proof
    assume "x - (b + 12) < of_nat (Suc (length xs))"
    then have l: "unat (x - (b + 12)) < Suc (length xs)"
      using u by (simp add: word_less_nat_alt add.commute)
    have "unat x = unat ((b + 12) + (x - (b + 12)))" by simp
    also have "\<dots> = unat b + 12 + unat (x - (b + 12))" using l ub by (subst unat_add32) simp_all
    finally have "unat b \<le> unat x" "unat x < unat b + length xs + 13" using l by simp_all
    with held_outside [OF k(3), of b x] that k(4) dm show False by (simp add: held_def)
  qed
  have "length xs < 2 ^ 31" using len by simp
  from strcpy_outside [OF path _ this] out at obtain m where
    m: "strcpy (b + 12) path (kmem k) = Some (b + 12, m)" "cstring m (b + 12) xs"
      "\<forall>x. \<not> x - (b + 12) < of_nat (Suc (length xs)) \<longrightarrow> m x = kmem k x" by metis
  define k3 where "k3 = set_mem m (set_heap h (set_mm t1 k))"
  have k3: "kmm k3 = mm h" "mm_state.more (ksched k3) = mm_state.more (ksched k)"
    "heap (files k3) = h" "kmem k3 = m" "ram k3 = ram k" "screen k3 = screen k" "keyboard k3 = keyboard k"
    by (simp_all add: k3_def) (simp_all add: set_mem_def set_heap_def set_mm_def)
  note S = sched_more_cong [OF k3(2)]
  have good3: "vmm_good (ksched k3)" "mm_room 2 (ksched k3)" "dmmap_page_count (ksched k3) = dmmap_page_count (kmm k)"
    "vmm_pages (ksched k3) = vmm_pages (mm h)"
    using good r2 dm truncate_mm [where t = "ksched k3"] by (simp_all add: k3(1))
  have ring3: "ring (ksched k3) (current_process (ksched k3) # ps)"
    using ring ring_cong [of "current_process (ksched k) # ps" "ksched k3" "ksched k"] by (simp add: S)
  have live3: "unat q div 4096 \<in> vmm_pages (ksched k3) \<or> unat q div 4096 < unat (dmmap_page_count (ksched k3))"
    if "q \<in> set (current_process (ksched k3) # ps)" for q
    using live [of q] that pages good3(3,4) by (auto simp: held_def S)
  from process_create_correct [OF good3(1,2) ring3 live3, of fn "b + 12" exit_fn "page d"] obtain p t where
    pc: "process_create fn (b + 12) exit_fn (page d) (ksched k3) = Some (new_pid (ksched k), t)" "p \<noteq> NULL"
    and R: "ring t (current_process (ksched k) # p # ps)" "will_run fn (b + 12) exit_fn (page d) p t"
      "pid (procs t p) = new_pid (ksched k)" "same_sched {p} (ksched k3) t"
      "new_pid t = new_pid (ksched k) + 1" "\<forall>x. \<not> x - p < KERNEL_STACK_SIZE \<longrightarrow> stack_mem t x = stack_mem (ksched k) x"
    and M: "vmm_good t" "taken 2 (ksched k3) t" "vmm_pages t = vmm_pages (mm h) \<union> {unat p div 4096, unat p div 4096 + 1}"
      "vmm_pages (mm h) \<inter> {unat p div 4096, unat p div 4096 + 1} = {}"
    unfolding S good3(4) by metis
  define k4 where "k4 = set_sched t k3"
  have run: "exec fn exit_fn path k = Some (new_pid (ksched k), k4)"
  proof -
    have "heap (files (set_mm t1 k)) = heap (files k)\<lparr>mm := t1\<rparr>" by (simp add: set_mm_def)
    moreover have "b + 12 \<noteq> NULL" using ub(1) by (metis add_is_0 unat_0 zero_neq_numeral)
    ultimately show ?thesis
      using pd(2) pid m(1) pc(1) strlen_correct [OF path]
      by (simp add: exec_def pd(1) Let_def k(1) k3_def [symmetric] k4_def)
  qed
  have k4: "ksched k4 = t" "kmm k4 = mm_state.truncate t" "kmem k4 = m" "heap (files k4) = h\<lparr>mm := mm_state.truncate t\<rparr>"
    "ram k4 = ram k" "screen k4 = screen k" "keyboard k4 = keyboard k"
    by (simp_all add: k4_def k3(4-7)) (simp add: set_sched_def set_mm_def k3(3))
  have ent: "entry (kmm k4) = entry t1" and wf: "umm_wf e t1 \<Longrightarrow> umm_wf e (kmm k4)"
    and val: "get_umm_value v q (kmm k4) = get_umm_value v q t1" for e v q
    using taken_umm [OF tk] taken_umm [OF M(2)] truncate_mm [where t = t] truncate_mm [where t = "ksched k3"] by (simp_all add: k4(2) k3(1))
  have "umm_owned d (kmm k4)" "umm_frames d (kmm k4) = {d}"
    using d1(3) by (auto simp: umm_owned_def umm_frames_def umm_table_def ent)
  moreover have "heap_inv (other \<union> {unat p div 4096, unat p div 4096 + 1}) (as @ [b + 12 - 12]) (heap (files k4))"
  proof -
    have "block_of (h\<lparr>mm := mm_state.truncate t\<rparr>) = block_of h" by (simp add: fun_eq_iff block_of_def)
    then show ?thesis
      using k(3) M(1,3,4) truncate_mm [where t = t] unfolding k4(4) by (auto simp: heap_inv_def vmm.heap_ok_def)
  qed
  moreover have "block_of (heap (files k4)) (b + 12 - 12) = (unat (b + 12 - 12), length xs + 13)"
    using k(4) by (simp add: k4(4) block_of_def)
  moreover have "ring (ksched k4) (current_process (ksched k) # p # ps)" "will_run fn (b + 12) exit_fn (page d) p (ksched k4)"
    "pid (procs (ksched k4) p) = new_pid (ksched k)" "same_sched {p} (ksched k) (ksched k4)"
    unfolding k4(1) using R by (simp_all add: same_sched_def S)
  moreover have "cstring (kmem k4) (b + 12) xs"
    "\<forall>x. \<not> x - (b + 12) < of_nat (Suc (length xs)) \<longrightarrow> kmem k4 x = kmem k x"
    using m(2,3) by (simp_all only: k4(3))
  moreover have "\<forall>v<PAGE_OFFSET. get_umm_value v (page d) (kmm k4) = 0" using d1(4) by (simp only: val)
  moreover have "\<forall>e. e \<noteq> d \<and> umm_wf e (kmm k) \<longrightarrow> umm_wf e (kmm k4)" using d1(5) wf by blast
  moreover have "space_added d (kmm k) (kmm k4)"
  proof -
    obtain f where f: "gains f t1 (mm h)" using tk by (auto simp: taken_def)
    obtain g where "gains g (ksched k3) t" using M(2) by (auto simp: taken_def)
    from gains_truncate [OF this] have "gains g (mm h) (kmm k4)" by (simp add: k3(1) k4(2))
    from space_added_gains [OF pd(3) D(1-6) d1(1) D(7) gains_trans [OF f this]] show ?thesis .
  qed
  moreover have "\<forall>a\<in>set as. block_of (heap (files k4)) a = block_of (heap (files k)) a"
    using k(5) by (simp add: k4(4) block_of_def)
  moreover have "new_pid (ksched k4) = new_pid (ksched k) + 1"
    "\<forall>x. \<not> x - p < KERNEL_STACK_SIZE \<longrightarrow> stack_mem (ksched k4) x = stack_mem (ksched k) x"
    unfolding k4(1) by (rule R(5,6))+
  moreover have "k4 = set_mem (kmem k4) (set_sched (ksched k4) (set_heap (heap (files k4)) k))"
    unfolding k4(1,3,4) by (simp add: k4_def k3_def set_mem_def set_sched_def set_heap_def set_mm_def)
  ultimately show ?thesis
    using run pd(3) wf [OF d1(2)] k4(5-7)
    by (intro exI [of _ k4] exI [of _ p] exI [of _ "b + 12"] exI [of _ d] conjI)
qed

lemma next_switch:
  assumes "ring s (current_process s # p # ps)" and "state (procs s p) = RUN"
  shows "\<exists>u. timer_interrupt s = Some u \<and> current_process u = p \<and> cpu u = ctx (procs s p)"
proof -
  have "next_proc (procs s (current_process s)) = p" "p \<noteq> current_process s" using assms(1) by (auto simp: ring_def)
  then show ?thesis
    using assms(2) by (subst timer_interrupt_loop, subst switch_loop_step(1))
      (simp_all add: switch_to_def switch_context_def Let_def)
qed

section \<open>Properties\<close>

text \<open>C4. \<open>exec\<close> makes a process that runs the program: with room for it the call comes back with the identifier of a new
  process, which is behind the current one in the ring and gets the processor at the next timer interrupt, on
  a fresh kernel stack in pages of its own that make it call \<open>fn\<close> on a copy of the path in the heap and then \<open>exit_fn\<close>.
  Its page directory is a frame that was free, its address space is empty and owns nothing else.  Nothing else changes: no
  other process but the ring pointer of the current one, no byte of the kernel's memory outside the copy and no word outside the
  new stack; exactly the directory's frame and one frame for every newly mapped dynamic page leave the free ones, no mapping
  that was there and no entry of any other page table or directory changes; the blocks of the heap are as before, with
  a block of the right size for the copy as its newest; and \<open>new_pid\<close> is the next number.\<close>

theorem exec_creates:
  assumes "heap_inv other as (heap (files k))" and "exec_room n (kmm k)" and "n = (length xs + 4108) div 4096"
    and "ring (ksched k) (current_process (ksched k) # ps)" and "new_pid (ksched k) \<noteq> 0"
    and "\<And>q. q \<in> set (current_process (ksched k) # ps) \<Longrightarrow> held other (kmm k) q"
    and "cstring (kmem k) path xs" and "\<And>j. j \<le> length xs \<Longrightarrow> held other (kmm k) (path + of_nat j)"
  shows "\<exists>k' p a d u. exec fn exit_fn path k = Some (new_pid (ksched k), k') \<and>
    ring (ksched k') (current_process (ksched k) # p # ps) \<and> will_run fn a exit_fn (page d) p (ksched k') \<and>
    pid (procs (ksched k') p) = new_pid (ksched k) \<and> same_sched {p} (ksched k) (ksched k') \<and>
    timer_interrupt (ksched k') = Some u \<and> current_process u = p \<and> cpu u = ctx (procs (ksched k') p) \<and>
    cstring (kmem k') a xs \<and> (\<forall>x. \<not> x - a < of_nat (Suc (length xs)) \<longrightarrow> kmem k' x = kmem k x) \<and>
    d \<in> pmm_free (kmm k) \<and> umm_wf d (kmm k') \<and> umm_owned d (kmm k') \<and> umm_frames d (kmm k') = {d} \<and>
    (\<forall>b<PAGE_OFFSET. get_umm_value b (page d) (kmm k') = 0) \<and> (\<forall>e. e \<noteq> d \<and> umm_wf e (kmm k) \<longrightarrow> umm_wf e (kmm k')) \<and>
    space_added d (kmm k) (kmm k') \<and> (\<forall>b\<in>set as. block_of (heap (files k')) b = block_of (heap (files k)) b) \<and>
    new_pid (ksched k') = new_pid (ksched k) + 1 \<and>
    (\<forall>x. \<not> x - p < KERNEL_STACK_SIZE \<longrightarrow> stack_mem (ksched k') x = stack_mem (ksched k) x) \<and>
    k' = set_mem (kmem k') (set_sched (ksched k') (set_heap (heap (files k')) k)) \<and>
    heap_inv (other \<union> {unat p div 4096, unat p div 4096 + 1}) (as @ [a - 12]) (heap (files k')) \<and>
    block_of (heap (files k')) (a - 12) = (unat (a - 12), length xs + 13) \<and>
    ram k' = ram k \<and> screen k' = screen k \<and> keyboard k' = keyboard k"
proof -
  from exec_correct [OF assms(1-8), of fn exit_fn] obtain k' p a d where
    k': "exec fn exit_fn path k = Some (new_pid (ksched k), k')"
      "ring (ksched k') (current_process (ksched k) # p # ps)" "will_run fn a exit_fn (page d) p (ksched k')"
      "same_sched {p} (ksched k) (ksched k')"
    and R: "pid (procs (ksched k') p) = new_pid (ksched k)" "cstring (kmem k') a xs"
      "\<forall>x. \<not> x - a < of_nat (Suc (length xs)) \<longrightarrow> kmem k' x = kmem k x"
      "d \<in> pmm_free (kmm k)" "umm_wf d (kmm k')" "umm_owned d (kmm k')" "umm_frames d (kmm k') = {d}"
      "\<forall>b<PAGE_OFFSET. get_umm_value b (page d) (kmm k') = 0" "\<forall>e. e \<noteq> d \<and> umm_wf e (kmm k) \<longrightarrow> umm_wf e (kmm k')"
      "heap_inv (other \<union> {unat p div 4096, unat p div 4096 + 1}) (as @ [a - 12]) (heap (files k'))"
      "block_of (heap (files k')) (a - 12) = (unat (a - 12), length xs + 13)"
      "ram k' = ram k" "screen k' = screen k" "keyboard k' = keyboard k"
      "space_added d (kmm k) (kmm k')" "\<forall>b\<in>set as. block_of (heap (files k')) b = block_of (heap (files k)) b"
      "new_pid (ksched k') = new_pid (ksched k) + 1"
      "\<forall>x. \<not> x - p < KERNEL_STACK_SIZE \<longrightarrow> stack_mem (ksched k') x = stack_mem (ksched k) x"
      "k' = set_mem (kmem k') (set_sched (ksched k') (set_heap (heap (files k')) k))" by blast
  have "current_process (ksched k') = current_process (ksched k)" "state (procs (ksched k') p) = RUN"
    using k'(3,4) by (simp_all add: same_sched_def will_run_def Let_def)
  with next_switch [of "ksched k'" p ps] k'(2) obtain u where
    "timer_interrupt (ksched k') = Some u" "current_process u = p" "cpu u = ctx (procs (ksched k') p)" by auto
  with k' R show ?thesis
    by (intro exI [of _ k'] exI [of _ p] exI [of _ a] exI [of _ d] exI [of _ u] conjI)
qed

theorem exec_creates_witness:
  "\<exists>k' a p u. exec 0x1000 0x1100 0x6000 (kernel_sample mm_sample) = Some (4, k') \<and> cstring (kmem k') a [0x2f, 0x61, 0x62] \<and>
     timer_interrupt (ksched k') = Some u \<and> current_process u = p \<and> unat (esp (cpu u)) = unat p + 8180"
proof -
  let ?k = "kernel_sample mm_sample"
  have m: "vmm_pos mm_sample = 15" "dmmap_page_count mm_sample = 16" "kernel_mmap_pde mm_sample i = 0" for i
    by (simp_all add: mm_sample_def)
  have h: "heap_inv {} [] (heap (files ?k))"
    using heap_sample_inv by (simp add: kernel_sample_def heap_sample_def disk_state.defs file_state.defs)
  have r: "exec_room 1 (kmm ?k)"
    using mm_sample_pmm by (auto simp: exec_room_def m mm_sample_run intro!: exI [of _ 15])
  have n: "1 = (length [0x2f, 0x61, 0x62 :: u8] + 4108) div 4096" by simp
  have ring: "ring (ksched ?k) (current_process (ksched ?k) # [])" by (simp add: ring_def)
  have pid: "new_pid (ksched ?k) = 4" by (simp add: kernel_sample_def ksched_def mm_state.defs sched_state.defs)
  have q: "held {} (kmm ?k) q" if "q \<in> set [current_process (ksched ?k)]" for q using that by (simp add: held_def m)
  have path: "cstring (kmem ?k) 0x6000 [0x2f, 0x61, 0x62]" by (simp add: sample_volume_def)
  have at: "held {} (kmm ?k) (0x6000 + of_nat j)" if "j \<le> length [0x2f, 0x61, 0x62 :: u8]" for j
  proof -
    have "unat (of_nat j :: u32) = j" using that by (simp add: unat_of_nat_u32)
    with that show ?thesis by (simp add: held_def m unat_add32)
  qed
  from exec_creates [OF h r n ring _ q path at, of "0x1000" "0x1100"] pid obtain k' p a d u where
    "exec 0x1000 0x1100 0x6000 ?k = Some (4, k')" "will_run 0x1000 a 0x1100 (page d) p (ksched k')"
    "timer_interrupt (ksched k') = Some u" "current_process u = p" "cpu u = ctx (procs (ksched k') p)"
    "cstring (kmem k') a [0x2f, 0x61, 0x62]" by auto
  then show ?thesis by (intro exI [of _ k'] exI [of _ a] exI [of _ p] exI [of _ u]) (simp add: will_run_def Let_def)
qed

end
