(* ===== verification/Loader.thy ===== *)
theory Loader
  imports Exec
begin

text \<open>
  Loading a segment of a program, from the file on the disk to the memory of the process: \<open>load_program\<close>
  (\<open>src/kernel/binfmt/elf.c\<close>) over \<open>file_read\<close> and the windows of \<open>umm_mmap_kmm\<close>.
\<close>

section \<open>Reading a file in the kernel\<close>

text \<open>The file system \<open>f\<close> at \<open>fp\<close>, on the disk \<open>d\<close> at \<open>q\<close>, is the one of the current disk.\<close>

definition file_system :: "drive \<Rightarrow> (nat \<Rightarrow> u8) \<Rightarrow> u32 \<Rightarrow> u32 \<Rightarrow> disk \<Rightarrow> fat \<Rightarrow> kernel \<Rightarrow> bool" where
  "file_system dev content q fp d f k \<longleftrightarrow>
     mounted (heap (files k)) dev content q fp d f (disk_state.truncate (files k)) \<and>
     d_fs d = \<lparr>fs_type = FS_FAT, info = fp\<rparr> \<and> cur_disk (files k) = disk_id f"

text \<open>The path \<open>xs\<close> leads to a file with the entry \<open>e\<close> and the clusters \<open>cs\<close>.\<close>

definition has_file :: "(nat \<Rightarrow> u8) \<Rightarrow> fat \<Rightarrow> disk \<Rightarrow> u8 list list \<Rightarrow> fat_dir \<Rightarrow> u32 list \<Rightarrow> bool" where
  "has_file V f d xs e cs \<longleftrightarrow> resolves V f d None xs (Some (Some e)) \<and> order e \<noteq> FLAG_DEL \<and>
     Fat.attribute e AND ATTR_ARCHIVE \<noteq> 0 \<and> chain V f cs \<and> hd cs = entry_cluster f e \<and> readable f d cs \<and>
     unat (file_size e) \<le> length cs * unat (cluster_size f)"

lemma mounted_same:
  assumes "mounted h dev content q fp d f s" and "disks t = disks s" "fats t = fats s" "ata t = ata s"
    "header t = header s" "pos t = pos s" "heap t = h'"
  shows "mounted h' dev content q fp d f t"
  using assms by (auto simp: mounted_def serving_def disk_list_def ids_distinct_def)

lemma file_system_same:
  assumes "file_system dev content q fp d f k" and "disks (files k') = disks (files k)" "fats (files k') = fats (files k)"
    "ata (files k') = ata (files k)" "header (files k') = header (files k)" "pos (files k') = pos (files k)"
    "cur_disk (files k') = cur_disk (files k)"
  shows "file_system dev content q fp d f k'"
proof -
  let ?s = "disk_state.truncate (files k)" and ?t = "disk_state.truncate (files k')"
  have "mounted (heap (files k')) dev content q fp d f ?t"
    using assms mounted_same [where s = ?s and t = ?t and h = "heap (files k)"]
    unfolding file_system_def by (simp add: disk_state.truncate_def)
  with assms show ?thesis by (simp add: file_system_def)
qed

lemma file_system_set [simp]:
  "file_system dev content q fp d f k \<Longrightarrow> file_system dev content q fp d f (set_mm t k)"
  "file_system dev content q fp d f k \<Longrightarrow> file_system dev content q fp d f (set_mem m k)"
  "file_system dev content q fp d f k \<Longrightarrow> file_system dev content q fp d f (k\<lparr>ram := r\<rparr>)"
  by (erule file_system_same; simp add: set_mm_def set_mem_def)+

text \<open>Everything of the kernel but its own memory and the disks.\<close>

definition same_but_files :: "kernel \<Rightarrow> kernel \<Rightarrow> bool" where
  "same_but_files k k' \<longleftrightarrow> kmm k' = kmm k \<and> tasks k' = tasks k \<and> ram k' = ram k \<and> screen k' = screen k \<and>
     keyboard k' = keyboard k \<and> heap (files k') = heap (files k)"

lemma on_files_disks:
  assumes "op (disk_state.truncate (files k)) = Some (r, t)" and "heap t = heap (files k)"
  shows "\<exists>k'. on_files (on_disks op) k = Some (r, k') \<and> same_but_files k k' \<and> kmem k' = dmem t \<and>
    disk_state.truncate (files k') = t \<and> cur_disk (files k') = cur_disk (files k)"
  using assms
  by (simp add: on_files_def on_disks_def same_but_files_def kmm_def kmem_def disk_state.defs file_state.defs)

lemma disk_fread_fat:
  assumes "file_system dev content q fp d f k"
  shows "disk_fread dev fr (cur_disk (files k)) path buf count off (disk_state.truncate (files k)) =
    fat_read dev fr fp path buf count off (disk_state.truncate (files k))"
proof -
  let ?s = "disk_state.truncate (files k)"
  obtain ds n where "disk_list ?s ds" "ids_distinct ?s ds" "q \<in> set ds" and "d_id (disks ?s q) = disk_id (fats ?s fp)"
    and d: "disks ?s q = d" and f: "fats ?s fp = f\<lparr>root_dir_count := n\<rparr>"
    using assms unfolding file_system_def mounted_def serving_def by blast
  from get_disk_found [OF this(1-3)] this(4) d f assms show ?thesis
    by (simp add: disk_fread_def file_system_def fs_read_def)
qed

lemma read_file_at_correct:
  assumes fs: "file_system dev content q fp d f k" and fr: "frame_ok (elf_fat ef)"
    and path: "string_at (elf_fat ef) a (path_text xs) (disk_state.truncate (files k))"
    and hf: "has_file (view content d) f d xs e cs"
    and off: "unat off < unat (file_size e)" and n: "n = min (unat count) (unat (file_size e) - unat off)" "0 < n" "n < 2 ^ 31"
    and al: "aligned f (ucast off) (of_nat n)"
  shows "\<exists>k'. read_file_at dev ef a buf count off k = Some (int n, k') \<and> same_but_files k k' \<and>
    file_system dev content q fp d f k' \<and>
    (\<forall>x. \<not> scratch (elf_fat ef) x \<longrightarrow> kmem k' x = (if unat (x - buf) < n
      then cluster_byte (view content d) f cs (unat off + unat (x - buf)) else kmem k x))"
proof -
  let ?s = "disk_state.truncate (files k)"
  have m: "mounted (heap (files k)) dev content q fp d f ?s" using fs by (simp add: file_system_def)
  have u: "unat (ucast off :: u64) = unat off" by (simp add: unat_ucast_up)
  have F: "resolves (view content d) f d None xs (Some (Some e))" "order e \<noteq> FLAG_DEL"
    "Fat.attribute e AND ATTR_ARCHIVE \<noteq> 0" "chain (view content d) f cs" "hd cs = entry_cluster f e" "readable f d cs"
    "unat (file_size e) \<le> length cs * unat (cluster_size f)"
    using hf by (simp_all add: has_file_def)
  from fat_read_correct [OF F(1) m fr path F(2-7) _ _ n(2,3) al, of count] off n(1) obtain t where
    t: "fat_read dev (elf_fat ef) fp a buf count (ucast off) ?s = Some (int n, t)"
      "mounted (heap (files k)) dev content q fp d f t"
    and mem: "\<forall>x. \<not> scratch (elf_fat ef) x \<longrightarrow> dmem t x = (if unat (x - buf) < n
      then cluster_byte (view content d) f cs (unat off + unat (x - buf)) else dmem ?s x)"
    unfolding u by blast
  have h: "heap t = heap (files k)" using t(2) by (simp add: mounted_def)
  have "disk_fread dev (elf_fat ef) (cur_disk (files k)) a buf count (ucast off) ?s = Some (int n, t)"
    using t(1) by (simp only: disk_fread_fat [OF fs])
  from on_files_disks [where op = "disk_fread dev (elf_fat ef) (cur_disk (files k)) a buf count (ucast off)", OF this h]
  obtain k' where k': "read_file_at dev ef a buf count off k = Some (int n, k')" "same_but_files k k'" "kmem k' = dmem t"
    "disk_state.truncate (files k') = t" "cur_disk (files k') = cur_disk (files k)"
    unfolding read_file_at_def file_read_def on_files_def by auto
  have "file_system dev content q fp d f k'"
    using fs t(2) k' by (simp add: file_system_def same_but_files_def)
  moreover have "dmem ?s = kmem k" by (simp add: kmem_def disk_state.defs)
  ultimately show ?thesis using k' mem by auto
qed

section \<open>Loading a segment\<close>

definition segment_size :: "elf32_program_header \<Rightarrow> u32" where
  "segment_size ph = (if p_memsz ph > p_filesz ph then p_memsz ph else p_filesz ph)"

text \<open>The segment is in the process's memory: \<open>n\<close> bytes of the file, whatever was there up to the size that the header
  gives for the file, and zeros.  The rest of the process's memory and the rest of the kernel are as before.\<close>

definition segment_loaded :: "nat \<Rightarrow> elf32_program_header \<Rightarrow> nat \<Rightarrow> (nat \<Rightarrow> u8) \<Rightarrow> kernel \<Rightarrow> kernel \<Rightarrow> bool" where
  "segment_loaded d ph n bytes k k' \<longleftrightarrow>
     (\<forall>i < segment_size ph. user_frame (kmm k') d (p_vaddr ph + i) \<noteq> 0 \<and>
        (unat i < n \<longrightarrow> user_byte d k' (p_vaddr ph + i) = bytes (unat i)) \<and>
        (n \<le> unat i \<and> i < p_filesz ph \<and> user_frame (kmm k) d (p_vaddr ph + i) \<noteq> 0 \<longrightarrow>
           user_byte d k' (p_vaddr ph + i) = user_byte d k (p_vaddr ph + i)) \<and>
        (p_filesz ph \<le> i \<longrightarrow> user_byte d k' (p_vaddr ph + i) = 0)) \<and>
     (\<forall>b<PAGE_OFFSET. user_frame (kmm k) d b \<noteq> 0 \<and> \<not> b - p_vaddr ph < segment_size ph \<longrightarrow>
        user_frame (kmm k') d b \<noteq> 0 \<and> user_byte d k' b = user_byte d k b) \<and>
     mm_inv (kmm k') \<and> umm_wf d (kmm k') \<and> user_wf d (kmm k') \<and> vmm_map (kmm k') = vmm_map (kmm k) \<and>
     tasks k' = tasks k \<and> screen k' = screen k"

lemma window_user_byte:
  assumes w: "window attr len d p k k1" and b: "b < PAGE_OFFSET" "user_frame (kmm k) d b \<noteq> 0"
  shows "user_byte d k1 b = user_byte d k b" and "user_frame (kmm k1) d b = user_frame (kmm k) d b"
proof -
  have g: "get_umm_value b (page d) (kmm k1) = get_umm_value b (page d) (kmm k)"
    using w b by (simp add: window_def window_same_def)
  then show "user_byte d k1 b = user_byte d k b"
    by (simp add: user_byte_def user_phy_attr_def window_load(3) [OF w])
  show "user_frame (kmm k1) d b = user_frame (kmm k) d b" using g by (simp add: user_frame_def)
qed

lemma zeroed_part:
  fixes i :: u32
  assumes "i < sz" and "fz \<le> sz"
  shows "i - fz < sz - fz \<longleftrightarrow> fz \<le> i"
proof (cases "fz \<le> i")
  case True
  then show ?thesis using assms by (simp add: word_less_nat_alt word_le_nat_alt unat_sub)
next
  case False
  have "unat (i - fz) = 4294967296 + unat i - unat fz"
    using False by (simp add: unat_sub_if_size word_size word_le_nat_alt)
  moreover have "unat (sz - fz) = unat sz - unat fz" using assms(2) by (simp add: unat_sub)
  moreover have "unat fz \<le> unat sz" using assms(2) by (simp add: word_le_nat_alt)
  moreover have "unat i < unat fz" using False by (simp add: word_le_nat_alt)
  moreover note unat_u32_less [of sz]
  ultimately have "\<not> unat (i - fz) < unat (sz - fz)" by linarith
  then show ?thesis using False by (simp add: word_less_nat_alt)
qed

lemma outside_window:
  fixes x :: u32
  assumes "\<not> x - p < sz" and "fz \<le> sz"
  shows "\<not> x - (p + fz) < sz - fz"
proof -
  have "unat (x - p - fz) = unat (x - p) - unat fz"
    using assms by (subst unat_sub) (auto simp: word_less_nat_alt word_le_nat_alt)
  moreover have "unat (sz - fz) = unat sz - unat fz" using assms(2) by (simp add: unat_sub)
  moreover have "unat fz \<le> unat sz" "unat sz \<le> unat (x - p)" using assms by (simp_all add: word_less_nat_alt word_le_nat_alt)
  ultimately have "\<not> unat (x - p - fz) < unat (sz - fz)" by linarith
  then show ?thesis by (simp add: word_less_nat_alt diff_diff_eq)
qed

lemma load_segment_correct:
  assumes fs: "file_system dev content q fp dk f k" and fr: "frame_ok (elf_fat ef)"
    and path: "string_at (elf_fat ef) a (path_text xs) (disk_state.truncate (files k))"
    and hf: "has_file (view content dk) f dk xs e cs"
    and off: "unat (p_offset ph) < unat (file_size e)"
      "n = min (unat (p_filesz ph)) (unat (file_size e) - unat (p_offset ph))" "0 < n" "n < 2 ^ 31"
      "aligned f (ucast (p_offset ph)) (of_nat n)"
    and op: "can_open (p_vaddr ph) (segment_size ph) d (kmm k)" "cur_pde k = page d"
    and own: "\<And>x. scratch (elf_fat ef) x \<Longrightarrow> kernel_own d (kmm k) x"
      "\<And>j. j \<le> length (path_text xs) \<Longrightarrow> kernel_own d (kmm k) (a + of_nat j)"
  shows "\<exists>k'. load_segment dev ef a ph k = Some (True, k') \<and> file_system dev content q fp dk f k' \<and>
    (\<forall>x. kernel_own d (kmm k) x \<and> \<not> scratch (elf_fat ef) x \<longrightarrow> kmem k' x = kmem k x) \<and>
    segment_loaded d ph n (\<lambda>i. cluster_byte (view content dk) f cs (unat (p_offset ph) + i)) k k'"
proof -
  let ?sz = "segment_size ph" and ?v = "p_vaddr ph" and ?fz = "p_filesz ph"
  have le: "?fz \<le> ?sz" by (auto simp: segment_size_def)
  from open_window_correct [OF op] obtain p k1 where
    ow: "open_window ?v ?sz k = Some (p, k1)" "p \<noteq> NULL" and w: "window ?v ?sz d p k k1" by blast
  note L = window_load [OF w]
  have low: "direct_low (kmm k)" and bnd: "unat ?v + unat ?sz \<le> 3221225472" using op(1) by (simp_all add: can_open_def)
  note ap = window_apart [OF w low]
  have k1: "k1 = set_mem (load_window p ?sz (kmm k1) (ram k) (kmem k)) (set_mm (kmm k1) k)"
    using w unfolding window_def by blast
  have fs1: "file_system dev content q fp dk f k1" by (subst k1) (simp add: fs)
  have dm: "dmem (disk_state.truncate (files u)) = kmem u" for u by (simp add: kmem_def disk_state.defs)
  have "kmem k1 (a + of_nat j) = kmem k (a + of_nat j)" if "j \<le> length (path_text xs)" for j
    using L(2) ap own(2) that by blast
  then have path1: "string_at (elf_fat ef) a (path_text xs) (disk_state.truncate (files k1))"
    using path cstring_cong [of "path_text xs" "kmem k1" a "kmem k"] unfolding string_at_def dm by auto
  from read_file_at_correct [OF fs1 fr path1 hf off, of p] obtain k2 where
    rd: "read_file_at dev ef a p ?fz (p_offset ph) k1 = Some (int n, k2)" "same_but_files k1 k2"
      "file_system dev content q fp dk f k2"
    and mem: "\<And>x. \<not> scratch (elf_fat ef) x \<Longrightarrow> kmem k2 x = (if unat (x - p) < n
      then cluster_byte (view content dk) f cs (unat (p_offset ph) + unat (x - p)) else kmem k1 x)" by blast
  define u where "u = set_mem (memset (p + ?fz) 0 (?sz - ?fz) (kmem k2)) k2"
  define k' where "k' = close_window p ?sz u"
  have run: "load_segment dev ef a ph k = Some (True, k')"
    unfolding load_segment_def Let_def segment_size_def [symmetric] k'_def u_def by (simp add: ow rd(1))
  have "file_system dev content q fp dk f k'" unfolding k'_def close_window_def u_def by (simp add: rd(3))
  moreover have "kmem k' x = kmem k x" if x: "kernel_own d (kmm k) x" "\<not> scratch (elf_fat ef) x" for x
  proof -
    have nw: "\<not> x - p < ?sz" using ap [OF x(1)] .
    have "\<not> unat (x - p) < n" using nw le off(2) by (auto simp: word_less_nat_alt word_le_nat_alt)
    then have "kmem k2 x = kmem k x" using mem [OF x(2)] L(2) [OF nw] by simp
    moreover have "\<not> x - (p + ?fz) < ?sz - ?fz" by (rule outside_window [OF nw le])
    ultimately show ?thesis unfolding k'_def close_window_def u_def by (simp add: memset_correct)
  qed
  moreover have uk: "kmm u = kmm k1" "ram u = ram k1" "tasks u = tasks k1" "screen u = screen k1"
    using rd(2) by (simp_all add: u_def same_but_files_def)
  note C = window_close [OF w uk(1,2), folded k'_def]
  have "segment_loaded d ph n (\<lambda>i. cluster_byte (view content dk) f cs (unat (p_offset ph) + i)) k k'"
    unfolding segment_loaded_def
  proof (intro conjI allI impI)
    fix i assume i: "i < ?sz"
    have o: "?v + i < PAGE_OFFSET" by (rule window_byte(4) [OF i bnd])
    have f1: "user_frame (kmm k1) d (?v + i) \<noteq> 0" using w i unfolding window_def by blast
    have "user_frame (kmm k') d (?v + i) = user_frame (kmm k1) d (?v + i)" using C(6) [OF o] by (simp add: user_frame_def)
    with f1 show "user_frame (kmm k') d (?v + i) \<noteq> 0" by simp
    have ns: "\<not> scratch (elf_fat ef) (p + i)" using ap [OF own(1), of "p + i"] i by auto
    have m: "user_byte d k' (?v + i) = (if ?fz \<le> i then 0 else kmem k2 (p + i))"
      using C(7) [OF i] by (simp add: u_def memset_correct zeroed_part [OF i le])
    have m2: "kmem k2 (p + i) = (if unat i < n then cluster_byte (view content dk) f cs (unat (p_offset ph) + unat i)
      else user_byte d k1 (?v + i))" using mem [OF ns] L(1) [OF i] by simp
    show "user_byte d k' (?v + i) = 0" if "?fz \<le> i" using m that by simp
    have "\<not> ?fz \<le> i" if "unat i < n" using that off(2) by (simp add: word_le_nat_alt)
    with m m2 show "user_byte d k' (?v + i) = cluster_byte (view content dk) f cs (unat (p_offset ph) + unat i)"
      if "unat i < n" using that by simp
    show "user_byte d k' (?v + i) = user_byte d k (?v + i)"
      if "n \<le> unat i \<and> i < ?fz \<and> user_frame (kmm k) d (?v + i) \<noteq> 0"
    proof -
      have "user_byte d k' (?v + i) = kmem k2 (p + i)" using m that by (metis leD)
      then show ?thesis using m2 that window_user_byte(1) [OF w o] by simp
    qed
  next
    fix b assume b: "b < PAGE_OFFSET" "user_frame (kmm k) d b \<noteq> 0 \<and> \<not> b - ?v < ?sz"
    note W = window_user_byte [OF w b(1) conjunct1 [OF b(2)]]
    show "user_frame (kmm k') d b \<noteq> 0" using C(6) [OF b(1)] W(2) b(2) by (simp add: user_frame_def)
    show "user_byte d k' b = user_byte d k b" using C(8) [OF b(1)] W b(2) by simp
  qed (simp_all add: C(1-4,10,11) uk L(4,5))
  ultimately show ?thesis using run by blast
qed

section \<open>Loading a program\<close>

text \<open>The stack frames and the path are the kernel's own, and apart.\<close>

definition loader_frame :: "elf_frame \<Rightarrow> u32 \<Rightarrow> u32 \<Rightarrow> nat \<Rightarrow> mm_state \<Rightarrow> bool" where
  "loader_frame ef a len d s \<longleftrightarrow> frame_ok (elf_fat ef) \<and>
     (\<forall>x. scratch (elf_fat ef) x \<or> x - a \<le> len \<longrightarrow> kernel_own d s x) \<and>
     (\<forall>x. x - header_var ef < 52 \<or> x - pheader_var ef < 32 \<longrightarrow> \<not> scratch (elf_fat ef) x \<and> \<not> x - a \<le> len)"

text \<open>\<open>B\<close> are the bytes of the file at \<open>a\<close> with the path \<open>xs\<close>, as a memory that starts with it.\<close>

definition program_at :: "drive \<Rightarrow> (nat \<Rightarrow> u8) \<Rightarrow> u32 \<Rightarrow> u32 \<Rightarrow> disk \<Rightarrow> fat \<Rightarrow> elf_frame \<Rightarrow> u32 \<Rightarrow> u8 list list \<Rightarrow> fat_dir \<Rightarrow>
    u32 list \<Rightarrow> kernel \<Rightarrow> bool" where
  "program_at dev content q fp dk f ef a xs e cs k \<longleftrightarrow> file_system dev content q fp dk f k \<and>
     string_at (elf_fat ef) a (path_text xs) (disk_state.truncate (files k)) \<and> has_file (view content dk) f dk xs e cs"

definition file_memory :: "(nat \<Rightarrow> u8) \<Rightarrow> fat \<Rightarrow> disk \<Rightarrow> u32 list \<Rightarrow> memory" where
  "file_memory content f dk cs x = cluster_byte (view content dk) f cs (unat x)"

text \<open>A part of the file that \<open>file_read\<close> delivers in full.\<close>

definition part_of :: "fat \<Rightarrow> fat_dir \<Rightarrow> u32 \<Rightarrow> u32 \<Rightarrow> bool" where
  "part_of f e off count \<longleftrightarrow> 0 < count \<and> unat count < 2 ^ 31 \<and> unat off + unat count \<le> unat (file_size e) \<and>
     aligned f (ucast off) count"

lemma program_path:
  assumes "program_at dev content q fp dk f ef a xs e cs k" and "file_system dev content q fp dk f k'"
    and "\<And>x. x - a \<le> of_nat (length (path_text xs)) \<Longrightarrow> kmem k' x = kmem k x"
  shows "program_at dev content q fp dk f ef a xs e cs k'"
proof -
  have dm: "dmem (disk_state.truncate (files u)) = kmem u" for u by (simp add: kmem_def disk_state.defs)
  have l: "length (path_text xs) < 2 ^ 32" using assms(1) by (auto simp: program_at_def string_at_def)
  have "kmem k' (a + of_nat j) = kmem k (a + of_nat j)" if "j \<le> length (path_text xs)" for j
    using assms(3) [of "a + of_nat j"] that l by (simp add: word_le_nat_alt unat_of_nat_u32)
  then show ?thesis
    using assms(1,2) cstring_cong [of "path_text xs" "kmem k'" a "kmem k"]
    unfolding program_at_def string_at_def dm by auto
qed

lemma path_not_scratch:
  assumes "program_at dev content q fp dk f ef a xs e cs k" and "x - a \<le> of_nat (length (path_text xs))"
  shows "\<not> scratch (elf_fat ef) x"
proof -
  have S: "string_at (elf_fat ef) a (path_text xs) (disk_state.truncate (files k))" using assms(1) by (simp add: program_at_def)
  then have "length (path_text xs) < 2 ^ 32" by (auto simp: string_at_def)
  then have "unat (x - a) \<le> length (path_text xs)" using assms(2) by (simp add: word_le_nat_alt unat_of_nat_u32)
  moreover have "a + of_nat (unat (x - a)) = x" by simp
  ultimately show ?thesis using S unfolding string_at_def by metis
qed

lemma read_part:
  assumes prog: "program_at dev content q fp dk f ef a xs e cs k" and fr: "loader_frame ef a (of_nat (length (path_text xs))) d s"
    and part: "part_of f e off count"
    and buf: "\<And>x. x - buf < count \<Longrightarrow> x - header_var ef < 52 \<or> x - pheader_var ef < 32"
  shows "\<exists>k'. read_file_at dev ef a buf count off k = Some (int (unat count), k') \<and> same_but_files k k' \<and>
    program_at dev content q fp dk f ef a xs e cs k' \<and>
    (\<forall>x. \<not> scratch (elf_fat ef) x \<longrightarrow>
      kmem k' x = (if x - buf < count then file_memory content f dk cs (off + (x - buf)) else kmem k x))"
proof -
  have P: "file_system dev content q fp dk f k" "has_file (view content dk) f dk xs e cs"
    "string_at (elf_fat ef) a (path_text xs) (disk_state.truncate (files k))" "frame_ok (elf_fat ef)"
    using prog fr by (simp_all add: program_at_def loader_frame_def)
  have c: "0 < unat count" "unat count < 2 ^ 31" "unat off + unat count \<le> unat (file_size e)"
    "aligned f (ucast off) (of_nat (unat count))"
    using part by (simp_all add: part_of_def word_less_nat_alt)
  then have n: "unat off < unat (file_size e)" "unat count = min (unat count) (unat (file_size e) - unat off)" by linarith+
  from read_file_at_correct [OF P(1,4,3,2) n c(1,2,4), of buf] obtain k' where
    k': "read_file_at dev ef a buf count off k = Some (int (unat count), k')" "same_but_files k k'"
      "file_system dev content q fp dk f k'"
    and m: "\<And>x. \<not> scratch (elf_fat ef) x \<Longrightarrow> kmem k' x = (if unat (x - buf) < unat count
      then cluster_byte (view content dk) f cs (unat off + unat (x - buf)) else kmem k x)" by blast
  have m: "kmem k' x = (if x - buf < count then file_memory content f dk cs (off + (x - buf)) else kmem k x)"
    if "\<not> scratch (elf_fat ef) x" for x
  proof (cases "x - buf < count")
    case True
    then have "unat (x - buf) < unat count" by (simp add: word_less_nat_alt)
    moreover note unat_u32_less [of "file_size e"]
    ultimately have "unat off + unat (x - buf) < 4294967296" using c(3) by linarith
    then have "unat (off + (x - buf)) = unat off + unat (x - buf)" by (rule unat_add32)
    then show ?thesis using m [OF that] True by (simp add: file_memory_def word_less_nat_alt)
  next
    case False
    then show ?thesis using m [OF that] by (simp add: word_less_nat_alt)
  qed
  have "program_at dev content q fp dk f ef a xs e cs k'"
  proof (rule program_path [OF prog k'(3)])
    fix x assume x: "x - a \<le> of_nat (length (path_text xs))"
    then have "\<not> x - buf < count" using buf fr unfolding loader_frame_def by blast
    moreover have "\<not> scratch (elf_fat ef) x" by (rule path_not_scratch [OF prog x])
    ultimately show "kmem k' x = kmem k x" using m by simp
  qed
  with k' m show ?thesis by blast
qed

lemma same_but_files_trans: "same_but_files k k1 \<Longrightarrow> same_but_files k1 k2 \<Longrightarrow> same_but_files k k2"
  by (simp add: same_but_files_def)

text \<open>The headers of the program and of its segments, from its bytes.\<close>

definition segment_header :: "memory \<Rightarrow> elf32_header \<Rightarrow> nat \<Rightarrow> elf32_program_header" where
  "segment_header B h i = program_header_at B (e_phoff h + ucast (e_phentsize h) * of_nat i)"

lemma header_in_place:
  assumes "\<And>x. x - b < 32 \<Longrightarrow> m x = B (off + (x - b))"
  shows "program_header_at m b = program_header_at B off"
proof -
  have "m (b + y) = B (off + y)" if "y < 32" for y using assms [of "b + y"] that by simp
  from this [of 0] this show ?thesis by (simp add: program_header_at_def get32_def get16_def add.assoc)
qed

lemma elf_header_in_place:
  assumes "\<And>x. x - b < 52 \<Longrightarrow> m x = B (x - b)"
  shows "elf_header_at m b = elf_header_at B 0"
proof -
  have m: "m (b + y) = B y" if "y < 52" for y using assms [of "b + y"] that by simp
  have "(of_nat i :: u32) < 52" if "i < 16" for i using that by (simp add: word_less_nat_alt unat_of_nat_u32)
  with m have "map (\<lambda>i. m (b + of_nat i)) [0..<16] = map (\<lambda>i. B (0 + of_nat i)) [0..<16]" by (intro map_cong) simp_all
  with m [of 0] m show ?thesis by (simp add: elf_header_at_def get32_def get16_def add.assoc)
qed

text \<open>One turn of the loop reads the header.\<close>

lemma load_loop_header:
  assumes prog: "program_at dev content q fp dk f ef a xs e cs k" and fr: "loader_frame ef a (of_nat (length (path_text xs))) d s"
    and part: "part_of f e (off + sz * n) 32"
  shows "\<exists>k1. same_but_files k k1 \<and> program_at dev content q fp dk f ef a xs e cs k1 \<and>
    load_loop dev ef a off sz (Suc left) n k =
      (let ph = program_header_at (file_memory content f dk cs) (off + sz * n) in
       do { (ok, k2) \<leftarrow> (if p_type ph = PT_LOAD then load_segment dev ef a ph k1 else Some (True, k1));
            if ok then load_loop dev ef a off sz left (n + 1) k2 else Some (False, k2) })"
proof -
  from read_part [OF prog fr part, of "pheader_var ef"] obtain k1 where
    k1: "read_file_at dev ef a (pheader_var ef) 32 (off + sz * n) k = Some (int (unat (32 :: u32)), k1)"
      "same_but_files k k1" "program_at dev content q fp dk f ef a xs e cs k1"
    and m: "\<And>x. \<not> scratch (elf_fat ef) x \<Longrightarrow>
      kmem k1 x = (if x - pheader_var ef < 32 then file_memory content f dk cs (off + sz * n + (x - pheader_var ef)) else kmem k x)"
    by blast
  have ph: "program_header_at (kmem k1) (pheader_var ef) = program_header_at (file_memory content f dk cs) (off + sz * n)"
    by (rule header_in_place) (use m fr in \<open>auto simp: loader_frame_def\<close>)
  have "load_loop dev ef a off sz (Suc left) n k =
      (let ph = program_header_at (file_memory content f dk cs) (off + sz * n) in
       do { (ok, k2) \<leftarrow> (if p_type ph = PT_LOAD then load_segment dev ef a ph k1 else Some (True, k1));
            if ok then load_loop dev ef a off sz left (n + 1) k2 else Some (False, k2) })"
    using k1(1) by (simp add: ph)
  with k1(2,3) show ?thesis by blast
qed

text \<open>Headers of other types are passed over.\<close>

lemma load_loop_skips:
  assumes fr: "loader_frame ef a (of_nat (length (path_text xs))) d s"
  shows "program_at dev content q fp dk f ef a xs e cs k \<Longrightarrow>
    (\<And>i. i0 \<le> i \<Longrightarrow> i < i0 + left \<Longrightarrow> part_of f e (off + sz * of_nat i) 32 \<and>
       p_type (program_header_at (file_memory content f dk cs) (off + sz * of_nat i)) \<noteq> PT_LOAD) \<Longrightarrow>
    \<exists>k'. load_loop dev ef a off sz (left + rest) (of_nat i0) k = load_loop dev ef a off sz rest (of_nat (i0 + left)) k' \<and>
      same_but_files k k' \<and> program_at dev content q fp dk f ef a xs e cs k'"
proof (induction left arbitrary: i0 k)
  case 0
  show ?case using 0(1) by (intro exI [of _ k]) (simp add: same_but_files_def)
next
  case (Suc left)
  have h: "part_of f e (off + sz * of_nat i0) 32"
    "p_type (program_header_at (file_memory content f dk cs) (off + sz * of_nat i0)) \<noteq> PT_LOAD"
    using Suc.prems(2) [of i0] by simp_all
  from load_loop_header [OF Suc.prems(1) fr h(1), of "left + rest"] h(2) obtain k1 where
    k1: "same_but_files k k1" "program_at dev content q fp dk f ef a xs e cs k1"
      "load_loop dev ef a off sz (Suc left + rest) (of_nat i0) k = load_loop dev ef a off sz (left + rest) (of_nat (Suc i0)) k1"
    by (auto simp: Let_def add.commute)
  from Suc.IH [OF k1(2), of "Suc i0"] Suc.prems(2) obtain k' where
    "load_loop dev ef a off sz (left + rest) (of_nat (Suc i0)) k1 = load_loop dev ef a off sz rest (of_nat (Suc i0 + left)) k'"
    "same_but_files k1 k'" "program_at dev content q fp dk f ef a xs e cs k'" by auto
  with k1 show ?case using same_but_files_trans by (intro exI [of _ k']) auto
qed

section \<open>Running a program\<close>

text \<open>An executable with the header \<open>h\<close>, whose one segment to load is the \<open>j\<close>-th.\<close>

definition executable :: "fat \<Rightarrow> fat_dir \<Rightarrow> memory \<Rightarrow> elf32_header \<Rightarrow> nat \<Rightarrow> bool" where
  "executable f e B h j \<longleftrightarrow> h = elf_header_at B 0 \<and> is_elf h \<and> part_of f e 0 52 \<and> j < unat (e_phnum h) \<and>
     (\<forall>i<unat (e_phnum h). part_of f e (e_phoff h + ucast (e_phentsize h) * of_nat i) 32 \<and>
        (p_type (segment_header B h i) = PT_LOAD \<longleftrightarrow> i = j)) \<and>
     part_of f e (p_offset (segment_header B h j)) (p_filesz (segment_header B h j))"

lemma segment_loaded_same:
  assumes "segment_loaded d ph n bytes k1 k2" and "same_but_files k k1" and "same_but_files k2 k3"
  shows "segment_loaded d ph n bytes k k3"
  using assms by (simp add: segment_loaded_def same_but_files_def user_byte_def)

lemma load_one:
  assumes prog: "program_at dev content q fp dk f ef a xs e cs k"
    and fr: "loader_frame ef a (of_nat (length (path_text xs))) d (kmm k)"
    and part: "part_of f e (p_offset ph) (p_filesz ph)"
    and op: "can_open (p_vaddr ph) (segment_size ph) d (kmm k)" "cur_pde k = page d"
  shows "\<exists>k'. load_segment dev ef a ph k = Some (True, k') \<and> program_at dev content q fp dk f ef a xs e cs k' \<and>
    segment_loaded d ph (unat (p_filesz ph)) (\<lambda>i. cluster_byte (view content dk) f cs (unat (p_offset ph) + i)) k k'"
proof -
  let ?n = "unat (p_filesz ph)" and ?len = "of_nat (length (path_text xs)) :: u32"
  have P: "file_system dev content q fp dk f k" "has_file (view content dk) f dk xs e cs"
    "string_at (elf_fat ef) a (path_text xs) (disk_state.truncate (files k))" "frame_ok (elf_fat ef)"
    using prog fr by (simp_all add: program_at_def loader_frame_def)
  have c: "0 < ?n" "?n < 2 ^ 31" "unat (p_offset ph) + ?n \<le> unat (file_size e)" "aligned f (ucast (p_offset ph)) (of_nat ?n)"
    using part by (simp_all add: part_of_def word_less_nat_alt)
  then have n: "unat (p_offset ph) < unat (file_size e)" "?n = min ?n (unat (file_size e) - unat (p_offset ph))" by linarith+
  have own: "kernel_own d (kmm k) x" if "scratch (elf_fat ef) x \<or> x - a \<le> ?len" for x
    using fr that unfolding loader_frame_def by blast
  have own_path: "kernel_own d (kmm k) (a + of_nat j)" if "j \<le> length (path_text xs)" for j
  proof (rule own)
    have "length (path_text xs) < 2 ^ 32" using P(3) by (auto simp: string_at_def)
    with that show "scratch (elf_fat ef) (a + of_nat j) \<or> a + of_nat j - a \<le> ?len"
      by (simp add: word_le_nat_alt unat_of_nat_u32)
  qed
  have own_scratch: "kernel_own d (kmm k) x" if "scratch (elf_fat ef) x" for x using own that by blast
  from load_segment_correct [OF P(1,4,3,2) n c(1,2,4) op own_scratch own_path] obtain k' where
    k': "load_segment dev ef a ph k = Some (True, k')" "file_system dev content q fp dk f k'"
      "segment_loaded d ph ?n (\<lambda>i. cluster_byte (view content dk) f cs (unat (p_offset ph) + i)) k k'"
    and m: "\<And>x. kernel_own d (kmm k) x \<Longrightarrow> \<not> scratch (elf_fat ef) x \<Longrightarrow> kmem k' x = kmem k x" by blast
  have "program_at dev content q fp dk f ef a xs e cs k'"
    by (rule program_path [OF prog k'(2)]) (use m own path_not_scratch [OF prog] in blast)
  with k' show ?thesis by blast
qed

lemma binfmt_exec_correct:
  assumes prog: "program_at dev content q fp dk f ef a xs e cs k"
    and fr: "loader_frame ef a (of_nat (length (path_text xs))) d (kmm k)"
    and ex: "executable f e (file_memory content f dk cs) h j" and ph: "ph = segment_header (file_memory content f dk cs) h j"
    and op: "can_open (p_vaddr ph) (segment_size ph) d (kmm k)" "cur_pde k = page d"
  shows "\<exists>k'. binfmt_exec dev ef flags a k =
      Some (User \<lparr>u_cs = 0x1b, u_eip = e_entry h, u_eflags = flags OR 0x200, u_ss = 0x23, u_esp = PAGE_OFFSET, u_data = 0x23\<rparr>,
        set_heap (kfree a (heap (files k'))) k') \<and>
    segment_loaded d ph (unat (p_filesz ph)) (\<lambda>i. cluster_byte (view content dk) f cs (unat (p_offset ph) + i)) k k'"
proof -
  let ?B = "file_memory content f dk cs" and ?off = "e_phoff h" and ?sz = "ucast (e_phentsize h) :: u32"
    and ?num = "unat (e_phnum h)" and ?bytes = "\<lambda>i. cluster_byte (view content dk) f cs (unat (p_offset ph) + i)"
  have E: "h = elf_header_at ?B 0" "is_elf h" "part_of f e 0 52" "j < ?num" "part_of f e (p_offset ph) (p_filesz ph)"
    "\<And>i. i < ?num \<Longrightarrow> part_of f e (?off + ?sz * of_nat i) 32"
    "\<And>i. i < ?num \<Longrightarrow> p_type (program_header_at ?B (?off + ?sz * of_nat i)) = PT_LOAD \<longleftrightarrow> i = j"
    using ex unfolding executable_def ph segment_header_def by blast+
  from read_part [OF prog fr E(3), of "header_var ef"] obtain k0 where
    k0: "read_file_at dev ef a (header_var ef) 52 0 k = Some (int (unat (52 :: u32)), k0)" "same_but_files k k0"
      "program_at dev content q fp dk f ef a xs e cs k0"
    and m: "\<And>x. \<not> scratch (elf_fat ef) x \<Longrightarrow>
      kmem k0 x = (if x - header_var ef < 52 then ?B (0 + (x - header_var ef)) else kmem k x)" by blast
  have hd: "elf_header_at (kmem k0) (header_var ef) = h"
    unfolding E(1) by (rule elf_header_in_place) (use m fr in \<open>auto simp: loader_frame_def\<close>)
  define left where "left = ?num - Suc j"
  have num: "?num = j + Suc left" using E(4) by (simp add: left_def)
  have jh: "part_of f e (?off + ?sz * of_nat j) 32" "p_type (program_header_at ?B (?off + ?sz * of_nat j)) = PT_LOAD"
    using E(4,6,7) by simp_all
  from load_loop_skips [OF fr k0(3), of 0 j ?off ?sz "Suc left"] E(4,6,7) obtain k1 where
    k1: "load_loop dev ef a ?off ?sz ?num 0 k0 = load_loop dev ef a ?off ?sz (Suc left) (of_nat j) k1"
      "same_but_files k0 k1" "program_at dev content q fp dk f ef a xs e cs k1" unfolding num by auto
  from load_loop_header [OF k1(3) fr jh(1), of left] jh(2) obtain k2 where
    k2: "same_but_files k1 k2" "program_at dev content q fp dk f ef a xs e cs k2"
      "load_loop dev ef a ?off ?sz (Suc left) (of_nat j) k1 =
        do { (ok, k3) \<leftarrow> load_segment dev ef a ph k2;
             if ok then load_loop dev ef a ?off ?sz left (of_nat j + 1) k3 else Some (False, k3) }"
    unfolding ph segment_header_def by (auto simp: Let_def)
  have s2: "same_but_files k k2" using k0(2) k1(2) k2(1) same_but_files_trans by blast
  then have mm: "kmm k2 = kmm k" "cur_pde k2 = cur_pde k" by (simp_all add: same_but_files_def cur_pde_def ksched_def)
  from load_one [OF k2(2) _ E(5)] fr op mm obtain k3 where
    k3: "load_segment dev ef a ph k2 = Some (True, k3)" "program_at dev content q fp dk f ef a xs e cs k3"
      "segment_loaded d ph (unat (p_filesz ph)) ?bytes k2 k3" by auto
  have "\<exists>k'. load_loop dev ef a ?off ?sz (left + 0) (of_nat (Suc j)) k3 =
      load_loop dev ef a ?off ?sz 0 (of_nat (Suc j + left)) k' \<and> same_but_files k3 k' \<and>
      program_at dev content q fp dk f ef a xs e cs k'"
    by (rule load_loop_skips [OF fr k3(2)]) (use E(6,7) num in auto)
  then obtain k4 where k4: "load_loop dev ef a ?off ?sz left (of_nat j + 1) k3 = Some (True, k4)" "same_but_files k3 k4"
    by (auto simp: add.commute)
  have num2: "unat (ucast (e_phnum h) :: u32) = ?num" by (simp add: unat_ucast_up)
  have "sint (ucast (e_phnum h) :: u32) \<noteq> -1"
  proof
    assume "sint (ucast (e_phnum h) :: u32) = -1"
    then have "word_of_int (sint (ucast (e_phnum h) :: u32)) = (word_of_int (-1) :: u32)" by (rule arg_cong)
    then have "(ucast (e_phnum h) :: u32) + 1 = 0" by simp
    moreover have "unat ((ucast (e_phnum h) :: u32) + 1) = ?num + 1"
      using num2 unsigned_less [of "e_phnum h", where ?'a = nat] by (simp add: unat_add32)
    ultimately show False by simp
  qed
  moreover have "load_loop dev ef a ?off ?sz ?num 0 k0 = Some (True, k4)"
    unfolding k1(1) k2(3) by (simp add: k3(1) k4(1))
  ultimately have run: "elf_exec dev ef flags a k =
      Some (User (switch_to_user_mode (e_entry h) PAGE_OFFSET flags), set_heap (kfree a (heap (files k4))) k4)"
    using E(2) by (simp add: elf_exec_def k0(1) hd load_program_def num2)
  have "segment_loaded d ph (unat (p_filesz ph)) ?bytes k k4" by (rule segment_loaded_same [OF k3(3) s2 k4(2)])
  with run show ?thesis
    by (intro exI [of _ k4]) (simp add: binfmt_exec_def switch_to_user_mode_def)
qed

section \<open>Sample\<close>

definition sample_elf :: elf_frame where
  "sample_elf = \<lparr>elf_fat = sample_frame, header_var = 0x2100, pheader_var = 0x2200\<rparr>"

abbreviation sample_file :: memory where
  "sample_file \<equiv> file_memory sample_content (fats sample_disks 0x3000) (disks sample_disks 0x1000) [2, 3, 5]"

abbreviation sample_kernel :: kernel where
  "sample_kernel \<equiv> kernel_sample umm_sample_mapped"

lemma sample_file_byte:
  assumes "unat x < 122"
  shows "sample_file x = sample_program ! unat x"
proof -
  have "unat x div 512 = 0" "unat x mod 512 = unat x" using assms by simp_all
  then show ?thesis
    using assms by (simp add: file_memory_def cluster_byte_def sample_disk_simps cluster_pos_def view_def sample_content_def)
qed

lemma sample_header:
  "e_phoff (elf_header_at sample_file 0) = 52" "e_phentsize (elf_header_at sample_file 0) = 32"
  "e_phnum (elf_header_at sample_file 0) = 2" "e_entry (elf_header_at sample_file 0) = 0x1ffc"
  "is_elf (elf_header_at sample_file 0)"
  by (simp_all add: is_elf_def elf_header_at_def get32_def get16_def sample_file_byte sample_program_def)

lemma sample_segments:
  "program_header_at sample_file 84 = \<lparr>p_type = 1, p_offset = 116, p_vaddr = 0x1ffc, p_paddr = 0x1ffc, p_filesz = 6,
     p_memsz = 8, p_flags = 5, p_align = 4\<rparr>"
  "p_type (program_header_at sample_file 52) = 4"
  by (simp_all add: program_header_at_def get32_def get16_def sample_file_byte sample_program_def)

abbreviation sample_entry :: fat_dir where
  "sample_entry \<equiv> root_entry (disk_view sample_content 0x1000 sample_disks) (fats sample_disks 0x3000) 1"

lemma sample_program_at:
  "program_at sample_drive sample_content 0x1000 0x3000 (disks sample_disks 0x1000) (fats sample_disks 0x3000) sample_elf
     0x6000 [[], [0x61, 0x62]] sample_entry [2, 3, 5] sample_kernel"
proof -
  let ?V = "disk_view sample_content 0x1000 sample_disks" and ?f = "fats sample_disks 0x3000" and ?e = sample_entry
  note bytes = sample_entry_byte sample_content_def sample_root_def
  have e: "order ?e \<noteq> FLAG_DEL" "Fat.attribute ?e AND ATTR_ARCHIVE \<noteq> 0" "reserved ?e \<noteq> 0x2f" "2 = entry_cluster ?f ?e"
    "unat (file_size ?e) = 1200"
    by (simp_all add: order_def Fat.attribute_def reserved_def entry_cluster_def first_cluster_low_def file_size_def half_def
        sample_disk_simps bytes)
  have "resolves ?V ?f (disks sample_disks 0x1000) None [[], [0x61, 0x62]] (Some (Some ?e))"
    by (intro path_empty path_step [OF sample_lookup(1)] path_end e(3))
  then have "has_file ?V ?f (disks sample_disks 0x1000) [[], [0x61, 0x62]] ?e [2, 3, 5]"
    using e sample_readable by (simp add: has_file_def sample_link sample_disk_simps)
  moreover have "mounted (heap (files sample_kernel)) sample_drive sample_content 0x1000 0x3000 (disks sample_disks 0x1000)
      (fats sample_disks 0x3000) (disk_state.truncate (files sample_kernel))"
    using sample_volume_mounted [of "0x3000", unfolded sample_volume_simps]
    by (rule mounted_same) (simp_all, simp add: kernel_sample_def disk_state.defs file_state.defs)
  moreover have "d_fs (disks sample_disks 0x1000) = \<lparr>fs_type = FS_FAT, info = 0x3000\<rparr>" "disk_id (fats sample_disks 0x3000) = 5"
    by (simp_all add: sample_disks_def)
  moreover have "string_at sample_frame 0x6000 [0x2f, 0x61, 0x62] (disk_state.truncate (files sample_kernel))"
    using sample_strings(1) by (simp add: string_at_def)
  ultimately show ?thesis by (simp add: program_at_def file_system_def sample_elf_def)
qed

lemma sample_loader_frame: "loader_frame sample_elf 0x6000 3 1 umm_sample_mapped"
proof -
  have own: "kernel_own 1 umm_sample_mapped x" if "unat x div 4096 = 2 \<or> unat x div 4096 = 6" for x
    using that by (auto simp: kernel_own_def umm_sample_mapped_facts(7) umm_sample_frames simp del: One_nat_def)
  have near: "unat x = unat b + unat (x - b)" if "unat (x - b) < 4096" "unat b < 65536" for x b :: u32
    using unat_add32 [of b "x - b"] that by simp
  have sc: "\<exists>j<0x60. unat x = 0x2000 + j" if "scratch sample_frame x" for x
    using that near [of x "0x2000"] near [of x "0x2020"] near [of x "0x2040"]
    by (auto simp: scratch_def sample_frame_def)
  have pa: "\<exists>j<4. unat x = 0x6000 + j" if "x - 0x6000 \<le> 3" for x :: u32
    using that near [of x "0x6000"] by (auto simp: word_le_nat_alt)
  have hd: "\<exists>j<0x120. unat x = 0x2100 + j" if "x - 0x2100 < 52 \<or> x - 0x2200 < 32" for x :: u32
    using that near [of x "0x2100"] near [of x "0x2200"] by (auto simp: word_less_nat_alt)
  show ?thesis
    unfolding loader_frame_def
  proof (intro conjI allI impI)
    show "frame_ok (elf_fat sample_elf)" using sample_frame_ok by (simp add: sample_elf_def)
    show "kernel_own 1 umm_sample_mapped x" if "scratch (elf_fat sample_elf) x \<or> x - 0x6000 \<le> 3" for x
      using that sc [of x] pa [of x] by (intro own) (auto simp: sample_elf_def)
    show "\<not> scratch (elf_fat sample_elf) x" "\<not> x - 0x6000 \<le> 3"
      if "x - header_var sample_elf < 52 \<or> x - pheader_var sample_elf < 32" for x
      using that sc [of x] pa [of x] hd [of x] by (auto simp: sample_elf_def)
  qed
qed

lemma sample_can_open: "can_open 0x1ffc 8 1 umm_sample_mapped"
  using umm_sample_request umm_sample_mapped_facts(1-3) umm_sample_user_wf
  by (auto simp: can_open_def umm_sample_free)

lemma sample_executable:
  "executable (fats sample_disks 0x3000) sample_entry sample_file (elf_header_at sample_file 0) 1"
proof -
  have s: "unat (file_size sample_entry) = 1200"
    by (simp add: file_size_def half_def sample_entry_byte sample_content_def sample_root_def)
  have "i < 2 \<longleftrightarrow> i = 0 \<or> i = 1" for i :: nat by auto
  then show ?thesis
    by (simp add: executable_def segment_header_def sample_header part_of_def s aligned_def sample_disk_simps sample_segments
        del: One_nat_def)
qed

section \<open>Properties\<close>

text \<open>C13. Loading a segment with at least one byte in the file puts the bytes of the file from \<open>p_offset\<close> on at \<open>p_vaddr\<close> of the process, through the
  window and the file system, and zeros from \<open>p_filesz\<close> to the end of the segment; every page of it is mapped.  The
  part of the file that is read starts at a cluster boundary or lies in one cluster (\<open>fat.c:134\<close>).  Of
  a file that ends before, only the bytes there arrive, and what was in the process's memory stays
  behind them up to \<open>p_filesz\<close> (\<open>elf.c:90\<close>).  Every other byte of the process and of the kernel's own memory is as before, and
  so are the kernel's dynamic pages.\<close>

theorem load_segment_loads:
  assumes "file_system dev content q fp dk f k" and "frame_ok (elf_fat ef)"
    and "string_at (elf_fat ef) a (path_text xs) (disk_state.truncate (files k))"
    and "has_file (view content dk) f dk xs e cs"
    and "unat (p_offset ph) < unat (file_size e)"
    and "n = min (unat (p_filesz ph)) (unat (file_size e) - unat (p_offset ph))" and "0 < n" and "n < 2 ^ 31"
    and "aligned f (ucast (p_offset ph)) (of_nat n)"
    and "can_open (p_vaddr ph) (segment_size ph) d (kmm k)" and "cur_pde k = page d"
    and "\<And>x. scratch (elf_fat ef) x \<Longrightarrow> kernel_own d (kmm k) x"
    and "\<And>j. j \<le> length (path_text xs) \<Longrightarrow> kernel_own d (kmm k) (a + of_nat j)"
  shows "\<exists>k'. load_segment dev ef a ph k = Some (True, k') \<and> file_system dev content q fp dk f k' \<and>
    (\<forall>x. kernel_own d (kmm k) x \<and> \<not> scratch (elf_fat ef) x \<longrightarrow> kmem k' x = kmem k x) \<and>
    segment_loaded d ph n (\<lambda>i. cluster_byte (view content dk) f cs (unat (p_offset ph) + i)) k k'"
  by (rule load_segment_correct) (fact assms)+

theorem load_segment_loads_witness:
  "\<exists>k'. load_segment sample_drive sample_elf 0x6000 (program_header_at sample_file 84) sample_kernel = Some (True, k') \<and>
     user_byte 1 k' 0x1ffc = 0xb8 \<and> user_byte 1 k' 0x2001 = 5 \<and> user_byte 1 k' 0x2002 = 0"
proof -
  let ?V = "disk_view sample_content 0x1000 sample_disks" and ?f = "fats sample_disks 0x3000"
  note P = sample_program_at [unfolded program_at_def] and F = sample_loader_frame [unfolded loader_frame_def]
  have ss: "segment_size (program_header_at sample_file 84) = 8" by (simp add: segment_size_def sample_segments)
  have s: "unat (file_size sample_entry) = 1200"
    by (simp add: file_size_def half_def sample_entry_byte sample_content_def sample_root_def)
  have own: "scratch (elf_fat sample_elf) x \<Longrightarrow> kernel_own 1 (kmm sample_kernel) x" for x using F by simp
  have path: "kernel_own 1 (kmm sample_kernel) (0x6000 + of_nat j)" if "j \<le> length (path_text [[], [0x61, 0x62 :: u8]])" for j
  proof -
    have "(of_nat j :: u32) \<le> 3" using that by (simp add: word_le_nat_alt unat_of_nat_u32)
    then show ?thesis using F by simp
  qed
  have byte: "cluster_byte ?V ?f [2, 3, 5] (116 + i) = sample_program ! (116 + i)" if "i < 6" for i
    using that by (simp add: cluster_byte_def sample_disk_simps cluster_pos_def view_def sample_content_def)
  have pd: "cur_pde sample_kernel = page 1" by simp
  let ?ph = "program_header_at sample_file 84"
  have c: "unat (p_offset ?ph) < unat (file_size sample_entry)"
    "6 = min (unat (p_filesz ?ph)) (unat (file_size sample_entry) - unat (p_offset ?ph))" "0 < (6 :: nat)" "(6 :: nat) < 2 ^ 31"
    "aligned ?f (ucast (p_offset ?ph)) (of_nat 6)" "can_open (p_vaddr ?ph) (segment_size ?ph) 1 (kmm sample_kernel)"
    using sample_can_open by (simp_all add: s segment_size_def sample_segments aligned_def sample_disk_simps del: One_nat_def)
  from load_segment_loads [OF conjunct1 [OF P] conjunct1 [OF F] conjunct1 [OF conjunct2 [OF P]] conjunct2 [OF conjunct2 [OF P]]
      c pd own path]
  obtain k' where k': "load_segment sample_drive sample_elf 0x6000 ?ph sample_kernel = Some (True, k')"
    and "segment_loaded 1 ?ph 6 (\<lambda>i. cluster_byte ?V ?f [2, 3, 5] (unat (p_offset ?ph) + i)) sample_kernel k'"
    by blast
  then have L: "segment_loaded 1 ?ph 6 (\<lambda>i. cluster_byte ?V ?f [2, 3, 5] (116 + i)) sample_kernel k'"
    by (simp add: sample_segments)
  have "user_byte 1 k' (0x1ffc + i) = (if unat i < 6 then sample_program ! (116 + unat i) else 0)" if "i < 8" for i
    using L that byte [of "unat i"] unfolding segment_loaded_def ss by (auto simp: sample_segments word_le_nat_alt)
  from this [of 0] this [of 5] this [of 6] k' show ?thesis by (auto simp: sample_program_def)
qed

text \<open>C3. A program starts: a process that runs \<open>binfmt_exec\<close> on the path of an executable, with any number of headers of
  which exactly one is for a segment to load, has the segment in its memory and enters user mode at the entry point of the
  header, in ring 3 with the flat user segments, interrupts on and the stack under \<open>PAGE_OFFSET\<close>; the copy of the path is
  freed before.  The ELF header, every program header and the segment, which is not empty, lie in the file, and each of them starts at a cluster
  boundary or lies in one cluster (\<open>executable\<close>): \<open>read_cluster\<close> delivers no other parts right (\<open>fat.c:134\<close>).\<close>

theorem binfmt_exec_starts:
  assumes "program_at dev content q fp dk f ef a xs e cs k"
    and "loader_frame ef a (of_nat (length (path_text xs))) d (kmm k)"
    and "executable f e (file_memory content f dk cs) h j" and "ph = segment_header (file_memory content f dk cs) h j"
    and "can_open (p_vaddr ph) (segment_size ph) d (kmm k)" and "cur_pde k = page d"
  shows "\<exists>k'. binfmt_exec dev ef flags a k =
      Some (User \<lparr>u_cs = 0x1b, u_eip = e_entry h, u_eflags = flags OR 0x200, u_ss = 0x23, u_esp = PAGE_OFFSET, u_data = 0x23\<rparr>,
        set_heap (kfree a (heap (files k'))) k') \<and>
    segment_loaded d ph (unat (p_filesz ph)) (\<lambda>i. cluster_byte (view content dk) f cs (unat (p_offset ph) + i)) k k'"
  using assms by (rule binfmt_exec_correct)

theorem binfmt_exec_starts_witness:
  "\<exists>k'. binfmt_exec sample_drive sample_elf 2 0x6000 sample_kernel =
      Some (User \<lparr>u_cs = 0x1b, u_eip = 0x1ffc, u_eflags = 0x202, u_ss = 0x23, u_esp = PAGE_OFFSET, u_data = 0x23\<rparr>,
        set_heap (kfree 0x6000 (heap (files k'))) k') \<and> user_byte 1 k' 0x1ffc = 0xb8"
proof -
  let ?ph = "program_header_at sample_file 84"
  have ph: "?ph = segment_header sample_file (elf_header_at sample_file 0) 1"
    by (simp add: segment_header_def sample_header del: One_nat_def)
  have fr: "loader_frame sample_elf 0x6000 (of_nat (length (path_text [[], [0x61, 0x62 :: u8]]))) 1 (kmm sample_kernel)"
    and op: "can_open (p_vaddr ?ph) (segment_size ?ph) 1 (kmm sample_kernel)" and pd: "cur_pde sample_kernel = page 1"
    using sample_loader_frame sample_can_open by (simp_all add: segment_size_def sample_segments del: One_nat_def)
  from binfmt_exec_starts [OF sample_program_at fr sample_executable ph op pd, of 2] obtain k' where
    k': "binfmt_exec sample_drive sample_elf 2 0x6000 sample_kernel =
      Some (User \<lparr>u_cs = 0x1b, u_eip = 0x1ffc, u_eflags = 0x202, u_ss = 0x23, u_esp = PAGE_OFFSET, u_data = 0x23\<rparr>,
        set_heap (kfree 0x6000 (heap (files k'))) k')"
    and L: "segment_loaded 1 ?ph (unat (p_filesz ?ph)) (\<lambda>i. cluster_byte (disk_view sample_content 0x1000 sample_disks)
      (fats sample_disks 0x3000) [2, 3, 5] (unat (p_offset ?ph) + i)) sample_kernel k'"
    by (auto simp: sample_header)
  have z: "(0 :: u32) < segment_size ?ph" "unat (0 :: u32) < unat (p_filesz ?ph)" by (simp_all add: segment_size_def sample_segments)
  have "user_byte 1 k' (p_vaddr ?ph + 0) = cluster_byte (disk_view sample_content 0x1000 sample_disks)
      (fats sample_disks 0x3000) [2, 3, 5] (unat (p_offset ?ph) + unat (0 :: u32))"
    using L z unfolding segment_loaded_def by blast
  then have "user_byte 1 k' 0x1ffc = 0xb8"
    by (simp add: sample_segments cluster_byte_def sample_disk_simps cluster_pos_def view_def sample_content_def sample_program_def)
  with k' show ?thesis by blast
qed

end
