(* ===== verification/Syscall.thy ===== *)
theory Syscall
  imports Loader Interrupts
begin

text \<open>
  System calls: \<open>src/kernel/syscall/syscall.c\<close>, \<open>io.c\<close> and \<open>process.c\<close>.  A call of \<open>sys_get\<close> runs with interrupts
  on and waits for keys.  What the interrupts do is a function on the kernel at every point between two statements of
  \<open>sys_get\<close> and \<open>intr_lock\<close>, and one for every time that one of the loops around \<open>halt\<close> comes back to its test.
  When other processes run, the processor goes to one of them, and \<open>sys_get_end\<close> is what the caller does when it has the
  processor again.
\<close>

section \<open>Input\<close>

text \<open>\<open>key_get\<close> stores a key at \<open>key_c\<close> and opens the lock when none is missing.\<close>

definition key_get :: "u16 \<Rightarrow> kernel \<Rightarrow> kernel" where
  "key_get key k =
     (let k1 = (if key_len k > 0 \<and> key_c k \<noteq> NULL
                then (set_mem ((kmem k)(key_c k := ucast key)) k)\<lparr>key_c := key_c k + 1, key_len := key_len k - 1\<rparr>
                else k)
      in if key_len k1 = 0 \<and> key_lock k1 \<noteq> NULL then set_sched (intr_unlock (key_lock k1) (ksched k1)) k1 else k1)"

text \<open>The interrupt of the keyboard: \<open>key_get\<close> is the only callback that is ever registered.\<close>

fun put_out :: "kbd_out \<Rightarrow> kernel \<Rightarrow> kernel" where
  "put_out (Console c) k = k\<lparr>screen := console_putchar c (screen k)\<rparr>"
| "put_out (Callback fn key) k = key_get key k"

definition keyboard_interrupt :: "(nat \<Rightarrow> u8) \<Rightarrow> u8 \<Rightarrow> kernel \<Rightarrow> kernel" where
  "keyboard_interrupt after code k =
     (case irq1_handler after code (keyboard k) of (out, s) \<Rightarrow> fold put_out out (k\<lparr>keyboard := s\<rparr>))"

text \<open>The two loops around \<open>halt\<close>.  The list has what the interrupts do between a test of the loop and the next one;
  at its end no interrupt ends a \<open>halt\<close> any more, and the result is \<open>None\<close>.\<close>

fun key_wait :: "(kernel \<Rightarrow> kernel) list \<Rightarrow> kernel \<Rightarrow> kernel option" where
  "key_wait hs k = (if key_len k > 0 then (case hs of [] \<Rightarrow> None | h # hs \<Rightarrow> key_wait hs (h k)) else Some k)"

fun lock_wait :: "u32 \<Rightarrow> (kernel \<Rightarrow> kernel) list \<Rightarrow> kernel \<Rightarrow> kernel option" where
  "lock_wait l hs k =
     (let s = ksched k in
      if (current_process s = NULL \<or> current_process s = next_proc (procs s (current_process s))) \<and> lock_mem s l = 1
      then (case hs of [] \<Rightarrow> None | h # hs \<Rightarrow> lock_wait l hs (h k))
      else Some k)"

text \<open>\<open>intr_lock\<close> with the whole kernel's interrupts: \<open>intr 7\<close> before the loop and \<open>intr 8\<close> behind it.  The result
  tells whether the caller goes on; if not, another process has the processor.\<close>

definition wait_lock ::
    "u32 \<Rightarrow> (nat \<Rightarrow> kernel \<Rightarrow> kernel) \<Rightarrow> (kernel \<Rightarrow> kernel) list \<Rightarrow> kernel \<Rightarrow> (bool \<times> kernel) option" where
  "wait_lock l intr hs k =
     do { k1 \<leftarrow> lock_wait l hs
            (intr 7 (set_sched (upd_proc (current_process (ksched k)) (\<lambda>p. p\<lparr>lock := l\<rparr>) (ksched k)) k));
          let k1 = intr 8 k1;
          if lock_mem (ksched k1) l = 1
          then do { s \<leftarrow> timer_interrupt (upd_proc (current_process (ksched k1)) (\<lambda>p. p\<lparr>state := LOCK\<rparr>) (ksched k1));
                    Some (False, set_sched s k1) }
          else Some (True, k1) }"

text \<open>The statements that make the request, with the interrupts before, between and behind them.\<close>

definition sys_get_begin :: "(nat \<Rightarrow> kernel \<Rightarrow> kernel) \<Rightarrow> u32 \<Rightarrow> u32 \<Rightarrow> u32 \<Rightarrow> u32 \<Rightarrow> kernel \<Rightarrow> kernel" where
  "sys_get_begin intr key_get_fn lock_var c len k =
     (let k = intr 0 k;
          k = intr 1 (k\<lparr>key_lock := lock_var\<rparr>);
          k = intr 2 (k\<lparr>key_c := c\<rparr>);
          k = intr 3 (k\<lparr>key_len := len\<rparr>);
          k = intr 4 (set_sched (init_intr_lock lock_var (ksched k)) k);
          k = intr 5 (k\<lparr>keyboard := set_input_mode 2 (keyboard k)\<rparr>)
      in intr 6 (k\<lparr>keyboard := reg_key_callback key_get_fn (keyboard k)\<rparr>))"

definition sys_get_end :: "(nat \<Rightarrow> kernel \<Rightarrow> kernel) \<Rightarrow> u32 \<Rightarrow> u32 \<Rightarrow> u32 \<Rightarrow> kernel \<Rightarrow> u32 \<times> kernel" where
  "sys_get_end intr lock_var c len k =
     (let k = intr 9 k;
          k = intr 10 (if key_lock k = lock_var then k\<lparr>key_lock := NULL\<rparr> else k)
      in (len, close_window c len k))"

text \<open>\<open>before\<close> are the interrupts of the first loop, \<open>hs\<close> those of the second.\<close>

definition sys_get ::
    "u32 \<Rightarrow> u32 \<Rightarrow> (nat \<Rightarrow> kernel \<Rightarrow> kernel) \<Rightarrow> (kernel \<Rightarrow> kernel) list \<Rightarrow> (kernel \<Rightarrow> kernel) list \<Rightarrow>
       u32 \<Rightarrow> u32 \<Rightarrow> kernel \<Rightarrow> (u32 option \<times> kernel) option" where
  "sys_get key_get_fn lock_var intr before hs c len k =
     do { (p, k1) \<leftarrow> open_window c len k;
          if p = NULL then Some (Some 0, k1)
          else do { k2 \<leftarrow> key_wait before k1;
                    (go, k3) \<leftarrow> wait_lock lock_var intr hs (sys_get_begin intr key_get_fn lock_var p len k2);
                    Some (if go then (case sys_get_end intr lock_var p len k3 of (r, k4) \<Rightarrow> (Some r, k4)) else (None, k3)) } }"

section \<open>Output and processes\<close>

definition sys_put :: "u32 \<Rightarrow> u32 \<Rightarrow> kernel \<Rightarrow> (u32 \<times> kernel) option" where
  "sys_put c len k =
     do { (p, k1) \<leftarrow> open_window c len k;
          if p = NULL then Some (0, k1)
          else (let k2 = fold (\<lambda>i k. k\<lparr>screen := console_putchar (kmem k (p + of_nat i)) (screen k)\<rparr>) [0..<unat len] k1
                in Some (len, close_window p len k2)) }"

definition sys_exit :: "kernel \<Rightarrow> kernel" where
  "sys_exit k = set_sched (exec_exit (ksched k)) k"

definition sys_exec :: "u32 \<Rightarrow> u32 \<Rightarrow> u32 \<Rightarrow> u32 \<Rightarrow> kernel \<Rightarrow> (u32 \<times> kernel) option" where
  "sys_exec binfmt_fn exit_fn path len k =
     do { (p, k1) \<leftarrow> open_window path len k;
          if p = NULL then Some (0, k1)
          else do { (n, k2) \<leftarrow> exec binfmt_fn exit_fn p k1; Some (n, close_window p len k2) } }"

section \<open>Dispatch\<close>

text \<open>The addresses that the calls use, and the interrupts while \<open>sys_get\<close> waits.\<close>

record sys_env =
  binfmt_fn :: u32
  exit_fn :: u32
  key_get_fn :: u32
  lock_var :: u32
  intrs_between :: "nat \<Rightarrow> kernel \<Rightarrow> kernel"
  intrs_before :: "(kernel \<Rightarrow> kernel) list"
  intrs :: "(kernel \<Rightarrow> kernel) list"

datatype sys_result = Back intr_regs | Waits | Exited

definition syscall_handler :: "sys_env \<Rightarrow> intr_regs \<Rightarrow> kernel \<Rightarrow> (sys_result \<times> kernel) option" where
  "syscall_handler env regs k0 =
     (let k = set_sched (enable_intr (ksched k0)) k0;
          back = (\<lambda>regs k. (Back regs, set_sched (disable_intr (ksched k)) k))
      in if eax regs = 0 then Some (Exited, sys_exit k)
         else if eax regs = 1 then
           do { (n, k1) \<leftarrow> sys_exec (binfmt_fn env) (exit_fn env) (ebx regs) (ecx regs) k; Some (back (regs\<lparr>eax := n\<rparr>) k1) }
         else if eax regs = 2 then
           do { (r, k1) \<leftarrow> sys_get (key_get_fn env) (lock_var env) (intrs_between env) (intrs_before env) (intrs env) (ebx regs) (ecx regs) k;
                Some (case r of Some n \<Rightarrow> back (regs\<lparr>eax := n\<rparr>) k1 | None \<Rightarrow> (Waits, k1)) }
         else if eax regs = 3 then
           do { (n, k1) \<leftarrow> sys_put (ebx regs) (ecx regs) k; Some (back (regs\<lparr>eax := n\<rparr>) k1) }
         else Some (back regs k))"

section \<open>Output is what the process wrote\<close>

lemma put_loop:
  "fold (\<lambda>i k. k\<lparr>screen := console_putchar (kmem k (p + of_nat i)) (screen k)\<rparr>) xs k =
     k\<lparr>screen := fold console_putchar (map (\<lambda>i. kmem k (p + of_nat i)) xs) (screen k)\<rparr>"
  by (induction xs arbitrary: k) simp_all

lemma putchars_term:
  assumes "console_inv s"
  shows "term_of (fold console_putchar xs s) = fold term_putchar xs (term_of s) \<and> console_inv (fold console_putchar xs s)"
  using assms
proof (induction xs arbitrary: s)
  case (Cons x xs)
  with console_putchar_correct [OF Cons.prems, of x] show ?case by simp
qed simp

definition user_bytes :: "nat \<Rightarrow> kernel \<Rightarrow> u32 \<Rightarrow> u32 \<Rightarrow> u8 list" where
  "user_bytes d k c len = map (\<lambda>i. user_byte d k (c + of_nat i)) [0..<unat len]"

lemma index_u32: "i < unat len \<Longrightarrow> (of_nat i :: u32) < len \<and> unat (of_nat i :: u32) = i"
  using unat_u32_less [of len] by (simp add: word_less_nat_alt unat_of_nat_u32 del: unat_u32_less)

text \<open>What closing a window does to the process when only kernel state of other kinds changed since it was opened.\<close>

lemma window_unchanged:
  assumes w: "window c len d p k k1" and k2: "kmm k2 = kmm k1" "ram k2 = ram k1" "kmem k2 = kmem k1"
    and b: "b < PAGE_OFFSET" "user_frame (kmm k) d b \<noteq> 0"
  shows "user_byte d (close_window p len k2) b = user_byte d k b"
proof (cases "b - c < len")
  case True
  have "user_byte d (close_window p len k2) (c + (b - c)) = kmem k2 (p + (b - c))" by (rule window_close(7) [OF w k2(1,2) True])
  also have "\<dots> = user_byte d k1 (c + (b - c))" using window_load(1) [OF w True] k2(3) by simp
  finally show ?thesis using window_user_byte(1) [OF w b] by simp
next
  case False
  then show ?thesis
    using window_close(8) [OF w k2(1,2) b(1) _ False] window_user_byte [OF w b] b(2) by simp
qed

lemma sys_put_correct:
  assumes op: "can_open c len d (kmm k)" "cur_pde k = page d" and inv: "console_inv (screen k)"
    and mapped: "\<And>i. i < len \<Longrightarrow> user_frame (kmm k) d (c + i) \<noteq> 0"
  shows "\<exists>k'. sys_put c len k = Some (len, k') \<and>
    term_of (screen k') = fold term_putchar (user_bytes d k c len) (term_of (screen k)) \<and> console_inv (screen k') \<and>
    (\<forall>b<PAGE_OFFSET. user_frame (kmm k) d b \<noteq> 0 \<longrightarrow> user_byte d k' b = user_byte d k b) \<and>
    mm_inv (kmm k') \<and> umm_wf d (kmm k') \<and> vmm_map (kmm k') = vmm_map (kmm k) \<and> tasks k' = tasks k"
proof -
  from open_window_correct [OF op] obtain p k1 where
    ow: "open_window c len k = Some (p, k1)" "p \<noteq> NULL" and w: "window c len d p k k1" by blast
  note L = window_load [OF w]
  have bnd: "unat c + unat len \<le> 3221225472" using op(1) by (simp add: can_open_def)
  define bytes where "bytes = map (\<lambda>i. kmem k1 (p + of_nat i)) [0..<unat len]"
  define k2 where "k2 = k1\<lparr>screen := fold console_putchar bytes (screen k1)\<rparr>"
  have k2: "kmm k2 = kmm k1" "ram k2 = ram k1" "kmem k2 = kmem k1" "tasks k2 = tasks k1"
    "screen k2 = fold console_putchar bytes (screen k)" by (simp_all add: k2_def L(5))
  note C = window_close [OF w k2(1,2)]
  have "bytes = user_bytes d k c len"
    unfolding bytes_def user_bytes_def
  proof (rule map_cong [OF refl])
    fix i assume "i \<in> set [0..<unat len]"
    then have i: "(of_nat i :: u32) < len" using index_u32 by simp
    show "kmem k1 (p + of_nat i) = user_byte d k (c + of_nat i)"
      using L(1) [OF i] window_user_byte(1) [OF w window_byte(4) [OF i bnd] mapped [OF i]] by simp
  qed
  moreover have "sys_put c len k = Some (len, close_window p len k2)"
    by (simp add: sys_put_def ow put_loop bytes_def k2_def)
  moreover note putchars_term [OF inv, of bytes] window_unchanged [OF w k2(1-3)]
  ultimately show ?thesis using C(1,2,4,10,11) k2 L(4) by auto
qed

section \<open>Input reaches the process\<close>

text \<open>The keys that a sequence of scan codes gives to the callback.\<close>

definition keys_of :: "kbd_out list \<Rightarrow> u16 list" where
  "keys_of out = concat (map (\<lambda>x. case x of Callback f key \<Rightarrow> [key] | Console c \<Rightarrow> []) out)"

fun typed :: "(nat \<Rightarrow> u8) \<Rightarrow> u8 list \<Rightarrow> kbd_state \<Rightarrow> u16 list" where
  "typed after [] s = []"
| "typed after (c # codes) s = (case irq1_handler after c s of (out, t) \<Rightarrow> keys_of out @ typed after codes t)"

text \<open>The keyboard after a sequence of scan codes.\<close>

definition kbd_run :: "(nat \<Rightarrow> u8) \<Rightarrow> u8 list \<Rightarrow> kbd_state \<Rightarrow> kbd_state" where
  "kbd_run after codes s = fold (\<lambda>c s. snd (irq1_handler after c s)) codes s"

lemma kbd_run_append: "kbd_run after (xs @ ys) s = kbd_run after ys (kbd_run after xs s)"
  by (simp add: kbd_run_def)

lemma typed_append: "typed after (xs @ ys) s = typed after xs s @ typed after ys (kbd_run after xs s)"
  by (induction xs arbitrary: s) (simp_all add: kbd_run_def split: prod.splits)

text \<open>The scan codes of one group of interrupts.\<close>

definition typing :: "(nat \<Rightarrow> u8) \<Rightarrow> u8 list \<Rightarrow> kernel \<Rightarrow> kernel" where
  "typing after codes = fold (keyboard_interrupt after) codes"

text \<open>The keys that come while a request is open: those between the store of \<open>key_len\<close> and \<open>init_intr_lock\<close>, and
  those behind it.\<close>

definition early_keys :: "(nat \<Rightarrow> u8) \<Rightarrow> (nat \<Rightarrow> u8 list) \<Rightarrow> kbd_state \<Rightarrow> u16 list" where
  "early_keys after g s = typed after (g 3) (kbd_run after (g 0 @ g 1 @ g 2) s)"

definition late_keys :: "u32 \<Rightarrow> (nat \<Rightarrow> u8) \<Rightarrow> (nat \<Rightarrow> u8 list) \<Rightarrow> u8 list list \<Rightarrow> kbd_state \<Rightarrow> u16 list" where
  "late_keys fn after g groups s =
     (let s4 = kbd_run after (g 0 @ g 1 @ g 2 @ g 3) s;
          s5 = set_input_mode 2 (kbd_run after (g 4) s4);
          s6 = reg_key_callback fn (kbd_run after (g 5) s5)
      in typed after (g 4) s4 @ typed after (g 5) s5 @ typed after (g 6 @ g 7 @ concat groups) s6)"

text \<open>Since the lock of the request in \<open>k0\<close> for \<open>len\<close> keys at \<open>p\<close> was closed, the keys \<open>ks\<close> came; before that,
  but after the request, the keys \<open>es\<close>.  The lock opens with a key that comes when none is missing.\<close>

definition got :: "u32 \<Rightarrow> u32 \<Rightarrow> u32 \<Rightarrow> memory \<Rightarrow> u16 list \<Rightarrow> u16 list \<Rightarrow> kernel \<Rightarrow> kernel \<Rightarrow> bool" where
  "got l p len m es ks k0 k \<longleftrightarrow> (let n = min (length (es @ ks)) (unat len) in
     key_lock k = l \<and> key_len k = len - of_nat n \<and> key_c k = p + of_nat n \<and> ram k = ram k0 \<and>
     (\<forall>x. kmem k x = (if unat (x - p) < n then ucast ((es @ ks) ! unat (x - p)) else m x)) \<and>
     ksched k = (if n = unat len \<and> ks \<noteq> [] then upd_lock l 0 (ksched k0) else ksched k0))"

text \<open>Without an open request a key at most opens a lock.\<close>

definition idle :: "kernel \<Rightarrow> kernel \<Rightarrow> bool" where
  "idle k0 k \<longleftrightarrow> key_len k = 0 \<and> key_lock k = key_lock k0 \<and> key_c k = key_c k0 \<and> ram k = ram k0 \<and> kmem k = kmem k0 \<and>
     (ksched k = ksched k0 \<or> key_lock k0 \<noteq> NULL \<and> ksched k = upd_lock (key_lock k0) 0 (ksched k0))"

lemma kernel_key_update [simp]:
  "ksched (k\<lparr>key_c := a, key_len := b\<rparr>) = ksched k" "kmem (k\<lparr>key_c := a, key_len := b\<rparr>) = kmem k"
  "ksched (set_mem m k) = ksched k" "ksched (k\<lparr>keyboard := s\<rparr>) = ksched k"
  "ksched (k\<lparr>key_lock := a\<rparr>) = ksched k" "ksched (k\<lparr>key_c := a\<rparr>) = ksched k" "ksched (k\<lparr>key_len := a\<rparr>) = ksched k"
  by (simp_all add: ksched_def kmm_def kmem_def set_mem_def)

lemma key_fields [simp]:
  "key_len (set_mem m k) = key_len k" "key_c (set_mem m k) = key_c k" "key_lock (set_mem m k) = key_lock k"
  "key_len (set_sched t k) = key_len k" "key_c (set_sched t k) = key_c k" "key_lock (set_sched t k) = key_lock k"
  "key_len (set_mm u k) = key_len k" "key_c (set_mm u k) = key_c k" "key_lock (set_mm u k) = key_lock k"
  "keyboard (set_mem m k) = keyboard k" "keyboard (set_mm u k) = keyboard k"
  by (simp_all add: set_mem_def set_sched_def set_mm_def)

lemma upd_lock_twice [simp]: "upd_lock l v (upd_lock l v s) = upd_lock l v s"
  by (simp add: upd_lock_def)

lemma kernel_screen_update [simp]:
  "ksched (k\<lparr>screen := c\<rparr>) = ksched k" "kmem (k\<lparr>screen := c\<rparr>) = kmem k" "kmem (k\<lparr>keyboard := s\<rparr>) = kmem k"
  "kmem (k\<lparr>key_lock := a\<rparr>) = kmem k" "kmem (k\<lparr>key_c := a\<rparr>) = kmem k" "kmem (k\<lparr>key_len := a\<rparr>) = kmem k"
  "kmem (set_sched t k) = kmem k" "ram (set_sched t k) = ram k" "keyboard (set_sched t k) = keyboard k"
  by (simp_all add: ksched_def kmm_def kmem_def set_sched_def set_mm_def)

text \<open>A predicate on the keys so far and the kernel that a key, the screen and the keyboard's own state keep.\<close>

lemma keyboard_out:
  assumes "\<And>ks k c. P ks k \<Longrightarrow> P ks (k\<lparr>screen := c\<rparr>)" and "\<And>ks k key. P ks k \<Longrightarrow> P (ks @ [key]) (key_get key k)"
  shows "P ks k \<Longrightarrow> P (ks @ keys_of out) (fold put_out out k) \<and> keyboard (fold put_out out k) = keyboard k"
proof (induction out arbitrary: ks k)
  case Nil
  then show ?case by (simp add: keys_of_def)
next
  case (Cons x out)
  show ?case
  proof (cases x)
    case (Console c)
    from Cons.IH [OF assms(1) [OF Cons.prems]] show ?thesis by (simp add: Console keys_of_def)
  next
    case (Callback f key)
    have "keyboard (key_get key k) = keyboard k" by (simp add: key_get_def Let_def)
    with Cons.IH [OF assms(2) [OF Cons.prems, of key]] show ?thesis by (simp add: Callback keys_of_def)
  qed
qed

lemma typing_keys:
  assumes "\<And>ks k c. P ks k \<Longrightarrow> P ks (k\<lparr>screen := c\<rparr>)" and "\<And>ks k key. P ks k \<Longrightarrow> P (ks @ [key]) (key_get key k)"
    and "\<And>ks k s. P ks k \<Longrightarrow> P ks (k\<lparr>keyboard := s\<rparr>)"
  shows "P ks k \<Longrightarrow> P (ks @ typed after codes (keyboard k)) (typing after codes k) \<and>
    keyboard (typing after codes k) = kbd_run after codes (keyboard k)"
proof (induction codes arbitrary: ks k)
  case Nil
  then show ?case by (simp add: typing_def kbd_run_def)
next
  case (Cons c codes)
  obtain out t where irq: "irq1_handler after c (keyboard k) = (out, t)" by (cases "irq1_handler after c (keyboard k)")
  have step: "typing after (c # codes) k = typing after codes (fold put_out out (k\<lparr>keyboard := t\<rparr>))"
    by (simp add: typing_def keyboard_interrupt_def irq)
  have out: "P (ks @ keys_of out) (fold put_out out (k\<lparr>keyboard := t\<rparr>)) \<and>
      keyboard (fold put_out out (k\<lparr>keyboard := t\<rparr>)) = keyboard (k\<lparr>keyboard := t\<rparr>)"
    using keyboard_out [where P = P, OF assms(1,2) assms(3) [OF Cons.prems]] .
  from Cons.IH [OF conjunct1 [OF out]] out show ?case unfolding step
    by (simp add: irq kbd_run_def)
qed

lemma got_key:
  assumes g: "got l p len m es ks k0 k" and l: "l \<noteq> NULL" and p: "\<And>i. i < len \<Longrightarrow> p + i \<noteq> NULL"
  shows "got l p len m es (ks @ [key]) k0 (key_get key k)"
proof (cases "length (es @ ks) < unat len")
  case True
  let ?n = "length (es @ ks)"
  have G: "key_lock k = l" "key_len k = len - of_nat ?n" "key_c k = p + of_nat ?n" "ram k = ram k0" "ksched k = ksched k0"
    "\<And>x. kmem k x = (if unat (x - p) < ?n then ucast ((es @ ks) ! unat (x - p)) else m x)"
    using g True by (simp_all add: got_def Let_def)
  note n = index_u32 [OF True]
  have pos: "0 < key_len k" using n by (simp add: G word_less_nat_alt unat_sub order_less_imp_le)
  have c: "key_c k \<noteq> NULL" using p n by (simp add: G)
  define k1 where "k1 = (set_mem ((kmem k)(key_c k := ucast key)) k)\<lparr>key_c := key_c k + 1, key_len := key_len k - 1\<rparr>"
  have k1: "key_lock k1 = l" "key_len k1 = len - of_nat (Suc ?n)" "key_c k1 = p + of_nat (Suc ?n)" "ram k1 = ram k0"
    "ksched k1 = ksched k0"
    by (simp_all add: k1_def G)
  have eq: "x = p + of_nat ?n \<longleftrightarrow> unat (x - p) = ?n" for x
    using n by (metis add_diff_cancel_left' diff_add_cancel add.commute word_unat_eq_iff)
  have m: "kmem k1 x = (if unat (x - p) < Suc ?n then ucast ((es @ ks @ [key]) ! unat (x - p)) else m x)" for x
  proof -
    have "(es @ ks @ [key]) ! i = (if i < ?n then (es @ ks) ! i else key)" if "i < Suc ?n" for i
      using that nth_append [of "es @ ks" "[key]" i] by simp
    then show ?thesis using eq [of x] by (auto simp: k1_def G(3,6))
  qed
  have full: "key_len k1 = 0 \<longleftrightarrow> Suc ?n = unat len"
  proof -
    have "unat (of_nat (Suc ?n) :: u32) = Suc ?n" using True unat_u32_less [of len] by (intro unat_of_nat_u32) linarith
    then show ?thesis unfolding k1(2) by (metis eq_iff_diff_eq_0 word_unat_eq_iff)
  qed
  have kg: "key_get key k = (if key_len k1 = 0 then set_sched (intr_unlock l (ksched k1)) k1 else k1)"
    using pos c l unfolding key_get_def k1_def [symmetric] by (simp add: k1 Let_def)
  have "min (length (es @ ks @ [key])) (unat len) = Suc ?n" using True by simp
  then show ?thesis
    unfolding got_def kg Let_def using k1 m full by (simp add: intr_unlock_def)
next
  case False
  then have n: "min (length (es @ ks)) (unat len) = unat len" "min (length (es @ ks @ [key])) (unat len) = unat len" by simp_all
  have G: "key_len k = 0" "key_lock k = l" "upd_lock l 0 (ksched k) = upd_lock l 0 (ksched k0)"
    using g unfolding got_def n Let_def by (auto split: if_splits)
  have kg: "key_get key k = set_sched (intr_unlock l (ksched k)) k"
    using l by (simp add: key_get_def G Let_def)
  have "(es @ ks @ [key]) ! i = (es @ ks) ! i" if "i < unat len" for i
    using that False nth_append [of "es @ ks" "[key]" i] by simp
  with g show ?thesis unfolding got_def n kg Let_def by (simp add: G intr_unlock_def)
qed

lemma got_typing:
  assumes "l \<noteq> NULL" and "\<And>i. i < len \<Longrightarrow> p + i \<noteq> NULL" and "got l p len m es ks k0 k"
  shows "got l p len m es (ks @ typed after codes (keyboard k)) k0 (typing after codes k)"
    and "keyboard (typing after codes k) = kbd_run after codes (keyboard k)"
proof -
  have "got l p len m es ks k0 (k\<lparr>screen := c\<rparr>)" "got l p len m es ks k0 (k\<lparr>keyboard := s\<rparr>)"
    if "got l p len m es ks k0 k" for ks k c s
    using that by (simp_all add: got_def Let_def)
  from typing_keys [where P = "\<lambda>ks. got l p len m es ks k0", OF this(1) got_key this(2) assms(3)] assms(1,2)
  show "got l p len m es (ks @ typed after codes (keyboard k)) k0 (typing after codes k)"
    and "keyboard (typing after codes k) = kbd_run after codes (keyboard k)"
    by blast+
qed

lemma idle_typing:
  assumes "idle k0 k"
  shows "idle k0 (typing after codes k)"
    and "keyboard (typing after codes k) = kbd_run after codes (keyboard k)"
proof -
  have upd: "idle k0 (k\<lparr>screen := c\<rparr>)" "idle k0 (k\<lparr>keyboard := s\<rparr>)" if "idle k0 k" for k c s
    using that by (simp_all add: idle_def)
  have key: "idle k0 (key_get key k)" if "idle k0 k" for key k
    using that by (auto simp: idle_def key_get_def Let_def intr_unlock_def)
  from typing_keys [where P = "\<lambda>_. idle k0" and ks = "[]", OF upd(1) key upd(2) assms]
  show "idle k0 (typing after codes k)"
    and "keyboard (typing after codes k) = kbd_run after codes (keyboard k)"
    by blast+
qed

lemma idle_refl: "key_len k = 0 \<Longrightarrow> idle k k"
  by (simp add: idle_def)

text \<open>The process is alone in the ring.\<close>

definition alone :: "sched_state \<Rightarrow> bool" where
  "alone s \<longleftrightarrow> current_process s = NULL \<or> current_process s = next_proc (procs s (current_process s))"

lemma lock_wait_keys:
  assumes l: "l \<noteq> NULL" and p: "\<And>i. i < len \<Longrightarrow> p + i \<noteq> NULL" and al: "alone (ksched k0)" "lock_mem (ksched k0) l = 1"
  shows "got l p len m es ks k0 k \<Longrightarrow> all = ks @ typed after (concat groups) (keyboard k) \<Longrightarrow>
    (if all \<noteq> [] \<and> unat len \<le> length (es @ all)
     then \<exists>k' ks'. lock_wait l (map (typing after) groups) k = Some k' \<and> got l p len m es ks' k0 k' \<and>
       take (unat len) (es @ ks') = take (unat len) (es @ all) \<and> ks' \<noteq> [] \<and> unat len \<le> length (es @ ks')
     else lock_wait l (map (typing after) groups) k = None)"
proof (induction groups arbitrary: ks k)
  case Nil
  have s: "alone (ksched k)" "lock_mem (ksched k) l = (if ks \<noteq> [] \<and> unat len \<le> length (es @ ks) then 0 else 1)"
    using Nil al by (auto simp: got_def Let_def alone_def)
  have a: "all = ks" using Nil by simp
  show ?case
  proof (cases "ks \<noteq> [] \<and> unat len \<le> length (es @ ks)")
    case True
    then show ?thesis using s Nil by auto
  next
    case False
    then have "lock_wait l [] k = None" using s by (simp add: alone_def Let_def)
    then show ?thesis using False by (simp add: a)
  qed
next
  case (Cons codes groups)
  have s: "alone (ksched k)" "lock_mem (ksched k) l = (if ks \<noteq> [] \<and> unat len \<le> length (es @ ks) then 0 else 1)"
    using Cons.prems al by (auto simp: got_def Let_def alone_def)
  show ?case
  proof (cases "ks \<noteq> [] \<and> unat len \<le> length (es @ ks)")
    case True
    then have "lock_wait l (map (typing after) (codes # groups)) k = Some k" using s by simp
    moreover have "take (unat len) (es @ ks) = take (unat len) (es @ all)" "all \<noteq> []" "unat len \<le> length (es @ all)"
      using True by (simp_all add: Cons.prems(2))
    ultimately show ?thesis using True Cons.prems(1) by auto
  next
    case False
    have step: "lock_wait l (map (typing after) (codes # groups)) k = lock_wait l (map (typing after) groups) (typing after codes k)"
      using s False by (subst lock_wait.simps) (auto simp: alone_def Let_def simp del: lock_wait.simps)
    note g = got_typing [OF l p Cons.prems(1), of after codes]
    have "all = (ks @ typed after codes (keyboard k)) @ typed after (concat groups) (keyboard (typing after codes k))"
      by (simp add: Cons.prems(2) g(2) typed_append)
    from Cons.IH [OF g(1) this] show ?thesis unfolding step .
  qed
qed

lemma upd_proc_upd_lock [simp]: "upd_proc q f (upd_lock l v s) = upd_lock l v (upd_proc q f s)"
  by (simp add: upd_proc_def upd_lock_def)

lemma upd_lock_other [simp]: "upd_lock l v (upd_lock l w s) = upd_lock l v s"
  by (simp add: upd_lock_def)

text \<open>The lock is closed, and the process waits for it.\<close>

lemma got_begin:
  assumes "got l p len m [] es k3 k4"
  shows "got l p len m es [] (set_sched (init_intr_lock l (ksched k4)) k4) (set_sched (init_intr_lock l (ksched k4)) k4)"
    and "ksched (set_sched (init_intr_lock l (ksched k4)) k4) = upd_lock l 1 (ksched k3)"
  using assms by (auto simp: got_def Let_def init_intr_lock_def split: if_splits)

lemma got_proc:
  assumes "got l p len m es ks k0 k"
  shows "got l p len m es ks (set_sched (upd_proc (current_process (ksched k0)) f (ksched k0)) k0)
    (set_sched (upd_proc (current_process (ksched k)) f (ksched k)) k)"
  using assms by (auto simp: got_def Let_def)

lemma idle_lock_mem: "idle k0 k \<Longrightarrow> \<exists>f. ksched k = (ksched k0)\<lparr>lock_mem := f\<rparr>"
  unfolding idle_def upd_lock_def by (metis sched_state.surjective sched_state.update_convs(5))

text \<open>The statements that make the request: what came before it is forgotten, the early keys are there, and the lock
  is closed whatever they did to it.\<close>

lemma sys_get_begin_got:
  fixes g :: "nat \<Rightarrow> u8 list" and after :: "nat \<Rightarrow> u8" and fn :: u32
  assumes l: "l \<noteq> NULL" and len: "0 < len" and p: "\<And>i. i < len \<Longrightarrow> p + i \<noteq> NULL" and free: "key_len k = 0"
  defines "k' \<equiv> sys_get_begin (\<lambda>i. typing after (g i)) fn l p len k"
  shows "\<exists>k0 ks. got l p len (kmem k) (early_keys after g (keyboard k)) ks k0 k' \<and>
    late_keys fn after g groups (keyboard k) = ks @ typed after (g 7 @ concat groups) (keyboard k') \<and>
    ram k0 = ram k \<and> lock_mem (ksched k0) l = 1 \<and> (\<exists>f. ksched k0 = (ksched k)\<lparr>lock_mem := f\<rparr>)"
proof -
  let ?r = "kbd_run after" and ?s = "keyboard k" and ?T = "\<lambda>i. typing after (g i)"
  define a0 where "a0 = ?T 0 k"
  define a1 where "a1 = ?T 1 (a0\<lparr>key_lock := l\<rparr>)"
  define a2 where "a2 = ?T 2 (a1\<lparr>key_c := p\<rparr>)"
  define b where "b = a2\<lparr>key_len := len\<rparr>"
  define a3 where "a3 = ?T 3 b"
  define k0 where "k0 = set_sched (init_intr_lock l (ksched a3)) a3"
  define a4 where "a4 = ?T 4 k0"
  define a5 where "a5 = ?T 5 (a4\<lparr>keyboard := set_input_mode 2 (keyboard a4)\<rparr>)"
  have k': "k' = ?T 6 (a5\<lparr>keyboard := reg_key_callback fn (keyboard a5)\<rparr>)"
    by (simp add: k'_def sys_get_begin_def Let_def a0_def a1_def a2_def b_def a3_def k0_def a4_def a5_def
        del: One_nat_def)
  note i0 = idle_typing [OF idle_refl [OF free], of after "g 0", folded a0_def]
  have "idle (a0\<lparr>key_lock := l\<rparr>) (a0\<lparr>key_lock := l\<rparr>)" using i0(1) by (simp add: idle_def)
  note i1 = idle_typing [OF this, of after "g 1", folded a1_def]
  have "idle (a1\<lparr>key_c := p\<rparr>) (a1\<lparr>key_c := p\<rparr>)" using i1(1) by (simp add: idle_def)
  note i2 = idle_typing [OF this, of after "g 2", folded a2_def]
  have kb: "keyboard b = ?r (g 0 @ g 1 @ g 2) ?s"
    using i0(2) i1(2) i2(2) by (simp add: b_def kbd_run_append)
  have mem: "kmem b = kmem k" "ram b = ram k" using i0(1) i1(1) i2(1) by (simp_all add: idle_def b_def)
  obtain f where f: "ksched b = (ksched k)\<lparr>lock_mem := f\<rparr>"
    using idle_lock_mem [OF i0(1)] idle_lock_mem [OF i1(1)] idle_lock_mem [OF i2(1)] by (auto simp: b_def)
  have "got l p len (kmem k) [] [] b b"
    using i1(1) i2(1) len mem by (simp add: got_def b_def idle_def word_less_nat_alt)
  note g3 = got_typing [OF l p this, of after "g 3", folded a3_def]
  have early: "early_keys after g ?s = typed after (g 3) (keyboard b)" by (simp add: early_keys_def kb)
  have "got l p len (kmem k) [] (early_keys after g ?s) b a3" using g3(1) by (simp add: early)
  note g = got_begin [OF this, folded k0_def]
  have kk: "keyboard k0 = ?r (g 0 @ g 1 @ g 2 @ g 3) ?s" using g3(2) by (simp add: k0_def kb kbd_run_append)
  note g4 = got_typing [OF l p g(1), of after "g 4", folded a4_def]
  have "got l p len (kmem k) (early_keys after g ?s) (typed after (g 4) (keyboard k0)) k0
      (a4\<lparr>keyboard := set_input_mode 2 (keyboard a4)\<rparr>)"
    using g4(1) by (simp add: got_def)
  note g5 = got_typing [OF l p this, of after "g 5", folded a5_def]
  define ks where "ks = typed after (g 4) (keyboard k0) @ typed after (g 5) (set_input_mode 2 (keyboard a4))"
  have "got l p len (kmem k) (early_keys after g ?s) ks k0 (a5\<lparr>keyboard := reg_key_callback fn (keyboard a5)\<rparr>)"
    using g5(1) by (simp add: got_def ks_def)
  note g6 = got_typing [OF l p this, of after "g 6", folded k']
  have "late_keys fn after g groups ?s =
      (ks @ typed after (g 6) (reg_key_callback fn (keyboard a5))) @ typed after (g 7 @ concat groups) (keyboard k')"
    using g4(2) g5(2) g6(2) by (simp add: late_keys_def ks_def Let_def kk typed_append)
  moreover have "ram k0 = ram k" using g3(1) mem by (simp add: k0_def got_def Let_def)
  moreover have "lock_mem (ksched k0) l = 1" by (simp add: g(2))
  moreover have "\<exists>f. ksched k0 = (ksched k)\<lparr>lock_mem := f\<rparr>" by (simp add: g(2) f upd_lock_def) blast
  ultimately show ?thesis using g6(1) by auto
qed

lemma sys_get_correct:
  fixes before :: "(kernel \<Rightarrow> kernel) list" and groups :: "u8 list list" and g :: "nat \<Rightarrow> u8 list"
    and after :: "nat \<Rightarrow> u8" and fn :: u32
  assumes op: "can_open c len d (kmm k)" "cur_pde k = page d" and l: "l \<noteq> NULL" and free: "key_len k = 0"
    and al: "alone (ksched k)"
    and early: "early = early_keys after g (keyboard k)" and late: "late = late_keys fn after g groups (keyboard k)"
  defines "run \<equiv> sys_get fn l (\<lambda>i. typing after (g i)) before (map (typing after) groups) c len k"
  shows "if late \<noteq> [] \<and> unat len \<le> length (early @ late)
    then \<exists>k'. run = Some (Some len, k') \<and>
      (\<forall>i<len. user_byte d k' (c + i) = ucast ((early @ late) ! unat i)) \<and>
      (\<forall>b<PAGE_OFFSET. user_frame (kmm k) d b \<noteq> 0 \<and> \<not> b - c < len \<longrightarrow> user_byte d k' b = user_byte d k b) \<and>
      key_len k' = 0 \<and> key_lock k' = NULL \<and> lock_mem (ksched k') l = 0 \<and>
      mm_inv (kmm k') \<and> umm_wf d (kmm k') \<and> vmm_map (kmm k') = vmm_map (kmm k)
    else run = None"
proof -
  let ?T = "\<lambda>i. typing after (g i)" and ?n = "unat len"
  from open_window_correct [OF op] obtain p k1 where
    ow: "open_window c len k = Some (p, k1)" "p \<noteq> NULL" and w: "window c len d p k k1" by blast
  note L = window_load [OF w]
  have k1: "k1 = set_mem (load_window p len (kmm k1) (ram k) (kmem k)) (set_mm (kmm k1) k)"
    using w unfolding window_def by blast
  have kb: "keyboard k1 = keyboard k" "key_len k1 = 0" by (subst k1, simp add: free)+
  have len: "0 < len" using w by (simp add: window_def)
  have p: "p + i \<noteq> NULL" if "i < len" for i
    using window_address(1) [OF w that] ow(2) by (metis add_is_0 word_unat_eq_iff unat_0)
  define k2 where "k2 = sys_get_begin ?T fn l p len k1"
  from sys_get_begin_got [OF l len p kb(2), where g = g and after = after and fn = fn and groups = groups,
      unfolded kb(1) early [symmetric] late [symmetric], folded k2_def]
  obtain k0 ks f where g2: "got l p len (kmem k1) early ks k0 k2" and
    lt: "late = ks @ typed after (g 7 @ concat groups) (keyboard k2)" and
    k0: "ram k0 = ram k1" "lock_mem (ksched k0) l = 1" "ksched k0 = (ksched k1)\<lparr>lock_mem := f\<rparr>" by blast
  define K where "K = set_sched (upd_proc (current_process (ksched k0)) (\<lambda>p. p\<lparr>lock := l\<rparr>) (ksched k0)) k0"
  define k4 where "k4 = set_sched (upd_proc (current_process (ksched k2)) (\<lambda>p. p\<lparr>lock := l\<rparr>) (ksched k2)) k2"
  have g4: "got l p len (kmem k1) early ks K k4" unfolding K_def k4_def by (rule got_proc [OF g2])
  note g5 = got_typing [OF l p g4, of after "g 7"]
  have all: "late = (ks @ typed after (g 7) (keyboard k4)) @ typed after (concat groups) (keyboard (?T 7 k4))"
    using lt g5(2) by (simp add: k4_def typed_append)
  have sched: "current_process (ksched k1) = current_process (ksched k)" "procs (ksched k1) = procs (ksched k)"
    using sched_more_cong [of "ksched k1" "ksched k"] L(4) by simp_all
  have z: "alone (ksched K)" "lock_mem (ksched K) l = 1"
    using al k0(2) by (simp_all add: K_def k0(1,3) alone_def sched upd_proc_def)
  have tr: "mm_state.truncate (ksched K) = kmm k1"
    by (simp add: K_def k0 upd_proc_def) (simp add: ksched_def mm_state.defs)
  note W = lock_wait_keys [OF l p z g5(1) all]
  have run: "run = do { (go, k3) \<leftarrow> wait_lock l ?T (map (typing after) groups) k2;
           Some (if go then (case sys_get_end ?T l p len k3 of (r, k4) \<Rightarrow> (Some r, k4)) else (None, k3)) }"
    by (simp add: run_def sys_get_def ow k2_def kb key_wait.simps [of before])
  show ?thesis
  proof (cases "late \<noteq> [] \<and> ?n \<le> length (early @ late)")
    case False
    then have "lock_wait l (map (typing after) groups) (?T 7 k4) = None" using W by (simp only: if_False)
    then have "wait_lock l ?T (map (typing after) groups) k2 = None"
      by (simp add: wait_lock_def k4_def [symmetric] del: lock_wait.simps)
    with run False show ?thesis by simp
  next
    case True
    with W obtain k3 ks3 where k3: "lock_wait l (map (typing after) groups) (?T 7 k4) = Some k3"
      "got l p len (kmem k1) early ks3 K k3"
      and ks3: "take ?n (early @ ks3) = take ?n (early @ late)" "ks3 \<noteq> []" "?n \<le> length (early @ ks3)" by auto
    define a where "a = ?T 8 k3"
    define b where "b = ?T 9 a"
    note h8 = got_typing [OF l p k3(2), of after "g 8", folded a_def]
    note h9 = got_typing [OF l p h8(1), of after "g 9", folded b_def]
    define ks' where "ks' = early @ (ks3 @ typed after (g 8) (keyboard k3)) @ typed after (g 9) (keyboard a)"
    have ks': "take ?n ks' = take ?n (early @ late)" "?n \<le> length ks'"
      using ks3 by (simp_all add: ks'_def)
    have ma: "min (length (early @ ks3 @ typed after (g 8) (keyboard k3))) ?n = ?n" "min (length ks') ?n = ?n"
      using ks3 ks' by simp_all
    have A: "lock_mem (ksched a) l = 0" using h8(1) ma ks3 by (simp add: got_def Let_def)
    have B: "key_lock b = l" "key_len b = 0" "ram b = ram k1" "ksched b = upd_lock l 0 (ksched K)"
      "\<And>x. kmem b x = (if unat (x - p) < ?n then ucast (ks' ! unat (x - p)) else kmem k1 x)"
      using h9(1) ma ks3 by (simp_all add: got_def Let_def ks'_def K_def k0)
    have "idle (b\<lparr>key_lock := NULL\<rparr>) (b\<lparr>key_lock := NULL\<rparr>)" by (rule idle_refl) (simp add: B)
    define u where "u = ?T 10 (b\<lparr>key_lock := NULL\<rparr>)"
    have U: "key_lock u = NULL" "key_len u = 0" "ram u = ram k1" "ksched u = upd_lock l 0 (ksched K)" "kmem u = kmem b"
      using idle_typing(1) [OF idle_refl, of "b\<lparr>key_lock := NULL\<rparr>" after "g 10"] B by (simp_all add: idle_def u_def)
    define k' where "k' = close_window p len u"
    have "wait_lock l ?T (map (typing after) groups) k2 = Some (True, a)"
      using k3(1) A by (simp add: wait_lock_def k4_def [symmetric] a_def [symmetric] Let_def del: lock_wait.simps)
    then have get: "run = Some (Some len, k')"
      by (simp add: run sys_get_end_def Let_def b_def [symmetric] B(1) u_def k'_def)
    have "kmm u = mm_state.truncate (ksched u)" by simp
    also have "\<dots> = mm_state.truncate (ksched K)" by (simp add: U(4) upd_lock_def mm_state.truncate_def)
    finally have mm: "kmm u = kmm k1" using tr by simp
    note C = window_close [OF w mm U(3), folded k'_def]
    have "user_byte d k' (c + i) = ucast ((early @ late) ! unat i)" if i: "i < len" for i
    proof -
      have n: "unat i < ?n" using i by (simp add: word_less_nat_alt)
      have "ks' ! unat i = (early @ late) ! unat i" by (metis ks'(1) n nth_take)
      with C(7) [OF i] n show ?thesis by (simp add: U(5) B(5))
    qed
    moreover have "user_byte d k' b = user_byte d k b"
      if b: "b < PAGE_OFFSET" "user_frame (kmm k) d b \<noteq> 0" "\<not> b - c < len" for b
      using C(8) [OF b(1) _ b(3)] window_user_byte [OF w b(1,2)] b(2) by simp
    moreover have "key_len k' = 0" "key_lock k' = NULL" by (simp_all add: k'_def close_window_def U)
    moreover have "lock_mem (ksched k') l = 0"
    proof -
      have "mm_state.more (ksched k') = mm_state.more (ksched u)" using C(10) by simp
      from sched_more_cong(5) [OF this] show ?thesis by (simp add: U(4))
    qed
    ultimately show ?thesis using C(1,2,4) True get by auto
  qed
qed

section \<open>Properties\<close>

text \<open>C11. What a process writes with \<open>sys_put\<close> is what the terminal gets: exactly the bytes at the given addresses of
  its own address space, in order, over the frames that lie behind them.  The process's memory, the kernel's
  dynamic pages and the processes are as before.\<close>

theorem sys_put_shows:
  assumes "can_open c len d (kmm k)" and "cur_pde k = page d" and "console_inv (screen k)"
    and "\<And>i. i < len \<Longrightarrow> user_frame (kmm k) d (c + i) \<noteq> 0"
  shows "\<exists>k'. sys_put c len k = Some (len, k') \<and>
    term_of (screen k') = fold term_putchar (user_bytes d k c len) (term_of (screen k)) \<and> console_inv (screen k') \<and>
    (\<forall>b<PAGE_OFFSET. user_frame (kmm k) d b \<noteq> 0 \<longrightarrow> user_byte d k' b = user_byte d k b) \<and>
    mm_inv (kmm k') \<and> umm_wf d (kmm k') \<and> vmm_map (kmm k') = vmm_map (kmm k) \<and> tasks k' = tasks k"
  using assms by (rule sys_put_correct)

theorem sys_put_shows_witness:
  "\<exists>k'. sys_put 0x1ffc 8 sample_kernel = Some (8, k') \<and>
     term_of (screen k') = fold term_putchar [0xfc, 0xfd, 0xfe, 0xff, 0, 1, 2, 3] blank_terminal"
proof -
  have fr: "user_frame (kmm sample_kernel) 1 (0x1ffc + i) = (if i < 4 then 5 else 4)" if "i < 8" for i
  proof -
    have "unat (0x1ffc + i) = 0x1ffc + unat i" using that by (simp add: unat_add32 word_less_nat_alt)
    moreover have n: "unat i < 8" "i < 4 \<longleftrightarrow> unat i < 4" using that by (simp_all add: word_less_nat_alt)
    ultimately have "unat (0x1ffc + i) div 4096 = (if i < 4 then 1 else 2)" "0x1ffc + i < PAGE_OFFSET"
      by (auto simp: word_less_nat_alt intro!: div_nat_eqI)
    then show ?thesis using umm_sample_frames [of "0x1ffc + i"] by simp
  qed
  have U: "user_byte 1 sample_kernel (0x1ffc + i) = ucast (page (if i < 4 then 5 else 4) + (0x1ffc + i) mod PAGE_SIZE :: u32)"
    if "i < 8" for i using fr [OF that] by (simp add: user_byte_def user_phy_attr_page)
  have b: "user_bytes 1 sample_kernel 0x1ffc 8 = [0xfc, 0xfd, 0xfe, 0xff, 0, 1, 2, 3]"
    using U [of 0] U [of 1] U [of 2] U [of 3] U [of 4] U [of 5] U [of 6] U [of 7]
    by (simp add: user_bytes_def upt_rec)
  have nz: "user_frame (kmm sample_kernel) 1 (0x1ffc + i) \<noteq> 0" if "i < 8" for i unfolding fr [OF that] by simp
  have c: "can_open 0x1ffc 8 1 (kmm sample_kernel)" "cur_pde sample_kernel = page 1" "console_inv (screen sample_kernel)"
    "term_of (screen sample_kernel) = blank_terminal"
    using console_init_correct [of console_sample] sample_can_open by simp_all
  from sys_put_shows [OF c(1-3) nz] show ?thesis unfolding b c(4) by blast
qed

text \<open>C6. \<open>sys_get\<close> of a process alone, with any scan codes arriving between any two of its statements and while it
  waits.  Keys that come before \<open>key_len\<close> is stored are not part of the request; the \<open>early\<close> ones come before
  \<open>init_intr_lock\<close> closes the lock, the \<open>late\<close> ones after that.  The call comes back exactly when early and late keys
  together are as many as were asked for and at least one of them is late: when all of them are early the lock is opened
  first and closed after, and the call waits for one key more.  It comes back with the first keys, early and late, in the
  process's memory at the addresses that it gave, in the order typed.  Afterwards nothing refers to the request, and
  the rest of the process's memory and the kernel's dynamic pages are as before.\<close>

theorem sys_get_reads:
  assumes "can_open c len d (kmm k)" and "cur_pde k = page d" and "l \<noteq> NULL" and "key_len k = 0" and "alone (ksched k)"
    and "early = early_keys after g (keyboard k)" and "late = late_keys fn after g groups (keyboard k)"
  shows "if late \<noteq> [] \<and> unat len \<le> length (early @ late)
    then \<exists>k'. sys_get fn l (\<lambda>i. typing after (g i)) before (map (typing after) groups) c len k = Some (Some len, k') \<and>
      (\<forall>i<len. user_byte d k' (c + i) = ucast ((early @ late) ! unat i)) \<and>
      (\<forall>b<PAGE_OFFSET. user_frame (kmm k) d b \<noteq> 0 \<and> \<not> b - c < len \<longrightarrow> user_byte d k' b = user_byte d k b) \<and>
      key_len k' = 0 \<and> key_lock k' = NULL \<and> lock_mem (ksched k') l = 0 \<and>
      mm_inv (kmm k') \<and> umm_wf d (kmm k') \<and> vmm_map (kmm k') = vmm_map (kmm k)
    else sys_get fn l (\<lambda>i. typing after (g i)) before (map (typing after) groups) c len k = None"
  using assms by (rule sys_get_correct)

lemma sample_typed:
  "typed (\<lambda>_. 0) (replicate n 0x10) kbd_sample = replicate n 0x71"
  "kbd_run (\<lambda>_. 0) (replicate n 0x10) kbd_sample = kbd_sample"
proof -
  have k: "irq1_handler (\<lambda>_. 0) 0x10 kbd_sample = ([Console 0x71, Callback 0x5000 0x71], kbd_sample)" by code_simp
  show "typed (\<lambda>_. 0) (replicate n 0x10) kbd_sample = replicate n 0x71"
    by (induction n) (simp_all add: k keys_of_def)
  show "kbd_run (\<lambda>_. 0) (replicate n 0x10) kbd_sample = kbd_sample"
    by (induction n) (simp_all add: k kbd_run_def)
qed

text \<open>Eight keys that come one by one while the process waits; eight that come before the lock is closed; and those
  with one more behind them.\<close>

theorem sys_get_reads_witness:
  "(\<exists>k'. sys_get 0x5000 0x7000 (\<lambda>_. typing (\<lambda>_. 0) []) [] (map (typing (\<lambda>_. 0)) (replicate 8 [0x10])) 0x1ffc 8 sample_kernel
        = Some (Some 8, k') \<and> user_byte 1 k' 0x2001 = 0x71) \<and>
   sys_get 0x5000 0x7000 (\<lambda>i. typing (\<lambda>_. 0) (if i = 3 then replicate 8 0x10 else [])) [] (map (typing (\<lambda>_. 0)) [[], []])
     0x1ffc 8 sample_kernel = None \<and>
   (\<exists>k'. sys_get 0x5000 0x7000 (\<lambda>i. typing (\<lambda>_. 0) (if i = 3 then replicate 8 0x10 else [])) []
        (map (typing (\<lambda>_. 0)) [[], [0x10]]) 0x1ffc 8 sample_kernel = Some (Some 8, k') \<and> user_byte 1 k' 0x2001 = 0x71)"
proof -
  have kb: "keyboard sample_kernel = kbd_sample"
    "set_input_mode 2 kbd_sample = kbd_sample" "reg_key_callback 0x5000 kbd_sample = kbd_sample"
    by (simp_all add: reg_key_callback_def set_input_mode_def kbd_sample_def)
  have c: "can_open 0x1ffc 8 1 (kmm sample_kernel)" "cur_pde sample_kernel = page 1" "(0x7000 :: u32) \<noteq> NULL"
    "key_len sample_kernel = 0" "alone (ksched sample_kernel)"
    using sample_can_open by (simp_all add: alone_def)
  have r: "kbd_run after [] s = s" for after s by (simp add: kbd_run_def)
  have one: "concat (replicate 8 [x]) = replicate 8 x" for x :: u8 by (simp add: numeral_eq_Suc)
  let ?g = "\<lambda>i :: nat. if i = 3 then replicate 8 (0x10 :: u8) else []"
  have e: "early_keys (\<lambda>_. 0) (\<lambda>_. []) kbd_sample = []" "early_keys (\<lambda>_. 0) ?g kbd_sample = replicate 8 0x71"
    by (simp_all add: early_keys_def r sample_typed)
  have lt: "late_keys 0x5000 (\<lambda>_. 0) (\<lambda>_. []) (replicate 8 [0x10]) kbd_sample = replicate 8 0x71"
    "late_keys 0x5000 (\<lambda>_. 0) ?g [[], []] kbd_sample = []"
    "late_keys 0x5000 (\<lambda>_. 0) ?g [[], [0x10]] kbd_sample = [0x71]"
    using sample_typed(1) [of 1] by (simp_all add: late_keys_def r kb Let_def one sample_typed)
  note S = sys_get_reads [OF c refl refl, where fn = "0x5000" and after = "\<lambda>_. 0" and before = "[]", unfolded kb(1)]
  from S [where g = "\<lambda>_. []" and groups = "replicate 8 [0x10]"] obtain k' where
    "sys_get 0x5000 0x7000 (\<lambda>_. typing (\<lambda>_. 0) []) [] (map (typing (\<lambda>_. 0)) (replicate 8 [0x10])) 0x1ffc 8 sample_kernel
       = Some (Some 8, k')" and
    m: "\<forall>i<8. user_byte 1 k' (0x1ffc + i) = ucast (([] @ replicate 8 (0x71 :: u16)) ! unat i)"
    unfolding e lt by auto
  moreover have "user_byte 1 k' 0x2001 = 0x71" using m [rule_format, of 5] by simp
  moreover have "sys_get 0x5000 0x7000 (\<lambda>i. typing (\<lambda>_. 0) (?g i)) [] (map (typing (\<lambda>_. 0)) [[], []]) 0x1ffc 8 sample_kernel = None"
    using S [where g = ?g and groups = "[[], []]"] unfolding e lt by (simp only: simp_thms if_False)
  moreover from S [where g = ?g and groups = "[[], [0x10]]"] obtain k'' where
    "sys_get 0x5000 0x7000 (\<lambda>i. typing (\<lambda>_. 0) (?g i)) [] (map (typing (\<lambda>_. 0)) [[], [0x10]]) 0x1ffc 8 sample_kernel
       = Some (Some 8, k'')" and
    m2: "\<forall>i<8. user_byte 1 k'' (0x1ffc + i) = ucast ((replicate 8 (0x71 :: u16) @ [0x71]) ! unat i)"
    unfolding e lt by auto
  moreover have "user_byte 1 k'' 0x2001 = 0x71" using m2 [rule_format, of 5] by (simp add: nth_append)
  ultimately show ?thesis by blast
qed

end
