(* ===== verification/Boot.thy ===== *)
theory Boot
  imports Syscall Partition Printk
begin

text \<open>
  The start of the kernel: \<open>src/boot/multiboot/init.c\<close>, \<open>src/kernel/kernel.c\<close>, \<open>mm/init.c\<close>, \<open>dev/init.c\<close>, \<open>init_tss\<close> and
  \<open>process_init\<close> of \<open>process/process.c\<close>, and \<open>intr/panic.c\<close>.  The state is the whole machine.  What the loader, the
  linker and the devices give is a parameter; \<open>None\<close> is a walk or a wait that never ends.
\<close>

section \<open>The task state segment\<close>

text \<open>Its field \<open>esp0\<close> is the one of \<open>sched_state\<close>.\<close>

record task_state_segment =
  tss_link :: u16
  tss_ss0 :: u16
  tss_esp1 :: u32
  tss_ss1 :: u16
  tss_esp2 :: u32
  tss_ss2 :: u16
  tss_cr3 :: u32
  tss_eip :: u32
  tss_eflags :: u32
  tss_eax :: u32
  tss_ecx :: u32
  tss_edx :: u32
  tss_ebx :: u32
  tss_esp :: u32
  tss_ebp :: u32
  tss_esi :: u32
  tss_edi :: u32
  tss_es :: u16
  tss_cs :: u16
  tss_ss :: u16
  tss_ds :: u16
  tss_fs :: u16
  tss_gs :: u16
  tss_ldtr :: u16
  tss_t :: u16
  tss_iopb_offset :: u16


section \<open>The machine\<close>

record machine =
  krn :: kernel
  intr :: intr_state
  tss :: task_state_segment
  task_register :: u16
  gdt :: "segment_descriptor list"
  gdtr :: table_ptr

definition on_sched :: "(sched_state \<Rightarrow> sched_state) \<Rightarrow> machine \<Rightarrow> machine" where
  "on_sched f m = m\<lparr>krn := set_sched (f (ksched (krn m))) (krn m)\<rparr>"

definition on_intr :: "(intr_state \<Rightarrow> intr_state) \<Rightarrow> machine \<Rightarrow> machine" where
  "on_intr f m = m\<lparr>intr := f (intr m)\<rparr>"


section \<open>Steps\<close>

definition multiboot_init :: "u32 \<Rightarrow> u32 \<Rightarrow> u32 \<Rightarrow> 'a pmm_state_scheme \<Rightarrow> 'a pmm_state_scheme" where
  "multiboot_init kstart kend mem_upper s =
     s\<lparr>mem_base_addr := 0x100000 + kend - kstart, mem_length := mem_upper * 1024 + 0x100000\<rparr>"






section \<open>Panic\<close>

definition char_bytes :: "string \<Rightarrow> u8 list" where
  "char_bytes xs = map of_char xs"

definition print_text :: "string \<Rightarrow> va_list \<Rightarrow> kernel \<Rightarrow> kernel option" where
  "print_text fmt args k =
     do { (_, out) \<leftarrow> printk (kmem k) fmt args; Some (k\<lparr>screen := console_write (char_bytes out) (screen k)\<rparr>) }"

definition panic_text :: string where
  "panic_text = CHR 0x0a # ''Panic: 0x%08X'' @ CHR 0x0a # ''Error Code: 0x%08X'' @ [CHR 0x0a]"

definition fault_text :: string where
  "fault_text = ''Fault Address: 0x%08X'' @ [CHR 0x0a]"

definition panic :: "intr_regs \<Rightarrow> u32 \<Rightarrow> kernel \<Rightarrow> kernel option" where
  "panic regs cr2 k =
     do { k1 \<leftarrow> print_text panic_text (\<lambda>i. if i = 0 then int_code regs else err_code regs) k;
          k2 \<leftarrow> (if int_code regs = 0xe then print_text fault_text (\<lambda>_. cr2) k1 else Some k1);
          Some (set_sched (disable_intr (ksched k2)) k2) }"

section \<open>Where interrupts go after the start\<close>

lemma on_simps [simp]:
  "intr (on_sched f m) = intr m" "tss (on_sched f m) = tss m" "task_register (on_sched f m) = task_register m"
  "gdt (on_sched f m) = gdt m" "intr (on_intr g m) = g (intr m)" "tss (on_intr g m) = tss m"
  "task_register (on_intr g m) = task_register m" "gdt (on_intr g m) = gdt m"
  by (simp_all add: on_sched_def on_intr_def)







section \<open>Properties\<close>








end
