(* ===== verification/Spec2Isabelle.thy ===== *)
theory Spec2Isabelle
  imports Pmm Umm Share StringLib Printk Sched Keyboard Console Interrupts Stub Ata Heap Partition Kernel Create Loader Syscall Boot
begin

text \<open>
  A verification of the kernel \<open>bitch\<close>: a small 32-bit x86 kernel with virtual memory, preemptive
  processes, ATA disks with partitions and FAT file systems, an ELF loader, four system calls and a
  text console.  This theory gathers the development and describes it.

  \<^bold>\<open>The parts of the program and how they interact.\<close>
  Physical frames are handed out by \<open>pmm.c\<close>; \<open>vmm.c\<close> maps them at kernel addresses, \<open>umm.c\<close> in the page
  tables of processes, and \<open>umm_mmap_kmm\<close> opens a window of kernel pages on user memory.  The heap
  \<open>alloc.c\<close> takes pages from \<open>vmm.c\<close>; disks (\<open>disk.c\<close>), mounted file systems (\<open>fat.c\<close>) and paths are
  objects of the heap.  \<open>file.c\<close> reads from the current disk through \<open>fs.c\<close>, \<open>fat.c\<close>, \<open>disk.c\<close> and
  \<open>ata.c\<close>.  Processes are a ring that the timer interrupt turns (\<open>process.c\<close>); locks that interrupts
  or processes open decide who can run (\<open>lock.c\<close>).  \<open>exec.c\<close> creates a process that runs \<open>binfmt_exec\<close>:
  it loads an ELF file through windows into the process and jumps to user mode.  From there the
  kernel is entered by system calls (\<open>syscall.c\<close>), faults (\<open>user_isr_handler\<close>) and device interrupts,
  which \<open>stub.c\<close>, \<open>isr.c\<close> and \<open>i8259.c\<close> dispatch.  \<open>kernel_init\<close> sets all of this up.

  \<^bold>\<open>Theories and sources\<close> (paths under \<open>src/\<close>).
  \<^item> \<open>Prelude\<close>: the machine types (\<open>u8\<close> to \<open>u64\<close>), the constants of \<open>include/kernel/def.h\<close>, counted
    loops (\<open>for_loop\<close>) and the lemmas on words and bits that all components use.
  \<^item> \<open>Pmm\<close>: \<open>kernel/mm/pmm.c\<close>.  The bitmap is a list of bytes, the static variables are \<open>pmm_state\<close>.
    The abstract view is the set \<open>pmm_free\<close> of free frames; the locales \<open>frame_source\<close> and
    \<open>frame_supply\<close> state what clients may rely on, \<open>pmm\<close> interprets both on the code's operations, and a
    client that allocates and frees in any order (\<open>pmm_trace_conserves\<close>) is proved in the second.
  \<^item> \<open>Vmm\<close>: \<open>kernel/mm/kmm.c\<close>, \<open>vmm.c\<close>, \<open>mmap.c\<close> and the macros of \<open>include/arch/x86/page.h\<close>, over
    \<open>mm_state\<close>, which extends \<open>pmm_state\<close>.  The abstract view is the map \<open>vmm_map\<close> from kernel pages to frames.
  \<^item> \<open>Umm\<close>: \<open>kernel/mm/umm.c\<close> and \<open>vmm_mmap_pde_page\<close> of \<open>vmm.c\<close>.  Page tables are 32-bit cells
    (\<open>page_mem\<close>); \<open>umm_wf\<close> and \<open>umm_owned\<close> say that an address space is a tree of frames of its own.
  \<^item> \<open>Share\<close>: what a window of \<open>umm_mmap_kmm\<close> is, on every path of its loop.
  \<^item> \<open>StringLib\<close>, \<open>Printk\<close>: \<open>include/lib/string.h\<close>, \<open>lib/printk.c\<close>, over a byte memory and an
    argument list.
  \<^item> \<open>Blocks\<close>, \<open>Links\<close>, \<open>Heap\<close>: \<open>kernel/mm/alloc.c\<close>; the blocks and their pages over numbers (with the
    locale \<open>page_provider\<close>, interpreted as \<open>vmm\<close> on \<open>vmm_alloc_page\<close> and \<open>vmm_free_page\<close>), doubly linked
    lists, and the code.
  \<^item> \<open>Sched\<close>: \<open>kernel/process/process.c\<close>, \<open>lock.c\<close>, \<open>wait.c\<close>, \<open>switch_context\<close> of \<open>switch.S\<close>.  A process is a
    record at its address, \<open>sched_state\<close> extends \<open>mm_state\<close>; the abstract view is the list of the ring.
  \<^item> \<open>Keyboard\<close>: \<open>kernel/dev/keyboard.c\<close>, \<open>driver/atkbd.c\<close>.  \<open>Console\<close>: \<open>kernel/dev/console.c\<close>,
    \<open>driver/cga.c\<close>, refining an abstract terminal.
  \<^item> \<open>Interrupts\<close>: \<open>arch/x86/descriptor.c\<close>, \<open>kernel/mm/gdt.c\<close>, \<open>kernel/intr/\<close> without \<open>panic.c\<close>,
    \<open>driver/i8259.c\<close>, \<open>driver/timer.c\<close>.  Registered functions are constructors of data types.
  \<^item> \<open>Stub\<close>: \<open>kernel/intr/intstub.S\<close>, \<open>kernel/mm/flush.S\<close>, \<open>kernel/init.S\<close>, \<open>boot/multiboot/head.S\<close>, on the
    registers of the processor and the words of the stack.
  \<^item> \<open>Ata\<close>: \<open>driver/ata.c\<close>; the drive is a function from the commands to its answers.
  \<^item> \<open>Disk\<close>, \<open>Fat\<close>, \<open>FatDir\<close>, \<open>Fs\<close>, \<open>Partition\<close>: \<open>kernel/dev/disk.c\<close>, \<open>kernel/fs/fat.c\<close>, \<open>kernel/fs/fs.c\<close>,
    \<open>kernel/dev/file.c\<close>, \<open>kernel/dev/part.c\<close> and \<open>part/\<close>.  Search and listing are proved once in the
    locale \<open>entry_source\<close>, interpreted for cluster chains, FAT32 roots and FAT16 roots; the inductive
    relation \<open>resolves\<close> is what a path means.
  \<^item> \<open>Kernel\<close>: the state of all components together and the window with its bytes.
  \<^item> \<open>Exec\<close>: \<open>kernel/process/exec.c\<close>, \<open>kernel/binfmt/\<close>, \<open>switch_to_user_mode\<close>.  \<open>Loader\<close>: what loading
    does.  \<open>Create\<close>: what \<open>exec\<close> does.
  \<^item> \<open>Syscall\<close>: \<open>kernel/syscall/\<close>.  \<open>Boot\<close>: \<open>kernel/kernel.c\<close>, the \<open>init.c\<close> files, \<open>init_tss\<close> and
    \<open>process_init\<close>, \<open>include/arch/x86/tss.h\<close>, \<open>kernel/intr/panic.c\<close>.

  \<^bold>\<open>What is shown.\<close>
  \<^item> Memory: frames are neither lost nor handed out twice in any sequence of operations; allocation
    of kernel pages maps exactly a fresh run of pages; address spaces are created, filled by page faults
    and freed with exactly their frames; the bytes of a window are the user's bytes, and closing it
    restores the kernel's pages; heap blocks never overlap, and their pages come back with the last of them.
  \<^item> Processes: the scheduler takes the first process of the ring that can run, returns exactly when there is
    one, starves nobody, and locks exclude each other; a fault gives the process a page or ends it, with
    exactly the frames and table entries that this takes (\<open>umm_entered\<close>, \<open>tables_same\<close>) and no effect on others.
  \<^item> Devices: console output refines the terminal, modifier flags follow the last press or
    release, drives get and deliver the right sectors, requests stay inside their partition.
  \<^item> Files: a read through path, directories, cluster chain, partition and drive delivers the bytes of the
    file; a missing file is an error; walks over chains end exactly when the chain does.
  \<^item> Programs: \<open>exec\<close> makes a process that gets the processor next and loads the path it was given, and takes
    exactly a directory and the pages it maps (\<open>space_added\<close>); an executable on the disk is in the memory of the
    process when user mode is entered at its entry point; \<open>sys_put\<close> shows the process's bytes; \<open>sys_get\<close> delivers the
    keys typed, except that a request that is served before its lock is closed waits for one key more; after
    \<open>kernel_init\<close> every interrupt runs its handler; the code that an interrupt comes in gets its registers back.

  \<^bold>\<open>Conventions.\<close>
  Machine integers are words of their width, so sums wrap as in the code; \<open>int\<close> results are read
  with \<open>sint\<close>, and \<open>-1\<close> is the error result.  Only character counts in \<open>Printk\<close>
  and positions in a transfer in \<open>Ata\<close> (below \<open>2 ^ 31\<close>) are unbounded, where C's \<open>int\<close> must not overflow.
  Loops with a fixed bound are \<open>for_loop\<close> or recursion on the number of turns left, so they need no fuel.
  A loop that may run for ever is a \<open>partial_function (option)\<close>, whose result \<open>None\<close> is that it
  does; theorems about it show \<open>Some\<close>, or when it is \<open>None\<close>.  \<open>sys_get\<close> and the \<open>intr_lock\<close> in it run with what the
  interrupts do between any two of their statements as a parameter, and take the list of what they do between two tests of a
  loop around \<open>halt\<close>; \<open>None\<close> is that no interrupt ends a \<open>halt\<close> any more.
  Objects of one type behind pointers (heap headers, disks, mounted volumes, processes) are functions of the
  address, kept apart from the byte memory of buffers; that heap blocks do not overlap is proved.  The text that
  \<open>printk\<close> formats is a list; \<open>printk_memory\<close> stores it into the memory at \<open>printk\<close>'s buffer, whose end it does not respect.  Local
  variables whose address is taken lie at addresses that are parameters.
  A window is loaded from the frames behind it when it is opened and stored when it is closed; this is
  shared memory as long as no other process has those frames, which the invariants give.

  \<^bold>\<open>Bounds.\<close>
  The theorems on windows and on programs assume that all frames are in the direct map (machines of at
  most 512 MB, \<open>direct_low\<close>); for more, \<open>vmm_mmap_pde_page\<close> has a defect that \<open>Umm\<close> shows.  \<open>binfmt_exec_starts\<close> is
  for executables with one segment to load among any number of program headers; \<open>load_segment_loads\<close> is
  for any segment, also of files that are too short.  Reads of files (\<open>aligned\<close>, \<open>part_of\<close>) start at a cluster boundary or stay
  in one cluster: others leave a gap in the buffer (\<open>fat.c:134\<close>).  Transfers to a drive end before its last sector, which
  \<open>ata.c:344\<close> and \<open>430\<close> cannot reach, and fit one command; offsets of \<open>disk_read\<close> lie within the disk (\<open>disk.c:119\<close>).

  \<^bold>\<open>Not modelled.\<close>
  Outside \<open>Stub\<close> the entry points of the vectors are their addresses and the idle loops are where a function
  ends.  Instruction wrappers (\<open>cpu.h\<close>, \<open>io.h\<close>) are their effects where they are used.  The messages of \<open>debug\<close>, which a flag of the Makefile turns on, are left
  out everywhere: they write to the screen and change nothing else.  Outside \<open>Stub\<close> the registers and the stack of a
  process, but for what \<open>switch_context\<close> and \<open>process_create\<close> store, are not part of the state, nor
  are the steps of user programs.  Interrupts come between operations, not inside them; the keyboard's also come
  between the statements of \<open>sys_get\<close> and \<open>intr_lock\<close>.
\<close>

end
